(* ===== verification/Kestrel_Prelude.thy ===== *)
theory Kestrel_Prelude
  imports Main "HOL-Library.Word" "HOL-Library.Monad_Syntax"
begin

text \<open>
  Shared vocabulary of the development: bytes and byte strings, Go's signed 64-bit
  integers, slices that panic out of range, \<open>copy\<close>, and the list lemmas that several
  components use.

  A Go panic (an index or slice bound out of range) is the value \<open>None\<close> of the type
  \<open>'a go\<close>; every operation that can panic returns in that type, and the component
  theories prove that it never does on well-formed state. A byte is an 8-bit word, a Go
  \<open>[]byte\<close> or \<open>string\<close> is a list of them. A Go \<open>int\<close> or
  \<open>int64\<close> is an \<open>int\<close>; where its width matters the wrap-around is
  written out with \<open>wrap64\<close>.
\<close>

named_theorems go_simps \<open>unfolding rules for slices, copies and machine integers\<close>
named_theorems rep_intros \<open>introduction rules for representation predicates\<close>
named_theorems codec_simps \<open>evaluation rules for encoders and decoders\<close>

type_synonym byte = "8 word"
type_synonym bytes = "byte list"
type_synonym 'a go = "'a option"

abbreviation CR :: byte where "CR \<equiv> 13"
abbreviation LF :: byte where "LF \<equiv> 10"
abbreviation Minus :: byte where "Minus \<equiv> 45"
abbreviation Plus :: byte where "Plus \<equiv> 43"
abbreviation Zero :: byte where "Zero \<equiv> 48"
abbreviation Nine :: byte where "Nine \<equiv> 57"
abbreviation Star :: byte where "Star \<equiv> 42"
abbreviation Dollar :: byte where "Dollar \<equiv> 36"

text \<open>A string literal of the source as the bytes Go stores for it.\<close>

definition lit :: "string \<Rightarrow> bytes" where
  "lit s = map of_char s"

subsection \<open>Signed 64-bit integers\<close>

abbreviation max_int64 :: int where "max_int64 \<equiv> 9223372036854775807"
abbreviation min_int64 :: int where "min_int64 \<equiv> -9223372036854775808"

definition wrap64 :: "int \<Rightarrow> int" where
  "wrap64 x = (x + 2 ^ 63) mod 2 ^ 64 - 2 ^ 63"

definition is_int64 :: "int \<Rightarrow> bool" where
  "is_int64 x \<longleftrightarrow> min_int64 \<le> x \<and> x \<le> max_int64"

lemma wrap64_id [simp]: "is_int64 x \<Longrightarrow> wrap64 x = x"
  by (simp add: wrap64_def is_int64_def)

lemma is_int64_wrap64: "is_int64 (wrap64 x)"
proof -
  have "0 \<le> (x + 2 ^ 63) mod 2 ^ 64" "(x + 2 ^ 63) mod 2 ^ 64 < 2 ^ 64"
    by simp_all
  then show ?thesis by (simp add: wrap64_def is_int64_def)
qed

text \<open>A Go slice has at most \<open>2 ^ 63 - 1\<close> elements, because its length is an \<open>int\<close>.\<close>

definition len_ok :: "'a list \<Rightarrow> bool" where
  "len_ok xs \<longleftrightarrow> length xs < 2 ^ 63"

lemma len_ok_wrap64 [simp]: "len_ok xs \<Longrightarrow> wrap64 (int (length xs)) = int (length xs)"
  by (rule wrap64_id) (simp add: len_ok_def is_int64_def)

subsection \<open>Slices and copy\<close>

definition go_slice :: "'a list \<Rightarrow> int \<Rightarrow> int \<Rightarrow> 'a list go" where
  "go_slice b lo hi =
     (if 0 \<le> lo \<and> lo \<le> hi \<and> hi \<le> int (length b)
      then Some (take (nat (hi - lo)) (drop (nat lo) b)) else None)"

text \<open>\<open>copy (b[w:], p)\<close>: as many bytes of \<open>p\<close> as fit, written from position \<open>w\<close>.\<close>

definition copy_at :: "'a list \<Rightarrow> nat \<Rightarrow> 'a list \<Rightarrow> 'a list" where
  "copy_at b w p =
     take w b @ take (length b - w) p @ drop (w + length p) b"

lemma length_copy_at [simp]: "w \<le> length b \<Longrightarrow> length (copy_at b w p) = length b"
  by (auto simp: copy_at_def)

lemma go_slice_append3 [go_simps]:
  "lo = int (length xs) \<Longrightarrow> hi = int (length xs + length ys) \<Longrightarrow>
   go_slice (xs @ ys @ zs) lo hi = Some ys"
  by (simp add: go_slice_def)

lemma copy_at_append [go_simps]:
  "w = length xs \<Longrightarrow> length p \<le> length ys \<Longrightarrow>
   copy_at (xs @ ys) w p = xs @ p @ drop (length p) ys"
  by (simp add: copy_at_def)

text \<open>\<open>xs[i]\<close>, which panics out of range.\<close>

definition lst_nth :: "'a list \<Rightarrow> int \<Rightarrow> 'a go" where
  "lst_nth xs i = (if 0 \<le> i \<and> i < int (length xs) then Some (xs ! nat i) else None)"

lemma lst_nth_Some [simp]: "i < length xs \<Longrightarrow> lst_nth xs (int i) = Some (xs ! i)"
  by (simp add: lst_nth_def)

subsection \<open>Lists\<close>

definition insert_at :: "nat \<Rightarrow> 'a \<Rightarrow> 'a list \<Rightarrow> 'a list" where
  "insert_at i x xs = take i xs @ x # drop i xs"

definition remove_at :: "nat \<Rightarrow> 'a list \<Rightarrow> 'a list" where
  "remove_at i xs = take i xs @ drop (Suc i) xs"

lemma length_remove_at [simp]: "i < length xs \<Longrightarrow> length (remove_at i xs) = length xs - 1"
  by (simp add: remove_at_def)

lemma length_insert_at [simp]: "length (insert_at i x xs) = Suc (length xs)"
  by (simp add: insert_at_def)

lemma set_insert_at [simp]: "set (insert_at i x xs) = insert x (set xs)"
proof -
  have "set xs = set (take i xs) \<union> set (drop i xs)"
    by (metis append_take_drop_id set_append)
  then show ?thesis by (auto simp: insert_at_def)
qed

lemma set_remove_at_subset: "set (remove_at i xs) \<subseteq> set xs"
  by (auto simp: remove_at_def dest: in_set_takeD in_set_dropD)

text \<open>The walk every collection offers: a callback with its own state that can stop it.\<close>

fun each_from :: "nat \<Rightarrow> ('s \<Rightarrow> nat \<Rightarrow> 'a \<Rightarrow> 's \<times> bool) \<Rightarrow> 's \<Rightarrow> 'a list \<Rightarrow> 's" where
  "each_from i f s [] = s"
| "each_from i f s (x # xs) =
     (case f s i x of (s', go_on) \<Rightarrow> if go_on then each_from (Suc i) f s' xs else s')"

text \<open>A \<open>nil\<close> slice where only its bytes matter.\<close>

definition nil_bytes :: "bytes option \<Rightarrow> bytes" where
  "nil_bytes b = (case b of None \<Rightarrow> [] | Some v \<Rightarrow> v)"

text \<open>
  \<open>make\<close> panics when the length is negative or the bytes asked for exceed the address space
  of the runtime, 2 to the 48 on 64-bit Linux.
\<close>

definition go_make :: "int \<Rightarrow> int \<Rightarrow> unit go" where
  "go_make n sz = (if 0 \<le> n \<and> n * sz \<le> 2 ^ 48 then Some () else None)"

subsection \<open>Sorted lists\<close>

lemma cut_position:
  assumes "\<And>i j. i < j \<Longrightarrow> j < length xs \<Longrightarrow> P (xs ! j) \<Longrightarrow> P (xs ! i)" "k < length xs"
  shows "P (xs ! k) \<longleftrightarrow> k < length (takeWhile P xs)"
proof
  assume "P (xs ! k)"
  then have "\<forall>i \<le> k. P (xs ! i)" using assms by (metis le_eq_less_or_eq)
  then show "k < length (takeWhile P xs)"
    using assms(2) nth_length_takeWhile[of P xs] by (meson linorder_not_less order_le_less_trans)
qed (metis nth_mem set_takeWhileD takeWhile_nth)

lemma sorted_cut:
  "sorted_wrt (<) xs \<Longrightarrow> k < length xs \<Longrightarrow> xs ! k < (t :: 'a :: linorder) \<longleftrightarrow> k < length (takeWhile (\<lambda>x. x < t) xs)"
  by (rule cut_position) (meson order_less_trans sorted_wrt_nth_less)+

lemma insort_insert_at:
  "sorted_wrt (<) xs \<Longrightarrow> t \<notin> set xs \<Longrightarrow> insort t xs = insert_at (length (takeWhile (\<lambda>x. x < t) xs)) t (xs :: 'a :: linorder list)"
  by (induction xs) (auto simp: insert_at_def insort_is_Cons)

lemma map_insert_at: "map f (insert_at m x xs) = insert_at m (f x) (map f xs)"
  by (simp add: insert_at_def take_map drop_map)

lemma map_remove_at: "map f (remove_at m xs) = remove_at m (map f xs)"
  by (simp add: remove_at_def take_map drop_map)

lemma sorted_remove_at: "sorted_wrt P xs \<Longrightarrow> m < length xs \<Longrightarrow> sorted_wrt P (remove_at m xs)"
  by (subst (asm) id_take_nth_drop[of m xs]) (auto simp: remove_at_def sorted_wrt_append)

lemma remove1_remove_at: "distinct xs \<Longrightarrow> m < length xs \<Longrightarrow> remove1 (xs ! m) xs = remove_at m xs"
proof -
  assume a: "distinct xs" "m < length xs"
  then have "xs ! m \<notin> set (take m xs)" by (metis distinct_append id_take_nth_drop in_set_conv_decomp_first not_distinct_conv_prefix)
  moreover have "remove1 (xs ! m) (take m xs @ xs ! m # drop (Suc m) xs) = remove_at m xs"
    using calculation by (simp add: remove1_append remove_at_def)
  ultimately show ?thesis using id_take_nth_drop[OF a(2)] by simp
qed

lemma length_takeWhile_nth:
  assumes "sorted_wrt (<) xs" "k < length (xs :: 'a :: linorder list)"
  shows "length (takeWhile (\<lambda>x. x < xs ! k) xs) = k"
proof -
  let ?m = "length (takeWhile (\<lambda>x. x < xs ! k) xs)"
  have c: "xs ! j < xs ! k \<longleftrightarrow> j < ?m" if "j < length xs" for j by (rule sorted_cut[OF assms(1) that])
  have "\<not> k < ?m" using c[OF assms(2)] by simp
  moreover have "\<not> ?m < k" using c[of ?m] sorted_wrt_nth_less[OF assms(1), of ?m k] assms(2) by auto
  ultimately show ?thesis by simp
qed

lemma distinct_remove_at: "distinct xs \<Longrightarrow> distinct (remove_at i xs)"
proof (cases "i < length xs")
  case True
  assume "distinct xs"
  then have "distinct (take i xs @ xs ! i # drop (Suc i) xs)" using id_take_nth_drop[OF True] by simp
  then show ?thesis by (simp add: remove_at_def)
qed (simp add: remove_at_def)

subsection \<open>Binary search\<close>

text \<open>\<open>sort.Search\<close>: the least index at which \<open>f\<close> holds, by bisection.\<close>

function search_loop :: "(nat \<Rightarrow> bool go) \<Rightarrow> nat \<Rightarrow> nat \<Rightarrow> nat go" where
  "search_loop f i j =
     (if i < j then
        (case f ((i + j) div 2) of
           None \<Rightarrow> None
         | Some b \<Rightarrow> if \<not> b then search_loop f ((i + j) div 2 + 1) j else search_loop f i ((i + j) div 2))
      else Some i)"
  by pat_completeness auto
termination
  by (relation "measure (\<lambda>(f, i, j). j - i)") auto

declare search_loop.simps [simp del]

definition sort_Search :: "nat \<Rightarrow> (nat \<Rightarrow> bool go) \<Rightarrow> nat go" where
  "sort_Search n f = search_loop f 0 n"

lemma search_loop_eq:
  "i \<le> m \<Longrightarrow> m \<le> j \<Longrightarrow> (\<And>h. h < j \<Longrightarrow> f h = Some (m \<le> h)) \<Longrightarrow> search_loop f i j = Some m"
proof (induction f i j rule: search_loop.induct)
  case (1 f i j)
  show ?case
  proof (cases "i < j")
    case True
    let ?h = "(i + j) div 2"
    have h: "?h < j" "i \<le> ?h" using True by auto
    have fh: "f ?h = Some (m \<le> ?h)" using "1.prems"(3)[OF h(1)] .
    show ?thesis
    proof (cases "m \<le> ?h")
      case True
      then show ?thesis
        using "1.IH"(2)[OF \<open>i < j\<close> fh] "1.prems" h fh \<open>i < j\<close> by (subst search_loop.simps) simp
    next
      case False
      then show ?thesis
        using "1.IH"(1)[OF \<open>i < j\<close> fh] "1.prems" h fh \<open>i < j\<close> by (subst search_loop.simps) simp
    qed
  next
    case False
    then show ?thesis using "1.prems" by (subst search_loop.simps) simp
  qed
qed

end
