(* ===== verification/Simulation.thy ===== *)
theory Simulation
  imports Kestrel_Prelude
begin

text \<open>
  The interface that the data structures of the engine offer to the code above them, stated
  once: a concrete step function that never panics, answers as an abstract step function does
  and keeps the relation between the two states. The lemmas about whole runs are proved here;
  each structure interprets the locale on its own operations.
\<close>

fun go_run :: "('op \<Rightarrow> 's \<Rightarrow> ('s \<times> 'r) go) \<Rightarrow> 'op list \<Rightarrow> 's \<Rightarrow> ('s \<times> 'r list) go" where
  "go_run step [] s = Some (s, [])"
| "go_run step (op # ops) s =
     do { (s', r) \<leftarrow> step op s; (s'', rs) \<leftarrow> go_run step ops s'; Some (s'', r # rs) }"

fun spec_run :: "('op \<Rightarrow> 'm \<Rightarrow> 'm \<times> 'r) \<Rightarrow> 'op list \<Rightarrow> 'm \<Rightarrow> 'm \<times> 'r list" where
  "spec_run spec [] m = (m, [])"
| "spec_run spec (op # ops) m =
     (case spec op m of (m', r) \<Rightarrow> case spec_run spec ops m' of (m'', rs) \<Rightarrow> (m'', r # rs))"

text \<open>A run whose operations are all admissible in the abstract state they meet.\<close>

fun ok_run :: "('op \<Rightarrow> 'm \<Rightarrow> bool) \<Rightarrow> ('op \<Rightarrow> 'm \<Rightarrow> 'm \<times> 'r) \<Rightarrow> 'op list \<Rightarrow> 'm \<Rightarrow> bool" where
  "ok_run ok spec [] m \<longleftrightarrow> True"
| "ok_run ok spec (op # ops) m \<longleftrightarrow> ok op m \<and> ok_run ok spec ops (fst (spec op m))"

text \<open>The contract of a structure that relies on its caller: an operation is promised to work only where it is admissible.\<close>

locale guarded_simulation =
  fixes rep :: "'s \<Rightarrow> 'm \<Rightarrow> bool"
    and new :: 's
    and empty :: 'm
    and ok :: "'op \<Rightarrow> 'm \<Rightarrow> bool"
    and step :: "'op \<Rightarrow> 's \<Rightarrow> ('s \<times> 'r) go"
    and spec :: "'op \<Rightarrow> 'm \<Rightarrow> 'm \<times> 'r"
  assumes guarded_new: "rep new empty"
    and guarded_step: "rep s m \<Longrightarrow> ok op m \<Longrightarrow> \<exists>s'. step op s = Some (s', snd (spec op m)) \<and> rep s' (fst (spec op m))"
begin

lemma guarded_run_rep:
  "rep s m \<Longrightarrow> ok_run ok spec ops m \<Longrightarrow>
   \<exists>s'. go_run step ops s = Some (s', snd (spec_run spec ops m)) \<and> rep s' (fst (spec_run spec ops m))"
proof (induction ops arbitrary: s m)
  case (Cons op ops)
  obtain s1 where s1: "step op s = Some (s1, snd (spec op m))" "rep s1 (fst (spec op m))"
    using guarded_step[OF Cons.prems(1), of op] Cons.prems(2) by auto
  show ?case using Cons.IH[OF s1(2)] Cons.prems(2) s1(1) by (auto simp: case_prod_unfold)
qed simp

lemma guarded_run_new:
  "ok_run ok spec ops empty \<Longrightarrow>
   \<exists>s. go_run step ops new = Some (s, snd (spec_run spec ops empty)) \<and> rep s (fst (spec_run spec ops empty))"
  by (rule guarded_run_rep[OF guarded_new])

end

locale simulation =
  fixes rep :: "'s \<Rightarrow> 'm \<Rightarrow> bool"
    and new :: 's
    and empty :: 'm
    and ok :: "'op \<Rightarrow> bool"
    and step :: "'op \<Rightarrow> 's \<Rightarrow> ('s \<times> 'r) go"
    and spec :: "'op \<Rightarrow> 'm \<Rightarrow> 'm \<times> 'r"
  assumes new_rep: "rep new empty"
    and step_rep: "rep s m \<Longrightarrow> ok op \<Longrightarrow> \<exists>s'. step op s = Some (s', snd (spec op m)) \<and> rep s' (fst (spec op m))"
begin

end

text \<open>A structure that works for every caller is a guarded one whose guard looks at the operation only.\<close>

sublocale simulation \<subseteq> guarded_simulation rep new empty "\<lambda>op m. ok op" step spec
  by unfold_locales (rule new_rep, rule step_rep)

context simulation
begin

lemma ok_run_list_all: "list_all ok ops \<Longrightarrow> ok_run (\<lambda>op m. ok op) spec ops m"
  by (induction ops arbitrary: m) auto

lemma run_rep:
  "rep s m \<Longrightarrow> list_all ok ops \<Longrightarrow>
   \<exists>s'. go_run step ops s = Some (s', snd (spec_run spec ops m)) \<and> rep s' (fst (spec_run spec ops m))"
  by (rule guarded_run_rep[OF _ ok_run_list_all])

lemma run_new:
  "list_all ok ops \<Longrightarrow>
   \<exists>s. go_run step ops new = Some (s, snd (spec_run spec ops empty)) \<and> rep s (fst (spec_run spec ops empty))"
  by (rule run_rep[OF new_rep])

lemma run_never_panics: "list_all ok ops \<Longrightarrow> go_run step ops new \<noteq> None"
  using run_new by fastforce

end

end
