(* ===== verification/Listpack.thy ===== *)
theory Listpack
  imports Kestrel_Prelude
begin

text \<open>
  The listpack of \<open>engine/listpack.go\<close>: entries laid end to end in one byte slice, each a
  uvarint length followed by its bytes. The definitions work on the bytes, exactly as the
  code does; \<open>lp_rep l xs\<close> says that the listpack \<open>l\<close> holds the entries
  \<open>xs\<close>, and every operation is shown to be the corresponding list operation and
  never to panic on a listpack that represents something.
\<close>

subsection \<open>encoding/binary: Uvarint and PutUvarint\<close>

fun PutUvarint :: "nat \<Rightarrow> bytes" where
  "PutUvarint x =
     (if x < 128 then [of_nat x] else of_nat (x mod 128 + 128) # PutUvarint (x div 128))"

declare PutUvarint.simps [simp del]

text \<open>
  The scan of \<open>binary.Uvarint\<close>: \<open>i\<close> counts bytes, \<open>x\<close> is the value so far
  and \<open>s = 7 * i\<close> the shift. The result is the value and the number of bytes read,
  0 when the buffer is too short and negative on overflow. The or of disjoint bits is
  written as a sum.
\<close>

fun uvarint_from :: "nat \<Rightarrow> nat \<Rightarrow> bytes \<Rightarrow> nat \<times> int" where
  "uvarint_from i x [] = (0, 0)"
| "uvarint_from i x (b # bs) =
     (if i = 10 then (0, - (int i + 1))
      else if unat b < 128 then
        (if i = 9 \<and> unat b > 1 then (0, - (int i + 1))
         else (x + unat b * 2 ^ (7 * i), int i + 1))
      else uvarint_from (Suc i) (x + (unat b mod 128) * 2 ^ (7 * i)) bs)"

definition Uvarint :: "bytes \<Rightarrow> nat \<times> int" where
  "Uvarint b = uvarint_from 0 0 b"

subsection \<open>The type and its operations\<close>

record listpack =
  lp_buf :: bytes
  lp_count :: nat

definition newListpack :: listpack where
  "newListpack = \<lparr>lp_buf = [], lp_count = 0\<rparr>"

definition lp_Len :: "listpack \<Rightarrow> nat" where
  "lp_Len l = lp_count l"

definition lp_ByteLen :: "listpack \<Rightarrow> nat" where
  "lp_ByteLen l = length (lp_buf l)"

text \<open>
  The loop of \<open>locate\<close>: skip \<open>n\<close> entries from offset \<open>off\<close>. The offset,
  payload length and header width come back as Go \<open>int\<close>s.
\<close>

fun lp_walk :: "bytes \<Rightarrow> int \<Rightarrow> nat \<Rightarrow> (int \<times> int \<times> int) go" where
  "lp_walk buf off n =
     do {
       rest \<leftarrow> go_slice buf off (int (length buf));
       case Uvarint rest of (v, w) \<Rightarrow>
         (case n of 0 \<Rightarrow> Some (off, wrap64 (int v), w)
          | Suc m \<Rightarrow> lp_walk buf (off + (w + wrap64 (int v))) m)
     }"

declare lp_walk.simps [simp del]

definition lp_locate :: "listpack \<Rightarrow> int \<Rightarrow> (int \<times> int \<times> int) go" where
  "lp_locate l i =
     (if i < 0 \<or> i \<ge> int (lp_count l) then Some (-1, 0, 0)
      else lp_walk (lp_buf l) 0 (nat i))"

definition lp_At :: "listpack \<Rightarrow> int \<Rightarrow> bytes option go" where
  "lp_At l i =
     do {
       (off, size, hdr) \<leftarrow> lp_locate l i;
       if off < 0 then Some None
       else map_option Some (go_slice (lp_buf l) (off + hdr) (off + hdr + size))
     }"

text \<open>\<open>CopyAt\<close> differs from \<open>At\<close> only in aliasing: the copy has the same bytes.\<close>

definition lp_CopyAt :: "listpack \<Rightarrow> int \<Rightarrow> bytes option go" where
  "lp_CopyAt l i = do { e \<leftarrow> lp_At l i; case e of None \<Rightarrow> Some None | Some b \<Rightarrow> Some (Some b) }"

definition lp_entryEnd :: "listpack \<Rightarrow> int \<Rightarrow> int go" where
  "lp_entryEnd l i =
     do {
       (off, size, hdr) \<leftarrow> lp_locate l i;
       if off < 0 then Some (int (length (lp_buf l))) else Some (off + hdr + size)
     }"

definition lp_Append :: "listpack \<Rightarrow> bytes \<Rightarrow> listpack" where
  "lp_Append l b =
     l\<lparr>lp_buf := (lp_buf l @ PutUvarint (length b)) @ b, lp_count := lp_count l + 1\<rparr>"

fun lp_AppendMany :: "listpack \<Rightarrow> bytes list \<Rightarrow> listpack" where
  "lp_AppendMany l [] = l"
| "lp_AppendMany l (e # es) = lp_AppendMany (lp_Append l e) es"

text \<open>
  \<open>splice\<close> has an in-place branch and a rebuilding one. Its capacity test
  \<open>need <= cap(l.buf)\<close> adds nothing to \<open>added <= removed\<close>, which already gives
  \<open>need <= len(l.buf) <= cap(l.buf)\<close>; it is therefore not a parameter here. The
  in-place branch writes the parts over the removed bytes, moves the tail down with one
  overlapping \<open>copy\<close> and truncates.
\<close>

fun copy_parts :: "bytes \<Rightarrow> nat \<Rightarrow> bytes list \<Rightarrow> bytes \<times> nat" where
  "copy_parts b w [] = (b, w)"
| "copy_parts b w (p # ps) =
     copy_parts (copy_at b w p) (w + min (length b - w) (length p)) ps"

definition splice_bytes :: "bytes \<Rightarrow> nat \<Rightarrow> nat \<Rightarrow> bytes list \<Rightarrow> bytes" where
  "splice_bytes buf from till parts =
     (let added = sum_list (map length parts);
          removed = till - from;
          need = length buf - removed + added
      in if added \<le> removed then
           (case copy_parts buf from parts of (b1, w) \<Rightarrow>
              take need (copy_at b1 w (drop till b1)))
         else (take from buf @ concat parts) @ drop till buf)"

definition lp_splice :: "listpack \<Rightarrow> int \<Rightarrow> int \<Rightarrow> bytes list \<Rightarrow> listpack go" where
  "lp_splice l from till parts =
     (if 0 \<le> from \<and> from \<le> till \<and> till \<le> int (length (lp_buf l))
      then Some (l\<lparr>lp_buf := splice_bytes (lp_buf l) (nat from) (nat till) parts\<rparr>)
      else None)"

definition lp_InsertAt :: "listpack \<Rightarrow> int \<Rightarrow> bytes \<Rightarrow> listpack go" where
  "lp_InsertAt l i b =
     (if i \<ge> int (lp_count l) then Some (lp_Append l b)
      else do {
        (off0, _, _) \<leftarrow> lp_locate l i;
        let off = (if off0 < 0 then 0 else off0);
        l' \<leftarrow> lp_splice l off off [PutUvarint (length b), b];
        Some (l'\<lparr>lp_count := lp_count l' + 1\<rparr>)
      })"

definition lp_SetAt :: "listpack \<Rightarrow> int \<Rightarrow> bytes \<Rightarrow> listpack go" where
  "lp_SetAt l i b =
     do {
       (off, size, hdr) \<leftarrow> lp_locate l i;
       if off < 0 then Some l
       else lp_splice l off (off + hdr + size) [PutUvarint (length b), b]
     }"

definition lp_DeleteAt :: "listpack \<Rightarrow> int \<Rightarrow> listpack go" where
  "lp_DeleteAt l i =
     do {
       (off, size, hdr) \<leftarrow> lp_locate l i;
       if off < 0 then Some l
       else do {
         l' \<leftarrow> lp_splice l off (off + hdr + size) [];
         Some (l'\<lparr>lp_count := lp_count l' - 1\<rparr>)
       }
     }"

definition lp_DeleteRun :: "listpack \<Rightarrow> int \<Rightarrow> int \<Rightarrow> listpack go" where
  "lp_DeleteRun l i n0 =
     (if n0 \<le> 0 \<or> i < 0 \<or> i \<ge> int (lp_count l) then Some l
      else
        let n = (if i + n0 > int (lp_count l) then int (lp_count l) - i else n0)
        in do {
          (start, _, _) \<leftarrow> lp_locate l i;
          stop \<leftarrow> lp_entryEnd l (i + n - 1);
          l' \<leftarrow> lp_splice l start stop [];
          Some (l'\<lparr>lp_count := lp_count l' - nat n\<rparr>)
        })"

definition lp_Truncate :: "listpack \<Rightarrow> int \<Rightarrow> listpack go" where
  "lp_Truncate l n =
     (if n \<ge> int (lp_count l) then Some l
      else if n \<le> 0 then Some (l\<lparr>lp_buf := [], lp_count := 0\<rparr>)
      else do {
        e \<leftarrow> lp_entryEnd l (n - 1);
        b \<leftarrow> go_slice (lp_buf l) 0 e;
        Some (l\<lparr>lp_buf := b, lp_count := nat n\<rparr>)
      })"

definition lp_TrimFront :: "listpack \<Rightarrow> int \<Rightarrow> listpack go" where
  "lp_TrimFront l n = lp_DeleteRun l 0 n"

text \<open>
  \<open>Each\<close>: \<open>k\<close> entries remain, the next one is entry \<open>i\<close> at offset \<open>off\<close>.
  The callback carries its own state and answers whether to go on.
\<close>

fun lp_each_loop ::
  "bytes \<Rightarrow> ('s \<Rightarrow> nat \<Rightarrow> bytes \<Rightarrow> 's \<times> bool) \<Rightarrow> 's \<Rightarrow> nat \<Rightarrow> int \<Rightarrow> nat \<Rightarrow> 's go" where
  "lp_each_loop buf f s i off 0 = Some s"
| "lp_each_loop buf f s i off (Suc k) =
     do {
       rest \<leftarrow> go_slice buf off (int (length buf));
       case Uvarint rest of (v, w) \<Rightarrow>
         do {
           e \<leftarrow> go_slice buf (off + w) (off + w + wrap64 (int v));
           case f s i e of (s', go_on) \<Rightarrow>
             if go_on then lp_each_loop buf f s' (Suc i) (off + (w + wrap64 (int v))) k
             else Some s'
         }
     }"

definition lp_Each :: "listpack \<Rightarrow> ('s \<Rightarrow> nat \<Rightarrow> bytes \<Rightarrow> 's \<times> bool) \<Rightarrow> 's \<Rightarrow> 's go" where
  "lp_Each l f s = lp_each_loop (lp_buf l) f s 0 0 (lp_count l)"

definition lp_IndexOf :: "listpack \<Rightarrow> bytes \<Rightarrow> int go" where
  "lp_IndexOf l b =
     lp_Each l (\<lambda>found i e. if e = b then (int i, False) else (found, True)) (-1)"

definition lp_IndexOfStep :: "listpack \<Rightarrow> bytes \<Rightarrow> nat \<Rightarrow> nat \<Rightarrow> int go" where
  "lp_IndexOfStep l b step offset =
     lp_Each l (\<lambda>found i e. if i mod step = offset \<and> e = b then (int i, False) else (found, True)) (-1)"

definition lp_MaxEntryLen :: "listpack \<Rightarrow> nat go" where
  "lp_MaxEntryLen l = lp_Each l (\<lambda>m _ e. (if length e > m then length e else m, True)) 0"

definition lp_Clone :: "listpack \<Rightarrow> listpack" where
  "lp_Clone l = \<lparr>lp_buf = copy_at (replicate (length (lp_buf l)) 0) 0 (lp_buf l), lp_count = lp_count l\<rparr>"

text \<open>\<open>growCap\<close>: the capacity of a rebuilt buffer, doubled from 64.\<close>

function growCap_loop :: "nat \<Rightarrow> nat \<Rightarrow> nat" where
  "growCap_loop c n = (if 0 < c \<and> c < n then growCap_loop (c * 2) n else c)"
  by pat_completeness auto
termination
  by (relation "measure (\<lambda>(c, n). n - c)") auto

declare growCap_loop.simps [simp del]

definition growCap :: "nat \<Rightarrow> nat" where
  "growCap n = growCap_loop 64 n"

subsection \<open>Uvarint reads back what PutUvarint wrote\<close>

lemma PutUvarint_small: "x < 128 \<Longrightarrow> PutUvarint x = [of_nat x]"
  by (simp add: PutUvarint.simps)

lemma PutUvarint_large:
  "\<not> x < 128 \<Longrightarrow> PutUvarint x = of_nat (x mod 128 + 128) # PutUvarint (x div 128)"
  by (simp add: PutUvarint.simps)

lemma unat_byte_of_nat: "n < 256 \<Longrightarrow> unat (of_nat n :: byte) = n"
  by (simp add: unat_of_nat)

lemma uvarint_from_Put:
  "i \<le> 9 \<Longrightarrow> x < 2 ^ (64 - 7 * i) \<Longrightarrow>
   uvarint_from i a (PutUvarint x @ rest) =
     (a + x * 2 ^ (7 * i), int i + int (length (PutUvarint x)))"
proof (induction x arbitrary: i a rule: PutUvarint.induct)
  case (1 x)
  show ?case
  proof (cases "x < 128")
    case True
    have "i = 9 \<Longrightarrow> \<not> 1 < x" using "1.prems"(2) by simp
    then show ?thesis
      using True "1.prems"(1) by (auto simp: PutUvarint_small unat_byte_of_nat)
  next
    case False
    have i: "i \<noteq> 9" using False "1.prems"(2) by auto
    then have i8: "Suc i \<le> 9" using "1.prems"(1) by simp
    have pow: "(2::nat) ^ (64 - 7 * i) = 2 ^ (64 - 7 * Suc i) * 128"
    proof -
      have "64 - 7 * i = (64 - 7 * Suc i) + 7" using i8 by simp
      then have "(2::nat) ^ (64 - 7 * i) = 2 ^ (64 - 7 * Suc i) * 2 ^ 7"
        by (metis power_add)
      then show ?thesis by simp
    qed
    have "x div 128 < 2 ^ (64 - 7 * Suc i)"
      using "1.prems"(2) unfolding pow by (simp add: less_mult_imp_div_less)
    then have IH: "uvarint_from (Suc i) (a + (x mod 128) * 2 ^ (7 * i)) (PutUvarint (x div 128) @ rest) =
      (a + (x mod 128) * 2 ^ (7 * i) + (x div 128) * 2 ^ (7 * Suc i),
       int (Suc i) + int (length (PutUvarint (x div 128))))"
      using "1.IH"[OF False] i8 by blast
    have val: "x mod 128 * 2 ^ (7 * i) + x div 128 * 2 ^ (7 * Suc i) = x * 2 ^ (7 * i)"
    proof -
      have "x * 2 ^ (7 * i) = (x div 128 * 128 + x mod 128) * 2 ^ (7 * i)"
        by (simp only: div_mult_mod_eq)
      also have "\<dots> = x mod 128 * 2 ^ (7 * i) + x div 128 * (128 * 2 ^ (7 * i))"
        by (simp only: add_mult_distrib mult.assoc add.commute)
      also have "(128::nat) * 2 ^ (7 * i) = 2 ^ (7 * Suc i)"
        by (simp add: power_add)
      finally show ?thesis by (rule sym)
    qed
    have "unat (of_nat (x mod 128 + 128) :: byte) = x mod 128 + 128"
      by (rule unat_byte_of_nat) simp
    moreover have "i \<noteq> 10" using "1.prems"(1) by simp
    ultimately show ?thesis
      using IH val by (simp add: PutUvarint_large[OF False] add.assoc)
  qed
qed

lemma Uvarint_Put [simp]:
  "x < 2 ^ 63 \<Longrightarrow> Uvarint (PutUvarint x @ rest) = (x, int (length (PutUvarint x)))"
  using uvarint_from_Put[of 0 x 0 rest] by (simp add: Uvarint_def)

lemma growCap_ge: "n \<le> growCap n"
proof -
  have "0 < c \<Longrightarrow> n \<le> growCap_loop c n" for c
  proof (induction c n rule: growCap_loop.induct)
    case (1 c n)
    then show ?case by (cases "c < n") (simp_all add: growCap_loop.simps[of c n])
  qed
  then show ?thesis by (simp add: growCap_def)
qed

subsection \<open>The representation predicate\<close>

definition lp_entry :: "bytes \<Rightarrow> bytes" where
  "lp_entry b = PutUvarint (length b) @ b"

definition lp_enc :: "bytes list \<Rightarrow> bytes" where
  "lp_enc xs = concat (map lp_entry xs)"

definition lp_rep :: "listpack \<Rightarrow> bytes list \<Rightarrow> bool" where
  "lp_rep l xs \<longleftrightarrow> lp_buf l = lp_enc xs \<and> lp_count l = length xs \<and> list_all len_ok xs"

lemma lp_enc_simps [simp]:
  "lp_enc [] = []" "lp_enc (x # xs) = lp_entry x @ lp_enc xs"
  "lp_enc (xs @ ys) = lp_enc xs @ lp_enc ys"
  by (simp_all add: lp_enc_def)

lemma lp_enc_split:
  "i < length xs \<Longrightarrow>
   lp_enc xs = lp_enc (take i xs) @ lp_entry (xs ! i) @ lp_enc (drop (Suc i) xs)"
  by (metis id_take_nth_drop lp_enc_simps(2,3))

lemma lp_enc_take_drop: "lp_enc xs = lp_enc (take i xs) @ lp_enc (drop i xs)"
  by (metis append_take_drop_id lp_enc_simps(3))

lemma lp_rep_Len: "lp_rep l xs \<Longrightarrow> lp_Len l = length xs"
  by (simp add: lp_rep_def lp_Len_def)

lemma lp_rep_new [rep_intros]: "lp_rep newListpack []"
  by (simp add: lp_rep_def newListpack_def)

lemma list_all_sub: "list_all P xs \<Longrightarrow> set ys \<subseteq> set xs \<Longrightarrow> list_all P ys"
  by (auto simp: list_all_iff)

text \<open>Two listpacks with the same contents are the same bytes: the encoding is canonical.\<close>

lemma lp_rep_inj_buf: "lp_rep l xs \<Longrightarrow> lp_rep l' xs \<Longrightarrow> l = l'"
  by (simp add: lp_rep_def)

subsection \<open>Splice\<close>

lemma copy_parts_fit:
  "sum_list (map length ps) \<le> length m \<Longrightarrow>
   copy_parts (a @ m) (length a) ps =
     (a @ concat ps @ drop (length (concat ps)) m, length a + length (concat ps))"
proof (induction ps arbitrary: a m)
  case Nil
  then show ?case by simp
next
  case (Cons p ps)
  have "copy_at (a @ m) (length a) p = (a @ p) @ drop (length p) m"
    using Cons.prems by (simp add: copy_at_append)
  moreover have "copy_parts ((a @ p) @ drop (length p) m) (length (a @ p)) ps =
      ((a @ p) @ concat ps @ drop (length (concat ps)) (drop (length p) m),
       length (a @ p) + length (concat ps))"
    using Cons.prems by (intro Cons.IH) simp
  ultimately show ?case using Cons.prems by (simp add: add.commute)
qed

lemma splice_bytes_eq:
  assumes "from = length a" "till = length a + length m"
  shows "splice_bytes (a @ m @ c) from till parts = a @ concat parts @ c"
proof (cases "sum_list (map length parts) \<le> length m")
  case True
  let ?s = "length (concat parts)"
  have s: "?s = sum_list (map length parts)" by (simp add: length_concat)
  have cp: "copy_parts (a @ m @ c) (length a) parts =
      (a @ concat parts @ drop ?s m @ c, length a + ?s)"
    using True copy_parts_fit[of parts "m @ c" a] s by simp
  have tail: "drop till (a @ concat parts @ drop ?s m @ c) = c"
    using True assms(2) s by simp
  have "copy_at ((a @ concat parts) @ drop ?s m @ c) (length a + ?s) c =
      (a @ concat parts) @ c @ drop (length c) (drop ?s m @ c)"
    by (intro copy_at_append) simp_all
  then show ?thesis
    using True assms tail s by (simp add: splice_bytes_def Let_def cp)
next
  case False
  then show ?thesis using assms by (simp add: splice_bytes_def Let_def)
qed

lemma lp_splice_eq:
  assumes "lp_buf l = a @ m @ c" "from = int (length a)" "till = int (length a + length m)"
  shows "lp_splice l from till parts = Some (l\<lparr>lp_buf := a @ concat parts @ c\<rparr>)"
  using assms by (simp add: lp_splice_def splice_bytes_eq)

subsection \<open>Locating an entry\<close>

lemma go_slice_tail [go_simps]:
  "lo = int (length a) \<Longrightarrow> hi = int (length a) + int (length b) \<Longrightarrow> go_slice (a @ b) lo hi = Some b"
  by (simp add: go_slice_def)

lemma lp_walk_rep:
  assumes "n < length xs" "list_all len_ok xs"
  shows "lp_walk (pre @ lp_enc xs) (int (length pre)) n =
    Some (int (length pre + length (lp_enc (take n xs))), int (length (xs ! n)),
          int (length (PutUvarint (length (xs ! n)))))"
  using assms
proof (induction n arbitrary: pre xs)
  case 0
  then obtain y ys where xs: "xs = y # ys" by (cases xs) auto
  have "Uvarint (lp_enc xs) = (length y, int (length (PutUvarint (length y))))"
    using 0 xs by (simp add: lp_entry_def len_ok_def)
  then show ?case
    using 0 xs by (simp add: lp_walk.simps[of _ _ 0] go_slice_tail)
next
  case (Suc n)
  then obtain y ys where xs: "xs = y # ys" by (cases xs) auto
  have y: "len_ok y" and ys: "list_all len_ok ys" and n: "n < length ys"
    using Suc.prems xs by simp_all
  have uv: "Uvarint (lp_enc xs) = (length y, int (length (PutUvarint (length y))))"
    using y xs by (simp add: lp_entry_def len_ok_def)
  have off: "int (length pre) + (int (length (PutUvarint (length y))) + int (length y)) =
      int (length (pre @ lp_entry y))"
    by (simp add: lp_entry_def)
  have "lp_walk (pre @ lp_enc xs) (int (length pre)) (Suc n) =
      lp_walk ((pre @ lp_entry y) @ lp_enc ys) (int (length (pre @ lp_entry y))) n"
    using y uv off xs by (subst lp_walk.simps) (simp add: go_slice_tail)
  also have "\<dots> = Some (int (length (pre @ lp_entry y) + length (lp_enc (take n ys))),
      int (length (ys ! n)), int (length (PutUvarint (length (ys ! n)))))"
    by (rule Suc.IH[OF n ys])
  finally show ?case using xs by (simp add: add.assoc)
qed

lemma lp_locate_rep:
  assumes "lp_rep l xs" "0 \<le> i" "i < int (length xs)"
  shows "lp_locate l i =
    Some (int (length (lp_enc (take (nat i) xs))), int (length (xs ! nat i)),
          int (length (PutUvarint (length (xs ! nat i)))))"
  using assms lp_walk_rep[of "nat i" xs "[]"] by (simp add: lp_locate_def lp_rep_def)

lemma lp_locate_out:
  assumes "lp_rep l xs" "i < 0 \<or> int (length xs) \<le> i"
  shows "lp_locate l i = Some (-1, 0, 0)"
  using assms by (auto simp: lp_locate_def lp_rep_def)

lemma lp_entryEnd_rep:
  assumes "lp_rep l xs" "0 \<le> i" "i < int (length xs)"
  shows "lp_entryEnd l i = Some (int (length (lp_enc (take (Suc (nat i)) xs))))"
proof -
  have "take (Suc (nat i)) xs = take (nat i) xs @ [xs ! nat i]"
    using assms by (intro take_Suc_conv_app_nth) linarith
  then show ?thesis using lp_locate_rep[OF assms] by (simp add: lp_entryEnd_def lp_entry_def)
qed

subsection \<open>Every operation is the list operation, and none panics\<close>

lemma lp_repI:
  "lp_buf l = lp_enc xs \<Longrightarrow> lp_count l = length xs \<Longrightarrow> list_all len_ok xs \<Longrightarrow> lp_rep l xs"
  by (simp add: lp_rep_def)

lemma lp_repD:
  assumes "lp_rep l xs"
  shows "lp_buf l = lp_enc xs" "lp_count l = length xs" "list_all len_ok xs"
  using assms by (simp_all add: lp_rep_def)

lemma lp_At_rep:
  assumes "lp_rep l xs"
  shows "lp_At l i = Some (if 0 \<le> i \<and> i < int (length xs) then Some (xs ! nat i) else None)"
proof (cases "0 \<le> i \<and> i < int (length xs)")
  case True
  then have i: "nat i < length xs" by linarith
  have "lp_buf l = (lp_enc (take (nat i) xs) @ PutUvarint (length (xs ! nat i))) @
      (xs ! nat i) @ lp_enc (drop (Suc (nat i)) xs)"
    using lp_enc_split[OF i] lp_repD(1)[OF assms] by (simp add: lp_entry_def)
  then have "go_slice (lp_buf l)
      (int (length (lp_enc (take (nat i) xs) @ PutUvarint (length (xs ! nat i)))))
      (int (length (lp_enc (take (nat i) xs) @ PutUvarint (length (xs ! nat i))) + length (xs ! nat i)))
      = Some (xs ! nat i)"
    by (simp only:) (rule go_slice_append3[OF refl refl])
  then show ?thesis using True lp_locate_rep[OF assms] by (simp add: lp_At_def)
next
  case False
  then show ?thesis using lp_locate_out[OF assms] by (auto simp: lp_At_def)
qed

lemma lp_CopyAt_rep:
  assumes "lp_rep l xs"
  shows "lp_CopyAt l i = Some (if 0 \<le> i \<and> i < int (length xs) then Some (xs ! nat i) else None)"
  using lp_At_rep[OF assms] by (simp add: lp_CopyAt_def)

lemma lp_Append_rep [rep_intros]:
  "lp_rep l xs \<Longrightarrow> len_ok b \<Longrightarrow> lp_rep (lp_Append l b) (xs @ [b])"
  by (simp add: lp_rep_def lp_Append_def lp_entry_def)

lemma lp_AppendMany_rep [rep_intros]:
  "lp_rep l xs \<Longrightarrow> list_all len_ok es \<Longrightarrow> lp_rep (lp_AppendMany l es) (xs @ es)"
proof (induction es arbitrary: l xs)
  case (Cons e es)
  then have "lp_rep (lp_Append l e) (xs @ [e])" by (simp add: lp_Append_rep)
  from Cons.IH[OF this] Cons.prems show ?case by simp
qed simp

text \<open>Replacing the run of entries from \<open>i\<close> up to \<open>j\<close> by the encoding of \<open>new\<close>.\<close>

lemma lp_splice_rep:
  assumes "lp_rep l xs" "i \<le> j" "j \<le> length xs" "concat parts = lp_enc new" "list_all len_ok new"
    and "from = int (length (lp_enc (take i xs)))" "till = int (length (lp_enc (take j xs)))"
    and "c = length (take i xs @ new @ drop j xs)"
  shows "\<exists>l'. lp_splice l from till parts = Some l' \<and> lp_count l' = lp_count l \<and>
    lp_rep (l'\<lparr>lp_count := c\<rparr>) (take i xs @ new @ drop j xs)"
proof -
  let ?m = "take (j - i) (drop i xs)"
  have tj: "take j xs = take i xs @ ?m"
    using assms(2) by (metis le_add_diff_inverse take_add)
  have "lp_buf l = lp_enc (take i xs) @ lp_enc ?m @ lp_enc (drop j xs)"
    using lp_enc_take_drop[of xs j] lp_repD(1)[OF assms(1)] tj by simp
  then have "lp_splice l from till parts =
      Some (l\<lparr>lp_buf := lp_enc (take i xs) @ concat parts @ lp_enc (drop j xs)\<rparr>)"
    by (rule lp_splice_eq) (simp_all add: assms(6,7) tj)
  moreover have "lp_rep (l\<lparr>lp_buf := lp_enc (take i xs) @ concat parts @ lp_enc (drop j xs),
      lp_count := c\<rparr>) (take i xs @ new @ drop j xs)"
    using assms(4,5,8) lp_repD(3)[OF assms(1)]
    by (intro lp_repI) (auto simp: list_all_iff dest: in_set_takeD in_set_dropD)
  ultimately show ?thesis by simp
qed

lemma lp_end_offset:
  assumes "i < length xs"
  shows "int (length (lp_enc (take i xs))) + int (length (PutUvarint (length (xs ! i)))) +
    int (length (xs ! i)) = int (length (lp_enc (take (Suc i) xs)))"
  using assms by (simp add: take_Suc_conv_app_nth lp_entry_def)

lemma lp_InsertAt_rep:
  assumes "lp_rep l xs" "len_ok b"
  shows "\<exists>l'. lp_InsertAt l i b = Some l' \<and> lp_rep l' (insert_at (nat i) b xs)"
proof (cases "i \<ge> int (length xs)")
  case True
  then have "insert_at (nat i) b xs = xs @ [b]" by (simp add: insert_at_def)
  then show ?thesis
    using True lp_Append_rep[OF assms] lp_repD(2)[OF assms(1)] by (simp add: lp_InsertAt_def)
next
  case False
  let ?off = "int (length (lp_enc (take (nat i) xs)))"
  have loc: "\<exists>o0 v w. lp_locate l i = Some (o0, v, w) \<and> (if o0 < 0 then 0 else o0) = ?off"
    using False lp_locate_rep[OF assms(1)] lp_locate_out[OF assms(1)] by (cases "i < 0") auto
  have "\<exists>l'. lp_splice l ?off ?off [PutUvarint (length b), b] = Some l' \<and> lp_count l' = lp_count l \<and>
      lp_rep (l'\<lparr>lp_count := Suc (length xs)\<rparr>) (take (nat i) xs @ [b] @ drop (nat i) xs)"
    using False assms by (intro lp_splice_rep) (auto simp: lp_entry_def)
  then show ?thesis
    using False loc lp_repD(2)[OF assms(1)]
    by (auto simp: lp_InsertAt_def Let_def insert_at_def)
qed

lemma lp_SetAt_rep:
  assumes "lp_rep l xs" "len_ok b"
  shows "\<exists>l'. lp_SetAt l i b = Some l' \<and>
    lp_rep l' (if 0 \<le> i \<and> i < int (length xs) then xs[nat i := b] else xs)"
proof (cases "0 \<le> i \<and> i < int (length xs)")
  case True
  then have i: "nat i < length xs" by linarith
  have loc: "lp_locate l i = Some (int (length (lp_enc (take (nat i) xs))), int (length (xs ! nat i)),
      int (length (PutUvarint (length (xs ! nat i)))))"
    using True by (intro lp_locate_rep[OF assms(1)]) auto
  have "xs[nat i := b] = take (nat i) xs @ [b] @ drop (Suc (nat i)) xs"
    using i by (simp add: upd_conv_take_nth_drop)
  moreover have "\<exists>l'. lp_splice l (int (length (lp_enc (take (nat i) xs))))
      (int (length (lp_enc (take (Suc (nat i)) xs)))) [PutUvarint (length b), b] = Some l' \<and>
      lp_count l' = lp_count l \<and>
      lp_rep (l'\<lparr>lp_count := length xs\<rparr>) (take (nat i) xs @ [b] @ drop (Suc (nat i)) xs)"
    using i assms by (intro lp_splice_rep) (auto simp: lp_entry_def)
  then obtain l' where "lp_splice l (int (length (lp_enc (take (nat i) xs))))
      (int (length (lp_enc (take (Suc (nat i)) xs)))) [PutUvarint (length b), b] = Some l'"
    "lp_count l' = lp_count l"
    "lp_rep (l'\<lparr>lp_count := length xs\<rparr>) (take (nat i) xs @ [b] @ drop (Suc (nat i)) xs)"
    by blast
  moreover have "l'\<lparr>lp_count := length xs\<rparr> = l'"
    using \<open>lp_count l' = lp_count l\<close> lp_repD(2)[OF assms(1)] by simp
  ultimately show ?thesis
    using True loc lp_end_offset[OF i] by (simp add: lp_SetAt_def)
next
  case False
  then show ?thesis using lp_locate_out[OF assms(1)] assms(1) by (auto simp: lp_SetAt_def)
qed

lemma lp_DeleteAt_rep:
  assumes "lp_rep l xs"
  shows "\<exists>l'. lp_DeleteAt l i = Some l' \<and>
    lp_rep l' (if 0 \<le> i \<and> i < int (length xs) then remove_at (nat i) xs else xs)"
proof (cases "0 \<le> i \<and> i < int (length xs)")
  case True
  then have i: "nat i < length xs" by linarith
  have loc: "lp_locate l i = Some (int (length (lp_enc (take (nat i) xs))), int (length (xs ! nat i)),
      int (length (PutUvarint (length (xs ! nat i)))))"
    using True by (intro lp_locate_rep[OF assms]) auto
  have "\<exists>l'. lp_splice l (int (length (lp_enc (take (nat i) xs))))
      (int (length (lp_enc (take (Suc (nat i)) xs)))) [] = Some l' \<and>
      lp_count l' = lp_count l \<and>
      lp_rep (l'\<lparr>lp_count := length xs - 1\<rparr>) (take (nat i) xs @ [] @ drop (Suc (nat i)) xs)"
    using i assms by (intro lp_splice_rep) auto
  then show ?thesis
    using True loc lp_end_offset[OF i] lp_repD(2)[OF assms]
    by (auto simp: lp_DeleteAt_def remove_at_def)
next
  case False
  then show ?thesis using lp_locate_out[OF assms] assms by (auto simp: lp_DeleteAt_def)
qed

lemma lp_DeleteRun_rep:
  assumes "lp_rep l xs"
  shows "\<exists>l'. lp_DeleteRun l i n = Some l' \<and>
    lp_rep l' (if n \<le> 0 \<or> i < 0 \<or> i \<ge> int (length xs) then xs
               else take (nat i) xs @ drop (nat i + nat n) xs)"
proof (cases "n \<le> 0 \<or> i < 0 \<or> i \<ge> int (length xs)")
  case True
  then show ?thesis using assms lp_repD(2)[OF assms] by (auto simp: lp_DeleteRun_def)
next
  case False
  define m where "m = (if i + n > int (length xs) then int (length xs) - i else n)"
  define j where "j = nat (i + m)"
  have m: "0 < m" "i + m \<le> int (length xs)" and i: "0 \<le> i" "i < int (length xs)"
    using False by (auto simp: m_def)
  have j: "nat i \<le> j" "j \<le> length xs" "Suc (nat (i + m - 1)) = j" "j - nat i = nat m"
    using m i by (auto simp: j_def)
  have dr: "drop (nat i + nat n) xs = drop j xs"
  proof (cases "i + n > int (length xs)")
    case True
    then have "length xs \<le> nat i + nat n" "j = length xs" using i by (auto simp: j_def m_def)
    then show ?thesis by simp
  next
    case False
    then show ?thesis using i m by (simp add: j_def m_def nat_add_distrib)
  qed
  have en: "lp_entryEnd l (i + m - 1) = Some (int (length (lp_enc (take j xs))))"
    using lp_entryEnd_rep[OF assms, of "i + m - 1"] m i j(3) by simp
  have "\<exists>l'. lp_splice l (int (length (lp_enc (take (nat i) xs))))
      (int (length (lp_enc (take j xs)))) [] = Some l' \<and> lp_count l' = lp_count l \<and>
      lp_rep (l'\<lparr>lp_count := length xs - nat m\<rparr>) (take (nat i) xs @ [] @ drop j xs)"
    using j assms i by (intro lp_splice_rep) auto
  moreover have "(if int (lp_count l) < i + n then int (lp_count l) - i else n) = m"
    using lp_repD(2)[OF assms] by (simp add: m_def)
  ultimately show ?thesis
    using False en dr lp_locate_rep[OF assms i] lp_repD(2)[OF assms]
    by (auto simp: lp_DeleteRun_def Let_def)
qed

lemma lp_Truncate_rep:
  assumes "lp_rep l xs"
  shows "\<exists>l'. lp_Truncate l n = Some l' \<and> lp_rep l' (take (nat n) xs)"
proof (cases "0 < n \<and> n < int (length xs)")
  case True
  then have n: "0 \<le> n - 1" "n - 1 < int (length xs)" "Suc (nat (n - 1)) = nat n" by auto
  have en: "lp_entryEnd l (n - 1) = Some (int (length (lp_enc (take (nat n) xs))))"
    using lp_entryEnd_rep[OF assms n(1,2)] n(3) by simp
  have "go_slice (lp_buf l) 0 (int (length (lp_enc (take (nat n) xs)))) = Some (lp_enc (take (nat n) xs))"
    using lp_enc_take_drop[of xs "nat n"] lp_repD(1)[OF assms] by (simp add: go_slice_def)
  moreover have "lp_rep (l\<lparr>lp_buf := lp_enc (take (nat n) xs), lp_count := nat n\<rparr>) (take (nat n) xs)"
    using True lp_repD(3)[OF assms] by (intro lp_repI) (auto simp: list_all_iff dest: in_set_takeD)
  ultimately show ?thesis using True en lp_repD(2)[OF assms] by (simp add: lp_Truncate_def)
next
  case False
  then show ?thesis using assms lp_repD[OF assms] by (auto simp: lp_Truncate_def intro!: lp_repI)
qed

lemma lp_Clone_id [simp]: "lp_Clone l = l"
  by (simp add: lp_Clone_def copy_at_def)

lemma lp_each_loop_rep:
  "list_all len_ok xs \<Longrightarrow>
   lp_each_loop (pre @ lp_enc xs) f s i (int (length pre)) (length xs) = Some (each_from i f s xs)"
proof (induction xs arbitrary: pre s i)
  case Nil
  then show ?case by simp
next
  case (Cons x xs)
  have x: "len_ok x" and uv: "Uvarint (lp_enc (x # xs)) = (length x, int (length (PutUvarint (length x))))"
    using Cons.prems by (simp_all add: lp_entry_def len_ok_def)
  have rest: "go_slice (pre @ lp_enc (x # xs)) (int (length pre))
      (int (length (pre @ lp_enc (x # xs)))) = Some (lp_enc (x # xs))"
    by (rule go_slice_tail) simp_all
  have e: "go_slice (pre @ lp_enc (x # xs)) (int (length pre) + int (length (PutUvarint (length x))))
      (int (length pre) + int (length (PutUvarint (length x))) + int (length x)) = Some x"
    using go_slice_append3[OF refl refl, of "pre @ PutUvarint (length x)" x "lp_enc xs"]
    by (simp add: lp_entry_def)
  have next': "lp_each_loop (pre @ lp_enc (x # xs)) f s' (Suc i)
      (int (length pre) + (int (length (PutUvarint (length x))) + int (length x))) (length xs) =
      Some (each_from (Suc i) f s' xs)" for s'
    using Cons.IH[of "pre @ lp_entry x" s' "Suc i"] Cons.prems by (simp add: lp_entry_def)
  show ?case
    using x uv rest e next' by (auto split: prod.splits)
qed

lemma lp_Each_rep: "lp_rep l xs \<Longrightarrow> lp_Each l f s = Some (each_from 0 f s xs)"
  using lp_each_loop_rep[of xs "[]"] by (simp add: lp_Each_def lp_rep_def)

subsection \<open>Searches\<close>

text \<open>The position of the first element that satisfies \<open>P\<close> together with its index, or -1.\<close>

fun first_idx :: "nat \<Rightarrow> (nat \<Rightarrow> 'a \<Rightarrow> bool) \<Rightarrow> 'a list \<Rightarrow> int" where
  "first_idx i P [] = -1"
| "first_idx i P (x # xs) = (if P i x then int i else first_idx (Suc i) P xs)"

lemma each_from_first_idx:
  "each_from i (\<lambda>found j e. if P j e then (int j, False) else (found, True)) (-1) xs = first_idx i P xs"
  by (induction xs arbitrary: i) auto

lemma first_idx_None: "first_idx i P xs = -1 \<longleftrightarrow> (\<forall>k < length xs. \<not> P (i + k) (xs ! k))"
proof (induction xs arbitrary: i)
  case (Cons x xs)
  have "(\<forall>k < length (x # xs). \<not> P (i + k) ((x # xs) ! k)) \<longleftrightarrow>
      \<not> P i x \<and> (\<forall>k < length xs. \<not> P (Suc i + k) (xs ! k))"
    by (auto simp: less_Suc_eq_0_disj)
  then show ?case using Cons.IH[of "Suc i"] by auto
qed simp

lemma first_idx_Some:
  "first_idx i P xs = int k \<Longrightarrow>
   i \<le> k \<and> k - i < length xs \<and> P k (xs ! (k - i)) \<and> (\<forall>j < k - i. \<not> P (i + j) (xs ! j))"
proof (induction xs arbitrary: i)
  case (Cons x xs)
  show ?case
  proof (cases "P i x")
    case True
    then show ?thesis using Cons.prems by auto
  next
    case False
    then have IH: "Suc i \<le> k \<and> k - Suc i < length xs \<and> P k (xs ! (k - Suc i)) \<and>
        (\<forall>j < k - Suc i. \<not> P (Suc i + j) (xs ! j))"
      using Cons.IH[of "Suc i"] Cons.prems by simp
    then have k: "k - i = Suc (k - Suc i)" by linarith
    show ?thesis using IH False unfolding k by (auto simp: less_Suc_eq_0_disj)
  qed
qed simp

lemma first_idx_range: "first_idx i P xs = -1 \<or> int i \<le> first_idx i P xs"
proof (induction xs arbitrary: i)
  case (Cons x xs)
  then show ?case using Cons.IH[of "Suc i"] by auto
qed simp

lemma lp_IndexOf_rep: "lp_rep l xs \<Longrightarrow> lp_IndexOf l b = Some (first_idx 0 (\<lambda>_ e. e = b) xs)"
  using lp_Each_rep[of l xs "\<lambda>found i e. if e = b then (int i, False) else (found, True)" "-1"]
    each_from_first_idx[of 0 "\<lambda>_ e. e = b" xs] by (simp add: lp_IndexOf_def)

lemma lp_IndexOfStep_rep:
  "lp_rep l xs \<Longrightarrow>
   lp_IndexOfStep l b step offset = Some (first_idx 0 (\<lambda>i e. i mod step = offset \<and> e = b) xs)"
  using each_from_first_idx[of 0 "\<lambda>i e. i mod step = offset \<and> e = b" xs]
  by (simp add: lp_IndexOfStep_def lp_Each_rep)

lemma each_from_max:
  "each_from i (\<lambda>m _ e. (if length e > m then length e else m, True)) m xs =
   fold max (map length xs) m"
  by (induction xs arbitrary: i m) (auto simp: max_def)

lemma lp_MaxEntryLen_rep:
  "lp_rep l xs \<Longrightarrow> lp_MaxEntryLen l = Some (fold max (map length xs) 0)"
  by (simp add: lp_MaxEntryLen_def lp_Each_rep each_from_max)

subsection \<open>Entries in pairs\<close>

text \<open>A listpack that holds a field and its value, or a member and its score, side by side.\<close>

definition alternate :: "('a \<times> 'a) list \<Rightarrow> 'a list" where
  "alternate kvs = concat (map (\<lambda>x. [fst x, snd x]) kvs)"

lemma alternate_simps [simp]:
  "alternate [] = []" "alternate (x # kvs) = fst x # snd x # alternate kvs" "alternate (kvs @ kvs') = alternate kvs @ alternate kvs'"
  by (simp_all add: alternate_def)

lemma length_alternate [simp]: "length (alternate kvs) = 2 * length kvs"
  by (induction kvs) auto

lemma nth_alternate: "i < length kvs \<Longrightarrow> alternate kvs ! (2 * i) = fst (kvs ! i) \<and> alternate kvs ! Suc (2 * i) = snd (kvs ! i)"
proof (induction kvs arbitrary: i)
  case (Cons x kvs)
  then show ?case by (cases i) auto
qed simp

lemma take_alternate: "take (2 * i) (alternate kvs) = alternate (take i kvs)"
proof (induction kvs arbitrary: i)
  case (Cons x kvs)
  then show ?case by (cases i) auto
qed simp

lemma drop_alternate: "drop (2 * i) (alternate kvs) = alternate (drop i kvs)"
proof (induction kvs arbitrary: i)
  case (Cons x kvs)
  then show ?case by (cases i) auto
qed simp

lemma update_alternate: "i < length kvs \<Longrightarrow> (alternate kvs)[Suc (2 * i) := v] = alternate (kvs[i := (fst (kvs ! i), v)])"
proof (induction kvs arbitrary: i)
  case (Cons x kvs)
  then show ?case by (cases i) auto
qed simp

lemma first_idx_alternate:
  "first_idx (2 * n) (\<lambda>i e. i mod 2 = 0 \<and> e = k) (alternate kvs) =
     (if k \<in> fst ` set kvs then int (2 * (n + length (takeWhile (\<lambda>x. fst x \<noteq> k) kvs))) else -1)"
proof (induction kvs arbitrary: n)
  case (Cons x kvs)
  have "first_idx (Suc (Suc (2 * n))) (\<lambda>i e. i mod 2 = 0 \<and> e = k) (alternate kvs) =
      (if k \<in> fst ` set kvs then int (2 * (Suc n + length (takeWhile (\<lambda>x. fst x \<noteq> k) kvs))) else -1)"
    using Cons[of "Suc n"] by simp
  then show ?case by auto
qed simp

lemma lp_find_pair:
  "lp_rep p (alternate kvs) \<Longrightarrow> lp_IndexOfStep p k 2 0 =
     Some (if k \<in> fst ` set kvs then int (2 * length (takeWhile (\<lambda>x. fst x \<noteq> k) kvs)) else -1)"
  using first_idx_alternate[of 0 k kvs] by (simp add: lp_IndexOfStep_rep)

lemma lp_delete_pair:
  assumes "lp_rep p (alternate kvs)" "i < length kvs"
  shows "\<exists>p'. lp_DeleteRun p (int (2 * i)) 2 = Some p' \<and> lp_rep p' (alternate (remove_at i kvs))"
proof -
  have "nat (int (2 * i)) = 2 * i" "2 * i + 2 = 2 * Suc i" by auto
  then have "take (nat (int (2 * i))) (alternate kvs) @ drop (nat (int (2 * i)) + nat 2) (alternate kvs) = alternate (remove_at i kvs)"
    by (simp only: nat_numeral take_alternate drop_alternate remove_at_def alternate_simps)
  then show ?thesis using lp_DeleteRun_rep[OF assms(1), of "int (2 * i)" 2] assms(2) by auto
qed

lemmas lp_ops_rep = lp_At_rep lp_CopyAt_rep lp_Append_rep lp_InsertAt_rep lp_SetAt_rep
  lp_DeleteAt_rep lp_DeleteRun_rep lp_Truncate_rep lp_Each_rep

end
