(* ===== verification/Glob.thy ===== *)
theory Glob
  imports Kestrel_Prelude
begin

text \<open>
  The glob matcher of \<open>engine/glob.go\<close>, used by \<open>KEYS\<close>, \<open>SCAN MATCH\<close>,
  \<open>PSUBSCRIBE\<close> and ACL key patterns. The code walks two indices; the model walks the
  two suffixes they denote, \<open>pattern[p:]\<close> and \<open>s[t:]\<close>. The specification
  is separate: \<open>glob_parse\<close> reads a pattern into tokens without looking at any string,
  \<open>glob_lang\<close> says which strings a token list denotes, and the matcher is proved to
  decide exactly that language.
\<close>

abbreviation Quest :: byte where "Quest \<equiv> 63"
abbreviation LBrack :: byte where "LBrack \<equiv> 91"
abbreviation RBrack :: byte where "RBrack \<equiv> 93"
abbreviation Caret :: byte where "Caret \<equiv> 94"
abbreviation Backslash :: byte where "Backslash \<equiv> 92"

subsection \<open>The matcher\<close>

text \<open>
  The loop of \<open>matchClass\<close> over \<open>pattern[p:]\<close>, with \<open>m\<close> the variable
  \<open>matched\<close>. It returns the pattern after the closing bracket: the index the code
  returns, plus the \<open>p++\<close> of its caller. On an unterminated class the code returns
  \<open>p - 1\<close>, so nothing of the pattern is left.
\<close>

fun matchClass_loop :: "bytes \<Rightarrow> byte \<Rightarrow> bool \<Rightarrow> bytes \<times> bool" where
  "matchClass_loop [] c m = ([], m)"
| "matchClass_loop (x # ps) c m =
     (if x = Backslash \<and> ps \<noteq> [] then matchClass_loop (tl ps) c (m \<or> hd ps = c)
      else if x = RBrack then (ps, m)
      else if length ps \<ge> 2 \<and> ps ! 0 = Minus \<and> ps ! 1 \<noteq> RBrack then
        matchClass_loop (drop 2 ps) c (m \<or> (min x (ps ! 1) \<le> c \<and> c \<le> max x (ps ! 1)))
      else matchClass_loop ps c (m \<or> x = c))"

definition matchClass :: "bytes \<Rightarrow> byte \<Rightarrow> bytes \<times> bool" where
  "matchClass ps c =
     (let negate = (ps \<noteq> [] \<and> hd ps = Caret);
          ps1 = (if negate then tl ps else ps)
      in case matchClass_loop ps1 c False of (rest, matched) \<Rightarrow> (rest, matched \<noteq> negate))"

fun skip_stars :: "bytes \<Rightarrow> bytes" where
  "skip_stars [] = []"
| "skip_stars (x # ps) = (if x = Star then skip_stars ps else x # ps)"

lemma length_skip_stars: "length (skip_stars ps) \<le> length ps"
  by (induction ps) auto

lemma length_matchClass_loop: "length (fst (matchClass_loop ps c m)) \<le> length ps"
  by (induction ps c m rule: matchClass_loop.induct) (auto simp: Let_def)

lemma length_matchClass: "length (fst (matchClass ps c)) \<le> length ps"
  using length_matchClass_loop[of "tl ps" c False] length_matchClass_loop[of ps c False]
  by (auto simp: matchClass_def Let_def split: prod.splits)

function MatchPattern :: "bytes \<Rightarrow> bytes \<Rightarrow> bool" where
  "MatchPattern ps ts =
     (if ps = [] \<or> ts = [] then skip_stars ps = [] \<and> ts = []
      else if hd ps = Star then
        (let ps' = skip_stars ps
         in ps' = [] \<or> (\<exists>i \<in> set [0 ..< Suc (length ts)]. MatchPattern ps' (drop i ts)))
      else if hd ps = Quest then MatchPattern (tl ps) (tl ts)
      else if hd ps = LBrack then
        (case matchClass (tl ps) (hd ts) of (rest, ok) \<Rightarrow> ok \<and> MatchPattern rest (tl ts))
      else if hd ps = Backslash then
        (let ps' = (if tl ps \<noteq> [] then tl ps else ps)
         in hd ps' = hd ts \<and> MatchPattern (tl ps') (tl ts))
      else hd ps = hd ts \<and> MatchPattern (tl ps) (tl ts))"
  by pat_completeness auto
termination
proof (relation "measure (\<lambda>(ps, ts). length ps)", goal_cases)
  case (2 ps ts x xa)
  then obtain a ps1 where "ps = a # ps1" by (cases ps) auto
  with 2 show ?case using length_skip_stars[of ps1] by (simp add: le_imp_less_Suc)
next
  case (4 ps ts x y)
  then obtain a ps1 where "ps = a # ps1" by (cases ps) auto
  with 4 show ?case using length_matchClass[of ps1 "hd ts"] by (auto dest: sym simp: le_imp_less_Suc)
next
  case (5 ps ts x)
  then show ?case by (cases ps) (auto split: if_splits simp: less_Suc_eq_le)
qed auto

declare MatchPattern.simps [simp del]

subsection \<open>The language of a pattern\<close>

datatype citem = CByte byte | CRange byte byte

datatype gtok = GStar | GOne | GClass bool "citem list" | GByte byte

fun citem_has :: "citem \<Rightarrow> byte \<Rightarrow> bool" where
  "citem_has (CByte b) c = (b = c)"
| "citem_has (CRange lo hi) c = (min lo hi \<le> c \<and> c \<le> max lo hi)"

text \<open>A class body: its items, and the pattern after the closing bracket.\<close>

fun class_items :: "bytes \<Rightarrow> citem list \<times> bytes" where
  "class_items [] = ([], [])"
| "class_items (x # ps) =
     (if x = Backslash \<and> ps \<noteq> [] then apfst ((#) (CByte (hd ps))) (class_items (tl ps))
      else if x = RBrack then ([], ps)
      else if length ps \<ge> 2 \<and> ps ! 0 = Minus \<and> ps ! 1 \<noteq> RBrack
        then apfst ((#) (CRange x (ps ! 1))) (class_items (drop 2 ps))
      else apfst ((#) (CByte x)) (class_items ps))"

lemma length_class_items: "length (snd (class_items ps)) \<le> length ps"
  by (induction ps rule: class_items.induct) auto

function glob_parse :: "bytes \<Rightarrow> gtok list" where
  "glob_parse [] = []"
| "glob_parse (x # ps) =
     (if x = Star then GStar # glob_parse ps
      else if x = Quest then GOne # glob_parse ps
      else if x = LBrack then
        (let neg = (ps \<noteq> [] \<and> hd ps = Caret);
             body = class_items (if neg then tl ps else ps)
         in GClass neg (fst body) # glob_parse (snd body))
      else if x = Backslash \<and> ps \<noteq> [] then GByte (hd ps) # glob_parse (tl ps)
      else GByte x # glob_parse ps)"
  by pat_completeness auto
termination
proof (relation "measure length", goal_cases)
  case (4 x ps neg body)
  have "length (snd (class_items (if neg then tl ps else ps))) \<le> length ps"
    using length_class_items[of "tl ps"] length_class_items[of ps] by auto
  with 4 show ?case by (simp add: le_imp_less_Suc)
qed auto

fun tok_byte :: "gtok \<Rightarrow> byte \<Rightarrow> bool" where
  "tok_byte GStar c = False"
| "tok_byte GOne c = True"
| "tok_byte (GClass neg items) c = ((\<exists>it \<in> set items. citem_has it c) \<noteq> neg)"
| "tok_byte (GByte b) c = (b = c)"

inductive glob_lang :: "gtok list \<Rightarrow> bytes \<Rightarrow> bool" where
  lang_nil: "glob_lang [] []"
| lang_star: "glob_lang toks s \<Longrightarrow> glob_lang (GStar # toks) (u @ s)"
| lang_byte: "tok_byte t c \<Longrightarrow> glob_lang toks s \<Longrightarrow> glob_lang (t # toks) (c # s)"

inductive_cases lang_nilE: "glob_lang [] s"
inductive_cases lang_consE: "glob_lang (t # toks) s"

lemma lang_nil_iff [simp]: "glob_lang [] s \<longleftrightarrow> s = []"
  by (auto elim: lang_nilE intro: lang_nil)

lemma lang_star_iff: "glob_lang (GStar # toks) s \<longleftrightarrow> (\<exists>i \<le> length s. glob_lang toks (drop i s))"
proof
  assume "glob_lang (GStar # toks) s"
  then obtain u v where "s = u @ v" "glob_lang toks v" by (auto elim: lang_consE)
  then show "\<exists>i \<le> length s. glob_lang toks (drop i s)"
    by (intro exI[of _ "length u"]) simp
next
  assume "\<exists>i \<le> length s. glob_lang toks (drop i s)"
  then obtain i where "glob_lang toks (drop i s)" by blast
  from lang_star[OF this, of "take i s"] show "glob_lang (GStar # toks) s" by simp
qed

lemma lang_byte_iff:
  "t \<noteq> GStar \<Longrightarrow>
   glob_lang (t # toks) s \<longleftrightarrow> (\<exists>c s'. s = c # s' \<and> tok_byte t c \<and> glob_lang toks s')"
  by (auto elim: lang_consE intro: lang_byte)

lemma lang_star_star: "glob_lang (GStar # GStar # toks) s \<longleftrightarrow> glob_lang (GStar # toks) s"
proof
  assume "glob_lang (GStar # GStar # toks) s"
  then obtain i j where "glob_lang toks (drop j (drop i s))" by (auto simp: lang_star_iff)
  from lang_star[OF this, of "take (i + j) s"] show "glob_lang (GStar # toks) s"
    by (simp add: add.commute)
next
  assume "glob_lang (GStar # toks) s"
  then show "glob_lang (GStar # GStar # toks) s"
    using lang_star[of "GStar # toks" s "[]"] by simp
qed

subsection \<open>The matcher decides the language\<close>

lemma matchClass_loop_items:
  "matchClass_loop ps c m =
     (snd (class_items ps), m \<or> (\<exists>it \<in> set (fst (class_items ps)). citem_has it c))"
  by (induction ps c m rule: matchClass_loop.induct) (auto simp: Let_def)

lemma skip_stars_nil_lang: "glob_lang (glob_parse ps) [] \<longleftrightarrow> skip_stars ps = []"
proof (induction ps rule: skip_stars.induct)
  case (2 x ps)
  then show ?case by (auto simp: lang_star_iff lang_byte_iff Let_def)
qed simp

lemma glob_parse_skip_stars:
  "glob_lang (GStar # glob_parse (skip_stars ps)) s \<longleftrightarrow> glob_lang (GStar # glob_parse ps) s"
proof (induction ps)
  case (Cons x ps)
  then show ?case by (auto simp: lang_star_star)
qed simp

lemma MatchPattern_lang: "MatchPattern ps ts \<longleftrightarrow> glob_lang (glob_parse ps) ts"
proof (induction ps ts rule: MatchPattern.induct)
  case (1 ps ts)
  show ?case
  proof (cases "ps = [] \<or> ts = []")
    case True
    then show ?thesis
      using skip_stars_nil_lang[of ps] by (auto simp: MatchPattern.simps[of ps ts])
  next
    case False
    then obtain x ps' t ts' where ps: "ps = x # ps'" and ts: "ts = t # ts'"
      by (cases ps; cases ts) auto
    note unf = MatchPattern.simps[of ps ts]
    consider "x = Star" | "x = Quest" | "x = LBrack" | "x = Backslash"
      | "x \<noteq> Star" "x \<noteq> Quest" "x \<noteq> LBrack" "x \<noteq> Backslash" by blast
    then show ?thesis
    proof cases
      case 1
      have IH: "MatchPattern (skip_stars ps) (drop i ts) \<longleftrightarrow>
          glob_lang (glob_parse (skip_stars ps)) (drop i ts)" if "skip_stars ps \<noteq> []" "i \<le> length ts" for i
        using "1.IH"(1)[OF False, OF _ refl, of i] that(2) ps 1
        by (auto simp: le_less)
      have rng: "set [0 ..< Suc (length ts)] = {..length ts}" by auto
      have "MatchPattern ps ts \<longleftrightarrow> skip_stars ps = [] \<or>
          (\<exists>i \<le> length ts. MatchPattern (skip_stars ps) (drop i ts))"
        using False 1 ps unfolding unf rng by (auto simp: Let_def)
      also have "\<dots> \<longleftrightarrow> glob_lang (GStar # glob_parse (skip_stars ps)) ts"
      proof (cases "skip_stars ps = []")
        case True
        then show ?thesis by (auto simp: lang_star_iff intro!: exI[of _ "length ts"])
      next
        case False
        then show ?thesis using IH by (auto simp: lang_star_iff)
      qed
      also have "\<dots> \<longleftrightarrow> glob_lang (GStar # glob_parse ps') ts"
        using 1 ps glob_parse_skip_stars[of ps'] by simp
      finally show ?thesis using 1 ps by simp
    next
      case 2
      then show ?thesis using "1.IH"(2)[OF False] ps ts unf by (simp add: lang_byte_iff)
    next
      case 3
      obtain rest ok where mc: "matchClass ps' t = (rest, ok)" by fastforce
      have "MatchPattern rest ts' \<longleftrightarrow> glob_lang (glob_parse rest) ts'"
        using "1.IH"(3)[OF False, of rest ok] 3 ps ts mc by simp
      then show ?thesis
        using 3 ps ts unf mc
        by (auto simp: lang_byte_iff matchClass_def Let_def matchClass_loop_items split: if_splits)
    next
      case 4
      then show ?thesis
        using "1.IH"(4)[OF False] ps ts unf by (auto simp: lang_byte_iff Let_def)
    next
      case 5
      then show ?thesis using "1.IH"(5)[OF False] ps ts unf by (auto simp: lang_byte_iff)
    qed
  qed
qed

subsection \<open>Properties\<close>

text \<open>C39: The glob matcher of KEYS, SCAN MATCH and PSUBSCRIBE returns on every pattern and string, and
  accepts exactly the strings of the pattern's language: stars match any run of bytes, question marks
  one byte, classes their items or their complement, an escape its byte, and malformed classes what
  the parser makes of them.\<close>

theorem glob_matches_language: "MatchPattern ps ts \<longleftrightarrow> glob_lang (glob_parse ps) ts"
  by (rule MatchPattern_lang)

end
