(* ===== verification/Decimal.thy ===== *)
theory Decimal
  imports Kestrel_Prelude
begin

text \<open>
  Decimal integers: the two functions of Go's \<open>strconv\<close> the program calls
  (\<open>AppendInt\<close> and \<open>ParseInt\<close>, base 10), and the allocation-free pair of
  package \<open>resp\<close> (\<open>appendInt\<close> in \<open>resp/math.go\<close>, \<open>parseInt\<close> in
  \<open>resp/reader.go\<close>). The hand-written writer is proved equal to the library's on every
  \<open>int64\<close>; the hand-written reader agrees with the library's wherever it succeeds, and
  reads back every \<open>int64\<close> but the smallest.
\<close>

subsection \<open>Digits\<close>

definition is_digit :: "byte \<Rightarrow> bool" where
  "is_digit c \<longleftrightarrow> Zero \<le> c \<and> c \<le> Nine"

definition dval :: "byte \<Rightarrow> nat" where
  "dval c = unat c - 48"

definition digit :: "nat \<Rightarrow> byte" where
  "digit d = of_nat (48 + d)"

definition dec_val :: "bytes \<Rightarrow> nat" where
  "dec_val ds = foldl (\<lambda>a c. 10 * a + dval c) 0 ds"

fun dec_digits :: "nat \<Rightarrow> bytes" where
  "dec_digits n = (if n < 10 then [digit n] else dec_digits (n div 10) @ [digit (n mod 10)])"

declare dec_digits.simps [simp del]

lemma unat_digit: "d < 10 \<Longrightarrow> unat (digit d) = 48 + d"
  unfolding digit_def by (subst unat_of_nat) simp

lemma is_digit_iff: "is_digit c \<longleftrightarrow> 48 \<le> unat c \<and> unat c \<le> 57"
  by (simp add: is_digit_def word_le_nat_alt)

lemma is_digit_digit [simp]: "d < 10 \<Longrightarrow> is_digit (digit d)"
  by (simp add: is_digit_iff unat_digit)

lemma dval_digit [simp]: "d < 10 \<Longrightarrow> dval (digit d) = d"
  by (simp add: dval_def unat_digit)

lemma digit_dval: "is_digit c \<Longrightarrow> digit (dval c) = c"
  unfolding word_unat_eq_iff is_digit_iff by (subst unat_digit) (auto simp: dval_def)

lemma dval_lt: "is_digit c \<Longrightarrow> dval c < 10"
  by (auto simp: dval_def is_digit_iff)

lemma is_digit_not_sign: "is_digit c \<Longrightarrow> c \<noteq> Minus \<and> c \<noteq> Plus \<and> c \<noteq> CR \<and> c \<noteq> LF"
  by (auto simp: is_digit_def)

lemma dec_val_Nil [simp]: "dec_val [] = 0"
  by (simp add: dec_val_def)

lemma dec_val_snoc [simp]: "dec_val (ds @ [c]) = 10 * dec_val ds + dval c"
  by (simp add: dec_val_def)

lemma dec_digits_props:
  "dec_val (dec_digits n) = n \<and> dec_digits n \<noteq> [] \<and> list_all is_digit (dec_digits n)"
proof (induction n rule: dec_digits.induct)
  case (1 n)
  show ?case
  proof (cases "n < 10")
    case True
    then show ?thesis using dec_val_snoc[of "[]" "digit n"] by (simp add: dec_digits.simps[of n])
  next
    case False
    with "1.IH" show ?thesis by (simp add: dec_digits.simps[of n])
  qed
qed

lemma dec_val_dec_digits [simp]: "dec_val (dec_digits n) = n"
  using dec_digits_props by blast

lemma dec_digits_ne [simp]: "dec_digits n \<noteq> []"
  using dec_digits_props by blast

lemma dec_digits_all: "list_all is_digit (dec_digits n)"
  using dec_digits_props by blast

lemma dec_digits_inj: "dec_digits m = dec_digits n \<Longrightarrow> m = n"
  by (metis dec_val_dec_digits)

lemma length_dec_digits_le: "0 < k \<Longrightarrow> n < 10 ^ k \<Longrightarrow> length (dec_digits n) \<le> k"
proof (induction n arbitrary: k rule: dec_digits.induct)
  case (1 n)
  show ?case
  proof (cases "n < 10")
    case True
    then show ?thesis using 1 by (simp add: dec_digits.simps[of n])
  next
    case False
    then have "k \<noteq> 1" using "1.prems" by auto
    then obtain j where k: "k = Suc j" "0 < j" using "1.prems"(1) by (cases k) auto
    have "n div 10 < 10 ^ j" using "1.prems"(2) k by (simp add: less_mult_imp_div_less)
    with "1.IH"[OF False k(2)] show ?thesis using False k by (simp add: dec_digits.simps[of n])
  qed
qed

subsection \<open>strconv\<close>

definition AppendInt :: "int \<Rightarrow> bytes" where
  "AppendInt n = (if n < 0 then Minus # dec_digits (nat (- n)) else dec_digits (nat n))"

text \<open>
  \<open>strconv.ParseInt(s, 10, 64)\<close>, which is also \<open>strconv.Atoi\<close> on a 64-bit
  machine: an optional sign, at least one digit, a value that fits. The callers look only
  at whether there is an error.
\<close>

definition ParseInt :: "bytes \<Rightarrow> int option" where
  "ParseInt s =
     (let neg = (s \<noteq> [] \<and> hd s = Minus);
          ds = (if s \<noteq> [] \<and> (hd s = Minus \<or> hd s = Plus) then tl s else s);
          v = int (dec_val ds)
      in if ds = [] \<or> \<not> list_all is_digit ds then None
         else if neg then (if v \<le> 2 ^ 63 then Some (- v) else None)
         else (if v < 2 ^ 63 then Some v else None))"

subsection \<open>resp/math.go: appendInt\<close>

text \<open>
  The code fills a 20-byte array from its end: \<open>tmp\<close> is the part filled so far, and a
  write below index 0 would panic.
\<close>

definition tmp_put :: "byte \<Rightarrow> bytes \<Rightarrow> bytes go" where
  "tmp_put b tmp = (if length tmp < 20 then Some (b # tmp) else None)"

fun appendInt_loop :: "nat \<Rightarrow> bytes \<Rightarrow> bytes go" where
  "appendInt_loop u tmp =
     (if u \<ge> 10 then
        do { tmp' \<leftarrow> tmp_put (of_nat (48 + u mod 10)) tmp; appendInt_loop (u div 10) tmp' }
      else tmp_put (of_nat (48 + u)) tmp)"

declare appendInt_loop.simps [simp del]

definition appendInt :: "bytes \<Rightarrow> int \<Rightarrow> bytes go" where
  "appendInt dst n =
     (if n \<ge> 0 \<and> n < 10 then Some (dst @ [of_nat (48 + nat n)])
      else
        let neg = n < 0;
            u = nat ((if neg then wrap64 (- n) else n) mod 2 ^ 64)
        in do {
          tmp \<leftarrow> appendInt_loop u [];
          tmp' \<leftarrow> (if neg then tmp_put Minus tmp else Some tmp);
          Some (dst @ tmp')
        })"

subsection \<open>resp/reader.go: parseInt\<close>

datatype int_error = ErrSyntax | ErrRange

fun parseInt_loop :: "int \<Rightarrow> bytes \<Rightarrow> int_error + int" where
  "parseInt_loop n [] = Inr n"
| "parseInt_loop n (c # cs) =
     (if c < Zero \<or> c > Nine then Inl ErrSyntax
      else
        let d = int (dval c)
        in if n > (max_int64 - d) div 10 then Inl ErrRange
           else parseInt_loop (n * 10 + d) cs)"

definition resp_parseInt :: "bytes \<Rightarrow> int_error + int" where
  "resp_parseInt b =
     (if length b = 0 \<or> length b > 20 then Inl ErrSyntax
      else
        let neg = hd b = Minus;
            ds = (if hd b = Minus \<or> hd b = Plus then tl b else b)
        in if (hd b = Minus \<or> hd b = Plus) \<and> ds = [] then Inl ErrSyntax
           else case parseInt_loop 0 ds of
                  Inl e \<Rightarrow> Inl e
                | Inr n \<Rightarrow> Inr (if neg then - n else n))"

subsection \<open>The writer\<close>

lemma appendInt_loop_digits:
  "length (dec_digits u) + length tmp \<le> 20 \<Longrightarrow>
   appendInt_loop u tmp = Some (dec_digits u @ tmp)"
proof (induction u tmp rule: appendInt_loop.induct)
  case (1 u tmp)
  show ?case
  proof (cases "10 \<le> u")
    case True
    have dd: "dec_digits u = dec_digits (u div 10) @ [digit (u mod 10)]"
      using True by (simp add: dec_digits.simps[of u])
    have put: "tmp_put (of_nat (48 + u mod 10)) tmp = Some (digit (u mod 10) # tmp)"
      using "1.prems" dd by (simp add: tmp_put_def digit_def)
    from "1.IH"[OF True put] "1.prems" dd
    have "appendInt_loop (u div 10) (digit (u mod 10) # tmp) =
        Some (dec_digits (u div 10) @ digit (u mod 10) # tmp)" by simp
    then show ?thesis using True put dd by (simp add: appendInt_loop.simps[of u tmp])
  next
    case False
    then show ?thesis
      using "1.prems" dec_digits_ne[of u]
      by (simp add: appendInt_loop.simps[of u tmp] dec_digits.simps[of u] tmp_put_def digit_def)
  qed
qed

lemma length_dec_digits_int64: "n \<le> 2 ^ 63 \<Longrightarrow> length (dec_digits n) \<le> 19"
  by (rule length_dec_digits_le) auto

lemma appendInt_eq_AppendInt:
  assumes "is_int64 n"
  shows "appendInt dst n = Some (dst @ AppendInt n)"
proof -
  consider "0 \<le> n \<and> n < 10" | "10 \<le> n" | "n < 0" by linarith
  then show ?thesis
  proof cases
    case 1
    then have "nat n < 10" by linarith
    then show ?thesis using 1 by (simp add: appendInt_def AppendInt_def dec_digits.simps digit_def)
  next
    case 2
    then have u: "n mod 2 ^ 64 = n" using assms by (simp add: is_int64_def)
    have "length (dec_digits (nat n)) \<le> 19"
      using assms by (intro length_dec_digits_int64) (simp add: is_int64_def nat_le_iff)
    then show ?thesis
      using 2 u appendInt_loop_digits[of "nat n" "[]"]
      by (simp add: appendInt_def AppendInt_def Let_def)
  next
    case 3
    have u: "wrap64 (- n) mod 2 ^ 64 = - n"
    proof (cases "n = min_int64")
      case True
      then show ?thesis by (simp add: wrap64_def)
    next
      case False
      then have "is_int64 (- n)" using assms by (simp add: is_int64_def)
      then show ?thesis using 3 assms by (simp add: is_int64_def)
    qed
    have "length (dec_digits (nat (- n))) \<le> 19"
      using assms by (intro length_dec_digits_int64) (simp add: is_int64_def nat_le_iff)
    then show ?thesis
      using 3 u appendInt_loop_digits[of "nat (- n)" "[]"]
      by (simp add: appendInt_def AppendInt_def Let_def tmp_put_def)
  qed
qed

subsection \<open>The reader\<close>

lemma foldl_dec_val:
  "foldl (\<lambda>a c. 10 * a + dval c) a ds = a * 10 ^ length ds + dec_val ds"
proof (induction ds rule: rev_induct)
  case (snoc c ds)
  then show ?case by simp
qed simp

lemma dec_val_Cons [simp]: "dec_val (c # ds) = dval c * 10 ^ length ds + dec_val ds"
  using foldl_dec_val[of "dval c" ds] by (simp add: dec_val_def)

lemma mul10_le: "(0::int) \<le> n \<Longrightarrow> n \<le> n * 10 ^ k"
  by (simp add: mult_le_cancel_left1)

lemma parseInt_loop_digits:
  "list_all is_digit cs \<Longrightarrow> 0 \<le> n \<Longrightarrow>
   parseInt_loop n cs =
     (let v = n * 10 ^ length cs + int (dec_val cs)
      in if v \<le> max_int64 \<or> cs = [] then Inr v else Inl ErrRange)"
proof (induction cs arbitrary: n)
  case (Cons c cs)
  let ?n = "n * 10 + int (dval c)"
  have "is_digit c" and cs: "list_all is_digit cs" and n: "0 \<le> n"
    using Cons.prems by auto
  then have dig: "\<not> (c < Zero \<or> c > Nine)" by (auto simp: is_digit_def)
  have v: "?n * 10 ^ length cs + int (dec_val cs) =
      n * 10 ^ length (c # cs) + int (dec_val (c # cs))"
    by (simp add: algebra_simps)
  show ?case
  proof (cases "?n \<le> max_int64")
    case True
    then have "\<not> n > (max_int64 - int (dval c)) div 10" by linarith
    then have "parseInt_loop n (c # cs) = parseInt_loop ?n cs" using dig by (simp add: Let_def)
    then show ?thesis using Cons.IH[OF cs, of ?n] n True v by (auto simp: Let_def)
  next
    case False
    then have rng: "n > (max_int64 - int (dval c)) div 10" by linarith
    have "?n \<le> ?n * 10 ^ length cs" using n by (intro mul10_le) simp
    then have "\<not> n * 10 ^ length (c # cs) + int (dec_val (c # cs)) \<le> max_int64"
      using v False by linarith
    then show ?thesis using dig rng by (simp add: Let_def)
  qed
qed simp

lemma parseInt_loop_Inr: "parseInt_loop n cs = Inr v \<Longrightarrow> list_all is_digit cs"
  by (induction cs arbitrary: n) (auto simp: Let_def is_digit_def not_less split: if_splits)

lemma parseInt_loop_zero:
  "parseInt_loop 0 ds = Inr v \<longleftrightarrow>
   list_all is_digit ds \<and> v = int (dec_val ds) \<and> v \<le> max_int64"
  using parseInt_loop_Inr[of 0 ds v] parseInt_loop_digits[of ds 0]
  by (auto simp: Let_def split: if_splits)

lemma resp_parseInt_iff:
  "resp_parseInt b = Inr n \<longleftrightarrow> length b \<le> 20 \<and> ParseInt b = Some n \<and> n \<noteq> min_int64"
proof (cases b)
  case Nil
  then show ?thesis by (simp add: resp_parseInt_def ParseInt_def)
next
  case (Cons c cs)
  define ds where "ds = (if c = Minus \<or> c = Plus then cs else b)"
  define neg where "neg = (c = Minus)"
  have sgn: "\<not> (c = Minus \<or> c = Plus) \<Longrightarrow> ds \<noteq> []" using Cons by (simp add: ds_def)
  have R: "resp_parseInt b = Inr n \<longleftrightarrow> length b \<le> 20 \<and> ds \<noteq> [] \<and>
      (\<exists>v. parseInt_loop 0 ds = Inr v \<and> n = (if neg then - v else v))"
    using Cons sgn
    by (auto simp: resp_parseInt_def Let_def ds_def neg_def split: sum.splits if_splits)
  have P: "ParseInt b = Some n \<longleftrightarrow> ds \<noteq> [] \<and> list_all is_digit ds \<and>
      (if neg then int (dec_val ds) \<le> 2 ^ 63 \<and> n = - int (dec_val ds)
       else int (dec_val ds) < 2 ^ 63 \<and> n = int (dec_val ds))"
    using Cons by (auto simp: ParseInt_def Let_def ds_def neg_def split: if_splits)
  show ?thesis unfolding R P parseInt_loop_zero by auto
qed

lemma ParseInt_int64: "ParseInt b = Some n \<Longrightarrow> is_int64 n"
  by (auto simp: ParseInt_def Let_def is_int64_def split: if_splits)

lemma ParseInt_AppendInt:
  assumes "is_int64 n" shows "ParseInt (AppendInt n) = Some n"
proof (cases "n < 0")
  case True
  then show ?thesis
    using assms dec_digits_all[of "nat (- n)"]
    by (simp add: ParseInt_def AppendInt_def is_int64_def)
next
  case False
  obtain c cs where c: "dec_digits (nat n) = c # cs" by (cases "dec_digits (nat n)") auto
  then have "is_digit c" using dec_digits_all[of "nat n"] by simp
  then have "c \<noteq> Minus" "c \<noteq> Plus" using is_digit_not_sign by auto
  then show ?thesis
    using False assms c dec_digits_all[of "nat n"] dec_val_dec_digits[of "nat n"]
    by (simp add: ParseInt_def AppendInt_def is_int64_def del: dec_val_Cons)
qed

lemma length_AppendInt: "is_int64 n \<Longrightarrow> length (AppendInt n) \<le> 20"
  using length_dec_digits_int64[of "nat n"] length_dec_digits_int64[of "nat (- n)"]
  by (auto simp: AppendInt_def is_int64_def nat_le_iff)

lemma AppendInt_inj: "is_int64 m \<Longrightarrow> is_int64 n \<Longrightarrow> AppendInt m = AppendInt n \<Longrightarrow> m = n"
  by (metis ParseInt_AppendInt option.inject)

lemma AppendInt_ne [simp]: "AppendInt n \<noteq> []"
  by (simp add: AppendInt_def)

lemma AppendInt_no_crlf: "c \<in> set (AppendInt n) \<Longrightarrow> c \<noteq> CR \<and> c \<noteq> LF"
  using dec_digits_all[of "nat n"] dec_digits_all[of "nat (- n)"]
  by (auto simp: AppendInt_def list_all_iff split: if_splits dest: is_digit_not_sign)

lemma resp_parseInt_AppendInt:
  "is_int64 n \<Longrightarrow> n \<noteq> min_int64 \<Longrightarrow> resp_parseInt (AppendInt n) = Inr n"
  by (simp add: resp_parseInt_iff ParseInt_AppendInt length_AppendInt)

subsection \<open>engine/object.go: canonical integers\<close>

text \<open>The integers the engine stores as such: the bytes that rendering them gives back.\<close>

definition canonicalInt :: "bytes \<Rightarrow> int option" where
  "canonicalInt b =
     (if length b = 0 \<or> length b > 20 then None
      else case ParseInt b of None \<Rightarrow> None
        | Some n \<Rightarrow> if AppendInt n \<noteq> b then None else Some n)"

lemma canonicalInt_Some: "canonicalInt b = Some n \<Longrightarrow> is_int64 n \<and> AppendInt n = b"
  by (auto simp: canonicalInt_def ParseInt_int64 split: if_splits option.splits)

lemma canonicalInt_iff: "canonicalInt b = Some n \<longleftrightarrow> is_int64 n \<and> b = AppendInt n"
  using length_AppendInt[of n] ParseInt_AppendInt[of n]
  by (auto dest: canonicalInt_Some) (auto simp: canonicalInt_def)

subsection \<open>Properties\<close>

text \<open>C40: The hand-written integer formatter of the protocol layer never runs off its buffer, writes the
  canonical decimal form, and both parsers read it back to the same number; the protocol parser
  alone refuses the least 64-bit integer, which the formatter does write.\<close>

theorem appendInt_roundtrip:
  assumes "is_int64 n"
  shows "\<exists>b. appendInt dst n = Some (dst @ b) \<and> length b \<le> 20 \<and> ParseInt b = Some n \<and>
    (resp_parseInt b = Inr n \<longleftrightarrow> n \<noteq> min_int64)"
  using appendInt_eq_AppendInt[OF assms, of dst] ParseInt_AppendInt[OF assms] length_AppendInt[OF assms]
    resp_parseInt_iff[of "AppendInt n" n] by auto

theorem appendInt_roundtrip_witness:
  "\<exists>b. appendInt [] (-12) = Some b \<and> length b \<le> 20 \<and> ParseInt b = Some (-12) \<and> resp_parseInt b = Inr (-12)"
  using appendInt_roundtrip[of "-12" "[]"] by (simp add: is_int64_def)

end
