(* ===== verification/Log_Record.thy ===== *)
theory Log_Record
  imports Decimal
begin

unbundle bit_operations_syntax

text \<open>
  The record format of the append log (\<open>persist/record.go\<close>) and the reader that
  iterates it (\<open>persist/reader.go\<close>): little-endian framing, the CRC-32C checksum, the
  RESP2 array that is a record's payload, file headers, and \<open>Reader.Next\<close>.
\<close>

subsection \<open>encoding/binary: little-endian integers\<close>

fun le_bytes :: "nat \<Rightarrow> nat \<Rightarrow> bytes" where
  "le_bytes 0 x = []"
| "le_bytes (Suc k) x = of_nat x # le_bytes k (x div 256)"

fun le_val :: "bytes \<Rightarrow> nat" where
  "le_val [] = 0"
| "le_val (b # bs) = unat b + 256 * le_val bs"

subsection \<open>hash/crc32 with the Castagnoli polynomial\<close>

text \<open>
  One bit of the reflected CRC-32C, one byte (eight bits; an entry of the table that
  \<open>crc32.MakeTable\<close> builds is this map at a single byte), and \<open>crc32.Update\<close>
  with its inversion before and after.
\<close>

definition castagnoli :: "32 word" where
  "castagnoli = 0x82F63B78"

definition crc_bit :: "32 word \<Rightarrow> 32 word" where
  "crc_bit c = (if bit c 0 then drop_bit 1 c XOR castagnoli else drop_bit 1 c)"

definition crc_byte :: "32 word \<Rightarrow> byte \<Rightarrow> 32 word" where
  "crc_byte c b = (crc_bit ^^ 8) (c XOR ucast b)"

definition crc_Update :: "32 word \<Rightarrow> bytes \<Rightarrow> 32 word" where
  "crc_Update c p = NOT (foldl crc_byte (NOT c) p)"

definition crc_Checksum :: "bytes \<Rightarrow> 32 word" where
  "crc_Checksum p = crc_Update 0 p"

subsection \<open>Constants and errors\<close>

definition logMagic :: bytes where "logMagic = lit ''KESTRLOG''"
definition snapshotMagic :: bytes where "snapshotMagic = lit ''KESTRSNP''"
definition fileVersion :: nat where "fileVersion = 1"
definition fileHeaderSize :: nat where "fileHeaderSize = 32"
definition recordHeaderSize :: nat where "recordHeaderSize = 12"
definition MaxRecordSize :: nat where "MaxRecordSize = 536870912"

text \<open>
  The sentinel an error wraps, which is what \<open>errors.Is\<close> sees. \<open>ErrPlain\<close>
  stands for an error value that wraps none of them.
\<close>

datatype persist_error = ErrCorrupt | ErrTornTail | ErrBadHeader | ErrTooFarBehind | ErrPlain

datatype record_kind = KindEffect | KindAnchor | KindOther nat

fun kind_code :: "record_kind \<Rightarrow> nat" where
  "kind_code KindEffect = 0"
| "kind_code KindAnchor = 1"
| "kind_code (KindOther n) = n"

definition kind_of :: "nat \<Rightarrow> record_kind" where
  "kind_of n = (if n = 0 then KindEffect else if n = 1 then KindAnchor else KindOther n)"

subsection \<open>File headers\<close>

record fileHeader =
  fh_Version :: "16 word"
  fh_Flags :: "16 word"
  fh_Base :: "64 word"
  fh_Created :: "64 word"

definition header_body :: "bytes \<Rightarrow> fileHeader \<Rightarrow> bytes" where
  "header_body magic h =
     take 8 (copy_at (replicate fileHeaderSize 0) 0 magic) @
     le_bytes 2 (unat (fh_Version h)) @ le_bytes 2 (unat (fh_Flags h)) @
     le_bytes 8 (unat (fh_Base h)) @ le_bytes 8 (unat (fh_Created h))"

definition encodeFileHeader :: "fileHeader \<Rightarrow> bytes \<Rightarrow> bytes" where
  "encodeFileHeader h magic =
     (let b = header_body magic h in b @ le_bytes 4 (unat (crc_Checksum b)))"

definition decodeFileHeader :: "bytes \<Rightarrow> bytes \<Rightarrow> persist_error + fileHeader" where
  "decodeFileHeader b magic =
     (if length b < fileHeaderSize then Inl ErrBadHeader
      else if take 8 b \<noteq> magic then Inl ErrBadHeader
      else if le_val (take 4 (drop 28 b)) \<noteq> unat (crc_Checksum (take 28 b)) then Inl ErrCorrupt
      else
        let h = \<lparr>fh_Version = of_nat (le_val (take 2 (drop 8 b))),
                 fh_Flags = of_nat (le_val (take 2 (drop 10 b))),
                 fh_Base = of_nat (le_val (take 8 (drop 12 b))),
                 fh_Created = of_nat (le_val (take 8 (drop 20 b)))\<rparr>
        in if unat (fh_Version h) \<noteq> fileVersion then Inl ErrBadHeader else Inr h)"

subsection \<open>The payload: a RESP2 array of bulk strings\<close>

definition bulk_bytes :: "bytes \<Rightarrow> bytes" where
  "bulk_bytes a = Dollar # AppendInt (int (length a)) @ [CR, LF] @ a @ [CR, LF]"

definition appendRESPArray :: "bytes \<Rightarrow> bytes list \<Rightarrow> bytes" where
  "appendRESPArray dst args =
     foldl (\<lambda>d a. d @ bulk_bytes a)
       (dst @ Star # AppendInt (int (length args)) @ [CR, LF]) args"

text \<open>\<open>readLine\<close>: \<open>pre\<close> is \<open>p[:i]\<close>, the second argument \<open>p[i:]\<close>.\<close>

fun log_readLine :: "bytes \<Rightarrow> bytes \<Rightarrow> persist_error + (int \<times> bytes)" where
  "log_readLine pre (c # d # rest) =
     (if c \<noteq> CR then log_readLine (pre @ [c]) (d # rest)
      else if d \<noteq> LF then Inl ErrCorrupt
      else case ParseInt pre of None \<Rightarrow> Inl ErrCorrupt | Some v \<Rightarrow> Inr (v, rest))"
| "log_readLine pre [c] = Inl ErrCorrupt"
| "log_readLine pre [] = Inl ErrCorrupt"

text \<open>
  The element loop. The bound test \<open>size+2 > len(rest)\<close> is on Go \<open>int\<close>s and can
  wrap; an index past the end of \<open>rest\<close> panics.
\<close>

fun decode_elems :: "nat \<Rightarrow> bytes \<Rightarrow> bytes list \<Rightarrow> (persist_error + bytes list) go" where
  "decode_elems 0 rest args =
     Some (if length rest \<noteq> 0 then Inl ErrCorrupt else Inr args)"
| "decode_elems (Suc n) rest args =
     (if length rest = 0 \<or> hd rest \<noteq> Dollar then Some (Inl ErrCorrupt)
      else case log_readLine [] (tl rest) of
             Inl e \<Rightarrow> Some (Inl e)
           | Inr (sz, rest') \<Rightarrow>
               if sz < 0 \<or> wrap64 (sz + 2) > int (length rest') then Some (Inl ErrCorrupt)
               else if sz + 1 \<ge> int (length rest') then None
               else if rest' ! nat sz \<noteq> CR \<or> rest' ! (nat sz + 1) \<noteq> LF then Some (Inl ErrCorrupt)
               else decode_elems n (drop (nat sz + 2) rest') (args @ [take (nat sz) rest']))"

definition decodeRESPArray :: "bytes \<Rightarrow> (persist_error + bytes list) go" where
  "decodeRESPArray p =
     (if length p = 0 \<or> hd p \<noteq> Star then Some (Inl ErrCorrupt)
      else case log_readLine [] (tl p) of
             Inl e \<Rightarrow> Some (Inl e)
           | Inr (n, rest) \<Rightarrow>
               if n < 0 \<or> n > int (length p) then Some (Inl ErrCorrupt)
               else decode_elems (nat n) rest [])"

subsection \<open>Records\<close>

definition record_head :: "int \<Rightarrow> record_kind \<Rightarrow> nat \<Rightarrow> bytes" where
  "record_head db kind n =
     le_bytes 4 n @ le_bytes 2 (nat (db mod 65536)) @ le_bytes 2 (kind_code kind)"

definition encodeRecord :: "bytes \<Rightarrow> int \<Rightarrow> record_kind \<Rightarrow> bytes list \<Rightarrow> bytes" where
  "encodeRecord dst db kind args =
     (let payload = appendRESPArray [] args;
          h = record_head db kind (length payload);
          sum = crc_Update (crc_Checksum h) payload
      in dst @ h @ le_bytes 4 (unat sum) @ payload)"

fun digits_loop :: "nat \<Rightarrow> nat \<Rightarrow> nat" where
  "digits_loop n d = (if n > 0 then digits_loop (n div 10) (d + 1) else d)"

declare digits_loop.simps [simp del]

definition digits :: "nat \<Rightarrow> nat" where
  "digits n = (if n < 10 then 1 else digits_loop n 0)"

definition recordSize :: "bytes list \<Rightarrow> nat" where
  "recordSize args =
     foldl (\<lambda>n a. n + (1 + digits (length a) + 2 + length a + 2))
       (recordHeaderSize + 1 + digits (length args) + 2) args"

definition verifyRecord :: "bytes \<Rightarrow> persist_error option" where
  "verifyRecord raw =
     (if length raw < recordHeaderSize then Some ErrCorrupt
      else
        let sz = le_val (take 4 raw)
        in if sz > MaxRecordSize \<or> recordHeaderSize + sz \<noteq> length raw then Some ErrCorrupt
           else if crc_Update (crc_Checksum (take 8 raw)) (drop recordHeaderSize raw)
                     \<noteq> of_nat (le_val (take 4 (drop 8 raw))) then Some ErrCorrupt
           else None)"

subsection \<open>The reader\<close>

record log_rec =
  rec_DB :: nat
  rec_Kind :: record_kind
  rec_Args :: "bytes list"
  rec_Offset :: nat
  rec_Size :: nat
  rec_Raw :: "bytes option"

text \<open>
  A \<open>Reader\<close>: the bytes still to be read, the base and the current stream offset,
  whether raw frames are kept, the last record and the error that stopped it. The source
  is a file or a connection that ends; its end is the end of the list.
\<close>

record log_reader =
  rd_src :: bytes
  rd_base :: nat
  rd_off :: nat
  rd_keep :: bool
  rd_rec :: "log_rec option"
  rd_err :: "persist_error option"

definition NewRecordStream :: "bytes \<Rightarrow> nat \<Rightarrow> log_reader" where
  "NewRecordStream src at =
     \<lparr>rd_src = src, rd_base = at, rd_off = at, rd_keep = False, rd_rec = None, rd_err = None\<rparr>"

definition KeepRaw :: "log_reader \<Rightarrow> bool \<Rightarrow> log_reader" where
  "KeepRaw r v = r\<lparr>rd_keep := v\<rparr>"

definition newReader :: "bytes \<Rightarrow> bytes \<Rightarrow> persist_error + log_reader" where
  "newReader src magic =
     (if length src < fileHeaderSize then Inl ErrBadHeader
      else case decodeFileHeader (take fileHeaderSize src) magic of
             Inl e \<Rightarrow> Inl e
           | Inr h \<Rightarrow> Inr (NewRecordStream (drop fileHeaderSize src) (unat (fh_Base h))))"

text \<open>\<open>OpenReaderAt\<close>: seek to the file position of a stream offset.\<close>

definition OpenReaderAt :: "bytes \<Rightarrow> nat \<Rightarrow> persist_error + log_reader" where
  "OpenReaderAt file at =
     (if length file < fileHeaderSize then Inl ErrPlain
      else case decodeFileHeader (take fileHeaderSize file) logMagic of
             Inl e \<Rightarrow> Inl e
           | Inr h \<Rightarrow>
               if at < unat (fh_Base h) then Inl ErrTooFarBehind
               else Inr ((NewRecordStream (drop (at - unat (fh_Base h) + fileHeaderSize) file)
                           (unat (fh_Base h)))\<lparr>rd_off := at\<rparr>))"

definition log_Next :: "log_reader \<Rightarrow> (log_reader \<times> bool) go" where
  "log_Next r =
     (if rd_err r \<noteq> None then Some (r, False)
      else if rd_src r = [] then Some (r, False)
      else if length (rd_src r) < recordHeaderSize then
        Some (r\<lparr>rd_src := [], rd_err := Some ErrTornTail\<rparr>, False)
      else
        let hdr = take recordHeaderSize (rd_src r);
            src = drop recordHeaderSize (rd_src r);
            sz = le_val (take 4 hdr);
            db = le_val (take 2 (drop 4 hdr));
            kind = kind_of (le_val (take 2 (drop 6 hdr)));
            want = of_nat (le_val (drop 8 hdr)) :: 32 word
        in if sz > MaxRecordSize then Some (r\<lparr>rd_src := src, rd_err := Some ErrCorrupt\<rparr>, False)
           else if length src < sz then
             Some (r\<lparr>rd_src := [], rd_err := Some ErrTornTail\<rparr>, False)
           else
             let p = take sz src; src' = drop sz src
             in if crc_Update (crc_Checksum (take 8 hdr)) p \<noteq> want then
                  Some (r\<lparr>rd_src := src', rd_err := Some ErrCorrupt\<rparr>, False)
                else do {
                  dec \<leftarrow> decodeRESPArray p;
                  case dec of
                    Inl e \<Rightarrow> Some (r\<lparr>rd_src := src', rd_err := Some ErrPlain\<rparr>, False)
                  | Inr args \<Rightarrow>
                      if length args = 0 then
                        Some (r\<lparr>rd_src := src', rd_err := Some ErrCorrupt\<rparr>, False)
                      else
                        let rec = \<lparr>rec_DB = db, rec_Kind = kind, rec_Args = args,
                                   rec_Offset = rd_off r, rec_Size = recordHeaderSize + sz,
                                   rec_Raw = (if rd_keep r then Some (hdr @ p) else None)\<rparr>
                        in Some (r\<lparr>rd_src := src', rd_rec := Some rec,
                                   rd_off := rd_off r + rec_Size rec\<rparr>, True)
                })"

definition rd_FileSize :: "log_reader \<Rightarrow> nat" where
  "rd_FileSize r = (rd_off r - rd_base r) + fileHeaderSize"

subsection \<open>Little-endian round trip\<close>

lemma length_le_bytes [simp]: "length (le_bytes k x) = k"
  by (induction k arbitrary: x) auto

lemma le_val_le_bytes: "le_val (le_bytes k x) = x mod 256 ^ k"
proof (induction k arbitrary: x)
  case (Suc k)
  have "x mod (256 * 256 ^ k) = x mod 256 + 256 * (x div 256 mod 256 ^ k)"
    by (simp add: mod_mult2_eq add.commute)
  then show ?case using Suc by (simp add: unat_of_nat)
qed simp

lemma le_val_le_bytes_id: "x < 256 ^ k \<Longrightarrow> le_val (le_bytes k x) = x"
  by (simp add: le_val_le_bytes)

lemma unat_byte_lt: "unat (b :: byte) < 256"
  using unsigned_less[of b, where ?'a = nat] by simp

lemma le_val_lt: "le_val bs < 256 ^ length bs"
proof (induction bs)
  case (Cons b bs)
  have "unat b < 256" by (rule unat_byte_lt)
  then show ?case using Cons by simp
qed simp

lemma le_bytes_le_val: "length bs = k \<Longrightarrow> le_bytes k (le_val bs) = bs"
proof (induction k arbitrary: bs)
  case (Suc k)
  then obtain b bs' where bs: "bs = b # bs'" by (cases bs) auto
  have b: "unat b < 256" by (rule unat_byte_lt)
  have "of_nat (unat b + 256 * le_val bs') = b"
    unfolding word_unat_eq_iff by (subst unat_of_nat) (simp add: b)
  moreover have "(unat b + 256 * le_val bs') div 256 = le_val bs'" using b by simp
  ultimately show ?case using Suc bs by simp
qed simp

subsection \<open>The checksum detects any change confined to one byte\<close>

lemma crc_Update_Checksum: "crc_Update (crc_Checksum a) b = crc_Checksum (a @ b)"
  by (simp add: crc_Checksum_def crc_Update_def)

lemma bit_castagnoli_31: "bit castagnoli 31"
  by (simp add: castagnoli_def)

lemma bit_crc_bit_31: "bit (crc_bit c) 31 \<longleftrightarrow> bit c 0"
  using bit_castagnoli_31 bit_imp_le_length[of c 32]
  by (auto simp: crc_bit_def bit_xor_iff bit_drop_bit_eq)

lemma xor_cancel_right: "(a XOR c = b XOR c) \<longleftrightarrow> a = (b :: 'a :: len word)"
  by (metis xor.assoc xor.right_neutral xor_self_eq)

lemma inj_crc_bit: "inj crc_bit"
proof (rule injI)
  fix a b :: "32 word"
  assume eq: "crc_bit a = crc_bit b"
  then have b0: "bit a 0 = bit b 0" using bit_crc_bit_31 by metis
  then have "drop_bit 1 a = drop_bit 1 b"
    using eq by (auto simp: crc_bit_def xor_cancel_right split: if_splits)
  then have "bit a (Suc n) = bit b (Suc n)" for n
    by (metis One_nat_def bit_drop_bit_eq comp_apply plus_1_eq_Suc)
  then show "a = b" using b0 by (metis bit_word_eqI not0_implies_Suc)
qed

lemma inj_crc_bits: "inj (crc_bit ^^ n)"
proof (induction n)
  case (Suc n)
  then show ?case unfolding funpow.simps by (intro inj_compose inj_crc_bit)
qed simp

lemma crc_byte_state: "crc_byte a x = crc_byte b x \<longleftrightarrow> a = b"
  unfolding crc_byte_def using inj_crc_bits[of 8] by (auto simp: inj_eq xor_cancel_right)

lemma crc_byte_value: "crc_byte a x = crc_byte a y \<longleftrightarrow> x = y"
proof -
  have "(ucast x :: 32 word) = ucast y \<longleftrightarrow> x = y"
    by (auto simp: word_unat_eq_iff unsigned_ucast_eq take_bit_eq_mod unat_byte_lt
        mod_less[OF less_trans[OF unat_byte_lt]])
  then show ?thesis unfolding crc_byte_def using inj_crc_bits[of 8]
    by (metis inj_eq xor.commute xor_cancel_right)
qed

lemma foldl_crc_byte_inj: "foldl crc_byte a p = foldl crc_byte b p \<longleftrightarrow> a = b"
  by (induction p arbitrary: a b) (auto simp: crc_byte_state)

lemma crc_single_byte:
  assumes "i < length p" "b \<noteq> p ! i"
  shows "crc_Checksum (p[i := b]) \<noteq> crc_Checksum p"
proof -
  have p: "p = take i p @ p ! i # drop (Suc i) p" using assms(1) by (rule id_take_nth_drop)
  have q: "p[i := b] = take i p @ b # drop (Suc i) p"
    using assms(1) by (rule upd_conv_take_nth_drop)
  have "foldl crc_byte c (take i p @ b # drop (Suc i) p) \<noteq>
      foldl crc_byte c (take i p @ p ! i # drop (Suc i) p)" for c
    using assms(2) by (simp add: foldl_crc_byte_inj crc_byte_value)
  then show ?thesis
    unfolding crc_Checksum_def crc_Update_def q by (metis bit.double_compl p)
qed

subsection \<open>The payload reads back\<close>

lemma log_readLine_line:
  "CR \<notin> set ds \<Longrightarrow>
   log_readLine pre (ds @ CR # LF # rest) =
     (case ParseInt (pre @ ds) of None \<Rightarrow> Inl ErrCorrupt | Some v \<Rightarrow> Inr (v, rest))"
proof (induction ds arbitrary: pre)
  case (Cons c ds)
  obtain d tl' where d: "ds @ CR # LF # rest = d # tl'" by (cases ds) auto
  have "log_readLine pre ((c # ds) @ CR # LF # rest) = log_readLine (pre @ [c]) (ds @ CR # LF # rest)"
    using Cons.prems d by simp
  then show ?case using Cons by simp
qed simp

lemma log_readLine_AppendInt [codec_simps]:
  "is_int64 n \<Longrightarrow> log_readLine [] (AppendInt n @ CR # LF # rest) = Inr (n, rest)"
  using AppendInt_no_crlf[of CR n] by (subst log_readLine_line) (auto simp: ParseInt_AppendInt)

lemma appendRESPArray_eq:
  "appendRESPArray dst args =
     dst @ Star # AppendInt (int (length args)) @ CR # LF # concat (map bulk_bytes args)"
proof -
  have "foldl (\<lambda>d a. d @ bulk_bytes a) x as = x @ concat (map bulk_bytes as)" for x as
    by (induction as arbitrary: x) auto
  then show ?thesis by (simp add: appendRESPArray_def)
qed

lemma length_bulk_bytes: "length a + 5 \<le> length (bulk_bytes a)"
proof -
  have "0 < length (AppendInt (int (length a)))" by simp
  then show ?thesis unfolding bulk_bytes_def by simp
qed

lemma decode_elems_bulk:
  assumes "length a + 2 < 2 ^ 63"
  shows "decode_elems (Suc n) (bulk_bytes a @ rest) acc = decode_elems n rest (acc @ [a])"
proof -
  have i: "is_int64 (int (length a))" "is_int64 (int (length a) + 2)"
    using assms by (simp_all add: is_int64_def)
  have "log_readLine [] (tl (bulk_bytes a @ rest)) = Inr (int (length a), a @ CR # LF # rest)"
    using i log_readLine_AppendInt by (simp add: bulk_bytes_def)
  then show ?thesis using i by (simp add: bulk_bytes_def nth_append)
qed

lemma decode_elems_concat:
  "\<forall>a \<in> set as. length a + 2 < 2 ^ 63 \<Longrightarrow>
   decode_elems (length as) (concat (map bulk_bytes as)) acc = Some (Inr (acc @ as))"
proof (induction as arbitrary: acc)
  case (Cons a as)
  then show ?case
    using decode_elems_bulk[of a "length as" "concat (map bulk_bytes as)" acc]
    by (simp del: decode_elems.simps)
qed simp

lemma length_concat_bulk: "length as \<le> length (concat (map bulk_bytes as))"
proof (induction as)
  case (Cons a as)
  then show ?case using length_bulk_bytes[of a] by simp
qed simp

lemma length_mem_concat_bulk: "a \<in> set as \<Longrightarrow> length a + 5 \<le> length (concat (map bulk_bytes as))"
proof (induction as)
  case (Cons b as)
  then show ?case using length_bulk_bytes[of a] by auto
qed simp

lemma decodeRESPArray_append:
  assumes "length (appendRESPArray [] args) < 2 ^ 63"
  shows "decodeRESPArray (appendRESPArray [] args) = Some (Inr args)"
proof -
  let ?p = "appendRESPArray [] args"
  have len: "length args \<le> length ?p" "\<forall>a \<in> set args. length a + 2 < 2 ^ 63"
    using length_concat_bulk[of args] length_mem_concat_bulk[of _ args] assms
    by (fastforce simp: appendRESPArray_eq)+
  then have "is_int64 (int (length args))" using assms by (simp add: is_int64_def)
  then have "log_readLine [] (tl ?p) = Inr (int (length args), concat (map bulk_bytes args))"
    by (simp add: appendRESPArray_eq log_readLine_AppendInt)
  moreover have "hd ?p = Star" "length ?p \<noteq> 0" by (simp_all add: appendRESPArray_eq)
  ultimately show ?thesis
    using len decode_elems_concat[OF len(2), of "[]"] by (simp add: decodeRESPArray_def)
qed

subsection \<open>recordSize is the size of the encoded record\<close>

lemma length_dec_digits_loop: "0 < n \<Longrightarrow> digits_loop n d = d + length (dec_digits n)"
proof (induction n d rule: digits_loop.induct)
  case (1 n d)
  show ?case
  proof (cases "n < 10")
    case True
    then have "digits_loop (n div 10) (d + 1) = d + 1" by (simp add: digits_loop.simps)
    then show ?thesis using 1 True by (simp add: digits_loop.simps[of n d] dec_digits.simps)
  next
    case False
    then show ?thesis
      using "1.IH" "1.prems" by (simp add: digits_loop.simps[of n d] dec_digits.simps[of n])
  qed
qed

lemma digits_length: "digits n = length (AppendInt (int n))"
  using length_dec_digits_loop[of n 0] by (simp add: digits_def AppendInt_def dec_digits.simps[of n])

lemma length_record_head [simp]: "length (record_head db kind n) = 8"
  by (simp add: record_head_def)

lemma length_encodeRecord:
  "length (encodeRecord [] db kind args) = 12 + length (appendRESPArray [] args)"
  by (simp add: encodeRecord_def Let_def)

lemma recordSize_eq: "recordSize args = length (encodeRecord [] db kind args)"
proof -
  have "foldl (\<lambda>n a. n + (1 + digits (length a) + 2 + length a + 2)) x as =
      x + length (concat (map bulk_bytes as))" for x as
    by (induction as arbitrary: x) (auto simp: bulk_bytes_def digits_length)
  then show ?thesis
    by (simp add: recordSize_def length_encodeRecord appendRESPArray_eq digits_length recordHeaderSize_def)
qed

end
