(* ===== verification/Log_Stream.thy ===== *)
theory Log_Stream
  imports Log_Record
begin

text \<open>
  What \<open>persist.Reader\<close> makes of a whole stream: the loop \<open>for r.Next()\<close> that
  recovery and replication run, on an intact log, on a log cut anywhere by a crash, and on a
  log with a damaged byte.
\<close>

lemma log_Next_shrinks:
  assumes "log_Next r = Some (r', True)"
  shows "length (rd_src r') < length (rd_src r)"
  using assms
  by (auto simp: log_Next_def Let_def recordHeaderSize_def
      split: if_splits bind_splits sum.splits)

text \<open>The loop: the records it delivers, and the reader when \<open>Next\<close> has returned false.\<close>

function read_records :: "log_reader \<Rightarrow> (log_rec list \<times> log_reader) go" where
  "read_records r =
     (case log_Next r of
        None \<Rightarrow> None
      | Some (r', ok) \<Rightarrow>
          if ok then
            (case read_records r' of
               None \<Rightarrow> None
             | Some (recs, rf) \<Rightarrow> Some (the (rd_rec r') # recs, rf))
          else Some ([], r'))"
  by pat_completeness auto
termination
  by (relation "measure (length \<circ> rd_src)") (auto dest: log_Next_shrinks)

declare read_records.simps [simp del]

subsection \<open>One record\<close>

definition rec_ok :: "int \<times> record_kind \<times> bytes list \<Rightarrow> bool" where
  "rec_ok = (\<lambda>(db, kind, args).
     0 \<le> db \<and> db < 65536 \<and> kind_code kind < 65536 \<and> kind_of (kind_code kind) = kind \<and>
     args \<noteq> [] \<and> length (appendRESPArray [] args) \<le> MaxRecordSize)"

definition rec_bytes :: "int \<times> record_kind \<times> bytes list \<Rightarrow> bytes" where
  "rec_bytes = (\<lambda>(db, kind, args). encodeRecord [] db kind args)"

definition rec_at :: "nat \<Rightarrow> int \<times> record_kind \<times> bytes list \<Rightarrow> log_rec" where
  "rec_at off = (\<lambda>(db, kind, args).
     \<lparr>rec_DB = nat db, rec_Kind = kind, rec_Args = args, rec_Offset = off,
      rec_Size = length (encodeRecord [] db kind args), rec_Raw = None\<rparr>)"

lemma length_rec_bytes: "12 \<le> length (rec_bytes x)"
  by (simp add: rec_bytes_def length_encodeRecord split: prod.splits)

text \<open>A header and payload as the reader takes them apart.\<close>

lemma log_Next_frame:
  assumes "rd_err r = None" "rd_src r = (h @ c) @ p @ rest" "length h = 8" "length c = 4"
    and "length p \<le> MaxRecordSize" "le_val (take 4 h) = length p"
  shows "log_Next r =
    (if crc_Checksum (h @ p) \<noteq> of_nat (le_val c) then
       Some (r\<lparr>rd_src := rest, rd_err := Some ErrCorrupt\<rparr>, False)
     else do {
       dec \<leftarrow> decodeRESPArray p;
       case dec of
         Inl e \<Rightarrow> Some (r\<lparr>rd_src := rest, rd_err := Some ErrPlain\<rparr>, False)
       | Inr args \<Rightarrow>
           if length args = 0 then
             Some (r\<lparr>rd_src := rest, rd_err := Some ErrCorrupt\<rparr>, False)
           else
             Some (r\<lparr>rd_src := rest,
                     rd_rec := Some \<lparr>rec_DB = le_val (take 2 (drop 4 h)),
                        rec_Kind = kind_of (le_val (take 2 (drop 6 h))), rec_Args = args,
                        rec_Offset = rd_off r, rec_Size = 12 + length p,
                        rec_Raw = (if rd_keep r then Some ((h @ c) @ p) else None)\<rparr>,
                     rd_off := rd_off r + (12 + length p)\<rparr>, True)
     })"
proof -
  have hdr: "take 12 ((h @ c) @ p @ rest) = h @ c" "drop 12 ((h @ c) @ p @ rest) = p @ rest"
    using assms(3,4) by simp_all
  have ne: "h \<noteq> []" using assms(3) by auto
  show ?thesis
    using assms(1,3-6) ne unfolding log_Next_def assms(2) recordHeaderSize_def Let_def hdr
    by (simp add: crc_Update_Checksum cong: if_cong option.case_cong)
qed

lemma record_head_fields:
  assumes "n < 2 ^ 32" "0 \<le> db" "db < 65536" "kind_code kind < 65536"
  shows "le_val (take 4 (record_head db kind n)) = n"
    "le_val (take 2 (drop 4 (record_head db kind n))) = nat db"
    "le_val (take 2 (drop 6 (record_head db kind n))) = kind_code kind"
  using assms by (simp_all add: record_head_def le_val_le_bytes)

lemma unat_crc_le: "of_nat (le_val (le_bytes 4 (unat (c :: 32 word)))) = c"
proof -
  have "unat c < 256 ^ 4" using unsigned_less[of c, where ?'a = nat] by simp
  then show ?thesis by (simp add: le_val_le_bytes_id del: power_numeral)
qed

lemma rec_bytes_split:
  assumes "x = (db, kind, args)"
  shows "rec_bytes x = (record_head db kind (length (appendRESPArray [] args)) @
      le_bytes 4 (unat (crc_Checksum (record_head db kind (length (appendRESPArray [] args)) @
        appendRESPArray [] args)))) @ appendRESPArray [] args"
  using assms by (simp add: rec_bytes_def encodeRecord_def Let_def crc_Update_Checksum)

lemma log_Next_rec:
  assumes "rec_ok x" "rd_err r = None" "rd_keep r = False" "rd_src r = rec_bytes x @ rest"
  shows "log_Next r = Some (r\<lparr>rd_src := rest, rd_rec := Some (rec_at (rd_off r) x),
    rd_off := rd_off r + length (rec_bytes x)\<rparr>, True)"
proof -
  obtain db kind args where x: "x = (db, kind, args)" by (cases x) auto
  let ?p = "appendRESPArray [] args"
  let ?h = "record_head db kind (length ?p)"
  have ok: "0 \<le> db" "db < 65536" "kind_code kind < 65536" "kind_of (kind_code kind) = kind"
    "args \<noteq> []" "length ?p \<le> MaxRecordSize"
    using assms(1) x by (auto simp: rec_ok_def)
  have n: "length ?p < 2 ^ 32" "length ?p < 2 ^ 63" using ok(6) by (auto simp: MaxRecordSize_def)
  note f = record_head_fields[OF n(1) ok(1-3)]
  have src: "rd_src r = (?h @ le_bytes 4 (unat (crc_Checksum (?h @ ?p)))) @ ?p @ rest"
    using assms(4) rec_bytes_split[OF x] by simp
  show ?thesis
    using assms(2,3) ok(4,5) f unat_crc_le decodeRESPArray_append[OF n(2)]
    by (subst log_Next_frame[OF assms(2) src _ _ ok(6)])
       (simp_all add: x rec_at_def rec_bytes_def length_encodeRecord)
qed

subsection \<open>An intact stream\<close>

definition enc_stream :: "(int \<times> record_kind \<times> bytes list) list \<Rightarrow> bytes" where
  "enc_stream xs = concat (map rec_bytes xs)"

fun recs_at :: "nat \<Rightarrow> (int \<times> record_kind \<times> bytes list) list \<Rightarrow> log_rec list" where
  "recs_at off [] = []"
| "recs_at off (x # xs) = rec_at off x # recs_at (off + length (rec_bytes x)) xs"

lemma enc_stream_simps [simp]:
  "enc_stream [] = []" "enc_stream (x # xs) = rec_bytes x @ enc_stream xs"
  by (simp_all add: enc_stream_def)

text \<open>Reading a run of good records and then whatever follows them.\<close>

lemma read_records_prefix:
  assumes "list_all rec_ok xs" "rd_err r = None" "rd_keep r = False"
    and "rd_src r = enc_stream xs @ rest"
  shows "\<exists>rc. read_records r = map_option (apfst ((@) (recs_at (rd_off r) xs)))
    (read_records (r\<lparr>rd_src := rest, rd_rec := rc, rd_off := rd_off r + length (enc_stream xs)\<rparr>))"
  using assms
proof (induction xs arbitrary: r)
  case Nil
  then have r: "r\<lparr>rd_src := rest, rd_rec := rd_rec r, rd_off := rd_off r + length (enc_stream [])\<rparr> = r"
    by simp
  have "map_option (apfst (\<lambda>a. a)) x = x" for x :: "(log_rec list \<times> log_reader) go"
    by (cases x) auto
  then show ?case using r by (intro exI[of _ "rd_rec r"]) simp
next
  case (Cons x xs)
  let ?r = "r\<lparr>rd_src := enc_stream xs @ rest, rd_rec := Some (rec_at (rd_off r) x),
    rd_off := rd_off r + length (rec_bytes x)\<rparr>"
  have nx: "log_Next r = Some (?r, True)"
    using Cons.prems by (intro log_Next_rec) simp_all
  have "\<exists>rc. read_records ?r = map_option (apfst ((@) (recs_at (rd_off ?r) xs)))
      (read_records (?r\<lparr>rd_src := rest, rd_rec := rc, rd_off := rd_off ?r + length (enc_stream xs)\<rparr>))"
    using Cons.prems by (intro Cons.IH) simp_all
  then obtain rc where rc: "read_records ?r =
      map_option (apfst ((@) (recs_at (rd_off r + length (rec_bytes x)) xs)))
      (read_records (r\<lparr>rd_src := rest, rd_rec := rc, rd_off := rd_off r + length (enc_stream (x # xs))\<rparr>))"
    by (auto simp: add.assoc)
  show ?case
    by (rule exI[of _ rc], subst read_records.simps)
       (simp add: nx rc option.map_comp comp_def map_option_case split: option.splits)
qed

lemma read_records_stop:
  "log_Next r = Some (r', False) \<Longrightarrow> read_records r = Some ([], r')"
  by (simp add: read_records.simps[of r])

lemma read_records_then_stop:
  assumes "list_all rec_ok xs" "rd_err r = None" "rd_keep r = False"
    and "rd_src r = enc_stream xs @ rest"
    and "\<And>r0. rd_src r0 = rest \<Longrightarrow> rd_err r0 = None \<Longrightarrow> rd_off r0 = rd_off r + length (enc_stream xs) \<Longrightarrow>
      \<exists>r1. log_Next r0 = Some (r1, False) \<and> rd_err r1 = e \<and> rd_off r1 = rd_off r0 \<and>
           rd_base r1 = rd_base r0"
  shows "\<exists>rf. read_records r = Some (recs_at (rd_off r) xs, rf) \<and> rd_err rf = e \<and>
    rd_off rf = rd_off r + length (enc_stream xs) \<and> rd_base rf = rd_base r"
proof -
  obtain rc where eq: "read_records r = map_option (apfst ((@) (recs_at (rd_off r) xs)))
    (read_records (r\<lparr>rd_src := rest, rd_rec := rc, rd_off := rd_off r + length (enc_stream xs)\<rparr>))"
    using read_records_prefix[OF assms(1-4)] by blast
  let ?r0 = "r\<lparr>rd_src := rest, rd_rec := rc, rd_off := rd_off r + length (enc_stream xs)\<rparr>"
  obtain r1 where r1: "log_Next ?r0 = Some (r1, False)" "rd_err r1 = e" "rd_off r1 = rd_off ?r0"
    "rd_base r1 = rd_base ?r0"
    using assms(5)[of ?r0] assms(2) by auto
  then show ?thesis using eq read_records_stop[OF r1(1)] by auto
qed

lemma read_records_intact:
  assumes "list_all rec_ok xs"
  shows "\<exists>rf. read_records (NewRecordStream (enc_stream xs) off) = Some (recs_at off xs, rf) \<and>
    rd_err rf = None \<and> rd_off rf = off + length (enc_stream xs) \<and> rd_base rf = off"
  using read_records_then_stop[OF assms, of "NewRecordStream (enc_stream xs) off" "[]" None]
  by (simp add: NewRecordStream_def log_Next_def)

subsection \<open>A stream cut by a crash\<close>

lemma log_Next_torn:
  assumes "rec_ok x" "rd_err r = None" "rd_src r = take m (rec_bytes x)"
    and "0 < m" "m < length (rec_bytes x)"
  shows "\<exists>r1. log_Next r = Some (r1, False) \<and> rd_err r1 = Some ErrTornTail \<and>
    rd_off r1 = rd_off r \<and> rd_base r1 = rd_base r"
proof -
  obtain db kind args where x: "x = (db, kind, args)" by (cases x) auto
  let ?p = "appendRESPArray [] args"
  let ?h = "record_head db kind (length ?p)"
  let ?c = "le_bytes 4 (unat (crc_Checksum (?h @ ?p)))"
  have src: "rd_src r = take m ((?h @ ?c) @ ?p)" using assms(3) rec_bytes_split[OF x] by simp
  have len: "length (rec_bytes x) = 12 + length ?p" using rec_bytes_split[OF x] by simp
  have ne: "rd_src r \<noteq> []" using assms(3-5) len by auto
  show ?thesis
  proof (cases "m < 12")
    case True
    then show ?thesis using ne assms(2,3) len by (auto simp: log_Next_def recordHeaderSize_def)
  next
    case False
    have ok: "0 \<le> db" "db < 65536" "kind_code kind < 65536" "length ?p \<le> MaxRecordSize"
      using assms(1) x by (auto simp: rec_ok_def)
    then have "length ?p < 2 ^ 32" by (simp add: MaxRecordSize_def)
    note f = record_head_fields[OF this ok(1-3)]
    have "take 12 (rd_src r) = ?h @ ?c" "drop 12 (rd_src r) = take (m - 12) ?p"
      using src False by (simp_all add: min_def)
    moreover have "length (take (m - 12) ?p) < length ?p" using assms(5) len False by simp
    ultimately show ?thesis
      using ne assms(2,5) f ok(4) False len
      by (simp add: log_Next_def Let_def recordHeaderSize_def src)
  qed
qed

text \<open>
  A cut at any byte \<open>n\<close> falls inside exactly one record or between two: \<open>k\<close>
  records are whole.
\<close>

lemma take_stream_split:
  "n \<le> length (enc_stream xs) \<Longrightarrow>
   \<exists>k \<le> length xs. length (enc_stream (take k xs)) \<le> n \<and>
     take n (enc_stream xs) = enc_stream (take k xs) @
       (if k < length xs then take (n - length (enc_stream (take k xs))) (rec_bytes (xs ! k)) else []) \<and>
     (k < length xs \<longrightarrow> n < length (enc_stream (take (Suc k) xs)))"
proof (induction xs arbitrary: n)
  case (Cons x xs)
  show ?case
  proof (cases "n < length (rec_bytes x)")
    case True
    then show ?thesis by (intro exI[of _ 0]) simp
  next
    case False
    have le: "n - length (rec_bytes x) \<le> length (enc_stream xs)" using Cons.prems by simp
    obtain k where k: "k \<le> length xs" "length (enc_stream (take k xs)) \<le> n - length (rec_bytes x)"
      "take (n - length (rec_bytes x)) (enc_stream xs) = enc_stream (take k xs) @
       (if k < length xs then take (n - length (rec_bytes x) - length (enc_stream (take k xs)))
          (rec_bytes (xs ! k)) else [])"
      "k < length xs \<longrightarrow> n - length (rec_bytes x) < length (enc_stream (take (Suc k) xs))"
      using Cons.IH[OF le] by blast
    then show ?thesis using False by (intro exI[of _ "Suc k"]) (auto simp: diff_diff_left)
  qed
qed simp

lemma read_records_torn:
  assumes "list_all rec_ok xs" "n \<le> length (enc_stream xs)"
  shows "\<exists>k rf. k \<le> length xs \<and> length (enc_stream (take k xs)) \<le> n \<and>
    (k < length xs \<longrightarrow> n < length (enc_stream (take (Suc k) xs))) \<and>
    read_records (NewRecordStream (take n (enc_stream xs)) off) = Some (recs_at off (take k xs), rf) \<and>
    rd_off rf = off + length (enc_stream (take k xs)) \<and> rd_base rf = off \<and>
    rd_err rf = (if length (enc_stream (take k xs)) = n then None else Some ErrTornTail)"
proof -
  obtain k where k: "k \<le> length xs" "length (enc_stream (take k xs)) \<le> n"
    "take n (enc_stream xs) = enc_stream (take k xs) @
       (if k < length xs then take (n - length (enc_stream (take k xs))) (rec_bytes (xs ! k)) else [])"
    "k < length xs \<longrightarrow> n < length (enc_stream (take (Suc k) xs))"
    using take_stream_split[OF assms(2)] by blast
  let ?m = "n - length (enc_stream (take k xs))"
  let ?rest = "if k < length xs then take ?m (rec_bytes (xs ! k)) else []"
  let ?e = "if length (enc_stream (take k xs)) = n then None else Some ErrTornTail"
  have ok: "list_all rec_ok (take k xs)"
    using assms(1) by (auto simp: list_all_iff dest: in_set_takeD)
  have full: "k = length xs \<Longrightarrow> n = length (enc_stream (take k xs))"
    using assms(2) k(2) by simp
  have stop: "\<exists>r1. log_Next r0 = Some (r1, False) \<and> rd_err r1 = ?e \<and> rd_off r1 = rd_off r0 \<and>
      rd_base r1 = rd_base r0" if r0: "rd_src r0 = ?rest" "rd_err r0 = None" for r0
  proof (cases "?m = 0")
    case True
    then have "rd_src r0 = []" using r0(1) by simp
    then show ?thesis using r0(2) True k(2) by (simp add: log_Next_def)
  next
    case False
    then have lt: "k < length xs" using k(1) full by fastforce
    have "enc_stream (take (Suc k) xs) = enc_stream (take k xs) @ rec_bytes (xs ! k)"
      using lt by (simp add: take_Suc_conv_app_nth enc_stream_def)
    then have "?m < length (rec_bytes (xs ! k))" using k(4) lt False by auto
    moreover have "rec_ok (xs ! k)" using assms(1) lt by (simp add: list_all_length)
    ultimately show ?thesis
      using log_Next_torn[of "xs ! k" r0 ?m] r0 False lt by auto
  qed
  let ?R = "NewRecordStream (take n (enc_stream xs)) off"
  have R: "rd_err ?R = None" "rd_keep ?R = False" "rd_src ?R = enc_stream (take k xs) @ ?rest"
    "rd_off ?R = off" "rd_base ?R = off"
    unfolding NewRecordStream_def using k(3) by simp_all
  have "\<exists>rf. read_records ?R = Some (recs_at (rd_off ?R) (take k xs), rf) \<and> rd_err rf = ?e \<and>
      rd_off rf = rd_off ?R + length (enc_stream (take k xs)) \<and> rd_base rf = rd_base ?R"
    by (rule read_records_then_stop[OF ok R(1-3)]) (rule stop)
  then have "\<exists>rf. read_records ?R = Some (recs_at off (take k xs), rf) \<and> rd_err rf = ?e \<and>
      rd_off rf = off + length (enc_stream (take k xs)) \<and> rd_base rf = off"
    unfolding R(4,5) .
  then show ?thesis using k(1,2,4) by (intro exI[of _ k]) auto
qed

subsection \<open>A damaged byte\<close>

lemma log_Next_flip:
  assumes "rec_ok x" "rd_err r = None" "rd_src r = (rec_bytes x)[i := b] @ rest"
    and "4 \<le> i" "i < length (rec_bytes x)" "b \<noteq> rec_bytes x ! i"
  shows "\<exists>r1. log_Next r = Some (r1, False) \<and> rd_err r1 = Some ErrCorrupt \<and>
    rd_off r1 = rd_off r \<and> rd_base r1 = rd_base r"
proof -
  obtain db kind args where x: "x = (db, kind, args)" by (cases x) auto
  define p where "p = appendRESPArray [] args"
  define h where "h = record_head db kind (length p)"
  define c where "c = le_bytes 4 (unat (crc_Checksum (h @ p)))"
  have rb: "rec_bytes x = (h @ c) @ p" using rec_bytes_split[OF x] by (simp add: p_def h_def c_def)
  have lens: "length h = 8" "length c = 4" by (simp_all add: h_def c_def)
  have ok: "0 \<le> db" "db < 65536" "kind_code kind < 65536" "length p \<le> MaxRecordSize"
    using assms(1) x by (auto simp: rec_ok_def p_def)
  then have "length p < 2 ^ 32" by (simp add: MaxRecordSize_def)
  note f = record_head_fields[OF this ok(1-3), folded h_def]
  have bad: ?thesis
    if "rd_src r = (h' @ c') @ p' @ rest" "length h' = 8" "length c' = 4" "length p' = length p"
      "take 4 h' = take 4 h" "crc_Checksum (h' @ p') \<noteq> of_nat (le_val c')" for h' c' p'
    using that ok(4) f(1) log_Next_frame[OF assms(2) that(1-3)] by simp
  have want: "of_nat (le_val c) = crc_Checksum (h @ p)" by (simp add: c_def unat_crc_le)
  consider "i < 8" | "8 \<le> i" "i < 12" | "12 \<le> i" by linarith
  then show ?thesis
  proof cases
    case 1
    have "rd_src r = (h[i := b] @ c) @ p @ rest"
      using assms(3) rb lens 1 by (simp add: list_update_append)
    moreover have "h[i := b] @ p = (h @ p)[i := b]" using lens 1 by (simp add: list_update_append)
    moreover have "crc_Checksum ((h @ p)[i := b]) \<noteq> crc_Checksum (h @ p)"
      using assms(6) rb lens 1 by (intro crc_single_byte) (simp_all add: nth_append)
    ultimately show ?thesis using lens want assms(4) by (intro bad[of "h[i := b]" c p]) simp_all
  next
    case 2
    then have lt: "i - 8 < 4" by linarith
    have "rd_src r = (h @ c[i - 8 := b]) @ p @ rest"
      using assms(3) rb lens 2 lt by (simp add: list_update_append)
    moreover have "le_val (c[i - 8 := b]) \<noteq> le_val c"
    proof
      assume "le_val (c[i - 8 := b]) = le_val c"
      then have "c[i - 8 := b] = c" using le_bytes_le_val[of "c[i - 8 := b]" 4] le_bytes_le_val[of c 4] lens by simp
      then have "c ! (i - 8) = b" using lens lt by (metis nth_list_update_eq)
      then show False using assms(6) rb lens 2 lt by (simp add: nth_append)
    qed
    moreover have "le_val (c[i - 8 := b]) < 2 ^ 32" "le_val c < 2 ^ 32"
      using le_val_lt[of "c[i - 8 := b]"] le_val_lt[of c] lens by simp_all
    ultimately show ?thesis
      using lens want
      by (intro bad[of h "c[i - 8 := b]" p]) (auto simp: word_of_nat_eq_iff take_bit_nat_eq_self)
  next
    case 3
    then have nlt: "\<not> i - 8 < 4" "i - 8 - 4 = i - 12" "\<not> i - 4 < 8" by linarith+
    have "rd_src r = (h @ c) @ p[i - 12 := b] @ rest"
      using assms(3,5) rb lens 3 nlt by (simp add: list_update_append)
    moreover have "h @ p[i - 12 := b] = (h @ p)[i - 4 := b]"
      using lens 3 nlt by (simp add: list_update_append)
    moreover have "crc_Checksum ((h @ p)[i - 4 := b]) \<noteq> crc_Checksum (h @ p)"
      using assms(5,6) rb lens 3 nlt by (intro crc_single_byte) (simp_all add: nth_append)
    ultimately show ?thesis using lens want by (intro bad[of h c "p[i - 12 := b]"]) simp_all
  qed
qed

lemma read_records_flip:
  assumes "list_all rec_ok xs" "rec_ok x" "4 \<le> i" "i < length (rec_bytes x)" "b \<noteq> rec_bytes x ! i"
  shows "\<exists>rf. read_records (NewRecordStream (enc_stream xs @ (rec_bytes x)[i := b] @ rest) off) =
      Some (recs_at off xs, rf) \<and> rd_err rf = Some ErrCorrupt \<and>
    rd_off rf = off + length (enc_stream xs) \<and> rd_base rf = off"
proof -
  let ?R = "NewRecordStream (enc_stream xs @ (rec_bytes x)[i := b] @ rest) off"
  have R: "rd_err ?R = None" "rd_keep ?R = False" "rd_src ?R = enc_stream xs @ (rec_bytes x)[i := b] @ rest"
    "rd_off ?R = off" "rd_base ?R = off"
    by (simp_all add: NewRecordStream_def)
  have "\<exists>rf. read_records ?R = Some (recs_at (rd_off ?R) xs, rf) \<and> rd_err rf = Some ErrCorrupt \<and>
      rd_off rf = rd_off ?R + length (enc_stream xs) \<and> rd_base rf = rd_base ?R"
    by (rule read_records_then_stop[OF assms(1) R(1-3)])
       (rule log_Next_flip[OF assms(2) _ _ assms(3-5)])
  then show ?thesis unfolding R(4,5) .
qed

subsection \<open>Properties\<close>

definition sample_records :: "(int \<times> record_kind \<times> bytes list) list" where
  "sample_records = [(0, KindEffect, [[83, 69, 84], [107], [118]]), (3, KindAnchor, [[65]])]"

lemmas small_payload = appendRESPArray_def bulk_bytes_def AppendInt_def dec_digits.simps

lemma sample_ok: "list_all rec_ok sample_records"
  by (simp add: sample_records_def rec_ok_def kind_of_def small_payload MaxRecordSize_def)



text \<open>C8: A crash may cut the log at any byte. The reader then delivers exactly the records that are
  complete, stops at the offset where the first incomplete one begins, and reports a torn tail
  unless the cut falls between two records; it never reports corruption and never panics.\<close>

theorem log_crash_prefix:
  assumes "list_all rec_ok xs" "n \<le> length (enc_stream xs)"
  shows "\<exists>k rf. k \<le> length xs \<and> length (enc_stream (take k xs)) \<le> n \<and>
    (k < length xs \<longrightarrow> n < length (enc_stream (take (Suc k) xs))) \<and>
    read_records (NewRecordStream (take n (enc_stream xs)) off) = Some (recs_at off (take k xs), rf) \<and>
    rd_off rf = off + length (enc_stream (take k xs)) \<and>
    rd_err rf = (if length (enc_stream (take k xs)) = n then None else Some ErrTornTail)"
  using read_records_torn[OF assms] by blast

theorem log_crash_prefix_witness:
  "\<exists>k rf. k \<le> 2 \<and> length (enc_stream (take k sample_records)) \<le> 20 \<and>
    (k < 2 \<longrightarrow> 20 < length (enc_stream (take (Suc k) sample_records))) \<and>
    read_records (NewRecordStream (take 20 (enc_stream sample_records)) 0) = Some (recs_at 0 (take k sample_records), rf) \<and>
    rd_off rf = 0 + length (enc_stream (take k sample_records)) \<and>
    rd_err rf = (if length (enc_stream (take k sample_records)) = 20 then None else Some ErrTornTail)"
proof -
  have "length sample_records = 2" "20 \<le> length (enc_stream sample_records)"
    by (simp_all add: sample_records_def enc_stream_def rec_bytes_def length_encodeRecord small_payload)
  then show ?thesis using log_crash_prefix[OF sample_ok, of 20 0] by simp
qed

text \<open>C23: One damaged byte in a record, anywhere but in its length field, is detected whatever it was
  changed to: the reader delivers the records before it, stops there and reports corruption.\<close>

theorem log_damage_detected:
  assumes "list_all rec_ok xs" "rec_ok x" "4 \<le> i" "i < length (rec_bytes x)" "b \<noteq> rec_bytes x ! i"
  shows "\<exists>rf. read_records (NewRecordStream (enc_stream xs @ (rec_bytes x)[i := b] @ rest) off) =
      Some (recs_at off xs, rf) \<and> rd_err rf = Some ErrCorrupt \<and> rd_off rf = off + length (enc_stream xs)"
  using read_records_flip[OF assms] by blast

theorem log_damage_detected_witness:
  "\<exists>rf. read_records (NewRecordStream (enc_stream sample_records @
        (rec_bytes (0, KindEffect, [[83]]))[12 := 0] @ []) 0) =
      Some (recs_at 0 sample_records, rf) \<and> rd_err rf = Some ErrCorrupt \<and>
    rd_off rf = 0 + length (enc_stream sample_records)"
proof (rule log_damage_detected[OF sample_ok])
  let ?x = "(0, KindEffect, [[83]]) :: int \<times> record_kind \<times> bytes list"
  show "rec_ok ?x" by (simp add: rec_ok_def kind_of_def small_payload MaxRecordSize_def)
  show "12 < length (rec_bytes ?x)" by (simp add: rec_bytes_def length_encodeRecord small_payload)
  have "rec_bytes ?x ! 12 = Star"
    by (subst rec_bytes_split[OF refl]) (simp add: nth_append record_head_def small_payload)
  then show "0 \<noteq> rec_bytes ?x ! 12" by simp
qed simp

end
