(* ===== verification/Dict.thy ===== *)
theory Dict
  imports Kestrel_Prelude
begin

unbundle bit_operations_syntax

text \<open>
  The hash table of \<open>engine/dict.go\<close>: chained buckets whose first entry sits inline in
  the bucket array, an overflow arena kept dense by moving its last entry into a freed slot,
  power-of-two sizing and an incremental rehash. Links are arena indices, so the model keeps
  the two arrays and the index arithmetic; a link out of range, and a chain that does not
  end, are \<open>None\<close>.

  The hash function \<open>xxhash.Sum64\<close> is a third-party package. Its high half, which is
  what \<open>dictHash\<close> returns, is the parameter \<open>hf\<close> of every operation that
  hashes a key; nothing is assumed about it.
\<close>

subsection \<open>State\<close>

abbreviation noEntry :: int where "noEntry \<equiv> -1"
abbreviation noHead :: int where "noHead \<equiv> -2"

definition dictMinBuckets :: nat where "dictMinBuckets = 8"
definition dictShrinkAt :: nat where "dictShrinkAt = 8"

text \<open>The value of an unused slot is Go's zero value of \<open>V\<close>, written \<open>None\<close>.\<close>

record 'v entry =
  en_hash :: "32 word"
  en_next :: int
  en_key :: bytes
  en_val :: "'v option"

record 'v tbl =
  t_heads :: "'v entry list"
  t_over :: "'v entry list"
  t_mask :: "32 word"
  t_live :: int

record 'v dict =
  d_tab0 :: "'v tbl"
  d_tab1 :: "'v tbl"
  d_rehashAt :: int

definition zero_entry :: "'v entry" where
  "zero_entry = \<lparr>en_hash = 0, en_next = 0, en_key = [], en_val = None\<rparr>"

definition empty_table :: "'v tbl" where
  "empty_table = \<lparr>t_heads = [], t_over = [], t_mask = 0, t_live = 0\<rparr>"

definition newTable :: "nat \<Rightarrow> 'v tbl" where
  "newTable buckets =
     \<lparr>t_heads = map (\<lambda>e. e\<lparr>en_next := noHead\<rparr>) (replicate buckets zero_entry),
      t_over = [], t_mask = word_of_int (int buckets - 1), t_live = 0\<rparr>"

definition t_size :: "'v tbl \<Rightarrow> nat" where
  "t_size t = length (t_heads t)"

definition bucketOf :: "'v tbl \<Rightarrow> 32 word \<Rightarrow> nat" where
  "bucketOf t hash = unat (hash AND t_mask t)"

definition newDict :: "'v dict" where
  "newDict = \<lparr>d_tab0 = newTable dictMinBuckets, d_tab1 = empty_table, d_rehashAt = -1\<rparr>"

definition rehashing :: "'v dict \<Rightarrow> bool" where
  "rehashing d \<longleftrightarrow> d_rehashAt d \<ge> 0"

definition d_len :: "'v dict \<Rightarrow> int" where
  "d_len d = t_live (d_tab0 d) + (if rehashing d then t_live (d_tab1 d) else 0)"

subsection \<open>Chains\<close>

definition go_nth :: "'a list \<Rightarrow> int \<Rightarrow> 'a go" where
  "go_nth xs i = (if 0 \<le> i \<and> i < int (length xs) then Some (xs ! nat i) else None)"

definition en_match :: "32 word \<Rightarrow> bytes \<Rightarrow> 'v entry \<Rightarrow> bool" where
  "en_match hash key en \<longleftrightarrow> en_hash en = hash \<and> en_key en = key"

text \<open>
  Walk the overflow chain from link \<open>e\<close> to the first entry with this hash and key.
  \<open>prev\<close> is the link walked from; the result is the pair of links, or \<open>None\<close>
  inside the \<open>Some\<close> at the end of the chain. The fuel is one more than the arena
  holds.
\<close>

fun over_find :: "nat \<Rightarrow> 'v entry list \<Rightarrow> 32 word \<Rightarrow> bytes \<Rightarrow> int \<Rightarrow> int \<Rightarrow> (int \<times> int) option go" where
  "over_find 0 ov hash key prev e = None"
| "over_find (Suc fuel) ov hash key prev e =
     (if e = noEntry then Some None
      else do {
        en \<leftarrow> go_nth ov e;
        if en_match hash key en then Some (Some (prev, e))
        else over_find fuel ov hash key e (en_next en)
      })"

definition chain_find :: "'v tbl \<Rightarrow> 32 word \<Rightarrow> bytes \<Rightarrow> int \<Rightarrow> (int \<times> int) option go" where
  "chain_find t hash key e = over_find (Suc (length (t_over t))) (t_over t) hash key noHead e"

subsection \<open>One table: lookup, replace, insert\<close>

text \<open>\<open>lookup\<close> and \<open>lookupString\<close>; the second also answers on a table without buckets.\<close>

definition t_lookup :: "'v tbl \<Rightarrow> bytes \<Rightarrow> 32 word \<Rightarrow> 'v option go" where
  "t_lookup t key hash =
     do {
       h \<leftarrow> go_nth (t_heads t) (int (bucketOf t hash));
       if en_next h \<noteq> noHead then
         if en_match hash key h then Some (en_val h)
         else do {
           f \<leftarrow> chain_find t hash key (en_next h);
           case f of None \<Rightarrow> Some None
           | Some (prev, e) \<Rightarrow> map_option en_val (go_nth (t_over t) e)
         }
       else Some None
     }"

definition t_lookupString :: "'v tbl \<Rightarrow> bytes \<Rightarrow> 32 word \<Rightarrow> 'v option go" where
  "t_lookupString t key hash =
     (if length (t_heads t) = 0 then Some None else t_lookup t key hash)"

definition t_replace :: "'v tbl \<Rightarrow> bytes \<Rightarrow> 32 word \<Rightarrow> 'v \<Rightarrow> ('v tbl \<times> bool) go" where
  "t_replace t key hash val =
     (if length (t_heads t) = 0 then Some (t, False)
      else do {
        let b = bucketOf t hash;
        h \<leftarrow> go_nth (t_heads t) (int b);
        if en_next h = noHead then Some (t, False)
        else if en_match hash key h then
          Some (t\<lparr>t_heads := (t_heads t)[b := h\<lparr>en_val := Some val\<rparr>]\<rparr>, True)
        else do {
          f \<leftarrow> chain_find t hash key (en_next h);
          case f of None \<Rightarrow> Some (t, False)
          | Some (prev, e) \<Rightarrow> do {
              en \<leftarrow> go_nth (t_over t) e;
              Some (t\<lparr>t_over := (t_over t)[nat e := en\<lparr>en_val := Some val\<rparr>]\<rparr>, True)
            }
        }
      })"

definition t_insert :: "'v tbl \<Rightarrow> bytes \<Rightarrow> 32 word \<Rightarrow> 'v option \<Rightarrow> 'v tbl go" where
  "t_insert t key hash val =
     do {
       let b = bucketOf t hash;
       h \<leftarrow> go_nth (t_heads t) (int b);
       let t' = (if en_next h = noHead then
                   t\<lparr>t_heads := (t_heads t)[b := \<lparr>en_hash = hash, en_next = noEntry,
                                                   en_key = key, en_val = val\<rparr>]\<rparr>
                 else
                   t\<lparr>t_over := t_over t @ [\<lparr>en_hash = hash, en_next = en_next h,
                                             en_key = key, en_val = val\<rparr>],
                     t_heads := (t_heads t)[b := h\<lparr>en_next := int (length (t_over t))\<rparr>]\<rparr>);
       Some (t'\<lparr>t_live := t_live t' + 1\<rparr>)
     }"

subsection \<open>One table: unlinking\<close>

text \<open>
  The walk of \<open>dropOverflow\<close>: from link \<open>e\<close>, the first entry whose link is
  \<open>lst\<close> gets the link \<open>i\<close>.
\<close>

fun repoint :: "nat \<Rightarrow> 'v entry list \<Rightarrow> int \<Rightarrow> int \<Rightarrow> int \<Rightarrow> 'v entry list go" where
  "repoint 0 ov lst i e = None"
| "repoint (Suc fuel) ov lst i e =
     (if e = noEntry then Some ov
      else do {
        en \<leftarrow> go_nth ov e;
        if en_next en = lst then Some (ov[nat e := en\<lparr>en_next := i\<rparr>])
        else repoint fuel ov lst i (en_next en)
      })"

definition dropOverflow :: "'v tbl \<Rightarrow> int \<Rightarrow> 'v tbl go" where
  "dropOverflow t i =
     (let lst = int (length (t_over t)) - 1
      in do {
        moved \<leftarrow> go_nth (t_over t) lst;
        t' \<leftarrow>
          (if i \<noteq> lst then do {
             _ \<leftarrow> go_nth (t_over t) i;
             let ov = (t_over t)[nat i := moved];
             let b = bucketOf t (en_hash moved);
             h \<leftarrow> go_nth (t_heads t) (int b);
             if en_next h = lst then
               Some (t\<lparr>t_over := ov, t_heads := (t_heads t)[b := h\<lparr>en_next := i\<rparr>]\<rparr>)
             else do {
               ov' \<leftarrow> repoint (Suc (length ov)) ov lst i (en_next h);
               Some (t\<lparr>t_over := ov'\<rparr>)
             }
           } else Some t);
        Some (t'\<lparr>t_over := butlast (t_over t')\<rparr>)
      })"

definition unlinkHead :: "'v tbl \<Rightarrow> nat \<Rightarrow> 'v tbl go" where
  "unlinkHead t b =
     do {
       h \<leftarrow> go_nth (t_heads t) (int b);
       t' \<leftarrow>
         (if en_next h = noEntry then
            Some (t\<lparr>t_heads := (t_heads t)[b := zero_entry\<lparr>en_next := noHead\<rparr>]\<rparr>)
          else do {
            first \<leftarrow> go_nth (t_over t) (en_next h);
            dropOverflow (t\<lparr>t_heads := (t_heads t)[b := first]\<rparr>) (en_next h)
          });
       Some (t'\<lparr>t_live := t_live t' - 1\<rparr>)
     }"

text \<open>The predecessor is the bucket \<open>b\<close> itself when \<open>prev\<close> is not an arena index.\<close>

definition unlinkOverflow :: "'v tbl \<Rightarrow> nat \<Rightarrow> int \<Rightarrow> int \<Rightarrow> 'v tbl go" where
  "unlinkOverflow t b prev at =
     do {
       en \<leftarrow> go_nth (t_over t) at;
       t' \<leftarrow>
         (if prev < 0 then do {
            h \<leftarrow> go_nth (t_heads t) (int b);
            Some (t\<lparr>t_heads := (t_heads t)[b := h\<lparr>en_next := en_next en\<rparr>]\<rparr>)
          } else do {
            p \<leftarrow> go_nth (t_over t) prev;
            Some (t\<lparr>t_over := (t_over t)[nat prev := p\<lparr>en_next := en_next en\<rparr>]\<rparr>)
          });
       t'' \<leftarrow> dropOverflow t' at;
       Some (t''\<lparr>t_live := t_live t'' - 1\<rparr>)
     }"

text \<open>\<open>remove\<close> and \<open>removeString\<close>, which differ only in the type of the key.\<close>

definition t_remove :: "'v tbl \<Rightarrow> bytes \<Rightarrow> 32 word \<Rightarrow> ('v tbl \<times> bool) go" where
  "t_remove t key hash =
     (if length (t_heads t) = 0 then Some (t, False)
      else do {
        let b = bucketOf t hash;
        h \<leftarrow> go_nth (t_heads t) (int b);
        if en_next h = noHead then Some (t, False)
        else if en_match hash key h then map_option (\<lambda>t'. (t', True)) (unlinkHead t b)
        else do {
          f \<leftarrow> chain_find t hash key (en_next h);
          case f of None \<Rightarrow> Some (t, False)
          | Some (prev, e) \<Rightarrow> map_option (\<lambda>t'. (t', True)) (unlinkOverflow t b prev e)
        }
      })"

subsection \<open>Resizing\<close>

definition resize :: "'v dict \<Rightarrow> nat \<Rightarrow> 'v dict \<times> bool" where
  "resize d n =
     (if rehashing d then (d, False)
      else
        let n' = (if n < dictMinBuckets then dictMinBuckets else n)
        in (d\<lparr>d_tab1 := newTable n', d_rehashAt := 0\<rparr>, True))"

definition growIfFull :: "'v dict \<Rightarrow> 'v dict" where
  "growIfFull d =
     (if \<not> rehashing d \<and> t_live (d_tab0 d) \<ge> int (t_size (d_tab0 d))
      then fst (resize d (t_size (d_tab0 d) * 2)) else d)"

definition shrinkIfSparse :: "'v dict \<Rightarrow> 'v dict" where
  "shrinkIfSparse d =
     (if rehashing d then d
      else
        let sz = t_size (d_tab0 d)
        in if sz > dictMinBuckets \<and> t_live (d_tab0 d) * int dictShrinkAt < int sz
           then fst (resize d (sz div 2)) else d)"

text \<open>The inner loop of \<open>rehashBuckets\<close>: move bucket \<open>b\<close>, head by head.\<close>

fun drain_bucket :: "nat \<Rightarrow> 'v tbl \<Rightarrow> 'v tbl \<Rightarrow> nat \<Rightarrow> ('v tbl \<times> 'v tbl) go" where
  "drain_bucket 0 src dst b = None"
| "drain_bucket (Suc fuel) src dst b =
     do {
       h \<leftarrow> go_nth (t_heads src) (int b);
       if en_next h = noHead then Some (src, dst)
       else do {
         src' \<leftarrow> unlinkHead src b;
         dst' \<leftarrow> t_insert dst (en_key h) (en_hash h) (en_val h);
         drain_bucket fuel src' dst' b
       }
     }"

text \<open>
  The loop over buckets. The inner \<open>Inl\<close> is the early return with the empty-bucket
  budget spent, \<open>Inr\<close> falls out of the loop.
\<close>

fun rehash_loop :: "nat \<Rightarrow> 'v dict \<Rightarrow> int \<Rightarrow> int \<Rightarrow> ('v dict + 'v dict) go" where
  "rehash_loop 0 d n budget = None"
| "rehash_loop (Suc fuel) d n budget =
     (if n > 0 \<and> d_rehashAt d < int (t_size (d_tab0 d)) then
        do {
          let b = nat (d_rehashAt d);
          h \<leftarrow> go_nth (t_heads (d_tab0 d)) (d_rehashAt d);
          if en_next h = noHead then
            (let d' = d\<lparr>d_rehashAt := d_rehashAt d + 1\<rparr>
             in if budget - 1 = 0 then Some (Inl d') else rehash_loop fuel d' n (budget - 1))
          else do {
            (src, dst) \<leftarrow> drain_bucket (length (t_over (d_tab0 d)) + 2) (d_tab0 d) (d_tab1 d) b;
            rehash_loop fuel
              (d\<lparr>d_tab0 := src, d_tab1 := dst, d_rehashAt := d_rehashAt d + 1\<rparr>) (n - 1) budget
          }
        }
      else Some (Inr d))"

definition rehashBuckets :: "'v dict \<Rightarrow> int \<Rightarrow> ('v dict \<times> bool) go" where
  "rehashBuckets d n =
     (if \<not> rehashing d then Some (d, False)
      else do {
        res \<leftarrow> rehash_loop (Suc (t_size (d_tab0 d))) d n (n * 10);
        case res of
          Inl d' \<Rightarrow> Some (d', True)
        | Inr d' \<Rightarrow>
            if d_rehashAt d' \<ge> int (t_size (d_tab0 d')) then
              Some (d'\<lparr>d_tab0 := d_tab1 d', d_tab1 := empty_table, d_rehashAt := -1\<rparr>, False)
            else Some (d', True)
      })"

definition d_step :: "'v dict \<Rightarrow> 'v dict go" where
  "d_step d = (if rehashing d then map_option fst (rehashBuckets d 1) else Some d)"

subsection \<open>The dict\<close>

definition getHashed :: "'v dict \<Rightarrow> bytes \<Rightarrow> 32 word \<Rightarrow> 'v option go" where
  "getHashed d key hash =
     do {
       r \<leftarrow> t_lookup (d_tab0 d) key hash;
       case r of Some v \<Rightarrow> Some (Some v)
       | None \<Rightarrow> if rehashing d then t_lookup (d_tab1 d) key hash else Some None
     }"

definition d_get :: "(bytes \<Rightarrow> 32 word) \<Rightarrow> 'v dict \<Rightarrow> bytes \<Rightarrow> 'v option go" where
  "d_get hf d key = getHashed d key (hf key)"

definition d_getString :: "(bytes \<Rightarrow> 32 word) \<Rightarrow> 'v dict \<Rightarrow> bytes \<Rightarrow> 'v option go" where
  "d_getString hf d key =
     do {
       r \<leftarrow> t_lookupString (d_tab0 d) key (hf key);
       case r of Some v \<Rightarrow> Some (Some v)
       | None \<Rightarrow> if rehashing d then t_lookupString (d_tab1 d) key (hf key) else Some None
     }"

definition setHashed :: "'v dict \<Rightarrow> bytes \<Rightarrow> 32 word \<Rightarrow> 'v \<Rightarrow> ('v dict \<times> bool) go" where
  "setHashed d0 key hash val =
     do {
       d \<leftarrow> d_step d0;
       (t0, found0) \<leftarrow> t_replace (d_tab0 d) key hash val;
       if found0 then Some (d\<lparr>d_tab0 := t0\<rparr>, False)
       else do {
         (t1, found1) \<leftarrow>
           (if rehashing d then t_replace (d_tab1 d) key hash val else Some (d_tab1 d, False));
         if found1 then Some (d\<lparr>d_tab1 := t1\<rparr>, False)
         else
           let d' = growIfFull d
           in if rehashing d' then
                map_option (\<lambda>t. (d'\<lparr>d_tab1 := t\<rparr>, True)) (t_insert (d_tab1 d') key hash (Some val))
              else
                map_option (\<lambda>t. (d'\<lparr>d_tab0 := t\<rparr>, True)) (t_insert (d_tab0 d') key hash (Some val))
       }
     }"

definition d_set :: "(bytes \<Rightarrow> 32 word) \<Rightarrow> 'v dict \<Rightarrow> bytes \<Rightarrow> 'v \<Rightarrow> ('v dict \<times> bool) go" where
  "d_set hf d key val = setHashed d key (hf key) val"

definition deleteHashed :: "'v dict \<Rightarrow> bytes \<Rightarrow> 32 word \<Rightarrow> ('v dict \<times> bool) go" where
  "deleteHashed d0 key hash =
     do {
       d \<leftarrow> d_step d0;
       (t0, found0) \<leftarrow> t_remove (d_tab0 d) key hash;
       if found0 then Some (shrinkIfSparse (d\<lparr>d_tab0 := t0\<rparr>), True)
       else if rehashing d then do {
         (t1, found1) \<leftarrow> t_remove (d_tab1 d) key hash;
         if found1 then Some (shrinkIfSparse (d\<lparr>d_tab1 := t1\<rparr>), True) else Some (d, False)
       } else Some (d, False)
     }"

definition d_delete :: "(bytes \<Rightarrow> 32 word) \<Rightarrow> 'v dict \<Rightarrow> bytes \<Rightarrow> ('v dict \<times> bool) go" where
  "d_delete hf d key = deleteHashed d key (hf key)"

text \<open>The string-keyed twin of \<open>delete\<close>, whose \<open>removeString\<close> is \<open>remove\<close> on a string.\<close>

definition t_removeString :: "'v tbl \<Rightarrow> bytes \<Rightarrow> 32 word \<Rightarrow> ('v tbl \<times> bool) go" where
  "t_removeString t key hash = t_remove t key hash"

definition d_deleteString :: "(bytes \<Rightarrow> 32 word) \<Rightarrow> 'v dict \<Rightarrow> bytes \<Rightarrow> ('v dict \<times> bool) go" where
  "d_deleteString hf d0 key =
     do {
       d \<leftarrow> d_step d0;
       (t0, found0) \<leftarrow> t_removeString (d_tab0 d) key (hf key);
       if found0 then Some (shrinkIfSparse (d\<lparr>d_tab0 := t0\<rparr>), True)
       else if rehashing d then do {
         (t1, found1) \<leftarrow> t_removeString (d_tab1 d) key (hf key);
         if found1 then Some (shrinkIfSparse (d\<lparr>d_tab1 := t1\<rparr>), True) else Some (d, False)
       } else Some (d, False)
     }"

lemma d_deleteString_eq: "d_deleteString hf d key = d_delete hf d key"
  unfolding d_deleteString_def t_removeString_def d_delete_def deleteHashed_def ..

definition rehashSome :: "'v dict \<Rightarrow> int \<Rightarrow> ('v dict \<times> bool) go" where
  "rehashSome d buckets = rehashBuckets d buckets"

text \<open>\<open>forEach\<close>: the entries in the order the callback sees them when it never stops the walk.\<close>

definition t_entries :: "'v tbl \<Rightarrow> 'v entry list" where
  "t_entries t = filter (\<lambda>e. en_next e \<noteq> noHead) (t_heads t) @ t_over t"

definition d_forEach :: "'v dict \<Rightarrow> (bytes \<times> 'v option) list" where
  "d_forEach d =
     map (\<lambda>e. (en_key e, en_val e))
       (t_entries (d_tab0 d) @ (if rehashing d then t_entries (d_tab1 d) else []))"

end
