(* ===== verification/Dict_Table.thy ===== *)
theory Dict_Table
  imports Dict
begin

unbundle bit_operations_syntax

text \<open>
  One table of the dict, abstracted to its buckets. \<open>tab_inv {} t B C\<close> says that table
  \<open>t\<close> holds, bucket by bucket and in chain order, the entries \<open>B\<close>; the overflow
  arena with its links and its compaction disappears. Every operation on the arrays is then
  an operation on one bucket list, and never panics or walks forever.
\<close>

type_synonym 'v kv = "32 word \<times> bytes \<times> 'v option"

definition en_kv :: "'v entry \<Rightarrow> 'v kv" where
  "en_kv e = (en_hash e, en_key e, en_val e)"

lemma en_kv_upd [simp]:
  "en_kv (e\<lparr>en_next := n\<rparr>) = en_kv e"
  "en_kv (e\<lparr>en_val := v\<rparr>) = (en_hash e, en_key e, v)"
  "en_kv \<lparr>en_hash = h, en_next = n, en_key = k, en_val = v\<rparr> = (h, k, v)"
  by (simp_all add: en_kv_def)

subsection \<open>Paths in the arena\<close>

fun path :: "'v entry list \<Rightarrow> int \<Rightarrow> nat list \<Rightarrow> int \<Rightarrow> bool" where
  "path ov e [] e' \<longleftrightarrow> e = e'"
| "path ov e (i # is) e' \<longleftrightarrow> e = int i \<and> i < length ov \<and> path ov (en_next (ov ! i)) is e'"

lemma path_append: "path ov e (xs @ ys) e' \<longleftrightarrow> (\<exists>m. path ov e xs m \<and> path ov m ys e')"
  by (induction xs arbitrary: e) auto

lemma path_snoc: "path ov e (xs @ [p]) e' \<longleftrightarrow> path ov e xs (int p) \<and> p < length ov \<and> en_next (ov ! p) = e'"
  by (auto simp: path_append)

lemma path_cong:
  "path ov e is e' \<Longrightarrow> (\<And>j. j \<in> set is \<Longrightarrow> j < length ov' \<and> en_next (ov' ! j) = en_next (ov ! j)) \<Longrightarrow>
   path ov' e is e'"
  by (induction "is" arbitrary: e) auto

lemma path_bound: "path ov e is e' \<Longrightarrow> j \<in> set is \<Longrightarrow> j < length ov"
  by (induction "is" arbitrary: e) auto

lemma distinct_bounded_length: "distinct is \<Longrightarrow> (\<And>j. j \<in> set is \<Longrightarrow> j < n) \<Longrightarrow> length is \<le> n"
proof -
  assume "distinct is" and b: "\<And>j. j \<in> set is \<Longrightarrow> j < n"
  then have "length is = card (set is)" by (simp add: distinct_card)
  also have "\<dots> \<le> card {..<n}" using b by (intro card_mono) auto
  finally show ?thesis by simp
qed

lemma go_nth_Some [simp]: "i < length xs \<Longrightarrow> go_nth xs (int i) = Some (xs ! i)"
  by (simp add: go_nth_def)

lemma over_find_none:
  assumes "path ov e is noEntry" "length is < fuel" "\<And>j. j \<in> set is \<Longrightarrow> \<not> en_match hash key (ov ! j)"
  shows "over_find fuel ov hash key prev e = Some None"
  using assms
proof (induction "is" arbitrary: e prev fuel)
  case Nil
  then show ?case by (cases fuel) auto
next
  case (Cons i js)
  then show ?case by (cases fuel) auto
qed

lemma over_find_hit:
  assumes "path ov e (xs @ j # ys) noEntry" "length xs < fuel" "en_match hash key (ov ! j)"
    and "\<And>i. i \<in> set xs \<Longrightarrow> \<not> en_match hash key (ov ! i)"
  shows "over_find fuel ov hash key prev e =
    Some (Some (if xs = [] then prev else int (last xs), int j))"
  using assms
proof (induction xs arbitrary: e prev fuel)
  case Nil
  then show ?case by (cases fuel) auto
next
  case (Cons x xs)
  obtain f where f: "fuel = Suc f" using Cons.prems(2) by (cases fuel) auto
  have e: "e = int x" "x < length ov" "path ov (en_next (ov ! x)) (xs @ j # ys) noEntry"
    using Cons.prems(1) by auto
  have "over_find f ov hash key (int x) (en_next (ov ! x)) =
      Some (Some (if xs = [] then int x else int (last xs), int j))"
    using Cons.prems f by (intro Cons.IH[OF e(3)]) auto
  then show ?case using e f Cons.prems(4)[of x] by auto
qed

lemma repoint_path:
  assumes "path ov e (xs @ [p]) (int l)" "l \<notin> set (xs @ [p])" "length xs < fuel"
  shows "repoint fuel ov (int l) i e = Some (ov[p := (ov ! p)\<lparr>en_next := i\<rparr>])"
  using assms
proof (induction xs arbitrary: e fuel)
  case Nil
  then obtain f where "fuel = Suc f" by (cases fuel) auto
  then show ?case using Nil by auto
next
  case (Cons x xs)
  obtain f where f: "fuel = Suc f" using Cons.prems(3) by (cases fuel) auto
  have e: "e = int x" "x < length ov" "path ov (en_next (ov ! x)) (xs @ [p]) (int l)"
    using Cons.prems(1) by auto
  have "en_next (ov ! x) \<noteq> int l"
    using e(3) Cons.prems(2) by (cases xs) auto
  then show ?case using e f Cons by simp
qed

subsection \<open>The representation\<close>

definition bucket_kvs :: "'v tbl \<Rightarrow> nat \<Rightarrow> nat list \<Rightarrow> 'v kv list" where
  "bucket_kvs t b is =
     (if en_next (t_heads t ! b) = noHead then []
      else en_kv (t_heads t ! b) # map (\<lambda>j. en_kv (t_over t ! j)) is)"

definition bucket_chain :: "'v tbl \<Rightarrow> nat \<Rightarrow> nat list \<Rightarrow> bool" where
  "bucket_chain t b is \<longleftrightarrow>
     (if en_next (t_heads t ! b) = noHead then is = []
      else path (t_over t) (en_next (t_heads t ! b)) is noEntry)"

text \<open>
  The arrays of \<open>t\<close> hold the buckets \<open>B\<close>, where bucket \<open>b\<close> is the head
  and the chain \<open>C b\<close>. Every arena slot outside \<open>X\<close> is in exactly one chain.
\<close>

definition tab_inv ::
  "nat set \<Rightarrow> 'v tbl \<Rightarrow> (nat \<Rightarrow> 'v kv list) \<Rightarrow> (nat \<Rightarrow> nat list) \<Rightarrow> bool" where
  "tab_inv X t B C \<longleftrightarrow>
     (\<forall>b < t_size t. bucket_chain t b (C b) \<and> B b = bucket_kvs t b (C b) \<and>
        (\<forall>kv \<in> set (B b). bucketOf t (fst kv) = b) \<and> distinct (C b)) \<and>
     (\<forall>b < t_size t. \<forall>c < t_size t. b \<noteq> c \<longrightarrow> set (C b) \<inter> set (C c) = {}) \<and>
     (\<Union>b < t_size t. set (C b)) = {..<length (t_over t)} - X"

definition tbl_pow :: "'v tbl \<Rightarrow> nat \<Rightarrow> bool" where
  "tbl_pow t k \<longleftrightarrow> t_size t = 2 ^ k \<and> t_mask t = mask k"

lemma bucketOf_lt: "tbl_pow t k \<Longrightarrow> bucketOf t h < t_size t"
proof -
  assume "tbl_pow t k"
  then have "bucketOf t h = unat (take_bit k h)" "t_size t = 2 ^ k"
    by (simp_all add: tbl_pow_def bucketOf_def take_bit_eq_mask)
  then show ?thesis by (simp add: unsigned_take_bit_eq)
qed

lemma tab_invD:
  assumes "tab_inv X t B C" "b < t_size t"
  shows "bucket_chain t b (C b)" "B b = bucket_kvs t b (C b)"
    "kv \<in> set (B b) \<Longrightarrow> bucketOf t (fst kv) = b"
    "distinct (C b)" "j \<in> set (C b) \<Longrightarrow> j < length (t_over t)" "set (C b) \<inter> X = {}"
    "c < t_size t \<Longrightarrow> b \<noteq> c \<Longrightarrow> set (C b) \<inter> set (C c) = {}"
proof -
  have "set (C b) \<subseteq> {..<length (t_over t)} - X" using assms unfolding tab_inv_def by blast
  then show "j \<in> set (C b) \<Longrightarrow> j < length (t_over t)" "set (C b) \<inter> X = {}" by auto
qed (use assms in \<open>auto simp: tab_inv_def\<close>)

text \<open>Rebuilding the invariant after a change to bucket \<open>b\<close> and to arena slots.\<close>

lemma tab_inv_update:
  assumes inv: "tab_inv X t B C" and b: "b < t_size t"
    and same: "t_size t' = t_size t" "t_mask t' = t_mask t"
    and heads: "\<And>c. c < t_size t \<Longrightarrow> c \<noteq> b \<Longrightarrow> t_heads t' ! c = t_heads t ! c"
    and others: "\<And>c j. c < t_size t \<Longrightarrow> c \<noteq> b \<Longrightarrow> j \<in> set (C c) \<Longrightarrow>
      j < length (t_over t') \<and> en_next (t_over t' ! j) = en_next (t_over t ! j) \<and>
      en_kv (t_over t' ! j) = en_kv (t_over t ! j)"
    and here: "bucket_chain t' b is" "distinct is"
      "\<And>kv. kv \<in> set (bucket_kvs t' b is) \<Longrightarrow> bucketOf t (fst kv) = b"
    and disj: "\<And>c. c < t_size t \<Longrightarrow> c \<noteq> b \<Longrightarrow> set is \<inter> set (C c) = {}"
    and cover: "(\<Union>c < t_size t. set ((C(b := is)) c)) = {..<length (t_over t')} - X'"
  shows "tab_inv X' t' (B(b := bucket_kvs t' b is)) (C(b := is))"
proof -
  have bo: "bucketOf t' = bucketOf t" using same by (simp add: bucketOf_def fun_eq_iff)
  have one: "bucket_chain t' c (C c) \<and> bucket_kvs t' c (C c) = B c" if c: "c < t_size t" "c \<noteq> b" for c
  proof -
    have ch: "bucket_chain t c (C c)" and kv: "B c = bucket_kvs t c (C c)"
      using tab_invD[OF inv c(1)] by auto
    have "path (t_over t') e (C c) noEntry" if "path (t_over t) e (C c) noEntry" for e
      by (rule path_cong[OF that]) (use others[OF c] in auto)
    then have "bucket_chain t' c (C c)" using ch heads[OF c] by (auto simp: bucket_chain_def)
    moreover have "bucket_kvs t' c (C c) = bucket_kvs t c (C c)"
      using heads[OF c] others[OF c] by (simp add: bucket_kvs_def)
    ultimately show ?thesis using kv by simp
  qed
  have A: "bucket_chain t' c ((C(b := is)) c) \<and>
      (B(b := bucket_kvs t' b is)) c = bucket_kvs t' c ((C(b := is)) c) \<and>
      (\<forall>kv \<in> set ((B(b := bucket_kvs t' b is)) c). bucketOf t' (fst kv) = c) \<and>
      distinct ((C(b := is)) c)" if c: "c < t_size t'" for c
  proof (cases "c = b")
    case True
    then show ?thesis using here bo by simp
  next
    case False
    then show ?thesis
      using one[of c] tab_invD[OF inv, of c] c same bo by simp
  qed
  moreover have "set ((C(b := is)) c) \<inter> set ((C(b := is)) d) = {}"
    if "c < t_size t'" "d < t_size t'" "c \<noteq> d" for c d
    using that disj tab_invD(7)[OF inv, of c d] same by (cases "c = b"; cases "d = b") auto
  ultimately show ?thesis using cover same unfolding tab_inv_def by auto
qed

subsection \<open>Looking into one bucket\<close>

definition kv_match :: "32 word \<Rightarrow> bytes \<Rightarrow> 'v kv \<Rightarrow> bool" where
  "kv_match h k kv \<longleftrightarrow> fst kv = h \<and> fst (snd kv) = k"

lemma kv_match_iff [simp]: "kv_match h k (h', k', v) \<longleftrightarrow> h' = h \<and> k' = k"
  by (simp add: kv_match_def)

fun kv_find :: "32 word \<Rightarrow> bytes \<Rightarrow> 'v kv list \<Rightarrow> 'v option" where
  "kv_find h k [] = None"
| "kv_find h k (kv # kvs) = (if kv_match h k kv then snd (snd kv) else kv_find h k kvs)"

fun kv_put :: "32 word \<Rightarrow> bytes \<Rightarrow> 'v \<Rightarrow> 'v kv list \<Rightarrow> 'v kv list" where
  "kv_put h k v [] = []"
| "kv_put h k v (kv # kvs) = (if kv_match h k kv then (h, k, Some v) # kvs else kv # kv_put h k v kvs)"

fun kv_del :: "32 word \<Rightarrow> bytes \<Rightarrow> 'v kv list \<Rightarrow> 'v kv list" where
  "kv_del h k [] = []"
| "kv_del h k (kv # kvs) = (if kv_match h k kv then kvs else kv # kv_del h k kvs)"

definition kv_has :: "32 word \<Rightarrow> bytes \<Rightarrow> 'v kv list \<Rightarrow> bool" where
  "kv_has h k kvs \<longleftrightarrow> (\<exists>kv \<in> set kvs. kv_match h k kv)"

lemma kv_has_simps [simp]: "\<not> kv_has h k []" "kv_has h k (kv # kvs) \<longleftrightarrow> kv_match h k kv \<or> kv_has h k kvs"
  by (simp_all add: kv_has_def)

lemma kv_skip:
  assumes "\<forall>kv \<in> set xs. \<not> kv_match h k kv"
  shows "kv_find h k (xs @ ys) = kv_find h k ys" "kv_put h k v (xs @ ys) = xs @ kv_put h k v ys"
    "kv_del h k (xs @ ys) = xs @ kv_del h k ys" "kv_has h k (xs @ ys) = kv_has h k ys"
proof -
  show "kv_find h k (xs @ ys) = kv_find h k ys" using assms by (induction xs) auto
  show "kv_put h k v (xs @ ys) = xs @ kv_put h k v ys" using assms by (induction xs) auto
  show "kv_del h k (xs @ ys) = xs @ kv_del h k ys" using assms by (induction xs) auto
  show "kv_has h k (xs @ ys) = kv_has h k ys" using assms by (auto simp: kv_has_def)
qed

lemma kv_hit:
  assumes "kv_match h k kv"
  shows "kv_find h k (kv # kvs) = snd (snd kv)" "kv_put h k v (kv # kvs) = (h, k, Some v) # kvs"
    "kv_del h k (kv # kvs) = kvs" "kv_has h k (kv # kvs)"
  using assms by (simp_all add: kv_has_def)

lemma kv_split:
  assumes "kvs = xs @ kv # ys" "\<forall>kv \<in> set xs. \<not> kv_match h k kv" "kv_match h k kv"
  shows "kv_find h k kvs = snd (snd kv)" "kv_put h k v kvs = xs @ (h, k, Some v) # ys"
    "kv_del h k kvs = xs @ ys" "kv_has h k kvs"
  using kv_skip[where xs = xs and ys = "kv # ys" and h = h and k = k] assms kv_hit[OF assms(3)]
  by simp_all

lemma kv_absent:
  assumes "\<forall>kv \<in> set kvs. \<not> kv_match h k kv"
  shows "kv_find h k kvs = None" "kv_put h k v kvs = kvs" "kv_del h k kvs = kvs" "\<not> kv_has h k kvs"
  using kv_skip[where xs = kvs and ys = "[]" and h = h and k = k] assms by (simp_all add: kv_has_def)

lemma en_match_kv: "en_match h k e \<longleftrightarrow> kv_match h k (en_kv e)"
  by (simp add: en_match_def en_kv_def)

lemma chain_length_fuel:
  "tab_inv X t B C \<Longrightarrow> b < t_size t \<Longrightarrow> length (C b) \<le> length (t_over t)"
  using tab_invD(4,5)[of X t B C b] by (intro distinct_bounded_length) auto

abbreviation over_kvs :: "'v tbl \<Rightarrow> nat list \<Rightarrow> 'v kv list" where
  "over_kvs t is \<equiv> map (\<lambda>j. en_kv (t_over t ! j)) is"

text \<open>The four ways a search of a bucket ends, with what the bucket list looks like in each.\<close>

lemma bucket_cases:
  assumes inv: "tab_inv X t B C" and b: "b < t_size t"
  obtains (empty) "en_next (t_heads t ! b) = noHead" "B b = []" "C b = []"
    | (head) "en_next (t_heads t ! b) \<noteq> noHead" "en_match h k (t_heads t ! b)"
      "B b = en_kv (t_heads t ! b) # over_kvs t (C b)" "kv_match h k (en_kv (t_heads t ! b))"
    | (none) "en_next (t_heads t ! b) \<noteq> noHead" "\<not> en_match h k (t_heads t ! b)"
      "chain_find t h k (en_next (t_heads t ! b)) = Some None"
      "\<forall>kv \<in> set (B b). \<not> kv_match h k kv"
    | (hit) xs j ys where "en_next (t_heads t ! b) \<noteq> noHead" "\<not> en_match h k (t_heads t ! b)"
      "chain_find t h k (en_next (t_heads t ! b)) =
         Some (Some (if xs = [] then noHead else int (last xs), int j))"
      "C b = xs @ j # ys" "j < length (t_over t)" "kv_match h k (en_kv (t_over t ! j))"
      "B b = (en_kv (t_heads t ! b) # over_kvs t xs) @ en_kv (t_over t ! j) # over_kvs t ys"
      "\<forall>kv \<in> set (en_kv (t_heads t ! b) # over_kvs t xs). \<not> kv_match h k kv"
proof -
  let ?e = "en_next (t_heads t ! b)"
  have B: "B b = bucket_kvs t b (C b)" and ch: "bucket_chain t b (C b)"
    using tab_invD(1,2)[OF inv b] by auto
  show thesis
  proof (cases "?e = noHead \<or> en_match h k (t_heads t ! b)")
    case True
    then show thesis using empty head B ch
      by (auto simp: bucket_kvs_def bucket_chain_def en_match_kv split: if_splits)
  next
    case False
    then have ne: "?e \<noteq> noHead" and nm: "\<not> en_match h k (t_heads t ! b)" by auto
    have p: "path (t_over t) ?e (C b) noEntry" using ch ne by (simp add: bucket_chain_def)
    have len: "length (C b) < Suc (length (t_over t))" using chain_length_fuel[OF inv b] by simp
    have B': "B b = en_kv (t_heads t ! b) # over_kvs t (C b)" using B ne by (simp add: bucket_kvs_def)
    show thesis
    proof (cases "\<exists>j \<in> set (C b). en_match h k (t_over t ! j)")
      case False
      then have "chain_find t h k ?e = Some None"
        using over_find_none[OF p len] by (auto simp: chain_find_def)
      moreover have "\<forall>kv \<in> set (B b). \<not> kv_match h k kv"
        using False nm unfolding B' en_match_kv by auto
      ultimately show thesis using none ne nm by blast
    next
      case True
      then obtain xs j ys where d: "C b = xs @ j # ys" "en_match h k (t_over t ! j)"
        "\<forall>i \<in> set xs. \<not> en_match h k (t_over t ! i)"
        using split_list_first_prop[of "C b" "\<lambda>j. en_match h k (t_over t ! j)"] by blast
      then have "over_find (Suc (length (t_over t))) (t_over t) h k noHead ?e =
          Some (Some (if xs = [] then noHead else int (last xs), int j))"
        using p len by (intro over_find_hit[where ys = ys]) auto
      then have cf: "chain_find t h k ?e = Some (Some (if xs = [] then noHead else int (last xs), int j))"
        by (simp only: chain_find_def)
      have pre: "\<forall>kv \<in> set (en_kv (t_heads t ! b) # over_kvs t xs). \<not> kv_match h k kv"
        using d(3) nm unfolding en_match_kv by auto
      show thesis
        using d tab_invD(5)[OF inv b, of j] B' by (intro hit[OF ne nm cf d(1) _ _ _ pre]) (auto simp: en_match_kv)
    qed
  qed
qed

lemma go_head: "b < t_size t \<Longrightarrow> go_nth (t_heads t) (int b) = Some (t_heads t ! b)"
  by (simp add: t_size_def)

lemma t_lookup_bucket:
  assumes "tab_inv X t B C" "tbl_pow t n" "b = bucketOf t h"
  shows "t_lookup t k h = Some (kv_find h k (B b))"
proof -
  have b: "b < t_size t" using bucketOf_lt[OF assms(2)] assms(3) by simp
  note g = go_head[OF b] assms(3)[symmetric]
  show ?thesis
  proof (cases rule: bucket_cases[OF assms(1) b, where h = h and k = k, case_names empty head none hit])
    case empty
    then show ?thesis using g by (simp add: t_lookup_def)
  next
    case head
    then show ?thesis using g by (simp add: t_lookup_def en_kv_def)
  next
    case none
    then show ?thesis using g kv_absent(1)[of "B b" h k] by (simp add: t_lookup_def)
  next
    case (hit xs j ys)
    have "kv_find h k (B b) = en_val (t_over t ! j)"
      using kv_split(1)[OF hit(7,8,6)] by (simp add: en_kv_def)
    then show ?thesis using g hit by (simp add: t_lookup_def)
  qed
qed

subsection \<open>Replace and insert\<close>

text \<open>What every operation on one bucket keeps of a table.\<close>

definition same_shape :: "'v tbl \<Rightarrow> 'v tbl \<Rightarrow> bool" where
  "same_shape t t' \<longleftrightarrow> t_size t' = t_size t \<and> t_mask t' = t_mask t"

lemma same_shape_simps:
  "same_shape t t"
  "same_shape t (t\<lparr>t_heads := (t_heads t)[b := e]\<rparr>)"
  "same_shape t (t\<lparr>t_over := ov\<rparr>)"
  "same_shape t t' \<Longrightarrow> same_shape t (t'\<lparr>t_live := l\<rparr>)"
  by (simp_all add: same_shape_def t_size_def)

lemma same_shape_trans: "same_shape t t' \<Longrightarrow> same_shape t' t'' \<Longrightarrow> same_shape t t''"
  by (simp add: same_shape_def)

lemma same_shape_pow: "same_shape t t' \<Longrightarrow> tbl_pow t n \<Longrightarrow> tbl_pow t' n"
  by (simp add: same_shape_def tbl_pow_def)

lemma same_shape_bucketOf: "same_shape t t' \<Longrightarrow> bucketOf t' h = bucketOf t h"
  by (simp add: same_shape_def bucketOf_def)

lemma tab_inv_live [simp]: "tab_inv X (t\<lparr>t_live := l\<rparr>) B C \<longleftrightarrow> tab_inv X t B C"
  by (simp add: tab_inv_def t_size_def bucket_chain_def bucket_kvs_def bucketOf_def)

lemma tab_inv_cover:
  "tab_inv X t B C \<Longrightarrow> (\<Union>c < t_size t. set (C c)) = {..<length (t_over t)} - X"
  by (simp add: tab_inv_def)

lemma tab_inv_cover_upd:
  assumes inv: "tab_inv X t B C" and b: "b < t_size t"
  shows "(\<Union>c < t_size t. set ((C(b := is)) c)) = set is \<union> ({..<length (t_over t)} - X - set (C b))"
proof -
  have "(\<Union>c < t_size t. set ((C(b := is)) c)) = set is \<union> ((\<Union>c < t_size t. set (C c)) - set (C b))"
    (is "?L = ?R")
  proof
    show "?L \<subseteq> ?R" using tab_invD(7)[OF inv b] by (fastforce split: if_splits)
    show "?R \<subseteq> ?L"
    proof
      fix x assume "x \<in> ?R"
      then consider "x \<in> set is" | c where "c < t_size t" "x \<in> set (C c)" "c \<noteq> b" by blast
      then show "x \<in> ?L" using b by cases auto
    qed
  qed
  then show ?thesis using tab_inv_cover[OF inv] by simp
qed

lemma t_replace_bucket:
  assumes inv: "tab_inv {} t B C" and pow: "tbl_pow t n" and b_def: "b = bucketOf t h"
  obtains t' where "t_replace t k h v = Some (t', kv_has h k (B b))" "same_shape t t'" "t_live t' = t_live t"
    "tab_inv {} t' (B(b := kv_put h k v (B b))) C"
proof -
  have b: "b < t_size t" using bucketOf_lt[OF pow] b_def by simp
  then have bl: "b < length (t_heads t)" and nz: "t_heads t \<noteq> []" by (auto simp: t_size_def)
  note g = go_head[OF b] b_def[symmetric]
  have hash: "bucketOf t h = b" using b_def by simp
  show thesis
  proof (cases rule: bucket_cases[OF inv b, where h = h and k = k, case_names empty head none hit])
    case empty
    show thesis
      by (rule that[of t]) (use empty g nz inv in \<open>simp_all add: t_replace_def kv_has_def same_shape_simps fun_upd_idem\<close>)
  next
    case head
    let ?t' = "t\<lparr>t_heads := (t_heads t)[b := (t_heads t ! b)\<lparr>en_val := Some v\<rparr>]\<rparr>"
    have kvs: "bucket_kvs ?t' b (C b) = kv_put h k v (B b)"
      using head bl kv_hit(2)[OF head(4)] by (simp add: bucket_kvs_def en_match_def)
    have "tab_inv {} ?t' (B(b := bucket_kvs ?t' b (C b))) (C(b := C b))"
    proof (rule tab_inv_update[OF inv b])
      show "bucket_chain ?t' b (C b)" using tab_invD(1)[OF inv b] bl by (simp add: bucket_chain_def)
      show "bucketOf t (fst kv) = b" if "kv \<in> set (bucket_kvs ?t' b (C b))" for kv
        using that kvs kv_hit(2)[OF head(4)] head(3) tab_invD(3)[OF inv b, of kv] hash by auto
    qed (use tab_invD[OF inv] tab_inv_cover[OF inv] b in \<open>auto simp: t_size_def\<close>)
    moreover have "kv_has h k (B b)" using kv_hit(4)[OF head(4)] head(3) by simp
    ultimately show thesis
      using head g nz kvs by (intro that[of ?t']) (simp_all add: t_replace_def same_shape_simps Let_def)
  next
    case none
    then show thesis using g nz inv kv_absent[of "B b" h k]
      by (intro that[of t]) (simp_all add: t_replace_def same_shape_simps Let_def)
  next
    case (hit xs j ys)
    let ?t' = "t\<lparr>t_over := (t_over t)[j := (t_over t ! j)\<lparr>en_val := Some v\<rparr>]\<rparr>"
    have dist: "j \<notin> set xs" "j \<notin> set ys" using tab_invD(4)[OF inv b] hit(4) by auto
    have hk: "en_hash (t_over t ! j) = h" "en_key (t_over t ! j) = k"
      using hit(6) by (simp_all add: en_kv_def)
    have kvs: "bucket_kvs ?t' b (C b) = kv_put h k v (B b)"
      unfolding kv_split(2)[OF hit(7,8,6)]
      using hit(1,4,5) dist hk by (auto simp: bucket_kvs_def nth_list_update split: if_splits)
    have nxt: "en_next (t_over ?t' ! i) = en_next (t_over t ! i)" for i
      using hit(5) by (simp add: nth_list_update)
    have p: "path (t_over ?t') e (C b) noEntry" if "path (t_over t) e (C b) noEntry" for e
      by (rule path_cong[OF that]) (use nxt tab_invD(5)[OF inv b] in auto)
    have "tab_inv {} ?t' (B(b := bucket_kvs ?t' b (C b))) (C(b := C b))"
    proof (rule tab_inv_update[OF inv b])
      show "bucket_chain ?t' b (C b)" using tab_invD(1)[OF inv b] p by (auto simp: bucket_chain_def)
      show "bucketOf t (fst kv) = b" if "kv \<in> set (bucket_kvs ?t' b (C b))" for kv
      proof -
        have "kv = (h, k, Some v) \<or> kv \<in> set (B b)"
          using that unfolding kvs kv_split(2)[OF hit(7,8,6)] unfolding hit(7) by auto
        then show ?thesis using tab_invD(3)[OF inv b, of kv] hash by auto
      qed
      show "i < length (t_over ?t') \<and> en_next (t_over ?t' ! i) = en_next (t_over t ! i) \<and>
          en_kv (t_over ?t' ! i) = en_kv (t_over t ! i)" if c: "c < t_size t" "c \<noteq> b" "i \<in> set (C c)" for c i
      proof -
        have "i \<noteq> j" using tab_invD(7)[OF inv b c(1)] c hit(4) by auto
        then show ?thesis using tab_invD(5)[OF inv c(1,3)] by simp
      qed
    qed (use tab_invD[OF inv] tab_inv_cover[OF inv] b in \<open>auto simp: t_size_def\<close>)
    then show thesis
      using hit(1,2,3,5) g nz kvs kv_split(4)[OF hit(7,8,6)]
      by (intro that[of ?t']) (simp_all add: t_replace_def same_shape_simps Let_def)
  qed
qed

definition kv_add :: "'v kv \<Rightarrow> 'v kv list \<Rightarrow> 'v kv list" where
  "kv_add kv kvs = (case kvs of [] \<Rightarrow> [kv] | x # xs \<Rightarrow> x # kv # xs)"

lemma t_insert_bucket:
  assumes inv: "tab_inv {} t B C" and pow: "tbl_pow t n" and b_def: "b = bucketOf t h"
  obtains t' C' where "t_insert t k h v = Some t'" "same_shape t t'" "t_live t' = t_live t + 1"
    "tab_inv {} t' (B(b := kv_add (h, k, v) (B b))) C'"
proof -
  have b: "b < t_size t" using bucketOf_lt[OF pow] b_def by simp
  then have bl: "b < length (t_heads t)" by (simp add: t_size_def)
  note g = go_head[OF b] b_def[symmetric]
  let ?n = "length (t_over t)"
  show thesis
  proof (cases "en_next (t_heads t ! b) = noHead")
    case True
    then have e: "B b = []" "C b = []"
      using tab_invD(1,2)[OF inv b] by (auto simp: bucket_kvs_def bucket_chain_def)
    let ?t' = "t\<lparr>t_heads := (t_heads t)[b := \<lparr>en_hash = h, en_next = noEntry, en_key = k, en_val = v\<rparr>]\<rparr>"
    have kvs: "bucket_kvs ?t' b [] = kv_add (h, k, v) (B b)" using bl e by (simp add: bucket_kvs_def kv_add_def)
    have "tab_inv {} ?t' (B(b := bucket_kvs ?t' b [])) (C(b := []))"
    proof (rule tab_inv_update[OF inv b])
      show "bucketOf t (fst kv) = b" if "kv \<in> set (bucket_kvs ?t' b [])" for kv
        using that kvs b_def e by (simp add: kv_add_def)
    qed (use tab_invD[OF inv] tab_inv_cover[OF inv] b bl e fun_upd_triv[of C b]
         in \<open>auto simp: t_size_def bucket_chain_def\<close>)
    then show thesis using True g kvs
      by (intro that[of "?t'\<lparr>t_live := t_live t + 1\<rparr>"]) (simp_all add: t_insert_def same_shape_simps Let_def)
  next
    case False
    let ?new = "\<lparr>en_hash = h, en_next = en_next (t_heads t ! b), en_key = k, en_val = v\<rparr>"
    let ?t' = "t\<lparr>t_over := t_over t @ [?new],
                 t_heads := (t_heads t)[b := (t_heads t ! b)\<lparr>en_next := int ?n\<rparr>]\<rparr>"
    have old: "j < ?n" if "j \<in> set (C b)" for j using tab_invD(5)[OF inv b that] .
    have B: "B b = en_kv (t_heads t ! b) # over_kvs t (C b)" and
      p: "path (t_over t) (en_next (t_heads t ! b)) (C b) noEntry"
      using tab_invD(1,2)[OF inv b] False by (auto simp: bucket_kvs_def bucket_chain_def)
    have kvs: "bucket_kvs ?t' b (?n # C b) = kv_add (h, k, v) (B b)"
      using bl B old by (simp add: bucket_kvs_def kv_add_def nth_append)
    have p': "path (t_over ?t') (en_next (t_heads t ! b)) (C b) noEntry"
      by (rule path_cong[OF p]) (use old in \<open>auto simp: nth_append less_Suc_eq\<close>)
    have "tab_inv {} ?t' (B(b := bucket_kvs ?t' b (?n # C b))) (C(b := ?n # C b))"
    proof (rule tab_inv_update[OF inv b])
      show "bucket_chain ?t' b (?n # C b)" using p' bl by (simp add: bucket_chain_def)
      show "bucketOf t (fst kv) = b" if "kv \<in> set (bucket_kvs ?t' b (?n # C b))" for kv
        using that kvs b_def B tab_invD(3)[OF inv b, of kv] by (auto simp: kv_add_def)
      show "distinct (?n # C b)" using tab_invD(4)[OF inv b] old by auto
      show "set (?n # C b) \<inter> set (C c) = {}" if c: "c < t_size t" "c \<noteq> b" for c
        using tab_invD(5)[OF inv c(1), of ?n] tab_invD(7)[OF inv b c(1)] c by auto
      show "(\<Union>c < t_size t. set ((C(b := ?n # C b)) c)) = {..<length (t_over ?t')} - {}"
        unfolding tab_inv_cover_upd[OF inv b] using old by (auto simp: less_Suc_eq)
    qed (use tab_invD[OF inv] bl in \<open>auto simp: t_size_def nth_append less_Suc_eq\<close>)
    then show thesis using False g kvs
      by (intro that[of "?t'\<lparr>t_live := t_live t + 1\<rparr>"])
        (simp_all add: t_insert_def same_shape_simps Let_def same_shape_def t_size_def)
  qed
qed

subsection \<open>Removing: compaction of the arena\<close>

text \<open>
  Arena slot \<open>i\<close> is in no chain. \<open>dropOverflow\<close> moves the last entry into
  it and repoints the one link that named the last slot, so that the arena is dense again;
  no bucket changes.
\<close>

lemma tab_inv_last_chain:
  assumes inv: "tab_inv {i} t B C" and i: "i < length (t_over t)" "i \<noteq> length (t_over t) - 1"
  obtains c xs ys where "c < t_size t" "C c = xs @ (length (t_over t) - 1) # ys"
    "en_next (t_heads t ! c) \<noteq> noHead"
    "path (t_over t) (en_next (t_heads t ! c)) (C c) noEntry"
    "bucketOf t (en_hash (t_over t ! (length (t_over t) - 1))) = c" "i \<notin> set (C c)"
proof -
  let ?l = "length (t_over t) - 1"
  have "?l \<in> (\<Union>c < t_size t. set (C c))" using tab_inv_cover[OF inv] i by auto
  then obtain c where c: "c < t_size t" "?l \<in> set (C c)" by auto
  then obtain xs ys where sp: "C c = xs @ ?l # ys" by (meson split_list)
  have ne: "en_next (t_heads t ! c) \<noteq> noHead" and pa: "path (t_over t) (en_next (t_heads t ! c)) (C c) noEntry"
    using tab_invD(1)[OF inv c(1)] c(2) by (auto simp: bucket_chain_def split: if_splits)
  have "en_kv (t_over t ! ?l) \<in> set (B c)"
    using tab_invD(2)[OF inv c(1)] ne c(2) by (auto simp: bucket_kvs_def)
  then have "bucketOf t (en_hash (t_over t ! ?l)) = c"
    using tab_invD(3)[OF inv c(1)] by (force simp: en_kv_def)
  then show thesis using that[OF c(1) sp ne pa] tab_invD(6)[OF inv c(1)] by auto
qed

lemma dropOverflow_result:
  assumes inv: "tab_inv {i} t B C" and i: "i < length (t_over t)" and c: "c < t_size t"
    and sp: "C c = xs @ l # ys" and l: "l = length (t_over t) - 1" and il: "i \<noteq> l"
    and ne: "en_next (t_heads t ! c) \<noteq> noHead" and pa: "path (t_over t) (en_next (t_heads t ! c)) (C c) noEntry"
    and bo: "bucketOf t (en_hash (t_over t ! l)) = c" and ic: "i \<notin> set (C c)"
  shows "dropOverflow t (int i) = Some
    (if xs = [] then t\<lparr>t_over := butlast ((t_over t)[i := t_over t ! l]),
                       t_heads := (t_heads t)[c := (t_heads t ! c)\<lparr>en_next := int i\<rparr>]\<rparr>
     else t\<lparr>t_over := butlast ((t_over t)[i := t_over t ! l, last xs := (t_over t ! last xs)\<lparr>en_next := int i\<rparr>])\<rparr>)"
proof -
  let ?ov = "t_over t" and ?h = "t_heads t ! c"
  have ln: "int (length ?ov) - 1 = int l" "l < length ?ov" using l i by auto
  have dist: "distinct (C c)" using tab_invD(4)[OF inv c] .
  have gh: "go_nth (t_heads t) (int c) = Some ?h" using go_head[OF c] .
  show ?thesis
  proof (cases "xs = []")
    case True
    then have "en_next ?h = int l" using pa sp by simp
    then show ?thesis using ln gh bo i il True by (simp add: dropOverflow_def Let_def)
  next
    case False
    then obtain zs p where xs: "xs = zs @ [p]" by (meson rev_exhaust)
    have "path ?ov (en_next ?h) (zs @ [p]) (int l)"
      using pa sp xs by (auto simp: path_append)
    then have pp: "path (?ov[i := ?ov ! l]) (en_next ?h) (zs @ [p]) (int l)"
    proof (rule path_cong)
      fix j assume "j \<in> set (zs @ [p])"
      then have "j \<in> set (C c)" using sp xs by auto
      then show "j < length (?ov[i := ?ov ! l]) \<and> en_next (?ov[i := ?ov ! l] ! j) = en_next (?ov ! j)"
        using ic path_bound[OF pa] by (cases "j = i") auto
    qed
    have ln': "l \<notin> set (zs @ [p])" and pl: "p \<noteq> i" using dist sp xs ic by auto
    have "en_next ?h \<noteq> int l" using pp ln' by (cases zs) auto
    moreover have "length zs \<le> length ?ov"
      using chain_length_fuel[OF inv c] sp xs by simp
    then have "repoint (Suc (length ?ov)) (?ov[i := ?ov ! l]) (int l) (int i) (en_next ?h) =
        Some (?ov[i := ?ov ! l, p := (?ov ! p)\<lparr>en_next := int i\<rparr>])"
      using repoint_path[OF pp ln'] pl by (simp del: repoint.simps)
    ultimately show ?thesis
      using ln gh bo i il False xs by (simp add: dropOverflow_def Let_def del: repoint.simps)
  qed
qed

lemma dropOverflow_inv:
  assumes inv: "tab_inv {i} t B C" and i: "i < length (t_over t)"
  obtains t' C' where "dropOverflow t (int i) = Some t'" "same_shape t t'" "t_live t' = t_live t"
    "tab_inv {} t' B C'"
proof -
  define l where "l = length (t_over t) - 1"
  have ll: "l < length (t_over t)" "length (t_over t) = Suc l" using i by (auto simp: l_def)
  show thesis
  proof (cases "i = l")
    case True
    let ?t' = "t\<lparr>t_over := butlast (t_over t)\<rparr>"
    have ok: "j < l" if "c < t_size t" "j \<in> set (C c)" for c j
      using tab_invD(5,6)[OF inv that(1)] that(2) True ll by (metis Int_iff empty_iff insertI1 less_SucE)
    have "tab_inv {} ?t' B C"
    proof -
      have "bucket_chain ?t' c (C c) \<and> bucket_kvs ?t' c (C c) = B c" if c: "c < t_size t" for c
      proof -
        have "path (butlast (t_over t)) e (C c) noEntry" if "path (t_over t) e (C c) noEntry" for e
          by (rule path_cong[OF that]) (use ok[OF c] ll in \<open>auto simp: nth_butlast\<close>)
        then show ?thesis using tab_invD(1,2)[OF inv c] ok[OF c] ll
          by (auto simp: bucket_chain_def bucket_kvs_def nth_butlast)
      qed
      moreover have "{..<length (t_over t)} - {i} = {..<l}" using True ll by auto
      ultimately show ?thesis using inv ll unfolding tab_inv_def by (auto simp: t_size_def bucketOf_def)
    qed
    moreover have "dropOverflow t (int i) = Some ?t'"
      using True ll by (simp add: dropOverflow_def Let_def)
    ultimately show thesis by (intro that[of ?t']) (simp_all add: same_shape_simps)
  next
    case False
    obtain c xs ys where c: "c < t_size t" and sp: "C c = xs @ l # ys"
      and ne: "en_next (t_heads t ! c) \<noteq> noHead" and pa: "path (t_over t) (en_next (t_heads t ! c)) (C c) noEntry"
      and bo: "bucketOf t (en_hash (t_over t ! l)) = c" and ic: "i \<notin> set (C c)"
      using tab_inv_last_chain[OF inv i] False unfolding l_def by blast
    note res = dropOverflow_result[OF inv i c sp l_def False ne pa bo ic]
    have cl: "c < length (t_heads t)" using c by (simp add: t_size_def)
    have dist: "distinct (xs @ l # ys)" using tab_invD(4)[OF inv c] sp by simp
    have lt: "j < l" if "j \<in> set (xs @ ys)" for j
      using that tab_invD(5)[OF inv c, of j] dist sp ll by (auto simp: less_Suc_eq)
    define t' where "t' = the (dropOverflow t (int i))"
    have t': "dropOverflow t (int i) = Some t'" using res by (simp add: t'_def)
    have lens: "length (t_over t') = l" "t_mask t' = t_mask t" "t_live t' = t_live t" "t_size t' = t_size t"
      using res t' ll by (auto simp: t_size_def split: if_splits)
    have heads: "t_heads t' ! c' = t_heads t ! c'" if "c' \<noteq> c" for c'
      using res t' that by (auto split: if_splits)
    have hkv: "en_kv (t_heads t' ! c) = en_kv (t_heads t ! c)"
      using res t' cl by (auto split: if_splits)
    have hnx: "en_next (t_heads t' ! c) = (if xs = [] then int i else en_next (t_heads t ! c))"
      using res t' cl by (auto split: if_splits)
    have ov: "t_over t' ! j = (if j = i then t_over t ! l else if xs \<noteq> [] \<and> j = last xs
        then (t_over t ! j)\<lparr>en_next := int i\<rparr> else t_over t ! j)" if "j < l" for j
    proof -
      have "xs \<noteq> [] \<Longrightarrow> last xs \<noteq> i \<and> last xs < l" using ic sp lt[of "last xs"] by auto
      then show ?thesis using res t' that ll by (auto simp: nth_butlast nth_list_update)
    qed
    have il: "i < l" using i False ll by auto
    have iC: "i \<notin> set xs" "i \<notin> set ys" using ic sp by auto
    have kvs: "bucket_kvs t' c (xs @ i # ys) = B c"
    proof -
      have "over_kvs t' (xs @ i # ys) = over_kvs t (xs @ l # ys)"
        using ov[OF lt] ov[OF il] iC by (auto split: if_splits)
      then show ?thesis using tab_invD(2)[OF inv c] ne sp hkv hnx
        by (simp add: bucket_kvs_def split: if_splits)
    qed
    have tail: "path (t_over t') (int i) (i # ys) noEntry"
    proof -
      have "path (t_over t) (en_next (t_over t ! l)) ys noEntry" using pa sp by (auto simp: path_append)
      then have "path (t_over t') (en_next (t_over t ! l)) ys noEntry"
      proof (rule path_cong)
        fix j assume j: "j \<in> set ys"
        then have "xs = [] \<or> j \<noteq> last xs" using dist last_in_set[of xs] by (metis disjoint_iff distinct_append set_subset_Cons subsetD)
        then show "j < length (t_over t') \<and> en_next (t_over t' ! j) = en_next (t_over t ! j)"
          using lt[of j] ov[of j] j iC lens by auto
      qed
      then show ?thesis using ov[OF il] il lens by simp
    qed
    have chain: "path (t_over t') (en_next (t_heads t' ! c)) (xs @ i # ys) noEntry"
    proof (cases xs rule: rev_cases)
      case Nil
      then show ?thesis using tail hnx by simp
    next
      case (snoc zs p)
      have front: "path (t_over t) (en_next (t_heads t ! c)) zs (int p)" and pl: "p < l"
        using pa sp snoc lt[of p] by (auto simp: path_append)
      have "path (t_over t') (en_next (t_heads t ! c)) zs (int p)"
        by (rule path_cong[OF front]) (use ov lt snoc dist iC lens in auto)
      moreover have "p \<noteq> i" "en_next (t_over t' ! p) = int i" using ov[OF pl] iC snoc by auto
      ultimately show ?thesis using tail hnx snoc pl lens by (auto simp: path_append)
    qed
    have "tab_inv {} t' (B(c := bucket_kvs t' c (xs @ i # ys))) (C(c := xs @ i # ys))"
    proof (rule tab_inv_update[OF inv c])
      show "bucket_chain t' c (xs @ i # ys)" using chain ne hnx by (auto simp: bucket_chain_def)
      show "distinct (xs @ i # ys)" using dist iC by auto
      show "bucketOf t (fst kv) = c" if "kv \<in> set (bucket_kvs t' c (xs @ i # ys))" for kv
        using that kvs tab_invD(3)[OF inv c] by simp
      show "set (xs @ i # ys) \<inter> set (C d) = {}" if d: "d < t_size t" "d \<noteq> c" for d
        using tab_invD(6)[OF inv d(1)] tab_invD(7)[OF inv c d(1)] d sp by auto
      show "j < length (t_over t') \<and> en_next (t_over t' ! j) = en_next (t_over t ! j) \<and>
          en_kv (t_over t' ! j) = en_kv (t_over t ! j)" if d: "d < t_size t" "d \<noteq> c" "j \<in> set (C d)" for d j
      proof -
        have nin: "j \<notin> set (C c)" using tab_invD(7)[OF inv c d(1)] d by auto
        then have jl: "j < l" and jn: "xs = [] \<or> j \<noteq> last xs"
          using tab_invD(5)[OF inv d(1,3)] ll sp by (auto simp: less_Suc_eq)
        have "j \<noteq> i" using tab_invD(6)[OF inv d(1)] d by auto
        then show ?thesis using ov[OF jl] jn jl lens by auto
      qed
      show "(\<Union>d < t_size t. set ((C(c := xs @ i # ys)) d)) = {..<length (t_over t')} - {}"
        unfolding tab_inv_cover_upd[OF inv c] using ll lens il lt sp by (auto simp: less_Suc_eq)
    qed (use heads lens in auto)
    then show thesis using kvs lens t'
      by (intro that[of t' "C(c := xs @ i # ys)"]) (simp_all add: same_shape_def fun_upd_idem)
  qed
qed

subsection \<open>Unlinking an entry\<close>

lemma unlinkHead_bucket:
  assumes inv: "tab_inv {} t B C" and b: "b < t_size t" and ne: "en_next (t_heads t ! b) \<noteq> noHead"
  obtains t' C' where "unlinkHead t b = Some t'" "same_shape t t'" "t_live t' = t_live t - 1"
    "tab_inv {} t' (B(b := tl (B b))) C'"
proof -
  let ?h = "t_heads t ! b"
  have bl: "b < length (t_heads t)" using b by (simp add: t_size_def)
  have B: "B b = en_kv ?h # over_kvs t (C b)" and p: "path (t_over t) (en_next ?h) (C b) noEntry"
    using tab_invD(1,2)[OF inv b] ne by (auto simp: bucket_kvs_def bucket_chain_def)
  show thesis
  proof (cases "C b")
    case Nil
    then have last: "en_next ?h = noEntry" using p by simp
    let ?t' = "t\<lparr>t_heads := (t_heads t)[b := zero_entry\<lparr>en_next := noHead\<rparr>]\<rparr>"
    have kvs: "bucket_kvs ?t' b [] = []" using bl by (simp add: bucket_kvs_def)
    have "tab_inv {} ?t' (B(b := bucket_kvs ?t' b [])) (C(b := []))"
      by (rule tab_inv_update[OF inv b])
        (use tab_invD[OF inv] tab_inv_cover[OF inv] b bl Nil fun_upd_triv[of C b] kvs
         in \<open>auto simp: t_size_def bucket_chain_def\<close>)
    then show thesis using last go_head[OF b] kvs B Nil
      by (intro that[of "?t'\<lparr>t_live := t_live t - 1\<rparr>"])
        (simp_all add: unlinkHead_def same_shape_simps)
  next
    case (Cons i js)
    let ?f = "t_over t ! i" and ?t1 = "t\<lparr>t_heads := (t_heads t)[b := t_over t ! i]\<rparr>"
    have e: "en_next ?h = int i" and i: "i < length (t_over t)" and q: "path (t_over t) (en_next ?f) js noEntry"
      using p Cons by auto
    have "en_next ?f \<noteq> noHead" using q by (cases "js") auto
    then have kvs: "bucket_kvs ?t1 b js = tl (B b)" and ch: "bucket_chain ?t1 b js"
      using B Cons bl q by (simp_all add: bucket_kvs_def bucket_chain_def)
    have d: "i \<notin> set js" "distinct js" using tab_invD(4)[OF inv b] Cons by auto
    have "tab_inv {i} ?t1 (B(b := bucket_kvs ?t1 b js)) (C(b := js))"
    proof (rule tab_inv_update[OF inv b])
      show "bucketOf t (fst kv) = b" if "kv \<in> set (bucket_kvs ?t1 b js)" for kv
        using that kvs B tab_invD(3)[OF inv b, of kv] by simp
      show "set js \<inter> set (C c) = {}" if c: "c < t_size t" "c \<noteq> b" for c
        using tab_invD(7)[OF inv b c(1)] c Cons by auto
      show "(\<Union>c < t_size t. set ((C(b := js)) c)) = {..<length (t_over ?t1)} - {i}"
        unfolding tab_inv_cover_upd[OF inv b] using Cons d tab_invD(5)[OF inv b] by auto
    qed (use tab_invD[OF inv] ch d in \<open>auto simp: t_size_def\<close>)
    then have inv1: "tab_inv {i} ?t1 (B(b := tl (B b))) (C(b := js))" using kvs by simp
    obtain t' C' where t': "dropOverflow ?t1 (int i) = Some t'" "same_shape ?t1 t'" "t_live t' = t_live ?t1"
      "tab_inv {} t' (B(b := tl (B b))) C'"
      using dropOverflow_inv[OF inv1] i by auto
    show thesis
      by (rule that[of "t'\<lparr>t_live := t_live t - 1\<rparr>" C'])
        (use t' e i go_head[OF b] same_shape_trans[OF same_shape_simps(2) t'(2)]
         in \<open>simp_all add: unlinkHead_def same_shape_simps\<close>)
  qed
qed

lemma unlinkOverflow_bucket:
  assumes inv: "tab_inv {} t B C" and b: "b < t_size t" and ne: "en_next (t_heads t ! b) \<noteq> noHead"
    and sp: "C b = xs @ j # ys"
  obtains t' C' where "unlinkOverflow t b (if xs = [] then noHead else int (last xs)) (int j) = Some t'"
    "same_shape t t'" "t_live t' = t_live t - 1"
    "tab_inv {} t' (B(b := (en_kv (t_heads t ! b) # over_kvs t xs) @ over_kvs t ys)) C'"
proof -
  let ?h = "t_heads t ! b" and ?n = "en_next (t_over t ! j)"
  have bl: "b < length (t_heads t)" using b by (simp add: t_size_def)
  have p: "path (t_over t) (en_next ?h) (xs @ j # ys) noEntry"
    using tab_invD(1)[OF inv b] ne sp by (auto simp: bucket_chain_def)
  then have j: "j < length (t_over t)" and q: "path (t_over t) ?n ys noEntry" by (auto simp: path_append)
  have d: "distinct (xs @ j # ys)" using tab_invD(4)[OF inv b] sp by simp
  define t1 where "t1 = (if xs = [] then t\<lparr>t_heads := (t_heads t)[b := ?h\<lparr>en_next := ?n\<rparr>]\<rparr>
     else t\<lparr>t_over := (t_over t)[last xs := (t_over t ! last xs)\<lparr>en_next := ?n\<rparr>]\<rparr>)"
  have lx: "xs \<noteq> [] \<Longrightarrow> last xs < length (t_over t)" using p by (cases xs rule: rev_cases) (auto simp: path_append)
  have sh: "same_shape t t1" "t_live t1 = t_live t" "length (t_over t1) = length (t_over t)"
    by (simp_all add: t1_def same_shape_simps)
  have okv: "en_kv (t_over t1 ! i) = en_kv (t_over t ! i)" if "i < length (t_over t)" for i
    using that by (cases "i = last xs") (auto simp: t1_def)
  have onx: "en_next (t_over t1 ! i) = en_next (t_over t ! i)" if "xs = [] \<or> i \<noteq> last xs" for i
    using that by (auto simp: t1_def nth_list_update)
  have hkv: "en_kv (t_heads t1 ! b) = en_kv ?h" using bl by (simp add: t1_def)
  have ny: "xs = [] \<or> i \<noteq> last xs" if "i \<in> set ys" for i
    using d that last_in_set[of xs] by (metis disjoint_iff distinct_append set_subset_Cons subsetD)
  have q1: "path (t_over t1) ?n ys noEntry"
    by (rule path_cong[OF q]) (use path_bound[OF q] onx ny sh in auto)
  have chain: "path (t_over t1) (en_next (t_heads t1 ! b)) (xs @ ys) noEntry"
  proof (cases xs rule: rev_cases)
    case Nil
    then show ?thesis using q1 bl by (simp add: t1_def)
  next
    case (snoc zs z)
    have z: "path (t_over t) (en_next ?h) zs (int z)" using p snoc by (auto simp: path_append)
    have "path (t_over t1) (en_next ?h) zs (int z)"
    proof (rule path_cong[OF z])
      fix i assume i: "i \<in> set zs"
      then have "i \<noteq> last xs" using d snoc by auto
      then show "i < length (t_over t1) \<and> en_next (t_over t1 ! i) = en_next (t_over t ! i)"
        using path_bound[OF z i] onx sh by simp
    qed
    moreover have "en_next (t_over t1 ! z) = ?n" "t_heads t1 = t_heads t" using snoc lx by (simp_all add: t1_def)
    ultimately show ?thesis using q1 snoc lx sh by (auto simp: path_append)
  qed
  then have nh: "en_next (t_heads t1 ! b) \<noteq> noHead" by (cases "xs @ ys") auto
  let ?kvs = "(en_kv ?h # over_kvs t xs) @ over_kvs t ys"
  have kvs: "bucket_kvs t1 b (xs @ ys) = ?kvs"
    using nh hkv okv path_bound[OF p] by (simp add: bucket_kvs_def)
  have "tab_inv {j} t1 (B(b := bucket_kvs t1 b (xs @ ys))) (C(b := xs @ ys))"
  proof (rule tab_inv_update[OF inv b])
    show "bucket_chain t1 b (xs @ ys)" using chain nh by (simp add: bucket_chain_def)
    show "distinct (xs @ ys)" using d by auto
    show "bucketOf t (fst kv) = b" if "kv \<in> set (bucket_kvs t1 b (xs @ ys))" for kv
      using that kvs tab_invD(2)[OF inv b] ne sp tab_invD(3)[OF inv b, of kv] by (auto simp: bucket_kvs_def)
    show "set (xs @ ys) \<inter> set (C c) = {}" if c: "c < t_size t" "c \<noteq> b" for c
      using tab_invD(7)[OF inv b c(1)] c sp by auto
    show "i < length (t_over t1) \<and> en_next (t_over t1 ! i) = en_next (t_over t ! i) \<and>
        en_kv (t_over t1 ! i) = en_kv (t_over t ! i)" if c: "c < t_size t" "c \<noteq> b" "i \<in> set (C c)" for c i
    proof -
      have "i \<notin> set xs" using tab_invD(7)[OF inv b c(1)] c sp by auto
      then have "xs = [] \<or> i \<noteq> last xs" using last_in_set[of xs] by blast
      then show ?thesis using onx okv sh tab_invD(5)[OF inv c(1,3)] by simp
    qed
    show "(\<Union>c < t_size t. set ((C(b := xs @ ys)) c)) = {..<length (t_over t1)} - {j}"
      unfolding tab_inv_cover_upd[OF inv b] using sp d sh tab_invD(5)[OF inv b] by auto
    show "t_heads t1 ! c = t_heads t ! c" if "c < t_size t" "c \<noteq> b" for c using that by (simp add: t1_def)
  qed (use sh in \<open>auto simp: same_shape_def\<close>)
  then have "tab_inv {j} t1 (B(b := ?kvs)) (C(b := xs @ ys))" using kvs by simp
  then obtain t' C' where t': "dropOverflow t1 (int j) = Some t'" "same_shape t1 t'" "t_live t' = t_live t1"
    "tab_inv {} t' (B(b := ?kvs)) C'"
    using j unfolding sh(3)[symmetric] by (rule dropOverflow_inv)
  have "unlinkOverflow t b (if xs = [] then noHead else int (last xs)) (int j) = Some (t'\<lparr>t_live := t_live t' - 1\<rparr>)"
    using t'(1) j lx go_head[OF b] by (auto simp: unlinkOverflow_def t1_def)
  then show thesis
    by (rule that[where C' = C']) (use t' sh same_shape_trans[OF sh(1) t'(2)] in \<open>simp_all add: same_shape_simps\<close>)
qed

lemma t_remove_bucket:
  assumes inv: "tab_inv {} t B C" and pow: "tbl_pow t n" and b_def: "b = bucketOf t h"
  obtains t' C' where "t_remove t k h = Some (t', kv_has h k (B b))" "same_shape t t'"
    "t_live t' = t_live t - (if kv_has h k (B b) then 1 else 0)"
    "tab_inv {} t' (B(b := kv_del h k (B b))) C'"
proof -
  have b: "b < t_size t" using bucketOf_lt[OF pow] b_def by simp
  then have nz: "t_heads t \<noteq> []" by (auto simp: t_size_def)
  note g = go_head[OF b] b_def[symmetric] nz
  show thesis
  proof (cases rule: bucket_cases[OF inv b, where h = h and k = k, case_names empty head none hit])
    case empty
    show thesis
      by (rule that[of t C]) (use empty g inv in \<open>simp_all add: t_remove_def kv_has_def same_shape_simps fun_upd_idem\<close>)
  next
    case head
    have "tl (B b) = kv_del h k (B b)" "kv_has h k (B b)"
      using head(3) kv_hit(3,4)[OF head(4)] by simp_all
    moreover obtain t' C' where "unlinkHead t b = Some t'" "same_shape t t'" "t_live t' = t_live t - 1"
      "tab_inv {} t' (B(b := tl (B b))) C'" using unlinkHead_bucket[OF inv b head(1)] .
    ultimately show thesis using head(1,2) g
      by (intro that[of t' C']) (simp_all add: t_remove_def)
  next
    case none
    then show thesis using g inv kv_absent[of "B b" h k]
      by (intro that[of t C]) (simp_all add: t_remove_def same_shape_simps Let_def)
  next
    case (hit xs j ys)
    note ks = kv_split(3,4)[OF hit(7,8,6)]
    obtain t' C' where "unlinkOverflow t b (if xs = [] then noHead else int (last xs)) (int j) = Some t'"
      "same_shape t t'" "t_live t' = t_live t - 1"
      "tab_inv {} t' (B(b := (en_kv (t_heads t ! b) # over_kvs t xs) @ over_kvs t ys)) C'"
      using unlinkOverflow_bucket[OF inv b hit(1,4)] .
    then show thesis using hit(1,2,3) g ks
      by (intro that[of t' C']) (simp_all add: t_remove_def Let_def split del: if_split)
  qed
qed

end
