(* ===== verification/Dict_Map.thy ===== *)
theory Dict_Map
  imports Dict_Table Simulation "HOL-Library.Multiset"
begin

unbundle bit_operations_syntax

text \<open>
  The dict as a finite map. A table is abstracted further, to the multiset of its entries, so
  that an incremental rehash is a move between two multisets whose sum does not change.
  \<open>dict_map hf d m\<close> says that dict \<open>d\<close> is well formed and holds the map
  \<open>m\<close>; every operation is proved never to panic, to keep it, and to answer as the map
  does, whatever the rehash is doing underneath.
\<close>

subsection \<open>A table as a multiset of entries\<close>

definition tbl_ms :: "nat \<Rightarrow> (nat \<Rightarrow> 'v kv list) \<Rightarrow> 'v kv multiset" where
  "tbl_ms n B = (\<Sum>b < 2 ^ n. mset (B b))"

definition tbl_rep :: "'v tbl \<Rightarrow> nat \<Rightarrow> (nat \<Rightarrow> 'v kv list) \<Rightarrow> bool" where
  "tbl_rep t n B \<longleftrightarrow> (\<exists>C. tab_inv {} t B C) \<and> tbl_pow t n \<and> t_live t = int (size (tbl_ms n B))"

lemma tbl_ms_upd: "b < 2 ^ n \<Longrightarrow> tbl_ms n (B(b := xs)) + mset (B b) = tbl_ms n B + mset xs"
proof -
  assume b: "b < 2 ^ n"
  have "tbl_ms n F = mset (F b) + (\<Sum>c \<in> {..<2 ^ n} - {b}. mset (F c))" for F :: "nat \<Rightarrow> 'a kv list"
    unfolding tbl_ms_def using b by (intro sum.remove) auto
  from this[of "B(b := xs)"] this[of B] show ?thesis by simp
qed

lemma mset_kv_add: "mset (kv_add kv kvs) = add_mset kv (mset kvs)"
  by (simp add: kv_add_def split: list.split)

lemma tbl_ms_add: "b < 2 ^ n \<Longrightarrow> tbl_ms n (B(b := kv_add kv (B b))) = add_mset kv (tbl_ms n B)"
  using tbl_ms_upd[of b n B "kv_add kv (B b)"] by (simp add: mset_kv_add)

lemma tbl_rep_size: "tbl_rep t n B \<Longrightarrow> t_size t = 2 ^ n"
  by (simp add: tbl_rep_def tbl_pow_def)

lemma tbl_rep_bucket: "tbl_rep t n B \<Longrightarrow> bucketOf t h < 2 ^ n"
  using bucketOf_lt[of t n h] by (simp add: tbl_rep_def tbl_pow_def)

lemma tbl_ms_mem:
  assumes "tbl_rep t n B"
  shows "kv \<in># tbl_ms n B \<longleftrightarrow> kv \<in> set (B (bucketOf t (fst kv)))"
proof -
  obtain C where inv: "tab_inv {} t B C" using assms by (auto simp: tbl_rep_def)
  have "kv \<in># tbl_ms n B \<longleftrightarrow> (\<exists>b < 2 ^ n. kv \<in> set (B b))" by (auto simp: tbl_ms_def set_mset_sum)
  also have "\<dots> \<longleftrightarrow> kv \<in> set (B (bucketOf t (fst kv)))"
  proof
    assume "\<exists>b < 2 ^ n. kv \<in> set (B b)"
    then obtain b where b: "b < 2 ^ n" "kv \<in> set (B b)" by blast
    then have "bucketOf t (fst kv) = b" using tab_invD(3)[OF inv _ b(2)] tbl_rep_size[OF assms] by simp
    then show "kv \<in> set (B (bucketOf t (fst kv)))" using b by simp
  qed (use tbl_rep_bucket[OF assms] in blast)
  finally show ?thesis .
qed

lemma newTable_rep: "tbl_rep (newTable (2 ^ n)) n (\<lambda>_. [])"
proof -
  have "tab_inv {} (newTable (2 ^ n)) (\<lambda>_. []) (\<lambda>_. [])"
    by (simp add: tab_inv_def newTable_def t_size_def bucket_chain_def bucket_kvs_def)
  moreover have "tbl_pow (newTable (2 ^ n)) n"
    by (simp add: tbl_pow_def newTable_def t_size_def mask_eq_exp_minus_1)
  ultimately show ?thesis by (auto simp: tbl_rep_def newTable_def tbl_ms_def)
qed

subsection \<open>Table operations on the representation\<close>

lemma t_lookup_rep: "tbl_rep t n B \<Longrightarrow> t_lookup t k h = Some (kv_find h k (B (bucketOf t h)))"
  unfolding tbl_rep_def using t_lookup_bucket[OF _ _ refl] by blast

lemma t_lookupString_rep: "tbl_rep t n B \<Longrightarrow> t_lookupString t k h = t_lookup t k h"
  using tbl_rep_size[of t n B] by (auto simp: t_lookupString_def t_size_def)

lemma kv_put_mset: "size (mset (kv_put h k v kvs)) = size (mset kvs)"
  by (induction kvs) auto

lemma tbl_rep_intro:
  assumes "tbl_rep t n B" "same_shape t t'" "b = bucketOf t h" "tab_inv {} t' (B(b := xs)) C'"
    and "t_live t' = t_live t + int (length xs) - int (length (B b))"
  shows "tbl_rep t' n (B(b := xs))"
proof -
  have "size (tbl_ms n (B(b := xs))) + length (B b) = size (tbl_ms n B) + length xs"
    using tbl_ms_upd[of b n B xs] tbl_rep_bucket[OF assms(1)] assms(3)
    by (metis size_mset size_union)
  then show ?thesis using assms same_shape_pow[OF assms(2)] by (auto simp: tbl_rep_def)
qed

lemma t_replace_rep:
  assumes "tbl_rep t n B" and b: "b = bucketOf t h"
  obtains t' where "t_replace t k h v = Some (t', kv_has h k (B b))" "same_shape t t'"
    "tbl_rep t' n (B(b := kv_put h k v (B b)))"
proof -
  obtain C where "tab_inv {} t B C" "tbl_pow t n" using assms by (auto simp: tbl_rep_def)
  then obtain t' where t': "t_replace t k h v = Some (t', kv_has h k (B b))" "same_shape t t'"
    "t_live t' = t_live t" "tab_inv {} t' (B(b := kv_put h k v (B b))) C"
    by (rule t_replace_bucket[OF _ _ b])
  then show thesis
    using that tbl_rep_intro[OF assms(1) t'(2) b t'(4)] kv_put_mset[of h k v "B b"] by simp
qed

lemma t_insert_rep:
  assumes "tbl_rep t n B" and b: "b = bucketOf t h"
  obtains t' where "t_insert t k h v = Some t'" "same_shape t t'"
    "tbl_rep t' n (B(b := kv_add (h, k, v) (B b)))"
proof -
  obtain C where "tab_inv {} t B C" "tbl_pow t n" using assms by (auto simp: tbl_rep_def)
  then obtain t' C' where t': "t_insert t k h v = Some t'" "same_shape t t'" "t_live t' = t_live t + 1"
    "tab_inv {} t' (B(b := kv_add (h, k, v) (B b))) C'"
    by (rule t_insert_bucket[OF _ _ b])
  moreover have "length (kv_add (h, k, v) (B b)) = Suc (length (B b))"
    by (simp add: kv_add_def split: list.split)
  ultimately show thesis
    using that tbl_rep_intro[OF assms(1) t'(2) b t'(4)] by simp
qed

lemma length_kv_del: "int (length (kv_del h k kvs)) = int (length kvs) - (if kv_has h k kvs then 1 else 0)"
  by (induction kvs) auto

lemma t_remove_rep:
  assumes "tbl_rep t n B" and b: "b = bucketOf t h"
  obtains t' where "t_remove t k h = Some (t', kv_has h k (B b))" "same_shape t t'"
    "tbl_rep t' n (B(b := kv_del h k (B b)))"
proof -
  obtain C where "tab_inv {} t B C" "tbl_pow t n" using assms by (auto simp: tbl_rep_def)
  then obtain t' C' where t': "t_remove t k h = Some (t', kv_has h k (B b))" "same_shape t t'"
    "t_live t' = t_live t - (if kv_has h k (B b) then 1 else 0)" "tab_inv {} t' (B(b := kv_del h k (B b))) C'"
    by (rule t_remove_bucket[OF _ _ b])
  then show thesis
    using that tbl_rep_intro[OF assms(1) t'(2) b t'(4)] length_kv_del[of h k "B b"] by simp
qed

lemma unlinkHead_rep:
  assumes "tbl_rep t n B" "b < 2 ^ n" "B b = kv # kvs"
  obtains t' where "unlinkHead t b = Some t'" "same_shape t t'" "tbl_rep t' n (B(b := kvs))"
proof -
  obtain C where C: "tab_inv {} t B C" "tbl_pow t n" using assms by (auto simp: tbl_rep_def)
  have b: "b < t_size t" using assms tbl_rep_size[OF assms(1)] by simp
  have ne: "en_next (t_heads t ! b) \<noteq> noHead"
    using tab_invD(2)[OF C(1) b] assms(3) by (auto simp: bucket_kvs_def split: if_splits)
  have bk: "b = bucketOf t (fst kv)" using tab_invD(3)[OF C(1) b, of kv] assms(3) by simp
  obtain t' C' where t': "unlinkHead t b = Some t'" "same_shape t t'" "t_live t' = t_live t - 1"
    "tab_inv {} t' (B(b := tl (B b))) C'" using unlinkHead_bucket[OF C(1) b ne] .
  then show thesis
    using that tbl_rep_intro[OF assms(1) t'(2) bk t'(4)] assms(3) by simp
qed

lemma tbl_rep_head:
  assumes "tbl_rep t n B" "b < 2 ^ n"
  shows "go_nth (t_heads t) (int b) = Some (t_heads t ! b)"
    "en_next (t_heads t ! b) = noHead \<longleftrightarrow> B b = []"
    "B b = kv # kvs \<Longrightarrow> kv = en_kv (t_heads t ! b)"
proof -
  obtain C where C: "tab_inv {} t B C" "tbl_pow t n" using assms by (auto simp: tbl_rep_def)
  have b: "b < t_size t" using assms tbl_rep_size[OF assms(1)] by simp
  show "go_nth (t_heads t) (int b) = Some (t_heads t ! b)" using go_head[OF b] .
  show "en_next (t_heads t ! b) = noHead \<longleftrightarrow> B b = []"
    using tab_invD(2)[OF C(1) b] by (auto simp: bucket_kvs_def)
  show "B b = kv # kvs \<Longrightarrow> kv = en_kv (t_heads t ! b)"
    using tab_invD(2)[OF C(1) b] by (auto simp: bucket_kvs_def split: if_splits)
qed

lemma bucket_over_bound: "tbl_rep t n B \<Longrightarrow> b < 2 ^ n \<Longrightarrow> length (B b) \<le> Suc (length (t_over t))"
proof -
  assume r: "tbl_rep t n B" and "b < 2 ^ n"
  then have b: "b < t_size t" using tbl_rep_size[OF r] by simp
  obtain C where C: "tab_inv {} t B C" using r by (auto simp: tbl_rep_def)
  show ?thesis using tab_invD(2)[OF C b] chain_length_fuel[OF C b] by (simp add: bucket_kvs_def)
qed

subsection \<open>The incremental rehash\<close>

lemma drain_bucket_rep:
  assumes "tbl_rep src n B" "tbl_rep dst n' B'" "b < 2 ^ n" "length (B b) < fuel"
  shows "\<exists>src' dst' B''. drain_bucket fuel src dst b = Some (src', dst') \<and> same_shape src src' \<and>
    same_shape dst dst' \<and> tbl_rep src' n (B(b := [])) \<and> tbl_rep dst' n' B'' \<and>
    tbl_ms n' B'' = tbl_ms n' B' + mset (B b)"
  using assms
proof (induction fuel arbitrary: src dst B B')
  case 0
  then show ?case by simp
next
  case (Suc fuel)
  note hd = tbl_rep_head[OF Suc.prems(1,3)]
  show ?case
  proof (cases "B b")
    case Nil
    then show ?thesis using Suc.prems hd
      by (intro exI[of _ src] exI[of _ dst] exI[of _ B']) (simp add: same_shape_simps fun_upd_idem)
  next
    case (Cons kv kvs)
    let ?h = "t_heads src ! b" and ?c = "bucketOf dst (en_hash (t_heads src ! b))"
    have kv: "kv = (en_hash ?h, en_key ?h, en_val ?h)" using hd(3)[OF Cons] by (simp add: en_kv_def)
    obtain src1 where s1: "unlinkHead src b = Some src1" "same_shape src src1" "tbl_rep src1 n (B(b := kvs))"
      using unlinkHead_rep[OF Suc.prems(1,3) Cons] .
    obtain dst1 where d1: "t_insert dst (en_key ?h) (en_hash ?h) (en_val ?h) = Some dst1" "same_shape dst dst1"
      "tbl_rep dst1 n' (B'(?c := kv_add (en_hash ?h, en_key ?h, en_val ?h) (B' ?c)))"
      using t_insert_rep[OF Suc.prems(2) refl] .
    let ?B1 = "B'(?c := kv_add (en_hash ?h, en_key ?h, en_val ?h) (B' ?c))"
    have ms1: "tbl_ms n' ?B1 = add_mset kv (tbl_ms n' B')"
      unfolding kv by (rule tbl_ms_add[OF tbl_rep_bucket[OF Suc.prems(2)]])
    have "length ((B(b := kvs)) b) < fuel" using Suc.prems(4) Cons by simp
    from Suc.IH[OF s1(3) d1(3) Suc.prems(3) this] obtain src' dst' B'' where
      r: "drain_bucket fuel src1 dst1 b = Some (src', dst')" "same_shape src1 src'" "same_shape dst1 dst'"
      "tbl_rep src' n (B(b := []))" "tbl_rep dst' n' B''" "tbl_ms n' B'' = tbl_ms n' ?B1 + mset kvs"
      unfolding fun_upd_upd fun_upd_same by blast
    have "drain_bucket (Suc fuel) src dst b = Some (src', dst')"
      using hd(1,2) Cons s1(1) d1(1) r(1) by simp
    moreover have "tbl_ms n' B'' = tbl_ms n' B' + mset (B b)" using r(6) ms1 Cons by simp
    ultimately show ?thesis
      using r same_shape_trans[OF s1(2) r(2)] same_shape_trans[OF d1(2) r(3)] by blast
  qed
qed

text \<open>
  A well-formed dict. While it rehashes, the buckets of the old table below
  \<open>rehashAt\<close> are empty; otherwise the second table is the zero value.
\<close>

definition dict_rep ::
  "'v dict \<Rightarrow> nat \<Rightarrow> (nat \<Rightarrow> 'v kv list) \<Rightarrow> nat \<Rightarrow> (nat \<Rightarrow> 'v kv list) \<Rightarrow> bool" where
  "dict_rep d n0 B0 n1 B1 \<longleftrightarrow>
     tbl_rep (d_tab0 d) n0 B0 \<and> 3 \<le> n0 \<and>
     (if rehashing d
      then tbl_rep (d_tab1 d) n1 B1 \<and> 3 \<le> n1 \<and> d_rehashAt d \<le> 2 ^ n0 \<and>
           (\<forall>b < nat (d_rehashAt d). B0 b = [])
      else d_rehashAt d = -1 \<and> d_tab1 d = empty_table)"

definition dict_ms :: "'v dict \<Rightarrow> 'v kv multiset \<Rightarrow> bool" where
  "dict_ms d M \<longleftrightarrow> (\<exists>n0 B0 n1 B1. dict_rep d n0 B0 n1 B1 \<and>
     M = tbl_ms n0 B0 + (if rehashing d then tbl_ms n1 B1 else {#}))"

lemma dict_rep_rehashing:
  "rehashing d \<Longrightarrow> dict_rep d n0 B0 n1 B1 \<longleftrightarrow>
     tbl_rep (d_tab0 d) n0 B0 \<and> 3 \<le> n0 \<and> tbl_rep (d_tab1 d) n1 B1 \<and> 3 \<le> n1 \<and>
     0 \<le> d_rehashAt d \<and> d_rehashAt d \<le> 2 ^ n0 \<and> (\<forall>b < nat (d_rehashAt d). B0 b = [])"
  by (auto simp: dict_rep_def rehashing_def)

lemma rehash_loop_rep:
  assumes "dict_rep d n0 B0 n1 B1" "rehashing d" "2 ^ n0 - d_rehashAt d < int fuel"
  shows "\<exists>r d' B0' B1'. rehash_loop fuel d n budget = Some r \<and> (r = Inl d' \<or> r = Inr d') \<and>
    dict_rep d' n0 B0' n1 B1' \<and> rehashing d' \<and>
    tbl_ms n0 B0' + tbl_ms n1 B1' = tbl_ms n0 B0 + tbl_ms n1 B1 \<and>
    d_rehashAt d \<le> d_rehashAt d' \<and>
    (0 < n \<and> d_rehashAt d < 2 ^ n0 \<longrightarrow> d_rehashAt d < d_rehashAt d')"
  using assms
proof (induction fuel arbitrary: d n budget B0 B1)
  case 0
  then show ?case by (simp add: dict_rep_rehashing)
next
  case (Suc fuel)
  note rep = Suc.prems(1)[unfolded dict_rep_rehashing[OF Suc.prems(2)]]
  have r0: "tbl_rep (d_tab0 d) n0 B0" and r1: "tbl_rep (d_tab1 d) n1 B1" using rep by auto
  have sz: "t_size (d_tab0 d) = 2 ^ n0" using tbl_rep_size[OF r0] .
  show ?case
  proof (cases "n > 0 \<and> d_rehashAt d < 2 ^ n0")
    case False
    then have "rehash_loop (Suc fuel) d n budget = Some (Inr d)" using sz by auto
    then show ?thesis using Suc.prems False by blast
  next
    case True
    define b where "b = nat (d_rehashAt d)"
    have rb: "d_rehashAt d = int b" and b: "b < 2 ^ n0" using rep True by (auto simp: b_def)
    note hd = tbl_rep_head[OF r0 b]
    have bi: "d_rehashAt d + 1 \<le> 2 ^ n0" using True by simp
    show ?thesis
    proof (cases "B0 b = []")
      case True
      let ?d = "d\<lparr>d_rehashAt := d_rehashAt d + 1\<rparr>"
      have rh: "rehashing ?d" using rb by (simp add: rehashing_def)
      have "\<forall>c < nat (d_rehashAt ?d). B0 c = []" using rep True rb by (auto simp: less_Suc_eq nat_add_distrib)
      then have rep': "dict_rep ?d n0 B0 n1 B1" unfolding dict_rep_rehashing[OF rh] using rep bi by simp
      have eq: "rehash_loop (Suc fuel) d n budget =
          (if budget - 1 = 0 then Some (Inl ?d) else rehash_loop fuel ?d n (budget - 1))"
        using sz hd True rb b \<open>n > 0 \<and> _\<close> by (simp add: Let_def)
      show ?thesis
      proof (cases "budget - 1 = 0")
        case True
        then show ?thesis using eq rep' rh by (intro exI[of _ "Inl ?d"] exI[of _ ?d]) auto
      next
        case False
        have "2 ^ n0 - d_rehashAt ?d < int fuel" using Suc.prems(3) by simp
        from Suc.IH[OF rep' rh this, of n "budget - 1"] obtain r d' B0' B1' where
          "rehash_loop fuel ?d n (budget - 1) = Some r" "r = Inl d' \<or> r = Inr d'" "dict_rep d' n0 B0' n1 B1'"
          "rehashing d'" "tbl_ms n0 B0' + tbl_ms n1 B1' = tbl_ms n0 B0 + tbl_ms n1 B1"
          "d_rehashAt ?d \<le> d_rehashAt d'" by blast
        then show ?thesis using eq False
          by (intro exI[of _ r] exI[of _ d'] exI[of _ B0'] exI[of _ B1']) auto
      qed
    next
      case False
      have "length (B0 b) < length (t_over (d_tab0 d)) + 2" using bucket_over_bound[OF r0 b] by simp
      from drain_bucket_rep[OF r0 r1 b this] obtain src dst B where
        dr: "drain_bucket (length (t_over (d_tab0 d)) + 2) (d_tab0 d) (d_tab1 d) b = Some (src, dst)"
        "tbl_rep src n0 (B0(b := []))" "tbl_rep dst n1 B" "tbl_ms n1 B = tbl_ms n1 B1 + mset (B0 b)" by blast
      let ?d = "d\<lparr>d_tab0 := src, d_tab1 := dst, d_rehashAt := d_rehashAt d + 1\<rparr>"
      have rh: "rehashing ?d" using rb by (simp add: rehashing_def)
      have "\<forall>c < nat (d_rehashAt ?d). (B0(b := [])) c = []" using rep rb by (auto simp: less_Suc_eq nat_add_distrib)
      then have rep': "dict_rep ?d n0 (B0(b := [])) n1 B" unfolding dict_rep_rehashing[OF rh] using rep bi dr by simp
      have eq: "rehash_loop (Suc fuel) d n budget = rehash_loop fuel ?d (n - 1) budget"
        using sz hd False rb b dr(1) \<open>n > 0 \<and> _\<close> by (simp add: Let_def del: drain_bucket.simps)
      have ms: "tbl_ms n0 (B0(b := [])) + tbl_ms n1 B = tbl_ms n0 B0 + tbl_ms n1 B1"
        using tbl_ms_upd[OF b, of B0 "[]"] dr(4) by (simp add: algebra_simps)
      have "2 ^ n0 - d_rehashAt ?d < int fuel" using Suc.prems(3) by simp
      from Suc.IH[OF rep' rh this, of "n - 1" budget] obtain r d' B0' B1' where
        "rehash_loop fuel ?d (n - 1) budget = Some r" "r = Inl d' \<or> r = Inr d'" "dict_rep d' n0 B0' n1 B1'"
        "rehashing d'" "tbl_ms n0 B0' + tbl_ms n1 B1' = tbl_ms n0 (B0(b := [])) + tbl_ms n1 B"
        "d_rehashAt ?d \<le> d_rehashAt d'" by blast
      then show ?thesis using eq ms
        by (intro exI[of _ r] exI[of _ d'] exI[of _ B0'] exI[of _ B1']) auto
    qed
  qed
qed

lemma dict_rep_finish:
  assumes "dict_rep d n0 B0 n1 B1" "rehashing d" "d_rehashAt d \<ge> 2 ^ n0"
  shows "dict_ms (d\<lparr>d_tab0 := d_tab1 d, d_tab1 := empty_table, d_rehashAt := -1\<rparr>)
    (tbl_ms n0 B0 + tbl_ms n1 B1)" (is "dict_ms ?d _")
proof -
  note rep = assms(1)[unfolded dict_rep_rehashing[OF assms(2)]]
  have "B0 b = []" if "b < 2 ^ n0" for b
  proof -
    have "int b < 2 ^ n0" using that by (metis of_nat_less_iff of_nat_numeral of_nat_power)
    then have "b < nat (d_rehashAt d)" using assms(3) by linarith
    then show ?thesis using rep by blast
  qed
  then have "tbl_ms n0 B0 = {#}" by (simp add: tbl_ms_def)
  moreover have "dict_rep ?d n1 B1 n1 B1" using rep by (simp add: dict_rep_def rehashing_def)
  ultimately show ?thesis unfolding dict_ms_def by (auto simp: rehashing_def)
qed

lemma rehashBuckets_rep:
  assumes "dict_ms d M"
  shows "\<exists>d' more. rehashBuckets d n = Some (d', more) \<and> dict_ms d' M \<and> rehashing d' = more \<and>
    (more \<and> 0 < n \<and> d_rehashAt d < int (t_size (d_tab0 d)) \<longrightarrow>
       t_size (d_tab0 d') = t_size (d_tab0 d) \<and> d_rehashAt d < d_rehashAt d')"
proof (cases "rehashing d")
  case False
  then show ?thesis using assms by (simp add: rehashBuckets_def)
next
  case True
  obtain n0 B0 n1 B1 where rep: "dict_rep d n0 B0 n1 B1" and M: "M = tbl_ms n0 B0 + tbl_ms n1 B1"
    using assms True by (auto simp: dict_ms_def)
  note rep0 = rep[unfolded dict_rep_rehashing[OF True]]
  have sz: "t_size (d_tab0 d) = 2 ^ n0" using rep0 tbl_rep_size by blast
  have "2 ^ n0 - d_rehashAt d < int (Suc (2 ^ n0))" using rep0 by simp
  from rehash_loop_rep[OF rep True this, of n "n * 10"] obtain r d' B0' B1' where
    r: "rehash_loop (Suc (2 ^ n0)) d n (n * 10) = Some r" "r = Inl d' \<or> r = Inr d'"
    "dict_rep d' n0 B0' n1 B1'" "rehashing d'"
    "tbl_ms n0 B0' + tbl_ms n1 B1' = M" "0 < n \<and> d_rehashAt d < 2 ^ n0 \<longrightarrow> d_rehashAt d < d_rehashAt d'"
    using M by auto
  have rep': "dict_ms d' M"
    unfolding dict_ms_def using r(3-5) by (intro exI[of _ n0] exI[of _ B0'] exI[of _ n1] exI[of _ B1']) simp
  have sz': "t_size (d_tab0 d') = 2 ^ n0" using r(3)[unfolded dict_rep_rehashing[OF r(4)]] tbl_rep_size by blast
  have run: "rehashBuckets d n = (case r of Inl d' \<Rightarrow> Some (d', True) | Inr d' \<Rightarrow>
      if d_rehashAt d' \<ge> int (t_size (d_tab0 d')) then
        Some (d'\<lparr>d_tab0 := d_tab1 d', d_tab1 := empty_table, d_rehashAt := -1\<rparr>, False)
      else Some (d', True))"
    using True r(1) sz by (simp add: rehashBuckets_def del: rehash_loop.simps)
  show ?thesis
  proof (cases "r = Inr d' \<and> d_rehashAt d' \<ge> 2 ^ n0")
    case True
    let ?d = "d'\<lparr>d_tab0 := d_tab1 d', d_tab1 := empty_table, d_rehashAt := -1\<rparr>"
    have "rehashBuckets d n = Some (?d, False)" using run True sz' by simp
    moreover have "dict_ms ?d M" using dict_rep_finish[OF r(3,4)] True r(5) by simp
    ultimately show ?thesis by (simp add: rehashing_def)
  next
    case False
    then have "rehashBuckets d n = Some (d', True)" using run r(2) sz' by auto
    then show ?thesis using rep' r(4,6) sz sz' by simp
  qed
qed

lemma d_step_rep: "dict_ms d M \<Longrightarrow> \<exists>d'. d_step d = Some d' \<and> dict_ms d' M"
  using rehashBuckets_rep[of d M 1] by (auto simp: d_step_def)

lemma resize_rep:
  assumes "dict_ms d M" "3 \<le> n"
  shows "dict_ms (fst (resize d (2 ^ n))) M"
proof (cases "rehashing d")
  case False
  obtain n0 B0 n1 B1 where rep: "dict_rep d n0 B0 n1 B1" "M = tbl_ms n0 B0"
    using assms False by (auto simp: dict_ms_def)
  have "(2::nat) ^ 3 \<le> 2 ^ n" using assms(2) by (rule power_increasing) simp
  then have r: "fst (resize d (2 ^ n)) = d\<lparr>d_tab1 := newTable (2 ^ n), d_rehashAt := 0\<rparr>" (is "_ = ?d")
    using False by (simp add: resize_def dictMinBuckets_def)
  have rh: "rehashing ?d" by (simp add: rehashing_def)
  have "dict_rep ?d n0 B0 n (\<lambda>_. [])"
    using rep False newTable_rep[of n] assms(2) unfolding dict_rep_rehashing[OF rh] by (simp add: dict_rep_def)
  moreover have "tbl_ms n (\<lambda>_. []) = {#}" by (simp add: tbl_ms_def)
  ultimately show ?thesis unfolding r dict_ms_def using rep(2) rh
    by (intro exI[of _ n0] exI[of _ B0] exI[of _ n] exI[of _ "\<lambda>_. []"]) simp
qed (use assms in \<open>simp add: resize_def\<close>)

lemma growIfFull_rep: "dict_ms d M \<Longrightarrow> dict_ms (growIfFull d) M"
proof -
  assume d: "dict_ms d M"
  then obtain n0 B0 where "tbl_rep (d_tab0 d) n0 B0" "3 \<le> n0" by (auto simp: dict_ms_def dict_rep_def)
  then have "t_size (d_tab0 d) * 2 = 2 ^ Suc n0" "3 \<le> Suc n0" using tbl_rep_size[of "d_tab0 d" n0 B0] by auto
  then show ?thesis using resize_rep[OF d, of "Suc n0"] d by (simp add: growIfFull_def mult.commute)
qed

lemma shrinkIfSparse_rep: "dict_ms d M \<Longrightarrow> dict_ms (shrinkIfSparse d) M"
proof -
  assume d: "dict_ms d M"
  then obtain n0 B0 where r: "tbl_rep (d_tab0 d) n0 B0" "3 \<le> n0" by (auto simp: dict_ms_def dict_rep_def)
  have sz: "t_size (d_tab0 d) = 2 ^ n0" using tbl_rep_size[OF r(1)] .
  show ?thesis
  proof (cases "t_size (d_tab0 d) > dictMinBuckets")
    case True
    have "n0 \<noteq> 3" using True sz by (auto simp: dictMinBuckets_def)
    then have "3 \<le> n0 - 1" "t_size (d_tab0 d) div 2 = 2 ^ (n0 - 1)" using r(2) sz by (auto simp: power_diff)
    then show ?thesis using resize_rep[OF d, of "n0 - 1"] d by (simp add: shrinkIfSparse_def Let_def)
  qed (use d in \<open>simp add: shrinkIfSparse_def Let_def\<close>)
qed

subsection \<open>The dict as a map\<close>

definition rep_map :: "(bytes \<Rightarrow> 32 word) \<Rightarrow> 'v kv multiset \<Rightarrow> (bytes \<rightharpoonup> 'v) \<Rightarrow> bool" where
  "rep_map hf M m \<longleftrightarrow> finite (dom m) \<and> M = image_mset (\<lambda>k. (hf k, k, m k)) (mset_set (dom m))"

definition dict_map :: "(bytes \<Rightarrow> 32 word) \<Rightarrow> 'v dict \<Rightarrow> (bytes \<rightharpoonup> 'v) \<Rightarrow> bool" where
  "dict_map hf d m \<longleftrightarrow> (\<exists>M. dict_ms d M \<and> rep_map hf M m)"

lemma rep_map_mem: "rep_map hf M m \<Longrightarrow> kv \<in># M \<longleftrightarrow> (\<exists>k \<in> dom m. kv = (hf k, k, m k))"
  by (auto simp: rep_map_def)

lemma rep_map_new:
  assumes "rep_map hf M m" "k \<notin> dom m"
  shows "rep_map hf (add_mset (hf k, k, Some v) M) (m(k \<mapsto> v))"
proof -
  have "image_mset (\<lambda>j. (hf j, j, (m(k \<mapsto> v)) j)) (mset_set (dom m)) =
      image_mset (\<lambda>j. (hf j, j, m j)) (mset_set (dom m))"
    using assms by (intro image_mset_cong) (auto simp: rep_map_def)
  then show ?thesis using assms by (simp add: rep_map_def)
qed

lemma rep_map_del:
  assumes "rep_map hf M m" "k \<in> dom m"
  shows "rep_map hf (M - {#(hf k, k, m k)#}) (m(k := None))"
proof -
  have fin: "finite (dom m - {k})" and d: "dom m = insert k (dom m - {k})" using assms by (auto simp: rep_map_def)
  have "mset_set (dom m) = add_mset k (mset_set (dom m - {k}))"
    using fin d mset_set.insert[OF fin, of k] by auto
  moreover have "image_mset (\<lambda>j. (hf j, j, (m(k := None)) j)) (mset_set (dom m - {k})) =
      image_mset (\<lambda>j. (hf j, j, m j)) (mset_set (dom m - {k}))"
    using fin by (intro image_mset_cong) auto
  ultimately show ?thesis using assms by (simp add: rep_map_def)
qed

lemma rep_map_old:
  assumes "rep_map hf M m" "k \<in> dom m"
  shows "rep_map hf (add_mset (hf k, k, Some v) (M - {#(hf k, k, m k)#})) (m(k \<mapsto> v))"
  using rep_map_new[OF rep_map_del[OF assms], of k v] by simp

text \<open>In a bucket whose only possible match for a key is the entry \<open>x\<close>:\<close>

lemma kv_unique:
  assumes u: "\<And>kv. kv \<in> set kvs \<Longrightarrow> kv_match h k kv \<Longrightarrow> kv = x" and x: "kv_match h k x"
  shows "(kv_has h k kvs \<longleftrightarrow> x \<in> set kvs) \<and>
    kv_find h k kvs = (if x \<in> set kvs then snd (snd x) else None) \<and>
    mset (kv_put h k v kvs) = (if x \<in> set kvs then add_mset (h, k, Some v) (mset kvs - {#x#}) else mset kvs) \<and>
    mset (kv_del h k kvs) = mset kvs - {#x#}"
proof (cases "x \<in> set kvs")
  case True
  then obtain xs ys where s: "kvs = xs @ x # ys" "x \<notin> set xs" by (meson split_list_first)
  have "\<forall>kv \<in> set xs. \<not> kv_match h k kv"
  proof (intro ballI notI)
    fix kv assume kv: "kv \<in> set xs" "kv_match h k kv"
    then have "kv = x" using u[of kv] s(1) by simp
    then show False using kv(1) s(2) by blast
  qed
  note kv_split[OF s(1) this x]
  then show ?thesis using s True by simp
next
  case False
  then have "\<forall>kv \<in> set kvs. \<not> kv_match h k kv" using u by blast
  from kv_absent[OF this] show ?thesis using False by (simp add: diff_single_trivial)
qed

lemma table_key:
  assumes t: "tbl_rep t n B" and sub: "tbl_ms n B \<subseteq># M" and m: "rep_map hf M m"
    and b: "b = bucketOf t (hf k)"
  defines "x \<equiv> (hf k, k, m k)"
  shows "kv_has (hf k) k (B b) \<longleftrightarrow> x \<in># tbl_ms n B"
    "kv_find (hf k) k (B b) = (if x \<in># tbl_ms n B then m k else None)"
    "x \<in># tbl_ms n B \<Longrightarrow>
       tbl_ms n (B(b := kv_put (hf k) k v (B b))) = add_mset (hf k, k, Some v) (tbl_ms n B - {#x#})"
    "x \<in># tbl_ms n B \<Longrightarrow> tbl_ms n (B(b := kv_del (hf k) k (B b))) = tbl_ms n B - {#x#}"
    "x \<in># tbl_ms n B \<Longrightarrow> k \<in> dom m"
proof -
  have bl: "b < 2 ^ n" using tbl_rep_bucket[OF t] b by simp
  have mem: "x \<in># tbl_ms n B \<longleftrightarrow> x \<in> set (B b)" using tbl_ms_mem[OF t, of x] b by (simp add: x_def)
  have uniq: "kv = x" if "kv \<in> set (B b)" "kv_match (hf k) k kv" for kv
  proof -
    have "kv \<in># tbl_ms n B" using tbl_ms_mem[OF t, of kv] that b by (simp add: kv_match_def)
    then have "kv \<in># M" by (rule mset_subset_eqD[OF sub])
    then show ?thesis using rep_map_mem[OF m] that(2) by (auto simp: x_def)
  qed
  have xm: "kv_match (hf k) k x" by (simp add: x_def)
  note u = kv_unique[where v = v, OF uniq xm]
  show "kv_has (hf k) k (B b) \<longleftrightarrow> x \<in># tbl_ms n B" using u mem by simp
  show "kv_find (hf k) k (B b) = (if x \<in># tbl_ms n B then m k else None)" using u mem by (simp add: x_def)
  assume x: "x \<in># tbl_ms n B"
  then have "x \<in># M" by (rule mset_subset_eqD[OF sub])
  then show "k \<in> dom m" using rep_map_mem[OF m, of x] by (auto simp: x_def)
  have xb: "x \<in># mset (B b)" using x mem by simp
  obtain N where N: "mset (B b) = add_mset x N" using multi_member_split[OF xb] by blast
  obtain T where T: "tbl_ms n B = add_mset x T" using multi_member_split[OF x] by blast
  have "mset (kv_put (hf k) k v (B b)) = add_mset (hf k, k, Some v) N" using u x mem N by simp
  then show "tbl_ms n (B(b := kv_put (hf k) k v (B b))) = add_mset (hf k, k, Some v) (tbl_ms n B - {#x#})"
    using tbl_ms_upd[OF bl, of B "kv_put (hf k) k v (B b)"] N T by simp
  have "mset (kv_del (hf k) k (B b)) = N" using u N by simp
  then show "tbl_ms n (B(b := kv_del (hf k) k (B b))) = tbl_ms n B - {#x#}"
    using tbl_ms_upd[OF bl, of B "kv_del (hf k) k (B b)"] N T by simp
qed

lemma dict_repE:
  assumes "dict_ms d M"
  obtains n0 B0 n1 B1 where "dict_rep d n0 B0 n1 B1" "tbl_rep (d_tab0 d) n0 B0"
    "rehashing d \<longrightarrow> tbl_rep (d_tab1 d) n1 B1"
    "M = tbl_ms n0 B0 + (if rehashing d then tbl_ms n1 B1 else {#})"
  using assms by (auto simp: dict_ms_def dict_rep_def)

lemma rehashing_upd [simp]:
  "rehashing (d\<lparr>d_tab0 := t\<rparr>) = rehashing d" "rehashing (d\<lparr>d_tab1 := t\<rparr>) = rehashing d"
  by (simp_all add: rehashing_def)

text \<open>An update of a table that touches only the bucket of one hash keeps the dict well formed,
  unless it fills a bucket of the old table that the rehash has passed.\<close>

lemma dict_ms_tab0:
  assumes "dict_rep d n0 B0 n1 B1" "tbl_rep t n0 (B0(b := xs))" "B0 b = [] \<Longrightarrow> rehashing d \<Longrightarrow> xs = []"
  shows "dict_ms (d\<lparr>d_tab0 := t\<rparr>) (tbl_ms n0 (B0(b := xs)) + (if rehashing d then tbl_ms n1 B1 else {#}))"
proof -
  have "dict_rep (d\<lparr>d_tab0 := t\<rparr>) n0 (B0(b := xs)) n1 B1"
    using assms by (auto simp: dict_rep_def)
  then show ?thesis unfolding dict_ms_def by (auto simp: rehashing_def)
qed

lemma dict_ms_tab1:
  assumes "dict_rep d n0 B0 n1 B1" "rehashing d" "tbl_rep t n1 B"
  shows "dict_ms (d\<lparr>d_tab1 := t\<rparr>) (tbl_ms n0 B0 + tbl_ms n1 B)"
proof -
  have "dict_rep (d\<lparr>d_tab1 := t\<rparr>) n0 B0 n1 B"
    using assms by (auto simp: dict_rep_def)
  then show ?thesis unfolding dict_ms_def using assms(2) by (auto simp: rehashing_def)
qed

lemma newDict_map: "dict_map hf newDict Map.empty"
proof -
  have "dict_rep newDict 3 (\<lambda>_. []) 0 (\<lambda>_. [])"
    using newTable_rep[of 3] by (simp add: dict_rep_def newDict_def rehashing_def dictMinBuckets_def)
  then have "dict_ms newDict (tbl_ms 3 (\<lambda>_. []) + {#})"
    unfolding dict_ms_def by (force simp: newDict_def rehashing_def)
  then show ?thesis by (auto simp: dict_map_def rep_map_def tbl_ms_def)
qed

lemma d_get_map:
  assumes "dict_map hf d m"
  shows "d_get hf d k = Some (m k)" "d_getString hf d k = Some (m k)"
proof -
  obtain M where M: "dict_ms d M" "rep_map hf M m" using assms by (auto simp: dict_map_def)
  obtain n0 B0 n1 B1 where r: "tbl_rep (d_tab0 d) n0 B0" "rehashing d \<longrightarrow> tbl_rep (d_tab1 d) n1 B1"
    "M = tbl_ms n0 B0 + (if rehashing d then tbl_ms n1 B1 else {#})" using dict_repE[OF M(1)] by metis
  let ?x = "(hf k, k, m k)"
  have in0: "t_lookup (d_tab0 d) k (hf k) = Some (if ?x \<in># tbl_ms n0 B0 then m k else None)"
    using t_lookup_rep[OF r(1)] table_key(2)[OF r(1) _ M(2) refl, of k] r(3) by simp
  have in1: "t_lookup (d_tab1 d) k (hf k) = Some (if ?x \<in># tbl_ms n1 B1 then m k else None)" if "rehashing d"
    using t_lookup_rep[OF mp[OF r(2) that]] table_key(2)[OF mp[OF r(2) that] _ M(2) refl, of k] r(3) that by simp
  have dom: "k \<in> dom m \<longleftrightarrow> ?x \<in># M" using rep_map_mem[OF M(2), of ?x] by auto
  have eq: "t_lookupString (d_tab0 d) k h = t_lookup (d_tab0 d) k h"
    "rehashing d \<Longrightarrow> t_lookupString (d_tab1 d) k h = t_lookup (d_tab1 d) k h" for h
    using t_lookupString_rep r by blast+
  show g: "d_get hf d k = Some (m k)"
    using in0 in1 dom r(3) by (cases "m k") (auto simp: d_get_def getHashed_def split: if_splits)
  then show "d_getString hf d k = Some (m k)"
    using eq in0 in1 dom r(3) by (cases "m k") (auto simp: d_getString_def split: if_splits)
qed

lemma dict_insert_map:
  assumes "dict_ms d M" "rep_map hf M m" "k \<notin> dom m"
  shows "\<exists>d'. (if rehashing d then map_option (\<lambda>t. (d\<lparr>d_tab1 := t\<rparr>, True)) (t_insert (d_tab1 d) k (hf k) (Some v))
     else map_option (\<lambda>t. (d\<lparr>d_tab0 := t\<rparr>, True)) (t_insert (d_tab0 d) k (hf k) (Some v))) = Some (d', True) \<and>
     dict_map hf d' (m(k \<mapsto> v))"
proof -
  obtain n0 B0 n1 B1 where r: "dict_rep d n0 B0 n1 B1" "tbl_rep (d_tab0 d) n0 B0"
    "rehashing d \<longrightarrow> tbl_rep (d_tab1 d) n1 B1"
    "M = tbl_ms n0 B0 + (if rehashing d then tbl_ms n1 B1 else {#})" using dict_repE[OF assms(1)] .
  note new = rep_map_new[OF assms(2,3), of v]
  show ?thesis
  proof (cases "rehashing d")
    case True
    let ?b = "bucketOf (d_tab1 d) (hf k)" and ?kv = "(hf k, k, Some v)"
    obtain t where t: "t_insert (d_tab1 d) k (hf k) (Some v) = Some t" "tbl_rep t n1 (B1(?b := kv_add ?kv (B1 ?b)))"
      using t_insert_rep[OF mp[OF r(3) True] refl] by metis
    have "tbl_ms n1 (B1(?b := kv_add ?kv (B1 ?b))) = add_mset ?kv (tbl_ms n1 B1)"
      by (rule tbl_ms_add[OF tbl_rep_bucket[OF mp[OF r(3) True]]])
    then have "dict_ms (d\<lparr>d_tab1 := t\<rparr>) (add_mset ?kv M)"
      using dict_ms_tab1[OF r(1) True t(2)] r(4) True by simp
    then show ?thesis using True t(1) new by (auto simp: dict_map_def)
  next
    case False
    let ?b = "bucketOf (d_tab0 d) (hf k)" and ?kv = "(hf k, k, Some v)"
    obtain t where t: "t_insert (d_tab0 d) k (hf k) (Some v) = Some t" "tbl_rep t n0 (B0(?b := kv_add ?kv (B0 ?b)))"
      using t_insert_rep[OF r(2) refl] by metis
    have "tbl_ms n0 (B0(?b := kv_add ?kv (B0 ?b))) = add_mset ?kv (tbl_ms n0 B0)"
      by (rule tbl_ms_add[OF tbl_rep_bucket[OF r(2)]])
    then have "dict_ms (d\<lparr>d_tab0 := t\<rparr>) (add_mset ?kv M)"
      using dict_ms_tab0[OF r(1) t(2)] False r(4) by simp
    then show ?thesis using False t(1) new by (auto simp: dict_map_def)
  qed
qed

lemma kv_put_Nil [simp]: "kv_put h k v [] = []" by simp

lemma d_set_map:
  assumes "dict_map hf d m"
  shows "\<exists>d'. d_set hf d k v = Some (d', k \<notin> dom m) \<and> dict_map hf d' (m(k \<mapsto> v))"
proof -
  obtain M where "dict_ms d M" and m: "rep_map hf M m" using assms by (auto simp: dict_map_def)
  then obtain e where e: "d_step d = Some e" "dict_ms e M" using d_step_rep by blast
  obtain n0 B0 n1 B1 where r: "dict_rep e n0 B0 n1 B1" "tbl_rep (d_tab0 e) n0 B0"
    "rehashing e \<longrightarrow> tbl_rep (d_tab1 e) n1 B1"
    "M = tbl_ms n0 B0 + (if rehashing e then tbl_ms n1 B1 else {#})" using dict_repE[OF e(2)] .
  let ?x = "(hf k, k, m k)" and ?kv = "(hf k, k, Some v)"
  have sub0: "tbl_ms n0 B0 \<subseteq># M" using r(4) by simp
  note k0 = table_key[OF r(2) sub0 m refl, of k]
  let ?b0 = "bucketOf (d_tab0 e) (hf k)"
  obtain t0 where t0: "t_replace (d_tab0 e) k (hf k) v = Some (t0, kv_has (hf k) k (B0 ?b0))"
    "tbl_rep t0 n0 (B0(?b0 := kv_put (hf k) k v (B0 ?b0)))" using t_replace_rep[OF r(2) refl] by metis
  show ?thesis
  proof (cases "?x \<in># tbl_ms n0 B0")
    case True
    have "dict_ms (e\<lparr>d_tab0 := t0\<rparr>) (add_mset ?kv (M - {#?x#}))"
      using dict_ms_tab0[OF r(1) t0(2)] k0(3)[OF True] r(4) True by simp
    then have "dict_map hf (e\<lparr>d_tab0 := t0\<rparr>) (m(k \<mapsto> v))"
      using rep_map_old[OF m k0(5)[OF True]] by (auto simp: dict_map_def)
    then show ?thesis using e(1) t0(1) k0(1) k0(5)[OF True] True
      by (auto simp: d_set_def setHashed_def)
  next
    case no0: False
    show ?thesis
    proof (cases "rehashing e \<and> ?x \<in># tbl_ms n1 B1")
      case True
      then have rh: "rehashing e" and x1: "?x \<in># tbl_ms n1 B1" by auto
      have sub1: "tbl_ms n1 B1 \<subseteq># M" using r(4) rh by simp
      note k1 = table_key[OF mp[OF r(3) rh] sub1 m refl, of k]
      let ?b1 = "bucketOf (d_tab1 e) (hf k)"
      obtain t1 where t1: "t_replace (d_tab1 e) k (hf k) v = Some (t1, kv_has (hf k) k (B1 ?b1))"
        "tbl_rep t1 n1 (B1(?b1 := kv_put (hf k) k v (B1 ?b1)))" using t_replace_rep[OF mp[OF r(3) rh] refl] by metis
      have "dict_ms (e\<lparr>d_tab1 := t1\<rparr>) (add_mset ?kv (M - {#?x#}))"
        using dict_ms_tab1[OF r(1) rh t1(2)] k1(3)[OF x1] r(4) rh x1 by simp
      then have "dict_map hf (e\<lparr>d_tab1 := t1\<rparr>) (m(k \<mapsto> v))"
        using rep_map_old[OF m k1(5)[OF x1]] by (auto simp: dict_map_def)
      then show ?thesis using e(1) t0(1) k0(1) no0 t1(1) k1(1) k1(5)[OF x1] x1 rh
        by (auto simp: d_set_def setHashed_def)
    next
      case no1: False
      then have new: "k \<notin> dom m"
        using no0 r(4) rep_map_mem[OF m, of ?x] by (auto split: if_splits)
      have miss1: "\<exists>t1. (if rehashing e then t_replace (d_tab1 e) k (hf k) v else Some (d_tab1 e, False)) = Some (t1, False)"
      proof (cases "rehashing e")
        case True
        have sub1: "tbl_ms n1 B1 \<subseteq># M" using r(4) True by simp
        show ?thesis using table_key(1)[OF mp[OF r(3) True] sub1 m refl, of k] no1 True
          by (metis (mono_tags, lifting) t_replace_rep[OF mp[OF r(3) True] refl])
      qed simp
      then show ?thesis
        using dict_insert_map[OF growIfFull_rep[OF e(2)] m new, of v] e(1) t0(1) k0(1) no0 new
        by (auto simp: d_set_def setHashed_def Let_def)
    qed
  qed
qed

lemma kv_del_Nil_iff: "kv_has h k kvs \<or> kvs = [] \<or> kv_del h k kvs = kvs"
  by (induction kvs) auto

lemma d_delete_map:
  assumes "dict_map hf d m"
  shows "\<exists>d'. d_delete hf d k = Some (d', k \<in> dom m) \<and> dict_map hf d' (m(k := None))"
proof -
  obtain M where "dict_ms d M" and m: "rep_map hf M m" using assms by (auto simp: dict_map_def)
  then obtain e where e: "d_step d = Some e" "dict_ms e M" using d_step_rep by blast
  obtain n0 B0 n1 B1 where r: "dict_rep e n0 B0 n1 B1" "tbl_rep (d_tab0 e) n0 B0"
    "rehashing e \<longrightarrow> tbl_rep (d_tab1 e) n1 B1"
    "M = tbl_ms n0 B0 + (if rehashing e then tbl_ms n1 B1 else {#})" using dict_repE[OF e(2)] .
  let ?x = "(hf k, k, m k)" and ?b0 = "bucketOf (d_tab0 e) (hf k)"
  have sub0: "tbl_ms n0 B0 \<subseteq># M" using r(4) by simp
  note k0 = table_key[OF r(2) sub0 m refl, of k]
  obtain t0 where t0: "t_remove (d_tab0 e) k (hf k) = Some (t0, kv_has (hf k) k (B0 ?b0))"
    "tbl_rep t0 n0 (B0(?b0 := kv_del (hf k) k (B0 ?b0)))" using t_remove_rep[OF r(2) refl] by metis
  show ?thesis
  proof (cases "?x \<in># tbl_ms n0 B0")
    case True
    have "dict_ms (e\<lparr>d_tab0 := t0\<rparr>) (M - {#?x#})"
      using dict_ms_tab0[OF r(1) t0(2)] k0(4)[OF True] r(4) True by simp
    then have "dict_map hf (shrinkIfSparse (e\<lparr>d_tab0 := t0\<rparr>)) (m(k := None))"
      using rep_map_del[OF m k0(5)[OF True]] shrinkIfSparse_rep by (auto simp: dict_map_def)
    then show ?thesis using e(1) t0(1) k0(1) k0(5)[OF True] True
      by (auto simp: d_delete_def deleteHashed_def)
  next
    case no0: False
    show ?thesis
    proof (cases "rehashing e")
      case rh: True
      have sub1: "tbl_ms n1 B1 \<subseteq># M" using r(4) rh by simp
      note k1 = table_key[OF mp[OF r(3) rh] sub1 m refl, of k]
      let ?b1 = "bucketOf (d_tab1 e) (hf k)"
      obtain t1 where t1: "t_remove (d_tab1 e) k (hf k) = Some (t1, kv_has (hf k) k (B1 ?b1))"
        "tbl_rep t1 n1 (B1(?b1 := kv_del (hf k) k (B1 ?b1)))" using t_remove_rep[OF mp[OF r(3) rh] refl] by metis
      show ?thesis
      proof (cases "?x \<in># tbl_ms n1 B1")
        case True
        have "dict_ms (e\<lparr>d_tab1 := t1\<rparr>) (M - {#?x#})"
          using dict_ms_tab1[OF r(1) rh t1(2)] k1(4)[OF True] r(4) rh True by simp
        then have "dict_map hf (shrinkIfSparse (e\<lparr>d_tab1 := t1\<rparr>)) (m(k := None))"
          using rep_map_del[OF m k1(5)[OF True]] shrinkIfSparse_rep by (auto simp: dict_map_def)
        then show ?thesis using e(1) t0(1) k0(1) no0 t1(1) k1(1) k1(5)[OF True] True rh
          by (auto simp: d_delete_def deleteHashed_def)
      next
        case False
        then have new: "k \<notin> dom m" using no0 r(4) rh rep_map_mem[OF m, of ?x] by auto
        have "m(k := None) = m" using new by (auto simp: fun_upd_idem)
        moreover have "d_delete hf d k = Some (e, False)"
          using e(1) t0(1) k0(1) no0 t1(1) k1(1) False rh by (simp add: d_delete_def deleteHashed_def)
        ultimately show ?thesis using new e(2) m by (auto simp: dict_map_def)
      qed
    next
      case False
      then have new: "k \<notin> dom m" using no0 r(4) rep_map_mem[OF m, of ?x] by auto
      have "m(k := None) = m" using new by (auto simp: fun_upd_idem)
      moreover have "d_delete hf d k = Some (e, False)"
        using e(1) t0(1) k0(1) no0 False by (simp add: d_delete_def deleteHashed_def)
      ultimately show ?thesis using new e(2) m by (auto simp: dict_map_def)
    qed
  qed
qed

lemma d_len_map:
  assumes "dict_map hf d m"
  shows "d_len d = int (card (dom m))" "finite (dom m)"
proof -
  obtain M where M: "dict_ms d M" "rep_map hf M m" using assms by (auto simp: dict_map_def)
  obtain n0 B0 n1 B1 where r: "tbl_rep (d_tab0 d) n0 B0" "rehashing d \<longrightarrow> tbl_rep (d_tab1 d) n1 B1"
    "M = tbl_ms n0 B0 + (if rehashing d then tbl_ms n1 B1 else {#})" using dict_repE[OF M(1)] by metis
  then have "d_len d = int (size M)" by (auto simp: d_len_def tbl_rep_def)
  then show "d_len d = int (card (dom m))" "finite (dom m)" using M(2) by (auto simp: rep_map_def)
qed

lemma rehashBuckets_map:
  "dict_map hf d m \<Longrightarrow> \<exists>d' more. rehashBuckets d n = Some (d', more) \<and> dict_map hf d' m"
  using rehashBuckets_rep by (fastforce simp: dict_map_def)

subsection \<open>Walking the whole dict\<close>

lemma sum_mset_distinct:
  assumes "\<And>b. b < n \<Longrightarrow> distinct (C b)"
    and "\<And>b c. b < n \<Longrightarrow> c < n \<Longrightarrow> b \<noteq> c \<Longrightarrow> set (C b) \<inter> set (C c) = {}"
  shows "(\<Sum>b < n. mset (C b)) = mset_set (\<Union>b < (n::nat). set (C b))"
  using assms
proof (induction n)
  case (Suc n)
  have "(\<Union>b < n. set (C b)) \<inter> set (C n) = {}" 
  proof -
    have "set (C b) \<inter> set (C n) = {}" if "b < n" for b using Suc.prems(2)[of b n] that by simp
    then show ?thesis by blast
  qed
  then have "mset_set ((\<Union>b < n. set (C b)) \<union> set (C n)) = mset_set (\<Union>b < n. set (C b)) + mset_set (set (C n))"
    by (intro mset_set_Union) auto
  moreover have "mset (C n) = mset_set (set (C n))" using Suc.prems(1)[of n] by (simp add: mset_set_set)
  ultimately show ?case using Suc by (simp add: lessThan_Suc Un_commute)
qed simp

lemma image_mset_sum_lessThan: "(\<Sum>b < (n::nat). image_mset f (X b)) = image_mset f (\<Sum>b < n. X b)"
  by (induction n) auto

lemma image_mset_nth: "image_mset (\<lambda>j. f (xs ! j)) (mset_set {..<length xs}) = image_mset f (mset xs)"
proof -
  have "map (\<lambda>j. f (xs ! j)) [0..<length xs] = map f xs" by (rule nth_equalityI) auto
  then show ?thesis by (metis mset_map mset_set_upto_eq_mset_upto)
qed

lemma t_entries_ms:
  assumes "tbl_rep t n B"
  shows "mset (map en_kv (t_entries t)) = tbl_ms n B"
proof -
  obtain C where inv: "tab_inv {} t B C" using assms by (auto simp: tbl_rep_def)
  have sz: "t_size t = 2 ^ n" using tbl_rep_size[OF assms] .
  have bk: "mset (B b) = (if en_next (t_heads t ! b) = noHead then {#} else {#en_kv (t_heads t ! b)#}) +
      image_mset (\<lambda>j. en_kv (t_over t ! j)) (mset (C b))" if "b < 2 ^ n" for b
    using tab_invD(1,2)[OF inv, of b] that sz by (auto simp: bucket_kvs_def bucket_chain_def)
  have "(\<Sum>b < 2 ^ n. mset (C b)) = mset_set {..<length (t_over t)}"
    using sum_mset_distinct[of "2 ^ n" C] tab_invD(4,7)[OF inv] tab_inv_cover[OF inv] sz by simp
  then have over: "(\<Sum>b < 2 ^ n. image_mset (\<lambda>j. en_kv (t_over t ! j)) (mset (C b))) = image_mset en_kv (mset (t_over t))"
    using image_mset_sum_lessThan[of "\<lambda>j. en_kv (t_over t ! j)" "\<lambda>b. mset (C b)"] image_mset_nth[of en_kv "t_over t"]
    by simp
  have hs: "(\<Sum>b < length hs. if P (hs ! b) then {#} else {#f (hs ! b)#}) = image_mset f (mset (filter (\<lambda>e. \<not> P e) hs))"
    for hs :: "'a entry list" and P and f :: "'a entry \<Rightarrow> 'a kv"
  proof -
    have "(\<Sum>b < length hs. if P (hs ! b) then {#} else {#f (hs ! b)#}) =
        sum_list (map (\<lambda>e. if P e then {#} else {#f e#}) hs)"
      by (simp add: sum_list_sum_nth atLeast0LessThan)
    also have "\<dots> = image_mset f (mset (filter (\<lambda>e. \<not> P e) hs))" by (induction hs) auto
    finally show ?thesis .
  qed
  have "tbl_ms n B = (\<Sum>b < 2 ^ n. if en_next (t_heads t ! b) = noHead then {#} else {#en_kv (t_heads t ! b)#}) +
      image_mset en_kv (mset (t_over t))"
    unfolding tbl_ms_def using bk over by (simp add: sum.distrib)
  also have "\<dots> = mset (map en_kv (t_entries t))"
    using hs[where P = "\<lambda>e. en_next e = noHead" and f = en_kv and hs = "t_heads t"] sz
    by (simp add: t_entries_def t_size_def)
  finally show ?thesis by simp
qed

lemma d_forEach_map:
  assumes "dict_map hf d m"
  shows "mset (d_forEach d) = image_mset (\<lambda>k. (k, m k)) (mset_set (dom m))"
proof -
  obtain M where M: "dict_ms d M" "rep_map hf M m" using assms by (auto simp: dict_map_def)
  obtain n0 B0 n1 B1 where r: "tbl_rep (d_tab0 d) n0 B0" "rehashing d \<longrightarrow> tbl_rep (d_tab1 d) n1 B1"
    "M = tbl_ms n0 B0 + (if rehashing d then tbl_ms n1 B1 else {#})" using dict_repE[OF M(1)] by metis
  have "M = image_mset en_kv (mset (t_entries (d_tab0 d) @ (if rehashing d then t_entries (d_tab1 d) else [])))"
    using t_entries_ms[OF r(1)] t_entries_ms[of "d_tab1 d" n1 B1] r(2,3) by auto
  moreover have "(\<lambda>e. (en_key e, en_val e)) = snd \<circ> (en_kv :: 'a entry \<Rightarrow> _)" by (auto simp: en_kv_def)
  ultimately have "mset (d_forEach d) = image_mset snd M"
    by (simp add: d_forEach_def multiset.map_comp)
  then show ?thesis using M(2) by (simp add: rep_map_def multiset.map_comp comp_def)
qed

lemma d_forEach_entries:
  assumes "dict_map hf d m"
  shows "distinct (map fst (d_forEach d))" "set (d_forEach d) = (\<lambda>k. (k, m k)) ` dom m"
proof -
  note fin = d_len_map(2)[OF assms] and e = d_forEach_map[OF assms]
  have "mset (map fst (d_forEach d)) = mset_set (dom m)"
    using arg_cong[OF e, of "image_mset fst"] by (simp add: multiset.map_comp comp_def)
  then show "distinct (map fst (d_forEach d))" using fin by (metis distinct_count_atmost_1 count_mset_set(1,3) mset_set_set_mset_msubset mset_eq_setD finite_set_mset_mset_set set_mset_mset)
  show "set (d_forEach d) = (\<lambda>k. (k, m k)) ` dom m" using arg_cong[OF e, of set_mset] fin by simp
qed

subsection \<open>The store interface\<close>

text \<open>
  What the keyspace and the collections rely on: a store that behaves as a finite map under
  any sequence of reads, writes, deletes and background maintenance.
\<close>

datatype ('k, 'v) store_op = OpGet 'k | OpSet 'k 'v | OpDelete 'k | OpLen | OpMaintain int

datatype 'v store_reply = RValue "'v option" | RChanged bool | RSize int | RNone

fun map_step :: "('k, 'v) store_op \<Rightarrow> ('k \<rightharpoonup> 'v) \<Rightarrow> ('k \<rightharpoonup> 'v) \<times> 'v store_reply" where
  "map_step (OpGet k) m = (m, RValue (m k))"
| "map_step (OpSet k v) m = (m(k \<mapsto> v), RChanged (m k = None))"
| "map_step (OpDelete k) m = (m(k := None), RChanged (m k \<noteq> None))"
| "map_step OpLen m = (m, RSize (int (card (dom m))))"
| "map_step (OpMaintain n) m = (m, RNone)"

text \<open>The contract: a simulation of \<open>map_step\<close> that starts from the empty map.\<close>

locale kv_store = simulation rep new Map.empty "\<lambda>_. True" step map_step
  for rep :: "'s \<Rightarrow> ('k \<rightharpoonup> 'v) \<Rightarrow> bool"
    and new :: 's
    and step :: "('k, 'v) store_op \<Rightarrow> 's \<Rightarrow> ('s \<times> 'v store_reply) go"
begin

text \<open>A read after a write sees it, at the same key and at every other.\<close>

lemma get_after_set:
  assumes "rep s m"
  shows "\<exists>s' s''. step (OpSet k v) s = Some (s', RChanged (m k = None)) \<and>
    step (OpGet j) s' = Some (s'', RValue (if j = k then Some v else m j))"
proof -
  obtain s' where s': "step (OpSet k v) s = Some (s', RChanged (m k = None))" "rep s' (m(k \<mapsto> v))"
    using step_rep[OF assms, of "OpSet k v"] by auto
  then show ?thesis using step_rep[OF s'(2), of "OpGet j"] by auto
qed

lemma get_after_delete:
  assumes "rep s m"
  shows "\<exists>s' s''. step (OpDelete k) s = Some (s', RChanged (m k \<noteq> None)) \<and>
    step (OpGet j) s' = Some (s'', RValue (if j = k then None else m j))"
proof -
  obtain s' where s': "step (OpDelete k) s = Some (s', RChanged (m k \<noteq> None))" "rep s' (m(k := None))"
    using step_rep[OF assms, of "OpDelete k"] by auto
  then show ?thesis using step_rep[OF s'(2), of "OpGet j"] by auto
qed

end

text \<open>One operation of a client on the dict; maintenance is a call of \<open>rehashBuckets\<close>.\<close>

fun dict_step :: "(bytes \<Rightarrow> 32 word) \<Rightarrow> (bytes, 'v) store_op \<Rightarrow> 'v dict \<Rightarrow> ('v dict \<times> 'v store_reply) go" where
  "dict_step hf (OpGet k) d = map_option (\<lambda>v. (d, RValue v)) (d_get hf d k)"
| "dict_step hf (OpSet k v) d = map_option (\<lambda>(d', b). (d', RChanged b)) (d_set hf d k v)"
| "dict_step hf (OpDelete k) d = map_option (\<lambda>(d', b). (d', RChanged b)) (d_delete hf d k)"
| "dict_step hf OpLen d = Some (d, RSize (d_len d))"
| "dict_step hf (OpMaintain n) d = map_option (\<lambda>(d', b). (d', RNone)) (rehashBuckets d n)"

interpretation dict: kv_store "dict_map hf" newDict "dict_step hf" for hf :: "bytes \<Rightarrow> 32 word"
proof unfold_locales
  show "dict_map hf newDict Map.empty" by (rule newDict_map)
  fix d :: "'a dict" and m op
  assume d: "dict_map hf d m"
  show "\<exists>s'. dict_step hf op d = Some (s', snd (map_step op m)) \<and> dict_map hf s' (fst (map_step op m))"
  proof (cases op)
    case (OpGet k)
    then show ?thesis using d d_get_map(1)[OF d] by simp
  next
    case (OpSet k v)
    then show ?thesis using d_set_map[OF d, of k v] by (auto simp: domIff)
  next
    case (OpDelete k)
    then show ?thesis using d_delete_map[OF d, of k] by (auto simp: domIff)
  next
    case OpLen
    then show ?thesis using d d_len_map(1)[OF d] by simp
  next
    case (OpMaintain n)
    then show ?thesis using rehashBuckets_map[OF d, of n] by auto
  qed
qed

subsection \<open>Properties\<close>

text \<open>C1: Whatever sequence of reads, writes, deletes, length queries and background rehash steps
  a client runs on a new dict, and whatever the hash function is (all keys colliding included),
  no operation panics, every chain walk ends, and the replies are exactly those of a finite map.
  Growing, shrinking and the incremental rehash are invisible.\<close>

theorem dict_refines_map:
  "\<exists>d. go_run (dict_step hf) ops newDict = Some (d, snd (spec_run map_step ops Map.empty)) \<and>
       dict_map hf d (fst (spec_run map_step ops Map.empty))"
  by (rule dict.run_new) (simp add: list_all_iff)

lemma resize_map: "dict_map hf d m \<Longrightarrow> 3 \<le> n \<Longrightarrow> dict_map hf (fst (resize d (2 ^ n))) m"
  using resize_rep by (auto simp: dict_map_def)

lemma rehash_steps:
  assumes "dict_map hf d m" "int (t_size (d_tab0 d)) - d_rehashAt d < int n" "0 < n"
  shows "\<exists>d'. ((\<lambda>e. Option.bind e d_step) ^^ n) (Some d) = Some d' \<and> \<not> rehashing d' \<and> dict_map hf d' m"
  using assms
proof (induction n arbitrary: d)
  case (Suc n)
  obtain M where M: "dict_ms d M" "rep_map hf M m" using Suc.prems(1) by (auto simp: dict_map_def)
  have pull: "((\<lambda>e. Option.bind e d_step) ^^ Suc n) (Some d) = ((\<lambda>e. Option.bind e d_step) ^^ n) (d_step d)"
    by (simp only: funpow_Suc_right comp_apply Option.bind.bind_lunit)
  have stay: "((\<lambda>e. Option.bind e d_step) ^^ j) (Some e) = Some e" if "\<not> rehashing e" for e :: "'a dict" and j
    using that by (induction j) (auto simp: d_step_def)
  obtain d' more where r: "rehashBuckets d 1 = Some (d', more)" "dict_ms d' M" "rehashing d' = more"
    "more \<and> d_rehashAt d < int (t_size (d_tab0 d)) \<longrightarrow>
       t_size (d_tab0 d') = t_size (d_tab0 d) \<and> d_rehashAt d < d_rehashAt d'"
    using rehashBuckets_rep[OF M(1), of 1] by auto
  have m': "dict_map hf d' m" using r(2) M(2) by (auto simp: dict_map_def)
  show ?case
  proof (cases "rehashing d \<and> more")
    case False
    then have "d_step d = Some (if rehashing d then d' else d)" using r(1) by (simp add: d_step_def)
    then show ?thesis using False pull stay r(3) m' Suc.prems(1) by (auto split: if_splits)
  next
    case True
    have lt: "d_rehashAt d < int (t_size (d_tab0 d))"
    proof (rule ccontr)
      assume ge: "\<not> ?thesis"
      then have "rehash_loop (Suc (t_size (d_tab0 d))) d 1 10 = Some (Inr d)" by simp
      then show False using True r(1) ge by (simp add: rehashBuckets_def del: rehash_loop.simps)
    qed
    then have "int (t_size (d_tab0 d')) - d_rehashAt d' < int n" using r(4) True Suc.prems(2) by auto
    moreover have "0 < n"
    proof (cases n)
      case 0
      then show ?thesis using lt Suc.prems(2) by simp
    qed simp
    moreover have "d_step d = Some d'" using r(1) True by (simp add: d_step_def)
    ultimately show ?thesis using Suc.IH[OF m'] unfolding pull by simp
  qed
qed simp

text \<open>An incremental rehash that has begun finishes: two steps more than the old table has
  buckets always end it, with the same contents.\<close>

theorem rehash_finishes:
  assumes "dict_map hf d m"
  shows "\<exists>d'. ((\<lambda>e. Option.bind e d_step) ^^ (t_size (d_tab0 d) + 2)) (Some d) = Some d' \<and>
    \<not> rehashing d' \<and> dict_map hf d' m"
proof -
  have "d_rehashAt d \<ge> -1" using assms by (auto simp: dict_map_def dict_ms_def dict_rep_def rehashing_def split: if_splits)
  then show ?thesis by (intro rehash_steps[OF assms]) auto
qed

theorem rehash_finishes_witness:
  "rehashing (fst (resize (newDict :: nat dict) 16)) \<and>
   (\<exists>d'. ((\<lambda>e. Option.bind e d_step) ^^ (t_size (d_tab0 (fst (resize (newDict :: nat dict) 16))) + 2))
      (Some (fst (resize newDict 16))) = Some d' \<and>
    \<not> rehashing d' \<and> dict_map (\<lambda>_. 0) d' (Map.empty :: bytes \<rightharpoonup> nat))"
proof -
  have "\<exists>d'. ((\<lambda>e. Option.bind e d_step) ^^ (t_size (d_tab0 (fst (resize (newDict :: nat dict) (2 ^ 4)))) + 2))
      (Some (fst (resize newDict (2 ^ 4)))) = Some d' \<and>
    \<not> rehashing d' \<and> dict_map (\<lambda>_. 0) d' (Map.empty :: bytes \<rightharpoonup> nat)"
    by (rule rehash_finishes[OF resize_map[OF newDict_map]]) simp
  moreover have "rehashing (fst (resize (newDict :: nat dict) 16))"
    by (simp add: rehashing_def resize_def newDict_def)
  ultimately show ?thesis by (simp only: power_numeral pow.simps sqr.simps num.simps numeral_times_numeral mult_num_simps simp_thms)
qed

end
