(* ===== verification/Dict_Scan.thy ===== *)
theory Dict_Scan
  imports Dict_Map
begin

unbundle bit_operations_syntax

text \<open>
  The cursor scan of \<open>engine/dict.go\<close>. A cursor is a bucket index counted with its bits
  reversed. The theory measures a cursor and a hash by their reversed value, the position:
  a call of \<open>scan\<close> emits every entry whose position lies between the cursor it was
  given and the one it returns, whatever the table sizes are and whether or not a rehash is
  running, which is why an entry that stays in the dict is never missed.
\<close>

subsection \<open>Reversed cursors\<close>

definition Reverse64 :: "64 word \<Rightarrow> 64 word" where
  "Reverse64 v = horner_sum of_bool 2 (map (\<lambda>i. bit v (63 - i)) [0..<64])"

definition nextCursor :: "64 word \<Rightarrow> 64 word \<Rightarrow> 64 word" where
  "nextCursor v0 m =
     (let v = v0 OR NOT m; v = Reverse64 v; v = v + 1; v = Reverse64 v in v AND m)"

subsection \<open>Visiting a bucket\<close>

fun over_walk :: "nat \<Rightarrow> 'v entry list \<Rightarrow> int \<Rightarrow> (bytes \<times> 'v option) list go" where
  "over_walk 0 ov e = None"
| "over_walk (Suc fuel) ov e =
     (if e = noEntry then Some []
      else do {
        en \<leftarrow> go_nth ov e;
        rest \<leftarrow> over_walk fuel ov (en_next en);
        Some ((en_key en, en_val en) # rest)
      })"

definition t_visit :: "'v tbl \<Rightarrow> 32 word \<Rightarrow> (bytes \<times> 'v option) list go" where
  "t_visit t b =
     (if length (t_heads t) = 0 then Some []
      else do {
        h \<leftarrow> go_nth (t_heads t) (int (unat b));
        if en_next h = noHead then Some []
        else do {
          rest \<leftarrow> over_walk (Suc (length (t_over t))) (t_over t) (en_next h);
          Some ((en_key h, en_val h) # rest)
        }
      })"

subsection \<open>Scan\<close>

text \<open>The loop over the larger table: the fuel is its number of buckets.\<close>

fun scan_large :: "nat \<Rightarrow> 'v tbl \<Rightarrow> 64 word \<Rightarrow> 64 word \<Rightarrow> 64 word \<Rightarrow> ((bytes \<times> 'v option) list \<times> 64 word) go" where
  "scan_large 0 large m0 m1 cursor = None"
| "scan_large (Suc fuel) large m0 m1 cursor =
     do {
       es \<leftarrow> t_visit large (ucast (cursor AND m1));
       let cursor' = nextCursor cursor m1;
       if cursor' AND (m0 XOR m1) = 0 then Some (es, cursor')
       else do {
         (es', c) \<leftarrow> scan_large fuel large m0 m1 cursor';
         Some (es @ es', c)
       }
     }"

definition d_scan :: "'v dict \<Rightarrow> 64 word \<Rightarrow> ((bytes \<times> 'v option) list \<times> 64 word) go" where
  "d_scan d cursor =
     (if d_len d = 0 then Some ([], 0)
      else if \<not> rehashing d then
        (let t = d_tab0 d; m = ucast (t_mask t)
         in do {
           es \<leftarrow> t_visit t (ucast (cursor AND m));
           Some (es, nextCursor cursor m)
         })
      else
        (let (small, large) =
           (if t_size (d_tab0 d) > t_size (d_tab1 d) then (d_tab1 d, d_tab0 d) else (d_tab0 d, d_tab1 d));
             m0 = ucast (t_mask small); m1 = ucast (t_mask large)
         in do {
           es \<leftarrow> t_visit small (ucast (cursor AND m0));
           (es', c) \<leftarrow> scan_large (t_size large) large m0 m1 cursor;
           Some (es @ es', c AND m1)
         }))"

text \<open>
  \<open>scanCount\<close>: the callback reports which entries it kept. The loop is bounded by its
  budget; \<open>emitted\<close> counts the entries kept.
\<close>

definition scanBudget :: "int \<Rightarrow> int" where
  "scanBudget cnt = (if cnt \<ge> 2 ^ 40 div 10 then 2 ^ 40 else cnt * 10)"

fun scan_loop ::
  "nat \<Rightarrow> 'v dict \<Rightarrow> (bytes \<Rightarrow> 'v option \<Rightarrow> bool) \<Rightarrow> int \<Rightarrow> int \<Rightarrow> 64 word \<Rightarrow>
   ((bytes \<times> 'v option) list \<times> 64 word) go" where
  "scan_loop 0 d keep cnt emitted cursor = Some ([], cursor)"
| "scan_loop (Suc budget) d keep cnt emitted cursor =
     do {
       (es, cursor') \<leftarrow> d_scan d cursor;
       let kept = filter (\<lambda>(k, v). keep k v) es;
       let emitted' = emitted + int (length kept);
       if cursor' = 0 \<or> emitted' \<ge> cnt then Some (kept, cursor')
       else do {
         (es', c) \<leftarrow> scan_loop budget d keep cnt emitted' cursor';
         Some (kept @ es', c)
       }
     }"

definition scanCount ::
  "'v dict \<Rightarrow> 64 word \<Rightarrow> int \<Rightarrow> (bytes \<Rightarrow> 'v option \<Rightarrow> bool) \<Rightarrow> ((bytes \<times> 'v option) list \<times> 64 word) go" where
  "scanCount d cursor cnt keep = scan_loop (nat (scanBudget cnt)) d keep cnt 0 cursor"

subsection \<open>Positions\<close>

definition pos :: "64 word \<Rightarrow> nat" where
  "pos v = unat (Reverse64 v)"

abbreviation hpos :: "32 word \<Rightarrow> nat" where
  "hpos h \<equiv> pos (ucast h)"

lemma bit_Reverse64: "bit (Reverse64 v) i \<longleftrightarrow> i < 64 \<and> bit v (63 - i)"
  by (auto simp: Reverse64_def bit_horner_sum_bit_word_iff)

lemma Reverse64_Reverse64 [simp]: "Reverse64 (Reverse64 v) = v"
  by (rule bit_word_eqI) (auto simp: bit_Reverse64)

lemma Reverse64_or_not_mask: "k \<le> 64 \<Longrightarrow> Reverse64 (v OR NOT (mask k)) = Reverse64 v OR mask (64 - k)"
  by (rule bit_word_eqI) (auto simp: bit_Reverse64 bit_or_iff bit_not_iff bit_mask_iff)

lemma Reverse64_and_mask: "k \<le> 64 \<Longrightarrow> Reverse64 (v AND mask k) = Reverse64 v AND NOT (mask (64 - k))"
  by (rule bit_word_eqI) (auto simp: bit_Reverse64 bit_and_iff bit_not_iff bit_mask_iff)

lemma pos_0 [simp]: "pos 0 = 0"
proof -
  have "Reverse64 0 = 0" by (rule bit_word_eqI) (simp add: bit_Reverse64)
  then show ?thesis by (simp add: pos_def)
qed

lemma pos_inj: "pos a = pos b \<Longrightarrow> a = b"
  unfolding pos_def by (metis Reverse64_Reverse64 word_unat_eq_iff)

lemma pos_eq_0_iff [simp]: "pos a = 0 \<longleftrightarrow> a = 0"
  using pos_inj[of a 0] by auto

lemma pos_lt: "pos a < 2 ^ 64"
  unfolding pos_def using unsigned_less[of "Reverse64 a"] by simp

text \<open>The buckets of a table of \<open>2 ^ k\<close> are the blocks of \<open>2 ^ (64 - k)\<close> positions.\<close>

lemma pos_block:
  assumes "k \<le> 64"
  shows "pos a div 2 ^ (64 - k) = pos b div 2 ^ (64 - k) \<longleftrightarrow> a AND mask k = b AND mask k"
proof -
  have d: "pos v div 2 ^ (64 - k) = unat (drop_bit (64 - k) (Reverse64 v))" for v
    using pos_lt[of v]
    by (simp only: pos_def unsigned_drop_bit_eq) (simp add: drop_bit_eq_div take_bit_nat_eq_self)
  have "drop_bit (64 - k) (Reverse64 a) = drop_bit (64 - k) (Reverse64 b) \<longleftrightarrow> take_bit k a = take_bit k b"
  proof
    assume e: "drop_bit (64 - k) (Reverse64 a) = drop_bit (64 - k) (Reverse64 b)"
    show "take_bit k a = take_bit k b"
    proof (rule bit_word_eqI)
      fix i assume i: "i < LENGTH(64)"
      show "bit (take_bit k a) i = bit (take_bit k b) i"
      proof (cases "i < k")
        case True
        then have "bit (drop_bit (64 - k) (Reverse64 v)) (k - 1 - i) = bit v i" for v
          using assms by (auto simp: bit_drop_bit_eq bit_Reverse64)
        then show ?thesis using e True by (simp add: bit_take_bit_iff) metis
      qed (simp add: bit_take_bit_iff)
    qed
  next
    assume e: "take_bit k a = take_bit k b"
    show "drop_bit (64 - k) (Reverse64 a) = drop_bit (64 - k) (Reverse64 b)"
    proof (rule bit_word_eqI)
      fix i assume i: "i < LENGTH(64)"
      have "bit (drop_bit (64 - k) (Reverse64 v)) i = (i < k \<and> bit (take_bit k v) (k - 1 - i))" for v
        using assms by (auto simp: bit_drop_bit_eq bit_Reverse64 bit_take_bit_iff)
      then show "bit (drop_bit (64 - k) (Reverse64 a)) i = bit (drop_bit (64 - k) (Reverse64 b)) i" using e by simp
    qed
  qed
  then show ?thesis unfolding d take_bit_eq_mask word_unat_eq_iff[symmetric] .
qed

lemma nat_or_mask: "(a::nat) OR mask n = a div 2 ^ n * 2 ^ n + (2 ^ n - 1)"
proof -
  have "push_bit n (drop_bit n a) + mask n = push_bit n (drop_bit n a) OR mask n"
    by (rule disjunctive_add) (auto simp: bit_push_bit_iff bit_mask_iff)
  also have "\<dots> = a OR mask n"
    by (rule bit_eqI) (auto simp: bit_or_iff bit_push_bit_iff bit_drop_bit_eq bit_mask_iff)
  finally show ?thesis by (simp add: push_bit_eq_mult drop_bit_eq_div mask_eq_exp_minus_1)
qed

lemma pos_nextCursor:
  assumes "k \<le> 64"
  shows "pos (nextCursor v (mask k)) = (pos v div 2 ^ (64 - k) + 1) * 2 ^ (64 - k) mod 2 ^ 64"
proof -
  define n where "n = 64 - k"
  define R where "R = Reverse64 v OR mask n"
  have n: "n \<le> 64" by (simp add: n_def)
  have "unat R = unat (Reverse64 v) OR mask n"
    using n by (intro bit_eqI) (auto simp: R_def bit_or_iff bit_mask_iff bit_unsigned_iff)
  then have uR: "unat R + 1 = (pos v div 2 ^ n + 1) * 2 ^ n"
    by (simp add: nat_or_mask pos_def algebra_simps)
  have u1: "unat (R + 1) = (pos v div 2 ^ n + 1) * 2 ^ n mod 2 ^ 64"
    using uR by (simp add: unat_word_ariths)
  have "(2::nat) ^ 64 = 2 ^ n * 2 ^ k" using assms by (simp add: n_def power_add[symmetric])
  then have dv: "2 ^ n dvd unat (R + 1)"
    unfolding u1 by (metis dvd_mod dvd_triv_left dvd_triv_right)
  have low: "(R + 1) AND NOT (mask n) = R + 1"
  proof -
    have "take_bit n (unat (R + 1)) = 0" using dv by (simp add: take_bit_eq_mod)
    then have "take_bit n (R + 1) = 0"
      by (metis unsigned_0 unsigned_take_bit_eq unsigned_word_eqI)
    then have "\<not> (i < n \<and> bit (R + 1) i)" for i using bit_take_bit_iff[of n "R + 1" i] by simp
    then show ?thesis by (intro bit_word_eqI) (auto simp: bit_and_iff bit_not_iff bit_mask_iff)
  qed
  have "Reverse64 (nextCursor v (mask k)) = R + 1"
    using assms low by (simp add: nextCursor_def Let_def Reverse64_and_mask Reverse64_or_not_mask R_def n_def)
  then show ?thesis using u1 by (simp add: pos_def n_def)
qed

lemma pos_and_mask:
  assumes "k \<le> 64"
  shows "pos (v AND mask k) = pos v div 2 ^ (64 - k) * 2 ^ (64 - k)"
proof -
  have "unat (Reverse64 v AND NOT (mask (64 - k))) = push_bit (64 - k) (drop_bit (64 - k) (unat (Reverse64 v)))"
    by (rule bit_eqI)
      (auto simp: bit_unsigned_iff bit_and_iff bit_not_iff bit_mask_iff bit_push_bit_iff bit_drop_bit_eq bit_Reverse64)
  then show ?thesis
    using assms by (simp add: pos_def Reverse64_and_mask push_bit_eq_mult drop_bit_eq_div)
qed

lemma dvd_pos_iff: "k \<le> 64 \<Longrightarrow> 2 ^ (64 - k) dvd pos v \<longleftrightarrow> v AND mask k = v"
  using pos_and_mask[of k v] pos_inj[of "v AND mask k" v] by (metis dvd_div_mult_self dvd_triv_right)

lemma nextCursor_masked: "nextCursor v m AND m = nextCursor v m"
  by (simp add: nextCursor_def Let_def and.assoc)

text \<open>The loop over the larger table stops at the multiples of the smaller table's block.\<close>

lemma cursor_block_end:
  assumes "k0 \<le> k1" "k1 \<le> 64"
  shows "nextCursor v (mask k1) AND (mask k0 XOR mask k1) = 0 \<longleftrightarrow>
    2 ^ (64 - k0) dvd pos (nextCursor v (mask k1))"
proof -
  let ?c = "nextCursor v (mask k1)"
  have high: "\<not> (bit ?c i \<and> \<not> i < k1)" for i
    using nextCursor_masked[of v "mask k1"] bit_and_iff[of ?c "mask k1" i] by (auto simp: bit_mask_iff)
  have "?c AND (mask k0 XOR mask k1) = 0 \<longleftrightarrow> (\<forall>i. \<not> (bit ?c i \<and> k0 \<le> i \<and> i < k1))"
  proof -
    have b: "bit (?c AND (mask k0 XOR mask k1)) i \<longleftrightarrow> bit ?c i \<and> k0 \<le> i \<and> i < k1" for i
    proof (cases "i < 64")
      case False
      then have "\<not> bit ?c i" by (auto dest: bit_imp_le_length)
      then show ?thesis by (simp add: bit_and_iff)
    qed (use assms in \<open>auto simp: bit_and_iff bit_xor_iff bit_mask_iff\<close>)
    have "?c AND (mask k0 XOR mask k1) = 0 \<longleftrightarrow> (\<forall>i. \<not> bit (?c AND (mask k0 XOR mask k1)) i)"
      using bit_imp_le_length[of "?c AND (mask k0 XOR mask k1)"] by (auto simp: bit_eq_iff)
    then show ?thesis unfolding b .
  qed
  also have "\<dots> \<longleftrightarrow> (\<forall>i. bit ?c i \<longrightarrow> i < k0)" using high not_le by blast
  also have "\<dots> \<longleftrightarrow> ?c AND mask k0 = ?c"
  proof -
    have "bit ?c i \<Longrightarrow> i < 64" for i using bit_imp_le_length[of ?c i] by simp
    then show ?thesis by (auto simp: bit_eq_iff bit_and_iff bit_mask_iff)
  qed
  finally show ?thesis using dvd_pos_iff[of k0 ?c] assms by simp
qed

subsection \<open>One bucket\<close>

lemma over_walk_path:
  "path ov e is noEntry \<Longrightarrow> length is < fuel \<Longrightarrow>
   over_walk fuel ov e = Some (map (\<lambda>j. snd (en_kv (ov ! j))) is)"
proof (induction "is" arbitrary: e fuel)
  case Nil
  then show ?case by (cases fuel) auto
next
  case (Cons i js)
  then show ?case by (cases fuel) (auto simp: en_kv_def)
qed

lemma t_visit_rep:
  assumes "tbl_rep t n B" "unat b < 2 ^ n"
  shows "t_visit t b = Some (map snd (B (unat b)))"
proof -
  obtain C where inv: "tab_inv {} t B C" using assms by (auto simp: tbl_rep_def)
  have bs: "unat b < t_size t" using assms tbl_rep_size[OF assms(1)] by simp
  note ch = tab_invD(1,2)[OF inv bs] and len = chain_length_fuel[OF inv bs]
  have nz: "t_heads t \<noteq> []" using bs by (auto simp: t_size_def)
  show ?thesis
  proof (cases "en_next (t_heads t ! unat b) = noHead")
    case True
    then show ?thesis using ch go_head[OF bs] by (simp add: t_visit_def bucket_kvs_def)
  next
    case False
    then have "over_walk (Suc (length (t_over t))) (t_over t) (en_next (t_heads t ! unat b)) =
        Some (map (\<lambda>j. snd (en_kv (t_over t ! j))) (C (unat b)))"
      using ch len by (intro over_walk_path) (auto simp: bucket_chain_def)
    then show ?thesis using False ch nz go_head[OF bs]
      by (simp add: t_visit_def bucket_kvs_def en_kv_def del: over_walk.simps)
  qed
qed

lemma ucast_mask_32: "n \<le> 32 \<Longrightarrow> (ucast (mask n :: 32 word) :: 64 word) = mask n"
  by (rule bit_word_eqI) (auto simp: bit_ucast_iff bit_mask_iff)

lemma unat_and_mask_64: "n \<le> 32 \<Longrightarrow> unat (ucast ((c::64 word) AND mask n) :: 32 word) = unat (c AND mask n)"
  by (rule bit_eqI) (auto simp: bit_unsigned_iff bit_ucast_iff bit_and_iff bit_mask_iff)

text \<open>The visit of the bucket under a cursor emits exactly the entries of its block.\<close>

lemma t_visit_block:
  assumes t: "tbl_rep t n B" and n: "n \<le> 32"
  obtains es where "t_visit t (ucast (c AND ucast (t_mask t))) = Some es"
    "set es = snd ` {kv. kv \<in># tbl_ms n B \<and> hpos (fst kv) div 2 ^ (64 - n) = pos c div 2 ^ (64 - n)}"
proof -
  have m: "t_mask t = mask n" using t by (simp add: tbl_rep_def tbl_pow_def)
  let ?b = "unat (c AND mask n)"
  have bl: "?b < 2 ^ n"
  proof -
    have "c AND mask n = take_bit n c" by (simp add: take_bit_eq_mask)
    then show ?thesis by (simp add: unsigned_take_bit_eq)
  qed
  have v: "t_visit t (ucast (c AND ucast (t_mask t))) = Some (map snd (B ?b))"
    using t_visit_rep[OF t, of "ucast (c AND mask n)"] bl n m by (simp add: ucast_mask_32 unat_and_mask_64)
  have "bucketOf t h = ?b \<longleftrightarrow> hpos h div 2 ^ (64 - n) = pos c div 2 ^ (64 - n)" for h
  proof -
    have "bucketOf t h = unat ((ucast h :: 64 word) AND mask n)"
      unfolding bucketOf_def m
      by (rule bit_eqI) (auto simp: bit_unsigned_iff bit_ucast_iff bit_and_iff bit_mask_iff dest: bit_imp_le_length)
    then show ?thesis using pos_block[of n "ucast h" c] n by (simp add: word_unat_eq_iff)
  qed
  moreover have "kv \<in> set (B ?b) \<longleftrightarrow> kv \<in># tbl_ms n B \<and> bucketOf t (fst kv) = ?b" for kv
  proof -
    obtain C where inv: "tab_inv {} t B C" using t by (auto simp: tbl_rep_def)
    have "kv \<in> set (B ?b) \<Longrightarrow> bucketOf t (fst kv) = ?b"
      using tab_invD(3)[OF inv, of ?b kv] bl tbl_rep_size[OF t] by simp
    then show ?thesis using tbl_ms_mem[OF t, of kv] by auto
  qed
  ultimately have "set (B ?b) = {kv. kv \<in># tbl_ms n B \<and> hpos (fst kv) div 2 ^ (64 - n) = pos c div 2 ^ (64 - n)}"
    by blast
  then show thesis using that[OF v] by simp
qed

subsection \<open>One call\<close>

text \<open>
  What one call promises of the entries \<open>M\<close> of the dict: it emits only entries of the
  dict, all of those between the two cursors among them, and the position moves forward.
\<close>

definition scan_ok :: "'v kv multiset \<Rightarrow> 64 word \<Rightarrow> (bytes \<times> 'v option) list \<Rightarrow> 64 word \<Rightarrow> bool" where
  "scan_ok M c es c' \<longleftrightarrow>
     (\<forall>kv \<in># M. pos c \<le> hpos (fst kv) \<longrightarrow> c' = 0 \<or> hpos (fst kv) < pos c' \<longrightarrow> snd kv \<in> set es) \<and>
     set es \<subseteq> snd ` set_mset M \<and> (c' = 0 \<or> pos c < pos c')"

lemma block_end:
  fixes p D :: nat
  assumes "0 < D" "2 ^ 64 = D * N" "p < 2 ^ 64"
  shows "(p div D + 1) * D \<le> 2 ^ 64" "p < (p div D + 1) * D"
    "(p div D + 1) * D mod 2 ^ 64 = (if (p div D + 1) * D = 2 ^ 64 then 0 else (p div D + 1) * D)"
proof -
  have "p div D < N" using assms by (simp add: less_mult_imp_div_less mult.commute)
  then have "(p div D + 1) * D \<le> N * D" by (intro mult_right_mono) auto
  then show le: "(p div D + 1) * D \<le> 2 ^ 64" using assms by (simp add: mult.commute)
  show "p < (p div D + 1) * D" using assms(1) by (metis Suc_eq_plus1 dividend_less_div_times mult_Suc)
  show "(p div D + 1) * D mod 2 ^ 64 = (if (p div D + 1) * D = 2 ^ 64 then 0 else (p div D + 1) * D)"
    using le by auto
qed

lemma same_block:
  fixes p q D :: nat
  assumes "0 < D" "p \<le> q" "q < (p div D + 1) * D"
  shows "q div D = p div D"
proof -
  have "q div D < p div D + 1" using assms(3) by (rule less_mult_imp_div_less)
  moreover have "p div D \<le> q div D" using assms(2) by (rule div_le_mono)
  ultimately show ?thesis by simp
qed

lemma scan_okI:
  assumes k: "k \<le> 64" and c': "pos c' = (pos c div 2 ^ (64 - k) + 1) * 2 ^ (64 - k) mod 2 ^ 64"
    and sub: "set es \<subseteq> snd ` set_mset M"
    and all: "\<And>kv. kv \<in># M \<Longrightarrow> pos c \<le> hpos (fst kv) \<Longrightarrow>
      hpos (fst kv) < (pos c div 2 ^ (64 - k) + 1) * 2 ^ (64 - k) \<Longrightarrow> snd kv \<in> set es"
  shows "scan_ok M c es c'"
proof -
  let ?e = "(pos c div 2 ^ (64 - k) + 1) * 2 ^ (64 - k)"
  have "(2::nat) ^ 64 = 2 ^ (64 - k) * 2 ^ k" using k by (simp add: power_add[symmetric])
  note be = block_end[OF _ this pos_lt, of c]
  have lim: "c' = 0 \<and> ?e = 2 ^ 64 \<or> c' \<noteq> 0 \<and> pos c' = ?e"
    using be(3) c' pos_eq_0_iff[of c'] by (auto split: if_splits)
  then have "hpos h < ?e" if "c' = 0 \<or> hpos h < pos c'" for h
    using that pos_lt[of "ucast h"] by auto
  moreover have "c' = 0 \<or> pos c < pos c'" using lim be(2) by auto
  ultimately show ?thesis using all sub unfolding scan_ok_def by blast
qed

lemma scan_large_rep:
  assumes t: "tbl_rep t k1 B" "k1 \<le> 32" "k0 \<le> k1"
    and fuel: "2 ^ (k1 - k0) - (pos c div 2 ^ (64 - k1)) mod 2 ^ (k1 - k0) \<le> fuel"
  shows "\<exists>es c'. scan_large fuel t (mask k0) (ucast (t_mask t)) c = Some (es, c') \<and>
    c' AND ucast (t_mask t) = c' \<and>
    pos c' = (pos c div 2 ^ (64 - k0) + 1) * 2 ^ (64 - k0) mod 2 ^ 64 \<and>
    set es \<subseteq> snd ` set_mset (tbl_ms k1 B) \<and>
    (\<forall>kv \<in># tbl_ms k1 B. pos c \<le> hpos (fst kv) \<longrightarrow>
       hpos (fst kv) < (pos c div 2 ^ (64 - k0) + 1) * 2 ^ (64 - k0) \<longrightarrow> snd kv \<in> set es)"
  using fuel
proof (induction fuel arbitrary: c)
  case 0
  have "(pos c div 2 ^ (64 - k1)) mod 2 ^ (k1 - k0) < 2 ^ (k1 - k0)" by simp
  then show ?case using 0 by linarith
next
  case (Suc fuel)
  define D1 where "D1 = (2::nat) ^ (64 - k1)"
  define r where "r = (2::nat) ^ (k1 - k0)"
  define q where "q = pos c div D1"
  define c1 where "c1 = nextCursor c (mask k1)"
  have D0: "(2::nat) ^ (64 - k0) = D1 * r" using t by (simp add: D1_def r_def power_add[symmetric])
  have P: "(2::nat) ^ 64 = D1 * 2 ^ k1" using t by (simp add: D1_def power_add[symmetric])
  have rk: "(2::nat) ^ k1 = r * 2 ^ k0" using t by (simp add: r_def power_add[symmetric])
  have pos1: "0 < D1" "0 < r" by (simp_all add: D1_def r_def)
  have m1: "ucast (t_mask t) = (mask k1 :: 64 word)"
    using t by (simp add: tbl_rep_def tbl_pow_def ucast_mask_32)
  have pc1: "pos c1 = (q + 1) * D1 mod 2 ^ 64" using pos_nextCursor[of k1 c] t by (simp add: c1_def q_def D1_def)
  have qd: "pos c div 2 ^ (64 - k0) = q div r" unfolding D0 q_def by (simp add: div_mult2_eq)
  have q1: "q + 1 \<le> 2 ^ k1"
  proof -
    have "q < 2 ^ k1" unfolding q_def using pos_lt[of c] P by (simp add: less_mult_imp_div_less mult.commute)
    then show ?thesis by simp
  qed
  have stop: "c1 AND (mask k0 XOR mask k1) = 0 \<longleftrightarrow> r dvd q + 1"
  proof -
    have "c1 AND (mask k0 XOR mask k1) = 0 \<longleftrightarrow> D1 * r dvd (q + 1) * D1 mod 2 ^ 64"
      using cursor_block_end[of k0 k1 c] t pc1 D0 by (simp add: c1_def)
    also have "\<dots> \<longleftrightarrow> D1 * r dvd (q + 1) * D1"
    proof (rule dvd_mod_iff)
      show "D1 * r dvd 2 ^ 64" unfolding P rk by (simp add: mult.assoc[symmetric])
    qed
    also have "\<dots> \<longleftrightarrow> r dvd q + 1"
      using pos1 nat_mult_dvd_cancel_disj[of D1 r "q + 1"] by (simp add: mult.commute)
    finally show ?thesis .
  qed
  obtain es where es: "t_visit t (ucast (c AND ucast (t_mask t))) = Some es"
    "set es = snd ` {kv. kv \<in># tbl_ms k1 B \<and> hpos (fst kv) div D1 = q}"
    using t_visit_block[OF t(1,2), of c] unfolding q_def D1_def by blast
  have es_sub: "set es \<subseteq> snd ` set_mset (tbl_ms k1 B)" using es(2) by auto
  have hit: "snd kv \<in> set es" if "kv \<in># tbl_ms k1 B" "pos c \<le> hpos (fst kv)" "hpos (fst kv) < (q + 1) * D1" for kv
    using that same_block[OF pos1(1), of "pos c" "hpos (fst kv)"] es(2) unfolding q_def by blast
  show ?case
  proof (cases "r dvd q + 1")
    case True
    have e: "(q div r + 1) * 2 ^ (64 - k0) = (q + 1) * D1"
    proof -
      obtain s where s: "q + 1 = r * s" using True by blast
      then have "s > 0" by (cases s) auto
      then have "q = r * (s - 1) + (r - 1)" using s pos1 by (cases s) (auto simp: algebra_simps)
      then have "q div r = s - 1" using pos1 by (intro div_nat_eqI) (auto simp: algebra_simps)
      then show ?thesis using s \<open>s > 0\<close> D0 by (simp add: algebra_simps)
    qed
    have "scan_large (Suc fuel) t (mask k0) (ucast (t_mask t)) c = Some (es, c1)"
      using es(1) stop True by (simp add: m1 c1_def)
    then show ?thesis using es_sub hit pc1 e nextCursor_masked[of c "mask k1"] unfolding qd
      by (intro exI[of _ es] exI[of _ c1]) (simp add: m1 c1_def)
  next
    case False
    have lt: "(q + 1) * D1 < 2 ^ 64"
    proof -
      have "q + 1 \<noteq> 2 ^ k1" using False rk by auto
      then have "q + 1 < 2 ^ k1" using q1 by simp
      then have "(q + 1) * D1 < 2 ^ k1 * D1" using pos1(1) by (rule mult_strict_right_mono)
      then show ?thesis unfolding P by (simp only: mult.commute)
    qed
    have pc: "pos c1 = (q + 1) * D1" using pc1 lt by simp
    have q': "pos c1 div 2 ^ (64 - k1) = q + 1" using pc pos1 by (simp add: D1_def)
    have dv: "(q + 1) div r = q div r" and md: "(q + 1) mod r = q mod r + 1"
      using False pos1 by (auto simp: div_Suc mod_Suc dvd_eq_mod_eq_0 split: if_splits)
    have qd1: "pos c1 div 2 ^ (64 - k0) = q div r" using pc dv pos1 unfolding D0 by (simp add: div_mult2_eq)
    have "2 ^ (k1 - k0) - (pos c1 div 2 ^ (64 - k1)) mod 2 ^ (k1 - k0) \<le> fuel"
      using Suc.prems[folded r_def D1_def q_def] md unfolding q' r_def[symmetric] by linarith
    from Suc.IH[OF this] obtain es' c' where r: "scan_large fuel t (mask k0) (ucast (t_mask t)) c1 = Some (es', c')"
      "c' AND ucast (t_mask t) = c'"
      "pos c' = (q div r + 1) * 2 ^ (64 - k0) mod 2 ^ 64" "set es' \<subseteq> snd ` set_mset (tbl_ms k1 B)"
      "\<forall>kv \<in># tbl_ms k1 B. pos c1 \<le> hpos (fst kv) \<longrightarrow>
         hpos (fst kv) < (q div r + 1) * 2 ^ (64 - k0) \<longrightarrow> snd kv \<in> set es'"
      unfolding qd1 by blast
    have "scan_large (Suc fuel) t (mask k0) (ucast (t_mask t)) c = Some (es @ es', c')"
      using es(1) stop False r(1) by (simp add: m1 c1_def)
    moreover have "snd kv \<in> set (es @ es')" if "kv \<in># tbl_ms k1 B" "pos c \<le> hpos (fst kv)"
      "hpos (fst kv) < (q div r + 1) * 2 ^ (64 - k0)" for kv
      using hit[OF that(1,2)] r(5) that pc by (cases "hpos (fst kv) < (q + 1) * D1") auto
    ultimately show ?thesis using r es_sub unfolding qd by (intro exI[of _ "es @ es'"] exI[of _ c']) auto
  qed
qed

text \<open>Neither table has more buckets than a 32-bit mask can index.\<close>

definition dict_small :: "nat \<Rightarrow> 'v dict \<Rightarrow> bool" where
  "dict_small K d \<longleftrightarrow> t_size (d_tab0 d) \<le> 2 ^ K \<and> t_size (d_tab1 d) \<le> 2 ^ K"

definition next_pos :: "nat \<Rightarrow> nat \<Rightarrow> nat" where
  "next_pos k p = (p div 2 ^ (64 - k) + 1) * 2 ^ (64 - k) mod 2 ^ 64"

lemma scan_two_tables:
  assumes s: "tbl_rep s k0 A" and l: "tbl_rep l k1 B" and k: "k0 \<le> k1" "k1 \<le> 32"
  shows "\<exists>es c'. (do { es \<leftarrow> t_visit s (ucast (c AND ucast (t_mask s)));
        (es', c') \<leftarrow> scan_large (t_size l) l (ucast (t_mask s)) (ucast (t_mask l)) c;
        Some (es @ es', c' AND ucast (t_mask l)) }) = Some (es, c') \<and>
      pos c' = next_pos k0 (pos c) \<and> scan_ok (tbl_ms k0 A + tbl_ms k1 B) c es c'"
proof -
  have m0: "ucast (t_mask s) = (mask k0 :: 64 word)"
    using s k by (simp add: tbl_rep_def tbl_pow_def ucast_mask_32)
  obtain es where es: "t_visit s (ucast (c AND ucast (t_mask s))) = Some es"
    "set es = snd ` {kv. kv \<in># tbl_ms k0 A \<and> hpos (fst kv) div 2 ^ (64 - k0) = pos c div 2 ^ (64 - k0)}"
    using t_visit_block[OF s, of c] k by auto
  have "(2::nat) ^ (k1 - k0) \<le> 2 ^ k1" by (rule power_increasing) auto
  then have "2 ^ (k1 - k0) - (pos c div 2 ^ (64 - k1)) mod 2 ^ (k1 - k0) \<le> t_size l"
    unfolding tbl_rep_size[OF l] by (rule le_trans[OF diff_le_self])
  from scan_large_rep[OF l k(2,1) this] obtain es' c' where
    r: "scan_large (t_size l) l (mask k0) (ucast (t_mask l)) c = Some (es', c')"
    "c' AND ucast (t_mask l) = c'" "pos c' = (pos c div 2 ^ (64 - k0) + 1) * 2 ^ (64 - k0) mod 2 ^ 64"
    "set es' \<subseteq> snd ` set_mset (tbl_ms k1 B)"
    "\<forall>kv \<in># tbl_ms k1 B. pos c \<le> hpos (fst kv) \<longrightarrow>
       hpos (fst kv) < (pos c div 2 ^ (64 - k0) + 1) * 2 ^ (64 - k0) \<longrightarrow> snd kv \<in> set es'" by blast
  have "scan_ok (tbl_ms k0 A + tbl_ms k1 B) c (es @ es') c'"
  proof (rule scan_okI[OF _ r(3)])
    show "k0 \<le> 64" using k by simp
    show "set (es @ es') \<subseteq> snd ` set_mset (tbl_ms k0 A + tbl_ms k1 B)" using es(2) r(4) by auto
    fix kv assume kv: "kv \<in># tbl_ms k0 A + tbl_ms k1 B" "pos c \<le> hpos (fst kv)"
      "hpos (fst kv) < (pos c div 2 ^ (64 - k0) + 1) * 2 ^ (64 - k0)"
    then have "hpos (fst kv) div 2 ^ (64 - k0) = pos c div 2 ^ (64 - k0)" by (intro same_block) auto
    then show "snd kv \<in> set (es @ es')" using kv es(2) r(5) by auto
  qed
  then show ?thesis using es(1) r(1,2) r(3)[folded next_pos_def] m0 by auto
qed

lemma d_scan_rep:
  assumes d: "dict_ms d M" and K: "dict_small K d" "K \<le> 32"
  shows "\<exists>es c'. d_scan d c = Some (es, c') \<and> scan_ok M c es c' \<and>
    (c' = 0 \<or> (\<exists>k \<le> K. pos c' = next_pos k (pos c)))"
proof -
  obtain n0 B0 n1 B1 where r: "dict_rep d n0 B0 n1 B1" "tbl_rep (d_tab0 d) n0 B0"
    "rehashing d \<longrightarrow> tbl_rep (d_tab1 d) n1 B1"
    "M = tbl_ms n0 B0 + (if rehashing d then tbl_ms n1 B1 else {#})" using dict_repE[OF d] .
  have pk: "n \<le> K" if "tbl_rep t n B" "t_size t \<le> 2 ^ K" for t n and B :: "nat \<Rightarrow> 'a kv list"
    using that tbl_rep_size[OF that(1)] power_le_imp_le_exp[of "2::nat" n K] by simp
  have n0: "n0 \<le> K" using pk[OF r(2)] K by (simp add: dict_small_def)
  show ?thesis
  proof (cases "d_len d = 0")
    case True
    have "d_len d = int (size M)" using r by (auto simp: d_len_def tbl_rep_def)
    then have "M = {#}" using True by simp
    then show ?thesis using True by (simp add: d_scan_def scan_ok_def)
  next
    case ne: False
    show ?thesis
    proof (cases "rehashing d")
      case False
      have m0: "ucast (t_mask (d_tab0 d)) = (mask n0 :: 64 word)"
        using r(2) n0 K by (simp add: tbl_rep_def tbl_pow_def ucast_mask_32)
      obtain es where es: "t_visit (d_tab0 d) (ucast (c AND ucast (t_mask (d_tab0 d)))) = Some es"
        "set es = snd ` {kv. kv \<in># tbl_ms n0 B0 \<and> hpos (fst kv) div 2 ^ (64 - n0) = pos c div 2 ^ (64 - n0)}"
        using t_visit_block[OF r(2), of c] n0 K by auto
      have p: "pos (nextCursor c (mask n0)) = (pos c div 2 ^ (64 - n0) + 1) * 2 ^ (64 - n0) mod 2 ^ 64"
        using pos_nextCursor[of n0 c] n0 K by simp
      have "scan_ok M c es (nextCursor c (mask n0))"
      proof (rule scan_okI[OF _ p])
        show "n0 \<le> 64" using n0 K by simp
        show "set es \<subseteq> snd ` set_mset M" using es(2) r(4) by auto
        fix kv assume kv: "kv \<in># M" "pos c \<le> hpos (fst kv)"
          "hpos (fst kv) < (pos c div 2 ^ (64 - n0) + 1) * 2 ^ (64 - n0)"
        then have "hpos (fst kv) div 2 ^ (64 - n0) = pos c div 2 ^ (64 - n0)" by (intro same_block) auto
        then show "snd kv \<in> set es" using kv es(2) r(4) False by auto
      qed
      then show ?thesis using ne False es(1) p[folded next_pos_def] n0 by (auto simp: d_scan_def m0 Let_def)
    next
      case True
      have t1: "tbl_rep (d_tab1 d) n1 B1" using r(3) True by simp
      have n1: "n1 \<le> K" using pk[OF t1] K by (simp add: dict_small_def)
      have M: "M = tbl_ms n0 B0 + tbl_ms n1 B1" using r(4) True by simp
      have sz: "t_size (d_tab0 d) > t_size (d_tab1 d) \<longleftrightarrow> n0 > n1"
        using tbl_rep_size[OF r(2)] tbl_rep_size[OF t1] by simp
      show ?thesis
      proof (cases "n0 > n1")
        case True
        have "\<exists>k \<le> K. p = next_pos k (pos c)" if "p = next_pos n1 (pos c)" for p using that n1 by blast
        then show ?thesis using scan_two_tables[OF t1 r(2), of c] True sz ne \<open>rehashing d\<close> n0 K
          by (auto simp: d_scan_def M add.commute)
      next
        case False
        have "\<exists>k \<le> K. p = next_pos k (pos c)" if "p = next_pos n0 (pos c)" for p using that n0 by blast
        then show ?thesis using scan_two_tables[OF r(2) t1, of c] False sz ne \<open>rehashing d\<close> n1 K
          by (auto simp: d_scan_def M)
      qed
    qed
  qed
qed

lemma scan_loop_rep:
  assumes d: "dict_ms d M" and K: "dict_small K d" "K \<le> 32"
  shows "\<exists>es c'. scan_loop budget d keep cnt emitted c = Some (es, c') \<and>
    (\<forall>kv \<in># M. pos c \<le> hpos (fst kv) \<longrightarrow> c' = 0 \<or> hpos (fst kv) < pos c' \<longrightarrow>
       keep (fst (snd kv)) (snd (snd kv)) \<longrightarrow> 0 < budget \<longrightarrow> snd kv \<in> set es) \<and>
    set es \<subseteq> snd ` set_mset M \<and> (\<forall>(k, v) \<in> set es. keep k v) \<and>
    (budget = 0 \<longrightarrow> c' = c) \<and> (0 < budget \<longrightarrow> c' = 0 \<or> pos c < pos c')"
proof (induction budget arbitrary: emitted c)
  case 0
  then show ?case by simp
next
  case (Suc budget)
  obtain es1 c1 where s: "d_scan d c = Some (es1, c1)" "scan_ok M c es1 c1" using d_scan_rep[OF d K] by blast
  let ?k1 = "filter (\<lambda>(k, v). keep k v) es1"
  note ok = s(2)[unfolded scan_ok_def]
  have in1: "snd kv \<in> set ?k1" if "kv \<in># M" "pos c \<le> hpos (fst kv)" "c1 = 0 \<or> hpos (fst kv) < pos c1"
    "keep (fst (snd kv)) (snd (snd kv))" for kv
    using ok that by (auto simp: case_prod_unfold)
  show ?case
  proof (cases "c1 = 0 \<or> emitted + int (length ?k1) \<ge> cnt")
    case True
    then have "scan_loop (Suc budget) d keep cnt emitted c = Some (?k1, c1)" using s(1) by simp
    then show ?thesis using in1 ok by (intro exI[of _ ?k1] exI[of _ c1]) auto
  next
    case False
    obtain es2 c2 where r: "scan_loop budget d keep cnt (emitted + int (length ?k1)) c1 = Some (es2, c2)"
      "\<forall>kv \<in># M. pos c1 \<le> hpos (fst kv) \<longrightarrow> c2 = 0 \<or> hpos (fst kv) < pos c2 \<longrightarrow>
         keep (fst (snd kv)) (snd (snd kv)) \<longrightarrow> 0 < budget \<longrightarrow> snd kv \<in> set es2"
      "set es2 \<subseteq> snd ` set_mset M" "\<forall>(k, v) \<in> set es2. keep k v"
      "budget = 0 \<longrightarrow> c2 = c1" "0 < budget \<longrightarrow> c2 = 0 \<or> pos c1 < pos c2" using Suc.IH by blast
    have "scan_loop (Suc budget) d keep cnt emitted c = Some (?k1 @ es2, c2)" using s(1) False r(1) by simp
    moreover have "snd kv \<in> set (?k1 @ es2)" if "kv \<in># M" "pos c \<le> hpos (fst kv)"
      "c2 = 0 \<or> hpos (fst kv) < pos c2" "keep (fst (snd kv)) (snd (snd kv))" for kv
    proof (cases "hpos (fst kv) < pos c1")
      case True
      then show ?thesis using in1 that by simp
    next
      case f: False
      then have "0 < budget" using that(3) r(5) False by (cases budget) auto
      then have "snd kv \<in> set es2" using f r(2) that by auto
      then show ?thesis by simp
    qed
    moreover have "c2 = 0 \<or> pos c < pos c2" using ok False r(5,6) by (cases "budget = 0") auto
    ultimately show ?thesis using ok r(3,4) by (intro exI[of _ "?k1 @ es2"] exI[of _ c2]) auto
  qed
qed

subsection \<open>A whole iteration\<close>

text \<open>
  A client's iteration: \<open>ds\<close> are the states the dict happens to be in at the successive
  calls, with any writes, deletes and rehashing in between. It ends when a call returns the
  cursor zero.
\<close>

fun scan_calls :: "'v dict list \<Rightarrow> 64 word \<Rightarrow> ((bytes \<times> 'v option) list \<times> 64 word) go" where
  "scan_calls [] c = Some ([], c)"
| "scan_calls (d # ds) c =
     do {
       (es, c') \<leftarrow> d_scan d c;
       if c' = 0 then Some (es, 0)
       else do { (es', c'') \<leftarrow> scan_calls ds c'; Some (es @ es', c'') }
     }"

lemma scan_calls_complete:
  assumes "\<And>d. d \<in> set ds \<Longrightarrow> dict_small 32 d \<and> (\<exists>M v. dict_ms d M \<and> (hf k, k, v) \<in># M)"
    and "pos c \<le> hpos (hf k)" "ds \<noteq> []" "scan_calls ds c = Some (es, 0)"
  shows "k \<in> fst ` set es"
  using assms
proof (induction ds arbitrary: c es)
  case (Cons d ds)
  obtain M v where M: "dict_small 32 d" "dict_ms d M" "(hf k, k, v) \<in># M" using Cons.prems(1) by force
  obtain es1 c1 where s: "d_scan d c = Some (es1, c1)" "scan_ok M c es1 c1" using d_scan_rep[OF M(2,1)] by blast
  show ?case
  proof (cases "c1 = 0 \<or> hpos (hf k) < pos c1")
    case True
    then have "(k, v) \<in> set es1" using s(2) M(3) Cons.prems(2) by (force simp: scan_ok_def)
    moreover have "set es1 \<subseteq> set es" using Cons.prems(4) s(1) by (auto split: if_splits bind_splits)
    ultimately show ?thesis by force
  next
    case False
    then obtain es2 where e: "scan_calls ds c1 = Some (es2, 0)" "es = es1 @ es2"
      using Cons.prems(4) s(1) by (auto split: if_splits bind_splits)
    have "ds \<noteq> []" using e False by auto
    then have "k \<in> fst ` set es2" using Cons.IH[OF _ _ _ e(1)] Cons.prems(1) False by auto
    then show ?thesis using e(2) by auto
  qed
qed simp

lemma next_pos_ge:
  assumes "k \<le> K" "K \<le> 32" "2 ^ (64 - K) dvd p" "p < 2 ^ 64" "next_pos k p \<noteq> 0"
  shows "2 ^ (64 - K) dvd next_pos k p" "p + 2 ^ (64 - K) \<le> next_pos k p"
proof -
  have P: "(2::nat) ^ 64 = 2 ^ (64 - k) * 2 ^ k" using assms(1,2) by (simp add: power_add[symmetric])
  note be = block_end[OF _ P assms(4)]
  have e: "next_pos k p = (p div 2 ^ (64 - k) + 1) * 2 ^ (64 - k)"
    using be(3) assms(5) by (auto simp: next_pos_def split: if_splits)
  have "(2::nat) ^ (64 - K) dvd 2 ^ (64 - k)" using assms(1) by (intro le_imp_power_dvd) auto
  then show d: "2 ^ (64 - K) dvd next_pos k p" unfolding e by (rule dvd_mult)
  obtain a b where ab: "next_pos k p = 2 ^ (64 - K) * a" "p = 2 ^ (64 - K) * b"
    using d assms(3) by (auto elim!: dvdE)
  then have "b < a" using be(2) e by (metis mult_less_cancel1 zero_less_numeral zero_less_power)
  then have "2 ^ (64 - K) * (b + 1) \<le> 2 ^ (64 - K) * a" by (intro mult_left_mono) auto
  then show "p + 2 ^ (64 - K) \<le> next_pos k p" using ab by (simp add: algebra_simps)
qed

lemma scan_calls_ends:
  assumes "K \<le> 32" "\<And>d. d \<in> set ds \<Longrightarrow> dict_small K d \<and> (\<exists>M. dict_ms d M)"
    and "2 ^ (64 - K) dvd pos c" "2 ^ 64 \<le> pos c + length ds * 2 ^ (64 - K)"
  shows "\<exists>es. scan_calls ds c = Some (es, 0)"
  using assms(2-)
proof (induction ds arbitrary: c)
  case Nil
  then show ?case using pos_lt[of c] by simp
next
  case (Cons d ds)
  obtain M where M: "dict_small K d" "dict_ms d M" using Cons.prems(1) by force
  obtain es1 c1 where s: "d_scan d c = Some (es1, c1)" "c1 = 0 \<or> (\<exists>k \<le> K. pos c1 = next_pos k (pos c))"
    using d_scan_rep[OF M(2,1) assms(1)] by blast
  show ?case
  proof (cases "c1 = 0")
    case False
    then obtain k where k: "k \<le> K" "pos c1 = next_pos k (pos c)" using s(2) by blast
    note ge = next_pos_ge[OF k(1) assms(1) Cons.prems(2) pos_lt, folded k(2)]
    have "\<exists>es. scan_calls ds c1 = Some (es, 0)"
    proof (rule Cons.IH)
      show "2 ^ 64 \<le> pos c1 + length ds * 2 ^ (64 - K)" using ge(2) Cons.prems(3) False by simp
    qed (use Cons.prems ge False in auto)
    then show ?thesis using s(1) False by auto
  qed (use s in simp)
qed

subsection \<open>Properties\<close>

lemma dict_small_mono: "dict_small K d \<Longrightarrow> K \<le> L \<Longrightarrow> dict_small L d"
  unfolding dict_small_def using power_increasing[of K L "2::nat"] by (auto intro: le_trans)

text \<open>C2: A client that iterates with SCAN gets every key that is present for the whole iteration,
  however the dict is written to, grown, shrunk or rehashed between its calls; and the iteration
  ends after at most as many calls as the largest table has buckets.\<close>

theorem scan_returns_stable_keys:
  assumes "K \<le> 32" "2 ^ K \<le> length ds"
    and "\<And>d. d \<in> set ds \<Longrightarrow> dict_small K d \<and> (\<exists>m. dict_map hf d m \<and> k \<in> dom m)"
  shows "\<exists>es. scan_calls ds 0 = Some (es, 0) \<and> k \<in> fst ` set es"
proof -
  have P: "(2::nat) ^ 64 = 2 ^ K * 2 ^ (64 - K)" using assms(1) by (simp add: power_add[symmetric])
  have "(2::nat) ^ K * 2 ^ (64 - K) \<le> length ds * 2 ^ (64 - K)" using assms(2) by (rule mult_right_mono) simp
  then have "\<exists>es. scan_calls ds 0 = Some (es, 0)"
    using assms(3) unfolding P[symmetric]
    by (intro scan_calls_ends[OF assms(1)]) (auto simp: dict_map_def)
  then obtain es where es: "scan_calls ds 0 = Some (es, 0)" by blast
  have ne: "ds \<noteq> []" using assms(2) by auto
  have "dict_small 32 d \<and> (\<exists>M v. dict_ms d M \<and> (hf k, k, v) \<in># M)" if d: "d \<in> set ds" for d
  proof -
    obtain m M where m: "dict_ms d M" "rep_map hf M m" "k \<in> dom m" using assms(3)[OF d] by (auto simp: dict_map_def)
    then have "(hf k, k, m k) \<in># M" using rep_map_mem[OF m(2)] by auto
    then show ?thesis using m(1) assms(3)[OF d] dict_small_mono[OF _ assms(1)] by blast
  qed
  then have "k \<in> fst ` set es" by (intro scan_calls_complete[where hf = hf, OF _ _ ne es]) auto
  then show ?thesis using es by blast
qed

definition one_key_dict :: "nat dict" where
  "one_key_dict = fst (the (d_set (\<lambda>_. 0) newDict [1] 5))"

lemma one_key_map: "dict_map (\<lambda>_. 0) one_key_dict (Map.empty([1] \<mapsto> 5))"
proof -
  obtain d' where "d_set (\<lambda>_. 0) newDict [1] (5::nat) = Some (d', True)"
    "dict_map (\<lambda>_. 0) d' (Map.empty([1] \<mapsto> (5::nat)))"
    using d_set_map[OF newDict_map, of "\<lambda>_. 0" "[1]" "5::nat"] by auto
  then show ?thesis by (simp add: one_key_dict_def)
qed

lemma one_key_small: "dict_small 3 one_key_dict"
  by code_simp

theorem scan_returns_stable_keys_witness:
  "\<exists>es. scan_calls (replicate 8 one_key_dict) 0 = Some (es, 0) \<and> [1] \<in> fst ` set es"
  by (rule scan_returns_stable_keys[where K = 3 and hf = "\<lambda>_. 0"])
    (use one_key_map one_key_small in \<open>auto intro!: exI[of _ "Map.empty([1] \<mapsto> 5)"]\<close>)

text \<open>One call of SCAN with any COUNT of at least one returns only keys of the dict that the
  filter accepts, misses none of those between the cursor it was given and the one it returns,
  and always moves the cursor forward, so that a client never loops on a cursor.\<close>

theorem scanCount_page:
  assumes "dict_map hf d m" "dict_small 32 d" "0 < cnt"
  shows "\<exists>es c'. scanCount d c cnt keep = Some (es, c') \<and>
    (\<forall>(k, v) \<in> set es. k \<in> dom m \<and> v = m k \<and> keep k v) \<and>
    (\<forall>k \<in> dom m. pos c \<le> hpos (hf k) \<and> (c' = 0 \<or> hpos (hf k) < pos c') \<and> keep k (m k) \<longrightarrow> (k, m k) \<in> set es) \<and>
    (c' = 0 \<or> pos c < pos c')"
proof -
  obtain M where M: "dict_ms d M" "rep_map hf M m" using assms(1) by (auto simp: dict_map_def)
  have b: "0 < nat (scanBudget cnt)" using assms(3) by (simp add: scanBudget_def)
  obtain es c' where r: "scanCount d c cnt keep = Some (es, c')"
    "\<forall>kv \<in># M. pos c \<le> hpos (fst kv) \<longrightarrow> c' = 0 \<or> hpos (fst kv) < pos c' \<longrightarrow>
       keep (fst (snd kv)) (snd (snd kv)) \<longrightarrow> snd kv \<in> set es"
    "set es \<subseteq> snd ` set_mset M" "\<forall>(k, v) \<in> set es. keep k v" "c' = 0 \<or> pos c < pos c'"
    using scan_loop_rep[OF M(1) assms(2) order.refl, of "nat (scanBudget cnt)" keep cnt 0 c] b
    unfolding scanCount_def by blast
  have "k \<in> dom m \<and> v = m k \<and> keep k v" if "(k, v) \<in> set es" for k v
    using r(3,4) that rep_map_mem[OF M(2)] by force
  moreover have "(k, m k) \<in> set es"
    if "k \<in> dom m" "pos c \<le> hpos (hf k) \<and> (c' = 0 \<or> hpos (hf k) < pos c') \<and> keep k (m k)" for k
  proof -
    have "(hf k, k, m k) \<in># M" using rep_map_mem[OF M(2)] that(1) by auto
    then show ?thesis using r(2) that(2) by force
  qed
  ultimately show ?thesis using r(1,5) by blast
qed

theorem scanCount_page_witness:
  "\<exists>es c'. scanCount one_key_dict 0 10 (\<lambda>_ _. True) = Some (es, c') \<and> (\<forall>(k, v) \<in> set es. k = [1] \<and> v = Some 5)"
proof -
  have "dict_small 32 one_key_dict" using one_key_small by (rule dict_small_mono) simp
  from scanCount_page[OF one_key_map this, of 10 0 "\<lambda>_ _. True"] obtain es c' where
    e: "scanCount one_key_dict 0 10 (\<lambda>_ _. True) = Some (es, c')"
    "\<forall>(k, v) \<in> set es. k \<in> dom (Map.empty([1] \<mapsto> 5)) \<and> v = (Map.empty([1] \<mapsto> 5)) k \<and> True" by auto
  have "k = [1] \<and> v = Some 5" if "(k, v) \<in> set es" for k v using e(2) that by (force split: if_splits)
  then show ?thesis using e(1) by blast
qed

end
