(* ===== verification/Quicklist.thy ===== *)
theory Quicklist
  imports Listpack
begin

text \<open>
  The quicklist of \<open>engine/list.go\<close>, a sequence of listpack nodes. \<open>ql_rep q xs\<close>
  says that its nodes, in order, hold the elements \<open>xs\<close>, that none of them is empty and
  that none has grown past twice the fill factor. Every operation is the list operation on
  \<open>xs\<close> and keeps that invariant.
\<close>

record quicklist =
  ql_nodes :: "listpack list"
  ql_count :: int
  ql_fill :: int

definition newQuicklist :: "int \<Rightarrow> quicklist" where
  "newQuicklist fill = \<lparr>ql_nodes = [], ql_count = 0, ql_fill = (if fill < 8 then 8 else fill)\<rparr>"

definition ql_Len :: "quicklist \<Rightarrow> int" where
  "ql_Len q = ql_count q"

definition ql_Clone :: "quicklist \<Rightarrow> quicklist" where
  "ql_Clone q = \<lparr>ql_nodes = map lp_Clone (ql_nodes q), ql_count = ql_count q, ql_fill = ql_fill q\<rparr>"

definition ql_PushFront :: "quicklist \<Rightarrow> bytes \<Rightarrow> quicklist go" where
  "ql_PushFront q v =
     (let nodes = (case ql_nodes q of
                     [] \<Rightarrow> newListpack # ql_nodes q
                   | first # _ \<Rightarrow> if int (lp_Len first) \<ge> ql_fill q then newListpack # ql_nodes q else ql_nodes q)
      in do {
        n \<leftarrow> lst_nth nodes 0;
        n' \<leftarrow> lp_InsertAt n 0 v;
        Some (q\<lparr>ql_nodes := nodes[0 := n'], ql_count := ql_count q + 1\<rparr>)
      })"

definition ql_PushBack :: "quicklist \<Rightarrow> bytes \<Rightarrow> quicklist go" where
  "ql_PushBack q v =
     (let lst = int (length (ql_nodes q)) - 1
      in do {
        full \<leftarrow> (if lst < 0 then Some True
                  else map_option (\<lambda>n. int (lp_Len n) \<ge> ql_fill q) (lst_nth (ql_nodes q) lst));
        let nodes = (if full then ql_nodes q @ [newListpack] else ql_nodes q);
        let lst' = (if full then lst + 1 else lst);
        n \<leftarrow> lst_nth nodes lst';
        Some (q\<lparr>ql_nodes := nodes[nat lst' := lp_Append n v], ql_count := ql_count q + 1\<rparr>)
      })"

definition ql_dropEmpty :: "quicklist \<Rightarrow> nat \<Rightarrow> quicklist go" where
  "ql_dropEmpty q i =
     do {
       n \<leftarrow> lst_nth (ql_nodes q) (int i);
       if lp_Len n = 0 then Some (q\<lparr>ql_nodes := take i (ql_nodes q) @ drop (i + 1) (ql_nodes q)\<rparr>) else Some q
     }"

definition ql_PopFront :: "quicklist \<Rightarrow> (quicklist \<times> bytes option \<times> bool) go" where
  "ql_PopFront q =
     (if ql_count q = 0 then Some (q, None, False)
      else do {
        n \<leftarrow> lst_nth (ql_nodes q) 0;
        v \<leftarrow> lp_CopyAt n 0;
        n' \<leftarrow> lp_DeleteAt n 0;
        q' \<leftarrow> ql_dropEmpty (q\<lparr>ql_nodes := (ql_nodes q)[0 := n'], ql_count := ql_count q - 1\<rparr>) 0;
        Some (q', v, True)
      })"

definition ql_PopBack :: "quicklist \<Rightarrow> (quicklist \<times> bytes option \<times> bool) go" where
  "ql_PopBack q =
     (if ql_count q = 0 then Some (q, None, False)
      else
        let i = int (length (ql_nodes q)) - 1
        in do {
          n \<leftarrow> lst_nth (ql_nodes q) i;
          v \<leftarrow> lp_CopyAt n (int (lp_Len n) - 1);
          n' \<leftarrow> lp_DeleteAt n (int (lp_Len n) - 1);
          q' \<leftarrow> ql_dropEmpty (q\<lparr>ql_nodes := (ql_nodes q)[nat i := n'], ql_count := ql_count q - 1\<rparr>) (nat i);
          Some (q', v, True)
        })"

fun ql_locate_loop :: "listpack list \<Rightarrow> nat \<Rightarrow> int \<Rightarrow> (nat \<times> int) option" where
  "ql_locate_loop [] n i = None"
| "ql_locate_loop (lp # lps) n i =
     (if i < int (lp_Len lp) then Some (n, i) else ql_locate_loop lps (n + 1) (i - int (lp_Len lp)))"

definition ql_locate :: "quicklist \<Rightarrow> int \<Rightarrow> (nat \<times> int) option" where
  "ql_locate q i = (if i < 0 \<or> i \<ge> ql_count q then None else ql_locate_loop (ql_nodes q) 0 i)"

definition ql_At :: "quicklist \<Rightarrow> int \<Rightarrow> (bytes option \<times> bool) go" where
  "ql_At q i =
     (case ql_locate q i of None \<Rightarrow> Some (None, False)
      | Some (n, off) \<Rightarrow> do {
          node \<leftarrow> lst_nth (ql_nodes q) (int n);
          v \<leftarrow> lp_CopyAt node off;
          Some (v, True)
        })"

definition ql_SetAt :: "quicklist \<Rightarrow> int \<Rightarrow> bytes \<Rightarrow> (quicklist \<times> bool) go" where
  "ql_SetAt q i v =
     (case ql_locate q i of None \<Rightarrow> Some (q, False)
      | Some (n, off) \<Rightarrow> do {
          node \<leftarrow> lst_nth (ql_nodes q) (int n);
          node' \<leftarrow> lp_SetAt node off v;
          Some (q\<lparr>ql_nodes := (ql_nodes q)[n := node']\<rparr>, True)
        })"

definition ql_DeleteAt :: "quicklist \<Rightarrow> int \<Rightarrow> (quicklist \<times> bool) go" where
  "ql_DeleteAt q i =
     (case ql_locate q i of None \<Rightarrow> Some (q, False)
      | Some (n, off) \<Rightarrow> do {
          node \<leftarrow> lst_nth (ql_nodes q) (int n);
          node' \<leftarrow> lp_DeleteAt node off;
          q' \<leftarrow> ql_dropEmpty (q\<lparr>ql_nodes := (ql_nodes q)[n := node'], ql_count := ql_count q - 1\<rparr>) n;
          Some (q', True)
        })"

text \<open>\<open>splitIfLarge\<close>: the second half of an oversized node moves to a new node behind it.\<close>

definition ql_splitIfLarge :: "quicklist \<Rightarrow> nat \<Rightarrow> quicklist go" where
  "ql_splitIfLarge q n =
     do {
       node \<leftarrow> lst_nth (ql_nodes q) (int n);
       if int (lp_Len node) \<le> ql_fill q * 2 then Some q
       else do {
         let half = lp_Len node div 2;
         tail \<leftarrow> lp_Each node (\<lambda>t i e. (if i \<ge> half then lp_Append t e else t, True)) newListpack;
         node' \<leftarrow> lp_Truncate node (int half);
         Some (q\<lparr>ql_nodes := take n (ql_nodes q) @ [node', tail] @ drop (n + 1) (ql_nodes q)\<rparr>)
       }
     }"

text \<open>\<open>InsertAt\<close> discards the \<open>ok\<close> of \<open>locate\<close>: a miss would be node 0, offset 0.\<close>

definition ql_InsertAt :: "quicklist \<Rightarrow> int \<Rightarrow> bytes \<Rightarrow> quicklist go" where
  "ql_InsertAt q i v =
     (if i \<le> 0 then ql_PushFront q v
      else if i \<ge> ql_count q then ql_PushBack q v
      else
        let (n, off) = (case ql_locate q i of None \<Rightarrow> (0, 0) | Some p \<Rightarrow> p)
        in do {
          node \<leftarrow> lst_nth (ql_nodes q) (int n);
          node' \<leftarrow> lp_InsertAt node off v;
          ql_splitIfLarge (q\<lparr>ql_nodes := (ql_nodes q)[n := node'], ql_count := ql_count q + 1\<rparr>) n
        })"

text \<open>\<open>Each\<close>: the closure over one node carries the callback's state, the running index and \<open>stop\<close>.\<close>

definition ql_node_fn ::
  "('s \<Rightarrow> nat \<Rightarrow> bytes \<Rightarrow> 's \<times> bool) \<Rightarrow> 's \<times> nat \<times> bool \<Rightarrow> nat \<Rightarrow> bytes \<Rightarrow> ('s \<times> nat \<times> bool) \<times> bool" where
  "ql_node_fn f = (\<lambda>(s, idx, stop) _ e.
     case f s idx e of (s', go_on) \<Rightarrow>
       if go_on then ((s', idx + 1, stop), True) else ((s', idx, True), False))"

fun ql_each_nodes :: "('s \<Rightarrow> nat \<Rightarrow> bytes \<Rightarrow> 's \<times> bool) \<Rightarrow> 's \<Rightarrow> nat \<Rightarrow> listpack list \<Rightarrow> 's go" where
  "ql_each_nodes f s idx [] = Some s"
| "ql_each_nodes f s idx (n # ns) =
     do {
       (s', idx', stop) \<leftarrow> lp_Each n (ql_node_fn f) (s, idx, False);
       if stop then Some s' else ql_each_nodes f s' idx' ns
     }"

definition ql_Each :: "quicklist \<Rightarrow> ('s \<Rightarrow> nat \<Rightarrow> bytes \<Rightarrow> 's \<times> bool) \<Rightarrow> 's \<Rightarrow> 's go" where
  "ql_Each q f s = ql_each_nodes f s 0 (ql_nodes q)"

subsection \<open>The representation\<close>

definition ql_inv :: "quicklist \<Rightarrow> bytes list list \<Rightarrow> bool" where
  "ql_inv q xss \<longleftrightarrow>
     list_all2 lp_rep (ql_nodes q) xss \<and> [] \<notin> set xss \<and> ql_count q = int (length (concat xss)) \<and>
     8 \<le> ql_fill q \<and> (\<forall>ys \<in> set xss. int (length ys) \<le> 2 * ql_fill q)"

definition ql_rep :: "quicklist \<Rightarrow> bytes list \<Rightarrow> bool" where
  "ql_rep q xs \<longleftrightarrow> (\<exists>xss. ql_inv q xss \<and> xs = concat xss)"

lemma ql_invD:
  assumes "ql_inv q xss"
  shows "length (ql_nodes q) = length xss" "k < length xss \<Longrightarrow> lp_rep (ql_nodes q ! k) (xss ! k)"
    "k < length xss \<Longrightarrow> xss ! k \<noteq> []" "k < length xss \<Longrightarrow> int (length (xss ! k)) \<le> 2 * ql_fill q"
    "ql_count q = int (length (concat xss))" "8 \<le> ql_fill q"
  using assms by (auto simp: ql_inv_def list_all2_lengthD list_all2_nthD2) (metis nth_mem)

lemma lp_rep_len: "lp_rep l xs \<Longrightarrow> lp_Len l = length xs"
  by (rule lp_rep_Len)

lemma concat_node: "k < length xss \<Longrightarrow> concat xss = concat (take k xss) @ xss ! k @ concat (drop (Suc k) xss)"
  by (metis concat.simps(2) concat_append id_take_nth_drop)

lemma concat_update:
  "k < length xss \<Longrightarrow> concat (xss[k := ys]) = concat (take k xss) @ ys @ concat (drop (Suc k) xss)"
  by (simp add: upd_conv_take_nth_drop)

text \<open>Replacing one node by another that is neither empty nor too long.\<close>

lemma ql_inv_update:
  assumes "ql_inv q xss" "k < length xss" "lp_rep n ys" "ys \<noteq> []" "int (length ys) \<le> 2 * ql_fill q"
    and "c = ql_count q + int (length ys) - int (length (xss ! k))"
  shows "ql_inv (q\<lparr>ql_nodes := (ql_nodes q)[k := n], ql_count := c\<rparr>) (xss[k := ys])"
proof -
  have "length (concat (xss[k := ys])) + length (xss ! k) = length (concat xss) + length ys"
    using concat_node[OF assms(2)] arg_cong[OF concat_node[OF assms(2)], of length]
    by (simp add: concat_update[OF assms(2)])
  then show ?thesis
    using assms set_update_subset_insert[of xss k ys]
    by (auto simp: ql_inv_def list_all2_update_cong)
qed

lemma ql_locate_loop_rep:
  assumes "list_all2 lp_rep nodes xss" "0 \<le> i" "i < int (length (concat xss))"
  shows "\<exists>k off. ql_locate_loop nodes n i = Some (n + k, int off) \<and> k < length xss \<and> off < length (xss ! k) \<and>
    nat i = length (concat (take k xss)) + off"
  using assms
proof (induction nodes xss arbitrary: n i rule: list_all2_induct)
  case Nil
  then show ?case by simp
next
  case (Cons lp nodes ys xss)
  have len: "lp_Len lp = length ys" using Cons.hyps(1) by (rule lp_rep_len)
  show ?case
  proof (cases "i < int (length ys)")
    case True
    then show ?thesis using Cons.prems len by (intro exI[of _ 0] exI[of _ "nat i"]) auto
  next
    case False
    have "0 \<le> i - int (length ys)" "i - int (length ys) < int (length (concat xss))" using False Cons.prems by auto
    from Cons.IH[OF this, of "n + 1"] obtain k off where
      "ql_locate_loop nodes (n + 1) (i - int (length ys)) = Some (n + 1 + k, int off)" "k < length xss"
      "off < length (xss ! k)" "nat (i - int (length ys)) = length (concat (take k xss)) + off" by blast
    then show ?thesis using False len by (intro exI[of _ "Suc k"] exI[of _ off]) auto
  qed
qed

lemma ql_locate_rep:
  assumes "ql_inv q xss" "0 \<le> i" "i < int (length (concat xss))"
  obtains k off where "ql_locate q i = Some (k, int off)" "k < length xss" "off < length (xss ! k)"
    "nat i = length (concat (take k xss)) + off"
    "concat xss ! nat i = xss ! k ! off"
proof -
  have c: "ql_count q = int (length (concat xss))" and n: "list_all2 lp_rep (ql_nodes q) xss"
    using assms(1) by (auto simp: ql_inv_def)
  obtain k off where r: "ql_locate_loop (ql_nodes q) 0 i = Some (k, int off)" "k < length xss"
    "off < length (xss ! k)" "nat i = length (concat (take k xss)) + off"
    using ql_locate_loop_rep[OF n assms(2,3), of 0] by auto
  have "concat xss ! nat i = xss ! k ! off"
    using r(2,3) unfolding r(4) by (subst concat_node[OF r(2)]) (simp add: nth_append)
  then show thesis using that r c assms by (auto simp: ql_locate_def)
qed

lemma ql_locate_out: "ql_inv q xss \<Longrightarrow> i < 0 \<or> i \<ge> int (length (concat xss)) \<Longrightarrow> ql_locate q i = None"
  by (auto simp: ql_locate_def ql_inv_def)

lemma newQuicklist_rep [rep_intros]: "ql_rep (newQuicklist fill) []"
  by (auto simp: ql_rep_def ql_inv_def newQuicklist_def intro!: exI[of _ "[]"])

lemma ql_Len_rep: "ql_rep q xs \<Longrightarrow> ql_Len q = int (length xs)"
  by (auto simp: ql_rep_def ql_inv_def ql_Len_def)

lemma ql_Clone_id: "ql_Clone q = q"
  by (cases q) (simp add: ql_Clone_def map_idI)

subsection \<open>Reading and replacing\<close>

lemma ql_At_rep:
  assumes "ql_rep q xs"
  shows "ql_At q i = Some (if 0 \<le> i \<and> i < int (length xs) then (Some (xs ! nat i), True) else (None, False))"
proof -
  obtain xss where inv: "ql_inv q xss" and xs: "xs = concat xss" using assms by (auto simp: ql_rep_def)
  show ?thesis
  proof (cases "0 \<le> i \<and> i < int (length xs)")
    case True
    then have "0 \<le> i" "i < int (length (concat xss))" using xs by auto
    then obtain k off where l: "ql_locate q i = Some (k, int off)" "k < length xss" "off < length (xss ! k)"
      "concat xss ! nat i = xss ! k ! off" by (rule ql_locate_rep[OF inv])
    then show ?thesis using True xs ql_invD(1)[OF inv] lp_CopyAt_rep[OF ql_invD(2)[OF inv l(2)], of "int off"]
      by (simp add: ql_At_def)
  next
    case False
    then show ?thesis using ql_locate_out[OF inv, of i] xs by (auto simp: ql_At_def)
  qed
qed

lemma nth_concat_update:
  assumes "k < length xss" "off < length (xss ! k)"
  shows "(concat xss)[length (concat (take k xss)) + off := v] = concat (xss[k := (xss ! k)[off := v]])"
  unfolding concat_update[OF assms(1)] using assms(2)
  by (subst concat_node[OF assms(1)]) (simp add: list_update_append)

lemma ql_SetAt_rep:
  assumes "ql_rep q xs" "len_ok v"
  shows "\<exists>q'. ql_SetAt q i v = Some (q', 0 \<le> i \<and> i < int (length xs)) \<and>
    ql_rep q' (if 0 \<le> i \<and> i < int (length xs) then xs[nat i := v] else xs)"
proof -
  obtain xss where inv: "ql_inv q xss" and xs: "xs = concat xss" using assms by (auto simp: ql_rep_def)
  show ?thesis
  proof (cases "0 \<le> i \<and> i < int (length xs)")
    case True
    then have "0 \<le> i" "i < int (length (concat xss))" using xs by auto
    then obtain k off where l: "ql_locate q i = Some (k, int off)" "k < length xss" "off < length (xss ! k)"
      "nat i = length (concat (take k xss)) + off" by (rule ql_locate_rep[OF inv])
    obtain n where n: "lp_SetAt (ql_nodes q ! k) (int off) v = Some n" "lp_rep n ((xss ! k)[off := v])"
      using lp_SetAt_rep[OF ql_invD(2)[OF inv l(2)] assms(2), of "int off"] l(3) by auto
    have "ql_inv (q\<lparr>ql_nodes := (ql_nodes q)[k := n], ql_count := ql_count q\<rparr>) (xss[k := (xss ! k)[off := v]])"
      using ql_invD[OF inv] l n by (intro ql_inv_update[OF inv]) auto
    then have "ql_rep (q\<lparr>ql_nodes := (ql_nodes q)[k := n]\<rparr>) (xs[nat i := v])"
      unfolding ql_rep_def xs l(4) nth_concat_update[OF l(2,3)] by auto
    then show ?thesis using True l n ql_invD(1)[OF inv] by (simp add: ql_SetAt_def)
  next
    case False
    then show ?thesis using ql_locate_out[OF inv, of i] xs assms by (auto simp: ql_SetAt_def)
  qed
qed

subsection \<open>Pushing\<close>

lemma ql_inv_cons_new:
  assumes "ql_inv q xss" "lp_rep n [v]"
  shows "ql_inv (q\<lparr>ql_nodes := n # ql_nodes q, ql_count := ql_count q + 1\<rparr>) ([v] # xss)"
    "ql_inv (q\<lparr>ql_nodes := ql_nodes q @ [n], ql_count := ql_count q + 1\<rparr>) (xss @ [[v]])"
  using assms by (auto simp: ql_inv_def intro: list_all2_appendI)

lemma ql_PushFront_rep:
  assumes "ql_rep q xs" "len_ok v"
  shows "\<exists>q'. ql_PushFront q v = Some q' \<and> ql_rep q' (v # xs)"
proof -
  obtain xss where inv: "ql_inv q xss" and xs: "xs = concat xss" using assms by (auto simp: ql_rep_def)
  note d = ql_invD[OF inv]
  show ?thesis
  proof (cases "ql_nodes q = [] \<or> int (lp_Len (hd (ql_nodes q))) \<ge> ql_fill q")
    case True
    obtain n where n: "lp_InsertAt newListpack 0 v = Some n" "lp_rep n [v]"
      using lp_InsertAt_rep[OF lp_rep_new assms(2), of 0] by (auto simp: insert_at_def)
    have "ql_PushFront q v = Some (q\<lparr>ql_nodes := n # ql_nodes q, ql_count := ql_count q + 1\<rparr>)"
      using True n(1) by (cases "ql_nodes q") (auto simp: ql_PushFront_def Let_def lst_nth_def)
    then show ?thesis using ql_inv_cons_new(1)[OF inv n(2)] xs by (force simp: ql_rep_def)
  next
    case False
    then obtain n0 ns where ns: "ql_nodes q = n0 # ns" by (cases "ql_nodes q") auto
    then obtain ys yss where ys: "xss = ys # yss" using d(1) by (cases xss) auto
    have r: "lp_rep n0 ys" using d(2)[of 0] ns ys by simp
    obtain n where n: "lp_InsertAt n0 0 v = Some n" "lp_rep n (v # ys)"
      using lp_InsertAt_rep[OF r assms(2), of 0] by (auto simp: insert_at_def)
    have "int (length ys) < ql_fill q" using False ns lp_rep_len[OF r] by simp
    then have "ql_inv (q\<lparr>ql_nodes := (ql_nodes q)[0 := n], ql_count := ql_count q + 1\<rparr>) (xss[0 := v # ys])"
      using n ys d(6) by (intro ql_inv_update[OF inv]) auto
    then have "ql_rep (q\<lparr>ql_nodes := (ql_nodes q)[0 := n], ql_count := ql_count q + 1\<rparr>) (v # xs)"
      using ys xs by (force simp: ql_rep_def)
    then show ?thesis using False n ns by (auto simp: ql_PushFront_def Let_def lst_nth_def)
  qed
qed

lemma ql_PushBack_rep:
  assumes "ql_rep q xs" "len_ok v"
  shows "\<exists>q'. ql_PushBack q v = Some q' \<and> ql_rep q' (xs @ [v])"
proof -
  obtain xss where inv: "ql_inv q xss" and xs: "xs = concat xss" using assms by (auto simp: ql_rep_def)
  note d = ql_invD[OF inv]
  have new: "ql_rep (q\<lparr>ql_nodes := ql_nodes q @ [lp_Append newListpack v], ql_count := ql_count q + 1\<rparr>) (xs @ [v])"
    using ql_inv_cons_new(2)[OF inv, of "lp_Append newListpack v" v] lp_Append_rep[OF lp_rep_new assms(2)] xs
    by (force simp: ql_rep_def)
  show ?thesis
  proof (cases "ql_nodes q" rule: rev_cases)
    case Nil
    then show ?thesis using new by (auto simp: ql_PushBack_def Let_def lst_nth_def)
  next
    case (snoc ns n0)
    have nl: "lst_nth (ql_nodes q) (int (length (ql_nodes q)) - 1) = Some n0" using snoc by (simp add: lst_nth_def)
    show ?thesis
    proof (cases "int (lp_Len n0) \<ge> ql_fill q")
      case True
      then have "ql_PushBack q v =
          Some (q\<lparr>ql_nodes := ql_nodes q @ [lp_Append newListpack v], ql_count := ql_count q + 1\<rparr>)"
        using snoc nl by (simp add: ql_PushBack_def Let_def lst_nth_def nth_append list_update_append nat_add_distrib)
      then show ?thesis using new by blast
    next
      case False
      let ?k = "length ns"
      have k: "?k < length xss" using d(1) snoc by simp
      have r: "lp_rep n0 (xss ! ?k)" using d(2)[OF k] snoc by simp
      have nv: "lp_rep (lp_Append n0 v) (xss ! ?k @ [v])" using lp_Append_rep[OF r assms(2)] .
      have "int (length (xss ! ?k)) < ql_fill q" using False lp_rep_len[OF r] by simp
      then have "ql_inv (q\<lparr>ql_nodes := (ql_nodes q)[?k := lp_Append n0 v], ql_count := ql_count q + 1\<rparr>)
          (xss[?k := xss ! ?k @ [v]])"
        using nv d(6) k by (intro ql_inv_update[OF inv]) auto
      moreover have "concat (xss[?k := xss ! ?k @ [v]]) = xs @ [v]"
        using concat_update[OF k] concat_node[OF k] xs d(1) snoc by simp
      ultimately have "ql_rep (q\<lparr>ql_nodes := (ql_nodes q)[?k := lp_Append n0 v], ql_count := ql_count q + 1\<rparr>) (xs @ [v])"
        unfolding ql_rep_def by metis
      then show ?thesis using False snoc nl by (simp add: ql_PushBack_def Let_def lst_nth_def)
    qed
  qed
qed

subsection \<open>Deleting\<close>

lemma ql_drop_rep:
  assumes inv: "ql_inv q xss" and k: "k < length xss" and n: "lp_rep n ys" "length ys \<le> length (xss ! k)"
    and c: "c = ql_count q + int (length ys) - int (length (xss ! k))"
  shows "\<exists>q'. ql_dropEmpty (q\<lparr>ql_nodes := (ql_nodes q)[k := n], ql_count := c\<rparr>) k = Some q' \<and>
    ql_rep q' (concat (xss[k := ys]))"
proof (cases "ys = []")
  case False
  have "ql_inv (q\<lparr>ql_nodes := (ql_nodes q)[k := n], ql_count := c\<rparr>) (xss[k := ys])"
    using n c False ql_invD(4)[OF inv k] by (intro ql_inv_update[OF inv k]) auto
  then show ?thesis using lp_rep_len[OF n(1)] False k ql_invD(1)[OF inv] by (auto simp: ql_dropEmpty_def ql_rep_def)
next
  case True
  let ?q = "q\<lparr>ql_nodes := take k (ql_nodes q) @ drop (Suc k) (ql_nodes q), ql_count := c\<rparr>"
  have len: "length (concat xss) = length (concat (take k xss)) + length (xss ! k) + length (concat (drop (Suc k) xss))"
    by (subst concat_node[OF k]) simp
  have "ql_inv ?q (take k xss @ drop (Suc k) xss)"
    using inv c True len unfolding ql_inv_def
    by (auto intro!: list_all2_appendI list_all2_takeI list_all2_dropI dest: in_set_takeD in_set_dropD)
  moreover have "ql_dropEmpty (q\<lparr>ql_nodes := (ql_nodes q)[k := n], ql_count := c\<rparr>) k = Some ?q"
    using lp_rep_len[OF n(1)] True k ql_invD(1)[OF inv] by (simp add: ql_dropEmpty_def)
  ultimately show ?thesis using concat_update[OF k, of ys] True by (auto simp: ql_rep_def)
qed

lemma at_mid:
  "off < length b \<Longrightarrow> remove_at (length a + off) (a @ b @ c) = a @ remove_at off b @ c"
  "off < length b \<Longrightarrow> insert_at (length a + off) v (a @ b @ c) = a @ insert_at off v b @ c"
  by (simp_all add: remove_at_def insert_at_def)

lemma concat_remove_at:
  assumes "k < length xss" "off < length (xss ! k)"
  shows "remove_at (length (concat (take k xss)) + off) (concat xss) = concat (xss[k := remove_at off (xss ! k)])"
  using at_mid(1)[OF assms(2), of "concat (take k xss)" "concat (drop (Suc k) xss)"]
  unfolding concat_update[OF assms(1)] concat_node[OF assms(1), symmetric] .

lemma ql_delete_located:
  assumes inv: "ql_inv q xss" and k: "k < length xss" and off: "off < length (xss ! k)"
  shows "\<exists>n q'. lp_DeleteAt (ql_nodes q ! k) (int off) = Some n \<and>
    ql_dropEmpty (q\<lparr>ql_nodes := (ql_nodes q)[k := n], ql_count := ql_count q - 1\<rparr>) k = Some q' \<and>
    ql_rep q' (remove_at (length (concat (take k xss)) + off) (concat xss))"
proof -
  obtain n where n: "lp_DeleteAt (ql_nodes q ! k) (int off) = Some n" "lp_rep n (remove_at off (xss ! k))"
    using lp_DeleteAt_rep[OF ql_invD(2)[OF inv k], of "int off"] off by auto
  have "\<exists>q'. ql_dropEmpty (q\<lparr>ql_nodes := (ql_nodes q)[k := n], ql_count := ql_count q - 1\<rparr>) k = Some q' \<and>
    ql_rep q' (concat (xss[k := remove_at off (xss ! k)]))"
    using off by (intro ql_drop_rep[OF inv k n(2)]) auto
  then show ?thesis using n(1) concat_remove_at[OF k off] by auto
qed

lemma ql_DeleteAt_rep:
  assumes "ql_rep q xs"
  shows "\<exists>q'. ql_DeleteAt q i = Some (q', 0 \<le> i \<and> i < int (length xs)) \<and>
    ql_rep q' (if 0 \<le> i \<and> i < int (length xs) then remove_at (nat i) xs else xs)"
proof -
  obtain xss where inv: "ql_inv q xss" and xs: "xs = concat xss" using assms by (auto simp: ql_rep_def)
  show ?thesis
  proof (cases "0 \<le> i \<and> i < int (length xs)")
    case True
    then have "0 \<le> i" "i < int (length (concat xss))" using xs by auto
    then obtain k off where l: "ql_locate q i = Some (k, int off)" "k < length xss" "off < length (xss ! k)"
      "nat i = length (concat (take k xss)) + off" by (rule ql_locate_rep[OF inv])
    then show ?thesis using True ql_delete_located[OF inv l(2,3)] ql_invD(1)[OF inv] xs
      by (auto simp: ql_DeleteAt_def)
  next
    case False
    then show ?thesis using ql_locate_out[OF inv, of i] xs assms by (auto simp: ql_DeleteAt_def)
  qed
qed

lemma remove_at_0: "remove_at 0 (x # xs) = xs"
  by (simp add: remove_at_def)

lemma remove_at_last: "xs \<noteq> [] \<Longrightarrow> remove_at (length xs - Suc 0) xs = butlast xs"
  by (cases xs rule: rev_cases) (simp_all add: remove_at_def)

lemma ql_empty_iff: "ql_inv q xss \<Longrightarrow> ql_count q = 0 \<longleftrightarrow> xss = []"
proof (cases xss)
  case (Cons ys yss)
  moreover assume "ql_inv q xss"
  ultimately have "0 < length ys" "ql_count q = int (length ys) + int (length (concat yss))"
    by (auto simp: ql_inv_def)
  then have "ql_count q \<noteq> 0" by linarith
  then show ?thesis using Cons by simp
qed (simp add: ql_inv_def)

lemma ql_PopFront_rep:
  assumes "ql_rep q xs"
  shows "\<exists>q'. ql_PopFront q = Some (q', if xs = [] then None else Some (hd xs), xs \<noteq> []) \<and> ql_rep q' (tl xs)"
proof -
  obtain xss where inv: "ql_inv q xss" and xs: "xs = concat xss" using assms by (auto simp: ql_rep_def)
  show ?thesis
  proof (cases "xss = []")
    case True
    then show ?thesis using ql_empty_iff[OF inv] xs assms by (simp add: ql_PopFront_def)
  next
    case False
    then obtain y ys yss where x: "xss = (y # ys) # yss"
      using ql_invD(3)[OF inv, of 0] by (cases xss; cases "hd xss") auto
    have k: "0 < length xss" "0 < length (xss ! 0)" using x by auto
    obtain n q' where d: "lp_DeleteAt (ql_nodes q ! 0) 0 = Some n"
      "ql_dropEmpty (q\<lparr>ql_nodes := (ql_nodes q)[0 := n], ql_count := ql_count q - 1\<rparr>) 0 = Some q'"
      "ql_rep q' (tl xs)"
      using ql_delete_located[OF inv k] x xs by (auto simp: remove_at_0)
    have "lp_CopyAt (ql_nodes q ! 0) 0 = Some (Some y)" using lp_CopyAt_rep[OF ql_invD(2)[OF inv k(1)], of 0] x by simp
    then show ?thesis using d x xs ql_empty_iff[OF inv] ql_invD(1)[OF inv] by (simp add: ql_PopFront_def lst_nth_def)
  qed
qed

lemma ql_PopBack_rep:
  assumes "ql_rep q xs"
  shows "\<exists>q'. ql_PopBack q = Some (q', if xs = [] then None else Some (last xs), xs \<noteq> []) \<and> ql_rep q' (butlast xs)"
proof -
  obtain xss where inv: "ql_inv q xss" and xs: "xs = concat xss" using assms by (auto simp: ql_rep_def)
  show ?thesis
  proof (cases xss rule: rev_cases)
    case Nil
    then show ?thesis using ql_empty_iff[OF inv] xs assms by (simp add: ql_PopBack_def)
  next
    case (snoc yss ys)
    let ?k = "length yss"
    have k: "?k < length xss" "xss ! ?k = ys" using snoc by auto
    have ne: "ys \<noteq> []" using ql_invD(3)[OF inv k(1)] k(2) by simp
    have r: "lp_rep (ql_nodes q ! ?k) ys" using ql_invD(2)[OF inv k(1)] k(2) by simp
    have off: "length ys - 1 < length (xss ! ?k)" using ne k by (simp add: Suc_le_eq)
    have eq: "remove_at (length (concat (take ?k xss)) + (length ys - 1)) (concat xss) = butlast xs"
      using concat_remove_at[OF k(1) off] snoc ne xs by (simp add: remove_at_last butlast_append)
    have off': "int (length ys - 1) = int (lp_Len (ql_nodes q ! ?k)) - 1" using lp_rep_len[OF r] ne by (cases ys) auto
    obtain n q' where d: "lp_DeleteAt (ql_nodes q ! ?k) (int (lp_Len (ql_nodes q ! ?k)) - 1) = Some n"
      "ql_dropEmpty (q\<lparr>ql_nodes := (ql_nodes q)[?k := n], ql_count := ql_count q - 1\<rparr>) ?k = Some q'"
      "ql_rep q' (butlast xs)"
      using ql_delete_located[OF inv k(1) off] unfolding eq off' by blast
    have "lp_CopyAt (ql_nodes q ! ?k) (int (lp_Len (ql_nodes q ! ?k)) - 1) = Some (Some (last ys))"
      using lp_CopyAt_rep[OF r, of "int (length ys - 1)"] ne off' by (simp add: last_conv_nth)
    moreover have "lst_nth (ql_nodes q) (int (length (ql_nodes q)) - 1) = Some (ql_nodes q ! ?k)"
      "nat (int (length (ql_nodes q)) - 1) = ?k"
      using ql_invD(1)[OF inv] snoc by (simp_all add: lst_nth_def)
    ultimately show ?thesis using d ne xs snoc ql_empty_iff[OF inv] by (simp add: ql_PopBack_def Let_def)
  qed
qed

subsection \<open>Walking\<close>

lemma each_node_stop:
  obtains s' idx' stop where "each_from i (ql_node_fn f) (s, idx, False) ys = (s', idx', stop)"
    "each_from idx f s (ys @ zs) = (if stop then s' else each_from idx' f s' zs)"
proof -
  have "\<exists>s' idx' stop. each_from i (ql_node_fn f) (s, idx, False) ys = (s', idx', stop) \<and>
    each_from idx f s (ys @ zs) = (if stop then s' else each_from idx' f s' zs)"
  proof (induction ys arbitrary: i s idx)
    case (Cons y ys)
    then show ?case by (cases "f s idx y") (auto simp: ql_node_fn_def)
  next
    case Nil
    show ?case by (intro exI[of _ s] exI[of _ idx] exI[of _ False]) simp
  qed
  then show thesis using that by blast
qed

lemma ql_each_nodes_rep:
  "list_all2 lp_rep nodes xss \<Longrightarrow> ql_each_nodes f s idx nodes = Some (each_from idx f s (concat xss))"
proof (induction nodes xss arbitrary: s idx rule: list_all2_induct)
  case (Cons n nodes ys xss)
  obtain s' idx' stop where e: "each_from 0 (ql_node_fn f) (s, idx, False) ys = (s', idx', stop)"
    "each_from idx f s (ys @ concat xss) = (if stop then s' else each_from idx' f s' (concat xss))"
    by (rule each_node_stop)
  then show ?case using lp_Each_rep[OF Cons.hyps(1), of "ql_node_fn f" "(s, idx, False)"] Cons.IH by simp
qed simp

lemma ql_Each_rep: "ql_rep q xs \<Longrightarrow> ql_Each q f s = Some (each_from 0 f s xs)"
  using ql_each_nodes_rep by (auto simp: ql_rep_def ql_inv_def ql_Each_def)

subsection \<open>Inserting\<close>

lemma each_from_tail:
  assumes "lp_rep t ts" "list_all len_ok ys"
  shows "lp_rep (each_from i (\<lambda>t j e. (if j \<ge> half then lp_Append t e else t, True)) t ys) (ts @ drop (half - i) ys)"
  using assms
proof (induction ys arbitrary: i t ts)
  case (Cons y ys)
  show ?case
  proof (cases "i \<ge> half")
    case True
    then show ?thesis using Cons.IH[of "lp_Append t y" "ts @ [y]" "Suc i"] lp_Append_rep[OF Cons.prems(1), of y] Cons.prems(2)
      by simp
  next
    case False
    then have "half - i = Suc (half - Suc i)" by simp
    then show ?thesis using False Cons.IH[of t ts "Suc i"] Cons.prems by simp
  qed
qed simp

lemma ql_splitIfLarge_rep:
  assumes n: "list_all2 lp_rep (ql_nodes q) xss" and k: "k < length xss" and ne: "[] \<notin> set xss"
    and c: "ql_count q = int (length (concat xss))" and f: "8 \<le> ql_fill q"
    and others: "\<And>j. j < length xss \<Longrightarrow> j \<noteq> k \<Longrightarrow> int (length (xss ! j)) \<le> 2 * ql_fill q"
    and here: "int (length (xss ! k)) \<le> 2 * ql_fill q + 1"
  shows "\<exists>q'. ql_splitIfLarge q k = Some q' \<and> ql_rep q' (concat xss)"
proof -
  let ?n = "ql_nodes q ! k" and ?ys = "xss ! k"
  have len: "length (ql_nodes q) = length xss" using n by (rule list_all2_lengthD)
  have r: "lp_rep ?n ?ys" using n k by (simp add: list_all2_nthD2)
  show ?thesis
  proof (cases "int (length ?ys) \<le> 2 * ql_fill q")
    case True
    then have "ql_inv q xss" using assms by (auto simp: ql_inv_def in_set_conv_nth) (metis others)
    then show ?thesis using True len k lp_rep_len[OF r] by (auto simp: ql_splitIfLarge_def ql_rep_def mult.commute)
  next
    case False
    define half where "half = length ?ys div 2"
    let ?t = "each_from 0 (\<lambda>t j e. (if j \<ge> half then lp_Append t e else t, True)) newListpack ?ys"
    have t: "lp_rep ?t (drop half ?ys)"
      using each_from_tail[OF lp_rep_new, of ?ys 0 half] r by (simp add: lp_rep_def)
    obtain n' where n': "lp_Truncate ?n (int half) = Some n'" "lp_rep n' (take half ?ys)"
      using lp_Truncate_rep[OF r, of "int half"] by auto
    let ?q = "q\<lparr>ql_nodes := take k (ql_nodes q) @ [n', ?t] @ drop (k + 1) (ql_nodes q)\<rparr>"
    let ?xss = "take k xss @ [take half ?ys, drop half ?ys] @ drop (Suc k) xss"
    have cc: "concat ?xss = concat xss" using concat_node[OF k] by simp
    have big: "16 < length ?ys" using False f by linarith
    have "int (length ?ys) \<le> 4 * ql_fill q" "length ?ys - half \<le> half + 1" using here f by (auto simp: half_def)
    then have hb: "int (length (take half ?ys)) \<le> 2 * ql_fill q" "int (length (drop half ?ys)) \<le> 2 * ql_fill q"
      using here f by (auto simp: half_def)
    have ne2: "take half ?ys \<noteq> []" "drop half ?ys \<noteq> []" using big by (auto simp: half_def)
    have "ql_inv ?q ?xss"
      unfolding ql_inv_def cc
    proof (intro conjI ballI)
      show "list_all2 lp_rep (ql_nodes ?q) ?xss"
        using n n'(2) t by (auto intro!: list_all2_appendI list_all2_takeI list_all2_dropI)
      show "[] \<notin> set ?xss" using ne ne2 by (auto dest: in_set_takeD in_set_dropD)
      fix ys assume "ys \<in> set ?xss"
      then consider "ys = take half ?ys" | "ys = drop half ?ys" | "ys \<in> set (take k xss)" | "ys \<in> set (drop (Suc k) xss)" by auto
      then show "int (length ys) \<le> 2 * ql_fill ?q"
      proof cases
        case 3
        then obtain j where "j < length xss" "j < k" "ys = xss ! j" by (auto simp: in_set_conv_nth)
        then show ?thesis using others by simp
      next
        case 4
        then obtain j where "j < length xss - Suc k" "ys = xss ! (Suc k + j)" by (auto simp: in_set_conv_nth)
        then show ?thesis using others[of "Suc k + j"] by simp
      qed (use hb in auto)
    qed (use c f in auto)
    moreover have "lp_Each ?n (\<lambda>t j e. (if j \<ge> half then lp_Append t e else t, True)) newListpack = Some ?t"
      by (rule lp_Each_rep[OF r])
    then have "ql_splitIfLarge q k = Some ?q"
      using False len k lp_rep_len[OF r] n'(1) by (simp add: ql_splitIfLarge_def half_def mult.commute)
    ultimately show ?thesis using cc[symmetric] unfolding ql_rep_def by blast
  qed
qed

lemma concat_insert_at:
  assumes "k < length xss" "off < length (xss ! k)"
  shows "insert_at (length (concat (take k xss)) + off) v (concat xss) = concat (xss[k := insert_at off v (xss ! k)])"
  using at_mid(2)[OF assms(2), of "concat (take k xss)" v "concat (drop (Suc k) xss)"]
  unfolding concat_update[OF assms(1)] concat_node[OF assms(1), symmetric] .

lemma ql_InsertAt_rep:
  assumes "ql_rep q xs" "len_ok v"
  shows "\<exists>q'. ql_InsertAt q i v = Some q' \<and> ql_rep q' (insert_at (nat i) v xs)"
proof -
  obtain xss where inv: "ql_inv q xss" and xs: "xs = concat xss" using assms by (auto simp: ql_rep_def)
  consider "i \<le> 0" | "0 < i" "i \<ge> int (length xs)" | "0 < i" "i < int (length xs)" by linarith
  then show ?thesis
  proof cases
    case 1
    then show ?thesis using ql_PushFront_rep[OF assms] by (simp add: ql_InsertAt_def insert_at_def)
  next
    case 2
    then show ?thesis using ql_PushBack_rep[OF assms] ql_invD(5)[OF inv] xs by (simp add: ql_InsertAt_def insert_at_def)
  next
    case 3
    then have "0 \<le> i" "i < int (length (concat xss))" using xs by auto
    then obtain k off where l: "ql_locate q i = Some (k, int off)" "k < length xss" "off < length (xss ! k)"
      "nat i = length (concat (take k xss)) + off" by (rule ql_locate_rep[OF inv])
    obtain n where n: "lp_InsertAt (ql_nodes q ! k) (int off) v = Some n" "lp_rep n (insert_at off v (xss ! k))"
      using lp_InsertAt_rep[OF ql_invD(2)[OF inv l(2)] assms(2), of "int off"] by auto
    let ?q = "q\<lparr>ql_nodes := (ql_nodes q)[k := n], ql_count := ql_count q + 1\<rparr>"
    let ?xss = "xss[k := insert_at off v (xss ! k)]"
    have eq: "concat ?xss = insert_at (nat i) v xs" using concat_insert_at[OF l(2,3)] l(4) xs by simp
    have "\<exists>q'. ql_splitIfLarge ?q k = Some q' \<and> ql_rep q' (concat ?xss)"
    proof (rule ql_splitIfLarge_rep)
      show "list_all2 lp_rep (ql_nodes ?q) ?xss" using inv n(2) by (auto simp: ql_inv_def intro: list_all2_update_cong)
      show "[] \<notin> set ?xss"
        using inv set_update_subset_insert[of xss k "insert_at off v (xss ! k)"] by (auto simp: ql_inv_def insert_at_def)
      show "ql_count ?q = int (length (concat ?xss))" using eq ql_invD(5)[OF inv] xs by simp
      show "int (length (?xss ! j)) \<le> 2 * ql_fill ?q" if "j < length ?xss" "j \<noteq> k" for j
        using that ql_invD(4)[OF inv] by simp
      show "int (length (?xss ! k)) \<le> 2 * ql_fill ?q + 1" using ql_invD(4)[OF inv l(2)] l(2) by simp
    qed (use l ql_invD(6)[OF inv] in auto)
    then show ?thesis using 3 l n(1) eq ql_invD(1,5)[OF inv] xs by (simp add: ql_InsertAt_def)
  qed
qed

end
