(* ===== verification/List_Type.thy ===== *)
theory List_Type
  imports Quicklist Simulation
begin

text \<open>
  The list value of \<open>engine/list.go\<close>: a listpack while it is small, a quicklist once
  it has outgrown the thresholds, never back. Exactly one of the two pointers of the struct
  is set. \<open>list_rep l xs\<close> says that \<open>l\<close> holds the elements \<open>xs\<close> in
  whichever encoding; every operation is shown to be independent of the encoding.
\<close>

subsection \<open>Thresholds\<close>

record Thresholds =
  HashMaxListpackEntries :: int
  HashMaxListpackValue :: int
  ListMaxListpackSize :: int
  ListMaxListpackValue :: int
  SetMaxIntsetEntries :: int
  SetMaxListpackEntries :: int
  SetMaxListpackValue :: int
  ZSetMaxListpackEntries :: int
  ZSetMaxListpackValue :: int

definition DefaultThresholds :: Thresholds where
  "DefaultThresholds =
     \<lparr>HashMaxListpackEntries = 128, HashMaxListpackValue = 64, ListMaxListpackSize = 128,
      ListMaxListpackValue = 64, SetMaxIntsetEntries = 512, SetMaxListpackEntries = 128,
      SetMaxListpackValue = 64, ZSetMaxListpackEntries = 128, ZSetMaxListpackValue = 64\<rparr>"

definition or_default :: "int \<Rightarrow> int \<Rightarrow> int" where
  "or_default p def = (if p \<le> 0 then def else p)"

definition th_normalize :: "Thresholds \<Rightarrow> Thresholds" where
  "th_normalize t =
     (let d = DefaultThresholds
      in \<lparr>HashMaxListpackEntries = or_default (HashMaxListpackEntries t) (HashMaxListpackEntries d),
          HashMaxListpackValue = or_default (HashMaxListpackValue t) (HashMaxListpackValue d),
          ListMaxListpackSize = or_default (ListMaxListpackSize t) (ListMaxListpackSize d),
          ListMaxListpackValue = or_default (ListMaxListpackValue t) (ListMaxListpackValue d),
          SetMaxIntsetEntries = or_default (SetMaxIntsetEntries t) (SetMaxIntsetEntries d),
          SetMaxListpackEntries = or_default (SetMaxListpackEntries t) (SetMaxListpackEntries d),
          SetMaxListpackValue = or_default (SetMaxListpackValue t) (SetMaxListpackValue d),
          ZSetMaxListpackEntries = or_default (ZSetMaxListpackEntries t) (ZSetMaxListpackEntries d),
          ZSetMaxListpackValue = or_default (ZSetMaxListpackValue t) (ZSetMaxListpackValue d)\<rparr>)"

subsection \<open>Index ranges\<close>

text \<open>A negative index plus a length cannot leave the range of \<open>int64\<close>.\<close>

definition clampRange :: "int \<Rightarrow> int \<Rightarrow> int \<Rightarrow> int \<times> int \<times> bool" where
  "clampRange start0 stop0 len =
     (if len = 0 then (0, 0, False)
      else
        let start = (if start0 < 0 then start0 + len else start0);
            stop = (if stop0 < 0 then stop0 + len else stop0);
            start = (if start < 0 then 0 else start);
            stop = (if stop \<ge> len then len - 1 else stop)
        in if start > stop \<or> start \<ge> len then (0, 0, False) else (start, stop, True))"

subsection \<open>The type\<close>

datatype encoding = EncodingRaw | EncodingInt | EncodingListpack | EncodingQuicklist
  | EncodingIntset | EncodingHashtable | EncodingSkiplist

record list_t =
  l_lp :: "listpack option"
  l_ql :: "quicklist option"

definition newList :: list_t where
  "newList = \<lparr>l_lp = Some newListpack, l_ql = None\<rparr>"

definition l_Len :: "list_t \<Rightarrow> int go" where
  "l_Len l = (case l_ql l of Some q \<Rightarrow> Some (ql_Len q) | None \<Rightarrow> map_option (\<lambda>p. int (lp_Len p)) (l_lp l))"

definition l_Encoding :: "list_t \<Rightarrow> encoding" where
  "l_Encoding l = (if l_ql l \<noteq> None then EncodingQuicklist else EncodingListpack)"

definition l_Clone :: "list_t \<Rightarrow> list_t go" where
  "l_Clone l = (case l_ql l of Some q \<Rightarrow> Some \<lparr>l_lp = None, l_ql = Some (ql_Clone q)\<rparr>
     | None \<Rightarrow> map_option (\<lambda>p. \<lparr>l_lp = Some (lp_Clone p), l_ql = None\<rparr>) (l_lp l))"

text \<open>The callback of \<open>promoteIfNeeded\<close> pushes onto the new quicklist; a panic in it is \<open>None\<close>.\<close>

definition l_promoteIfNeeded :: "list_t \<Rightarrow> Thresholds \<Rightarrow> int \<Rightarrow> list_t go" where
  "l_promoteIfNeeded l t longest =
     (case l_ql l of Some q \<Rightarrow> Some l
      | None \<Rightarrow> do {
          p \<leftarrow> l_lp l;
          if int (lp_Len p) \<le> ListMaxListpackSize t \<and> longest \<le> ListMaxListpackValue t then Some l
          else do {
            r \<leftarrow> lp_Each p (\<lambda>q _ e. (q \<bind> (\<lambda>q. ql_PushBack q e), True)) (Some (newQuicklist (ListMaxListpackSize t)));
            q \<leftarrow> r;
            Some \<lparr>l_lp = None, l_ql = Some q\<rparr>
          }
        })"

definition l_Push :: "list_t \<Rightarrow> bytes \<Rightarrow> bool \<Rightarrow> Thresholds \<Rightarrow> list_t go" where
  "l_Push l v front t =
     (case l_ql l of
        Some q \<Rightarrow> map_option (\<lambda>q'. l\<lparr>l_ql := Some q'\<rparr>) (if front then ql_PushFront q v else ql_PushBack q v)
      | None \<Rightarrow> do {
          p \<leftarrow> l_lp l;
          p' \<leftarrow> (if front then lp_InsertAt p 0 v else Some (lp_Append p v));
          l_promoteIfNeeded (l\<lparr>l_lp := Some p'\<rparr>) t (int (length v))
        })"

definition l_Pop :: "list_t \<Rightarrow> bool \<Rightarrow> (list_t \<times> bytes option \<times> bool) go" where
  "l_Pop l front =
     (case l_ql l of
        Some q \<Rightarrow> map_option (\<lambda>(q', v, ok). (l\<lparr>l_ql := Some q'\<rparr>, v, ok)) (if front then ql_PopFront q else ql_PopBack q)
      | None \<Rightarrow> do {
          p \<leftarrow> l_lp l;
          if lp_Len p = 0 then Some (l, None, False)
          else do {
            let i = (if front then 0 else int (lp_Len p) - 1);
            v \<leftarrow> lp_CopyAt p i;
            p' \<leftarrow> lp_DeleteAt p i;
            Some (l\<lparr>l_lp := Some p'\<rparr>, v, True)
          }
        })"

definition l_At :: "list_t \<Rightarrow> int \<Rightarrow> (bytes option \<times> bool) go" where
  "l_At l i0 =
     do {
       n \<leftarrow> l_Len l;
       let i = (if i0 < 0 then i0 + n else i0);
       if i < 0 \<or> i \<ge> n then Some (None, False)
       else case l_ql l of Some q \<Rightarrow> ql_At q i
         | None \<Rightarrow> do { p \<leftarrow> l_lp l; v \<leftarrow> lp_CopyAt p i; Some (v, True) }
     }"

definition l_SetAt :: "list_t \<Rightarrow> int \<Rightarrow> bytes \<Rightarrow> Thresholds \<Rightarrow> (list_t \<times> bool) go" where
  "l_SetAt l i0 v t =
     do {
       n \<leftarrow> l_Len l;
       let i = (if i0 < 0 then i0 + n else i0);
       if i < 0 \<or> i \<ge> n then Some (l, False)
       else case l_ql l of
           Some q \<Rightarrow> map_option (\<lambda>(q', ok). (l\<lparr>l_ql := Some q'\<rparr>, ok)) (ql_SetAt q i v)
         | None \<Rightarrow> do {
             p \<leftarrow> l_lp l;
             p' \<leftarrow> lp_SetAt p i v;
             l' \<leftarrow> l_promoteIfNeeded (l\<lparr>l_lp := Some p'\<rparr>) t (int (length v));
             Some (l', True)
           }
     }"

definition l_Each :: "list_t \<Rightarrow> ('s \<Rightarrow> nat \<Rightarrow> bytes \<Rightarrow> 's \<times> bool) \<Rightarrow> 's \<Rightarrow> 's go" where
  "l_Each l f s = (case l_ql l of Some q \<Rightarrow> ql_Each q f s | None \<Rightarrow> l_lp l \<bind> (\<lambda>p. lp_Each p f s))"

definition l_Range :: "list_t \<Rightarrow> int \<Rightarrow> int \<Rightarrow> bytes list go" where
  "l_Range l start stop =
     do {
       n \<leftarrow> l_Len l;
       let (lo, hi, ok) = clampRange start stop n;
       if \<not> ok then Some []
       else l_Each l (\<lambda>out i e. if int i > hi then (out, False)
                                  else if int i \<ge> lo then (out @ [e], True) else (out, True)) []
     }"

definition l_Insert :: "list_t \<Rightarrow> bytes \<Rightarrow> bytes \<Rightarrow> bool \<Rightarrow> Thresholds \<Rightarrow> (list_t \<times> int) go" where
  "l_Insert l pivot v before t =
     do {
       idx0 \<leftarrow> l_Each l (\<lambda>idx i e. if e = pivot then (int i, False) else (idx, True)) (-1);
       if idx0 < 0 then Some (l, -1)
       else do {
         let idx = (if before then idx0 else idx0 + 1);
         l' \<leftarrow> (case l_ql l of
                   Some q \<Rightarrow> map_option (\<lambda>q'. l\<lparr>l_ql := Some q'\<rparr>) (ql_InsertAt q idx v)
                 | None \<Rightarrow> do {
                     p \<leftarrow> l_lp l;
                     p' \<leftarrow> lp_InsertAt p idx v;
                     l_promoteIfNeeded (l\<lparr>l_lp := Some p'\<rparr>) t (int (length v))
                   });
         n \<leftarrow> l_Len l';
         Some (l', n)
       }
     }"

definition l_deleteAt :: "list_t \<Rightarrow> int \<Rightarrow> list_t go" where
  "l_deleteAt l i =
     (case l_ql l of
        Some q \<Rightarrow> map_option (\<lambda>(q', ok). l\<lparr>l_ql := Some q'\<rparr>) (ql_DeleteAt q i)
      | None \<Rightarrow> do { p \<leftarrow> l_lp l; p' \<leftarrow> lp_DeleteAt p i; Some (l\<lparr>l_lp := Some p'\<rparr>) })"

fun l_delete_all :: "list_t \<Rightarrow> int list \<Rightarrow> list_t go" where
  "l_delete_all l [] = Some l"
| "l_delete_all l (i # is) = do { l' \<leftarrow> l_deleteAt l i; l_delete_all l' is }"

text \<open>The \<open>switch\<close> of \<open>Remove\<close>: which of the matches go.\<close>

definition remove_select :: "int \<Rightarrow> int list \<Rightarrow> int list go" where
  "remove_select count matches =
     (let len = int (length matches)
      in if count > 0 \<and> count < len then go_slice matches 0 count
         else if count < 0 then
           (let n = wrap64 (- count) in if n < len then go_slice matches (len - n) len else Some matches)
         else Some matches)"

definition l_Remove :: "list_t \<Rightarrow> int \<Rightarrow> bytes \<Rightarrow> (list_t \<times> int) go" where
  "l_Remove l count v =
     do {
       matches \<leftarrow> l_Each l (\<lambda>ms i e. (if e = v then ms @ [int i] else ms, True)) [];
       if length matches = 0 then Some (l, 0)
       else do {
         ms \<leftarrow> remove_select count matches;
         l' \<leftarrow> l_delete_all l (rev ms);
         Some (l', int (length ms))
       }
     }"

definition l_clear :: "list_t \<Rightarrow> list_t go" where
  "l_clear l =
     (case l_ql l of
        Some q \<Rightarrow> Some (l\<lparr>l_ql := Some (q\<lparr>ql_nodes := [], ql_count := 0\<rparr>)\<rparr>)
      | None \<Rightarrow> do { p \<leftarrow> l_lp l; p' \<leftarrow> lp_Truncate p 0; Some (l\<lparr>l_lp := Some p'\<rparr>) })"

definition l_Trim :: "list_t \<Rightarrow> int \<Rightarrow> int \<Rightarrow> list_t go" where
  "l_Trim l start stop =
     do {
       n \<leftarrow> l_Len l;
       let (lo, hi, ok) = clampRange start stop n;
       if \<not> ok then l_clear l
       else do {
         l' \<leftarrow> l_delete_all l (rev [hi + 1..n - 1]);
         l_delete_all l' (replicate (nat lo) 0)
       }
     }"

definition l_Pos :: "list_t \<Rightarrow> bytes \<Rightarrow> int \<Rightarrow> int \<Rightarrow> int \<Rightarrow> int list go" where
  "l_Pos l v rank0 count maxlen =
     do {
       (all, examined) \<leftarrow>
         l_Each l (\<lambda>(all, examined) i e.
           ((if e = v then all @ [int i] else all, examined + 1), maxlen \<le> 0 \<or> examined + 1 < maxlen)) ([], 0 :: int);
       let all = (if rank0 < 0 then rev all else all);
       let rank = (if rank0 < 0 then wrap64 (- rank0) else rank0);
       let rank = (if rank < 1 then 1 else rank);
       if rank - 1 \<ge> int (length all) then Some []
       else do {
         all' \<leftarrow> go_slice all (rank - 1) (int (length all));
         if count > 0 \<and> count < int (length all') then go_slice all' 0 count else Some all'
       }
     }"

subsection \<open>The representation\<close>

definition list_rep :: "list_t \<Rightarrow> bytes list \<Rightarrow> bool" where
  "list_rep l xs \<longleftrightarrow>
     (case l_ql l of Some q \<Rightarrow> l_lp l = None \<and> ql_rep q xs
      | None \<Rightarrow> (case l_lp l of Some p \<Rightarrow> lp_rep p xs | None \<Rightarrow> False))"

lemma list_repE:
  assumes "list_rep l xs"
  obtains (ql) q where "l_ql l = Some q" "l_lp l = None" "ql_rep q xs"
    | (lp) p where "l_ql l = None" "l_lp l = Some p" "lp_rep p xs"
  using assms by (auto simp: list_rep_def split: option.splits)

lemma list_rep_new: "list_rep newList []"
  by (simp add: list_rep_def newList_def lp_rep_new)

lemma l_Len_rep: "list_rep l xs \<Longrightarrow> l_Len l = Some (int (length xs))"
  by (erule list_repE) (auto simp: l_Len_def ql_Len_rep lp_rep_Len)

lemma l_Each_rep: "list_rep l xs \<Longrightarrow> l_Each l f s = Some (each_from 0 f s xs)"
  by (erule list_repE) (auto simp: l_Each_def ql_Each_rep lp_Each_rep)

lemma l_Clone_id: "list_rep l xs \<Longrightarrow> l_Clone l = Some l"
  by (erule list_repE) (auto simp: l_Clone_def ql_Clone_id)

lemma each_from_PushBack:
  assumes "ql_rep q ys" "list_all len_ok xs"
  shows "\<exists>q'. each_from i (\<lambda>q _ e. (q \<bind> (\<lambda>q. ql_PushBack q e), True)) (Some q) xs = Some q' \<and> ql_rep q' (ys @ xs)"
  using assms
proof (induction xs arbitrary: i q ys)
  case (Cons x xs)
  obtain q1 where "ql_PushBack q x = Some q1" "ql_rep q1 (ys @ [x])" using ql_PushBack_rep[of q ys x] Cons.prems by auto
  then show ?case using Cons.IH[of q1 "ys @ [x]" "Suc i"] Cons.prems by simp
qed simp

lemma l_promote_rep:
  assumes "list_rep l xs"
  shows "\<exists>l'. l_promoteIfNeeded l t longest = Some l' \<and> list_rep l' xs"
  using assms
proof (cases rule: list_repE)
  case (lp p)
  have e: "lp_Each p (\<lambda>q _ e. (q \<bind> (\<lambda>q. ql_PushBack q e), True)) (Some (newQuicklist (ListMaxListpackSize t))) =
      Some (each_from 0 (\<lambda>q _ e. (q \<bind> (\<lambda>q. ql_PushBack q e), True)) (Some (newQuicklist (ListMaxListpackSize t))) xs)"
    by (rule lp_Each_rep[OF lp(3)])
  obtain q where q: "each_from 0 (\<lambda>q _ e. (q \<bind> (\<lambda>q. ql_PushBack q e), True)) (Some (newQuicklist (ListMaxListpackSize t))) xs = Some q"
    "ql_rep q xs"
    using each_from_PushBack[OF newQuicklist_rep, of xs 0 "ListMaxListpackSize t"] lp(3) by (auto simp: lp_rep_def)
  then show ?thesis using lp e assms by (auto simp: l_promoteIfNeeded_def list_rep_def)
qed (use assms in \<open>auto simp: l_promoteIfNeeded_def\<close>)

text \<open>A change to the listpack followed by the promotion check.\<close>

lemma l_lp_promote:
  assumes "l_ql l = None" "lp_rep p xs"
  shows "\<exists>l'. l_promoteIfNeeded (l\<lparr>l_lp := Some p\<rparr>) t longest = Some l' \<and> list_rep l' xs"
  by (rule l_promote_rep) (use assms in \<open>simp add: list_rep_def\<close>)

subsection \<open>Operations\<close>

lemma l_Push_rep:
  assumes "list_rep l xs" "len_ok v"
  shows "\<exists>l'. l_Push l v front t = Some l' \<and> list_rep l' (if front then v # xs else xs @ [v])"
  using assms(1)
proof (cases rule: list_repE)
  case (ql q)
  then show ?thesis using ql_PushFront_rep[OF ql(3) assms(2)] ql_PushBack_rep[OF ql(3) assms(2)]
    by (auto simp: l_Push_def list_rep_def)
next
  case (lp p)
  obtain p' where p': "(if front then lp_InsertAt p 0 v else Some (lp_Append p v)) = Some p'"
    "lp_rep p' (if front then v # xs else xs @ [v])"
    using lp_InsertAt_rep[OF lp(3) assms(2), of 0] lp_Append_rep[OF lp(3) assms(2)]
    by (cases front) (auto simp: insert_at_def)
  then show ?thesis using l_lp_promote[OF lp(1) p'(2)] lp by (simp add: l_Push_def)
qed

lemma l_Pop_rep:
  assumes "list_rep l xs"
  shows "\<exists>l'. l_Pop l front =
      Some (l', if xs = [] then None else Some (if front then hd xs else last xs), xs \<noteq> []) \<and>
    list_rep l' (if front then tl xs else butlast xs)"
  using assms
proof (cases rule: list_repE)
  case (ql q)
  then show ?thesis using ql_PopFront_rep[OF ql(3)] ql_PopBack_rep[OF ql(3)]
    by (auto simp: l_Pop_def list_rep_def)
next
  case (lp p)
  have len: "lp_Len p = length xs" using lp_rep_Len[OF lp(3)] .
  show ?thesis
  proof (cases "xs = []")
    case True
    then show ?thesis using lp len assms by (auto simp: l_Pop_def)
  next
    case False
    define i where "i = (if front then 0 else int (length xs) - 1)"
    have i: "0 \<le> i" "i < int (length xs)" using False by (cases xs; auto simp: i_def)+
    have at: "xs ! nat i = (if front then hd xs else last xs)"
    proof -
      have "nat i = (if front then 0 else length xs - Suc 0)" by (auto simp: i_def)
      then show ?thesis using False by (simp add: hd_conv_nth last_conv_nth)
    qed
    have rm: "remove_at (nat i) xs = (if front then tl xs else butlast xs)"
    proof (cases front)
      case True
      then show ?thesis using False by (cases xs) (simp_all add: i_def remove_at_0)
    next
      case f: False
      then have "nat i = length xs - Suc 0" by (simp add: i_def)
      then show ?thesis using f False by (simp add: remove_at_last)
    qed
    obtain p' where p': "lp_DeleteAt p i = Some p'" "lp_rep p' (if front then tl xs else butlast xs)"
      using lp_DeleteAt_rep[OF lp(3), of i] i rm by auto
    have "lp_CopyAt p i = Some (Some (if front then hd xs else last xs))"
      using lp_CopyAt_rep[OF lp(3), of i] i at by simp
    moreover have "l_Pop l front = do { v \<leftarrow> lp_CopyAt p i; p' \<leftarrow> lp_DeleteAt p i; Some (l\<lparr>l_lp := Some p'\<rparr>, v, True) }"
      using lp len False by (simp add: l_Pop_def i_def Let_def)
    ultimately show ?thesis using lp p' False by (simp add: list_rep_def)
  qed
qed

definition norm_idx :: "int \<Rightarrow> nat \<Rightarrow> int" where
  "norm_idx i n = (if i < 0 then i + int n else i)"

lemma l_At_rep:
  assumes "list_rep l xs"
  shows "l_At l i = (let j = norm_idx i (length xs) in
    Some (if 0 \<le> j \<and> j < int (length xs) then (Some (xs ! nat j), True) else (None, False)))"
proof -
  define j where "j = norm_idx i (length xs)"
  have eq: "l_At l i = (if j < 0 \<or> j \<ge> int (length xs) then Some (None, False)
     else case l_ql l of Some q \<Rightarrow> ql_At q j | None \<Rightarrow> do { p \<leftarrow> l_lp l; v \<leftarrow> lp_CopyAt p j; Some (v, True) })"
    unfolding l_At_def l_Len_rep[OF assms] bind.bind_lunit Let_def j_def norm_idx_def ..
  show ?thesis unfolding Let_def j_def[symmetric] eq
    using assms by (cases rule: list_repE) (auto simp: ql_At_rep lp_CopyAt_rep)
qed

lemma l_SetAt_rep:
  fixes i :: int
  assumes "list_rep l xs" "len_ok v"
  defines "j \<equiv> norm_idx i (length xs)"
  shows "\<exists>l'. l_SetAt l i v t = Some (l', 0 \<le> j \<and> j < int (length xs)) \<and>
    list_rep l' (if 0 \<le> j \<and> j < int (length xs) then xs[nat j := v] else xs)"
proof -
  have eq: "l_SetAt l i v t = (if j < 0 \<or> j \<ge> int (length xs) then Some (l, False)
     else case l_ql l of Some q \<Rightarrow> map_option (\<lambda>(q', ok). (l\<lparr>l_ql := Some q'\<rparr>, ok)) (ql_SetAt q j v)
       | None \<Rightarrow> do { p \<leftarrow> l_lp l; p' \<leftarrow> lp_SetAt p j v;
           l' \<leftarrow> l_promoteIfNeeded (l\<lparr>l_lp := Some p'\<rparr>) t (int (length v)); Some (l', True) })"
    unfolding l_SetAt_def l_Len_rep[OF assms(1)] bind.bind_lunit Let_def j_def norm_idx_def ..
  show ?thesis
  proof (cases "0 \<le> j \<and> j < int (length xs)")
  case True
  show ?thesis using assms(1)
  proof (cases rule: list_repE)
    case (ql q)
    obtain q' where "ql_SetAt q j v = Some (q', True)" "ql_rep q' (xs[nat j := v])"
      using ql_SetAt_rep[OF ql(3) assms(2), of j] True by auto
    then show ?thesis using True ql unfolding eq by (auto simp: list_rep_def)
  next
    case (lp p)
    obtain p' where p': "lp_SetAt p j v = Some p'" "lp_rep p' (xs[nat j := v])"
      using lp_SetAt_rep[OF lp(3) assms(2), of j] True by auto
    then show ?thesis using True lp l_lp_promote[OF lp(1) p'(2), of t "int (length v)"] unfolding eq by auto
  qed
  qed (use assms(1) in \<open>auto simp: eq\<close>)
qed

lemma l_deleteAt_rep:
  assumes "list_rep l xs"
  shows "\<exists>l'. l_deleteAt l i = Some l' \<and> list_rep l' (if 0 \<le> i \<and> i < int (length xs) then remove_at (nat i) xs else xs)"
  using assms
proof (cases rule: list_repE)
  case (ql q)
  then show ?thesis using ql_DeleteAt_rep[OF ql(3), of i] by (auto simp: l_deleteAt_def list_rep_def)
next
  case (lp p)
  then show ?thesis using lp_DeleteAt_rep[OF lp(3), of i] by (auto simp: l_deleteAt_def list_rep_def)
qed

subsection \<open>Ranges\<close>

definition list_range :: "int \<Rightarrow> int \<Rightarrow> 'a list \<Rightarrow> 'a list" where
  "list_range start stop xs =
     (case clampRange start stop (int (length xs)) of (lo, hi, ok) \<Rightarrow>
        if ok then drop (nat lo) (take (nat (hi + 1)) xs) else [])"

lemma clampRange_bounds:
  "clampRange a b n = (lo, hi, True) \<Longrightarrow> 0 \<le> n \<Longrightarrow> 0 \<le> lo \<and> lo \<le> hi \<and> hi < n"
  by (auto simp: clampRange_def Let_def split: if_splits)

lemma each_from_collect:
  assumes "0 \<le> lo" "0 \<le> hi"
  shows "each_from i (\<lambda>out j e. if int j > hi then (out, False)
      else if int j \<ge> lo then (out @ [e], True) else (out, True)) out xs =
    out @ drop (nat lo - i) (take (nat (hi + 1) - i) xs)"
proof (induction xs arbitrary: i out)
  case (Cons x xs)
  show ?case
  proof (cases "int i > hi")
    case True
    then show ?thesis using assms by simp
  next
    case False
    then have t: "nat (hi + 1) - i = Suc (nat (hi + 1) - Suc i)" by linarith
    show ?thesis
    proof (cases "int i \<ge> lo")
      case True
      then have "nat lo - i = 0" "nat lo - Suc i = 0" by auto
      then show ?thesis using Cons.IH[of "Suc i" "out @ [x]"] False True t by simp
    next
      case lo: False
      then have "nat lo - i = Suc (nat lo - Suc i)" by linarith
      then show ?thesis using Cons.IH[of "Suc i" out] False lo t by simp
    qed
  qed
qed simp

lemma l_Range_rep: "list_rep l xs \<Longrightarrow> l_Range l start stop = Some (list_range start stop xs)"
proof -
  assume l: "list_rep l xs"
  obtain lo hi ok where c: "clampRange start stop (int (length xs)) = (lo, hi, ok)" by (cases "clampRange start stop (int (length xs))") auto
  show ?thesis
  proof (cases ok)
    case True
    then have b: "0 \<le> lo" "0 \<le> hi" using clampRange_bounds[of start stop "int (length xs)" lo hi] c by auto
    show ?thesis using True c each_from_collect[OF b, of 0 "[]" xs]
      by (simp add: l_Range_def list_range_def l_Len_rep[OF l] l_Each_rep[OF l])
  qed (use c l_Len_rep[OF l] in \<open>simp add: l_Range_def list_range_def\<close>)
qed

subsection \<open>Removing elements\<close>

fun positions :: "nat \<Rightarrow> 'a \<Rightarrow> 'a list \<Rightarrow> nat list" where
  "positions i v [] = []"
| "positions i v (x # xs) = (if x = v then i # positions (Suc i) v xs else positions (Suc i) v xs)"

lemma positions_ge: "j \<in> set (positions i v xs) \<Longrightarrow> i \<le> j \<and> j < i + length xs"
  by (induction i v xs rule: positions.induct) (fastforce split: if_splits)+

lemma positions_sorted: "sorted_wrt (<) (positions i v xs)"
  by (induction i v xs rule: positions.induct) (auto dest: positions_ge)

lemma set_positions: "set (positions i v xs) = {j. i \<le> j \<and> j < i + length xs \<and> xs ! (j - i) = v}"
proof (induction i v xs rule: positions.induct)
  case (2 i v x xs)
  have IH: "set (positions (Suc i) v xs) = {j. Suc i \<le> j \<and> j < Suc i + length xs \<and> xs ! (j - Suc i) = v}"
    using 2 by blast
  have "j = i \<and> x = v \<or> (Suc i \<le> j \<and> j < Suc i + length xs \<and> xs ! (j - Suc i) = v) \<longleftrightarrow>
      i \<le> j \<and> j < i + length (x # xs) \<and> (x # xs) ! (j - i) = v" for j
    by (cases "j = i") (auto simp: nth_Cons' Suc_le_eq)
  then show ?case using IH by auto
qed simp

lemma each_from_matches:
  "each_from i (\<lambda>ms j e. (if e = v then ms @ [int j] else ms, True)) ms xs = ms @ map int (positions i v xs)"
  by (induction xs arbitrary: i ms) auto

lemma nths_cong_length: "(\<And>j. j < length xs \<Longrightarrow> j \<in> A \<longleftrightarrow> j \<in> B) \<Longrightarrow> nths xs A = nths xs B"
  unfolding nths_def by (intro arg_cong[of _ _ "map fst"] filter_cong) (auto dest: set_zip_rightD)

lemma nths_remove_at:
  assumes "m < length xs" "\<And>j. j \<in> M \<Longrightarrow> j < m"
  shows "nths (remove_at m xs) (- M) = nths xs (- insert m M)"
proof -
  have M: "j \<notin> M" if "m \<le> j" for j using assms(2)[of j] that by auto
  have len: "length (take m xs) = m" using assms(1) by simp
  have a: "nths (take m xs) (- M) = nths (take m xs) (- insert m M)"
    by (rule nths_cong_length) auto
  have b: "{j. j + m \<in> - M} = UNIV" using M by auto
  have c: "{j. Suc j \<in> {j. j + m \<in> - insert m M}} = UNIV" using M by auto
  have "nths xs (- insert m M) = nths (take m xs @ xs ! m # drop (Suc m) xs) (- insert m M)"
    using id_take_nth_drop[OF assms(1)] by simp
  also have "\<dots> = nths (take m xs) (- insert m M) @ drop (Suc m) xs"
    unfolding nths_append nths_Cons len c by (simp add: nths_all)
  also have "\<dots> = nths (remove_at m xs) (- M)"
    unfolding remove_at_def nths_append len b a by (simp add: nths_all)
  finally show ?thesis by simp
qed

lemma l_delete_all_rep:
  assumes "list_rep l xs" "sorted_wrt (<) ms" "\<And>j. j \<in> set ms \<Longrightarrow> j < length xs"
  shows "\<exists>l'. l_delete_all l (map int (rev ms)) = Some l' \<and> list_rep l' (nths xs (- set ms))"
  using assms
proof (induction ms arbitrary: l xs rule: rev_induct)
  case Nil
  then show ?case by (simp add: nths_all)
next
  case (snoc m ms)
  have m: "m < length xs" "\<And>j. j \<in> set ms \<Longrightarrow> j < m" using snoc.prems by (auto simp: sorted_wrt_append)
  obtain l1 where l1: "l_deleteAt l (int m) = Some l1" "list_rep l1 (remove_at m xs)"
    using l_deleteAt_rep[OF snoc.prems(1), of "int m"] m(1) by auto
  have "\<exists>l'. l_delete_all l1 (map int (rev ms)) = Some l' \<and> list_rep l' (nths (remove_at m xs) (- set ms))"
    using snoc.prems(2) m by (intro snoc.IH[OF l1(2)]) (auto simp: sorted_wrt_append dest: m(2))
  then show ?case using l1(1) nths_remove_at[OF m(1), of "set ms"] m(2) by auto
qed

text \<open>Which occurrences \<open>Remove\<close> deletes, for each sign of the count.\<close>

definition remove_set :: "int \<Rightarrow> bytes \<Rightarrow> bytes list \<Rightarrow> nat list" where
  "remove_set count v xs =
     (let ms = positions 0 v xs
      in if count > 0 then take (nat count) ms
         else if count < 0 then drop (length ms - nat (- count)) ms
         else ms)"

lemma l_Remove_rep:
  assumes "list_rep l xs" "is_int64 count" "count \<noteq> min_int64"
  shows "\<exists>l'. l_Remove l count v = Some (l', int (length (remove_set count v xs))) \<and>
    list_rep l' (nths xs (- set (remove_set count v xs)))"
proof -
  let ?ms = "positions 0 v xs" and ?rs = "remove_set count v xs"
  let ?len = "int (length ?ms)"
  have w: "wrap64 (- count) = - count" using assms(2,3) by (intro wrap64_id) (auto simp: is_int64_def)
  have e: "l_Each l (\<lambda>ms i e. (if e = v then ms @ [int i] else ms, True)) [] = Some (map int ?ms)"
    using each_from_matches[of 0 v "[]" xs] by (simp add: l_Each_rep[OF assms(1)])
  have sel: "remove_select count (map int ?ms) = Some (map int ?rs)"
  proof -
    have "nat (?len + count) = length ?ms - nat (- count)" if "count < 0" using that by arith
    then show ?thesis unfolding remove_set_def remove_select_def Let_def w
      by (auto simp: go_slice_def take_map drop_map take_all)
  qed
  have sub: "set ?rs \<subseteq> set ?ms" by (auto simp: remove_set_def Let_def dest: in_set_takeD in_set_dropD)
  have srt: "sorted_wrt (<) ?rs"
    using positions_sorted[of 0 v xs] by (simp add: remove_set_def Let_def sorted_wrt_take sorted_wrt_drop)
  obtain l' where l': "l_delete_all l (map int (rev ?rs)) = Some l'" "list_rep l' (nths xs (- set ?rs))"
    using l_delete_all_rep[OF assms(1) srt] sub positions_ge[of _ 0 v xs] by auto
  show ?thesis
  proof (cases "?ms = []")
    case True
    then have "?rs = []" by (simp add: remove_set_def)
    then show ?thesis using True e assms(1) by (simp add: l_Remove_def nths_all)
  next
    case False
    then show ?thesis using e sel l' by (simp add: l_Remove_def rev_map Let_def)
  qed
qed

subsection \<open>Trim, insert, position\<close>

lemma l_clear_rep: "list_rep l xs \<Longrightarrow> \<exists>l'. l_clear l = Some l' \<and> list_rep l' []"
proof (erule list_repE)
  fix q assume "l_ql l = Some q" "l_lp l = None" "ql_rep q xs"
  then show ?thesis by (auto simp: l_clear_def list_rep_def ql_rep_def ql_inv_def)
next
  fix p assume p: "l_ql l = None" "l_lp l = Some p" "lp_rep p xs"
  then show ?thesis using lp_Truncate_rep[OF p(3), of 0] by (auto simp: l_clear_def list_rep_def)
qed

lemma l_delete_front:
  "list_rep l xs \<Longrightarrow> k \<le> length xs \<Longrightarrow> \<exists>l'. l_delete_all l (replicate k 0) = Some l' \<and> list_rep l' (drop k xs)"
proof (induction k arbitrary: l xs)
  case (Suc k)
  then obtain x ys where xs: "xs = x # ys" by (cases xs) auto
  obtain l1 where "l_deleteAt l 0 = Some l1" "list_rep l1 ys"
    using l_deleteAt_rep[OF Suc.prems(1), of 0] xs by (auto simp: remove_at_0)
  then show ?case using Suc.IH[of l1 ys] Suc.prems(2) xs by simp
qed simp

lemma upto_map_int: "0 \<le> a \<Longrightarrow> [a..int n - 1] = map int [nat a..<n]"
proof (induction n)
  case (Suc n)
  show ?case
  proof (cases "a \<le> int n")
    case True
    have "[a..int n] = [a..int n - 1] @ [int n]" using True by (rule upto_rec2)
    then show ?thesis using Suc True by simp
  qed (use Suc in simp)
qed simp

lemma l_Trim_rep: "list_rep l xs \<Longrightarrow> \<exists>l'. l_Trim l start stop = Some l' \<and> list_rep l' (list_range start stop xs)"
proof -
  assume l: "list_rep l xs"
  obtain lo hi ok where c: "clampRange start stop (int (length xs)) = (lo, hi, ok)" by (cases "clampRange start stop (int (length xs))") auto
  show ?thesis
  proof (cases ok)
    case True
    then have b: "0 \<le> lo" "lo \<le> hi" "hi < int (length xs)" using clampRange_bounds[of start stop "int (length xs)" lo hi] c by auto
    let ?ms = "[nat (hi + 1)..<length xs]"
    have "nths xs (- set ?ms) = nths xs {..<nat (hi + 1)}" by (rule nths_cong_length) auto
    then have tk: "nths xs (- set ?ms) = take (nat (hi + 1)) xs" by simp
    obtain l1 where l1: "l_delete_all l (rev [hi + 1..int (length xs) - 1]) = Some l1" "list_rep l1 (take (nat (hi + 1)) xs)"
      using l_delete_all_rep[OF l, of ?ms] b tk by (auto simp: upto_map_int rev_map)
    have "nat lo \<le> length (take (nat (hi + 1)) xs)" using b by auto
    from l_delete_front[OF l1(2) this] show ?thesis using True c l1(1) l_Len_rep[OF l] by (simp add: l_Trim_def list_range_def)
  qed (use c l_Len_rep[OF l] l_clear_rep[OF l] in \<open>simp add: l_Trim_def list_range_def\<close>)
qed

text \<open>\<open>Insert\<close> next to the first occurrence of the pivot.\<close>

lemma l_Insert_rep:
  fixes pivot :: bytes
  assumes "list_rep l xs" "len_ok v"
  defines "i \<equiv> first_idx 0 (\<lambda>_ e. e = pivot) xs"
  shows "\<exists>l'. l_Insert l pivot v before t = Some (l', if i < 0 then -1 else int (length xs) + 1) \<and>
    list_rep l' (if i < 0 then xs else insert_at (nat (if before then i else i + 1)) v xs)"
proof -
  have e: "l_Each l (\<lambda>idx i e. if e = pivot then (int i, False) else (idx, True)) (-1) = Some i"
    using each_from_first_idx[of 0 "\<lambda>_ e. e = pivot" xs] by (simp add: i_def l_Each_rep[OF assms(1)])
  show ?thesis
  proof (cases "i < 0")
    case True
    then show ?thesis using e assms(1) by (simp add: l_Insert_def)
  next
    case False
    let ?j = "if before then i else i + 1"
    have "\<exists>l'. (case l_ql l of Some q \<Rightarrow> map_option (\<lambda>q'. l\<lparr>l_ql := Some q'\<rparr>) (ql_InsertAt q ?j v)
       | None \<Rightarrow> do { p \<leftarrow> l_lp l; p' \<leftarrow> lp_InsertAt p ?j v;
           l_promoteIfNeeded (l\<lparr>l_lp := Some p'\<rparr>) t (int (length v)) }) = Some l' \<and> list_rep l' (insert_at (nat ?j) v xs)"
      using assms(1)
    proof (cases rule: list_repE)
      case (ql q)
      then show ?thesis using ql_InsertAt_rep[OF ql(3) assms(2), of ?j] by (auto simp: list_rep_def)
    next
      case (lp p)
      obtain p' where "lp_InsertAt p ?j v = Some p'" "lp_rep p' (insert_at (nat ?j) v xs)"
        using lp_InsertAt_rep[OF lp(3) assms(2)] by blast
      then show ?thesis using lp l_lp_promote[OF lp(1)] by simp
    qed
    then obtain l' where "(case l_ql l of Some q \<Rightarrow> map_option (\<lambda>q'. l\<lparr>l_ql := Some q'\<rparr>) (ql_InsertAt q ?j v)
       | None \<Rightarrow> do { p \<leftarrow> l_lp l; p' \<leftarrow> lp_InsertAt p ?j v;
           l_promoteIfNeeded (l\<lparr>l_lp := Some p'\<rparr>) t (int (length v)) }) = Some l'" "list_rep l' (insert_at (nat ?j) v xs)"
      by blast
    then show ?thesis using e False l_Len_rep by (simp add: l_Insert_def Let_def)
  qed
qed

lemma each_from_pos:
  assumes "maxlen \<le> 0 \<or> n < maxlen"
  shows "fst (each_from i (\<lambda>(all, examined) j e. ((if e = v then all @ [int j] else all, examined + 1),
      maxlen \<le> 0 \<or> examined + 1 < maxlen)) (all, n) xs) =
    all @ map int (positions i v (if maxlen \<le> 0 then xs else take (nat (maxlen - n)) xs))"
  using assms
proof (induction xs arbitrary: i all n)
  case (Cons x xs)
  show ?case
  proof (cases "maxlen \<le> 0 \<or> n + 1 < maxlen")
    case True
    have "nat (maxlen - n) = Suc (nat (maxlen - (n + 1)))" if "n < maxlen" using that by simp
    then show ?thesis using Cons True by auto
  next
    case False
    then have "nat (maxlen - n) = Suc 0" using Cons.prems by linarith
    then show ?thesis using False by simp
  qed
qed simp

text \<open>\<open>Pos\<close> looks at the first \<open>maxlen\<close> elements, whichever end the rank counts from.\<close>

definition list_pos :: "bytes \<Rightarrow> int \<Rightarrow> int \<Rightarrow> int \<Rightarrow> bytes list \<Rightarrow> nat list" where
  "list_pos v rank count maxlen xs =
     (let all = positions 0 v (if maxlen \<le> 0 then xs else take (nat maxlen) xs);
          all = (if rank < 0 then rev all else all);
          all = drop (nat (\<bar>rank\<bar> - 1)) all
      in if count > 0 then take (nat count) all else all)"

lemma l_Pos_rep:
  assumes "list_rep l xs" "is_int64 rank" "rank \<noteq> min_int64"
  shows "l_Pos l v rank count maxlen = Some (map int (list_pos v rank count maxlen xs))"
proof -
  let ?f = "\<lambda>(all, examined) j e. ((if e = v then all @ [int j] else all, examined + 1),
      maxlen \<le> 0 \<or> examined + 1 < maxlen)"
  let ?a0 = "positions 0 v (if maxlen \<le> 0 then xs else take (nat maxlen) xs)"
  let ?all = "if rank < 0 then rev ?a0 else ?a0"
  have w: "wrap64 (- rank) = - rank" using assms(2,3) by (intro wrap64_id) (auto simp: is_int64_def)
  have f: "fst (each_from 0 ?f ([], 0 :: int) xs) = map int ?a0"
    using each_from_pos[of maxlen 0 0 v "[]" xs] by (cases "maxlen \<le> 0") auto
  obtain ex where "each_from 0 ?f ([], 0 :: int) xs = (map int ?a0, ex)"
    using f by (cases "each_from 0 ?f ([], 0 :: int) xs") simp
  then have e: "l_Each l ?f ([], 0 :: int) = Some (map int ?a0, ex)" by (simp only: l_Each_rep[OF assms(1)])
  have rk: "(if (if rank < 0 then - rank else rank) < 1 then 1 else (if rank < 0 then - rank else rank)) - 1 = int (nat (\<bar>rank\<bar> - 1))"
    by auto
  have rv: "(if rank < 0 then rev (map int ?a0) else map int ?a0) = map int ?all" by (simp add: rev_map)
  define r where "r = nat (\<bar>rank\<bar> - 1)"
  define all where "all = ?all"
  have spec: "list_pos v rank count maxlen xs = (if count > 0 then take (nat count) (drop r all) else drop r all)"
    unfolding list_pos_def Let_def r_def all_def ..
  have "l_Pos l v rank count maxlen =
      (if int r \<ge> int (length (map int all)) then Some []
       else do { all' \<leftarrow> go_slice (map int all) (int r) (int (length (map int all)));
         if count > 0 \<and> count < int (length all') then go_slice all' 0 count else Some all' })"
    unfolding l_Pos_def e bind.bind_lunit case_prod_conv Let_def w rv rk r_def all_def ..
  also have "\<dots> = Some (map int (list_pos v rank count maxlen xs))"
  proof (cases "r \<ge> length all")
    case True
    then show ?thesis by (simp add: spec)
  next
    case False
    then have "go_slice (map int all) (int r) (int (length (map int all))) = Some (map int (drop r all))"
      by (auto simp: go_slice_def drop_map)
    moreover have "(if count > 0 \<and> count < int (length (map int (drop r all))) then go_slice (map int (drop r all)) 0 count
        else Some (map int (drop r all))) = Some (map int (list_pos v rank count maxlen xs))"
      by (auto simp: go_slice_def take_map spec)
    ultimately show ?thesis using False by simp
  qed
  finally show ?thesis .
qed

subsection \<open>A list is a sequence\<close>

text \<open>
  The interface the list commands rely on: a sequence of byte strings. The first datatype is
  its operations, with the thresholds in force at each call, the second what they return.
\<close>

datatype seq_op = SPush bytes bool | SPop bool | SAt int | SSetAt int bytes | SRange int int
  | SInsert bytes bytes bool | SRemove int bytes | STrim int int | SPos bytes int int int | SLen

datatype seq_reply = SUnit | SVal "bytes option" bool | SBool bool | SInt int | SList "bytes list" | SIdx "int list"

fun seq_spec :: "seq_op \<times> Thresholds \<Rightarrow> bytes list \<Rightarrow> bytes list \<times> seq_reply" where
  "seq_spec (SPush v front, t) xs = (if front then v # xs else xs @ [v], SUnit)"
| "seq_spec (SPop front, t) xs =
     (if front then tl xs else butlast xs,
      SVal (if xs = [] then None else Some (if front then hd xs else last xs)) (xs \<noteq> []))"
| "seq_spec (SAt i, t) xs =
     (xs, let j = norm_idx i (length xs)
          in if 0 \<le> j \<and> j < int (length xs) then SVal (Some (xs ! nat j)) True else SVal None False)"
| "seq_spec (SSetAt i v, t) xs =
     (let j = norm_idx i (length xs); ok = (0 \<le> j \<and> j < int (length xs))
      in (if ok then xs[nat j := v] else xs, SBool ok))"
| "seq_spec (SRange a b, t) xs = (xs, SList (list_range a b xs))"
| "seq_spec (SInsert pivot v before, t) xs =
     (let i = first_idx 0 (\<lambda>_ e. e = pivot) xs
      in (if i < 0 then xs else insert_at (nat (if before then i else i + 1)) v xs,
          SInt (if i < 0 then -1 else int (length xs) + 1)))"
| "seq_spec (SRemove n v, t) xs =
     (nths xs (- set (remove_set n v xs)), SInt (int (length (remove_set n v xs))))"
| "seq_spec (STrim a b, t) xs = (list_range a b xs, SUnit)"
| "seq_spec (SPos v rank n maxlen, t) xs = (xs, SIdx (map int (list_pos v rank n maxlen xs)))"
| "seq_spec (SLen, t) xs = (xs, SInt (int (length xs)))"

text \<open>Values are Go slices, and counts and ranks are \<open>int64\<close> other than the least.\<close>

fun seq_ok :: "seq_op \<times> Thresholds \<Rightarrow> bool" where
  "seq_ok (SPush v front, t) = len_ok v"
| "seq_ok (SSetAt i v, t) = len_ok v"
| "seq_ok (SInsert pivot v before, t) = len_ok v"
| "seq_ok (SRemove n v, t) = (is_int64 n \<and> n \<noteq> min_int64)"
| "seq_ok (SPos v rank n maxlen, t) = (is_int64 rank \<and> rank \<noteq> min_int64)"
| "seq_ok _ = True"

fun list_step :: "seq_op \<times> Thresholds \<Rightarrow> list_t \<Rightarrow> (list_t \<times> seq_reply) go" where
  "list_step (SPush v front, t) l = map_option (\<lambda>l'. (l', SUnit)) (l_Push l v front t)"
| "list_step (SPop front, t) l = map_option (\<lambda>(l', v, ok). (l', SVal v ok)) (l_Pop l front)"
| "list_step (SAt i, t) l = map_option (\<lambda>(v, ok). (l, SVal v ok)) (l_At l i)"
| "list_step (SSetAt i v, t) l = map_option (\<lambda>(l', ok). (l', SBool ok)) (l_SetAt l i v t)"
| "list_step (SRange a b, t) l = map_option (\<lambda>xs. (l, SList xs)) (l_Range l a b)"
| "list_step (SInsert pivot v before, t) l = map_option (\<lambda>(l', n). (l', SInt n)) (l_Insert l pivot v before t)"
| "list_step (SRemove n v, t) l = map_option (\<lambda>(l', k). (l', SInt k)) (l_Remove l n v)"
| "list_step (STrim a b, t) l = map_option (\<lambda>l'. (l', SUnit)) (l_Trim l a b)"
| "list_step (SPos v rank n maxlen, t) l = map_option (\<lambda>is. (l, SIdx is)) (l_Pos l v rank n maxlen)"
| "list_step (SLen, t) l = map_option (\<lambda>n. (l, SInt n)) (l_Len l)"

locale seq_store = simulation rep new "[]" seq_ok step seq_spec
  for rep :: "'s \<Rightarrow> bytes list \<Rightarrow> bool"
    and new :: 's
    and step :: "seq_op \<times> Thresholds \<Rightarrow> 's \<Rightarrow> ('s \<times> seq_reply) go"
begin

text \<open>What is pushed at one end and popped at the same end comes back, and the rest is untouched.\<close>

lemma push_pop:
  assumes "rep s xs" "len_ok v"
  shows "\<exists>s1 s2. step (SPush v front, t) s = Some (s1, SUnit) \<and>
    step (SPop front, t') s1 = Some (s2, SVal (Some v) True) \<and> rep s2 xs"
proof -
  obtain s1 where s1: "step (SPush v front, t) s = Some (s1, SUnit)" "rep s1 (if front then v # xs else xs @ [v])"
    using step_rep[OF assms(1), of "(SPush v front, t)"] assms(2) by auto
  show ?thesis using step_rep[OF s1(2), of "(SPop front, t')"] s1(1) by (cases front) auto
qed

end

interpretation list: seq_store list_rep newList list_step
proof unfold_locales
  show "list_rep newList []" by (rule list_rep_new)
  fix l xs and op :: "seq_op \<times> Thresholds"
  assume l: "list_rep l xs" and ok: "seq_ok op"
  obtain c t where op: "op = (c, t)" by (cases op) auto
  show "\<exists>s'. list_step op l = Some (s', snd (seq_spec op xs)) \<and> list_rep s' (fst (seq_spec op xs))"
  proof (cases c)
    case (SPush v front)
    then show ?thesis using op ok l_Push_rep[OF l, of v front t] by auto
  next
    case (SPop front)
    then show ?thesis using op l_Pop_rep[OF l, of front] by auto
  next
    case (SAt i)
    then show ?thesis using op l l_At_rep[OF l, of i] by (auto simp: Let_def)
  next
    case (SSetAt i v)
    then show ?thesis using op ok l_SetAt_rep[OF l, of v i t] by (auto simp: Let_def)
  next
    case (SRange a b)
    then show ?thesis using op l l_Range_rep[OF l, of a b] by auto
  next
    case (SInsert pivot v before)
    then show ?thesis using op ok l_Insert_rep[OF l, of v pivot before t] by (auto simp: Let_def)
  next
    case (SRemove n v)
    then show ?thesis using op ok l_Remove_rep[OF l, of n v] by auto
  next
    case (STrim a b)
    then show ?thesis using op l_Trim_rep[OF l, of a b] by auto
  next
    case (SPos v rank n maxlen)
    then show ?thesis using op ok l l_Pos_rep[OF l, of rank v n maxlen] by auto
  next
    case SLen
    then show ?thesis using op l l_Len_rep[OF l] by auto
  qed
qed

subsection \<open>Properties\<close>



text \<open>With a negative rank and a bound on the number of elements compared, \<open>Pos\<close> compares
  elements from the head although it counts matches from the tail: of three equal elements with
  \<open>maxlen\<close> 1 the match it reports is the first one.\<close>

theorem list_pos_maxlen_from_head:
  "\<exists>l. list_rep l [[7], [7], [7]] \<and> l_Pos l [7] (-1) 1 1 = Some [0]"
proof -
  let ?ops = "[(SPush [7] True, DefaultThresholds), (SPush [7] True, DefaultThresholds), (SPush [7] True, DefaultThresholds)]"
  obtain l where l: "list_rep l [[7], [7], [7]]"
    using list.run_new[of ?ops] by (auto simp: len_ok_def)
  have "l_Pos l [7] (-1) 1 1 = Some (map int (list_pos [7] (-1) 1 1 [[7], [7], [7]]))"
    using l_Pos_rep[OF l, of "-1" "[7]" 1 1] by (simp add: is_int64_def)
  then show ?thesis using l by (auto simp: list_pos_def Let_def)
qed

end
