(* ===== verification/Object.thy ===== *)
theory Object
  imports List_Type Decimal "HOL-Library.Signed_Division"
begin

text \<open>
  The stored value of \<open>engine/object.go\<close>, its size estimate (\<open>engine/memory.go\<close>),
  and the eviction bookkeeping that lives on it (\<open>engine/evict.go\<close>).

  \<open>Object.Value\<close> is an interface; \<open>obj_value\<close> has one constructor for each dynamic
  type the modelled operations store, and a type assertion that would panic is \<open>None\<close>.
  The settings of the keyspace and of the receiving database that an operation reads are the
  record \<open>env\<close>: the clock reading, the two modes, the thresholds, and the parameters that
  stand for code outside the repository (\<open>xxhash.Sum64\<close>), for the random draw of the
  frequency counter, and for the slice capacities that the Go runtime chooses.
\<close>

unbundle bit_operations_syntax

subsection \<open>Types and encodings\<close>

datatype ObjectType = TypeString | TypeList | TypeHash | TypeSet | TypeZSet

fun ObjectType_String :: "ObjectType \<Rightarrow> string" where
  "ObjectType_String TypeString = ''string''"
| "ObjectType_String TypeList = ''list''"
| "ObjectType_String TypeHash = ''hash''"
| "ObjectType_String TypeSet = ''set''"
| "ObjectType_String TypeZSet = ''zset''"

fun Encoding_String :: "encoding \<Rightarrow> string" where
  "Encoding_String EncodingRaw = ''raw''"
| "Encoding_String EncodingInt = ''int''"
| "Encoding_String EncodingListpack = ''listpack''"
| "Encoding_String EncodingQuicklist = ''quicklist''"
| "Encoding_String EncodingIntset = ''intset''"
| "Encoding_String EncodingHashtable = ''hashtable''"
| "Encoding_String EncodingSkiplist = ''skiplist''"

datatype obj_value = VInt int | VBytes bytes | VList list_t

record object =
  o_Type :: ObjectType
  o_Encoding :: encoding
  o_Value :: obj_value
  o_ExpireAt :: int
  o_LRU :: "32 word"

datatype error = ErrWrongType | ErrNotInteger | ErrNotFloat | ErrOverflow | ErrOutOfRange
  | ErrNoSuchKey | ErrValueTooLarge

text \<open>What the engine tells its \<open>EffectSink\<close> and its \<open>KeyWatcher\<close>, in order.\<close>

datatype event = Effect int "bytes list" | KeyModified int bytes

record env =
  e_Index :: int
  e_Now :: int
  e_loading :: bool
  e_replica :: bool
  e_trackAccess :: bool
  e_lfu :: bool
  e_MaxStringLength :: int
  e_limits :: Thresholds
  e_Sum64 :: "bytes \<Rightarrow> 64 word"
  e_draw :: "8 word \<Rightarrow> bool"
  e_capList :: "list_t \<Rightarrow> int"

subsection \<open>String objects\<close>

definition newIntObject :: "int \<Rightarrow> object" where
  "newIntObject n = \<lparr>o_Type = TypeString, o_Encoding = EncodingInt, o_Value = VInt n, o_ExpireAt = 0, o_LRU = 0\<rparr>"

definition newRawObject :: "bytes \<Rightarrow> object" where
  "newRawObject b = \<lparr>o_Type = TypeString, o_Encoding = EncodingRaw, o_Value = VBytes b, o_ExpireAt = 0, o_LRU = 0\<rparr>"

definition newStringObject :: "bytes \<Rightarrow> object" where
  "newStringObject val =
     (case canonicalInt val of
        Some n \<Rightarrow> \<lparr>o_Type = TypeString, o_Encoding = EncodingInt, o_Value = VInt n, o_ExpireAt = 0, o_LRU = 0\<rparr>
      | None \<Rightarrow> \<lparr>o_Type = TypeString, o_Encoding = EncodingRaw, o_Value = VBytes val, o_ExpireAt = 0, o_LRU = 0\<rparr>)"

definition stringBytes :: "object \<Rightarrow> bytes go" where
  "stringBytes ob =
     (if o_Encoding ob = EncodingInt
      then (case o_Value ob of VInt n \<Rightarrow> Some (AppendInt n) | _ \<Rightarrow> None)
      else (case o_Value ob of VBytes b \<Rightarrow> Some b | _ \<Rightarrow> None))"

definition stringLen :: "object \<Rightarrow> int go" where
  "stringLen ob =
     (if o_Encoding ob = EncodingInt
      then (case o_Value ob of VInt n \<Rightarrow> Some (int (length (AppendInt n))) | _ \<Rightarrow> None)
      else (case o_Value ob of VBytes b \<Rightarrow> Some (int (length b)) | _ \<Rightarrow> None))"

definition objectInt :: "object \<Rightarrow> (error + int) go" where
  "objectInt ob =
     (if o_Encoding ob = EncodingInt
      then (case o_Value ob of VInt n \<Rightarrow> Some (Inr n) | _ \<Rightarrow> None)
      else (case o_Value ob of
          VBytes b \<Rightarrow> Some (case ParseInt b of None \<Rightarrow> Inl ErrNotInteger | Some n \<Rightarrow> Inr n)
        | _ \<Rightarrow> None))"

definition withExpiry :: "object \<Rightarrow> int \<Rightarrow> object" where
  "withExpiry ob at = ob\<lparr>o_ExpireAt := at\<rparr>"

text \<open>Cloning a list clones its listpacks; a byte string is copied.\<close>

definition cloneObject :: "object \<Rightarrow> object go" where
  "cloneObject ob =
     (case o_Value ob of
        VList l \<Rightarrow> map_option (\<lambda>c. ob\<lparr>o_Value := VList c\<rparr>) (l_Clone l)
      | VBytes b \<Rightarrow> Some (ob\<lparr>o_Value := VBytes b\<rparr>)
      | VInt n \<Rightarrow> Some ob)"

subsection \<open>Size estimate\<close>

text \<open>
  Every byte slice that is stored was made with exactly its length, so its capacity is its
  length. The capacities inside a list are the runtime's choice: \<open>e_capList\<close>.
\<close>

definition valueSize :: "env \<Rightarrow> object \<Rightarrow> int" where
  "valueSize e ob = (case o_Value ob of VInt n \<Rightarrow> 8 | VBytes b \<Rightarrow> 24 + int (length b) | VList l \<Rightarrow> e_capList e l)"

definition objectSize :: "env \<Rightarrow> bytes \<Rightarrow> object \<Rightarrow> int" where
  "objectSize e key ob =
     int (length key) + 48 + (if o_ExpireAt ob > 0 then 32 + int (length key) else 0) + valueSize e ob"

subsection \<open>Eviction policies and the access clock\<close>

datatype EvictionPolicy = EvictNone | EvictAllKeysLRU | EvictAllKeysLFU | EvictAllKeysRandom
  | EvictVolatileLRU | EvictVolatileLFU | EvictVolatileRandom | EvictVolatileTTL

definition ParseEvictionPolicy :: "string \<Rightarrow> EvictionPolicy \<times> bool" where
  "ParseEvictionPolicy s =
     (if s = ''noeviction'' then (EvictNone, True)
      else if s = ''allkeys-lru'' then (EvictAllKeysLRU, True)
      else if s = ''allkeys-lfu'' then (EvictAllKeysLFU, True)
      else if s = ''allkeys-random'' then (EvictAllKeysRandom, True)
      else if s = ''volatile-lru'' then (EvictVolatileLRU, True)
      else if s = ''volatile-lfu'' then (EvictVolatileLFU, True)
      else if s = ''volatile-random'' then (EvictVolatileRandom, True)
      else if s = ''volatile-ttl'' then (EvictVolatileTTL, True)
      else (EvictNone, False))"

definition volatileOnly :: "EvictionPolicy \<Rightarrow> bool" where
  "volatileOnly p = (p \<in> {EvictVolatileLRU, EvictVolatileLFU, EvictVolatileRandom, EvictVolatileTTL})"

definition tracksAccess :: "EvictionPolicy \<Rightarrow> bool" where
  "tracksAccess p = (p \<in> {EvictAllKeysLRU, EvictAllKeysLFU, EvictVolatileLRU, EvictVolatileLFU})"

definition usesLFU :: "EvictionPolicy \<Rightarrow> bool" where
  "usesLFU p = (p = EvictAllKeysLFU \<or> p = EvictVolatileLFU)"

definition lfuCounter :: "32 word \<Rightarrow> 8 word" where
  "lfuCounter v = ucast (v AND 0xff)"

definition lfuMinute :: "32 word \<Rightarrow> 32 word" where
  "lfuMinute v = drop_bit 8 v"

text \<open>\<open>draw c\<close> is the outcome of comparing \<open>rand.Float64()\<close> with \<open>1/(10 c + 1)\<close>.\<close>

definition lfuTouch :: "(8 word \<Rightarrow> bool) \<Rightarrow> 32 word \<Rightarrow> 32 word \<Rightarrow> 32 word" where
  "lfuTouch draw v minute =
     (let (counter, last) = (if v = 0 then (5, minute) else (lfuCounter v, lfuMinute v));
          (counter, last) =
            (if minute > last then
               (let elapsed = minute - last
                in (if ucast counter > elapsed then counter - ucast elapsed else 0, minute))
             else (counter, last));
          counter = (if counter < 255 \<and> draw counter then counter + 1 else counter)
      in push_bit 8 last OR ucast counter)"

definition lruNow :: "env \<Rightarrow> 32 word" where
  "lruNow e = word_of_int (e_Now e sdiv 1000)"

definition touchAccess :: "env \<Rightarrow> object \<Rightarrow> object" where
  "touchAccess e ob =
     (if \<not> e_trackAccess e then ob
      else if e_lfu e then ob\<lparr>o_LRU := lfuTouch (e_draw e) (o_LRU ob) (word_of_int (e_Now e sdiv 60000))\<rparr>
      else ob\<lparr>o_LRU := lruNow e\<rparr>)"

definition evictionRank :: "object \<Rightarrow> EvictionPolicy \<Rightarrow> 64 word" where
  "evictionRank ob p =
     (case p of EvictAllKeysLRU \<Rightarrow> ucast (o_LRU ob) | EvictVolatileLRU \<Rightarrow> ucast (o_LRU ob)
      | EvictAllKeysLFU \<Rightarrow> ucast (lfuCounter (o_LRU ob)) | EvictVolatileLFU \<Rightarrow> ucast (lfuCounter (o_LRU ob))
      | EvictVolatileTTL \<Rightarrow> word_of_int (o_ExpireAt ob)
      | _ \<Rightarrow> 0)"

subsection \<open>What an object stands for\<close>

datatype aval = AStr bytes | AList "bytes list"

fun aval_type :: "aval \<Rightarrow> ObjectType" where
  "aval_type (AStr b) = TypeString"
| "aval_type (AList xs) = TypeList"

fun obj_rep :: "object \<Rightarrow> aval \<Rightarrow> bool" where
  "obj_rep ob (AStr b) \<longleftrightarrow>
     o_Type ob = TypeString \<and>
     (o_Encoding ob = EncodingInt \<and> (\<exists>n. o_Value ob = VInt n \<and> is_int64 n \<and> b = AppendInt n) \<or>
      o_Encoding ob = EncodingRaw \<and> o_Value ob = VBytes b)"
| "obj_rep ob (AList xs) \<longleftrightarrow>
     o_Type ob = TypeList \<and> xs \<noteq> [] \<and>
     (\<exists>l. o_Value ob = VList l \<and> o_Encoding ob = l_Encoding l \<and> list_rep l xs)"

lemma obj_rep_type: "obj_rep ob v \<Longrightarrow> o_Type ob = aval_type v"
  by (cases v) auto

lemma obj_rep_cong:
  "o_Type ob' = o_Type ob \<Longrightarrow> o_Encoding ob' = o_Encoding ob \<Longrightarrow> o_Value ob' = o_Value ob \<Longrightarrow>
   obj_rep ob' v = obj_rep ob v"
  by (cases v) auto

lemma touchAccess_simps [simp]:
  "o_Type (touchAccess e ob) = o_Type ob" "o_Encoding (touchAccess e ob) = o_Encoding ob"
  "o_Value (touchAccess e ob) = o_Value ob" "o_ExpireAt (touchAccess e ob) = o_ExpireAt ob"
  by (simp_all add: touchAccess_def)

lemma obj_rep_touch [simp]: "obj_rep (touchAccess e ob) v = obj_rep ob v"
  by (rule obj_rep_cong) simp_all

lemma obj_rep_upd [simp]:
  "obj_rep (ob\<lparr>o_ExpireAt := at\<rparr>) v = obj_rep ob v" "obj_rep (ob\<lparr>o_LRU := u\<rparr>) v = obj_rep ob v"
  by (rule obj_rep_cong; simp)+

lemma obj_rep_new [simp]:
  "is_int64 n \<Longrightarrow> obj_rep (newIntObject n) (AStr (AppendInt n))"
  "obj_rep (newRawObject b) (AStr b)"
  "obj_rep (newStringObject b) (AStr b)"
  by (auto simp: newIntObject_def newRawObject_def newStringObject_def dest: canonicalInt_Some split: option.splits)

lemma new_ExpireAt [simp]:
  "o_ExpireAt (newIntObject n) = 0" "o_ExpireAt (newRawObject b) = 0" "o_ExpireAt (newStringObject b) = 0"
  by (auto simp: newIntObject_def newRawObject_def newStringObject_def split: option.splits)

lemma stringBytes_rep: "obj_rep ob (AStr b) \<Longrightarrow> stringBytes ob = Some b"
  by (auto simp: stringBytes_def)

lemma stringLen_rep: "obj_rep ob (AStr b) \<Longrightarrow> stringLen ob = Some (int (length b))"
  by (auto simp: stringLen_def)

lemma objectInt_rep:
  "obj_rep ob (AStr b) \<Longrightarrow>
   objectInt ob = Some (case ParseInt b of None \<Rightarrow> Inl ErrNotInteger | Some n \<Rightarrow> Inr n)"
  by (auto simp: objectInt_def ParseInt_AppendInt)

lemma cloneObject_rep: "obj_rep ob v \<Longrightarrow> cloneObject ob = Some ob"
  by (cases v) (auto simp: cloneObject_def l_Clone_id)

declare obj_rep.simps [simp del]

subsection \<open>The packed frequency field\<close>

text \<open>The counter occupies the low byte; the minute keeps only its low 24 bits.\<close>

lemma lfu_pack:
  "lfuCounter (push_bit 8 m OR ucast (c :: 8 word)) = c"
  "lfuMinute (push_bit 8 m OR ucast (c :: 8 word)) = take_bit 24 m"
proof -
  have ff: "(0xff :: 32 word) = mask 8" by (simp add: mask_eq_exp_minus_1)
  show "lfuCounter (push_bit 8 m OR ucast c) = c"
    unfolding lfuCounter_def ff by (rule bit_word_eqI) (auto simp: bit_simps)
  show "lfuMinute (push_bit 8 m OR ucast c) = take_bit 24 m"
    by (rule bit_word_eqI) (auto simp: lfuMinute_def bit_simps dest: bit_imp_le_length)
qed

lemma lfuMinute_lt: "unat (lfuMinute v) < 2 ^ 24"
proof -
  have "unat v < 2 ^ 32" using unsigned_less[of v, where 'a = nat] by simp
  moreover from this have "unat (lfuMinute v) = unat v div 2 ^ 8"
    unfolding lfuMinute_def unsigned_drop_bit_eq by (simp add: drop_bit_eq_div take_bit_eq_mod)
  ultimately show ?thesis by (simp add: less_mult_imp_div_less)
qed

text \<open>A touch whose minute is later than the stored one, or the first touch of a key.\<close>

lemma lfuTouch_later:
  assumes "v = 0 \<or> lfuMinute v < m"
  shows "lfuTouch draw v m = push_bit 8 m OR ucast
     (let c = (if v = 0 then 5 else if ucast (lfuCounter v) > m - lfuMinute v then lfuCounter v - ucast (m - lfuMinute v) else 0)
      in if c < 255 \<and> draw c then c + 1 else c)"
  using assms by (auto simp: lfuTouch_def Let_def)

text \<open>From minute \<open>2 ^ 24\<close> on, a touch sees the last touch as at least \<open>2 ^ 24\<close> minutes old.\<close>

lemma lfu_elapsed:
  assumes "2 ^ 24 \<le> unat m0" "m0 \<le> m"
  shows "2 ^ 24 \<le> unat (m - take_bit 24 m0)" "take_bit 24 m0 < m"
proof -
  have t: "unat (take_bit 24 m0) = unat m0 mod 2 ^ 24"
    unfolding unsigned_take_bit_eq by (simp add: take_bit_eq_mod)
  have "1 \<le> unat m0 div 2 ^ 24" using assms(1) by (simp add: div_greater_zero_iff Suc_le_eq)
  from mult_le_mono1[OF this, of "2 ^ 24"] have "unat m0 mod 2 ^ 24 + 2 ^ 24 \<le> unat m0"
    using div_mult_mod_eq[of "unat m0" "2 ^ 24"] by linarith
  moreover have "unat m0 \<le> unat m" using assms(2) by (simp add: word_le_nat_alt)
  ultimately have le: "unat (take_bit 24 m0) + 2 ^ 24 \<le> unat m" unfolding t by linarith
  then show "take_bit 24 m0 < m" by (simp add: word_less_nat_alt)
  show "2 ^ 24 \<le> unat (m - take_bit 24 m0)" using le by (subst unat_sub) (auto simp: word_le_nat_alt)
qed

lemma lfuMinute_touch:
  assumes "2 ^ 24 \<le> unat m0"
  shows "lfuMinute (lfuTouch draw u m0) = take_bit 24 m0"
proof -
  have "lfuMinute u < m0" using lfuMinute_lt[of u] assms by (simp add: word_less_nat_alt)
  then show ?thesis by (simp add: lfuTouch_later lfu_pack)
qed

text \<open>
  the frequency counter under the wall clock. Minutes since the epoch passed \<open>2 ^ 24\<close>
  in 2001, and the packed field keeps only 24 bits of them. So whenever a key that has been
  touched once is touched again, at the same minute or later, its counter is first decayed to
  zero and then raised (\<open>rand.Float64()\<close> is always below \<open>1\<close>): it is one after
  every access, however often the key is read.
\<close>

theorem lfu_counter_pinned:
  assumes "2 ^ 24 \<le> unat m0" "m0 \<le> m" "draw 0" and v: "v = lfuTouch draw u m0" "v \<noteq> 0"
  shows "lfuCounter (lfuTouch draw v m) = 1"
proof -
  have min: "lfuMinute v = take_bit 24 m0" using lfuMinute_touch[OF assms(1)] v(1) by simp
  have "\<not> m - take_bit 24 m0 < ucast (lfuCounter v)"
  proof
    assume "m - take_bit 24 m0 < ucast (lfuCounter v)"
    then have "unat (m - take_bit 24 m0) < unat (lfuCounter v)" 
      using unsigned_less[of "lfuCounter v", where 'a = nat]
      by (simp add: word_less_nat_alt unsigned_ucast_eq take_bit_eq_mod)
    moreover have "unat (lfuCounter v) < 2 ^ 8" using unsigned_less[of "lfuCounter v", where 'a = nat] by simp
    ultimately show False using lfu_elapsed(1)[OF assms(1,2)] by simp
  qed
  then show ?thesis using lfu_elapsed(2)[OF assms(1,2)] v(2) assms(3)
    lfu_pack(1)[of m 1] by (simp add: lfuTouch_later[OF disjI2] min)
qed

theorem lfu_counter_pinned_witness:
  "lfuCounter (lfuTouch (\<lambda>c. c < 3) (lfuTouch (\<lambda>c. c < 3) 0 28400000) 28400000) = 1"
proof -
  have "unat (28400000 :: 32 word) = 28400000" by simp
  moreover have "lfuTouch (\<lambda>c. c < 3) 0 28400000 \<noteq> 0" by (simp add: lfuTouch_def)
  ultimately show ?thesis using lfu_counter_pinned[of 28400000 28400000 "\<lambda>c. c < 3" "lfuTouch (\<lambda>c. c < 3) 0 28400000" 0] by simp
qed

end
