(* ===== verification/Shard.thy ===== *)
theory Shard
  imports Object
begin

text \<open>
  One partition of a database: the \<open>shard\<close> struct of \<open>engine/keyspace.go\<close> and the two
  families of accessors over it. The table is a map from keys to objects, which is what the
  theory \<open>Dict_Map\<close> shows \<open>dict\<close> to be. A method that is called with the
  shard locked is a function from the shard to the shard it leaves behind; what it tells the
  sink and the watcher is returned beside it, in order. An object is a pointer in the source:
  a change made through it is written back under its key with \<open>put_obj\<close>.
\<close>

record shard =
  sh_dict :: "bytes \<rightharpoonup> object"
  sh_expires :: "bytes set"
  sh_memory :: int
  sh_hits :: int
  sh_misses :: int
  sh_expiredKeys :: int
  sh_evictedKeys :: int
  sh_changes :: int

definition newShard :: shard where
  "newShard = \<lparr>sh_dict = Map.empty, sh_expires = {}, sh_memory = 0, sh_hits = 0, sh_misses = 0,
     sh_expiredKeys = 0, sh_evictedKeys = 0, sh_changes = 0\<rparr>"

definition put_obj :: "shard \<Rightarrow> bytes \<Rightarrow> object \<Rightarrow> shard" where
  "put_obj s key ob = s\<lparr>sh_dict := (sh_dict s)(key \<mapsto> ob)\<rparr>"

definition expiredAt :: "env \<Rightarrow> object \<Rightarrow> int \<Rightarrow> bool" where
  "expiredAt e ob now \<longleftrightarrow> o_ExpireAt ob \<noteq> 0 \<and> o_ExpireAt ob \<le> now \<and> \<not> e_loading e"

definition expired :: "env \<Rightarrow> object \<Rightarrow> bool" where
  "expired e ob \<longleftrightarrow> o_ExpireAt ob \<noteq> 0 \<and> expiredAt e ob (e_Now e)"

definition delCommand :: bytes where
  "delCommand = lit ''DEL''"

definition touched :: "env \<Rightarrow> bytes \<Rightarrow> event list" where
  "touched e key = [KeyModified (e_Index e) key]"

subsection \<open>Changing a shard\<close>

definition store :: "env \<Rightarrow> shard \<Rightarrow> bytes \<Rightarrow> object \<Rightarrow> shard" where
  "store e s key ob =
     (let s1 = (case sh_dict s key of
                  Some old \<Rightarrow> s\<lparr>sh_memory := sh_memory s - objectSize e key old,
                     sh_expires := (if o_ExpireAt old > 0 \<and> o_ExpireAt ob = 0 then sh_expires s - {key} else sh_expires s)\<rparr>
                | None \<Rightarrow> s);
          s2 = s1\<lparr>sh_dict := (sh_dict s1)(key \<mapsto> ob)\<rparr>;
          s3 = (if o_ExpireAt ob > 0 then s2\<lparr>sh_expires := insert key (sh_expires s2)\<rparr> else s2)
      in s3\<lparr>sh_memory := sh_memory s3 + objectSize e key ob, sh_changes := sh_changes s3 + 1\<rparr>)"

text \<open>The second argument is the object, or \<open>nil\<close> for one that is not known yet.\<close>

definition removeLocked :: "env \<Rightarrow> shard \<Rightarrow> bytes \<Rightarrow> object option \<Rightarrow> shard" where
  "removeLocked e s key ob0 =
     (case (case ob0 of None \<Rightarrow> sh_dict s key | Some ob \<Rightarrow> Some ob) of
        None \<Rightarrow> s
      | Some ob \<Rightarrow> s\<lparr>sh_dict := (sh_dict s)(key := None), sh_expires := sh_expires s - {key},
          sh_memory := sh_memory s - objectSize e key ob, sh_changes := sh_changes s + 1\<rparr>)"

definition setExpireLocked :: "shard \<Rightarrow> bytes \<Rightarrow> object \<Rightarrow> int \<Rightarrow> shard" where
  "setExpireLocked s key ob at =
     (let s = put_obj s key (ob\<lparr>o_ExpireAt := at\<rparr>)
      in s\<lparr>sh_expires := (if at > 0 then insert key (sh_expires s) else sh_expires s - {key}),
           sh_changes := sh_changes s + 1\<rparr>)"

definition replaceValue :: "env \<Rightarrow> shard \<Rightarrow> bytes \<Rightarrow> object \<Rightarrow> object \<Rightarrow> shard" where
  "replaceValue e s key old new = store e s key (new\<lparr>o_ExpireAt := o_ExpireAt old, o_LRU := o_LRU old\<rparr>)"

definition expireKey :: "env \<Rightarrow> shard \<Rightarrow> bytes \<Rightarrow> object \<Rightarrow> shard \<times> event list" where
  "expireKey e s key ob =
     (let s = removeLocked e s key (Some ob)
      in (s\<lparr>sh_expiredKeys := sh_expiredKeys s + 1\<rparr>,
          [Effect (e_Index e) [delCommand, key], KeyModified (e_Index e) key]))"

subsection \<open>Reading a shard\<close>

definition peek :: "env \<Rightarrow> shard \<Rightarrow> bytes \<Rightarrow> shard \<times> object option" where
  "peek e s key =
     (case sh_dict s key of None \<Rightarrow> (s, None)
      | Some ob \<Rightarrow>
          let ob = touchAccess e ob; s = put_obj s key ob
          in if expired e ob then (s, None) else (s, Some ob))"

definition peekRead :: "env \<Rightarrow> shard \<Rightarrow> bytes \<Rightarrow> shard \<times> object option" where
  "peekRead e s key =
     (let (s, r) = peek e s key
      in (if r = None then s\<lparr>sh_misses := sh_misses s + 1\<rparr> else s\<lparr>sh_hits := sh_hits s + 1\<rparr>, r))"

definition lookup :: "env \<Rightarrow> shard \<Rightarrow> bytes \<Rightarrow> shard \<times> event list \<times> object option" where
  "lookup e s key =
     (case sh_dict s key of None \<Rightarrow> (s, [], None)
      | Some ob \<Rightarrow>
          let ob = touchAccess e ob; s = put_obj s key ob
          in if \<not> expired e ob then (s, [], Some ob)
             else if \<not> e_replica e then (let (s, ev) = expireKey e s key ob in (s, ev, None))
             else (s, [], None))"

definition typed :: "object option \<Rightarrow> ObjectType \<Rightarrow> error + object option" where
  "typed r t =
     (case r of None \<Rightarrow> Inr None
      | Some ob \<Rightarrow> if o_Type ob \<noteq> t then Inl ErrWrongType else Inr (Some ob))"

definition peekType :: "env \<Rightarrow> shard \<Rightarrow> bytes \<Rightarrow> ObjectType \<Rightarrow> shard \<times> (error + object option)" where
  "peekType e s key t = (let (s, r) = peekRead e s key in (s, typed r t))"

definition lookupType :: "env \<Rightarrow> shard \<Rightarrow> bytes \<Rightarrow> ObjectType \<Rightarrow> shard \<times> event list \<times> (error + object option)" where
  "lookupType e s key t = (let (s, ev, r) = lookup e s key in (s, ev, typed r t))"

datatype Access = ReadAccess | WriteAccess

definition get_access :: "env \<Rightarrow> shard \<Rightarrow> bytes \<Rightarrow> Access \<Rightarrow> shard \<times> event list \<times> object option" where
  "get_access e s key a =
     (if a = WriteAccess then lookup e s key else (let (s, r) = peekRead e s key in (s, [], r)))"

subsection \<open>Collections\<close>

text \<open>
  The object already carries the collection as the operation left it: the value is a pointer,
  and \<open>finishWrite\<close> runs after the change.
\<close>

definition finishWrite :: "env \<Rightarrow> shard \<Rightarrow> bytes \<Rightarrow> object \<Rightarrow> list_t \<Rightarrow> (shard \<times> event list) go" where
  "finishWrite e s key ob c =
     do {
       n \<leftarrow> l_Len c;
       if n = 0 then Some (removeLocked e s key (Some ob), touched e key)
       else
         (let prev = objectSize e key ob;
              ob' = ob\<lparr>o_Encoding := l_Encoding c\<rparr>;
              s = put_obj s key ob'
          in Some (s\<lparr>sh_memory := sh_memory s + (objectSize e key ob' - prev), sh_changes := sh_changes s + 1\<rparr>,
                   touched e key))
     }"

definition newCollection :: "env \<Rightarrow> shard \<Rightarrow> bytes \<Rightarrow> ObjectType \<Rightarrow> list_t \<Rightarrow> shard \<times> object" where
  "newCollection e s key t c =
     (let ob = \<lparr>o_Type = t, o_Encoding = l_Encoding c, o_Value = VList c, o_ExpireAt = 0, o_LRU = 0\<rparr>
      in (store e s key ob, ob))"

definition asList :: "error + object option \<Rightarrow> (error + (object \<times> list_t) option) go" where
  "asList r =
     (case r of Inl err \<Rightarrow> Some (Inl err) | Inr None \<Rightarrow> Some (Inr None)
      | Inr (Some ob) \<Rightarrow> (case o_Value ob of VList l \<Rightarrow> Some (Inr (Some (ob, l))) | _ \<Rightarrow> None))"

definition listAt :: "env \<Rightarrow> shard \<Rightarrow> bytes \<Rightarrow> (shard \<times> event list \<times> (error + (object \<times> list_t) option)) go" where
  "listAt e s key = (let (s, ev, r) = lookupType e s key TypeList in map_option (\<lambda>r. (s, ev, r)) (asList r))"

definition listRead :: "env \<Rightarrow> shard \<Rightarrow> bytes \<Rightarrow> (shard \<times> (error + (object \<times> list_t) option)) go" where
  "listRead e s key = (let (s, r) = peekType e s key TypeList in map_option (\<lambda>r. (s, r)) (asList r))"

subsection \<open>The invariant\<close>

text \<open>
  The index of keys with a TTL names exactly the keys whose object has one, and every object
  is well formed. The size estimate is not part of it.
\<close>

definition index_ok :: "shard \<Rightarrow> bool" where
  "index_ok s \<longleftrightarrow> sh_expires s = {k. \<exists>ob. sh_dict s k = Some ob \<and> 0 < o_ExpireAt ob}"

definition obj_ok :: "object \<Rightarrow> bool" where
  "obj_ok ob \<longleftrightarrow> (\<exists>v. obj_rep ob v) \<and> 0 \<le> o_ExpireAt ob"

definition shard_ok :: "shard \<Rightarrow> bool" where
  "shard_ok s \<longleftrightarrow> index_ok s \<and> (\<forall>k ob. sh_dict s k = Some ob \<longrightarrow> obj_ok ob)"

definition same_others :: "bytes \<Rightarrow> shard \<Rightarrow> shard \<Rightarrow> bool" where
  "same_others key s s' \<longleftrightarrow> (\<forall>k. k \<noteq> key \<longrightarrow> sh_dict s' k = sh_dict s k)"

type_synonym aentry = "aval \<times> int"

text \<open>What a client can see of a key: nothing when it is absent or past due.\<close>

definition entry_rep :: "env \<Rightarrow> shard \<Rightarrow> bytes \<Rightarrow> aentry option \<Rightarrow> bool" where
  "entry_rep e s key a \<longleftrightarrow>
     (case a of None \<Rightarrow> (\<forall>ob. sh_dict s key = Some ob \<longrightarrow> expired e ob)
      | Some (v, at) \<Rightarrow> \<exists>ob. sh_dict s key = Some ob \<and> \<not> expired e ob \<and> obj_rep ob v \<and> o_ExpireAt ob = at)"

text \<open>An entry that is stored with a deadline is visible only if the deadline is ahead.\<close>

definition live_entry :: "env \<Rightarrow> aval \<Rightarrow> int \<Rightarrow> aentry option" where
  "live_entry e v at = (if at \<noteq> 0 \<and> at \<le> e_Now e \<and> \<not> e_loading e then None else Some (v, at))"

lemma expired_iff: "expired e ob \<longleftrightarrow> o_ExpireAt ob \<noteq> 0 \<and> o_ExpireAt ob \<le> e_Now e \<and> \<not> e_loading e"
  by (auto simp: expired_def expiredAt_def)

lemma expired_touch [simp]: "expired e (touchAccess e' ob) = expired e ob"
  by (simp add: expired_iff)

lemma obj_okI: "obj_rep ob v \<Longrightarrow> 0 \<le> o_ExpireAt ob \<Longrightarrow> obj_ok ob"
  by (auto simp: obj_ok_def)

lemma obj_ok_touch [simp]: "obj_ok (touchAccess e ob) = obj_ok ob"
  by (simp add: obj_ok_def)

lemma shard_ok_new: "shard_ok newShard"
  by (auto simp: shard_ok_def index_ok_def newShard_def)

lemma shard_okD:
  assumes "shard_ok s"
  shows "index_ok s" "sh_dict s k = Some ob \<Longrightarrow> obj_ok ob"
  using assms by (auto simp: shard_ok_def)

lemma same_others_refl [simp]: "same_others key s s"
  by (simp add: same_others_def)

lemma same_others_trans: "same_others key s s' \<Longrightarrow> same_others key s' s'' \<Longrightarrow> same_others key s s''"
  by (simp add: same_others_def)

lemma entry_exists: "shard_ok s \<Longrightarrow> \<exists>a. entry_rep e s key a"
proof (cases "\<exists>ob. sh_dict s key = Some ob \<and> \<not> expired e ob")
  case True
  moreover assume "shard_ok s"
  ultimately obtain ob v where "sh_dict s key = Some ob" "\<not> expired e ob" "obj_rep ob v"
    unfolding shard_ok_def obj_ok_def by blast
  then show ?thesis by (auto simp: entry_rep_def intro!: exI[of _ "Some (v, o_ExpireAt ob)"])
qed (auto simp: entry_rep_def intro!: exI[of _ None])

text \<open>Changes that do not touch the table keep everything that is said about it.\<close>

lemma counters_ok [simp]:
  "shard_ok (s\<lparr>sh_hits := h\<rparr>) = shard_ok s" "shard_ok (s\<lparr>sh_misses := h\<rparr>) = shard_ok s"
  "shard_ok (s\<lparr>sh_expiredKeys := h\<rparr>) = shard_ok s" "shard_ok (s\<lparr>sh_memory := h\<rparr>) = shard_ok s"
  "shard_ok (s\<lparr>sh_changes := h\<rparr>) = shard_ok s" "shard_ok (s\<lparr>sh_evictedKeys := h\<rparr>) = shard_ok s"
  by (simp_all add: shard_ok_def index_ok_def)

lemma shard_ok_dict:
  assumes "index_ok s'" "same_others key s s'" "shard_ok s" "\<And>ob. sh_dict s' key = Some ob \<Longrightarrow> obj_ok ob"
  shows "shard_ok s'"
  using assms unfolding shard_ok_def same_others_def by metis

subsection \<open>Effect of the primitives\<close>

lemma put_obj_simps [simp]:
  "sh_dict (put_obj s key ob) = (sh_dict s)(key \<mapsto> ob)" "sh_expires (put_obj s key ob) = sh_expires s"
  by (simp_all add: put_obj_def)

lemma put_obj_ok:
  assumes "shard_ok s" "sh_dict s key = Some ob" "o_ExpireAt ob' = o_ExpireAt ob" "obj_ok ob'"
  shows "shard_ok (put_obj s key ob')"
  using assms by (auto simp: shard_ok_def index_ok_def split: if_splits)

lemma store_dict [simp]: "sh_dict (store e s key ob) = (sh_dict s)(key \<mapsto> ob)"
  by (simp add: store_def Let_def split: option.splits)

lemma store_expires [simp]:
  "sh_expires (store e s key ob) =
     (let x = (case sh_dict s key of Some old \<Rightarrow> if o_ExpireAt old > 0 \<and> o_ExpireAt ob = 0 then sh_expires s - {key} else sh_expires s
               | None \<Rightarrow> sh_expires s)
      in if o_ExpireAt ob > 0 then insert key x else x)"
  by (simp add: store_def Let_def split: option.splits)

lemma store_index_ok:
  assumes "index_ok s" "0 \<le> o_ExpireAt ob"
  shows "index_ok (store e s key ob)"
  using assms by (auto simp: index_ok_def Let_def split: option.splits if_splits)

lemma store_ok: "shard_ok s \<Longrightarrow> obj_ok ob \<Longrightarrow> shard_ok (store e s key ob)"
  by (rule shard_ok_dict[where key = key and s = s])
    (auto simp: store_index_ok shard_okD obj_ok_def same_others_def)

lemma removeLocked_simps [simp]:
  "sh_dict (removeLocked e s key (Some ob)) = (sh_dict s)(key := None)"
  "sh_expires (removeLocked e s key (Some ob)) = sh_expires s - {key}"
  by (simp_all add: removeLocked_def)

lemma removeLocked_index_ok: "index_ok s \<Longrightarrow> index_ok (removeLocked e s key (Some ob))"
  by (auto simp: index_ok_def)

lemma removeLocked_ok: "shard_ok s \<Longrightarrow> shard_ok (removeLocked e s key (Some ob))"
  by (auto simp: shard_ok_def removeLocked_index_ok split: if_splits)

lemma setExpireLocked_simps [simp]:
  "sh_dict (setExpireLocked s key ob at) = (sh_dict s)(key \<mapsto> ob\<lparr>o_ExpireAt := at\<rparr>)"
  "sh_expires (setExpireLocked s key ob at) = (if at > 0 then insert key (sh_expires s) else sh_expires s - {key})"
  by (simp_all add: setExpireLocked_def Let_def)

lemma setExpireLocked_ok:
  assumes "shard_ok s" "obj_rep ob v" "0 \<le> at"
  shows "shard_ok (setExpireLocked s key ob at)"
  using assms by (auto simp: shard_ok_def index_ok_def obj_ok_def split: if_splits)

subsection \<open>The accessors\<close>

text \<open>What \<open>lookup\<close> says when it removes a key that is past due.\<close>

definition reap_events :: "env \<Rightarrow> shard \<Rightarrow> bytes \<Rightarrow> event list" where
  "reap_events e s key =
     (case sh_dict s key of None \<Rightarrow> []
      | Some ob \<Rightarrow> if expired e ob \<and> \<not> e_replica e
          then [Effect (e_Index e) [delCommand, key], KeyModified (e_Index e) key] else [])"

definition found :: "env \<Rightarrow> shard \<Rightarrow> bytes \<Rightarrow> aentry option \<Rightarrow> object option \<Rightarrow> bool" where
  "found e s key a r \<longleftrightarrow>
     (case a of None \<Rightarrow> r = None
      | Some (v, at) \<Rightarrow> \<exists>ob. r = Some ob \<and> sh_dict s key = Some ob \<and> \<not> expired e ob \<and> obj_rep ob v \<and> o_ExpireAt ob = at)"

lemma foundE:
  assumes "found e s key a r"
  obtains (none) "a = None" "r = None"
    | (some) ob v at where "a = Some (v, at)" "r = Some ob" "sh_dict s key = Some ob" "\<not> expired e ob"
        "obj_rep ob v" "o_ExpireAt ob = at"
  using assms by (cases a) (auto simp: found_def)

lemma lookup_rep:
  assumes "shard_ok s" "entry_rep e s key a"
  obtains s' r where "lookup e s key = (s', reap_events e s key, r)" "shard_ok s'" "same_others key s s'"
    "found e s' key a r" "entry_rep e s' key a"
proof (cases "sh_dict s key")
  case None
  then show ?thesis using that[of s None] assms
    by (auto simp: lookup_def reap_events_def found_def entry_rep_def split: option.splits)
next
  case (Some ob)
  define s1 where "s1 = put_obj s key (touchAccess e ob)"
  have ok: "shard_ok s1" unfolding s1_def by (rule put_obj_ok[OF assms(1) Some]) (use shard_okD[OF assms(1)] Some in simp_all)
  have s1: "sh_dict s1 = (sh_dict s)(key \<mapsto> touchAccess e ob)" by (simp add: s1_def)
  show ?thesis
  proof (cases "expired e ob")
    case False
    then show ?thesis using that[of s1 "Some (touchAccess e ob)"] Some ok s1 assms(2)
      by (auto simp: lookup_def Let_def s1_def reap_events_def found_def entry_rep_def same_others_def split: option.splits)
  next
    case True
    then have a: "a = None" using assms(2) Some by (auto simp: entry_rep_def split: option.splits)
    show ?thesis
    proof (cases "e_replica e")
      case rep: True
      then show ?thesis using that[of s1 None] Some ok s1 a True
        by (auto simp: lookup_def Let_def s1_def reap_events_def found_def entry_rep_def same_others_def)
    next
      case False
      let ?s2 = "removeLocked e s1 key (Some (touchAccess e ob))"
      show ?thesis using that[of "?s2\<lparr>sh_expiredKeys := sh_expiredKeys ?s2 + 1\<rparr>" None] Some ok s1 a True False
        by (auto simp: lookup_def s1_def[symmetric] reap_events_def found_def entry_rep_def same_others_def
            expireKey_def Let_def removeLocked_ok)
    qed
  qed
qed

lemma peek_rep:
  assumes "shard_ok s" "entry_rep e s key a"
  obtains s' r where "peek e s key = (s', r)" "shard_ok s'" "same_others key s s'"
    "found e s' key a r" "entry_rep e s' key a"
proof (cases "sh_dict s key")
  case None
  then show ?thesis using that[of s None] assms
    by (auto simp: peek_def found_def entry_rep_def split: option.splits)
next
  case (Some ob)
  define s1 where "s1 = put_obj s key (touchAccess e ob)"
  have ok: "shard_ok s1" unfolding s1_def by (rule put_obj_ok[OF assms(1) Some]) (use shard_okD[OF assms(1)] Some in simp_all)
  have s1: "sh_dict s1 = (sh_dict s)(key \<mapsto> touchAccess e ob)" by (simp add: s1_def)
  then show ?thesis
    using that[of s1 "if expired e ob then None else Some (touchAccess e ob)"] Some ok assms(2)
    by (auto simp: peek_def s1_def[symmetric] found_def entry_rep_def same_others_def split: option.splits if_splits)
qed

lemma dict_only:
  assumes "sh_dict s' = sh_dict s"
  shows "found e s' key = found e s key" "entry_rep e s' key = entry_rep e s key"
    "same_others key t s' = same_others key t s"
  unfolding found_def entry_rep_def same_others_def assms by (rule refl)+

lemma peekRead_rep:
  assumes "shard_ok s" "entry_rep e s key a"
  obtains s' r where "peekRead e s key = (s', r)" "shard_ok s'" "same_others key s s'"
    "found e s' key a r" "entry_rep e s' key a"
proof -
  obtain s1 r where p: "peek e s key = (s1, r)" "shard_ok s1" "same_others key s s1"
    "found e s1 key a r" "entry_rep e s1 key a" using peek_rep[OF assms] .
  define s2 where "s2 = (if r = None then s1\<lparr>sh_misses := sh_misses s1 + 1\<rparr> else s1\<lparr>sh_hits := sh_hits s1 + 1\<rparr>)"
  have d: "sh_dict s2 = sh_dict s1" and ok: "shard_ok s2" using p(2) by (simp_all add: s2_def)
  have "peekRead e s key = (s2, r)" by (simp add: peekRead_def p(1) s2_def)
  from that[OF this ok, unfolded dict_only[OF d], OF p(3-5)] show ?thesis .
qed

subsection \<open>The contract of an operation on one key\<close>

text \<open>
  \<open>meets e s key w sig c a r\<close>: the operation \<open>c\<close>, run on the shard \<open>s\<close>, returns
  without a panic and answers \<open>r\<close>; afterwards a client sees \<open>a\<close> under the key and what it saw
  before under every other one, and the invariant holds. Its events are the \<open>DEL\<close> of a
  reaped key if it looked the key up for writing (\<open>w\<close>), then one notification if it
  changed the key (\<open>sig\<close>).
\<close>

definition meets :: "env \<Rightarrow> shard \<Rightarrow> bytes \<Rightarrow> bool \<Rightarrow> bool \<Rightarrow> (shard \<times> event list \<times> 'r) go \<Rightarrow> aentry option \<Rightarrow> 'r \<Rightarrow> bool" where
  "meets e s key w sig c a r \<longleftrightarrow>
     (\<exists>s'. c = Some (s', (if w then reap_events e s key else []) @ (if sig then touched e key else []), r) \<and>
        shard_ok s' \<and> same_others key s s' \<and> entry_rep e s' key a)"

lemma meetsI:
  assumes "shard_ok s'" "same_others key s s'" "entry_rep e s' key a"
    "ev = (if w then reap_events e s key else []) @ (if sig then touched e key else [])"
  shows "meets e s key w sig (Some (s', ev, r)) a r"
  using assms by (auto simp: meets_def)

lemma live_entry_rep:
  "obj_rep ob v \<Longrightarrow> sh_dict s key = Some ob \<Longrightarrow> entry_rep e s key (live_entry e v (o_ExpireAt ob))"
  by (auto simp: live_entry_def entry_rep_def expired_iff)

lemma entry_live: "entry_rep e s key (Some (v, at)) \<Longrightarrow> live_entry e v at = Some (v, at)"
  by (auto simp: live_entry_def entry_rep_def expired_iff)

lemma meets_store:
  assumes "shard_ok s1" "same_others key s s1" "obj_rep ob v" "0 \<le> o_ExpireAt ob" "at = o_ExpireAt ob"
  shows "meets e s key True True (Some (store e s1 key ob, reap_events e s key @ touched e key, r)) (live_entry e v at) r"
  using assms by (intro meetsI) (auto simp: same_others_def intro!: live_entry_rep store_ok intro: obj_okI)

lemma meets_remove:
  assumes "shard_ok s1" "same_others key s s1"
  shows "meets e s key True True (Some (removeLocked e s1 key (Some ob), reap_events e s key @ touched e key, r)) None r"
  using assms by (intro meetsI) (auto simp: removeLocked_ok same_others_def entry_rep_def)

lemma meets_setExpire:
  assumes "shard_ok s1" "same_others key s s1" "obj_rep ob v" "0 \<le> at"
  shows "meets e s key True True (Some (setExpireLocked s1 key ob at, reap_events e s key @ touched e key, r)) (live_entry e v at) r"
  using assms live_entry_rep[of "ob\<lparr>o_ExpireAt := at\<rparr>" v "setExpireLocked s1 key ob at" key e]
  by (intro meetsI setExpireLocked_ok[where v = v]) (auto simp: same_others_def)

lemma meets_same:
  assumes "shard_ok s1" "same_others key s s1" "entry_rep e s1 key a"
  shows "meets e s key True False (Some (s1, reap_events e s key, r)) a r"
  using assms by (intro meetsI) auto

lemma meets_read:
  assumes "shard_ok s1" "same_others key s s1" "entry_rep e s1 key a"
  shows "meets e s key False False (Some (s1, [], r)) a r"
  using assms by (intro meetsI) auto

lemmas meets_rules = meets_store meets_remove meets_setExpire meets_same meets_read

text \<open>The same with the specification of the operation as one value.\<close>

type_synonym 'r kspec = "aentry option \<times> bool \<times> bool \<times> 'r"

definition implements :: "env \<Rightarrow> shard \<Rightarrow> bytes \<Rightarrow> (shard \<times> event list \<times> 'r) go \<Rightarrow> 'r kspec \<Rightarrow> bool" where
  "implements e s key c sp \<longleftrightarrow> (case sp of (a, w, sig, r) \<Rightarrow> meets e s key w sig c a r)"

lemma implements_simp [simp]: "implements e s key c (a, w, sig, r) = meets e s key w sig c a r"
  by (simp add: implements_def)

lemma lookupType_rep:
  assumes "shard_ok s" "entry_rep e s key a"
  obtains (wrong) s' v at where "a = Some (v, at)" "aval_type v \<noteq> t"
      "lookupType e s key t = (s', reap_events e s key, Inl ErrWrongType)" "shard_ok s'" "same_others key s s'" "entry_rep e s' key a"
    | (none) s' where "a = None" "lookupType e s key t = (s', reap_events e s key, Inr None)"
      "shard_ok s'" "same_others key s s'" "entry_rep e s' key a"
    | (some) s' v at ob where "a = Some (v, at)" "aval_type v = t"
      "lookupType e s key t = (s', reap_events e s key, Inr (Some ob))" "shard_ok s'" "same_others key s s'" "entry_rep e s' key a"
      "sh_dict s' key = Some ob" "obj_rep ob v" "o_ExpireAt ob = at" "0 \<le> at" "live_entry e v at = Some (v, at)"
proof -
  obtain s' r where l: "lookup e s key = (s', reap_events e s key, r)" "shard_ok s'" "same_others key s s'"
    "found e s' key a r" "entry_rep e s' key a" using lookup_rep[OF assms] .
  from l(4) show thesis
  proof (cases rule: foundE)
    case none
    then show ?thesis using that(2)[of s'] l by (simp add: lookupType_def typed_def)
  next
    case (some ob v at)
    have "0 \<le> at" using shard_okD(2)[OF l(2) some(3)] some(6) by (simp add: obj_ok_def)
    moreover have "live_entry e v at = Some (v, at)" using entry_live l(5) some(1) by blast
    moreover have "lookupType e s key t = (s', reap_events e s key, typed r t)" by (simp add: lookupType_def l(1))
    ultimately show ?thesis using that(1)[of v at s'] that(3)[of v at s' ob] l some obj_rep_type[OF some(5)]
      by (cases "aval_type v = t") (simp_all add: typed_def)
  qed
qed

lemma peekType_rep:
  assumes "shard_ok s" "entry_rep e s key a"
  obtains (wrong) s' v at where "a = Some (v, at)" "aval_type v \<noteq> t"
      "peekType e s key t = (s', Inl ErrWrongType)" "shard_ok s'" "same_others key s s'" "entry_rep e s' key a"
    | (none) s' where "a = None" "peekType e s key t = (s', Inr None)"
      "shard_ok s'" "same_others key s s'" "entry_rep e s' key a"
    | (some) s' v at ob where "a = Some (v, at)" "aval_type v = t"
      "peekType e s key t = (s', Inr (Some ob))" "shard_ok s'" "same_others key s s'" "entry_rep e s' key a"
      "obj_rep ob v"
proof -
  obtain s' r where l: "peekRead e s key = (s', r)" "shard_ok s'" "same_others key s s'"
    "found e s' key a r" "entry_rep e s' key a" using peekRead_rep[OF assms] .
  from l(4) show thesis
  proof (cases rule: foundE)
    case none
    then show ?thesis using that(2)[of s'] l by (simp add: peekType_def typed_def)
  next
    case (some ob v at)
    have "peekType e s key t = (s', typed r t)" by (simp add: peekType_def l(1))
    then show ?thesis using that(1)[of v at s'] that(3)[of v at s' ob] l some obj_rep_type[OF some(5)]
      by (cases "aval_type v = t") (simp_all add: typed_def)
  qed
qed

lemma aval_string: "aval_type v = TypeString \<Longrightarrow> (\<And>b. v = AStr b \<Longrightarrow> P) \<Longrightarrow> P"
  by (cases v) auto

lemma aval_list: "aval_type v = TypeList \<Longrightarrow> (\<And>xs. v = AList xs \<Longrightarrow> P) \<Longrightarrow> P"
  by (cases v) auto

text \<open>Replacing the value of an object that was found keeps its deadline.\<close>

lemma meets_replace:
  assumes "shard_ok s1" "same_others key s s1" "obj_rep new v" "o_ExpireAt ob = at" "0 \<le> at"
    "live_entry e v at = a"
  shows "meets e s key True True (Some (replaceValue e s1 key ob new, reap_events e s key @ touched e key, r)) a r"
  unfolding replaceValue_def assms(6)[symmetric] using assms by (intro meets_store) auto

lemma live_entry_any: "live_entry e v at = Some (v, at) \<Longrightarrow> live_entry e v' at = Some (v', at)"
  by (auto simp: live_entry_def split: if_splits)

lemma live_entry_0 [simp]: "live_entry e v 0 = Some (v, 0)"
  by (simp add: live_entry_def)

lemma meets_new:
  assumes "shard_ok s1" "same_others key s s1" "obj_rep ob v" "o_ExpireAt ob = 0"
  shows "meets e s key True True (Some (store e s1 key ob, reap_events e s key @ touched e key, r)) (Some (v, 0)) r"
  using meets_store[OF assms(1-3), of 0 e r] assms(4) by simp

end
