(* ===== verification/String_Ops.thy ===== *)
theory String_Ops
  imports Shard
begin

text \<open>
  The string commands of \<open>engine/string.go\<close>. Each operation runs on the shard of its key, with
  the shard locked; beside it stands what it means for the key: what a client sees before,
  what it sees after, and the answer. A second reading of the clock is an argument of its own.
\<close>

record SetOptions =
  so_NX :: bool
  so_XX :: bool
  so_Get :: bool
  so_KeepTTL :: bool
  so_At :: int

text \<open>\<open>sr_Old\<close> is \<open>Old\<close> when \<open>OldExists\<close> and \<open>None\<close> otherwise.\<close>

record SetResult =
  sr_Set :: bool
  sr_Old :: "bytes option"

subsection \<open>Operations\<close>

definition sh_Get :: "env \<Rightarrow> bytes \<Rightarrow> shard \<Rightarrow> (shard \<times> event list \<times> (error + bytes option)) go" where
  "sh_Get e key s =
     (let (s, r) = peekType e s key TypeString
      in case r of Inl err \<Rightarrow> Some (s, [], Inl err) | Inr None \<Rightarrow> Some (s, [], Inr None)
         | Inr (Some ob) \<Rightarrow> do { b \<leftarrow> stringBytes ob; Some (s, [], Inr (Some b)) })"

definition set_previous :: "SetOptions \<Rightarrow> object option \<Rightarrow> (error + bytes option) go" where
  "set_previous opts old =
     (if so_Get opts then
        (case old of None \<Rightarrow> Some (Inr None)
         | Some ob \<Rightarrow> if o_Type ob \<noteq> TypeString then Some (Inl ErrWrongType)
             else do { b \<leftarrow> stringBytes ob; Some (Inr (Some b)) })
      else Some (Inr None))"

definition sh_Set :: "env \<Rightarrow> bytes \<Rightarrow> bytes \<Rightarrow> SetOptions \<Rightarrow> shard \<Rightarrow> (shard \<times> event list \<times> (error + SetResult)) go" where
  "sh_Set e key val opts s =
     (if int (length val) > e_MaxStringLength e then Some (s, [], Inl ErrValueTooLarge)
      else
        let (s, ev, old) = lookup e s key
        in do {
          prev \<leftarrow> set_previous opts old;
          case prev of Inl err \<Rightarrow> Some (s, ev, Inl err)
          | Inr p \<Rightarrow>
            if so_NX opts \<and> old \<noteq> None \<or> so_XX opts \<and> old = None
            then Some (s, ev, Inr \<lparr>sr_Set = False, sr_Old = p\<rparr>)
            else
              let ob = newStringObject val;
                  ob = (if so_At opts > 0 then ob\<lparr>o_ExpireAt := so_At opts\<rparr>
                        else case old of
                            Some old \<Rightarrow> if so_KeepTTL opts then ob\<lparr>o_ExpireAt := o_ExpireAt old\<rparr> else ob
                          | None \<Rightarrow> ob)
              in Some (store e s key ob, ev @ touched e key, Inr \<lparr>sr_Set = True, sr_Old = p\<rparr>)
        })"

definition sh_GetDel :: "env \<Rightarrow> bytes \<Rightarrow> shard \<Rightarrow> (shard \<times> event list \<times> (error + bytes option)) go" where
  "sh_GetDel e key s =
     (let (s, ev, r) = lookupType e s key TypeString
      in case r of Inl err \<Rightarrow> Some (s, ev, Inl err) | Inr None \<Rightarrow> Some (s, ev, Inr None)
         | Inr (Some ob) \<Rightarrow> do {
             val \<leftarrow> stringBytes ob;
             Some (removeLocked e s key (Some ob), ev @ touched e key, Inr (Some val))
           })"

definition sh_GetEx :: "env \<Rightarrow> bytes \<Rightarrow> int \<Rightarrow> bool \<Rightarrow> int \<Rightarrow> shard \<Rightarrow> (shard \<times> event list \<times> (error + bytes option)) go" where
  "sh_GetEx e key at persist now2 s =
     (let (s, ev, r) = lookupType e s key TypeString
      in case r of Inl err \<Rightarrow> Some (s, ev, Inl err) | Inr None \<Rightarrow> Some (s, ev, Inr None)
         | Inr (Some ob) \<Rightarrow> do {
             val \<leftarrow> stringBytes ob;
             if persist \<and> o_ExpireAt ob \<noteq> 0
             then Some (setExpireLocked s key ob 0, ev @ touched e key, Inr (Some val))
             else if at > 0
             then Some (if at \<le> now2 then removeLocked e s key (Some ob) else setExpireLocked s key ob at,
                        ev @ touched e key, Inr (Some val))
             else Some (s, ev, Inr (Some val))
           })"

definition sh_StrLen :: "env \<Rightarrow> bytes \<Rightarrow> shard \<Rightarrow> (shard \<times> event list \<times> (error + int)) go" where
  "sh_StrLen e key s =
     (let (s, r) = peekType e s key TypeString
      in case r of Inl err \<Rightarrow> Some (s, [], Inl err) | Inr None \<Rightarrow> Some (s, [], Inr 0)
         | Inr (Some ob) \<Rightarrow> do { n \<leftarrow> stringLen ob; Some (s, [], Inr n) })"

definition sh_Append :: "env \<Rightarrow> bytes \<Rightarrow> bytes \<Rightarrow> shard \<Rightarrow> (shard \<times> event list \<times> (error + int)) go" where
  "sh_Append e key val s =
     (let (s, ev, r) = lookupType e s key TypeString
      in case r of Inl err \<Rightarrow> Some (s, ev, Inl err)
         | Inr None \<Rightarrow>
             if int (length val) > e_MaxStringLength e then Some (s, ev, Inl ErrValueTooLarge)
             else Some (store e s key (newRawObject val), ev @ touched e key, Inr (int (length val)))
         | Inr (Some ob) \<Rightarrow> do {
             cur \<leftarrow> stringBytes ob;
             if int (length cur + length val) > e_MaxStringLength e then Some (s, ev, Inl ErrValueTooLarge)
             else
               let next = replicate (length cur + length val) 0;
                   next = copy_at next 0 cur;
                   next = copy_at next (length cur) val
               in Some (replaceValue e s key ob (newRawObject next), ev @ touched e key, Inr (int (length next)))
           })"

definition getRangeBounds :: "int \<Rightarrow> int \<Rightarrow> int \<Rightarrow> int \<times> int \<times> bool" where
  "getRangeBounds start stop len =
     (if start < 0 \<and> stop < 0 \<and> start > stop then (0, 0, False)
      else
        let start = (if start < 0 then max start (- len) + len else start);
            stop = (if stop < 0 then max stop (- len) + len else stop);
            stop = (if stop \<ge> len then len - 1 else stop)
        in if start > stop \<or> len = 0 then (0, 0, False) else (start, stop, True))"

definition sh_GetRange :: "env \<Rightarrow> bytes \<Rightarrow> int \<Rightarrow> int \<Rightarrow> shard \<Rightarrow> (shard \<times> event list \<times> (error + bytes)) go" where
  "sh_GetRange e key start stop s =
     (let (s, r) = peekType e s key TypeString
      in case r of Inl err \<Rightarrow> Some (s, [], Inl err) | Inr None \<Rightarrow> Some (s, [], Inr [])
         | Inr (Some ob) \<Rightarrow> do {
             val \<leftarrow> stringBytes ob;
             let (lo, hi, ok) = getRangeBounds start stop (int (length val));
             if \<not> ok then Some (s, [], Inr [])
             else do { b \<leftarrow> go_slice val lo (hi + 1); Some (s, [], Inr b) }
           })"

text \<open>The sum \<open>offset + len(val)\<close> is computed in 64 bits; \<open>next[offset:]\<close> is a slice expression.\<close>

definition setRange_next :: "int \<Rightarrow> bytes \<Rightarrow> bytes \<Rightarrow> (bytes \<times> int) go" where
  "setRange_next offset val cur =
     do {
       let size = int (length cur);
       let stop = wrap64 (offset + int (length val));
       let size = (if stop > size then stop else size);
       let next = copy_at (replicate (nat size) 0) 0 cur;
       _ \<leftarrow> go_slice next offset size;
       Some (copy_at next (nat offset) val, size)
     }"

definition sh_SetRange :: "env \<Rightarrow> bytes \<Rightarrow> int \<Rightarrow> bytes \<Rightarrow> shard \<Rightarrow> (shard \<times> event list \<times> (error + int)) go" where
  "sh_SetRange e key offset val s =
     (if offset < 0 then Some (s, [], Inl ErrOutOfRange)
      else if wrap64 (offset + int (length val)) > e_MaxStringLength e then Some (s, [], Inl ErrValueTooLarge)
      else
        let (s, ev, r) = lookupType e s key TypeString
        in case r of Inl err \<Rightarrow> Some (s, ev, Inl err)
           | Inr o0 \<Rightarrow> do {
               cur \<leftarrow> (case o0 of None \<Rightarrow> Some [] | Some ob \<Rightarrow> stringBytes ob);
               if length val = 0 then Some (s, ev, Inr (int (length cur)))
               else do {
                 (next, size) \<leftarrow> setRange_next offset val cur;
                 Some (case o0 of None \<Rightarrow> store e s key (newRawObject next)
                         | Some ob \<Rightarrow> replaceValue e s key ob (newRawObject next),
                       ev @ touched e key, Inr size)
               }
             })"

definition sh_IncrBy :: "env \<Rightarrow> bytes \<Rightarrow> int \<Rightarrow> shard \<Rightarrow> (shard \<times> event list \<times> (error + int)) go" where
  "sh_IncrBy e key delta s =
     (let (s, ev, r) = lookupType e s key TypeString
      in case r of Inl err \<Rightarrow> Some (s, ev, Inl err)
         | Inr o0 \<Rightarrow> do {
             cur0 \<leftarrow> (case o0 of None \<Rightarrow> Some (Inr 0) | Some ob \<Rightarrow> objectInt ob);
             case cur0 of Inl err \<Rightarrow> Some (s, ev, Inl err)
             | Inr cur \<Rightarrow>
               if delta > 0 \<and> cur > wrap64 (max_int64 - delta) \<or> delta < 0 \<and> cur < wrap64 (min_int64 - delta)
               then Some (s, ev, Inl ErrOverflow)
               else
                 let next = wrap64 (cur + delta)
                 in Some (case o0 of None \<Rightarrow> store e s key (newIntObject next)
                            | Some ob \<Rightarrow> replaceValue e s key ob (withExpiry (newIntObject next) (o_ExpireAt ob)),
                          ev @ touched e key, Inr next)
           })"

subsection \<open>What the operations mean\<close>

definition spec_Get :: "aentry option \<Rightarrow> (error + bytes option) kspec" where
  "spec_Get a = (a, False, False, case a of None \<Rightarrow> Inr None | Some (AStr b, _) \<Rightarrow> Inr (Some b) | _ \<Rightarrow> Inl ErrWrongType)"

definition spec_Set :: "env \<Rightarrow> bytes \<Rightarrow> SetOptions \<Rightarrow> aentry option \<Rightarrow> (error + SetResult) kspec" where
  "spec_Set e val opts a =
     (let old = (case a of Some (AStr b, _) \<Rightarrow> if so_Get opts then Some b else None | _ \<Rightarrow> None);
          at = (if so_At opts > 0 then so_At opts
                else case a of Some (_, at) \<Rightarrow> if so_KeepTTL opts then at else 0 | None \<Rightarrow> 0)
      in if int (length val) > e_MaxStringLength e then (a, False, False, Inl ErrValueTooLarge)
         else if so_Get opts \<and> (\<exists>xs at. a = Some (AList xs, at)) then (a, True, False, Inl ErrWrongType)
         else if so_NX opts \<and> a \<noteq> None \<or> so_XX opts \<and> a = None
         then (a, True, False, Inr \<lparr>sr_Set = False, sr_Old = old\<rparr>)
         else (live_entry e (AStr val) at, True, True, Inr \<lparr>sr_Set = True, sr_Old = old\<rparr>))"

definition spec_GetDel :: "aentry option \<Rightarrow> (error + bytes option) kspec" where
  "spec_GetDel a = (case a of None \<Rightarrow> (None, True, False, Inr None)
     | Some (AStr b, at) \<Rightarrow> (None, True, True, Inr (Some b))
     | Some (AList xs, at) \<Rightarrow> (a, True, False, Inl ErrWrongType))"

definition spec_GetEx :: "env \<Rightarrow> int \<Rightarrow> bool \<Rightarrow> int \<Rightarrow> aentry option \<Rightarrow> (error + bytes option) kspec" where
  "spec_GetEx e at persist now2 a = (case a of None \<Rightarrow> (None, True, False, Inr None)
     | Some (AStr b, at0) \<Rightarrow>
         if persist \<and> at0 \<noteq> 0 then (Some (AStr b, 0), True, True, Inr (Some b))
         else if at > 0 then (if at \<le> now2 then None else live_entry e (AStr b) at, True, True, Inr (Some b))
         else (a, True, False, Inr (Some b))
     | Some (AList xs, at0) \<Rightarrow> (a, True, False, Inl ErrWrongType))"

definition spec_StrLen :: "aentry option \<Rightarrow> (error + int) kspec" where
  "spec_StrLen a = (a, False, False, case a of None \<Rightarrow> Inr 0 | Some (AStr b, _) \<Rightarrow> Inr (int (length b)) | _ \<Rightarrow> Inl ErrWrongType)"

definition spec_Append :: "env \<Rightarrow> bytes \<Rightarrow> aentry option \<Rightarrow> (error + int) kspec" where
  "spec_Append e val a =
     (case (case a of None \<Rightarrow> Inr ([], 0) | Some (AStr b, at) \<Rightarrow> Inr (b, at) | _ \<Rightarrow> Inl ErrWrongType) of
        Inl err \<Rightarrow> (a, True, False, Inl err)
      | Inr (cur, at) \<Rightarrow>
          if int (length cur + length val) > e_MaxStringLength e then (a, True, False, Inl ErrValueTooLarge)
          else (Some (AStr (cur @ val), at), True, True, Inr (int (length cur + length val))))"

text \<open>The substring from one index to another, both included, negative ones counted from the end.\<close>

definition sub_range :: "int \<Rightarrow> int \<Rightarrow> bytes \<Rightarrow> bytes" where
  "sub_range start stop b =
     (let n = int (length b); ix = (\<lambda>i. if i < 0 then max 0 (i + n) else i)
      in if start < 0 \<and> stop < 0 \<and> stop < start then []
         else take (nat (ix stop + 1 - ix start)) (drop (nat (ix start)) b))"

definition spec_GetRange :: "int \<Rightarrow> int \<Rightarrow> aentry option \<Rightarrow> (error + bytes) kspec" where
  "spec_GetRange start stop a = (a, False, False,
     case a of None \<Rightarrow> Inr [] | Some (AStr b, _) \<Rightarrow> Inr (sub_range start stop b) | _ \<Rightarrow> Inl ErrWrongType)"

definition overlay :: "nat \<Rightarrow> bytes \<Rightarrow> bytes \<Rightarrow> bytes" where
  "overlay off val cur = take off (cur @ replicate (off - length cur) 0) @ val @ drop (off + length val) cur"

definition spec_SetRange :: "env \<Rightarrow> int \<Rightarrow> bytes \<Rightarrow> aentry option \<Rightarrow> (error + int) kspec" where
  "spec_SetRange e offset val a =
     (if offset < 0 then (a, False, False, Inl ErrOutOfRange)
      else if offset + int (length val) > e_MaxStringLength e then (a, False, False, Inl ErrValueTooLarge)
      else case (case a of None \<Rightarrow> Inr ([], 0) | Some (AStr b, at) \<Rightarrow> Inr (b, at) | _ \<Rightarrow> Inl ErrWrongType) of
          Inl err \<Rightarrow> (a, True, False, Inl err)
        | Inr (cur, at) \<Rightarrow>
            if val = [] then (a, True, False, Inr (int (length cur)))
            else let new = overlay (nat offset) val cur
                 in (Some (AStr new, at), True, True, Inr (int (length new))))"

definition spec_IncrBy :: "int \<Rightarrow> aentry option \<Rightarrow> (error + int) kspec" where
  "spec_IncrBy delta a =
     (case (case a of None \<Rightarrow> Inr (0, 0)
              | Some (AStr b, at) \<Rightarrow> (case ParseInt b of None \<Rightarrow> Inl ErrNotInteger | Some n \<Rightarrow> Inr (n, at))
              | _ \<Rightarrow> Inl ErrWrongType) of
        Inl err \<Rightarrow> (a, True, False, Inl err)
      | Inr (n, at) \<Rightarrow>
          if \<not> is_int64 (n + delta) then (a, True, False, Inl ErrOverflow)
          else (Some (AStr (AppendInt (n + delta)), at), True, True, Inr (n + delta)))"

subsection \<open>The operations implement it\<close>

lemma Get_implements:
  assumes "shard_ok s" "entry_rep e s key a"
  shows "implements e s key (sh_Get e key s) (spec_Get a)"
  using assms
proof (cases rule: peekType_rep[where t = TypeString])
  case (wrong s' v at)
  then show ?thesis by (cases v) (auto simp: sh_Get_def spec_Get_def intro!: meets_read)
next
  case (none s')
  then show ?thesis by (auto simp: sh_Get_def spec_Get_def intro!: meets_read)
next
  case (some s' v at ob)
  then show ?thesis
    by (auto simp: sh_Get_def spec_Get_def stringBytes_rep elim!: aval_string intro!: meets_read)
qed

lemma StrLen_implements:
  assumes "shard_ok s" "entry_rep e s key a"
  shows "implements e s key (sh_StrLen e key s) (spec_StrLen a)"
  using assms
proof (cases rule: peekType_rep[where t = TypeString])
  case (wrong s' v at)
  then show ?thesis by (cases v) (auto simp: sh_StrLen_def spec_StrLen_def intro!: meets_read)
next
  case (none s')
  then show ?thesis by (auto simp: sh_StrLen_def spec_StrLen_def intro!: meets_read)
next
  case (some s' v at ob)
  then show ?thesis
    by (auto simp: sh_StrLen_def spec_StrLen_def stringLen_rep elim!: aval_string intro!: meets_read)
qed

lemma GetDel_implements:
  assumes "shard_ok s" "entry_rep e s key a"
  shows "implements e s key (sh_GetDel e key s) (spec_GetDel a)"
  using assms
proof (cases rule: lookupType_rep[where t = TypeString])
  case (wrong s' v at)
  then show ?thesis by (cases v) (auto simp: sh_GetDel_def spec_GetDel_def intro!: meets_same)
next
  case (none s')
  then show ?thesis by (auto simp: sh_GetDel_def spec_GetDel_def intro!: meets_same)
next
  case (some s' v at ob)
  then show ?thesis
    by (auto simp: sh_GetDel_def spec_GetDel_def stringBytes_rep elim!: aval_string intro!: meets_remove)
qed

lemma GetEx_implements:
  assumes "shard_ok s" "entry_rep e s key a"
  shows "implements e s key (sh_GetEx e key at persist now2 s) (spec_GetEx e at persist now2 a)"
  using assms
proof (cases rule: lookupType_rep[where t = TypeString])
  case (wrong s' v at)
  then show ?thesis by (cases v) (auto simp: sh_GetEx_def spec_GetEx_def intro!: meets_same)
next
  case (none s')
  then show ?thesis by (auto simp: sh_GetEx_def spec_GetEx_def intro!: meets_same)
next
  case (some s' v at0 ob)
  obtain b where b: "v = AStr b" using some(2) by (auto elim: aval_string)
  have "meets e s key True True (Some (setExpireLocked s' key ob 0, reap_events e s key @ touched e key, Inr (Some b)))
    (Some (AStr b, 0)) (Inr (Some b))"
    using meets_setExpire[OF some(4,5,8), of 0] b by (simp add: live_entry_def)
  then show ?thesis using some b
    by (auto simp: sh_GetEx_def spec_GetEx_def stringBytes_rep intro!: meets_remove meets_setExpire meets_same)
qed

lemma Set_implements:
  assumes "shard_ok s" "entry_rep e s key a"
  shows "implements e s key (sh_Set e key val opts s) (spec_Set e val opts a)"
proof (cases "int (length val) > e_MaxStringLength e")
  case True
  then show ?thesis using assms by (auto simp: sh_Set_def spec_Set_def Let_def intro!: meets_read)
next
  case small: False
  obtain s' r where l: "lookup e s key = (s', reap_events e s key, r)" "shard_ok s'" "same_others key s s'"
    "found e s' key a r" "entry_rep e s' key a" using lookup_rep[OF assms] .
  have eq: "sh_Set e key val opts s = do {
      prev \<leftarrow> set_previous opts r;
      case prev of Inl err \<Rightarrow> Some (s', reap_events e s key, Inl err)
      | Inr p \<Rightarrow> if so_NX opts \<and> r \<noteq> None \<or> so_XX opts \<and> r = None
          then Some (s', reap_events e s key, Inr \<lparr>sr_Set = False, sr_Old = p\<rparr>)
          else Some (store e s' key ((newStringObject val)\<lparr>o_ExpireAt :=
                 (if so_At opts > 0 then so_At opts
                  else case r of Some old \<Rightarrow> if so_KeepTTL opts then o_ExpireAt old else 0 | None \<Rightarrow> 0)\<rparr>),
               reap_events e s key @ touched e key, Inr \<lparr>sr_Set = True, sr_Old = p\<rparr>)}"
  proof -
    have z: "(newStringObject val)\<lparr>o_ExpireAt := 0\<rparr> = newStringObject val"
      by (simp add: newStringObject_def split: option.splits)
    show ?thesis unfolding sh_Set_def l(1) using small
      by (cases "set_previous opts r") (auto simp: Let_def z split: option.splits sum.splits)
  qed
  from l(4) show ?thesis
  proof (cases rule: foundE)
    case none
    then show ?thesis unfolding eq using l small
      by (auto simp: spec_Set_def set_previous_def Let_def intro!: meets_same meets_store meets_new)
  next
    case (some ob v at)
    have at: "0 \<le> at" using shard_okD(2)[OF l(2) some(3)] some(6) by (simp add: obj_ok_def)
    show ?thesis
    proof (cases v)
      case (AStr b)
      have p: "set_previous opts r = Some (Inr (if so_Get opts then Some b else None))"
        using some AStr obj_rep_type[OF some(5)] by (auto simp: set_previous_def stringBytes_rep)
      show ?thesis unfolding eq p using l small some AStr at
        by (auto simp: spec_Set_def Let_def intro!: meets_same meets_store meets_new)
    next
      case (AList xs)
      have p: "set_previous opts r = Some (if so_Get opts then Inl ErrWrongType else Inr None)"
        using some AList obj_rep_type[OF some(5)] by (auto simp: set_previous_def)
      show ?thesis unfolding eq p using l small some AList at
        by (auto simp: spec_Set_def Let_def intro!: meets_same meets_store meets_new)
    qed
  qed
qed

lemma copy_concat: "copy_at (copy_at (replicate (length cur + length val) 0) 0 cur) (length cur) val = cur @ val"
  by (simp add: copy_at_def)

lemma Append_implements:
  assumes "shard_ok s" "entry_rep e s key a"
  shows "implements e s key (sh_Append e key val s) (spec_Append e val a)"
  using assms
proof (cases rule: lookupType_rep[where t = TypeString])
  case (wrong s' v at)
  then show ?thesis by (cases v) (auto simp: sh_Append_def spec_Append_def intro!: meets_same)
next
  case (none s')
  then show ?thesis by (auto simp: sh_Append_def spec_Append_def intro!: meets_same meets_new)
next
  case (some s' v at ob)
  obtain b where b: "v = AStr b" using some(2) by (auto elim: aval_string)
  show ?thesis using some b
    by (auto simp: sh_Append_def spec_Append_def stringBytes_rep Let_def copy_concat
        intro!: meets_same meets_replace live_entry_any)
qed

lemma sub_range_clamp:
  assumes "0 \<le> i" "0 \<le> j"
  shows "(let j' = (if j \<ge> int (length b) then int (length b) - 1 else j)
          in if i > j' \<or> int (length b) = 0 then Some [] else go_slice b i (j' + 1)) =
    Some (take (nat (j + 1 - i)) (drop (nat i) b))"
  using assms by (auto simp: go_slice_def Let_def nat_le_iff)

lemma getRange_slice:
  "(case getRangeBounds start stop (int (length b)) of (lo, hi, ok) \<Rightarrow>
      if ok then go_slice b lo (hi + 1) else Some []) = Some (sub_range start stop b)"
proof (cases "start < 0 \<and> stop < 0 \<and> start > stop")
  case True
  then show ?thesis by (simp add: getRangeBounds_def sub_range_def Let_def)
next
  case False
  define ix where "ix i = (if i < 0 then max 0 (i + int (length b)) else i)" for i
  have ix: "(if i < 0 then max i (- int (length b)) + int (length b) else i) = ix i" "0 \<le> ix i" for i
    by (auto simp: ix_def)
  have "(case getRangeBounds start stop (int (length b)) of (lo, hi, ok) \<Rightarrow>
      if ok then go_slice b lo (hi + 1) else Some []) =
    (let j' = (if ix stop \<ge> int (length b) then int (length b) - 1 else ix stop)
     in if ix start > j' \<or> int (length b) = 0 then Some [] else go_slice b (ix start) (j' + 1))"
    unfolding getRangeBounds_def ix(1) if_not_P[OF False] Let_def by simp
  also have "\<dots> = Some (take (nat (ix stop + 1 - ix start)) (drop (nat (ix start)) b))"
    by (rule sub_range_clamp[OF ix(2) ix(2)])
  also have "\<dots> = Some (sub_range start stop b)"
    using False by (auto simp: sub_range_def ix_def[abs_def] Let_def)
  finally show ?thesis .
qed

lemma GetRange_implements:
  assumes "shard_ok s" "entry_rep e s key a"
  shows "implements e s key (sh_GetRange e key start stop s) (spec_GetRange start stop a)"
  using assms
proof (cases rule: peekType_rep[where t = TypeString])
  case (wrong s' v at)
  then show ?thesis by (cases v) (auto simp: sh_GetRange_def spec_GetRange_def intro!: meets_read)
next
  case (none s')
  then show ?thesis by (auto simp: sh_GetRange_def spec_GetRange_def intro!: meets_read)
next
  case (some s' v at ob)
  obtain b where b: "v = AStr b" using some(2) by (auto elim: aval_string)
  have "sh_GetRange e key start stop s = Some (s', [], Inr (sub_range start stop b))"
    using some b getRange_slice[where start = start and stop = stop and b = b]
    by (auto simp: sh_GetRange_def stringBytes_rep split: prod.splits if_splits)
  then show ?thesis using some b by (auto simp: spec_GetRange_def intro!: meets_read)
qed

lemma overlay_copy:
  fixes cur val :: bytes and off :: nat
  assumes "val \<noteq> []"
  defines "sz \<equiv> max (length cur) (off + length val)"
  shows "copy_at (copy_at (replicate sz 0) 0 cur) off val = overlay off val cur"
proof -
  have "copy_at (replicate sz 0) 0 cur = cur @ replicate (sz - length cur) 0"
    by (simp add: copy_at_def sz_def)
  then show ?thesis unfolding sz_def by (auto simp: copy_at_def overlay_def max_def take_append)
qed

lemma length_overlay: "length (overlay off val cur) = max (length cur) (off + length val)"
  by (auto simp: overlay_def max_def)

lemma setRange_next_eq:
  assumes "val \<noteq> []" "0 \<le> offset" "is_int64 (offset + int (length val))"
  shows "setRange_next offset val cur =
    Some (overlay (nat offset) val cur, int (length (overlay (nat offset) val cur)))"
proof -
  define sz where "sz = max (length cur) (nat offset + length val)"
  have sz: "(if offset + int (length val) > int (length cur) then offset + int (length val) else int (length cur)) = int sz"
    using assms(2) by (auto simp: sz_def max_def)
  have "go_slice (copy_at (replicate sz (0 :: byte)) 0 cur) offset (int sz) \<noteq> None"
    using assms(2) by (auto simp: go_slice_def sz_def)
  then show ?thesis using overlay_copy[OF assms(1), of cur "nat offset"] assms(3)
    by (auto simp: setRange_next_def Let_def sz length_overlay sz_def[symmetric])
qed

lemma SetRange_implements:
  assumes "shard_ok s" "entry_rep e s key a" "is_int64 (offset + int (length val))"
  shows "implements e s key (sh_SetRange e key offset val s) (spec_SetRange e offset val a)"
proof -
  consider (neg) "offset < 0" | (big) "0 \<le> offset" "offset + int (length val) > e_MaxStringLength e"
    | (ok) "0 \<le> offset" "offset + int (length val) \<le> e_MaxStringLength e" by linarith
  then show ?thesis
  proof cases
    case ok
    note nx = setRange_next_eq[OF _ ok(1) assms(3)]
    from assms(1,2) show ?thesis
    proof (cases rule: lookupType_rep[where t = TypeString])
      case (wrong s' v at)
      then show ?thesis using ok assms(3)
        by (cases v) (auto simp: sh_SetRange_def spec_SetRange_def intro!: meets_same)
    next
      case (none s')
      then show ?thesis using ok assms(3)
        by (cases "val = []") (auto simp: sh_SetRange_def spec_SetRange_def Let_def nx intro!: meets_same meets_new)
    next
      case (some s' v at ob)
      obtain b where b: "v = AStr b" using some(2) by (auto elim: aval_string)
      show ?thesis using some ok assms(3) b
        by (cases "val = []") (auto simp: sh_SetRange_def spec_SetRange_def Let_def nx stringBytes_rep
          intro!: meets_same meets_replace live_entry_any)
    qed
  qed (use assms in \<open>auto simp: sh_SetRange_def spec_SetRange_def intro!: meets_read\<close>)
qed

lemma incr_guard:
  assumes "is_int64 n" "is_int64 delta"
  shows "(delta > 0 \<and> n > wrap64 (max_int64 - delta) \<or> delta < 0 \<and> n < wrap64 (min_int64 - delta)) \<longleftrightarrow> \<not> is_int64 (n + delta)"
proof -
  have "delta > 0 \<Longrightarrow> wrap64 (max_int64 - delta) = max_int64 - delta"
    "delta < 0 \<Longrightarrow> wrap64 (min_int64 - delta) = min_int64 - delta"
    using assms(2) by (auto simp: is_int64_def intro!: wrap64_id)
  then show ?thesis using assms by (auto simp: is_int64_def)
qed

lemma IncrBy_implements:
  assumes "shard_ok s" "entry_rep e s key a" "is_int64 delta"
  shows "implements e s key (sh_IncrBy e key delta s) (spec_IncrBy delta a)"
  using assms(1,2)
proof (cases rule: lookupType_rep[where t = TypeString])
  case (wrong s' v at)
  then show ?thesis by (cases v) (auto simp: sh_IncrBy_def spec_IncrBy_def intro!: meets_same)
next
  case (none s')
  have "is_int64 0" by (simp add: is_int64_def)
  then show ?thesis using none incr_guard[of 0 delta] assms(3)
    by (auto simp: sh_IncrBy_def spec_IncrBy_def intro!: meets_same meets_new)
next
  case (some s' v at ob)
  obtain b where b: "v = AStr b" using some(2) by (auto elim: aval_string)
  show ?thesis
  proof (cases "ParseInt b")
    case None
    then show ?thesis using some b
      by (auto simp: sh_IncrBy_def spec_IncrBy_def objectInt_rep intro!: meets_same)
  next
    case (Some n)
    have g: "(delta > 0 \<and> n > wrap64 (max_int64 - delta) \<or> delta < 0 \<and> n < wrap64 (min_int64 - delta)) \<longleftrightarrow> \<not> is_int64 (n + delta)"
      by (rule incr_guard[OF ParseInt_int64[OF Some] assms(3)])
    have eq: "sh_IncrBy e key delta s = (if \<not> is_int64 (n + delta) then Some (s', reap_events e s key, Inl ErrOverflow)
      else Some (replaceValue e s' key ob (withExpiry (newIntObject (n + delta)) (o_ExpireAt ob)), reap_events e s key @ touched e key, Inr (n + delta)))"
      using some Some b objectInt_rep[of ob b] by (simp add: sh_IncrBy_def Let_def g)
    show ?thesis unfolding eq using some b Some
      by (auto simp: spec_IncrBy_def withExpiry_def intro!: meets_same meets_replace live_entry_any)
  qed
qed

end
