(* ===== verification/List_Ops.thy ===== *)
theory List_Ops
  imports Shard
begin

text \<open>
  The list commands of \<open>engine/list.go\<close> on the shard of their key. A list is changed in place
  through the pointer in the object: \<open>list_write\<close> puts the changed value back and runs
  \<open>finishWrite\<close>, which drops a key whose list has become empty.
\<close>

subsection \<open>Operations\<close>

definition list_write :: "env \<Rightarrow> shard \<Rightarrow> bytes \<Rightarrow> object \<Rightarrow> list_t \<Rightarrow> (shard \<times> event list) go" where
  "list_write e s key ob l =
     (let ob = ob\<lparr>o_Value := VList l\<rparr> in finishWrite e (put_obj s key ob) key ob l)"

fun l_push_all :: "list_t \<Rightarrow> bytes list \<Rightarrow> bool \<Rightarrow> Thresholds \<Rightarrow> list_t go" where
  "l_push_all l [] front t = Some l"
| "l_push_all l (v # vs) front t = do { l' \<leftarrow> l_Push l v front t; l_push_all l' vs front t }"

definition push_finish :: "env \<Rightarrow> shard \<Rightarrow> bytes \<Rightarrow> object \<Rightarrow> list_t \<Rightarrow> bytes list \<Rightarrow> bool \<Rightarrow> (shard \<times> event list \<times> int) go" where
  "push_finish e s key ob l values front =
     do {
       l' \<leftarrow> l_push_all l values front (e_limits e);
       (s', ev) \<leftarrow> list_write e s key ob l';
       n \<leftarrow> l_Len l';
       Some (s', ev, n)
     }"

definition sh_LPush :: "env \<Rightarrow> bytes \<Rightarrow> bytes list \<Rightarrow> bool \<Rightarrow> bool \<Rightarrow> shard \<Rightarrow> (shard \<times> event list \<times> (error + int)) go" where
  "sh_LPush e key values front mustExist s =
     do {
       (s, ev, r) \<leftarrow> listAt e s key;
       case r of Inl err \<Rightarrow> Some (s, ev, Inl err)
       | Inr None \<Rightarrow>
           if mustExist then Some (s, ev, Inr 0)
           else (case newCollection e s key TypeList newList of (s, ob) \<Rightarrow> do {
             (s, ev', n) \<leftarrow> push_finish e s key ob newList values front;
             Some (s, ev @ ev', Inr n)
           })
       | Inr (Some (ob, l)) \<Rightarrow> do {
           (s, ev', n) \<leftarrow> push_finish e s key ob l values front;
           Some (s, ev @ ev', Inr n)
         }
     }"

text \<open>The loop of \<open>LPop\<close>; a \<open>nil\<close> element is an empty slice.\<close>

fun l_pop_n :: "nat \<Rightarrow> list_t \<Rightarrow> bool \<Rightarrow> (list_t \<times> bytes list) go" where
  "l_pop_n 0 l front = Some (l, [])"
| "l_pop_n (Suc n) l front =
     do {
       (l', v, ok) \<leftarrow> l_Pop l front;
       if \<not> ok then Some (l', [])
       else do {
         (l'', out) \<leftarrow> l_pop_n n l' front;
         Some (l'', (case v of None \<Rightarrow> [] | Some b \<Rightarrow> b) # out)
       }
     }"

definition sh_LPop :: "env \<Rightarrow> bytes \<Rightarrow> int \<Rightarrow> bool \<Rightarrow> shard \<Rightarrow> (shard \<times> event list \<times> (error + bytes list option)) go" where
  "sh_LPop e key count front s =
     do {
       (s, ev, r) \<leftarrow> listAt e s key;
       case r of Inl err \<Rightarrow> Some (s, ev, Inl err)
       | Inr None \<Rightarrow> Some (s, ev, Inr None)
       | Inr (Some (ob, l)) \<Rightarrow>
           if count < 0 then None
           else do {
             (l', out) \<leftarrow> l_pop_n (nat count) l front;
             if length out > 0 then do {
               (s, ev') \<leftarrow> list_write e s key ob l';
               Some (s, ev @ ev', Inr (Some out))
             } else Some (s, ev, Inr (Some out))
           }
     }"

definition sh_LLen :: "env \<Rightarrow> bytes \<Rightarrow> shard \<Rightarrow> (shard \<times> event list \<times> (error + int)) go" where
  "sh_LLen e key s =
     do {
       (s, r) \<leftarrow> listRead e s key;
       case r of Inl err \<Rightarrow> Some (s, [], Inl err)
       | Inr None \<Rightarrow> Some (s, [], Inr 0)
       | Inr (Some (ob, l)) \<Rightarrow> do { n \<leftarrow> l_Len l; Some (s, [], Inr n) }
     }"

definition sh_LIndex :: "env \<Rightarrow> bytes \<Rightarrow> int \<Rightarrow> shard \<Rightarrow> (shard \<times> event list \<times> (error + bytes option \<times> bool)) go" where
  "sh_LIndex e key i s =
     do {
       (s, r) \<leftarrow> listRead e s key;
       case r of Inl err \<Rightarrow> Some (s, [], Inl err)
       | Inr None \<Rightarrow> Some (s, [], Inr (None, False))
       | Inr (Some (ob, l)) \<Rightarrow> do { v \<leftarrow> l_At l i; Some (s, [], Inr v) }
     }"

definition sh_LSet :: "env \<Rightarrow> bytes \<Rightarrow> int \<Rightarrow> bytes \<Rightarrow> shard \<Rightarrow> (shard \<times> event list \<times> (error + unit)) go" where
  "sh_LSet e key i v s =
     do {
       (s, ev, r) \<leftarrow> listAt e s key;
       case r of Inl err \<Rightarrow> Some (s, ev, Inl err)
       | Inr None \<Rightarrow> Some (s, ev, Inl ErrNoSuchKey)
       | Inr (Some (ob, l)) \<Rightarrow> do {
           (l', ok) \<leftarrow> l_SetAt l i v (e_limits e);
           if \<not> ok then Some (s, ev, Inl ErrOutOfRange)
           else do {
             (s, ev') \<leftarrow> list_write e s key ob l';
             Some (s, ev @ ev', Inr ())
           }
         }
     }"

definition sh_LRange :: "env \<Rightarrow> bytes \<Rightarrow> int \<Rightarrow> int \<Rightarrow> shard \<Rightarrow> (shard \<times> event list \<times> (error + bytes list)) go" where
  "sh_LRange e key start stop s =
     do {
       (s, r) \<leftarrow> listRead e s key;
       case r of Inl err \<Rightarrow> Some (s, [], Inl err)
       | Inr None \<Rightarrow> Some (s, [], Inr [])
       | Inr (Some (ob, l)) \<Rightarrow> do { xs \<leftarrow> l_Range l start stop; Some (s, [], Inr xs) }
     }"

definition sh_LInsert :: "env \<Rightarrow> bytes \<Rightarrow> bytes \<Rightarrow> bytes \<Rightarrow> bool \<Rightarrow> shard \<Rightarrow> (shard \<times> event list \<times> (error + int)) go" where
  "sh_LInsert e key pivot v before s =
     do {
       (s, ev, r) \<leftarrow> listAt e s key;
       case r of Inl err \<Rightarrow> Some (s, ev, Inl err)
       | Inr None \<Rightarrow> Some (s, ev, Inr 0)
       | Inr (Some (ob, l)) \<Rightarrow> do {
           (l', n) \<leftarrow> l_Insert l pivot v before (e_limits e);
           if n < 0 then Some (s, ev, Inr (- 1))
           else do {
             (s, ev') \<leftarrow> list_write e s key ob l';
             Some (s, ev @ ev', Inr n)
           }
         }
     }"

definition sh_LRem :: "env \<Rightarrow> bytes \<Rightarrow> int \<Rightarrow> bytes \<Rightarrow> shard \<Rightarrow> (shard \<times> event list \<times> (error + int)) go" where
  "sh_LRem e key count v s =
     do {
       (s, ev, r) \<leftarrow> listAt e s key;
       case r of Inl err \<Rightarrow> Some (s, ev, Inl err)
       | Inr None \<Rightarrow> Some (s, ev, Inr 0)
       | Inr (Some (ob, l)) \<Rightarrow> do {
           (l', n) \<leftarrow> l_Remove l count v;
           if n > 0 then do {
             (s, ev') \<leftarrow> list_write e s key ob l';
             Some (s, ev @ ev', Inr n)
           } else Some (s, ev, Inr n)
         }
     }"

definition sh_LTrim :: "env \<Rightarrow> bytes \<Rightarrow> int \<Rightarrow> int \<Rightarrow> shard \<Rightarrow> (shard \<times> event list \<times> (error + unit)) go" where
  "sh_LTrim e key start stop s =
     do {
       (s, ev, r) \<leftarrow> listAt e s key;
       case r of Inl err \<Rightarrow> Some (s, ev, Inl err)
       | Inr None \<Rightarrow> Some (s, ev, Inr ())
       | Inr (Some (ob, l)) \<Rightarrow> do {
           l' \<leftarrow> l_Trim l start stop;
           (s, ev') \<leftarrow> list_write e s key ob l';
           Some (s, ev @ ev', Inr ())
         }
     }"

definition sh_LPos :: "env \<Rightarrow> bytes \<Rightarrow> bytes \<Rightarrow> int \<Rightarrow> int \<Rightarrow> int \<Rightarrow> shard \<Rightarrow> (shard \<times> event list \<times> (error + int list)) go" where
  "sh_LPos e key v rank count maxlen s =
     do {
       (s, r) \<leftarrow> listRead e s key;
       case r of Inl err \<Rightarrow> Some (s, [], Inl err)
       | Inr None \<Rightarrow> Some (s, [], Inr [])
       | Inr (Some (ob, l)) \<Rightarrow> do { is \<leftarrow> l_Pos l v rank count maxlen; Some (s, [], Inr is) }
     }"

definition sh_StoreList :: "env \<Rightarrow> bytes \<Rightarrow> bytes list \<Rightarrow> shard \<Rightarrow> (shard \<times> event list \<times> int) go" where
  "sh_StoreList e key elements s =
     (let (s, ev, old) = lookup e s key;
          s = (case old of None \<Rightarrow> s | Some ob \<Rightarrow> removeLocked e s key (Some ob))
      in if length elements = 0 then Some (s, ev @ touched e key, 0)
         else do {
           l \<leftarrow> l_push_all newList elements False (e_limits e);
           (case newCollection e s key TypeList l of (s, ob) \<Rightarrow> do {
             (s, ev') \<leftarrow> finishWrite e s key ob l;
             n \<leftarrow> l_Len l;
             Some (s, ev @ ev', n)
           })
         })"

subsection \<open>What the operations mean\<close>

text \<open>A read of a list: the wrong type is an error, an absent key an empty answer.\<close>

definition spec_read :: "'r \<Rightarrow> (bytes list \<Rightarrow> 'r) \<Rightarrow> aentry option \<Rightarrow> (error + 'r) kspec" where
  "spec_read absent f a = (a, False, False,
     case a of None \<Rightarrow> Inr absent | Some (AList xs, _) \<Rightarrow> Inr (f xs) | _ \<Rightarrow> Inl ErrWrongType)"

text \<open>
  A write to a list: the function gives the new elements, or \<open>None\<close> for no change, and the answer.
  A list that becomes empty is no longer there.
\<close>

definition spec_write :: "error + 'r \<Rightarrow> (bytes list \<Rightarrow> bytes list option \<times> (error + 'r)) \<Rightarrow> aentry option \<Rightarrow> (error + 'r) kspec" where
  "spec_write absent f a =
     (case a of None \<Rightarrow> (None, True, False, absent)
      | Some (AStr b, at) \<Rightarrow> (a, True, False, Inl ErrWrongType)
      | Some (AList xs, at) \<Rightarrow>
          (case f xs of (None, r) \<Rightarrow> (a, True, False, r)
           | (Some ys, r) \<Rightarrow> (if ys = [] then None else Some (AList ys, at), True, True, r)))"

definition push_list :: "bool \<Rightarrow> bytes list \<Rightarrow> bytes list \<Rightarrow> bytes list" where
  "push_list front vs xs = (if front then rev vs @ xs else xs @ vs)"

definition spec_LPush :: "bytes list \<Rightarrow> bool \<Rightarrow> bool \<Rightarrow> aentry option \<Rightarrow> (error + int) kspec" where
  "spec_LPush vs front mustExist a =
     (if a = None \<and> \<not> mustExist
      then (if vs = [] then None else Some (AList (push_list front vs []), 0), True, True, Inr (int (length vs)))
      else spec_write (Inr 0) (\<lambda>xs. (Some (push_list front vs xs), Inr (int (length xs + length vs)))) a)"

definition pop_list :: "bool \<Rightarrow> nat \<Rightarrow> bytes list \<Rightarrow> bytes list \<times> bytes list" where
  "pop_list front n xs =
     (if front then (drop n xs, take n xs)
      else (take (length xs - n) xs, rev (drop (length xs - n) xs)))"

definition spec_LPop :: "int \<Rightarrow> bool \<Rightarrow> aentry option \<Rightarrow> (error + bytes list option) kspec" where
  "spec_LPop count front =
     spec_write (Inr None) (\<lambda>xs. case pop_list front (nat count) xs of (ys, out) \<Rightarrow>
       (if out = [] then None else Some ys, Inr (Some out)))"

definition spec_LSet :: "int \<Rightarrow> bytes \<Rightarrow> aentry option \<Rightarrow> (error + unit) kspec" where
  "spec_LSet i v = spec_write (Inl ErrNoSuchKey)
     (\<lambda>xs. let j = norm_idx i (length xs)
           in if 0 \<le> j \<and> j < int (length xs) then (Some (xs[nat j := v]), Inr ()) else (None, Inl ErrOutOfRange))"

definition spec_LIndex :: "int \<Rightarrow> aentry option \<Rightarrow> (error + bytes option \<times> bool) kspec" where
  "spec_LIndex i = spec_read (None, False)
     (\<lambda>xs. let j = norm_idx i (length xs)
           in if 0 \<le> j \<and> j < int (length xs) then (Some (xs ! nat j), True) else (None, False))"

definition spec_LInsert :: "bytes \<Rightarrow> bytes \<Rightarrow> bool \<Rightarrow> aentry option \<Rightarrow> (error + int) kspec" where
  "spec_LInsert pivot v before = spec_write (Inr 0)
     (\<lambda>xs. let i = first_idx 0 (\<lambda>_ e. e = pivot) xs
           in if i < 0 then (None, Inr (- 1))
              else (Some (insert_at (nat (if before then i else i + 1)) v xs), Inr (int (length xs) + 1)))"

definition spec_LRem :: "int \<Rightarrow> bytes \<Rightarrow> aentry option \<Rightarrow> (error + int) kspec" where
  "spec_LRem count v = spec_write (Inr 0)
     (\<lambda>xs. let ms = remove_set count v xs
           in (if ms = [] then None else Some (nths xs (- set ms)), Inr (int (length ms))))"

definition spec_LTrim :: "int \<Rightarrow> int \<Rightarrow> aentry option \<Rightarrow> (error + unit) kspec" where
  "spec_LTrim start stop = spec_write (Inr ()) (\<lambda>xs. (Some (list_range start stop xs), Inr ()))"

definition spec_StoreList :: "bytes list \<Rightarrow> aentry option \<Rightarrow> int kspec" where
  "spec_StoreList xs a = (if xs = [] then None else Some (AList xs, 0), True, True, int (length xs))"

subsection \<open>The accessors and the write-back\<close>

lemma obj_rep_AListE:
  assumes "obj_rep ob (AList xs)"
  obtains l where "o_Value ob = VList l" "list_rep l xs" "xs \<noteq> []" "o_Type ob = TypeList"
  using assms by (auto simp: obj_rep.simps)

lemma listAt_rep:
  assumes "shard_ok s" "entry_rep e s key a"
  obtains (wrong) s' b at where "a = Some (AStr b, at)"
      "listAt e s key = Some (s', reap_events e s key, Inl ErrWrongType)" "shard_ok s'" "same_others key s s'" "entry_rep e s' key a"
    | (none) s' where "a = None" "listAt e s key = Some (s', reap_events e s key, Inr None)"
      "shard_ok s'" "same_others key s s'" "entry_rep e s' key a"
    | (some) s' xs at ob l where "a = Some (AList xs, at)"
      "listAt e s key = Some (s', reap_events e s key, Inr (Some (ob, l)))" "shard_ok s'" "same_others key s s'" "entry_rep e s' key a"
      "sh_dict s' key = Some ob" "list_rep l xs" "o_Type ob = TypeList" "o_ExpireAt ob = at" "0 \<le> at"
      "live_entry e (AList xs) at = Some (AList xs, at)"
  using assms
proof (cases rule: lookupType_rep[where t = TypeList])
  case (wrong s' v at)
  then show ?thesis using that(1)[of _ at s'] by (cases v) (auto simp: listAt_def asList_def)
next
  case (none s')
  then show ?thesis using that(2)[of s'] by (auto simp: listAt_def asList_def)
next
  case (some s' v at ob)
  obtain xs where xs: "v = AList xs" using some(2) by (auto elim: aval_list)
  obtain l where "o_Value ob = VList l" "list_rep l xs" "o_Type ob = TypeList"
    using some(8) unfolding xs by (rule obj_rep_AListE)
  then show ?thesis using that(3)[of xs at s' ob l] some xs by (auto simp: listAt_def asList_def)
qed

lemma listRead_rep:
  assumes "shard_ok s" "entry_rep e s key a"
  obtains (wrong) s' b at where "a = Some (AStr b, at)"
      "listRead e s key = Some (s', Inl ErrWrongType)" "shard_ok s'" "same_others key s s'" "entry_rep e s' key a"
    | (none) s' where "a = None" "listRead e s key = Some (s', Inr None)"
      "shard_ok s'" "same_others key s s'" "entry_rep e s' key a"
    | (some) s' xs at ob l where "a = Some (AList xs, at)"
      "listRead e s key = Some (s', Inr (Some (ob, l)))" "shard_ok s'" "same_others key s s'" "entry_rep e s' key a"
      "list_rep l xs"
  using assms
proof (cases rule: peekType_rep[where t = TypeList])
  case (wrong s' v at)
  then show ?thesis using that(1)[of _ at s'] by (cases v) (auto simp: listRead_def asList_def)
next
  case (none s')
  then show ?thesis using that(2)[of s'] by (auto simp: listRead_def asList_def)
next
  case (some s' v at ob)
  obtain xs where xs: "v = AList xs" using some(2) by (auto elim: aval_list)
  obtain l where "o_Value ob = VList l" "list_rep l xs"
    using some(7) unfolding xs by (rule obj_rep_AListE)
  then show ?thesis using that(3)[of xs at s' ob l] some xs by (auto simp: listRead_def asList_def)
qed

text \<open>
  The write-back, from any shard whose index is right and that differs from a well-formed one only
  under the key: this covers the moment at which a new, still empty list is already in the table.
\<close>

lemma list_write_rep:
  assumes "shard_ok s" "same_others key s s1" "index_ok s1" "sh_dict s1 key = Some ob"
    "o_Type ob = TypeList" "0 \<le> o_ExpireAt ob" "list_rep l ys"
  obtains s2 where "list_write e s1 key ob l = Some (s2, touched e key)" "shard_ok s2" "same_others key s s2"
    "entry_rep e s2 key (if ys = [] then None else live_entry e (AList ys) (o_ExpireAt ob))"
proof (cases "ys = []")
  case True
  let ?ob = "ob\<lparr>o_Value := VList l\<rparr>"
  let ?s2 = "removeLocked e (put_obj s1 key ?ob) key (Some ?ob)"
  have "index_ok (put_obj s1 key ?ob)" using assms(3,4) by (auto simp: index_ok_def)
  then have "index_ok ?s2" by (rule removeLocked_index_ok)
  then have "shard_ok ?s2" by (rule shard_ok_dict[OF _ _ assms(1), where key = key]) (use assms(2) in \<open>auto simp: same_others_def\<close>)
  moreover have "list_write e s1 key ob l = Some (?s2, touched e key)"
    using l_Len_rep[OF assms(7)] True by (simp add: list_write_def finishWrite_def Let_def)
  ultimately show ?thesis using that[of ?s2] assms(2) True by (auto simp: same_others_def entry_rep_def)
next
  case False
  define ob' where "ob' = ob\<lparr>o_Value := VList l, o_Encoding := l_Encoding l\<rparr>"
  obtain s2 where s2: "list_write e s1 key ob l = Some (s2, touched e key)" "sh_dict s2 = (sh_dict s1)(key \<mapsto> ob')" "sh_expires s2 = sh_expires s1"
    using l_Len_rep[OF assms(7)] False by (auto simp: list_write_def finishWrite_def Let_def ob'_def)
  have rep: "obj_rep ob' (AList ys)" using assms(5,7) False by (simp add: ob'_def obj_rep.simps)
  have at: "o_ExpireAt ob' = o_ExpireAt ob" by (simp add: ob'_def)
  have "index_ok s2" using assms(3,4) s2(2,3) at by (auto simp: index_ok_def)
  moreover have "same_others key s s2" using assms(2) s2(2) by (simp add: same_others_def)
  moreover have "obj_ok ob'" using obj_okI[OF rep] assms(6) at by simp
  ultimately have "shard_ok s2" using shard_ok_dict[OF _ _ assms(1), of s2 key] s2(2) by simp
  then show ?thesis using that[OF s2(1)] \<open>same_others key s s2\<close> live_entry_rep[OF rep, of s2 key e] s2(2) False at by simp
qed

lemma write_implements:
  fixes k :: "shard \<Rightarrow> event list \<Rightarrow> object \<Rightarrow> list_t \<Rightarrow> (shard \<times> event list \<times> (error + 'r)) go"
  assumes "shard_ok s" "entry_rep e s key a"
    and none: "\<And>s ev ob l xs r. list_rep l xs \<Longrightarrow> f xs = (None, r) \<Longrightarrow> k s ev ob l = Some (s, ev, r)"
    and some: "\<And>s ev ob l xs ys r. list_rep l xs \<Longrightarrow> f xs = (Some ys, r) \<Longrightarrow>
      \<exists>l'. list_rep l' ys \<and> k s ev ob l = do { (s', ev') \<leftarrow> list_write e s key ob l'; Some (s', ev @ ev', r) }"
  shows "implements e s key (do {
       (s, ev, r) \<leftarrow> listAt e s key;
       case r of Inl err \<Rightarrow> Some (s, ev, Inl err) | Inr None \<Rightarrow> Some (s, ev, absent)
       | Inr (Some (ob, l)) \<Rightarrow> k s ev ob l}) (spec_write absent f a)"
  using assms(1,2)
proof (cases rule: listAt_rep)
  case (wrong s' b at)
  then show ?thesis by (auto simp: spec_write_def intro!: meets_same)
next
  case (none s')
  then show ?thesis by (auto simp: spec_write_def intro!: meets_same)
next
  case (some s' xs at ob l)
  obtain g r where f: "f xs = (g, r)" by (cases "f xs")
  show ?thesis
  proof (cases g)
    case None
    then show ?thesis using some f assms(3)[of l xs r s' "reap_events e s key" ob]
      by (auto simp: spec_write_def intro!: meets_same)
  next
    case (Some ys)
    obtain l' where l': "list_rep l' ys" "k s' (reap_events e s key) ob l =
        do { (s'', ev') \<leftarrow> list_write e s' key ob l'; Some (s'', reap_events e s key @ ev', r) }"
      using assms(4)[of l xs ys r s' "reap_events e s key" ob] some(7) f Some by auto
    obtain s2 where "list_write e s' key ob l' = Some (s2, touched e key)" "shard_ok s2" "same_others key s s2"
      "entry_rep e s2 key (if ys = [] then None else live_entry e (AList ys) at)"
      using list_write_rep[OF assms(1) some(4) shard_okD(1)[OF some(3)] some(6,8) _ l'(1), of e] some(9,10) by auto
    then show ?thesis using some(1,2,11) f Some l'(2) live_entry_any[of e "AList xs" at "AList ys"]
      by (auto simp: spec_write_def intro!: meetsI)
  qed
qed

lemma read_implements:
  assumes "shard_ok s" "entry_rep e s key a"
    and "\<And>ob l xs. list_rep l xs \<Longrightarrow> k l = Some (f xs)"
  shows "implements e s key (do {
       (s, r) \<leftarrow> listRead e s key;
       case r of Inl err \<Rightarrow> Some (s, [], Inl err) | Inr None \<Rightarrow> Some (s, [], Inr absent)
       | Inr (Some (ob, l)) \<Rightarrow> do { x \<leftarrow> k l; Some (s, [], Inr x) }}) (spec_read absent f a)"
  using assms(1,2) by (cases rule: listRead_rep) (auto simp: spec_read_def assms(3) intro!: meets_read)

subsection \<open>The operations implement it\<close>

lemma LLen_implements:
  "shard_ok s \<Longrightarrow> entry_rep e s key a \<Longrightarrow>
   implements e s key (sh_LLen e key s) (spec_read 0 (\<lambda>xs. int (length xs)) a)"
  unfolding sh_LLen_def by (rule read_implements) (auto simp: l_Len_rep)

lemma LRange_implements:
  "shard_ok s \<Longrightarrow> entry_rep e s key a \<Longrightarrow>
   implements e s key (sh_LRange e key start stop s) (spec_read [] (list_range start stop) a)"
  unfolding sh_LRange_def by (rule read_implements) (auto simp: l_Range_rep)

lemma LIndex_implements:
  "shard_ok s \<Longrightarrow> entry_rep e s key a \<Longrightarrow> implements e s key (sh_LIndex e key i s) (spec_LIndex i a)"
  unfolding sh_LIndex_def spec_LIndex_def by (rule read_implements) (auto simp: l_At_rep Let_def)

lemma LPos_implements:
  "shard_ok s \<Longrightarrow> entry_rep e s key a \<Longrightarrow> is_int64 rank \<Longrightarrow> rank \<noteq> min_int64 \<Longrightarrow>
   implements e s key (sh_LPos e key v rank count maxlen s)
     (spec_read [] (\<lambda>xs. map int (list_pos v rank count maxlen xs)) a)"
  unfolding sh_LPos_def by (rule read_implements) (auto simp: l_Pos_rep)

lemma LSet_implements:
  assumes "shard_ok s" "entry_rep e s key a" "len_ok v"
  shows "implements e s key (sh_LSet e key i v s) (spec_LSet i v a)"
  unfolding sh_LSet_def spec_LSet_def
proof (rule write_implements[OF assms(1,2)], goal_cases)
  case (1 s ev ob l xs r)
  then show ?case using l_SetAt_rep[OF 1(1) assms(3), of i "e_limits e"] by (auto simp: Let_def split: if_splits)
next
  case (2 s ev ob l xs ys r)
  then show ?case using l_SetAt_rep[OF 2(1) assms(3), of i "e_limits e"] by (auto simp: Let_def split: if_splits)
qed

lemma LInsert_implements:
  assumes "shard_ok s" "entry_rep e s key a" "len_ok v"
  shows "implements e s key (sh_LInsert e key pivot v before s) (spec_LInsert pivot v before a)"
  unfolding sh_LInsert_def spec_LInsert_def
proof (rule write_implements[OF assms(1,2)], goal_cases)
  case (1 s ev ob l xs r)
  then show ?case using l_Insert_rep[OF 1(1) assms(3), of pivot before "e_limits e"] by (auto simp: Let_def split: if_splits)
next
  case (2 s ev ob l xs ys r)
  then show ?case using l_Insert_rep[OF 2(1) assms(3), of pivot before "e_limits e"] by (auto simp: Let_def split: if_splits)
qed

lemma LRem_implements:
  assumes "shard_ok s" "entry_rep e s key a" "is_int64 count" "count \<noteq> min_int64"
  shows "implements e s key (sh_LRem e key count v s) (spec_LRem count v a)"
  unfolding sh_LRem_def spec_LRem_def
proof (rule write_implements[OF assms(1,2)], goal_cases)
  case (1 s ev ob l xs r)
  then show ?case using l_Remove_rep[OF 1(1) assms(3,4), of v] by (auto simp: Let_def split: if_splits)
next
  case (2 s ev ob l xs ys r)
  then show ?case using l_Remove_rep[OF 2(1) assms(3,4), of v] by (auto simp: Let_def split: if_splits)
qed

lemma LTrim_implements:
  assumes "shard_ok s" "entry_rep e s key a"
  shows "implements e s key (sh_LTrim e key start stop s) (spec_LTrim start stop a)"
  unfolding sh_LTrim_def spec_LTrim_def
proof (rule write_implements[OF assms], goal_cases)
  case (2 s ev ob l xs ys r)
  then show ?case using l_Trim_rep[OF 2(1), of start stop] by auto
qed auto

lemma l_push_all_rep:
  "list_rep l xs \<Longrightarrow> list_all len_ok vs \<Longrightarrow>
   \<exists>l'. l_push_all l vs front t = Some l' \<and> list_rep l' (push_list front vs xs)"
proof (induction vs arbitrary: l xs)
  case (Cons v vs)
  obtain l1 where "l_Push l v front t = Some l1" "list_rep l1 (if front then v # xs else xs @ [v])"
    using l_Push_rep[OF Cons.prems(1), of v front t] Cons.prems(2) by auto
  then show ?case using Cons.IH[of l1 "if front then v # xs else xs @ [v]"] Cons.prems(2)
    by (auto simp: push_list_def split: if_splits)
qed (simp add: push_list_def)

lemma pop_list_Suc:
  "xs \<noteq> [] \<Longrightarrow> pop_list front (Suc n) xs =
    (case pop_list front n (if front then tl xs else butlast xs) of
       (ys, out) \<Rightarrow> (ys, (if front then hd xs else last xs) # out))"
proof (cases front)
  case True
  assume "xs \<noteq> []"
  then show ?thesis using True by (cases xs) (auto simp: pop_list_def)
next
  case False
  assume "xs \<noteq> []"
  then obtain zs z where "xs = zs @ [z]" by (cases xs rule: rev_cases) auto
  then show ?thesis using False by (auto simp: pop_list_def)
qed

lemma l_pop_n_rep:
  "list_rep l xs \<Longrightarrow> \<exists>l'. l_pop_n n l front = Some (l', snd (pop_list front n xs)) \<and> list_rep l' (fst (pop_list front n xs))"
proof (induction n arbitrary: l xs)
  case 0
  then show ?case by (auto simp: pop_list_def)
next
  case (Suc n)
  obtain l1 where l1: "l_Pop l front = Some (l1, if xs = [] then None else Some (if front then hd xs else last xs), xs \<noteq> [])"
    "list_rep l1 (if front then tl xs else butlast xs)" using l_Pop_rep[OF Suc.prems, of front] by auto
  show ?case
  proof (cases "xs = []")
    case True
    then show ?thesis using l1 by (auto simp: pop_list_def split: if_splits)
  next
    case False
    then show ?thesis using l1 Suc.IH[OF l1(2)] by (auto simp: pop_list_Suc split: prod.splits)
  qed
qed

lemma LPop_implements:
  assumes "shard_ok s" "entry_rep e s key a" "0 \<le> count"
  shows "implements e s key (sh_LPop e key count front s) (spec_LPop count front a)"
  unfolding sh_LPop_def spec_LPop_def
proof (rule write_implements[OF assms(1,2)], goal_cases)
  case (1 s ev ob l xs r)
  then show ?case using l_pop_n_rep[OF 1(1), of "nat count" front] assms(3) by (auto split: prod.splits if_splits)
next
  case (2 s ev ob l xs ys r)
  then show ?case using l_pop_n_rep[OF 2(1), of "nat count" front] assms(3) by (auto split: prod.splits if_splits)
qed

lemma newCollection_rep:
  assumes "shard_ok s"
  obtains s1 ob where "newCollection e s key TypeList c = (s1, ob)" "index_ok s1" "same_others key s s1"
    "sh_dict s1 key = Some ob" "o_Type ob = TypeList" "o_ExpireAt ob = 0" "o_Value ob = VList c" "o_Encoding ob = l_Encoding c"
proof -
  define ob where "ob = \<lparr>o_Type = TypeList, o_Encoding = l_Encoding c, o_Value = VList c, o_ExpireAt = 0, o_LRU = 0\<rparr>"
  show ?thesis
    by (rule that[of "store e s key ob" ob])
      (use shard_okD(1)[OF assms] in \<open>auto simp: newCollection_def Let_def ob_def same_others_def intro!: store_index_ok\<close>)
qed

lemma push_finish_rep:
  assumes "shard_ok s" "same_others key s s1" "index_ok s1" "sh_dict s1 key = Some ob"
    "o_Type ob = TypeList" "o_ExpireAt ob = at" "0 \<le> at" "list_rep l xs" "list_all len_ok vs"
  obtains s2 where "push_finish e s1 key ob l vs front = Some (s2, touched e key, int (length xs + length vs))"
    "shard_ok s2" "same_others key s s2"
    "entry_rep e s2 key (if push_list front vs xs = [] then None else live_entry e (AList (push_list front vs xs)) at)"
proof -
  obtain l' where l': "l_push_all l vs front (e_limits e) = Some l'" "list_rep l' (push_list front vs xs)"
    using l_push_all_rep[OF assms(8,9)] by blast
  obtain s2 where s2: "list_write e s1 key ob l' = Some (s2, touched e key)" "shard_ok s2" "same_others key s s2"
    "entry_rep e s2 key (if push_list front vs xs = [] then None else live_entry e (AList (push_list front vs xs)) at)"
    by (rule list_write_rep[OF assms(1-5) _ l'(2), of e]) (use assms(6,7) in auto)
  have "push_finish e s1 key ob l vs front = Some (s2, touched e key, int (length xs + length vs))"
    using l' s2(1) l_Len_rep[OF l'(2)] by (simp add: push_finish_def push_list_def)
  then show ?thesis using that s2 by blast
qed

lemma LPush_implements:
  assumes "shard_ok s" "entry_rep e s key a" "list_all len_ok vs"
  shows "implements e s key (sh_LPush e key vs front mustExist s) (spec_LPush vs front mustExist a)"
  using assms(1,2)
proof (cases rule: listAt_rep)
  case (wrong s' b at)
  then show ?thesis by (auto simp: sh_LPush_def spec_LPush_def spec_write_def intro!: meets_same)
next
  case (none s')
  show ?thesis
  proof (cases mustExist)
    case True
    then show ?thesis using none by (auto simp: sh_LPush_def spec_LPush_def spec_write_def intro!: meets_same)
  next
    case False
    obtain s1 ob where n: "newCollection e s' key TypeList newList = (s1, ob)" "index_ok s1" "same_others key s' s1"
      "sh_dict s1 key = Some ob" "o_Type ob = TypeList" "o_ExpireAt ob = 0" using newCollection_rep[OF none(3)] by metis
    obtain s2 where "push_finish e s1 key ob newList vs front = Some (s2, touched e key, int (length ([] :: bytes list) + length vs))"
      "shard_ok s2" "same_others key s s2"
      "entry_rep e s2 key (if push_list front vs [] = [] then None else live_entry e (AList (push_list front vs [])) 0)"
      by (rule push_finish_rep[OF assms(1) same_others_trans[OF none(4) n(3)] n(2,4,5,6) order_refl list_rep_new assms(3)])
    then show ?thesis using none n(1) False
      by (auto simp: sh_LPush_def spec_LPush_def push_list_def split: if_splits intro!: meetsI)
  qed
next
  case (some s' xs at ob l)
  obtain s2 where "push_finish e s' key ob l vs front = Some (s2, touched e key, int (length xs + length vs))"
    "shard_ok s2" "same_others key s s2"
    "entry_rep e s2 key (if push_list front vs xs = [] then None else live_entry e (AList (push_list front vs xs)) at)"
    by (rule push_finish_rep[OF assms(1) some(4) shard_okD(1)[OF some(3)] some(6,8,9,10,7) assms(3)])
  then show ?thesis using some(1,2) live_entry_any[OF some(11), of "AList (push_list front vs xs)"]
    by (auto simp: sh_LPush_def spec_LPush_def spec_write_def split: if_splits intro!: meetsI)
qed

lemma StoreList_implements:
  assumes "shard_ok s" "entry_rep e s key a" "list_all len_ok vs"
  shows "implements e s key (sh_StoreList e key vs s) (spec_StoreList vs a)"
proof -
  obtain s0 r where l: "lookup e s key = (s0, reap_events e s key, r)" "shard_ok s0" "same_others key s s0"
    "found e s0 key a r" "entry_rep e s0 key a" using lookup_rep[OF assms(1,2)] .
  define s' where "s' = (case r of None \<Rightarrow> s0 | Some ob \<Rightarrow> removeLocked e s0 key (Some ob))"
  have s': "shard_ok s'" "same_others key s s'" "entry_rep e s' key None"
    using l foundE[OF l(4)] by (cases r; fastforce simp: s'_def removeLocked_ok same_others_def entry_rep_def)+
  show ?thesis
  proof (cases "vs = []")
    case True
    then show ?thesis using s' l(1) by (auto simp: sh_StoreList_def spec_StoreList_def s'_def[symmetric] intro!: meetsI)
  next
    case False
    obtain c where c: "l_push_all newList vs False (e_limits e) = Some c" "list_rep c vs"
      using l_push_all_rep[OF list_rep_new assms(3), of False "e_limits e"] by (auto simp: push_list_def)
    obtain s1 ob where n: "newCollection e s' key TypeList c = (s1, ob)" "index_ok s1" "same_others key s' s1"
      "sh_dict s1 key = Some ob" "o_Type ob = TypeList" "o_ExpireAt ob = 0" "o_Value ob = VList c" using newCollection_rep[OF s'(1)] by metis
    have "ob\<lparr>o_Value := VList c\<rparr> = ob" "put_obj s1 key ob = s1" using n(4,7) by (auto simp: put_obj_def fun_upd_idem)
    then have "finishWrite e s1 key ob c = list_write e s1 key ob c" by (simp add: list_write_def Let_def)
    moreover obtain s2 where "list_write e s1 key ob c = Some (s2, touched e key)" "shard_ok s2" "same_others key s s2"
      "entry_rep e s2 key (if vs = [] then None else live_entry e (AList vs) (o_ExpireAt ob))"
      by (rule list_write_rep[OF assms(1) same_others_trans[OF s'(2) n(3)] n(2,4,5) _ c(2), of e]) (use n(6) in auto)
    ultimately show ?thesis using n(1,6) c l_Len_rep[OF c(2)] l(1) False
      by (auto simp: sh_StoreList_def spec_StoreList_def s'_def[symmetric] intro!: meetsI)
  qed
qed

end
