(* ===== verification/Expire_Ops.thy ===== *)
theory Expire_Ops
  imports Shard
begin

text \<open>
  The TTL commands and the active expiry cycle of \<open>engine/expire.go\<close>, and the single-key reads of
  \<open>engine/generic.go\<close>. The flags of \<open>EXPIRE\<close> are a byte; the second reading of the clock is
  an argument.
\<close>

unbundle bit_operations_syntax

definition ExpireNX :: "8 word" where "ExpireNX = 1"
definition ExpireXX :: "8 word" where "ExpireXX = 2"
definition ExpireGT :: "8 word" where "ExpireGT = 4"
definition ExpireLT :: "8 word" where "ExpireLT = 8"

definition expireConditionMet :: "int \<Rightarrow> int \<Rightarrow> 8 word \<Rightarrow> bool" where
  "expireConditionMet current nxt flags =
     (if flags AND ExpireNX \<noteq> 0 then current = 0
      else if flags AND ExpireXX \<noteq> 0 \<and> current = 0 then False
      else if flags AND ExpireGT \<noteq> 0 \<and> (current = 0 \<or> nxt \<le> current) then False
      else if flags AND ExpireLT \<noteq> 0 \<and> current \<noteq> 0 \<and> nxt \<ge> current then False
      else True)"

text \<open>The answer is \<open>(applied, deleted)\<close>.\<close>

definition sh_Expire :: "env \<Rightarrow> bytes \<Rightarrow> int \<Rightarrow> 8 word \<Rightarrow> int \<Rightarrow> shard \<Rightarrow> (shard \<times> event list \<times> (bool \<times> bool)) go" where
  "sh_Expire e key atMS flags now2 s =
     (let (s, ev, r) = lookup e s key
      in case r of None \<Rightarrow> Some (s, ev, (False, False))
         | Some ob \<Rightarrow>
             if \<not> expireConditionMet (o_ExpireAt ob) atMS flags then Some (s, ev, (False, False))
             else if atMS \<le> now2 \<and> \<not> e_loading e
             then Some (removeLocked e s key (Some ob), ev @ touched e key, (True, True))
             else Some (setExpireLocked s key ob atMS, ev @ touched e key, (True, False)))"

definition sh_Persist :: "env \<Rightarrow> bytes \<Rightarrow> shard \<Rightarrow> (shard \<times> event list \<times> bool) go" where
  "sh_Persist e key s =
     (let (s, ev, r) = lookup e s key
      in case r of None \<Rightarrow> Some (s, ev, False)
         | Some ob \<Rightarrow> if o_ExpireAt ob = 0 then Some (s, ev, False)
             else Some (setExpireLocked s key ob 0, ev @ touched e key, True))"

definition TTLNoKey :: int where "TTLNoKey = - 2"
definition TTLNoExpiry :: int where "TTLNoExpiry = - 1"

definition sh_PTTL :: "env \<Rightarrow> bytes \<Rightarrow> int \<Rightarrow> shard \<Rightarrow> (shard \<times> event list \<times> int) go" where
  "sh_PTTL e key now2 s =
     (let (s, r) = peek e s key
      in Some (s, [], case r of None \<Rightarrow> TTLNoKey
         | Some ob \<Rightarrow> if o_ExpireAt ob = 0 then TTLNoExpiry
             else let d = wrap64 (o_ExpireAt ob - now2) in if d > 0 then d else 0))"

definition sh_ExpireTime :: "env \<Rightarrow> bytes \<Rightarrow> shard \<Rightarrow> (shard \<times> event list \<times> int) go" where
  "sh_ExpireTime e key s =
     (let (s, r) = peek e s key
      in Some (s, [], case r of None \<Rightarrow> TTLNoKey
         | Some ob \<Rightarrow> if o_ExpireAt ob = 0 then TTLNoExpiry else o_ExpireAt ob))"

definition sh_Type :: "env \<Rightarrow> bytes \<Rightarrow> shard \<Rightarrow> (shard \<times> event list \<times> ObjectType option) go" where
  "sh_Type e key s = (let (s, r) = peekRead e s key in Some (s, [], map_option o_Type r))"

definition sh_Encoding :: "env \<Rightarrow> bytes \<Rightarrow> shard \<Rightarrow> (shard \<times> event list \<times> encoding option) go" where
  "sh_Encoding e key s = (let (s, r) = peek e s key in Some (s, [], map_option o_Encoding r))"

definition sh_MemoryUsage :: "env \<Rightarrow> bytes \<Rightarrow> shard \<Rightarrow> (shard \<times> event list \<times> int option) go" where
  "sh_MemoryUsage e key s = (let (s, r) = peek e s key in Some (s, [], map_option (objectSize e key) r))"

subsection \<open>The active cycle\<close>

text \<open>
  \<open>order\<close> is the order in which the range over the index visits its keys, which the runtime
  chooses. A key that the index names and the table does not have is dropped from the index.
\<close>

fun expireSample_loop :: "env \<Rightarrow> int \<Rightarrow> int \<Rightarrow> bytes list \<Rightarrow> shard \<Rightarrow> int \<times> int \<Rightarrow> shard \<times> event list \<times> int \<times> int" where
  "expireSample_loop e now n [] s (checked, exp) = (s, [], checked, exp)"
| "expireSample_loop e now n (k # ks) s (checked, exp) =
     (case sh_dict s k of
        None \<Rightarrow> expireSample_loop e now n ks (s\<lparr>sh_expires := sh_expires s - {k}\<rparr>) (checked, exp)
      | Some ob \<Rightarrow>
          let (s, ev, exp) = (if expiredAt e ob now then (case expireKey e s k ob of (s, ev) \<Rightarrow> (s, ev, exp + 1)) else (s, [], exp))
          in if checked + 1 \<ge> n then (s, ev, checked + 1, exp)
             else case expireSample_loop e now n ks s (checked + 1, exp) of (s, ev', r) \<Rightarrow> (s, ev @ ev', r))"

definition expireSample :: "env \<Rightarrow> int \<Rightarrow> bytes list \<Rightarrow> shard \<Rightarrow> shard \<times> event list \<times> int \<times> int" where
  "expireSample e n order s =
     (if sh_expires s = {} then (s, [], 0, 0) else expireSample_loop e (e_Now e) n order s (0, 0))"

subsection \<open>What the operations mean\<close>

definition spec_Expire :: "env \<Rightarrow> int \<Rightarrow> 8 word \<Rightarrow> int \<Rightarrow> aentry option \<Rightarrow> (bool \<times> bool) kspec" where
  "spec_Expire e atMS flags now2 a =
     (case a of None \<Rightarrow> (None, True, False, (False, False))
      | Some (v, at) \<Rightarrow>
          if \<not> expireConditionMet at atMS flags then (a, True, False, (False, False))
          else if atMS \<le> now2 \<and> \<not> e_loading e then (None, True, True, (True, True))
          else (live_entry e v atMS, True, True, (True, False)))"

definition spec_Persist :: "aentry option \<Rightarrow> bool kspec" where
  "spec_Persist a =
     (case a of None \<Rightarrow> (None, True, False, False)
      | Some (v, at) \<Rightarrow> if at = 0 then (a, True, False, False) else (Some (v, 0), True, True, True))"

definition spec_peek :: "'r \<Rightarrow> (aval \<Rightarrow> int \<Rightarrow> 'r) \<Rightarrow> aentry option \<Rightarrow> 'r kspec" where
  "spec_peek absent f a = (a, False, False, case a of None \<Rightarrow> absent | Some (v, at) \<Rightarrow> f v at)"

text \<open>The condition of \<open>EXPIRE\<close>, with no TTL read as an infinite one.\<close>

lemma expireConditionMet_NX: "flags AND ExpireNX \<noteq> 0 \<Longrightarrow> expireConditionMet cur nxt flags \<longleftrightarrow> cur = 0"
  by (simp add: expireConditionMet_def)

lemma Expire_implements:
  assumes "shard_ok s" "entry_rep e s key a" "0 \<le> now2" "e_loading e \<Longrightarrow> 0 \<le> atMS"
  shows "implements e s key (sh_Expire e key atMS flags now2 s) (spec_Expire e atMS flags now2 a)"
proof -
  obtain s' r where l: "lookup e s key = (s', reap_events e s key, r)" "shard_ok s'" "same_others key s s'"
    "found e s' key a r" "entry_rep e s' key a" using lookup_rep[OF assms(1,2)] .
  from l(4) show ?thesis
  proof (cases rule: foundE)
    case none
    then show ?thesis using l by (auto simp: sh_Expire_def spec_Expire_def intro!: meets_same)
  next
    case (some ob v at)
    have "0 \<le> atMS" if "\<not> (atMS \<le> now2 \<and> \<not> e_loading e)" using that assms(3,4) by (cases "e_loading e") auto
    then show ?thesis using l some
      by (auto simp: sh_Expire_def spec_Expire_def intro!: meets_same meets_remove meets_setExpire)
  qed
qed

lemma Persist_implements:
  assumes "shard_ok s" "entry_rep e s key a"
  shows "implements e s key (sh_Persist e key s) (spec_Persist a)"
proof -
  obtain s' r where l: "lookup e s key = (s', reap_events e s key, r)" "shard_ok s'" "same_others key s s'"
    "found e s' key a r" "entry_rep e s' key a" using lookup_rep[OF assms(1,2)] .
  from l(4) show ?thesis
  proof (cases rule: foundE)
    case none
    then show ?thesis using l by (auto simp: sh_Persist_def spec_Persist_def intro!: meets_same)
  next
    case (some ob v at)
    have "meets e s key True True (Some (setExpireLocked s' key ob 0, reap_events e s key @ touched e key, True)) (Some (v, 0)) True"
      using meets_setExpire[OF l(2,3) some(5), of 0] by simp
    then show ?thesis using l some by (auto simp: sh_Persist_def spec_Persist_def intro!: meets_same)
  qed
qed

lemma peek_implements:
  assumes "shard_ok s" "entry_rep e s key a"
    "\<And>ob v. obj_rep ob v \<Longrightarrow> g (Some ob) = f v (o_ExpireAt ob)"
  shows "implements e s key (let (s, r) = peek e s key in Some (s, [], g r)) (spec_peek (g None) f a)"
proof -
  obtain s' r where l: "peek e s key = (s', r)" "shard_ok s'" "same_others key s s'"
    "found e s' key a r" "entry_rep e s' key a" using peek_rep[OF assms(1,2)] .
  from l(4) show ?thesis
    by (cases rule: foundE) (use l assms(3) in \<open>auto simp: spec_peek_def intro!: meets_read\<close>)
qed

lemma peekRead_implements:
  assumes "shard_ok s" "entry_rep e s key a"
    "\<And>ob v. obj_rep ob v \<Longrightarrow> g (Some ob) = f v (o_ExpireAt ob)"
  shows "implements e s key (let (s, r) = peekRead e s key in Some (s, [], g r)) (spec_peek (g None) f a)"
proof -
  obtain s' r where l: "peekRead e s key = (s', r)" "shard_ok s'" "same_others key s s'"
    "found e s' key a r" "entry_rep e s' key a" using peekRead_rep[OF assms(1,2)] .
  from l(4) show ?thesis
    by (cases rule: foundE) (use l assms(3) in \<open>auto simp: spec_peek_def intro!: meets_read\<close>)
qed

definition ttl_of :: "int \<Rightarrow> int \<Rightarrow> int" where
  "ttl_of now at = (if at = 0 then TTLNoExpiry else let d = wrap64 (at - now) in if d > 0 then d else 0)"

lemma PTTL_implements:
  assumes "shard_ok s" "entry_rep e s key a"
  shows "implements e s key (sh_PTTL e key now2 s) (spec_peek TTLNoKey (\<lambda>_ at. ttl_of now2 at) a)"
  using peek_implements[OF assms, of "\<lambda>r. case r of None \<Rightarrow> TTLNoKey | Some ob \<Rightarrow> ttl_of now2 (o_ExpireAt ob)" "\<lambda>_ at. ttl_of now2 at"]
  unfolding sh_PTTL_def ttl_of_def by simp

lemma ExpireTime_implements:
  assumes "shard_ok s" "entry_rep e s key a"
  shows "implements e s key (sh_ExpireTime e key s) (spec_peek TTLNoKey (\<lambda>_ at. if at = 0 then TTLNoExpiry else at) a)"
  using peek_implements[OF assms, of "\<lambda>r. case r of None \<Rightarrow> TTLNoKey | Some ob \<Rightarrow> if o_ExpireAt ob = 0 then TTLNoExpiry else o_ExpireAt ob"
    "\<lambda>_ at. if at = 0 then TTLNoExpiry else at"]
  by (simp add: sh_ExpireTime_def)

lemma Type_implements:
  assumes "shard_ok s" "entry_rep e s key a"
  shows "implements e s key (sh_Type e key s) (spec_peek None (\<lambda>v _. Some (aval_type v)) a)"
  using peekRead_implements[OF assms, of "map_option o_Type" "\<lambda>v _. Some (aval_type v)"]
  by (simp add: sh_Type_def obj_rep_type)

end
