(* ===== verification/Keyspace.thy ===== *)
theory Keyspace
  imports String_Ops List_Ops Expire_Ops Simulation
begin

text \<open>
  A database: its shards and the mask that picks one by the hash of the key
  (\<open>engine/keyspace.go\<close>), and the commands over several keys
  (\<open>engine/string.go\<close>, \<open>engine/generic.go\<close>, \<open>engine/list.go\<close>).
  \<open>with_key\<close> is \<open>lockKey\<close>, the work on the locked shard and \<open>unlockKey\<close>; a command
  over several keys holds the locks of all of them and works on one shard after the other.
\<close>

unbundle bit_operations_syntax

subsection \<open>Options\<close>

record Options =
  opt_Databases :: int
  opt_Shards :: int
  opt_MaxStringLength :: int
  opt_ActiveExpire :: bool
  opt_ActiveExpireSampleSize :: int
  opt_ActiveExpireCPUPercent :: int
  opt_Encoding :: Thresholds
  opt_CachedClock :: bool

definition DefaultOptions :: Options where
  "DefaultOptions =
     \<lparr>opt_Databases = 16, opt_Shards = 16, opt_MaxStringLength = 512 * 1024 * 1024, opt_ActiveExpire = True,
      opt_ActiveExpireSampleSize = 20, opt_ActiveExpireCPUPercent = 25, opt_Encoding = DefaultThresholds,
      opt_CachedClock = False\<rparr>"

text \<open>Doubling in 64 bits; \<open>None\<close> when the fuel runs out, which the loop of the source would not notice.\<close>

fun round_pow2 :: "nat \<Rightarrow> int \<Rightarrow> int \<Rightarrow> int option" where
  "round_pow2 0 n shards = None"
| "round_pow2 (Suc fuel) n shards = (if n < shards then round_pow2 fuel (wrap64 (2 * n)) shards else Some n)"

definition opt_normalize :: "Options \<Rightarrow> Options option" where
  "opt_normalize op =
     do {
       let op = (if opt_Databases op \<le> 0 then op\<lparr>opt_Databases := 16\<rparr> else op);
       let op = (if opt_Shards op \<le> 0 then op\<lparr>opt_Shards := 1\<rparr> else op);
       n \<leftarrow> round_pow2 64 1 (opt_Shards op);
       let op = op\<lparr>opt_Shards := n\<rparr>;
       let op = (if opt_MaxStringLength op \<le> 0 then op\<lparr>opt_MaxStringLength := 512 * 1024 * 1024\<rparr> else op);
       let op = (if opt_ActiveExpireSampleSize op \<le> 0 then op\<lparr>opt_ActiveExpireSampleSize := 20\<rparr> else op);
       let op = (if opt_ActiveExpireCPUPercent op \<le> 0 \<or> opt_ActiveExpireCPUPercent op > 100
                 then op\<lparr>opt_ActiveExpireCPUPercent := 25\<rparr> else op);
       Some (op\<lparr>opt_Encoding := th_normalize (opt_Encoding op)\<rparr>)
     }"

subsection \<open>A database\<close>

record db =
  db_shards :: "shard list"
  db_mask :: "64 word"

definition newDB :: "nat \<Rightarrow> db" where
  "newDB n = \<lparr>db_shards = replicate n newShard, db_mask = word_of_int (int n - 1)\<rparr>"

definition shardIndex :: "env \<Rightarrow> db \<Rightarrow> bytes \<Rightarrow> nat" where
  "shardIndex e db key = unat (e_Sum64 e key AND db_mask db)"

definition with_key :: "env \<Rightarrow> db \<Rightarrow> bytes \<Rightarrow> (shard \<Rightarrow> (shard \<times> event list \<times> 'r) go) \<Rightarrow> (db \<times> event list \<times> 'r) go" where
  "with_key e db key f =
     (let i = shardIndex e db key
      in if i < length (db_shards db) then do {
           (s, ev, r) \<leftarrow> f (db_shards db ! i);
           Some (db\<lparr>db_shards := (db_shards db)[i := s]\<rparr>, ev, r)
         } else None)"

definition db_lookup :: "env \<Rightarrow> db \<Rightarrow> bytes \<Rightarrow> (db \<times> event list \<times> object option) go" where
  "db_lookup e db key = with_key e db key (\<lambda>s. Some (lookup e s key))"

definition flushLocked :: "db \<Rightarrow> db" where
  "flushLocked db = db\<lparr>db_shards := map (\<lambda>s. s\<lparr>sh_dict := Map.empty, sh_expires := {}, sh_memory := 0,
     sh_changes := sh_changes s + 1\<rparr>) (db_shards db)\<rparr>"

definition db_Size :: "env \<Rightarrow> db \<Rightarrow> int" where
  "db_Size e db = (\<Sum>s\<leftarrow>db_shards db. int (card (dom (sh_dict s))) -
     int (card {k \<in> sh_expires s. \<exists>ob. sh_dict s k = Some ob \<and> expiredAt e ob (e_Now e)}))"

definition TTLKeyCount :: "db \<Rightarrow> int" where
  "TTLKeyCount db = (\<Sum>s\<leftarrow>db_shards db. int (card (sh_expires s)))"

definition SwapDB :: "db list \<Rightarrow> int \<Rightarrow> int \<Rightarrow> db list option" where
  "SwapDB dbs i j =
     (if i < 0 \<or> i \<ge> int (length dbs) \<or> j < 0 \<or> j \<ge> int (length dbs) then None
      else if i = j then Some dbs
      else Some (dbs[nat i := (dbs ! nat i)\<lparr>db_shards := db_shards (dbs ! nat j)\<rparr>,
                     nat j := (dbs ! nat j)\<lparr>db_shards := db_shards (dbs ! nat i)\<rparr>]))"

subsection \<open>Commands over several keys\<close>

definition del_one :: "env \<Rightarrow> bytes \<Rightarrow> shard \<Rightarrow> (shard \<times> event list \<times> int) go" where
  "del_one e k s =
     (let (s, ev, r) = lookup e s k
      in case r of None \<Rightarrow> Some (s, ev, 0)
         | Some ob \<Rightarrow> Some (removeLocked e s k (Some ob), ev @ touched e k, 1))"

definition exists_one :: "env \<Rightarrow> bytes \<Rightarrow> shard \<Rightarrow> (shard \<times> event list \<times> int) go" where
  "exists_one e k s = (let (s, r) = peekRead e s k in Some (s, [], if r \<noteq> None then 1 else 0))"

text \<open>A loop over the keys that runs one step on the shard of each and collects the results.\<close>

fun each_key :: "env \<Rightarrow> (bytes \<Rightarrow> shard \<Rightarrow> (shard \<times> event list \<times> 'r) go) \<Rightarrow> bytes list \<Rightarrow> db \<Rightarrow> (db \<times> event list \<times> 'r list) go" where
  "each_key e f [] db = Some (db, [], [])"
| "each_key e f (k # ks) db =
     do {
       (db, ev, r) \<leftarrow> with_key e db k (f k);
       (db, ev', rs) \<leftarrow> each_key e f ks db;
       Some (db, ev @ ev', r # rs)
     }"

definition db_Del :: "env \<Rightarrow> bytes list \<Rightarrow> db \<Rightarrow> (db \<times> event list \<times> int) go" where
  "db_Del e keys db = map_option (\<lambda>(db, ev, ns). (db, ev, sum_list ns)) (each_key e (del_one e) keys db)"

definition db_Exists :: "env \<Rightarrow> bytes list \<Rightarrow> db \<Rightarrow> (db \<times> event list \<times> int) go" where
  "db_Exists e keys db = map_option (\<lambda>(db, ev, ns). (db, ev, sum_list ns)) (each_key e (exists_one e) keys db)"

definition mget_one :: "env \<Rightarrow> bytes \<Rightarrow> shard \<Rightarrow> (shard \<times> event list \<times> bytes option) go" where
  "mget_one e k s =
     (let (s, r) = peekRead e s k
      in case r of None \<Rightarrow> Some (s, [], None)
         | Some ob \<Rightarrow> if o_Type ob = TypeString then do { b \<leftarrow> stringBytes ob; Some (s, [], Some b) }
             else Some (s, [], None))"

definition db_MGet :: "env \<Rightarrow> bytes list \<Rightarrow> db \<Rightarrow> (db \<times> event list \<times> bytes option list) go" where
  "db_MGet e keys db = each_key e (mget_one e) keys db"

fun everyOther :: "bytes list \<Rightarrow> bytes list" where
  "everyOther [] = []"
| "everyOther [k] = [k]"
| "everyOther (k # v # rest) = k # everyOther rest"

text \<open>An odd number of arguments makes the index \<open>i+1\<close> run out of range.\<close>

fun mset_loop :: "env \<Rightarrow> bytes list \<Rightarrow> db \<Rightarrow> (db \<times> event list) go" where
  "mset_loop e [] db = Some (db, [])"
| "mset_loop e [k] db = None"
| "mset_loop e (k # v # rest) db =
     do {
       (db, ev, _) \<leftarrow> with_key e db k (\<lambda>s. Some (store e s k (newStringObject v), touched e k, ()));
       (db, ev') \<leftarrow> mset_loop e rest db;
       Some (db, ev @ ev')
     }"

definition db_MSet :: "env \<Rightarrow> bytes list \<Rightarrow> db \<Rightarrow> (db \<times> event list \<times> unit) go" where
  "db_MSet e pairs db = map_option (\<lambda>(db, ev). (db, ev, ())) (mset_loop e pairs db)"

fun none_exists :: "env \<Rightarrow> bytes list \<Rightarrow> db \<Rightarrow> (db \<times> event list \<times> bool) go" where
  "none_exists e [] db = Some (db, [], True)"
| "none_exists e (k # ks) db =
     do {
       (db, ev, r) \<leftarrow> db_lookup e db k;
       if r \<noteq> None then Some (db, ev, False)
       else do {
         (db, ev', b) \<leftarrow> none_exists e ks db;
         Some (db, ev @ ev', b)
       }
     }"

definition db_MSetNX :: "env \<Rightarrow> bytes list \<Rightarrow> db \<Rightarrow> (db \<times> event list \<times> bool) go" where
  "db_MSetNX e pairs db =
     do {
       (db, ev, free) \<leftarrow> none_exists e (everyOther pairs) db;
       if \<not> free then Some (db, ev, False)
       else do {
         (db, ev') \<leftarrow> mset_loop e pairs db;
         Some (db, ev @ ev', True)
       }
     }"

definition db_Rename :: "env \<Rightarrow> bytes \<Rightarrow> bytes \<Rightarrow> bool \<Rightarrow> db \<Rightarrow> (db \<times> event list \<times> (error + bool)) go" where
  "db_Rename e src dst nx db =
     do {
       (db, ev1, r) \<leftarrow> db_lookup e db src;
       case r of None \<Rightarrow> Some (db, ev1, Inl ErrNoSuchKey)
       | Some ob \<Rightarrow> do {
           (db, ev2, taken) \<leftarrow> (if nx then map_option (\<lambda>(db, ev, d). (db, ev, d \<noteq> None)) (db_lookup e db dst)
                                 else Some (db, [], False));
           if taken then Some (db, ev1 @ ev2, Inr False)
           else if src = dst then Some (db, ev1 @ ev2, Inr True)
           else do {
             (db, _, _) \<leftarrow> with_key e db src (\<lambda>s. Some (removeLocked e s src (Some ob), [], ()));
             (db, _, _) \<leftarrow> with_key e db dst (\<lambda>s. Some (store e s dst ob, [], ()));
             Some (db, ev1 @ ev2 @ touched e src @ touched e dst, Inr True)
           }
         }
     }"

text \<open>\<open>COPY\<close> within one database; the two arguments of \<open>copyLocked\<close> are then the same.\<close>

definition db_Copy :: "env \<Rightarrow> bytes \<Rightarrow> bytes \<Rightarrow> bool \<Rightarrow> db \<Rightarrow> (db \<times> event list \<times> bool) go" where
  "db_Copy e src dst replace db =
     do {
       (db, ev1, r) \<leftarrow> db_lookup e db src;
       case r of None \<Rightarrow> Some (db, ev1, False)
       | Some ob \<Rightarrow> do {
           (db, ev2, taken) \<leftarrow> (if \<not> replace then map_option (\<lambda>(db, ev, d). (db, ev, d \<noteq> None)) (db_lookup e db dst)
                                 else Some (db, [], False));
           if taken then Some (db, ev1 @ ev2, False)
           else do {
             c \<leftarrow> cloneObject ob;
             (db, _, _) \<leftarrow> with_key e db dst (\<lambda>s. Some (store e s dst c, [], ()));
             Some (db, ev1 @ ev2 @ touched e dst, True)
           }
         }
     }"

definition as_list_value :: "object \<Rightarrow> list_t go" where
  "as_list_value ob = (case o_Value ob of VList l \<Rightarrow> Some l | _ \<Rightarrow> None)"

definition db_lookupType :: "env \<Rightarrow> db \<Rightarrow> bytes \<Rightarrow> ObjectType \<Rightarrow> (db \<times> event list \<times> (error + object option)) go" where
  "db_lookupType e db key t = with_key e db key (\<lambda>s. Some (lookupType e s key t))"

definition lmove_dst :: "env \<Rightarrow> bytes \<Rightarrow> object option \<Rightarrow> bytes \<Rightarrow> bool \<Rightarrow> shard \<Rightarrow> (shard \<times> event list \<times> unit) go" where
  "lmove_dst e dst d v dstFront s =
     (case d of
        None \<Rightarrow> do {
          target \<leftarrow> l_Push newList v dstFront (e_limits e);
          (case newCollection e s dst TypeList target of (s, _) \<Rightarrow> Some (s, touched e dst, ()))
        }
      | Some ob \<Rightarrow> do {
          target \<leftarrow> as_list_value ob;
          target \<leftarrow> l_Push target v dstFront (e_limits e);
          (s, ev) \<leftarrow> list_write e s dst ob target;
          Some (s, ev, ())
        })"

text \<open>A popped \<open>nil\<close> is an empty slice; the answer of \<open>LMove\<close> is \<open>nil\<close> when nothing moved.\<close>

definition db_LMove :: "env \<Rightarrow> bytes \<Rightarrow> bytes \<Rightarrow> bool \<Rightarrow> bool \<Rightarrow> db \<Rightarrow> (db \<times> event list \<times> (error + bytes option)) go" where
  "db_LMove e src dst srcFront dstFront db =
     do {
       (db, ev1, r) \<leftarrow> db_lookupType e db src TypeList;
       case r of Inl err \<Rightarrow> Some (db, ev1, Inl err) | Inr None \<Rightarrow> Some (db, ev1, Inr None)
       | Inr (Some so) \<Rightarrow> do {
           source \<leftarrow> as_list_value so;
           if src = dst then do {
             (source, v0, ok) \<leftarrow> l_Pop source srcFront;
             if \<not> ok then Some (db, ev1, Inr None)
             else do {
               let v = (case v0 of None \<Rightarrow> [] | Some b \<Rightarrow> b);
               source \<leftarrow> l_Push source v dstFront (e_limits e);
               (db, ev2, _) \<leftarrow> with_key e db src (\<lambda>s. map_option (\<lambda>(s, ev). (s, ev, ())) (list_write e s src so source));
               Some (db, ev1 @ ev2, Inr (Some v))
             }
           } else do {
             (db, ev2, d) \<leftarrow> db_lookupType e db dst TypeList;
             case d of Inl err \<Rightarrow> Some (db, ev1 @ ev2, Inl err)
             | Inr d \<Rightarrow> do {
                 (source, v0, ok) \<leftarrow> l_Pop source srcFront;
                 if \<not> ok then Some (db, ev1 @ ev2, Inr None)
                 else do {
                   let v = (case v0 of None \<Rightarrow> [] | Some b \<Rightarrow> b);
                   (db, ev3, _) \<leftarrow> with_key e db dst (lmove_dst e dst d v dstFront);
                   (db, ev4, _) \<leftarrow> with_key e db src (\<lambda>s. map_option (\<lambda>(s, ev). (s, ev, ())) (list_write e s src so source));
                   Some (db, ev1 @ ev2 @ ev3 @ ev4, Inr (Some v))
                 }
               }
           }
         }
     }"

subsection \<open>The shards of a database are one map\<close>

definition db_obj :: "env \<Rightarrow> db \<Rightarrow> bytes \<Rightarrow> object option" where
  "db_obj e db key = sh_dict (db_shards db ! shardIndex e db key) key"

text \<open>
  There are a power of two of shards, the mask selects their indices, every shard is well
  formed and holds only keys whose hash leads to it.
\<close>

definition db_ok :: "env \<Rightarrow> db \<Rightarrow> bool" where
  "db_ok e db \<longleftrightarrow>
     (\<exists>k. length (db_shards db) = 2 ^ k \<and> db_mask db = mask k) \<and>
     (\<forall>i < length (db_shards db). shard_ok (db_shards db ! i) \<and>
        (\<forall>key. sh_dict (db_shards db ! i) key \<noteq> None \<longrightarrow> shardIndex e db key = i))"

definition obj_entry :: "env \<Rightarrow> object option \<Rightarrow> aentry option \<Rightarrow> bool" where
  "obj_entry e x a \<longleftrightarrow>
     (case a of None \<Rightarrow> (\<forall>ob. x = Some ob \<longrightarrow> expired e ob)
      | Some (v, at) \<Rightarrow> \<exists>ob. x = Some ob \<and> \<not> expired e ob \<and> obj_rep ob v \<and> o_ExpireAt ob = at)"

lemma entry_rep_obj: "entry_rep e s key a = obj_entry e (sh_dict s key) a"
  by (simp add: entry_rep_def obj_entry_def)

definition db_rep :: "env \<Rightarrow> db \<Rightarrow> (bytes \<rightharpoonup> aentry) \<Rightarrow> bool" where
  "db_rep e db m \<longleftrightarrow> db_ok e db \<and> (\<forall>k. obj_entry e (db_obj e db k) (m k))"

lemma and_mask_lt: "unat (h AND mask k) < 2 ^ k" for h :: "64 word"
  by (simp add: flip: take_bit_eq_mask) (simp add: unsigned_take_bit_eq)

lemma shardIndex_lt: "db_ok e db \<Longrightarrow> shardIndex e db key < length (db_shards db)"
  by (auto simp: db_ok_def shardIndex_def and_mask_lt)

lemma shardIndex_upd [simp]: "shardIndex e (db\<lparr>db_shards := ss\<rparr>) = shardIndex e db"
  by (rule ext) (simp add: shardIndex_def)

lemma db_ok_new:
  assumes "k \<le> 63"
  shows "db_ok e (newDB (2 ^ k))"
proof -
  have "word_of_int (2 ^ k - 1) = (mask k :: 64 word)" by (simp add: mask_eq_exp_minus_1)
  then show ?thesis by (auto simp: db_ok_def newDB_def shard_ok_new) (auto simp: newShard_def)
qed

lemma db_rep_new:
  assumes "k \<le> 63"
  shows "db_rep e (newDB (2 ^ k)) Map.empty"
proof -
  have "db_obj e (newDB (2 ^ k)) key = None" for key
    using shardIndex_lt[OF db_ok_new[OF assms], of e key]
    by (simp add: db_obj_def newDB_def) (simp add: newShard_def)
  then show ?thesis by (simp add: db_rep_def db_ok_new[OF assms] obj_entry_def)
qed

lemma with_key_run:
  assumes ok: "db_ok e db"
    and f: "f (db_shards db ! shardIndex e db key) = Some (s', ev, r)" "shard_ok s'"
      "same_others key (db_shards db ! shardIndex e db key) s'"
  obtains db' where "with_key e db key f = Some (db', ev, r)" "db_ok e db'" "db_obj e db' key = sh_dict s' key"
    "\<And>k. k \<noteq> key \<Longrightarrow> db_obj e db' k = db_obj e db k"
    "db_shards db' ! shardIndex e db' key = s'" "shardIndex e db' = shardIndex e db"
proof -
  let ?i = "shardIndex e db key"
  let ?db = "db\<lparr>db_shards := (db_shards db)[?i := s']\<rparr>"
  have lt: "?i < length (db_shards db)" by (rule shardIndex_lt[OF ok])
  have home: "sh_dict (db_shards db ! j) k \<noteq> None \<Longrightarrow> j < length (db_shards db) \<Longrightarrow> shardIndex e db k = j" for j k
    using ok by (auto simp: db_ok_def)
  have "shardIndex e db k = ?i" if "sh_dict s' k \<noteq> None" for k
    using that home[of ?i k] f(3) lt by (cases "k = key") (auto simp: same_others_def)
  then have "db_ok e ?db" using ok f(2) lt unfolding db_ok_def by (auto simp: nth_list_update split: if_splits)
  moreover have "db_obj e ?db k = db_obj e db k" if "k \<noteq> key" for k
    using that f(3) lt by (auto simp: db_obj_def nth_list_update same_others_def)
  ultimately show ?thesis using that[of ?db] f(1) lt by (auto simp: with_key_def Let_def db_obj_def)
qed

text \<open>An operation that keeps its contract on the shard of its key keeps it on the whole database.\<close>

lemma with_key_implements:
  assumes rep: "db_rep e db m"
    and f: "\<And>s. shard_ok s \<Longrightarrow> entry_rep e s key (m key) \<Longrightarrow> implements e s key (f s) (a, w, sig, r)"
  shows "\<exists>db' ev. with_key e db key f = Some (db', ev, r) \<and> db_rep e db' (m(key := a))"
proof -
  let ?s = "db_shards db ! shardIndex e db key"
  have ok: "db_ok e db" using rep by (simp add: db_rep_def)
  have "shard_ok ?s" using ok shardIndex_lt[OF ok] by (auto simp: db_ok_def)
  moreover have "entry_rep e ?s key (m key)" using rep by (auto simp: db_rep_def entry_rep_obj db_obj_def)
  ultimately have "meets e ?s key w sig (f ?s) a r" using f by fastforce
  then obtain s' ev where s': "f ?s = Some (s', ev, r)" "shard_ok s'" "same_others key ?s s'" "entry_rep e s' key a"
    by (auto simp: meets_def)
  obtain db' where "with_key e db key f = Some (db', ev, r)" "db_ok e db'" "db_obj e db' key = sh_dict s' key"
    "\<And>k. k \<noteq> key \<Longrightarrow> db_obj e db' k = db_obj e db k" by (rule with_key_run[where f = f and key = key, OF ok s'(1-3)]) blast
  then show ?thesis using rep s'(4) by (auto simp: db_rep_def entry_rep_obj)
qed

text \<open>The look-up of a command over several keys, with the object it returns.\<close>

lemma db_lookup_rep:
  assumes "db_rep e db m"
  obtains db' ev r where "db_lookup e db key = Some (db', ev, r)" "db_rep e db' m"
    "\<And>k. k \<noteq> key \<Longrightarrow> db_obj e db' k = db_obj e db k" "shardIndex e db' = shardIndex e db"
    "found e (db_shards db' ! shardIndex e db' key) key (m key) r"
proof -
  let ?s = "db_shards db ! shardIndex e db key"
  have ok: "db_ok e db" using assms by (simp add: db_rep_def)
  have "shard_ok ?s" using ok shardIndex_lt[OF ok] by (auto simp: db_ok_def)
  moreover have "entry_rep e ?s key (m key)" using assms by (auto simp: db_rep_def entry_rep_obj db_obj_def)
  ultimately obtain s' r where l: "lookup e ?s key = (s', reap_events e ?s key, r)" "shard_ok s'" "same_others key ?s s'"
    "found e s' key (m key) r" "entry_rep e s' key (m key)" by (rule lookup_rep)
  obtain db' where d: "db_lookup e db key = Some (db', reap_events e ?s key, r)" "db_ok e db'" "db_obj e db' key = sh_dict s' key"
    "\<And>k. k \<noteq> key \<Longrightarrow> db_obj e db' k = db_obj e db k" "db_shards db' ! shardIndex e db' key = s'" "shardIndex e db' = shardIndex e db"
    unfolding db_lookup_def by (rule with_key_run[where f = "\<lambda>s. Some (lookup e s key)" and key = key, OF ok _ l(2,3)]) (use l(1) in auto)
  have "db_rep e db' m" using assms d(2-4) l(5) unfolding db_rep_def entry_rep_obj by (metis (full_types))
  then show ?thesis using that[OF d(1)] d l(4) by auto
qed

lemma db_change_rep:
  assumes rep: "db_rep e db m"
    and f: "\<And>s. shard_ok s \<Longrightarrow> entry_rep e s key (m key) \<Longrightarrow>
      \<exists>s'. f s = Some (s', ev, r) \<and> shard_ok s' \<and> same_others key s s' \<and> entry_rep e s' key a"
  obtains db' where "with_key e db key f = Some (db', ev, r)" "db_rep e db' (m(key := a))"
    "\<And>k. k \<noteq> key \<Longrightarrow> db_obj e db' k = db_obj e db k"
proof -
  let ?s = "db_shards db ! shardIndex e db key"
  have ok: "db_ok e db" using rep by (simp add: db_rep_def)
  have "shard_ok ?s" using ok shardIndex_lt[OF ok] by (auto simp: db_ok_def)
  moreover have "entry_rep e ?s key (m key)" using rep by (auto simp: db_rep_def entry_rep_obj db_obj_def)
  ultimately obtain s' where s': "f ?s = Some (s', ev, r)" "shard_ok s'" "same_others key ?s s'" "entry_rep e s' key a"
    using f by blast
  obtain db' where d: "with_key e db key f = Some (db', ev, r)" "db_ok e db'" "db_obj e db' key = sh_dict s' key"
    "\<And>k. k \<noteq> key \<Longrightarrow> db_obj e db' k = db_obj e db k"
    by (rule with_key_run[where f = f and key = key, OF ok s'(1-3)]) blast
  then have "db_rep e db' (m(key := a))" using rep s'(4) by (auto simp: db_rep_def entry_rep_obj)
  then show ?thesis using that d by blast
qed

lemma db_store_rep:
  assumes "db_rep e db m" "obj_rep ob v" "o_ExpireAt ob = at" "0 \<le> at" "live_entry e v at = a"
  obtains db' where "with_key e db key (\<lambda>s. Some (store e s key ob, ev, ())) = Some (db', ev, ())" "db_rep e db' (m(key := a))"
    "\<And>k. k \<noteq> key \<Longrightarrow> db_obj e db' k = db_obj e db k"
proof (rule db_change_rep[OF assms(1), where f = "\<lambda>s. Some (store e s key ob, ev, ())" and key = key and a = a])
  fix s assume "shard_ok s"
  then show "\<exists>s'. Some (store e s key ob, ev, ()) = Some (s', ev, ()) \<and> shard_ok s' \<and> same_others key s s' \<and> entry_rep e s' key a"
    using assms(2-5) live_entry_rep[OF assms(2), of "store e s key ob" key e]
    by (auto simp: same_others_def intro!: store_ok intro: obj_okI)
qed (rule that)

lemma db_remove_rep:
  assumes "db_rep e db m"
  obtains db' where "with_key e db key (\<lambda>s. Some (removeLocked e s key (Some ob), ev, ())) = Some (db', ev, ())"
    "db_rep e db' (m(key := None))" "\<And>k. k \<noteq> key \<Longrightarrow> db_obj e db' k = db_obj e db k"
proof (rule db_change_rep[OF assms(1), where f = "\<lambda>s. Some (removeLocked e s key (Some ob), ev, ())" and key = key and a = None])
  fix s assume "shard_ok s"
  then show "\<exists>s'. Some (removeLocked e s key (Some ob), ev, ()) = Some (s', ev, ()) \<and> shard_ok s' \<and> same_others key s s' \<and> entry_rep e s' key None"
    by (auto simp: same_others_def removeLocked_ok entry_rep_def)
qed (rule that)

subsection \<open>What the commands over several keys mean\<close>

fun spec_each :: "(aentry option \<Rightarrow> 'r kspec) \<Rightarrow> bytes list \<Rightarrow> (bytes \<rightharpoonup> aentry) \<Rightarrow> (bytes \<rightharpoonup> aentry) \<times> 'r list" where
  "spec_each g [] m = (m, [])"
| "spec_each g (k # ks) m =
     (case g (m k) of (a, w, sig, r) \<Rightarrow> case spec_each g ks (m(k := a)) of (m', rs) \<Rightarrow> (m', r # rs))"

definition spec_del :: "aentry option \<Rightarrow> int kspec" where
  "spec_del a = (None, True, a \<noteq> None, if a = None then 0 else 1)"

definition spec_exists :: "aentry option \<Rightarrow> int kspec" where
  "spec_exists = spec_peek 0 (\<lambda>_ _. 1)"

definition spec_mget :: "aentry option \<Rightarrow> bytes option kspec" where
  "spec_mget = spec_peek None (\<lambda>v _. case v of AStr b \<Rightarrow> Some b | AList _ \<Rightarrow> None)"

fun spec_mset :: "bytes list \<Rightarrow> (bytes \<rightharpoonup> aentry) \<Rightarrow> (bytes \<rightharpoonup> aentry)" where
  "spec_mset (k # v # rest) m = spec_mset rest (m(k \<mapsto> (AStr v, 0)))"
| "spec_mset _ m = m"

definition spec_Rename :: "bytes \<Rightarrow> bytes \<Rightarrow> bool \<Rightarrow> (bytes \<rightharpoonup> aentry) \<Rightarrow> (bytes \<rightharpoonup> aentry) \<times> (error + bool)" where
  "spec_Rename src dst nx m =
     (case m src of None \<Rightarrow> (m, Inl ErrNoSuchKey)
      | Some x \<Rightarrow> if nx \<and> m dst \<noteq> None then (m, Inr False)
          else if src = dst then (m, Inr True)
          else (m(src := None, dst \<mapsto> x), Inr True))"

definition spec_Copy :: "bytes \<Rightarrow> bytes \<Rightarrow> bool \<Rightarrow> (bytes \<rightharpoonup> aentry) \<Rightarrow> (bytes \<rightharpoonup> aentry) \<times> bool" where
  "spec_Copy src dst replace m =
     (case m src of None \<Rightarrow> (m, False)
      | Some x \<Rightarrow> if \<not> replace \<and> m dst \<noteq> None then (m, False) else (m(dst \<mapsto> x), True))"

lemma each_key_rep:
  assumes "\<And>k s a. shard_ok s \<Longrightarrow> entry_rep e s k a \<Longrightarrow> implements e s k (f k s) (g a)"
  shows "db_rep e db m \<Longrightarrow> \<exists>db' ev. each_key e f ks db = Some (db', ev, snd (spec_each g ks m)) \<and> db_rep e db' (fst (spec_each g ks m))"
proof (induction ks arbitrary: db m)
  case (Cons k ks)
  obtain a w sig r where g: "g (m k) = (a, w, sig, r)" by (cases "g (m k)")
  obtain db1 ev where 1: "with_key e db k (f k) = Some (db1, ev, r)" "db_rep e db1 (m(k := a))"
    using with_key_implements[OF Cons.prems, of k "f k" a w sig r] assms[of _ k "m k"] g by auto
  obtain db2 ev2 where "each_key e f ks db1 = Some (db2, ev2, snd (spec_each g ks (m(k := a))))"
    "db_rep e db2 (fst (spec_each g ks (m(k := a))))" using Cons.IH[OF 1(2)] by blast
  then show ?case using 1 g by (auto split: prod.splits)
qed simp

lemma del_one_implements:
  assumes "shard_ok s" "entry_rep e s k a"
  shows "implements e s k (del_one e k s) (spec_del a)"
proof -
  obtain s' r where l: "lookup e s k = (s', reap_events e s k, r)" "shard_ok s'" "same_others k s s'"
    "found e s' k a r" "entry_rep e s' k a" using lookup_rep[OF assms] .
  from l(4) show ?thesis
    by (cases rule: foundE) (use l in \<open>auto simp: del_one_def spec_del_def intro!: meets_same meets_remove\<close>)
qed

lemma exists_one_implements:
  assumes "shard_ok s" "entry_rep e s k a"
  shows "implements e s k (exists_one e k s) (spec_exists a)"
  using peekRead_implements[OF assms, of "\<lambda>r. if r \<noteq> None then 1 else 0" "\<lambda>_ _. 1"]
  by (simp add: exists_one_def spec_exists_def)

lemma mget_one_implements:
  assumes "shard_ok s" "entry_rep e s k a"
  shows "implements e s k (mget_one e k s) (spec_mget a)"
proof -
  obtain s' r where l: "peekRead e s k = (s', r)" "shard_ok s'" "same_others k s s'"
    "found e s' k a r" "entry_rep e s' k a" using peekRead_rep[OF assms] .
  from l(4) show ?thesis
  proof (cases rule: foundE)
    case none
    then show ?thesis using l by (auto simp: mget_one_def spec_mget_def spec_peek_def intro!: meets_read)
  next
    case (some ob v at)
    then show ?thesis using l obj_rep_type[OF some(5)]
      by (cases v) (auto simp: mget_one_def spec_mget_def spec_peek_def stringBytes_rep intro!: meets_read)
  qed
qed

lemma mset_loop_rep:
  "db_rep e db m \<Longrightarrow> even (length pairs) \<Longrightarrow> \<exists>db' ev. mset_loop e pairs db = Some (db', ev) \<and> db_rep e db' (spec_mset pairs m)"
proof (induction pairs arbitrary: db m rule: everyOther.induct)
  case (3 k v rest)
  obtain db1 where 1: "with_key e db k (\<lambda>s. Some (store e s k (newStringObject v), touched e k, ())) = Some (db1, touched e k, ())"
    "db_rep e db1 (m(k \<mapsto> (AStr v, 0)))"
    by (rule db_store_rep[OF 3(2), where ob = "newStringObject v" and key = k and ev = "touched e k" and v = "AStr v" and at = 0]) auto
  obtain db2 ev2 where "mset_loop e rest db1 = Some (db2, ev2)" "db_rep e db2 (spec_mset rest (m(k \<mapsto> (AStr v, 0))))"
    using 3(1)[OF 1(2)] 3(3) by (metis even_Suc length_Cons)
  then show ?case using 1(1) by simp
qed auto

lemma none_exists_rep:
  "db_rep e db m \<Longrightarrow> \<exists>db' ev. none_exists e ks db = Some (db', ev, \<forall>k \<in> set ks. m k = None) \<and> db_rep e db' m"
proof (induction ks arbitrary: db)
  case (Cons k ks)
  obtain db1 ev r where 1: "db_lookup e db k = Some (db1, ev, r)" "db_rep e db1 m"
    "found e (db_shards db1 ! shardIndex e db1 k) k (m k) r" using db_lookup_rep[OF Cons.prems] by metis
  from 1(3) have "r = None \<longleftrightarrow> m k = None" by (auto elim: foundE)
  then show ?case using 1 Cons.IH[OF 1(2)] by auto
qed simp

lemma foundD:
  assumes "found e (db_shards db ! shardIndex e db k) k a r" "db_rep e db m"
  obtains (none) "a = None" "r = None"
    | (some) ob v at where "a = Some (v, at)" "r = Some ob" "db_obj e db k = Some ob" "obj_rep ob v"
        "o_ExpireAt ob = at" "0 \<le> at" "live_entry e v at = Some (v, at)"
  using assms(1)
proof (cases rule: foundE)
  case (some ob v at)
  have ok: "db_ok e db" using assms(2) by (simp add: db_rep_def)
  have "shard_ok (db_shards db ! shardIndex e db k)" using ok shardIndex_lt[OF ok] by (auto simp: db_ok_def)
  then have "0 \<le> at" using shard_okD(2)[OF _ some(3)] some(6) by (simp add: obj_ok_def)
  then show ?thesis using that(2)[OF some(1,2) _ some(5,6)] some(3,4,6) by (auto simp: db_obj_def live_entry_def expired_iff)
qed (rule that(1))

lemma Rename_rep:
  assumes rep: "db_rep e db m"
  shows "\<exists>db' ev. db_Rename e src dst nx db = Some (db', ev, snd (spec_Rename src dst nx m)) \<and>
    db_rep e db' (fst (spec_Rename src dst nx m))"
proof -
  obtain db1 ev1 r where 1: "db_lookup e db src = Some (db1, ev1, r)" "db_rep e db1 m"
    "found e (db_shards db1 ! shardIndex e db1 src) src (m src) r" using db_lookup_rep[OF rep] by metis
  from 1(3,2) show ?thesis
  proof (cases rule: foundD)
    case none
    then show ?thesis using 1 by (simp add: db_Rename_def spec_Rename_def)
  next
    case (some ob v at)
    obtain db2 ev2 where 2: "(if nx then map_option (\<lambda>(db, ev, d). (db, ev, d \<noteq> None)) (db_lookup e db1 dst)
        else Some (db1, [], False)) = Some (db2, ev2, nx \<and> m dst \<noteq> None)" "db_rep e db2 m"
    proof -
      obtain db2 ev2 d where d: "db_lookup e db1 dst = Some (db2, ev2, d)" "db_rep e db2 m"
        "found e (db_shards db2 ! shardIndex e db2 dst) dst (m dst) d" using db_lookup_rep[OF 1(2)] by metis
      from d(3) have "d = None \<longleftrightarrow> m dst = None" by (auto elim: foundE)
      then show thesis using that[of db1 "[]"] that[of db2 ev2] d 1(2) by (cases nx) auto
    qed
    obtain db3 where 3: "with_key e db2 src (\<lambda>s. Some (removeLocked e s src (Some ob), [], ())) = Some (db3, [], ())"
      "db_rep e db3 (m(src := None))" by (rule db_remove_rep[OF 2(2)])
    obtain db4 where 4: "with_key e db3 dst (\<lambda>s. Some (store e s dst ob, [], ())) = Some (db4, [], ())"
      "db_rep e db4 ((m(src := None))(dst := Some (v, at)))" by (rule db_store_rep[OF 3(2) some(4-7)])
    show ?thesis using some 1 2 3 4 by (auto simp: db_Rename_def spec_Rename_def)
  qed
qed

lemma Copy_rep:
  assumes rep: "db_rep e db m"
  shows "\<exists>db' ev. db_Copy e src dst replace db = Some (db', ev, snd (spec_Copy src dst replace m)) \<and>
    db_rep e db' (fst (spec_Copy src dst replace m))"
proof -
  obtain db1 ev1 r where 1: "db_lookup e db src = Some (db1, ev1, r)" "db_rep e db1 m"
    "found e (db_shards db1 ! shardIndex e db1 src) src (m src) r" using db_lookup_rep[OF rep] by metis
  from 1(3,2) show ?thesis
  proof (cases rule: foundD)
    case none
    then show ?thesis using 1 by (simp add: db_Copy_def spec_Copy_def)
  next
    case (some ob v at)
    obtain db2 ev2 where 2: "(if \<not> replace then map_option (\<lambda>(db, ev, d). (db, ev, d \<noteq> None)) (db_lookup e db1 dst)
        else Some (db1, [], False)) = Some (db2, ev2, \<not> replace \<and> m dst \<noteq> None)" "db_rep e db2 m"
    proof -
      obtain db2 ev2 d where d: "db_lookup e db1 dst = Some (db2, ev2, d)" "db_rep e db2 m"
        "found e (db_shards db2 ! shardIndex e db2 dst) dst (m dst) d" using db_lookup_rep[OF 1(2)] by metis
      from d(3) have "d = None \<longleftrightarrow> m dst = None" by (auto elim: foundE)
      then show thesis using that[of db1 "[]"] that[of db2 ev2] d 1(2) by (cases replace) auto
    qed
    obtain db4 where 4: "with_key e db2 dst (\<lambda>s. Some (store e s dst ob, [], ())) = Some (db4, [], ())"
      "db_rep e db4 (m(dst := Some (v, at)))" by (rule db_store_rep[OF 2(2) some(4-7)])
    show ?thesis using some(1,2) 1 2 4 cloneObject_rep[OF some(4)] by (auto simp: db_Copy_def spec_Copy_def)
  qed
qed

text \<open>Moving an element: it leaves one end of the source and enters one end of the destination.\<close>

definition pop_one :: "bool \<Rightarrow> 'a list \<Rightarrow> 'a \<times> 'a list" where
  "pop_one front xs = (if front then (hd xs, tl xs) else (last xs, butlast xs))"

definition list_entry :: "bytes list \<Rightarrow> int \<Rightarrow> aentry option" where
  "list_entry xs at = (if xs = [] then None else Some (AList xs, at))"

definition spec_LMove :: "bytes \<Rightarrow> bytes \<Rightarrow> bool \<Rightarrow> bool \<Rightarrow> (bytes \<rightharpoonup> aentry) \<Rightarrow> (bytes \<rightharpoonup> aentry) \<times> (error + bytes option)" where
  "spec_LMove src dst srcFront dstFront m =
     (case m src of None \<Rightarrow> (m, Inr None)
      | Some (AStr b, at) \<Rightarrow> (m, Inl ErrWrongType)
      | Some (AList xs, at) \<Rightarrow>
          (case pop_one srcFront xs of (v, rest) \<Rightarrow>
             if src = dst then (m(src := list_entry (push_list dstFront [v] rest) at), Inr (Some v))
             else case m dst of
                 Some (AStr b, at') \<Rightarrow> (m, Inl ErrWrongType)
               | Some (AList ys, at') \<Rightarrow>
                   (m(dst := list_entry (push_list dstFront [v] ys) at', src := list_entry rest at), Inr (Some v))
               | None \<Rightarrow> (m(dst := list_entry [v] 0, src := list_entry rest at), Inr (Some v))))"

lemma db_lookupType_eq:
  "db_lookupType e db k t = map_option (\<lambda>(db, ev, r). (db, ev, typed r t)) (db_lookup e db k)"
  by (auto simp: db_lookupType_def db_lookup_def with_key_def lookupType_def Let_def split: prod.splits)

lemma l_Pop_one:
  assumes "list_rep l xs" "xs \<noteq> []"
  obtains l' where "l_Pop l front = Some (l', Some (fst (pop_one front xs)), True)" "list_rep l' (snd (pop_one front xs))"
  using l_Pop_rep[OF assms(1), of front] assms(2) by (auto simp: pop_one_def split: if_splits)

lemma ql_rep_len_ok: "ql_rep q xs \<Longrightarrow> list_all len_ok xs"
proof -
  assume "ql_rep q xs"
  then obtain xss where xss: "ql_inv q xss" "xs = concat xss" by (auto simp: ql_rep_def)
  have "list_all len_ok ys" if "ys \<in> set xss" for ys
  proof -
    from that obtain i where "i < length xss" "ys = xss ! i" by (auto simp: in_set_conv_nth)
    then show ?thesis using ql_invD(2)[OF xss(1), of i] by (simp add: lp_rep_def)
  qed
  then show ?thesis using xss(2) by (auto simp: list_all_iff)
qed

lemma len_ok_elems: "list_rep l xs \<Longrightarrow> list_all len_ok xs"
  by (erule list_repE) (auto simp: lp_rep_def dest: ql_rep_len_ok)

lemma len_ok_pop: "list_rep l xs \<Longrightarrow> xs \<noteq> [] \<Longrightarrow> len_ok (fst (pop_one front xs))"
  using len_ok_elems[of l xs] by (auto simp: pop_one_def list_all_iff)

lemma l_Push_one:
  assumes "list_rep l xs" "len_ok v"
  obtains l' where "l_Push l v front t = Some l'" "list_rep l' (push_list front [v] xs)"
  using l_Push_rep[OF assms, of front t] by (cases front) (auto simp: push_list_def)

text \<open>The write-back of a list of the table, as a step on the database.\<close>

lemma db_list_write_rep:
  assumes "db_rep e db m" "db_obj e db key = Some ob" "o_Type ob = TypeList" "o_ExpireAt ob = at" "0 \<le> at"
    "list_rep l ys" "live_entry e (AList ys) at = Some (AList ys, at)"
  obtains db' where "with_key e db key (\<lambda>s. map_option (\<lambda>(s, ev). (s, ev, ())) (list_write e s key ob l)) = Some (db', touched e key, ())"
    "db_rep e db' (m(key := list_entry ys at))" "\<And>k. k \<noteq> key \<Longrightarrow> db_obj e db' k = db_obj e db k"
proof -
  let ?s = "db_shards db ! shardIndex e db key"
  have ok: "db_ok e db" using assms(1) by (simp add: db_rep_def)
  have s: "shard_ok ?s" using ok shardIndex_lt[OF ok] by (auto simp: db_ok_def)
  have d: "sh_dict ?s key = Some ob" using assms(2) by (simp add: db_obj_def)
  obtain s' where s': "list_write e ?s key ob l = Some (s', touched e key)" "shard_ok s'" "same_others key ?s s'"
    "entry_rep e s' key (if ys = [] then None else live_entry e (AList ys) (o_ExpireAt ob))"
    by (rule list_write_rep[OF s same_others_refl shard_okD(1)[OF s] d assms(3) _ assms(6)]) (use assms(4,5) in auto)
  let ?f = "\<lambda>s. map_option (\<lambda>(s, ev). (s, ev, ())) (list_write e s key ob l)"
  obtain db' where d: "with_key e db key ?f = Some (db', touched e key, ())" "db_ok e db'" "db_obj e db' key = sh_dict s' key"
    "\<And>k. k \<noteq> key \<Longrightarrow> db_obj e db' k = db_obj e db k"
    by (rule with_key_run[where f = ?f and key = key, OF ok _ s'(2,3)]) (use s'(1) in auto)
  have "obj_entry e (db_obj e db' key) (list_entry ys at)" using s'(4) d(3) assms(4,7) by (auto simp: list_entry_def entry_rep_obj)
  then have "db_rep e db' (m(key := list_entry ys at))" using assms(1) d(2,4) by (auto simp: db_rep_def)
  then show ?thesis using that d by blast
qed

lemma lmove_dst_rep:
  assumes "db_rep e db m" "len_ok v"
    and d: "m dst = None \<and> d = None \<or>
      (\<exists>ob ys at. m dst = Some (AList ys, at) \<and> d = Some ob \<and> db_obj e db dst = Some ob \<and> obj_rep ob (AList ys) \<and>
        o_ExpireAt ob = at \<and> 0 \<le> at \<and> live_entry e (AList ys) at = Some (AList ys, at))"
  obtains db' where "with_key e db dst (lmove_dst e dst d v front) = Some (db', touched e dst, ())"
    "db_rep e db' (m(dst := (case m dst of Some (AList ys, at) \<Rightarrow> list_entry (push_list front [v] ys) at | _ \<Rightarrow> list_entry [v] 0)))"
    "\<And>k. k \<noteq> dst \<Longrightarrow> db_obj e db' k = db_obj e db k"
  using d
proof (elim disjE exE conjE)
  assume "m dst = None" "d = None"
  obtain t where t: "l_Push newList v front (e_limits e) = Some t" "list_rep t (push_list front [v] [])"
    by (rule l_Push_one[OF list_rep_new assms(2)])
  define ob where "ob = \<lparr>o_Type = TypeList, o_Encoding = l_Encoding t, o_Value = VList t, o_ExpireAt = 0, o_LRU = 0\<rparr>"
  have ob: "obj_rep ob (AList [v])" using t(2) by (simp add: ob_def obj_rep.simps push_list_def split: if_splits)
  have "lmove_dst e dst d v front = (\<lambda>s. Some (store e s dst ob, touched e dst, ()))"
    using t(1) \<open>d = None\<close> by (simp add: lmove_dst_def fun_eq_iff newCollection_def Let_def ob_def)
  moreover obtain db' where "with_key e db dst (\<lambda>s. Some (store e s dst ob, touched e dst, ())) = Some (db', touched e dst, ())"
    "db_rep e db' (m(dst := list_entry [v] 0))" "\<And>k. k \<noteq> dst \<Longrightarrow> db_obj e db' k = db_obj e db k"
    by (rule db_store_rep[OF assms(1) ob, where at = 0 and key = dst and ev = "touched e dst" and a = "list_entry [v] 0"])
      (auto simp: ob_def list_entry_def)
  ultimately show thesis using that \<open>m dst = None\<close> by simp
next
  fix ob ys at
  assume some: "m dst = Some (AList ys, at)" "d = Some ob" "db_obj e db dst = Some ob" "obj_rep ob (AList ys)"
    "o_ExpireAt ob = at" "0 \<le> at" "live_entry e (AList ys) at = Some (AList ys, at)"
  obtain l where l: "o_Value ob = VList l" "list_rep l ys" "o_Type ob = TypeList" by (rule obj_rep_AListE[OF some(4)])
  obtain t where t: "l_Push l v front (e_limits e) = Some t" "list_rep t (push_list front [v] ys)"
    by (rule l_Push_one[OF l(2) assms(2)])
  have "lmove_dst e dst d v front = (\<lambda>s. map_option (\<lambda>(s, ev). (s, ev, ())) (list_write e s dst ob t))"
    using some(2) l(1) t(1) by (auto simp: lmove_dst_def fun_eq_iff as_list_value_def map_conv_bind_option split: prod.splits intro!: Option.bind_cong)
  moreover obtain db' where "with_key e db dst (\<lambda>s. map_option (\<lambda>(s, ev). (s, ev, ())) (list_write e s dst ob t)) = Some (db', touched e dst, ())"
    "db_rep e db' (m(dst := list_entry (push_list front [v] ys) at))" "\<And>k. k \<noteq> dst \<Longrightarrow> db_obj e db' k = db_obj e db k"
    by (rule db_list_write_rep[OF assms(1) some(3) l(3) some(5,6) t(2) live_entry_any[OF some(7)]]) blast
  ultimately show thesis using that some(1) by simp
qed

lemma LMove_rep:
  assumes rep: "db_rep e db m"
  shows "\<exists>db' ev. db_LMove e src dst sf df db = Some (db', ev, snd (spec_LMove src dst sf df m)) \<and>
    db_rep e db' (fst (spec_LMove src dst sf df m))"
proof -
  obtain db1 ev1 r where 1: "db_lookup e db src = Some (db1, ev1, r)" "db_rep e db1 m"
    "found e (db_shards db1 ! shardIndex e db1 src) src (m src) r" using db_lookup_rep[OF rep] by metis
  have t1: "db_lookupType e db src TypeList = Some (db1, ev1, typed r TypeList)" by (simp add: db_lookupType_eq 1(1))
  from 1(3,2) show ?thesis
  proof (cases rule: foundD)
    case none
    then show ?thesis using 1(2) t1 by (simp add: db_LMove_def spec_LMove_def typed_def)
  next
    case (some so v at)
    show ?thesis
    proof (cases v)
      case (AStr b)
      then show ?thesis using 1(2) t1 some(1,2) obj_rep_type[OF some(4)] by (simp add: db_LMove_def spec_LMove_def typed_def)
    next
      case (AList xs)
      obtain l where l: "o_Value so = VList l" "list_rep l xs" "xs \<noteq> []" "o_Type so = TypeList"
        using some(4) unfolding AList by (rule obj_rep_AListE)
      define x rest where x: "x = fst (pop_one sf xs)" and rest: "rest = snd (pop_one sf xs)"
      have px: "pop_one sf xs = (x, rest)" by (simp add: x rest)
      obtain l1 where l1: "l_Pop l sf = Some (l1, Some x, True)" "list_rep l1 rest"
        unfolding x rest by (rule l_Pop_one[OF l(2,3)])
      have ok: "len_ok x" unfolding x by (rule len_ok_pop[OF l(2,3)])
      have t: "typed r TypeList = Inr (Some so)" using some(2) l(4) by (simp add: typed_def)
      note live = live_entry_any[OF some(7)]
      show ?thesis
      proof (cases "src = dst")
        case True
        obtain l2 where l2: "l_Push l1 x df (e_limits e) = Some l2" "list_rep l2 (push_list df [x] rest)"
          by (rule l_Push_one[OF l1(2) ok])
        obtain db2 where "with_key e db1 src (\<lambda>s. map_option (\<lambda>(s, ev). (s, ev, ())) (list_write e s src so l2)) = Some (db2, touched e src, ())"
          "db_rep e db2 (m(src := list_entry (push_list df [x] rest) at))"
          by (rule db_list_write_rep[OF 1(2) some(3) l(4) some(5,6) l2(2) live])
        then show ?thesis using True some(1) AList px t1 t l(1) l1(1) l2(1)
          by (auto simp: db_LMove_def spec_LMove_def as_list_value_def)
      next
        case False
        obtain db2 ev2 d where 2: "db_lookup e db1 dst = Some (db2, ev2, d)" "db_rep e db2 m"
          "\<And>k. k \<noteq> dst \<Longrightarrow> db_obj e db2 k = db_obj e db1 k"
          "found e (db_shards db2 ! shardIndex e db2 dst) dst (m dst) d" using db_lookup_rep[OF 1(2)] by metis
        have t2: "db_lookupType e db1 dst TypeList = Some (db2, ev2, typed d TypeList)" by (simp add: db_lookupType_eq 2(1))
        show ?thesis
        proof (cases "\<exists>b at. m dst = Some (AStr b, at)")
          case True
          then have "typed d TypeList = Inl ErrWrongType" using 2(4) by (auto simp: typed_def dest: obj_rep_type elim!: foundE)
          then show ?thesis using True False some(1) AList px t1 t t2 l(1) 2(2)
            by (auto simp: db_LMove_def spec_LMove_def as_list_value_def)
        next
          case nstr: False
          have d: "m dst = None \<and> d = None \<or>
            (\<exists>ob ys at. m dst = Some (AList ys, at) \<and> d = Some ob \<and> db_obj e db2 dst = Some ob \<and> obj_rep ob (AList ys) \<and>
              o_ExpireAt ob = at \<and> 0 \<le> at \<and> live_entry e (AList ys) at = Some (AList ys, at))"
            using 2(4,2)
          proof (cases rule: foundD)
            case (some ob v at)
            then show ?thesis using nstr by (cases v) auto
          qed simp
          then have td: "typed d TypeList = Inr d" by (auto simp: typed_def dest: obj_rep_type)
          obtain db3 where 3: "with_key e db2 dst (lmove_dst e dst d x df) = Some (db3, touched e dst, ())"
            "db_rep e db3 (m(dst := (case m dst of Some (AList ys, at) \<Rightarrow> list_entry (push_list df [x] ys) at | _ \<Rightarrow> list_entry [x] 0)))"
            "\<And>k. k \<noteq> dst \<Longrightarrow> db_obj e db3 k = db_obj e db2 k"
            by (rule lmove_dst_rep[OF 2(2) ok d, where front = df]) blast
          have so: "db_obj e db3 src = Some so" using 3(3) 2(3) False some(3) by simp
          obtain db4 where "with_key e db3 src (\<lambda>s. map_option (\<lambda>(s, ev). (s, ev, ())) (list_write e s src so l1)) = Some (db4, touched e src, ())"
            "db_rep e db4 ((m(dst := (case m dst of Some (AList ys, at) \<Rightarrow> list_entry (push_list df [x] ys) at | _ \<Rightarrow> list_entry [x] 0)))(src := list_entry rest at))"
            by (rule db_list_write_rep[OF 3(2) so l(4) some(5,6) l1(2) live])
          then show ?thesis using False some(1) AList px t1 t t2 td l(1) l1(1) 3(1) d
            by (auto simp: db_LMove_def spec_LMove_def as_list_value_def)
        qed
      qed
    qed
  qed
qed

end
