(* ===== verification/Keyspace_Spec.thy ===== *)
theory Keyspace_Spec
  imports Keyspace
begin

text \<open>
  The operations of a database as one step function, and the abstract keyspace it implements: a
  single map from keys to values with deadlines, in which a key past its deadline is simply not
  there. Time passes between the steps; it never runs backwards.
\<close>

subsection \<open>The operations\<close>

datatype kreply = RErr error | RNil | RBulk bytes | RInt int | RBool bool | ROk | RMulti "bytes option list"
  | RIdx "int list" | RSet SetResult | RPair bool bool | RType "ObjectType option"

datatype read_op = RdGet | RdStrLen | RdGetRange int int | RdPTTL | RdExpireTime | RdType
  | RdLLen | RdLIndex int | RdLRange int int | RdLPos bytes int int int

datatype write_op = WrSet bytes SetOptions | WrGetDel | WrGetEx int bool | WrAppend bytes | WrSetRange int bytes
  | WrIncrBy int | WrExpire int "8 word" | WrPersist | WrLPush "bytes list" bool bool | WrLPop int bool
  | WrLSet int bytes | WrLInsert bytes bytes bool | WrLRem int bytes | WrLTrim int int | WrStoreList "bytes list"

datatype kop = KRead bytes read_op | KWrite bytes write_op | KDel "bytes list" | KExists "bytes list"
  | KMGet "bytes list" | KMSet "bytes list" | KMSetNX "bytes list" | KRename bytes bytes bool
  | KCopy bytes bytes bool | KLMove bytes bytes bool bool

definition or_err :: "('r \<Rightarrow> kreply) \<Rightarrow> error + 'r \<Rightarrow> kreply" where
  "or_err f r = (case r of Inl err \<Rightarrow> RErr err | Inr x \<Rightarrow> f x)"

definition or_nil :: "bytes option \<Rightarrow> kreply" where
  "or_nil v = (case v of None \<Rightarrow> RNil | Some b \<Rightarrow> RBulk b)"

definition multi :: "bytes list \<Rightarrow> kreply" where
  "multi xs = RMulti (map Some xs)"

definition answer :: "('r \<Rightarrow> kreply) \<Rightarrow> ('s \<times> event list \<times> 'r) go \<Rightarrow> ('s \<times> event list \<times> kreply) go" where
  "answer f c = map_option (\<lambda>(s, ev, r). (s, ev, f r)) c"

fun read_step :: "env \<Rightarrow> bytes \<Rightarrow> read_op \<Rightarrow> shard \<Rightarrow> (shard \<times> event list \<times> kreply) go" where
  "read_step e key RdGet s = answer (or_err or_nil) (sh_Get e key s)"
| "read_step e key RdStrLen s = answer (or_err RInt) (sh_StrLen e key s)"
| "read_step e key (RdGetRange i j) s = answer (or_err RBulk) (sh_GetRange e key i j s)"
| "read_step e key RdPTTL s = answer RInt (sh_PTTL e key (e_Now e) s)"
| "read_step e key RdExpireTime s = answer RInt (sh_ExpireTime e key s)"
| "read_step e key RdType s = answer RType (sh_Type e key s)"
| "read_step e key RdLLen s = answer (or_err RInt) (sh_LLen e key s)"
| "read_step e key (RdLIndex i) s = answer (or_err (\<lambda>(v, ok). or_nil v)) (sh_LIndex e key i s)"
| "read_step e key (RdLRange i j) s = answer (or_err multi) (sh_LRange e key i j s)"
| "read_step e key (RdLPos v r n m) s = answer (or_err RIdx) (sh_LPos e key v r n m s)"

fun write_step :: "env \<Rightarrow> bytes \<Rightarrow> write_op \<Rightarrow> shard \<Rightarrow> (shard \<times> event list \<times> kreply) go" where
  "write_step e key (WrSet v opts) s = answer (or_err RSet) (sh_Set e key v opts s)"
| "write_step e key WrGetDel s = answer (or_err or_nil) (sh_GetDel e key s)"
| "write_step e key (WrGetEx at p) s = answer (or_err or_nil) (sh_GetEx e key at p (e_Now e) s)"
| "write_step e key (WrAppend v) s = answer (or_err RInt) (sh_Append e key v s)"
| "write_step e key (WrSetRange n v) s = answer (or_err RInt) (sh_SetRange e key n v s)"
| "write_step e key (WrIncrBy n) s = answer (or_err RInt) (sh_IncrBy e key n s)"
| "write_step e key (WrExpire at fl) s = answer (\<lambda>(x, y). RPair x y) (sh_Expire e key at fl (e_Now e) s)"
| "write_step e key WrPersist s = answer RBool (sh_Persist e key s)"
| "write_step e key (WrLPush vs front mustExist) s = answer (or_err RInt) (sh_LPush e key vs front mustExist s)"
| "write_step e key (WrLPop n front) s = answer (or_err (\<lambda>r. case r of None \<Rightarrow> RNil | Some xs \<Rightarrow> multi xs)) (sh_LPop e key n front s)"
| "write_step e key (WrLSet i v) s = answer (or_err (\<lambda>_. ROk)) (sh_LSet e key i v s)"
| "write_step e key (WrLInsert p v before) s = answer (or_err RInt) (sh_LInsert e key p v before s)"
| "write_step e key (WrLRem n v) s = answer (or_err RInt) (sh_LRem e key n v s)"
| "write_step e key (WrLTrim i j) s = answer (or_err (\<lambda>_. ROk)) (sh_LTrim e key i j s)"
| "write_step e key (WrStoreList vs) s = answer RInt (sh_StoreList e key vs s)"

fun db_step :: "env \<Rightarrow> kop \<Rightarrow> db \<Rightarrow> (db \<times> event list \<times> kreply) go" where
  "db_step e (KRead key op) db = with_key e db key (read_step e key op)"
| "db_step e (KWrite key op) db = with_key e db key (write_step e key op)"
| "db_step e (KDel keys) db = answer RInt (db_Del e keys db)"
| "db_step e (KExists keys) db = answer RInt (db_Exists e keys db)"
| "db_step e (KMGet keys) db = answer RMulti (db_MGet e keys db)"
| "db_step e (KMSet pairs) db = answer (\<lambda>_. ROk) (db_MSet e pairs db)"
| "db_step e (KMSetNX pairs) db = answer RBool (db_MSetNX e pairs db)"
| "db_step e (KRename src dst nx) db = answer (or_err RBool) (db_Rename e src dst nx db)"
| "db_step e (KCopy src dst replace) db = answer RBool (db_Copy e src dst replace db)"
| "db_step e (KLMove src dst sf df) db = answer (or_err or_nil) (db_LMove e src dst sf df db)"

subsection \<open>The abstract keyspace\<close>

definition sanswer :: "('r \<Rightarrow> kreply) \<Rightarrow> 'r kspec \<Rightarrow> kreply kspec" where
  "sanswer f sp = (case sp of (a, w, sig, r) \<Rightarrow> (a, w, sig, f r))"

fun read_spec :: "env \<Rightarrow> read_op \<Rightarrow> aentry option \<Rightarrow> kreply kspec" where
  "read_spec e RdGet a = sanswer (or_err or_nil) (spec_Get a)"
| "read_spec e RdStrLen a = sanswer (or_err RInt) (spec_StrLen a)"
| "read_spec e (RdGetRange i j) a = sanswer (or_err RBulk) (spec_GetRange i j a)"
| "read_spec e RdPTTL a = sanswer RInt (spec_peek TTLNoKey (\<lambda>_ at. ttl_of (e_Now e) at) a)"
| "read_spec e RdExpireTime a = sanswer RInt (spec_peek TTLNoKey (\<lambda>_ at. if at = 0 then TTLNoExpiry else at) a)"
| "read_spec e RdType a = sanswer RType (spec_peek None (\<lambda>v _. Some (aval_type v)) a)"
| "read_spec e RdLLen a = sanswer (or_err RInt) (spec_read 0 (\<lambda>xs. int (length xs)) a)"
| "read_spec e (RdLIndex i) a = sanswer (or_err (\<lambda>(v, ok). or_nil v)) (spec_LIndex i a)"
| "read_spec e (RdLRange i j) a = sanswer (or_err multi) (spec_read [] (list_range i j) a)"
| "read_spec e (RdLPos v r n m) a = sanswer (or_err RIdx) (spec_read [] (\<lambda>xs. map int (list_pos v r n m xs)) a)"

fun write_spec :: "env \<Rightarrow> write_op \<Rightarrow> aentry option \<Rightarrow> kreply kspec" where
  "write_spec e (WrSet v opts) a = sanswer (or_err RSet) (spec_Set e v opts a)"
| "write_spec e WrGetDel a = sanswer (or_err or_nil) (spec_GetDel a)"
| "write_spec e (WrGetEx at p) a = sanswer (or_err or_nil) (spec_GetEx e at p (e_Now e) a)"
| "write_spec e (WrAppend v) a = sanswer (or_err RInt) (spec_Append e v a)"
| "write_spec e (WrSetRange n v) a = sanswer (or_err RInt) (spec_SetRange e n v a)"
| "write_spec e (WrIncrBy n) a = sanswer (or_err RInt) (spec_IncrBy n a)"
| "write_spec e (WrExpire at fl) a = sanswer (\<lambda>(x, y). RPair x y) (spec_Expire e at fl (e_Now e) a)"
| "write_spec e WrPersist a = sanswer RBool (spec_Persist a)"
| "write_spec e (WrLPush vs front mustExist) a = sanswer (or_err RInt) (spec_LPush vs front mustExist a)"
| "write_spec e (WrLPop n front) a = sanswer (or_err (\<lambda>r. case r of None \<Rightarrow> RNil | Some xs \<Rightarrow> multi xs)) (spec_LPop n front a)"
| "write_spec e (WrLSet i v) a = sanswer (or_err (\<lambda>_. ROk)) (spec_LSet i v a)"
| "write_spec e (WrLInsert p v before) a = sanswer (or_err RInt) (spec_LInsert p v before a)"
| "write_spec e (WrLRem n v) a = sanswer (or_err RInt) (spec_LRem n v a)"
| "write_spec e (WrLTrim i j) a = sanswer (or_err (\<lambda>_. ROk)) (spec_LTrim i j a)"
| "write_spec e (WrStoreList vs) a = sanswer RInt (spec_StoreList vs a)"

definition on_entry :: "bytes \<Rightarrow> (aentry option \<Rightarrow> kreply kspec) \<Rightarrow> (bytes \<rightharpoonup> aentry) \<Rightarrow> (bytes \<rightharpoonup> aentry) \<times> kreply" where
  "on_entry key g m = (case g (m key) of (a, w, sig, r) \<Rightarrow> (m(key := a), r))"

fun db_spec :: "env \<Rightarrow> kop \<Rightarrow> (bytes \<rightharpoonup> aentry) \<Rightarrow> (bytes \<rightharpoonup> aentry) \<times> kreply" where
  "db_spec e (KRead key op) m = on_entry key (read_spec e op) m"
| "db_spec e (KWrite key op) m = on_entry key (write_spec e op) m"
| "db_spec e (KDel keys) m = (case spec_each spec_del keys m of (m', ns) \<Rightarrow> (m', RInt (sum_list ns)))"
| "db_spec e (KExists keys) m = (case spec_each spec_exists keys m of (m', ns) \<Rightarrow> (m', RInt (sum_list ns)))"
| "db_spec e (KMGet keys) m = (case spec_each spec_mget keys m of (m', vs) \<Rightarrow> (m', RMulti vs))"
| "db_spec e (KMSet pairs) m = (spec_mset pairs m, ROk)"
| "db_spec e (KMSetNX pairs) m =
     (if \<forall>k \<in> set (everyOther pairs). m k = None then (spec_mset pairs m, RBool True) else (m, RBool False))"
| "db_spec e (KRename src dst nx) m = (case spec_Rename src dst nx m of (m', r) \<Rightarrow> (m', or_err RBool r))"
| "db_spec e (KCopy src dst replace) m = (case spec_Copy src dst replace m of (m', r) \<Rightarrow> (m', RBool r))"
| "db_spec e (KLMove src dst sf df) m = (case spec_LMove src dst sf df m of (m', r) \<Rightarrow> (m', or_err or_nil r))"

text \<open>
  What the command layer guarantees of the arguments: values are slices, counts are in range, pairs
  are pairs. \<open>SETRANGE\<close> is restricted to offsets whose sum with the length is an \<open>int64\<close>.
\<close>

fun read_ok :: "read_op \<Rightarrow> bool" where
  "read_ok (RdLPos v r n m) = (is_int64 r \<and> r \<noteq> min_int64)"
| "read_ok _ = True"

fun write_ok :: "env \<Rightarrow> write_op \<Rightarrow> bool" where
  "write_ok e (WrSetRange n v) = is_int64 (n + int (length v))"
| "write_ok e (WrIncrBy n) = is_int64 n"
| "write_ok e (WrExpire at fl) = (e_loading e \<longrightarrow> 0 \<le> at)"
| "write_ok e (WrLPush vs front mustExist) = list_all len_ok vs"
| "write_ok e (WrLPop n front) = (0 \<le> n)"
| "write_ok e (WrLSet i v) = len_ok v"
| "write_ok e (WrLInsert p v before) = len_ok v"
| "write_ok e (WrLRem n v) = (is_int64 n \<and> n \<noteq> min_int64)"
| "write_ok e (WrStoreList vs) = list_all len_ok vs"
| "write_ok e _ = True"

fun kop_ok :: "env \<Rightarrow> kop \<Rightarrow> bool" where
  "kop_ok e (KRead key op) = read_ok op"
| "kop_ok e (KWrite key op) = write_ok e op"
| "kop_ok e (KMSet pairs) = even (length pairs)"
| "kop_ok e (KMSetNX pairs) = even (length pairs)"
| "kop_ok e _ = True"

lemma implements_answer: "implements e s key c sp \<Longrightarrow> implements e s key (answer f c) (sanswer f sp)"
  by (auto simp: implements_def meets_def answer_def sanswer_def split: prod.splits)

lemma read_implements_spec:
  assumes "shard_ok s" "entry_rep e s key a" "read_ok op"
  shows "implements e s key (read_step e key op s) (read_spec e op a)"
  using assms
  by (cases op) (auto intro!: implements_answer Get_implements StrLen_implements GetRange_implements PTTL_implements
      ExpireTime_implements Type_implements LLen_implements LIndex_implements LRange_implements LPos_implements)

lemma write_implements_spec:
  assumes "shard_ok s" "entry_rep e s key a" "write_ok e op" "0 \<le> e_Now e"
  shows "implements e s key (write_step e key op s) (write_spec e op a)"
  using assms
  by (cases op) (auto intro!: implements_answer Set_implements GetDel_implements GetEx_implements Append_implements
      SetRange_implements IncrBy_implements Expire_implements Persist_implements LPush_implements LPop_implements
      LSet_implements LInsert_implements LRem_implements LTrim_implements StoreList_implements)

lemma on_entry_rep:
  assumes "db_rep e db m" "\<And>s. shard_ok s \<Longrightarrow> entry_rep e s key (m key) \<Longrightarrow> implements e s key (f s) (g (m key))"
  shows "\<exists>db' ev. with_key e db key f = Some (db', ev, snd (on_entry key g m)) \<and> db_rep e db' (fst (on_entry key g m))"
proof -
  obtain a w sig r where g: "g (m key) = (a, w, sig, r)" by (cases "g (m key)")
  show ?thesis using with_key_implements[OF assms(1), of key f a w sig r] assms(2) g by (simp add: on_entry_def)
qed

lemma db_step_rep:
  assumes rep: "db_rep e db m" and ok: "kop_ok e op" "0 \<le> e_Now e"
  shows "\<exists>db' ev. db_step e op db = Some (db', ev, snd (db_spec e op m)) \<and> db_rep e db' (fst (db_spec e op m))"
proof (cases op)
  case (KRead key rop)
  then show ?thesis using on_entry_rep[OF rep, of key "read_step e key rop" "read_spec e rop"] read_implements_spec ok by simp
next
  case (KWrite key wop)
  then show ?thesis using on_entry_rep[OF rep, of key "write_step e key wop" "write_spec e wop"] write_implements_spec ok by simp
next
  case (KDel ks)
  then show ?thesis using each_key_rep[where f = "del_one e" and g = spec_del, OF del_one_implements rep, of ks]
    by (auto simp: db_Del_def answer_def split: prod.splits)
next
  case (KExists ks)
  then show ?thesis using each_key_rep[where f = "exists_one e" and g = spec_exists, OF exists_one_implements rep, of ks]
    by (auto simp: db_Exists_def answer_def split: prod.splits)
next
  case (KMGet ks)
  then show ?thesis using each_key_rep[where f = "mget_one e" and g = spec_mget, OF mget_one_implements rep, of ks]
    by (auto simp: db_MGet_def answer_def split: prod.splits)
next
  case (KMSet pairs)
  then show ?thesis using mset_loop_rep[OF rep, of pairs] ok by (auto simp: db_MSet_def answer_def)
next
  case (KMSetNX pairs)
  obtain db1 ev where 1: "none_exists e (everyOther pairs) db = Some (db1, ev, \<forall>k \<in> set (everyOther pairs). m k = None)" "db_rep e db1 m"
    using none_exists_rep[OF rep] by blast
  then show ?thesis using KMSetNX mset_loop_rep[OF 1(2), of pairs] ok by (auto simp: db_MSetNX_def answer_def)
next
  case (KRename src dst nx)
  then show ?thesis using Rename_rep[OF rep, of src dst nx] by (auto simp: answer_def split: prod.splits)
next
  case (KCopy src dst replace)
  then show ?thesis using Copy_rep[OF rep, of src dst replace] by (auto simp: answer_def split: prod.splits)
next
  case (KLMove src dst sf df)
  then show ?thesis using LMove_rep[OF rep, of src dst sf df] by (auto simp: answer_def split: prod.splits)
qed

subsection \<open>Runs in time\<close>

text \<open>A step is the time since the last one and an operation; the state is the database and the clock.\<close>

definition at_time :: "env \<Rightarrow> int \<Rightarrow> env" where
  "at_time e t = e\<lparr>e_Now := t\<rparr>"

fun ks_step :: "env \<Rightarrow> int \<times> kop \<Rightarrow> db \<times> int \<Rightarrow> ((db \<times> int) \<times> kreply) go" where
  "ks_step e (d, op) (db, t) =
     map_option (\<lambda>(db', ev, r). ((db', t + d), r)) (db_step (at_time e (t + d)) op db)"

definition purge :: "env \<Rightarrow> (bytes \<rightharpoonup> aentry) \<Rightarrow> (bytes \<rightharpoonup> aentry)" where
  "purge e m = (\<lambda>k. case m k of None \<Rightarrow> None | Some (v, at) \<Rightarrow> live_entry e v at)"

fun ks_spec :: "env \<Rightarrow> int \<times> kop \<Rightarrow> (bytes \<rightharpoonup> aentry) \<times> int \<Rightarrow> ((bytes \<rightharpoonup> aentry) \<times> int) \<times> kreply" where
  "ks_spec e (d, op) (m, t) =
     (case db_spec (at_time e (t + d)) op (purge (at_time e (t + d)) m) of (m', r) \<Rightarrow> ((m', t + d), r))"

definition ks_ok :: "env \<Rightarrow> int \<times> kop \<Rightarrow> bool" where
  "ks_ok e x \<longleftrightarrow> 0 \<le> fst x \<and> kop_ok e (snd x)"

definition ks_rep :: "env \<Rightarrow> db \<times> int \<Rightarrow> (bytes \<rightharpoonup> aentry) \<times> int \<Rightarrow> bool" where
  "ks_rep e s m \<longleftrightarrow> snd s = snd m \<and> 0 \<le> snd m \<and> db_rep (at_time e (snd m)) (fst s) (fst m)"

lemma at_time_simps [simp]:
  "e_Now (at_time e t) = t" "e_loading (at_time e t) = e_loading e" "shardIndex (at_time e t) = shardIndex e"
  by (auto simp: at_time_def shardIndex_def fun_eq_iff)

lemma kop_ok_at_time [simp]: "kop_ok (at_time e t) op = kop_ok e op"
proof -
  have "write_ok (at_time e t) w = write_ok e w" for w by (cases w) auto
  then show ?thesis by (cases op) auto
qed

lemma db_rep_later:
  assumes "db_rep (at_time e t) db m" "t \<le> t'"
  shows "db_rep (at_time e t') db (purge (at_time e t') m)"
proof -
  have "obj_entry (at_time e t') x (case a of None \<Rightarrow> None | Some (v, at) \<Rightarrow> live_entry (at_time e t') v at)"
    if "obj_entry (at_time e t) x a" for x a
    using that assms(2) by (auto simp: obj_entry_def live_entry_def expired_iff split: option.splits if_splits)
  then show ?thesis using assms(1) by (auto simp: db_rep_def db_ok_def db_obj_def purge_def)
qed

interpretation ks: simulation "ks_rep e" "(newDB 16, 0)" "(Map.empty, 0)" "ks_ok e" "ks_step e" "ks_spec e"
proof unfold_locales
  show "ks_rep e (newDB 16, 0) (Map.empty, 0)"
    using db_rep_new[of 4 "at_time e 0"] by (simp add: ks_rep_def)
next
  fix s m and x :: "int \<times> kop"
  assume rep: "ks_rep e s m" and ok: "ks_ok e x"
  obtain db t m0 d op where eq: "s = (db, t)" "m = (m0, t)" "x = (d, op)"
    using rep by (cases s; cases m; cases x) (auto simp: ks_rep_def)
  have "db_rep (at_time e (t + d)) db (purge (at_time e (t + d)) m0)"
    by (rule db_rep_later[of e t]) (use rep ok eq in \<open>auto simp: ks_rep_def ks_ok_def\<close>)
  moreover have "kop_ok (at_time e (t + d)) op" "0 \<le> e_Now (at_time e (t + d))"
    using rep ok eq by (auto simp: ks_rep_def ks_ok_def)
  ultimately show "\<exists>s'. ks_step e x s = Some (s', snd (ks_spec e x m)) \<and> ks_rep e s' (fst (ks_spec e x m))"
    using db_step_rep[of "at_time e (t + d)" db "purge (at_time e (t + d)) m0" op] rep ok eq
    by (auto simp: ks_rep_def ks_ok_def split: prod.splits)
qed

text \<open>A concrete keyspace for the witnesses: time 100, no access tracking, a hash that counts bytes.\<close>

definition env0 :: env where
  "env0 = \<lparr>e_Index = 0, e_Now = 100, e_loading = False, e_replica = False, e_trackAccess = False, e_lfu = False,
     e_MaxStringLength = 1024, e_limits = DefaultThresholds, e_Sum64 = (\<lambda>k. of_nat (length k)),
     e_draw = (\<lambda>_. False), e_capList = (\<lambda>_. 64)\<rparr>"

subsection \<open>Properties\<close>



text \<open>What the abstract keyspace does depends on neither the hash nor the capacities.\<close>

lemma ks_spec_hash: "ks_spec (e\<lparr>e_Sum64 := h\<rparr>) = ks_spec e"
proof (intro ext)
  fix x :: "int \<times> kop" and m :: "(bytes \<rightharpoonup> aentry) \<times> int"
  obtain d op m0 t where x: "x = (d, op)" "m = (m0, t)" by (cases x; cases m) auto
  let ?e = "at_time e (t + d)"
  have at: "at_time (e\<lparr>e_Sum64 := h\<rparr>) (t + d) = ?e\<lparr>e_Sum64 := h\<rparr>" by (simp add: at_time_def)
  have live: "live_entry (e'\<lparr>e_Sum64 := h\<rparr>) = live_entry e'" for e' by (simp add: live_entry_def fun_eq_iff)
  have r: "read_spec (e'\<lparr>e_Sum64 := h\<rparr>) rop = read_spec e' rop" for e' rop by (rule ext, cases rop) simp_all
  have f: "e_MaxStringLength (e'\<lparr>e_Sum64 := h\<rparr>) = e_MaxStringLength e'" "e_loading (e'\<lparr>e_Sum64 := h\<rparr>) = e_loading e'" for e'
    by simp_all
  have "spec_Set (e'\<lparr>e_Sum64 := h\<rparr>) = spec_Set e'" "spec_GetEx (e'\<lparr>e_Sum64 := h\<rparr>) = spec_GetEx e'"
    "spec_Append (e'\<lparr>e_Sum64 := h\<rparr>) = spec_Append e'" "spec_SetRange (e'\<lparr>e_Sum64 := h\<rparr>) = spec_SetRange e'"
    "spec_Expire (e'\<lparr>e_Sum64 := h\<rparr>) = spec_Expire e'" for e'
    unfolding spec_Set_def[abs_def] spec_GetEx_def[abs_def] spec_Append_def[abs_def] spec_SetRange_def[abs_def]
      spec_Expire_def[abs_def] live f by (rule refl)+
  then have w: "write_spec (e'\<lparr>e_Sum64 := h\<rparr>) wop = write_spec e' wop" for e' wop
    by (intro ext, cases wop) simp_all
  have "db_spec (?e\<lparr>e_Sum64 := h\<rparr>) op = db_spec ?e op" by (rule ext, cases op) (simp_all add: r w)
  moreover have "purge (?e\<lparr>e_Sum64 := h\<rparr>) = purge ?e" unfolding purge_def[abs_def] live ..
  ultimately show "ks_spec (e\<lparr>e_Sum64 := h\<rparr>) x m = ks_spec e x m" by (simp add: x at)
qed



text \<open>
  C28: the TTL index is exact. After any run of commands, in every shard the index of keys with a TTL names
  exactly the keys of the table whose object carries a deadline, and every key sits in the shard its hash
  selects.
\<close>

theorem keyspace_index_exact:
  assumes "k \<le> 63" "0 \<le> t" "list_all (ks_ok e) ops"
    and "go_run (ks_step e) ops (newDB (2 ^ k), t) = Some ((db, t'), rs)" "i < length (db_shards db)"
  shows "sh_expires (db_shards db ! i) = {key. \<exists>ob. sh_dict (db_shards db ! i) key = Some ob \<and> 0 < o_ExpireAt ob} \<and>
    (\<forall>key ob. sh_dict (db_shards db ! i) key = Some ob \<longrightarrow> shardIndex e db key = i)"
proof -
  have "ks_rep e (newDB (2 ^ k), t) (Map.empty, t)" using assms(1,2) db_rep_new by (simp add: ks_rep_def)
  from ks.run_rep[OF this assms(3)] assms(4) have "ks_rep e (db, t') (fst (spec_run (ks_spec e) ops (Map.empty, t)))" by auto
  then obtain m where "ks_rep e (db, t') m" by blast
  then have "db_ok (at_time e (snd m)) db" by (simp add: ks_rep_def db_rep_def)
  then show ?thesis using assms(5) by (auto simp: db_ok_def shard_ok_def index_ok_def)
qed

definition ttl_run :: "(int \<times> kop) list" where
  "ttl_run = [(0, KWrite [1] (WrSet [55] \<lparr>so_NX = False, so_XX = False, so_Get = False, so_KeepTTL = False, so_At = 150\<rparr>)),
     (1, KWrite [1] WrPersist)]"

theorem keyspace_index_exact_witness:
  "\<exists>db t' rs. go_run (ks_step env0) ttl_run (newDB (2 ^ 0), 100) = Some ((db, t'), rs) \<and>
    (\<forall>i < length (db_shards db). sh_expires (db_shards db ! i) =
       {key. \<exists>ob. sh_dict (db_shards db ! i) key = Some ob \<and> 0 < o_ExpireAt ob})"
proof -
  have ok: "list_all (ks_ok env0) ttl_run" by (simp add: ttl_run_def ks_ok_def)
  have "ks_rep env0 (newDB (2 ^ 0), 100) (Map.empty, 100)" using db_rep_new[of 0] by (simp add: ks_rep_def)
  from ks.run_rep[OF this ok] obtain s rs where s: "go_run (ks_step env0) ttl_run (newDB (2 ^ 0), 100) = Some (s, rs)" by blast
  obtain db t' where "s = (db, t')" by (cases s)
  with s show ?thesis using keyspace_index_exact[of 0 100 env0 ttl_run db t' rs] ok by auto
qed

lemma round_pow2_some:
  assumes "shards \<le> 2 ^ 62" "j \<le> 62" "62 - j < fuel" "j = 0 \<or> 2 ^ (j - 1) < shards"
  shows "\<exists>k \<le> 62. round_pow2 fuel (2 ^ j) shards = Some (2 ^ k) \<and> shards \<le> 2 ^ k \<and> (k = 0 \<or> 2 ^ (k - 1) < shards)"
  using assms(2-4)
proof (induction fuel arbitrary: j)
  case (Suc fuel)
  show ?case
  proof (cases "2 ^ j < shards")
    case True
    then have "(2 :: int) ^ j < 2 ^ 62" using assms(1) by linarith
    then have j: "j < 62" by (rule power_less_imp_less_exp[rotated]) simp
    have "(2 :: int) ^ Suc j \<le> 2 ^ 62" using j by (intro power_increasing) auto
    moreover have "(0 :: int) \<le> 2 ^ Suc j" by (rule zero_le_power) simp
    moreover have "0 \<le> x \<Longrightarrow> x \<le> 2 ^ 62 \<Longrightarrow> is_int64 x" for x by (simp add: is_int64_def)
    ultimately have "is_int64 (2 * 2 ^ j)" unfolding power_Suc by blast
    then have "wrap64 (2 * 2 ^ j) = 2 ^ Suc j" by simp
    then show ?thesis using True Suc.IH[of "Suc j"] j Suc.prems by auto
  next
    case False
    then show ?thesis using Suc.prems by auto
  qed
qed simp

text \<open>
  the number of shards is a power of two. Normalising the options always ends for a shard count up to
  \<open>2 ^ 62\<close>, and yields the least power of two that is not below it (one, for a count that is not
  positive), so that masking a hash selects a shard.
\<close>

theorem normalize_shards_power_of_two:
  assumes "opt_Shards op \<le> 2 ^ 62"
  shows "\<exists>op' k. opt_normalize op = Some op' \<and> opt_Shards op' = 2 ^ k \<and> k \<le> 62 \<and>
    max 1 (opt_Shards op) \<le> 2 ^ k \<and> (k = 0 \<or> 2 ^ (k - 1) < opt_Shards op)"
proof -
  have "max 1 (opt_Shards op) \<le> 2 ^ 62" using assms by simp
  from round_pow2_some[OF this, of 0 64] obtain k where k: "k \<le> 62" "round_pow2 64 1 (max 1 (opt_Shards op)) = Some (2 ^ k)"
    "max 1 (opt_Shards op) \<le> 2 ^ k" "k = 0 \<or> 2 ^ (k - 1) < max 1 (opt_Shards op)" by auto
  moreover have "\<not> (2 :: int) ^ (k - 1) < 1" by (simp add: not_less)
  ultimately have "k = 0 \<or> 2 ^ (k - 1) < opt_Shards op" unfolding less_max_iff_disj by blast
  moreover have "opt_Shards (if opt_Shards o1 \<le> 0 then o1\<lparr>opt_Shards := 1\<rparr> else o1) = max 1 (opt_Shards o1)" for o1 :: Options
    by auto
  ultimately show ?thesis using k(1-3) unfolding opt_normalize_def Let_def by (auto simp del: round_pow2.simps)
qed

theorem normalize_shards_power_of_two_witness:
  "\<exists>op' k. opt_normalize (DefaultOptions\<lparr>opt_Shards := 9\<rparr>) = Some op' \<and> opt_Shards op' = 2 ^ k \<and> k \<le> 62 \<and>
    max 1 9 \<le> (2 :: int) ^ k \<and> (k = 0 \<or> 2 ^ (k - 1) < (9 :: int))"
  using normalize_shards_power_of_two[of "DefaultOptions\<lparr>opt_Shards := 9\<rparr>"] by simp

end
