(* ===== verification/Replay.thy ===== *)
theory Replay
  imports Keyspace_Spec
begin

text \<open>
  Why expiry is suspended while a log is replayed (\<open>Keyspace.SetLoading\<close>). A leader that finds a
  key past its deadline deletes it, tells the sink \<open>DEL key\<close>, and goes on as if it had never
  been there. A replay runs the same writes at a later time, with every deadline in the past; it
  deletes what the log tells it to delete and nothing else. The two end with the same contents.
\<close>

definition load :: "env \<Rightarrow> env" where
  "load e = e\<lparr>e_loading := True\<rparr>"

text \<open>What the replay of the events of a leader does: it runs every \<open>DEL\<close> that was propagated.\<close>

fun replay_effects :: "env \<Rightarrow> event list \<Rightarrow> shard \<Rightarrow> shard go" where
  "replay_effects e [] s = Some s"
| "replay_effects e (Effect i [c, k] # evs) s =
     (if c = delCommand then do { (s', _, _) \<leftarrow> del_one e k s; replay_effects e evs s' } else replay_effects e evs s)"
| "replay_effects e (_ # evs) s = replay_effects e evs s"

text \<open>A write whose record in the log is the write itself. The others are logged as what they did.\<close>

fun verbatim :: "write_op \<Rightarrow> bool" where
  "verbatim (WrGetEx at p) = False"
| "verbatim (WrExpire at fl) = False"
| "verbatim _ = True"

text \<open>The writes that refuse their arguments before they look at the key.\<close>

fun refused :: "env \<Rightarrow> write_op \<Rightarrow> bool" where
  "refused e (WrSet v opts) = (int (length v) > e_MaxStringLength e)"
| "refused e (WrSetRange n v) = (n < 0 \<or> wrap64 (n + int (length v)) > e_MaxStringLength e)"
| "refused e _ = False"

definition reap :: "env \<Rightarrow> shard \<Rightarrow> bytes \<Rightarrow> shard \<times> event list" where
  "reap e s key =
     (case sh_dict s key of None \<Rightarrow> (s, [])
      | Some ob \<Rightarrow> if expired e ob then expireKey e (put_obj s key (touchAccess e ob)) key (touchAccess e ob) else (s, []))"

lemma load_simps [simp]:
  "e_Now (load e) = e_Now e" "e_loading (load e)" "e_limits (load e) = e_limits e" "e_Index (load e) = e_Index e"
  "e_MaxStringLength (load e) = e_MaxStringLength e" "e_replica (load e) = e_replica e"
  by (simp_all add: load_def)

lemma load_ops [simp]:
  "touchAccess (load e) = touchAccess e" "objectSize (load e) = objectSize e" "touched (load e) = touched e"
proof -
  have c: "e_capList (load e) = e_capList e" by (simp add: load_def)
  have "valueSize (load e) = valueSize e" unfolding valueSize_def[abs_def] c ..
  then show "objectSize (load e) = objectSize e" unfolding objectSize_def[abs_def] by simp
qed (auto simp: load_def touchAccess_def lruNow_def touched_def fun_eq_iff)

lemma load_changes [simp]:
  "store (load e) = store e" "removeLocked (load e) = removeLocked e" "replaceValue (load e) = replaceValue e"
  "finishWrite (load e) = finishWrite e" "newCollection (load e) = newCollection e"
proof -
  show 1: "store (load e) = store e" "removeLocked (load e) = removeLocked e"
    unfolding store_def[abs_def] removeLocked_def[abs_def] load_ops by (rule refl)+
  show "replaceValue (load e) = replaceValue e" "newCollection (load e) = newCollection e"
    by (intro ext, simp add: replaceValue_def newCollection_def 1)+
  show "finishWrite (load e) = finishWrite e" unfolding finishWrite_def[abs_def] 1 load_ops by (rule refl)
qed

lemma load_list [simp]: "list_write (load e) = list_write e" "push_finish (load e) = push_finish e"
  by (intro ext, simp add: list_write_def push_finish_def)+

lemma not_expired_load [simp]: "\<not> expired (load e) ob"
  by (simp add: expired_iff)

lemma lookup_load:
  "lookup (load e) s key = (case sh_dict s key of None \<Rightarrow> (s, [], None)
     | Some ob \<Rightarrow> (put_obj s key (touchAccess e ob), [], Some (touchAccess e ob)))"
  by (simp add: lookup_def Let_def split: option.splits)

lemma lookup_reap:
  assumes "\<not> e_replica e"
  shows "lookup e s key = (case lookup (load e) (fst (reap e s key)) key of (s', ev, r) \<Rightarrow> (s', snd (reap e s key), r))"
  using assms by (auto simp: lookup_load lookup_def reap_def expireKey_def Let_def split: option.splits)

lemma lookup_load_quiet: "fst (snd (lookup (load e) s key)) = []"
  by (simp add: lookup_load split: option.splits)

definition prefixed :: "event list \<Rightarrow> ('s \<times> event list \<times> 'r) go \<Rightarrow> ('s \<times> event list \<times> 'r) go" where
  "prefixed ev c = map_option (\<lambda>(s, ev', r). (s, ev @ ev', r)) c"

lemma lookup_pair:
  assumes "\<not> e_replica e"
  obtains s' r where "lookup e s key = (s', snd (reap e s key), r)" "lookup (load e) (fst (reap e s key)) key = (s', [], r)"
proof -
  obtain s' ev r where l: "lookup (load e) (fst (reap e s key)) key = (s', ev, r)"
    by (cases "lookup (load e) (fst (reap e s key)) key")
  moreover from this have "ev = []" using lookup_load_quiet[of e "fst (reap e s key)" key] by simp
  ultimately show ?thesis using that lookup_reap[OF assms, of s key] by simp
qed

text \<open>A write of a leader is the reaping of its key followed by the write with expiry suspended.\<close>

lemma write_step_reap:
  assumes "\<not> e_replica e" "verbatim op" "\<not> refused e op"
  shows "write_step e key op s = prefixed (snd (reap e s key)) (write_step (load e) key op (fst (reap e s key)))"
proof -
  obtain s' r where l: "lookup e s key = (s', snd (reap e s key), r)"
    "lookup (load e) (fst (reap e s key)) key = (s', [], r)" by (rule lookup_pair[OF assms(1)])
  note defs = prefixed_def answer_def l lookupType_def listAt_def
  show ?thesis
  proof (cases op)
    case (WrSet v opts)
    then show ?thesis using assms(3) by (cases "set_previous opts r") (auto simp: defs sh_Set_def Let_def split: sum.splits option.splits)
  next
    case WrGetDel
    then show ?thesis by (auto simp: defs sh_GetDel_def Let_def split: sum.splits option.splits prod.splits Option.bind_splits if_splits)
  next
    case (WrAppend v)
    then show ?thesis by (auto simp: defs sh_Append_def Let_def split: sum.splits option.splits prod.splits Option.bind_splits if_splits)
  next
    case (WrSetRange n v)
    then show ?thesis using assms(3) by (auto simp: defs sh_SetRange_def Let_def split: sum.splits option.splits prod.splits Option.bind_splits if_splits)
  next
    case (WrIncrBy n)
    then show ?thesis by (auto simp: defs sh_IncrBy_def Let_def split: sum.splits option.splits prod.splits Option.bind_splits if_splits)
  next
    case WrPersist
    then show ?thesis by (auto simp: defs sh_Persist_def Let_def split: sum.splits option.splits prod.splits Option.bind_splits if_splits)
  next
    case (WrLPush vs front mustExist)
    then show ?thesis by (cases "asList (typed r TypeList)") (auto simp: defs sh_LPush_def Let_def split: sum.splits option.splits prod.splits Option.bind_splits if_splits)
  next
    case (WrLPop n front)
    then show ?thesis by (cases "asList (typed r TypeList)") (auto simp: defs sh_LPop_def Let_def split: sum.splits option.splits prod.splits Option.bind_splits if_splits)
  next
    case (WrLSet i v)
    then show ?thesis by (cases "asList (typed r TypeList)") (auto simp: defs sh_LSet_def Let_def split: sum.splits option.splits prod.splits Option.bind_splits if_splits)
  next
    case (WrLInsert p v before)
    then show ?thesis by (cases "asList (typed r TypeList)") (auto simp: defs sh_LInsert_def Let_def split: sum.splits option.splits prod.splits Option.bind_splits if_splits)
  next
    case (WrLRem n v)
    then show ?thesis by (cases "asList (typed r TypeList)") (auto simp: defs sh_LRem_def Let_def split: sum.splits option.splits prod.splits Option.bind_splits if_splits)
  next
    case (WrLTrim i j)
    then show ?thesis by (cases "asList (typed r TypeList)") (auto simp: defs sh_LTrim_def Let_def split: sum.splits option.splits prod.splits Option.bind_splits if_splits)
  next
    case (WrStoreList vs)
    then show ?thesis by (auto simp: defs sh_StoreList_def Let_def split: sum.splits option.splits prod.splits Option.bind_splits if_splits)
  qed (use assms(2) in auto)
qed

lemma refused_step:
  assumes "refused e op"
  shows "\<exists>r. \<forall>e' s. e_MaxStringLength e' = e_MaxStringLength e \<longrightarrow> write_step e' key op s = Some (s, [], r)"
  using assms by (cases op) (auto simp: sh_Set_def sh_SetRange_def answer_def)

text \<open>With expiry suspended, what a write means does not depend on the clock.\<close>

lemma live_entry_load [simp]: "e_loading e \<Longrightarrow> live_entry e v at = Some (v, at)"
  by (simp add: live_entry_def)

lemma write_spec_load:
  assumes "verbatim op" "e_loading e" "e_loading e'" "e_MaxStringLength e = e_MaxStringLength e'"
  shows "write_spec e op a = write_spec e' op a"
  using assms by (cases op) (auto simp: spec_Set_def spec_Append_def spec_SetRange_def Let_def split: option.splits sum.splits)

lemma entry_rep_load: "e_loading e \<Longrightarrow> e_loading e' \<Longrightarrow> entry_rep e s key a = entry_rep e' s key a"
  by (cases a) (auto simp: entry_rep_def expired_iff)

lemma replay_effects_quiet: "replay_effects e (if b then touched e' key else []) s = Some s"
  by (simp add: touched_def)

lemma replay_effects_append:
  "replay_effects e (xs @ ys) s = do { s' \<leftarrow> replay_effects e xs s; replay_effects e ys s' }"
  by (induction e xs s rule: replay_effects.induct) (auto split: prod.splits Option.bind_splits)

text \<open>Reaping on the leader, and the replay of what it tells the sink.\<close>

lemma reap_replay:
  assumes "shard_ok s" "entry_rep (load e) s key p" "\<not> e_loading e"
    and "shard_ok s2" "entry_rep L s2 key p" "e_loading L"
  obtains p0 s3 where "shard_ok (fst (reap e s key))" "entry_rep (load e) (fst (reap e s key)) key p0"
    "replay_effects L (snd (reap e s key)) s2 = Some s3" "shard_ok s3" "entry_rep L s3 key p0"
proof (cases "\<exists>ob. sh_dict s key = Some ob \<and> expired e ob")
  case False
  then have "reap e s key = (s, [])" by (auto simp: reap_def split: option.splits)
  then show ?thesis using that[of p s2] assms by simp
next
  case True
  then obtain ob where ob: "sh_dict s key = Some ob" "expired e ob" by blast
  let ?s1 = "put_obj s key (touchAccess e ob)"
  have "shard_ok ?s1" using put_obj_ok[OF assms(1) ob(1)] shard_okD(2)[OF assms(1) ob(1)] by simp
  then have 1: "shard_ok (fst (reap e s key))" "entry_rep (load e) (fst (reap e s key)) key None"
    "snd (reap e s key) = [Effect (e_Index e) [delCommand, key], KeyModified (e_Index e) key]"
    using ob by (auto simp: reap_def expireKey_def Let_def removeLocked_ok entry_rep_def)
  have "meets L s2 key True (p \<noteq> None) (del_one L key s2) None (if p = None then 0 else 1)"
    using del_one_implements[OF assms(4,5)] by (simp add: spec_del_def)
  then obtain s3 ev r where 3: "del_one L key s2 = Some (s3, ev, r)" "shard_ok s3" "entry_rep L s3 key None"
    by (auto simp: meets_def)
  then show ?thesis using that[of None s3] 1 by simp
qed

lemma implements_load_events:
  assumes "implements (load e) s key c sp"
  obtains s' sig where "c = Some (s', if sig then touched e key else [], snd (snd (snd sp)))" "shard_ok s'" "entry_rep (load e) s' key (fst sp)"
proof -
  have "reap_events (load e) s key = []" by (simp add: reap_events_def split: option.splits)
  moreover obtain a w sig r where "sp = (a, w, sig, r)" by (cases sp)
  ultimately show ?thesis using assms that[of _ sig] by (auto simp: meets_def)
qed


definition shard0 :: shard where
  "shard0 = newShard\<lparr>sh_dict := [[1] \<mapsto> (newRawObject [2])\<lparr>o_ExpireAt := 50\<rparr>], sh_expires := {[1]}\<rparr>"

lemma shard0_ok: "shard_ok shard0"
  by (auto simp: shard0_def newShard_def shard_ok_def index_ok_def obj_ok_def intro: exI[of _ "AStr [2]"])

lemma shard0_entry: "e_loading e \<Longrightarrow> entry_rep e shard0 [1] (Some (AStr [2], 50))"
  by (auto simp: shard0_def newShard_def entry_rep_def expired_iff)


text \<open>
  a replica keeps what its leader deletes. On a replica, with no log being loaded, \<open>Del\<close> on a key
  that is past its deadline finds nothing to delete: the key stays in the table, the count is
  zero, nothing is signalled. The \<open>DEL\<close> that a leader propagates for an expired key arrives in
  exactly this state.
\<close>

theorem replica_del_keeps_expired:
  assumes "e_replica e" "sh_dict s key = Some ob" "expired e ob"
  shows "\<exists>s'. del_one e key s = Some (s', [], 0) \<and> sh_dict s' key = Some (touchAccess e ob)"
  using assms by (simp add: del_one_def lookup_def Let_def)

theorem replica_del_keeps_expired_witness:
  "\<exists>s'. del_one (env0\<lparr>e_replica := True\<rparr>) [1] shard0 = Some (s', [], 0) \<and>
    sh_dict s' [1] = Some (touchAccess (env0\<lparr>e_replica := True\<rparr>) ((newRawObject [2])\<lparr>o_ExpireAt := 50\<rparr>))"
  by (rule replica_del_keeps_expired) (simp_all add: env0_def shard0_def newShard_def expired_iff)

text \<open>
  C38: \<open>SETRANGE\<close> with an offset near the largest integer panics. On an absent key, an offset whose sum with the
  length of a non-empty value passes \<open>2 ^ 63 - 1\<close> wraps to a negative end, passes the check against the
  largest string length, and the slice \<open>next[offset:]\<close> of an empty buffer is out of range.
\<close>

theorem setrange_offset_overflow_panics:
  assumes "shard_ok s" "entry_rep e s key None" "0 \<le> e_MaxStringLength e"
    and "0 \<le> offset" "offset \<le> max_int64" "max_int64 < offset + int (length val)" "len_ok val"
  shows "sh_SetRange e key offset val s = None"
proof -
  let ?n = "offset + int (length val)"
  have "wrap64 ?n = ?n - 2 ^ 64"
  proof -
    have "(?n + 2 ^ 63) mod 2 ^ 64 = (?n + 2 ^ 63 - 2 ^ 64) mod 2 ^ 64" by (rule minus_mod_self2[symmetric])
    also have "\<dots> = ?n + 2 ^ 63 - 2 ^ 64" using assms(5-7) by (intro mod_pos_pos_trivial) (auto simp: len_ok_def)
    finally show ?thesis by (simp add: wrap64_def)
  qed
  then have w: "wrap64 ?n < 0" using assms(5,7) by (simp add: len_ok_def)
  obtain s' where l: "lookupType e s key TypeString = (s', reap_events e s key, Inr None)"
    using assms(1,2) by (cases rule: lookupType_rep[where t = TypeString]) auto
  have "val \<noteq> []" "0 < offset" using assms(5,6,7) by (auto simp: len_ok_def)
  moreover from this have "setRange_next offset val [] = None"
    using w by (simp add: setRange_next_def go_slice_def Let_def)
  ultimately show ?thesis using w l assms(3,4) by (simp add: sh_SetRange_def)
qed

theorem setrange_offset_overflow_panics_witness:
  "sh_SetRange env0 [7] max_int64 [1] newShard = None"
  by (rule setrange_offset_overflow_panics[OF shard_ok_new])
    (simp_all add: env0_def entry_rep_def newShard_def len_ok_def)

text \<open>
  the size estimate does not see a list grow. A push onto an existing list leaves the estimate of its
  shard as it was, whatever was pushed and whatever the list then occupies: \<open>finishWrite\<close> takes the size
  before and the size after from the list as the push already left it.
\<close>

theorem push_leaves_estimate:
  assumes "shard_ok s" "entry_rep e s key (Some (AList xs, at))" "list_all len_ok vs" "vs \<noteq> []"
  shows "\<exists>s' ev n. sh_LPush e key vs front mustExist s = Some (s', ev, Inr n) \<and> n = int (length xs + length vs) \<and>
    sh_memory s' = sh_memory s"
  using assms(1,2)
proof (cases rule: listAt_rep)
  case (some s1 ys at' ob l)
  obtain l' where l': "l_push_all l vs front (e_limits e) = Some l'" "list_rep l' (push_list front vs xs)"
    using l_push_all_rep[of l xs vs front "e_limits e"] some(1,7) assms(3) by auto
  have "l_Len l' = Some (int (length xs + length vs))" using l_Len_rep[OF l'(2)] by (simp add: push_list_def)
  moreover have "sh_memory s1 = sh_memory s"
  proof -
    obtain ob0 where "sh_dict s key = Some ob0" "\<not> expired e ob0" using assms(2) by (auto simp: entry_rep_def)
    then show ?thesis using some(2) by (auto simp: listAt_def lookupType_def lookup_def Let_def put_obj_def)
  qed
  moreover have "int (length xs) + int (length vs) \<noteq> 0" using assms(4) by (cases vs) auto
  ultimately show ?thesis using some(2) l'(1)
    by (simp add: sh_LPush_def push_finish_def list_write_def finishWrite_def Let_def put_obj_def objectSize_def valueSize_def)
qed auto

lemma some_list_shard: "\<exists>s. shard_ok s \<and> entry_rep env0 s [1] (Some (AList [[5]], 0))"
proof -
  have "implements env0 newShard [1] (sh_LPush env0 [1] [[5]] True False newShard) (spec_LPush [[5]] True False None)"
    by (rule LPush_implements[OF shard_ok_new]) (simp_all add: entry_rep_def newShard_def len_ok_def)
  then show ?thesis by (auto simp: spec_LPush_def push_list_def meets_def)
qed

theorem push_leaves_estimate_witness:
  "\<exists>s s' ev. shard_ok s \<and> sh_LPush env0 [1] [[6]] True False s = Some (s', ev, Inr 2) \<and> sh_memory s' = sh_memory s"
proof -
  obtain s where "shard_ok s" "entry_rep env0 s [1] (Some (AList [[5]], 0))" using some_list_shard by blast
  then show ?thesis using push_leaves_estimate[of s env0 "[1]" "[[5]]" 0 "[[6]]" True False] by (auto simp: len_ok_def)
qed

end
