(* ===== verification/Resp_Reader.thy ===== *)
theory Resp_Reader
  imports Log_Record "HOL-Library.Sublist"
begin

text \<open>
  The command decoder of a connection, \<open>resp/reader.go\<close>, and the encoder of
  \<open>resp/math.go\<close>. A reader owns a buffer whose unparsed part is \<open>buf[r:w]\<close>; the
  connection behind it is the list of chunks that successive calls of \<open>Read\<close> deliver, cut
  further when the free space of the buffer is smaller than a chunk. The theorems: whatever
  the cuts, a pipeline of encoded commands is read back command by command; no input makes
  the parser panic; what it returns respects the limits.
\<close>

record Limits =
  MaxBulk :: int
  MaxMultiBulk :: int
  MaxInline :: int
  MaxQueryBuffer :: int

definition DefaultLimits :: Limits where
  "DefaultLimits =
     \<lparr>MaxBulk = 512 * 1024 * 1024, MaxMultiBulk = 1024 * 1024, MaxInline = 64 * 1024,
      MaxQueryBuffer = 1024 * 1024 * 1024\<rparr>"

datatype resp_error = errIncomplete | ProtocolError bytes

subsection \<open>Lines\<close>

function readLine_at :: "bytes \<Rightarrow> nat \<Rightarrow> nat \<Rightarrow> int \<Rightarrow> string \<Rightarrow> resp_error + (bytes \<times> nat)" where
  "readLine_at b pos i maxlen what =
     (if i < length b then
        if b ! i = LF then
          let end = (if i > pos \<and> b ! (i - 1) = CR then i - 1 else i)
          in Inr (take (end - pos) (drop pos b), i + 1)
        else readLine_at b pos (i + 1) maxlen what
      else if int (length b) - int pos > maxlen then Inl (ProtocolError (lit what))
      else Inl errIncomplete)"
  by pat_completeness auto
termination by (relation "measure (\<lambda>(b, pos, i, maxlen, what). length b - i)") auto

declare readLine_at.simps [simp del]

definition readLine :: "bytes \<Rightarrow> nat \<Rightarrow> int \<Rightarrow> string \<Rightarrow> resp_error + (bytes \<times> nat)" where
  "readLine b pos maxlen what = readLine_at b pos pos maxlen what"

subsection \<open>Arrays of bulk strings\<close>

text \<open>
  The argument loop, \<open>k\<close> arguments still to read. A length within \<open>MaxBulk\<close> can
  still wrap \<open>end\<close> when the limit is set near the end of the range.
\<close>

fun bulk_loop :: "nat \<Rightarrow> Limits \<Rightarrow> bytes \<Rightarrow> nat \<Rightarrow> bytes list \<Rightarrow> (resp_error + (bytes list \<times> nat)) go" where
  "bulk_loop 0 lim b pos args = Some (Inr (args, pos))"
| "bulk_loop (Suc k) lim b pos args =
     (if pos \<ge> length b then Some (Inl errIncomplete)
      else if b ! pos \<noteq> Dollar then
        Some (Inl (ProtocolError (lit ''expected '' @ [39, Dollar, 39] @ lit '', got '' @ [39, b ! pos, 39])))
      else
        case readLine b pos 64 ''invalid bulk length'' of
          Inl e \<Rightarrow> Some (Inl e)
        | Inr (hdr, pos') \<Rightarrow>
            do {
              digs \<leftarrow> go_slice hdr 1 (int (length hdr));
              (case resp_parseInt digs of
                 Inl e \<Rightarrow> Some (Inl (ProtocolError (lit ''invalid bulk length'')))
               | Inr n \<Rightarrow>
                   if n < 0 \<or> n > MaxBulk lim then Some (Inl (ProtocolError (lit ''invalid bulk length'')))
                   else
                     let end = wrap64 (int pos' + n)
                     in if wrap64 (end + 2) > int (length b) then Some (Inl errIncomplete)
                        else do {
                          c1 \<leftarrow> lst_nth b end;
                          c2 \<leftarrow> lst_nth b (end + 1);
                          if c1 \<noteq> CR \<or> c2 \<noteq> LF
                          then Some (Inl (ProtocolError (lit ''bad bulk string terminator'')))
                          else do {
                            a \<leftarrow> go_slice b (int pos') end;
                            bulk_loop k lim b (nat (end + 2)) (args @ [a])
                          }
                        })
            })"

declare bulk_loop.simps(2) [simp del]

definition parseMultiBulk :: "Limits \<Rightarrow> bytes \<Rightarrow> (resp_error + (bytes list \<times> nat)) go" where
  "parseMultiBulk lim b =
     (case readLine b 0 (MaxInline lim) ''invalid multibulk length'' of
        Inl e \<Rightarrow> Some (Inl e)
      | Inr (line, pos) \<Rightarrow>
          do {
            digs \<leftarrow> go_slice line 1 (int (length line));
            (case resp_parseInt digs of
               Inl e \<Rightarrow> Some (Inl (ProtocolError (lit ''invalid multibulk length'')))
             | Inr count \<Rightarrow>
                 if count \<le> 0 then
                   (if count < -1 then Some (Inl (ProtocolError (lit ''invalid multibulk length'')))
                    else Some (Inr ([], pos)))
                 else if count > MaxMultiBulk lim
                 then Some (Inl (ProtocolError (lit ''invalid multibulk length'')))
                 else bulk_loop (nat count) lim b pos [])
          })"

subsection \<open>Inline commands (resp/inline.go)\<close>

abbreviation Space :: byte where "Space \<equiv> 32"
abbreviation Quote :: byte where "Quote \<equiv> 34"
abbreviation Tick :: byte where "Tick \<equiv> 39"
abbreviation Backslash :: byte where "Backslash \<equiv> 92"

definition isSpace :: "byte \<Rightarrow> bool" where
  "isSpace c \<longleftrightarrow> c = Space \<or> c = 9 \<or> c = CR \<or> c = LF \<or> c = 11 \<or> c = 12"

definition unescape :: "byte \<Rightarrow> byte" where
  "unescape c =
     (if c = 110 then LF else if c = 114 then CR else if c = 116 then 9
      else if c = 98 then 8 else if c = 97 then 7 else c)"

definition isHex :: "byte \<Rightarrow> bool" where
  "isHex c \<longleftrightarrow> (c \<ge> 48 \<and> c \<le> 57) \<or> (c \<ge> 97 \<and> c \<le> 102) \<or> (c \<ge> 65 \<and> c \<le> 70)"

definition hexVal :: "byte \<Rightarrow> byte" where
  "hexVal c =
     (if c \<ge> 48 \<and> c \<le> 57 then c - 48
      else if c \<ge> 97 \<and> c \<le> 102 then c - 97 + 10
      else c - 65 + 10)"

text \<open>
  The two quoted forms write into \<open>scratch\<close>; \<open>start\<close> is where the argument being
  read begins there. The bytes appended are the third component of the result.
\<close>

definition unbalanced :: resp_error where
  "unbalanced = ProtocolError (lit ''unbalanced quotes in request'')"

function readDoubleQuoted_at :: "bytes \<Rightarrow> nat \<Rightarrow> nat \<Rightarrow> bytes \<Rightarrow> resp_error + (bytes \<times> nat \<times> bytes)" where
  "readDoubleQuoted_at line start i scratch =
     (if i < length line then
        let c = line ! i
        in if c = Backslash \<and> i + 3 < length line \<and> line ! (i + 1) = 120 \<and>
              isHex (line ! (i + 2)) \<and> isHex (line ! (i + 3)) then
             readDoubleQuoted_at line start (i + 4)
               (scratch @ [push_bit 4 (hexVal (line ! (i + 2))) OR hexVal (line ! (i + 3))])
           else if c = Backslash \<and> i + 1 < length line then
             readDoubleQuoted_at line start (i + 2) (scratch @ [unescape (line ! (i + 1))])
           else if c = Quote then
             (if i + 1 < length line \<and> \<not> isSpace (line ! (i + 1)) then Inl unbalanced
              else Inr (drop start scratch, i + 1, scratch))
           else readDoubleQuoted_at line start (i + 1) (scratch @ [c])
      else Inl unbalanced)"
  by pat_completeness auto
termination by (relation "measure (\<lambda>(line, start, i, scratch). length line - i)") auto

definition readDoubleQuoted :: "bytes \<Rightarrow> nat \<Rightarrow> bytes \<Rightarrow> resp_error + (bytes \<times> nat \<times> bytes)" where
  "readDoubleQuoted line i scratch = readDoubleQuoted_at line (length scratch) i scratch"

function readSingleQuoted_at :: "bytes \<Rightarrow> nat \<Rightarrow> nat \<Rightarrow> bytes \<Rightarrow> resp_error + (bytes \<times> nat \<times> bytes)" where
  "readSingleQuoted_at line start i scratch =
     (if i < length line then
        let c = line ! i
        in if c = Backslash \<and> i + 1 < length line \<and> line ! (i + 1) = Tick then
             readSingleQuoted_at line start (i + 2) (scratch @ [Tick])
           else if c = Tick then
             (if i + 1 < length line \<and> \<not> isSpace (line ! (i + 1)) then Inl unbalanced
              else Inr (drop start scratch, i + 1, scratch))
           else readSingleQuoted_at line start (i + 1) (scratch @ [c])
      else Inl unbalanced)"
  by pat_completeness auto
termination by (relation "measure (\<lambda>(line, start, i, scratch). length line - i)") auto

definition readSingleQuoted :: "bytes \<Rightarrow> nat \<Rightarrow> bytes \<Rightarrow> resp_error + (bytes \<times> nat \<times> bytes)" where
  "readSingleQuoted line i scratch = readSingleQuoted_at line (length scratch) i scratch"

declare readDoubleQuoted_at.simps [simp del] readSingleQuoted_at.simps [simp del]

text \<open>The two scanning loops of \<open>parseInline\<close>: over spaces, and over a bare word.\<close>

function scan_while :: "(byte \<Rightarrow> bool) \<Rightarrow> bytes \<Rightarrow> nat \<Rightarrow> nat" where
  "scan_while p line i = (if i < length line \<and> p (line ! i) then scan_while p line (i + 1) else i)"
  by pat_completeness auto
termination by (relation "measure (\<lambda>(p, line, i). length line - i)") auto

declare scan_while.simps [simp del]

definition inline_arg :: "bytes \<Rightarrow> nat \<Rightarrow> bytes \<Rightarrow> resp_error + (bytes \<times> nat \<times> bytes)" where
  "inline_arg line i scratch =
     (if line ! i = Quote then readDoubleQuoted line (i + 1) scratch
      else if line ! i = Tick then readSingleQuoted line (i + 1) scratch
      else let j = scan_while (\<lambda>c. \<not> isSpace c) line i
           in Inr (take (j - i) (drop i line), j, scratch))"

lemma scan_while_ge: "i \<le> scan_while p line i"
proof (induction p line i rule: scan_while.induct)
  case (1 p line i)
  then show ?case by (subst scan_while.simps) auto
qed

lemma scan_while_le: "i \<le> length line \<Longrightarrow> scan_while p line i \<le> length line"
proof (induction p line i rule: scan_while.induct)
  case (1 p line i)
  then show ?case by (subst scan_while.simps) auto
qed

definition quoted_bound :: "nat \<Rightarrow> bytes \<Rightarrow> nat \<Rightarrow> resp_error + (bytes \<times> nat \<times> bytes) \<Rightarrow> bool" where
  "quoted_bound n scratch i r \<longleftrightarrow>
     (\<forall>a j scratch'. r = Inr (a, j, scratch') \<longrightarrow>
        i < j \<and> j \<le> n \<and> length scratch' + i < length scratch + j \<and> prefix scratch scratch')"

lemma quoted_bound_simps [simp]:
  "quoted_bound n scratch i (Inl e)"
  "quoted_bound n scratch i (Inr (a, i + 1, scratch)) \<longleftrightarrow> i < n"
  by (auto simp: quoted_bound_def)

lemma quoted_bound_step:
  "quoted_bound n (scratch @ [c]) (i + d) r \<Longrightarrow> 0 < d \<Longrightarrow> quoted_bound n scratch i r"
  by (fastforce simp: quoted_bound_def dest: append_prefixD)

lemma readDoubleQuoted_at_bound:
  "quoted_bound (length line) scratch i (readDoubleQuoted_at line start i scratch)"
proof (induction line start i scratch rule: readDoubleQuoted_at.induct)
  case (1 line start i scratch)
  show ?case
    by (subst readDoubleQuoted_at.simps) (auto simp only: Let_def quoted_bound_simps if_True if_False
      split: if_split intro: quoted_bound_step[OF "1.IH"(1)] quoted_bound_step[OF "1.IH"(2)]
        quoted_bound_step[OF "1.IH"(3)])
qed

lemma readSingleQuoted_at_bound:
  "quoted_bound (length line) scratch i (readSingleQuoted_at line start i scratch)"
proof (induction line start i scratch rule: readSingleQuoted_at.induct)
  case (1 line start i scratch)
  show ?case
    by (subst readSingleQuoted_at.simps) (auto simp only: Let_def quoted_bound_simps if_True if_False
      split: if_split intro: quoted_bound_step[OF "1.IH"(1)] quoted_bound_step[OF "1.IH"(2)])
qed

lemma scan_while_stop:
  "scan_while p line i < length line \<Longrightarrow> \<not> p (line ! scan_while p line i)"
proof (induction p line i rule: scan_while.induct)
  case (1 p line i)
  then show ?case
    by (cases "i < length line \<and> p (line ! i)") (simp_all add: scan_while.simps[of p line i])
qed

lemma inline_arg_bound:
  assumes "inline_arg line i scratch = Inr (a, j, scratch')" "i < length line" "\<not> isSpace (line ! i)"
  shows "i < j \<and> j \<le> length line \<and> length scratch' + i \<le> length scratch + j \<and> prefix scratch scratch'"
proof -
  have "Suc i \<le> scan_while (\<lambda>c. \<not> isSpace c) line i"
    using assms(2,3) scan_while_ge[of "Suc i" "\<lambda>c. \<not> isSpace c" line]
    by (simp add: scan_while.simps[of _ line i])
  then show ?thesis
    using assms scan_while_le[of i line "\<lambda>c. \<not> isSpace c"]
      readDoubleQuoted_at_bound[of line scratch "i + 1" "length scratch"]
      readSingleQuoted_at_bound[of line scratch "i + 1" "length scratch"]
    by (auto simp: inline_arg_def Let_def readDoubleQuoted_def readSingleQuoted_def quoted_bound_def
        split: if_splits)
qed

function inline_loop :: "bytes \<Rightarrow> nat \<Rightarrow> bytes \<Rightarrow> bytes list \<Rightarrow> resp_error + (bytes list \<times> bytes)" where
  "inline_loop line i scratch args =
     (let i' = scan_while isSpace line i
      in if i' \<ge> length line then Inr (args, scratch)
         else case inline_arg line i' scratch of
                Inl e \<Rightarrow> Inl e
              | Inr (a, j, scratch') \<Rightarrow> inline_loop line j scratch' (args @ [a]))"
  by pat_completeness auto
termination
proof (relation "measure (\<lambda>(line, i, scratch, args). length line - i)")
  fix line :: bytes and i i' j scratch scratch' a x y and args :: "bytes list"
  assume i': "i' = scan_while isSpace line i" "\<not> length line \<le> i'"
    and x: "inline_arg line i' scratch = Inr x" "(a, y) = x" "(j, scratch') = y"
  then have "i' < j" "j \<le> length line"
    using inline_arg_bound[of line i' scratch a j scratch'] scan_while_stop[of isSpace line i] by auto
  moreover have "i \<le> i'" using i' scan_while_ge by simp
  ultimately show "((line, j, scratch', args @ [a]), line, i, scratch, args)
      \<in> measure (\<lambda>(line, i, scratch, args). length line - i)" by auto
qed simp

declare inline_loop.simps [simp del]

definition parseInline :: "Limits \<Rightarrow> bytes \<Rightarrow> resp_error + (bytes list \<times> nat)" where
  "parseInline lim b =
     (case readLine b 0 (MaxInline lim) ''too big inline request'' of
        Inl e \<Rightarrow> Inl e
      | Inr (line, pos) \<Rightarrow>
          if length line = 0 then Inr ([], pos)
          else case inline_loop line 0 [] [] of
                 Inl e \<Rightarrow> Inl e
               | Inr (args, scratch) \<Rightarrow> Inr (args, pos))"

text \<open>\<open>parse\<close> is called on a non-empty buffer: \<open>b[0]\<close> panics otherwise.\<close>

definition rd_parse :: "Limits \<Rightarrow> bytes \<Rightarrow> (resp_error + (bytes list \<times> nat)) go" where
  "rd_parse lim b =
     do {
       c \<leftarrow> lst_nth b 0;
       if c \<noteq> Star then Some (parseInline lim b) else parseMultiBulk lim b
     }"

subsection \<open>Lines, by the bytes that remain\<close>

definition strip_cr :: "bytes \<Rightarrow> bytes" where
  "strip_cr l = (if l \<noteq> [] \<and> last l = CR then butlast l else l)"

lemma strip_cr_snoc [simp]: "strip_cr (l @ [CR]) = l"
  by (simp add: strip_cr_def)

lemma readLine_at_line:
  "drop pos b = l1 @ l2 @ LF # rest \<Longrightarrow> LF \<notin> set l2 \<Longrightarrow>
   readLine_at b pos (pos + length l1) maxlen what =
     Inr (strip_cr (l1 @ l2), pos + length l1 + length l2 + 1)"
proof (induction l2 arbitrary: l1)
  case Nil
  have lt: "pos + length l1 < length b"
    using arg_cong[OF Nil(1), of length] by simp
  have at: "b ! (pos + length l1) = LF"
    using Nil(1) lt by (metis append_Nil less_or_eq_imp_le nth_append_length nth_drop add_leD1)
  have cr: "0 < length l1 \<Longrightarrow> b ! (pos + length l1 - 1) = last l1"
  proof -
    assume "0 < length l1"
    then have "b ! (pos + (length l1 - 1)) = (l1 @ LF # rest) ! (length l1 - 1)"
      using Nil(1) lt by (metis append_Nil less_or_eq_imp_le nth_drop add_leD1)
    then show ?thesis using \<open>0 < length l1\<close> by (simp add: nth_append last_conv_nth)
  qed
  show ?case
    using lt at cr Nil(1)
    by (subst readLine_at.simps) (auto simp: Let_def strip_cr_def butlast_conv_take)
next
  case (Cons c l2)
  have lt: "pos + length l1 < length b"
    using arg_cong[OF Cons.prems(1), of length] by simp
  have "b ! (pos + length l1) = c"
    using Cons.prems(1) lt
    by (metis append_Cons less_or_eq_imp_le nth_append_length nth_drop add_leD1)
  then show ?case
    using lt Cons.IH[of "l1 @ [c]"] Cons.prems by (subst readLine_at.simps) simp
qed

lemma readLine_at_none:
  "LF \<notin> set (drop i b) \<Longrightarrow>
   readLine_at b pos i maxlen what =
     (if int (length b) - int pos > maxlen then Inl (ProtocolError (lit what)) else Inl errIncomplete)"
proof (induction b pos i maxlen what rule: readLine_at.induct)
  case (1 b pos i maxlen what)
  show ?case
  proof (cases "i < length b")
    case True
    then have "drop i b = b ! i # drop (i + 1) b" by (simp add: Cons_nth_drop_Suc)
    then show ?thesis using 1 True by (subst readLine_at.simps) auto
  next
    case False
    then show ?thesis by (subst readLine_at.simps) simp
  qed
qed

lemma readLine_line:
  "drop pos b = l @ LF # rest \<Longrightarrow> LF \<notin> set l \<Longrightarrow>
   readLine b pos maxlen what = Inr (strip_cr l, pos + length l + 1)"
  using readLine_at_line[of pos b "[]" l rest] by (simp add: readLine_def)

lemma readLine_none:
  "LF \<notin> set (drop pos b) \<Longrightarrow>
   readLine b pos maxlen what =
     (if int (length b) - int pos > maxlen then Inl (ProtocolError (lit what)) else Inl errIncomplete)"
  by (simp add: readLine_def readLine_at_none)

lemma readLine_cases:
  obtains (line) l rest where "drop pos b = l @ LF # rest" "LF \<notin> set l"
      "readLine b pos maxlen what = Inr (strip_cr l, pos + length l + 1)" "pos + length l + 1 \<le> length b"
    | (none) e where "readLine b pos maxlen what = Inl e"
proof (cases "LF \<in> set (drop pos b)")
  case True
  then obtain l rest where l: "drop pos b = l @ LF # rest" "LF \<notin> set l"
    by (meson split_list_first)
  have "pos + length l + 1 \<le> length b" using arg_cong[OF l(1), of length] by simp
  then show ?thesis using line[OF l readLine_line[OF l]] by simp
next
  case False
  then show ?thesis using none readLine_none by (metis (full_types))
qed

lemma readLine_header:
  assumes "drop pos b = c # AppendInt n @ CR # LF # rest" "c \<noteq> LF"
  shows "readLine b pos maxlen what = Inr (c # AppendInt n, Suc (Suc (Suc (pos + length (AppendInt n)))))"
  using readLine_line[of pos b "c # AppendInt n @ [CR]" rest maxlen what] assms
    AppendInt_no_crlf[of LF n] strip_cr_snoc[of "c # AppendInt n"] by auto

lemma strip_cr_Cons: "c \<noteq> CR \<Longrightarrow> strip_cr (c # l) = c # strip_cr l"
  by (auto simp: strip_cr_def)

lemma length_strip_cr: "length (strip_cr l) \<le> length l"
  by (simp add: strip_cr_def)

lemma resp_slice_tail [simp]: "go_slice (c # l) 1 (1 + int (length l)) = Some l"
  by (simp add: go_slice_def)

lemma strict_prefix_append_cases:
  assumes "strict_prefix p (a @ b)"
  obtains "strict_prefix p a" | x where "p = a @ x" "strict_prefix x b"
proof (cases "strict_prefix p a")
  case False
  then obtain x where "p = a @ x" "prefix x b" "x \<noteq> b"
    using assms by (metis append_Nil2 Nil_prefix prefix_append strict_prefix_def)
  then show ?thesis using that(2) by (simp add: strict_prefix_def)
qed (rule that(1))

subsection \<open>The argument loop\<close>

lemma go_slice_drop: "drop p b = a @ rest \<Longrightarrow> p \<le> length b \<Longrightarrow> go_slice b (int p) (int (p + length a)) = Some a"
proof -
  assume a: "drop p b = a @ rest" and p: "p \<le> length b"
  have "length b - p = length a + length rest" using arg_cong[OF a, of length] by simp
  then show ?thesis using a p by (simp add: go_slice_def)
qed

lemma drop_nth_Cons: "drop pos b = c # xs \<Longrightarrow> pos < length b \<and> b ! pos = c"
  by (metis append_Nil2 drop_all hd_drop_conv_nth linorder_not_less list.distinct(1) list.sel(1))

text \<open>One round of the loop on a well-formed header line, where the offsets do not wrap.\<close>

lemma bulk_loop_step:
  assumes "pos < length b" "b ! pos = Dollar"
    and rl: "readLine b pos 64 ''invalid bulk length'' = Inr (Dollar # ds, p)"
    and n: "resp_parseInt ds = Inr n" "0 \<le> n" "n \<le> MaxBulk lim"
    and e: "e = p + nat n" "int e + 2 \<le> max_int64"
  shows "bulk_loop (Suc k) lim b pos args =
     (if length b < e + 2 then Some (Inl errIncomplete)
      else if b ! e \<noteq> CR \<or> b ! Suc e \<noteq> LF
      then Some (Inl (ProtocolError (lit ''bad bulk string terminator'')))
      else bulk_loop k lim b (e + 2) (args @ [take (nat n) (drop p b)]))"
proof -
  have i: "is_int64 (int e)" "is_int64 (int e + 2)" "int p + n = int e"
    using e n by (auto simp: is_int64_def)
  have sl: "e + 2 \<le> length b \<Longrightarrow> go_slice b (int p) (int e) = Some (take (nat n) (drop p b))"
    using e(1) n(2) by (simp add: go_slice_def)
  have "Suc e < length b \<Longrightarrow> lst_nth b (int e + 1) = Some (b ! Suc e)"
    using lst_nth_Some[of "Suc e" b] by (simp add: add.commute)
  moreover have "nat (int e + 2) = e + 2" by simp
  ultimately show ?thesis
    using assms(1,2) n sl lst_nth_Some[of e b]
    by (auto simp: bulk_loop.simps(2) rl Let_def i(3) wrap64_id[OF i(1)] wrap64_id[OF i(2)])
qed

lemma bulk_loop_bulk:
  assumes "drop pos b = bulk_bytes a @ rest" "int (length a) \<le> MaxBulk lim" "len_ok b"
  shows "bulk_loop (Suc k) lim b pos args = bulk_loop k lim b (pos + length (bulk_bytes a)) (args @ [a])"
proof -
  let ?n = "int (length a)"
  define h where "h = Suc (Suc (Suc (pos + length (AppendInt ?n))))"
  have b: "drop pos b = Dollar # AppendInt ?n @ CR # LF # a @ CR # LF # rest"
    using assms(1) by (simp add: bulk_bytes_def)
  have len: "h + length a + 2 + length rest = length b"
    using arg_cong[OF b, of length] by (simp add: h_def)
  have i: "is_int64 ?n" "?n \<noteq> min_int64" "int (h + length a) + 2 \<le> max_int64"
    using len assms(3) by (auto simp: is_int64_def len_ok_def)
  have tl: "drop h b = a @ CR # LF # rest"
    using arg_cong[OF b, of "drop (Suc (Suc (Suc (length (AppendInt ?n)))))"]
    by (simp add: h_def add.commute)
  have at: "b ! (h + length a) = CR" "b ! Suc (h + length a) = LF"
    using arg_cong[OF tl, of "\<lambda>x. x ! length a"] arg_cong[OF tl, of "\<lambda>x. x ! Suc (length a)"] len
    by (simp_all add: nth_append)
  have rl: "readLine b pos 64 ''invalid bulk length'' = Inr (Dollar # AppendInt ?n, h)"
    using readLine_header[OF b] by (simp add: h_def)
  have "h + length a + 2 = pos + length (bulk_bytes a)"
    by (simp add: bulk_bytes_def h_def)
  then show ?thesis
    using bulk_loop_step[OF _ _ rl resp_parseInt_AppendInt, of lim "h + length a" k args]
      drop_nth_Cons[OF b] i assms(2) at tl len by simp
qed

lemma bulk_loop_complete:
  "drop pos b = concat (map bulk_bytes as) @ rest \<Longrightarrow> \<forall>a \<in> set as. int (length a) \<le> MaxBulk lim \<Longrightarrow>
   len_ok b \<Longrightarrow>
   bulk_loop (length as) lim b pos args = Some (Inr (args @ as, pos + length (concat (map bulk_bytes as))))"
proof (induction as arbitrary: pos args)
  case (Cons a as)
  have "drop (pos + length (bulk_bytes a)) b = concat (map bulk_bytes as) @ rest"
    using arg_cong[OF Cons.prems(1), of "drop (length (bulk_bytes a))"] by (simp add: add.commute)
  then show ?case
    using Cons.IH[of "pos + length (bulk_bytes a)" "args @ [a]"] Cons.prems
      bulk_loop_bulk[of pos b a "concat (map bulk_bytes as) @ rest" lim "length as" args]
    by (simp add: add.assoc)
qed simp

lemma bulk_loop_cut:
  assumes "strict_prefix (drop pos b) (bulk_bytes a)" "pos \<le> length b" "len_ok b"
    and "int (length a) \<le> MaxBulk lim" "MaxBulk lim + int (length b) + 2 < 2 ^ 63"
  shows "bulk_loop (Suc k) lim b pos args = Some (Inl errIncomplete)"
proof (cases "pos = length b")
  case True
  then show ?thesis by (simp add: bulk_loop.simps(2))
next
  case False
  let ?n = "int (length a)"
  let ?h = "Dollar # AppendInt ?n @ [CR]"
  have hn: "LF \<notin> set ?h" using AppendInt_no_crlf[of LF ?n] by auto
  have i: "is_int64 ?n" "?n \<noteq> min_int64" using assms(4,5) by (auto simp: is_int64_def)
  have "drop pos b \<noteq> []" using False assms(2) by simp
  moreover have pre: "prefix (drop pos b) (?h @ LF # a @ [CR, LF])"
    using assms(1) by (simp add: bulk_bytes_def strict_prefix_def)
  ultimately obtain y where "drop pos b = Dollar # y" by (cases "drop pos b") auto
  from drop_nth_Cons[OF this] have d: "pos < length b" "b ! pos = Dollar" by simp_all
  consider "prefix (drop pos b) ?h" | x where "drop pos b = ?h @ LF # x"
    using pre unfolding prefix_append by (auto simp: prefix_Cons)
  then show ?thesis
  proof cases
    case 1
    then have "LF \<notin> set (drop pos b)" using hn by (meson set_mono_prefix subsetD)
    moreover have "length b - pos \<le> 22"
      using prefix_length_le[OF 1] length_AppendInt[OF i(1)] by simp
    ultimately have "readLine b pos 64 ''invalid bulk length'' = Inl errIncomplete"
      using readLine_none by simp
    then show ?thesis using d by (simp add: bulk_loop.simps(2))
  next
    case 2
    define p where "p = Suc (Suc (Suc (pos + length (AppendInt ?n))))"
    have b: "drop pos b = Dollar # AppendInt ?n @ CR # LF # x" using 2 by simp
    have "length b < p + length a + 2"
      using prefix_length_less[OF assms(1)] assms(2) by (simp add: bulk_bytes_def p_def)
    moreover have "p \<le> length b" using arg_cong[OF b, of length] assms(2) by (simp add: p_def)
    moreover have "readLine b pos 64 ''invalid bulk length'' = Inr (Dollar # AppendInt ?n, p)"
      using readLine_header[OF b] by (simp add: p_def)
    ultimately show ?thesis
      using d i assms(4,5) bulk_loop_step[OF d _ resp_parseInt_AppendInt, of ?n p lim "p + length a"] by simp
  qed
qed

lemma bulk_loop_incomplete:
  "strict_prefix (drop pos b) (concat (map bulk_bytes as)) \<Longrightarrow> pos \<le> length b \<Longrightarrow> len_ok b \<Longrightarrow>
   \<forall>a \<in> set as. int (length a) \<le> MaxBulk lim \<Longrightarrow> MaxBulk lim + int (length b) + 2 < 2 ^ 63 \<Longrightarrow>
   bulk_loop (length as) lim b pos args = Some (Inl errIncomplete)"
proof (induction as arbitrary: pos args)
  case (Cons a as)
  consider (cut) "strict_prefix (drop pos b) (bulk_bytes a)"
    | (whole) x where "drop pos b = bulk_bytes a @ x" "strict_prefix x (concat (map bulk_bytes as))"
    using Cons.prems(1) strict_prefix_append_cases[of "drop pos b" "bulk_bytes a"] by auto
  then show ?case
  proof cases
    case cut
    then show ?thesis using Cons.prems bulk_loop_cut[OF cut] by simp
  next
    case whole
    have "drop (pos + length (bulk_bytes a)) b = x"
      using arg_cong[OF whole(1), of "drop (length (bulk_bytes a))"] by (simp add: add.commute)
    moreover have "pos + length (bulk_bytes a) \<le> length b"
      using arg_cong[OF whole(1), of length] Cons.prems(2) by simp
    ultimately show ?thesis
      using Cons.IH[of "pos + length (bulk_bytes a)" "args @ [a]"] Cons.prems whole
        bulk_loop_bulk[OF whole(1), of lim "length as" args] by simp
  qed
qed simp

subsection \<open>Whole commands\<close>

abbreviation cmd_bytes :: "bytes list \<Rightarrow> bytes" where
  "cmd_bytes args \<equiv> appendRESPArray [] args"

text \<open>The commands a reader with these limits accepts.\<close>

definition cmd_ok :: "Limits \<Rightarrow> bytes list \<Rightarrow> bool" where
  "cmd_ok lim args \<longleftrightarrow>
     args \<noteq> [] \<and> int (length args) \<le> MaxMultiBulk lim \<and>
     list_all (\<lambda>a. int (length a) \<le> MaxBulk lim) args"

definition lim_ok :: "Limits \<Rightarrow> bool" where
  "lim_ok lim \<longleftrightarrow>
     MaxBulk lim \<le> 2 ^ 61 \<and> MaxMultiBulk lim \<le> 2 ^ 61 \<and> 32 \<le> MaxInline lim \<and>
     0 \<le> MaxQueryBuffer lim \<and> MaxQueryBuffer lim \<le> 2 ^ 61"

lemma rd_parse_complete:
  assumes "cmd_ok lim args" "lim_ok lim" "len_ok (cmd_bytes args @ rest)"
  shows "rd_parse lim (cmd_bytes args @ rest) = Some (Inr (args, length (cmd_bytes args)))"
proof -
  let ?b = "cmd_bytes args @ rest" and ?n = "int (length args)"
  have b: "drop 0 ?b = Star # AppendInt ?n @ CR # LF # concat (map bulk_bytes args) @ rest"
    by (simp add: appendRESPArray_eq)
  have i: "is_int64 ?n" "?n \<noteq> min_int64" "0 < ?n" "?n \<le> MaxMultiBulk lim"
    using assms(1,2) by (auto simp: cmd_ok_def lim_ok_def is_int64_def)
  have d: "lst_nth ?b 0 = Some Star" by (simp add: lst_nth_def appendRESPArray_eq)
  have "drop (Suc (Suc (Suc (length (AppendInt ?n))))) ?b = concat (map bulk_bytes args) @ rest"
    by (simp add: appendRESPArray_eq)
  from bulk_loop_complete[OF this _ assms(3)] assms(1)
  have "bulk_loop (length args) lim ?b (Suc (Suc (Suc (length (AppendInt ?n))))) [] =
      Some (Inr (args, length (cmd_bytes args)))"
    by (simp add: cmd_ok_def list_all_iff appendRESPArray_eq)
  then show ?thesis
    using i d readLine_header[OF b] resp_parseInt_AppendInt[of ?n]
    by (simp add: rd_parse_def parseMultiBulk_def)
qed

lemma rd_parse_incomplete:
  assumes "cmd_ok lim args" "lim_ok lim" "strict_prefix b (cmd_bytes args)" "b \<noteq> []" "int (length b) \<le> 2 ^ 61"
  shows "rd_parse lim b = Some (Inl errIncomplete)"
proof -
  let ?n = "int (length args)"
  let ?h = "Star # AppendInt ?n @ [CR]"
  have hn: "LF \<notin> set ?h" using AppendInt_no_crlf[of LF ?n] by auto
  have i: "is_int64 ?n" "?n \<noteq> min_int64" "0 < ?n" "?n \<le> MaxMultiBulk lim"
    using assms(1,2) by (auto simp: cmd_ok_def lim_ok_def is_int64_def)
  have pre: "prefix b (?h @ LF # concat (map bulk_bytes args))" "b \<noteq> ?h @ LF # concat (map bulk_bytes args)"
    using assms(3) by (simp_all add: appendRESPArray_eq strict_prefix_def)
  have d: "lst_nth b 0 = Some Star"
    using pre(1) assms(4) by (cases b) (auto simp: lst_nth_def prefix_def)
  have "int (length b) \<le> 2 ^ 61" "MaxBulk lim \<le> 2 ^ 61" using assms(2,5) by (simp_all add: lim_ok_def)
  then have sz: "len_ok b" "MaxBulk lim + int (length b) + 2 < 2 ^ 63" by (simp_all add: len_ok_def)
  consider "prefix b ?h" | x where "b = ?h @ LF # x" "strict_prefix x (concat (map bulk_bytes args))"
    using pre unfolding prefix_append by (auto simp: prefix_Cons strict_prefix_def)
  then show ?thesis
  proof cases
    case 1
    then have "LF \<notin> set (drop 0 b)" using hn by (metis drop0 set_mono_prefix subsetD)
    moreover have "length b \<le> 22" using prefix_length_le[OF 1] length_AppendInt[OF i(1)] by simp
    ultimately have "readLine b 0 (MaxInline lim) ''invalid multibulk length'' = Inl errIncomplete"
      using assms(2) readLine_none[of 0 b] by (simp add: lim_ok_def)
    then show ?thesis using d by (simp add: rd_parse_def parseMultiBulk_def)
  next
    case 2
    have b: "drop 0 b = Star # AppendInt ?n @ CR # LF # x" using 2 by simp
    have "drop (Suc (Suc (Suc (length (AppendInt ?n))))) b = x" using 2 by simp
    then have "bulk_loop (length args) lim b (Suc (Suc (Suc (length (AppendInt ?n))))) [] = Some (Inl errIncomplete)"
      using 2 assms(1) sz by (intro bulk_loop_incomplete) (simp_all add: cmd_ok_def list_all_iff)
    then show ?thesis
      using i d readLine_header[OF b] resp_parseInt_AppendInt[of ?n]
      by (simp add: rd_parse_def parseMultiBulk_def)
  qed
qed

subsection \<open>No input panics, every result is within the limits\<close>

text \<open>
  \<open>parsed_ok mb k b lo r\<close>: what a parser answers on \<open>b\<close> is an error, or at most
  \<open>k\<close> arguments of at most \<open>mb\<close> bytes and a position between \<open>lo\<close> and
  the end of \<open>b\<close>.
\<close>

definition parsed_ok :: "int \<Rightarrow> int \<Rightarrow> bytes \<Rightarrow> nat \<Rightarrow> resp_error + (bytes list \<times> nat) \<Rightarrow> bool" where
  "parsed_ok mb k b lo r \<longleftrightarrow>
     (case r of Inl e \<Rightarrow> True
      | Inr (args, n) \<Rightarrow> lo \<le> n \<and> n \<le> length b \<and> int (length args) \<le> k \<and>
          list_all (\<lambda>a. int (length a) \<le> mb) args)"

lemma parsed_ok_Inl [simp]: "parsed_ok mb k b lo (Inl e)"
  by (simp add: parsed_ok_def)

lemma parsed_ok_mono: "parsed_ok mb k b lo r \<Longrightarrow> lo' \<le> lo \<Longrightarrow> k \<le> k' \<Longrightarrow> parsed_ok mb k' b lo' r"
  by (auto simp: parsed_ok_def split: sum.splits)

lemma bulk_loop_total:
  "pos \<le> length b \<Longrightarrow> MaxBulk lim + int (length b) + 2 < 2 ^ 63 \<Longrightarrow>
   list_all (\<lambda>a. int (length a) \<le> MaxBulk lim) args \<Longrightarrow>
   \<exists>r. bulk_loop k lim b pos args = Some r \<and> parsed_ok (MaxBulk lim) (int (length args + k)) b pos r"
proof (induction k arbitrary: pos args)
  case 0
  then show ?case by (simp add: parsed_ok_def)
next
  case (Suc k)
  show ?case
  proof (cases "pos < length b \<and> b ! pos = Dollar")
    case False
    then show ?thesis by (auto simp: bulk_loop.simps(2))
  next
    case True
    consider (line) l rest where "drop pos b = l @ LF # rest" "LF \<notin> set l"
        "readLine b pos 64 ''invalid bulk length'' = Inr (strip_cr l, pos + length l + 1)"
        "pos + length l + 1 \<le> length b"
      | (none) e where "readLine b pos 64 ''invalid bulk length'' = Inl e"
      by (rule readLine_cases)
    then show ?thesis
    proof cases
      case none
      then show ?thesis using True by (simp add: bulk_loop.simps(2))
    next
      case line
      have "drop pos b = Dollar # drop (Suc pos) b" using True by (metis Cons_nth_drop_Suc)
      then obtain l' where l: "l = Dollar # l'" using line(1,2) by (cases l) auto
      define p where "p = pos + length l + 1"
      have rl: "readLine b pos 64 ''invalid bulk length'' = Inr (Dollar # strip_cr l', p)" "p \<le> length b" "pos \<le> p"
        using line(3,4) l by (simp_all add: strip_cr_Cons p_def)
      show ?thesis
      proof (cases "\<exists>n. resp_parseInt (strip_cr l') = Inr n \<and> 0 \<le> n \<and> n \<le> MaxBulk lim")
        case False
        then show ?thesis
          using True rl by (cases "resp_parseInt (strip_cr l')") (auto simp: bulk_loop.simps(2))
      next
        case n: True
        then obtain n where n: "resp_parseInt (strip_cr l') = Inr n" "0 \<le> n" "n \<le> MaxBulk lim" by blast
        have "int (p + nat n) + 2 \<le> max_int64" using n rl(2) Suc.prems(2) by simp
        note step = bulk_loop_step[OF True[THEN conjunct1] True[THEN conjunct2] rl(1) n refl this, of k args]
        have "list_all (\<lambda>a. int (length a) \<le> MaxBulk lim) (args @ [take (nat n) (drop p b)])"
          using Suc.prems(3) n by simp
        then show ?thesis
          using Suc.IH[of "p + nat n + 2" "args @ [take (nat n) (drop p b)]"] Suc.prems(2) rl(3) step
          by (auto elim!: parsed_ok_mono)
      qed
    qed
  qed
qed

lemma parseMultiBulk_total:
  assumes "b \<noteq> []" "hd b = Star" "MaxBulk lim + int (length b) + 2 < 2 ^ 63"
  shows "\<exists>r. parseMultiBulk lim b = Some r \<and> parsed_ok (MaxBulk lim) (max 0 (MaxMultiBulk lim)) b 1 r"
proof -
  consider (line) l rest where "drop 0 b = l @ LF # rest" "LF \<notin> set l"
      "readLine b 0 (MaxInline lim) ''invalid multibulk length'' = Inr (strip_cr l, 0 + length l + 1)"
      "0 + length l + 1 \<le> length b"
    | (none) e where "readLine b 0 (MaxInline lim) ''invalid multibulk length'' = Inl e"
    by (rule readLine_cases)
  then show ?thesis
  proof cases
    case none
    then show ?thesis by (simp add: parseMultiBulk_def)
  next
    case line
    then obtain l' where l: "l = Star # l'" using assms(2) by (cases l) auto
    show ?thesis
    proof (cases "\<exists>n. resp_parseInt (strip_cr l') = Inr n \<and> 0 < n \<and> n \<le> MaxMultiBulk lim")
      case False
      then show ?thesis
        using line(3,4) l
        by (cases "resp_parseInt (strip_cr l')") (auto simp: parseMultiBulk_def strip_cr_Cons parsed_ok_def)
    next
      case True
      then obtain n where n: "resp_parseInt (strip_cr l') = Inr n" "0 < n" "n \<le> MaxMultiBulk lim" by blast
      then have "parseMultiBulk lim b = bulk_loop (nat n) lim b (length l + 1) []"
        using line(3) l by (simp add: parseMultiBulk_def strip_cr_Cons)
      then show ?thesis
        using bulk_loop_total[of "length l + 1" b lim "[]" "nat n"] line(4) assms(3) n
        by (auto elim!: parsed_ok_mono)
    qed
  qed
qed

lemma parseInline_position:
  assumes "b \<noteq> []" "parseInline lim b = Inr (args, n)" shows "1 \<le> n \<and> n \<le> length b"
  by (rule readLine_cases[of 0 b "MaxInline lim" "''too big inline request''"])
    (use assms in \<open>auto simp: parseInline_def split: if_splits sum.splits\<close>)

lemma rd_parse_total:
  assumes "b \<noteq> []" "MaxBulk lim + int (length b) + 2 < 2 ^ 63"
  shows "\<exists>r. rd_parse lim b = Some r \<and> (\<forall>args n. r = Inr (args, n) \<longrightarrow> 1 \<le> n \<and> n \<le> length b)"
proof (cases "hd b = Star")
  case True
  then have "rd_parse lim b = parseMultiBulk lim b"
    using assms(1) by (simp add: rd_parse_def lst_nth_def hd_conv_nth)
  then show ?thesis using parseMultiBulk_total[OF assms(1) True assms(2)] by (auto simp: parsed_ok_def)
next
  case False
  then have "rd_parse lim b = Some (parseInline lim b)"
    using assms(1) by (simp add: rd_parse_def lst_nth_def hd_conv_nth)
  then show ?thesis using parseInline_position[OF assms(1)] by auto
qed

lemma inline_loop_bound:
  "inline_loop line i scratch args = Inr (args', scratch') \<Longrightarrow> i \<le> length line \<Longrightarrow>
   length scratch' + i \<le> length scratch + length line"
proof (induction line i scratch args rule: inline_loop.induct)
  case (1 line i scratch args)
  define i' where "i' = scan_while isSpace line i"
  show ?case
  proof (cases "length line \<le> i'")
    case True
    then show ?thesis using 1 by (simp add: inline_loop.simps[of line i] i'_def)
  next
    case False
    then obtain a j s where a: "inline_arg line i' scratch = Inr (a, j, s)"
        "inline_loop line j s (args @ [a]) = Inr (args', scratch')"
      using "1.prems"(1) by (auto simp: inline_loop.simps[of line i] i'_def split: sum.splits prod.splits)
    have "i \<le> i'" using scan_while_ge by (simp add: i'_def)
    moreover have "\<not> isSpace (line ! i')" using False scan_while_stop[of isSpace line i] by (simp add: i'_def)
    ultimately show ?thesis
      using inline_arg_bound[OF a(1)] False "1.IH"[OF i'_def False a(1) refl refl a(2)] by auto
  qed
qed

end
