(* ===== verification/Resp_Stream.thy ===== *)
theory Resp_Stream
  imports Resp_Reader
begin

text \<open>
  The reader of a connection as it runs: \<open>fill\<close>, which compacts or grows the buffer and
  takes what the connection has, and \<open>ReadCommand\<close>, which parses what is buffered and
  fills until a command is whole. \<open>pending\<close> is everything the reader has not consumed:
  the unparsed part of its buffer and then the chunks still to arrive. The main theorem is
  that the cuts between chunks do not matter.
\<close>

subsection \<open>The connection\<close>

datatype read_error = EOF | ErrNoProgress | ErrQueryBufferLimit | ParseError resp_error

text \<open>
  \<open>Read\<close> into \<open>n\<close> bytes of free space: one chunk, or the part of it that fits, and
  the end of the file after the last one.
\<close>

fun src_Read :: "nat \<Rightarrow> bytes list \<Rightarrow> bytes \<times> bytes list \<times> read_error option" where
  "src_Read n [] = ([], [], Some EOF)"
| "src_Read n (c # cs) =
     (if length c \<le> n then (c, cs, None) else (take n c, drop n c # cs, None))"

record reader =
  cr_src :: "bytes list"
  cr_buf :: bytes
  cr_r :: nat
  cr_w :: nat
  cr_lim :: Limits

definition initialReadBuffer :: nat where "initialReadBuffer = 16 * 1024"

definition NewReader :: "bytes list \<Rightarrow> Limits \<Rightarrow> reader" where
  "NewReader src lim =
     \<lparr>cr_src = src, cr_buf = replicate initialReadBuffer 0, cr_r = 0, cr_w = 0,
      cr_lim = (if MaxBulk lim = 0 then DefaultLimits else lim)\<rparr>"

definition rd_Reset :: "bytes list \<Rightarrow> reader \<Rightarrow> reader" where
  "rd_Reset src rd = rd\<lparr>cr_src := src, cr_r := 0, cr_w := 0\<rparr>"

definition rd_Buffered :: "reader \<Rightarrow> bool" where
  "rd_Buffered rd \<longleftrightarrow> cr_r rd < cr_w rd"

text \<open>The first half of \<open>fill\<close>: making room.\<close>

definition fill_room :: "reader \<Rightarrow> read_error + reader" where
  "fill_room rd =
     (if cr_r rd = cr_w rd then Inr (rd\<lparr>cr_r := 0, cr_w := 0\<rparr>)
      else if cr_w rd = length (cr_buf rd) then
        if cr_r rd > 0 then
          Inr (rd\<lparr>cr_buf := copy_at (cr_buf rd) 0 (take (cr_w rd - cr_r rd) (drop (cr_r rd) (cr_buf rd))),
                  cr_w := cr_w rd - cr_r rd, cr_r := 0\<rparr>)
        else if int (length (cr_buf rd)) \<ge> MaxQueryBuffer (cr_lim rd) then Inl ErrQueryBufferLimit
        else
          let size = int (length (cr_buf rd)) * 2;
              size' = (if size > MaxQueryBuffer (cr_lim rd) then MaxQueryBuffer (cr_lim rd) else size)
          in Inr (rd\<lparr>cr_buf := copy_at (replicate (nat size') 0) 0 (take (cr_w rd) (cr_buf rd))\<rparr>)
      else Inr rd)"

definition fill :: "reader \<Rightarrow> reader \<times> read_error option" where
  "fill rd =
     (case fill_room rd of
        Inl e \<Rightarrow> (rd, Some e)
      | Inr rd1 \<Rightarrow>
          case src_Read (length (cr_buf rd1) - cr_w rd1) (cr_src rd1) of
            (p, src, err) \<Rightarrow>
              let rd2 = rd1\<lparr>cr_src := src, cr_buf := copy_at (cr_buf rd1) (cr_w rd1) p,
                            cr_w := cr_w rd1 + length p\<rparr>
              in if length p > 0 then (rd2, None)
                 else (rd2, Some (case err of None \<Rightarrow> ErrNoProgress | Some e \<Rightarrow> e)))"

subsection \<open>Progress\<close>

lemma lst_nth_nonneg: "lst_nth b e = Some c \<Longrightarrow> 0 \<le> e"
  by (simp add: lst_nth_def split: if_splits)

lemma bulk_loop_position:
  "bulk_loop k lim b pos args = Some (Inr (as, n)) \<Longrightarrow> 1 \<le> pos \<Longrightarrow> 1 \<le> n"
proof (induction k arbitrary: pos args)
  case (Suc k)
  from Suc.prems(1) show ?case
    by (auto simp: bulk_loop.simps(2) Let_def
        split: if_splits sum.splits prod.splits Option.bind_splits dest!: lst_nth_nonneg Suc.IH)
qed simp

lemma rd_parse_position: "rd_parse lim b = Some (Inr (args, n)) \<Longrightarrow> 1 \<le> n"
proof -
  assume p: "rd_parse lim b = Some (Inr (args, n))"
  then have "b \<noteq> []" by (auto simp: rd_parse_def lst_nth_def)
  moreover have "readLine b 0 m w = Inr (l, q) \<Longrightarrow> 1 \<le> q" for m w l q
    by (rule readLine_cases[of 0 b m w]) auto
  ultimately show ?thesis
    using p bulk_loop_position[of _ lim b _ "[]" args n] parseInline_position[of b lim args n]
    by (auto simp: rd_parse_def parseMultiBulk_def split: if_splits sum.splits prod.splits Option.bind_splits)
qed

definition src_size :: "bytes list \<Rightarrow> nat" where
  "src_size src = length (concat src)"

definition rd_work :: "reader \<Rightarrow> nat" where
  "rd_work rd = 2 * src_size (cr_src rd) + (cr_w rd - cr_r rd)"

lemma src_Read_size:
  "src_Read n src = (p, src', err) \<Longrightarrow> concat src = p @ concat src' \<and> length p \<le> n"
  by (cases src) (auto split: if_splits simp flip: append_assoc)

lemma fill_room_keeps:
  "fill_room rd = Inr rd1 \<Longrightarrow>
   cr_src rd1 = cr_src rd \<and> cr_w rd1 - cr_r rd1 \<le> cr_w rd - cr_r rd \<and> cr_lim rd1 = cr_lim rd"
  by (auto simp: fill_room_def Let_def split: if_splits)

lemma fill_work: "fill rd = (rd', None) \<Longrightarrow> rd_work rd' < rd_work rd"
proof -
  assume f: "fill rd = (rd', None)"
  then obtain rd1 where r1: "fill_room rd = Inr rd1" by (cases "fill_room rd") (auto simp: fill_def)
  obtain p src err where s: "src_Read (length (cr_buf rd1) - cr_w rd1) (cr_src rd1) = (p, src, err)"
    by (metis prod_cases3)
  show ?thesis
    using f r1 s fill_room_keeps[OF r1] arg_cong[of "concat (cr_src rd1)" "p @ concat src" length] src_Read_size[OF s]
    by (cases p) (auto simp: fill_def Let_def rd_work_def src_size_def split: if_splits)
qed

function readCommand :: "reader \<Rightarrow> (reader \<times> (read_error + bytes list)) go" where
  "readCommand rd =
     do {
       parsed \<leftarrow> (if cr_r rd < cr_w rd
                  then rd_parse (cr_lim rd) (take (cr_w rd - cr_r rd) (drop (cr_r rd) (cr_buf rd)))
                  else Some (Inl errIncomplete));
       (case parsed of
          Inr (args, n) \<Rightarrow>
            let rd1 = rd\<lparr>cr_r := cr_r rd + n\<rparr>
            in if args = [] then readCommand rd1 else Some (rd1, Inr args)
        | Inl e \<Rightarrow>
            if e \<noteq> errIncomplete then Some (rd, Inl (ParseError e))
            else case fill rd of
                   (rd1, Some err) \<Rightarrow> Some (rd1, Inl err)
                 | (rd1, None) \<Rightarrow> readCommand rd1)
     }"
  by pat_completeness auto
termination
proof (relation "measure rd_work")
  fix rd :: reader and rd1 parsed x args n
  assume x: "(if cr_r rd < cr_w rd
      then rd_parse (cr_lim rd) (take (cr_w rd - cr_r rd) (drop (cr_r rd) (cr_buf rd)))
      else Some (Inl errIncomplete)) = Some parsed" "parsed = Inr x" "(args, n) = x"
    and rd1: "rd1 = rd\<lparr>cr_r := cr_r rd + n\<rparr>"
  then have "cr_r rd < cr_w rd" "1 \<le> n" by (auto split: if_splits dest: rd_parse_position)
  then show "(rd1, rd) \<in> measure rd_work" using rd1 by (simp add: rd_work_def)
qed (auto simp: fill_work split: prod.splits)

declare readCommand.simps [simp del]

lemma readCommand_work: "readCommand rd = Some (rd', Inr args) \<Longrightarrow> rd_work rd' < rd_work rd"
proof (induction rd rule: readCommand.induct)
  case (1 rd)
  let ?u = "take (cr_w rd - cr_r rd) (drop (cr_r rd) (cr_buf rd))"
  let ?p = "if cr_r rd < cr_w rd then rd_parse (cr_lim rd) ?u else Some (Inl errIncomplete)"
  from "1.prems" obtain parsed where p: "?p = Some parsed"
    by (subst (asm) readCommand.simps) (auto split: Option.bind_splits)
  show ?case
  proof (cases parsed)
    case (Inr x)
    obtain as n where x: "x = (as, n)" by (cases x)
    have pos: "cr_r rd < cr_w rd" "1 \<le> n" using p Inr x by (auto split: if_splits dest: rd_parse_position)
    then have less: "rd_work (rd\<lparr>cr_r := cr_r rd + n\<rparr>) < rd_work rd" by (simp add: rd_work_def)
    have "readCommand rd = (if as = [] then readCommand (rd\<lparr>cr_r := cr_r rd + n\<rparr>)
        else Some (rd\<lparr>cr_r := cr_r rd + n\<rparr>, Inr as))"
      by (simp only: readCommand.simps[of rd] p Inr x) simp
    then show ?thesis
      using "1.prems" less "1.IH"(2)[OF p Inr x[symmetric] refl] by (auto split: if_splits)
  next
    case (Inl e)
    obtain rd1 err where f: "fill rd = (rd1, err)" by (cases "fill rd")
    then have "e = errIncomplete" "err = None" "readCommand rd1 = Some (rd', Inr args)"
      using "1.prems" p Inl by (subst (asm) readCommand.simps, auto split: if_splits option.splits)+
    then show ?thesis
      using "1.IH"(1)[OF p Inl _ f[symmetric]] fill_work[of rd rd1] f by auto
  qed
qed

text \<open>
  The loop of the connection handler as far as the decoder is concerned: commands until the
  first error.
\<close>

function conn_commands :: "reader \<Rightarrow> (bytes list list \<times> read_error) go" where
  "conn_commands rd =
     do {
       (rd', r) \<leftarrow> readCommand rd;
       (case r of
          Inl e \<Rightarrow> Some ([], e)
        | Inr args \<Rightarrow> do { (cmds, e) \<leftarrow> conn_commands rd'; Some (args # cmds, e) })
     }"
  by pat_completeness auto
termination by (relation "measure rd_work") (auto dest: readCommand_work)

declare conn_commands.simps [simp del]

subsection \<open>What the reader has not consumed yet\<close>

definition unread :: "reader \<Rightarrow> bytes" where
  "unread rd = take (cr_w rd - cr_r rd) (drop (cr_r rd) (cr_buf rd))"

lemmas readCommand_unread = readCommand.simps[folded unread_def]

definition pending :: "reader \<Rightarrow> bytes" where
  "pending rd = unread rd @ concat (cr_src rd)"

definition rd_ok :: "reader \<Rightarrow> bool" where
  "rd_ok rd \<longleftrightarrow>
     cr_r rd \<le> cr_w rd \<and> cr_w rd \<le> length (cr_buf rd) \<and> 0 < length (cr_buf rd) \<and>
     length (cr_buf rd) \<le> 2 ^ 61 \<and> lim_ok (cr_lim rd) \<and> list_all (\<lambda>c. c \<noteq> []) (cr_src rd)"

lemma length_unread: "rd_ok rd \<Longrightarrow> length (unread rd) = cr_w rd - cr_r rd"
  by (auto simp: rd_ok_def unread_def)

lemma copy_at_zero: "length p \<le> length b \<Longrightarrow> take (length p) (copy_at b 0 p) = p"
  by (simp add: copy_at_def)

lemma fill_room_ok:
  assumes "rd_ok rd" "length (unread rd) < length (cr_buf rd) \<or> int (length (unread rd)) < MaxQueryBuffer (cr_lim rd)"
  shows "\<exists>rd1. fill_room rd = Inr rd1 \<and> rd_ok rd1 \<and> unread rd1 = unread rd \<and> cr_w rd1 < length (cr_buf rd1) \<and>
      cr_src rd1 = cr_src rd \<and> cr_lim rd1 = cr_lim rd"
proof -
  let ?b = "cr_buf rd" and ?u = "unread rd" and ?m = "MaxQueryBuffer (cr_lim rd)"
  note ok = assms(1)[unfolded rd_ok_def]
  consider (empty) "cr_r rd = cr_w rd" | (room) "cr_r rd < cr_w rd" "cr_w rd < length ?b"
    | (compact) "0 < cr_r rd" "cr_r rd < cr_w rd" "cr_w rd = length ?b"
    | (full) "cr_r rd = 0" "0 < cr_w rd" "cr_w rd = length ?b"
    using ok by linarith
  then show ?thesis
  proof cases
    case empty
    then show ?thesis using ok by (auto simp: fill_room_def rd_ok_def unread_def)
  next
    case room
    then show ?thesis using assms(1) by (auto simp: fill_room_def)
  next
    case compact
    let ?c = "copy_at ?b 0 ?u"
    have "length ?u = cr_w rd - cr_r rd" by (rule length_unread[OF assms(1)])
    then have "length ?u \<le> length ?b" "take (cr_w rd - cr_r rd) ?c = ?u"
      using compact copy_at_zero[of ?u ?b] by simp_all
    then show ?thesis
      using compact ok by (auto simp: fill_room_def rd_ok_def unread_def)
  next
    case full
    have u: "?u = ?b" using full by (simp add: unread_def)
    define s where "s = nat (if int (length ?b) * 2 > ?m then ?m else int (length ?b) * 2)"
    have m: "int (length ?b) < ?m" using assms(2) u by simp
    moreover have "0 < int (length ?b)" using ok by simp
    moreover have "?m \<le> 2 ^ 61" using ok by (simp add: lim_ok_def)
    moreover have "int s = ?m \<or> int s = int (length ?b) * 2 \<and> int (length ?b) * 2 \<le> ?m"
      using m by (auto simp: s_def)
    ultimately have s: "length ?b < s" "s \<le> 2 ^ 61" by (linarith, auto)
    then have "take (length ?b) (copy_at (replicate s 0) 0 ?b) = ?b"
      using copy_at_zero[of ?b "replicate s 0"] by simp
    moreover have "fill_room rd = Inr (rd\<lparr>cr_buf := copy_at (replicate s 0) 0 ?b\<rparr>)"
      using full m by (simp add: fill_room_def s_def Let_def)
    ultimately show ?thesis
      using full s ok u by (auto simp: rd_ok_def unread_def)
  qed
qed

lemma src_Read_chunk:
  assumes "src \<noteq> []" "list_all (\<lambda>c. c \<noteq> []) src" "0 < n"
  shows "\<exists>p src'. src_Read n src = (p, src', None) \<and> p \<noteq> [] \<and> length p \<le> n \<and> concat src = p @ concat src' \<and>
      list_all (\<lambda>c. c \<noteq> []) src'"
  using assms by (cases src) (auto simp flip: append_assoc)

lemma fill_ok:
  assumes "rd_ok rd" "length (unread rd) < length (cr_buf rd) \<or> int (length (unread rd)) < MaxQueryBuffer (cr_lim rd)"
    and "cr_src rd \<noteq> []"
  shows "\<exists>rd'. fill rd = (rd', None) \<and> rd_ok rd' \<and> pending rd' = pending rd \<and> cr_lim rd' = cr_lim rd"
proof -
  obtain rd1 where r1: "fill_room rd = Inr rd1" "rd_ok rd1" "unread rd1 = unread rd" "cr_w rd1 < length (cr_buf rd1)"
      "cr_src rd1 = cr_src rd" "cr_lim rd1 = cr_lim rd"
    using fill_room_ok[OF assms(1,2)] by blast
  let ?b = "cr_buf rd1" and ?w = "cr_w rd1"
  obtain p src' where p: "src_Read (length ?b - ?w) (cr_src rd1) = (p, src', None)" "p \<noteq> []" "length p \<le> length ?b - ?w"
      "concat (cr_src rd1) = p @ concat src'" "list_all (\<lambda>c. c \<noteq> []) src'"
    using src_Read_chunk[of "cr_src rd1" "length ?b - ?w"] r1 assms(1,3) by (auto simp: rd_ok_def)
  let ?rd = "rd1\<lparr>cr_src := src', cr_buf := copy_at ?b ?w p, cr_w := ?w + length p\<rparr>"
  have ok: "cr_r rd1 \<le> ?w" "?w \<le> length ?b" using r1(2) by (simp_all add: rd_ok_def)
  have "fill rd = (?rd, None)" using r1(1) p by (simp add: fill_def)
  moreover have "rd_ok ?rd" using r1(2) p(3,5) by (auto simp: rd_ok_def)
  moreover have "unread ?rd = unread rd1 @ p"
    using ok p(3) by (simp add: unread_def copy_at_def min_def take_drop add.commute)
  ultimately show ?thesis using r1 p(4) by (auto simp: pending_def)
qed

subsection \<open>Reading one command\<close>

lemma append_prefix_cases:
  assumes "u @ v = c @ (rest :: 'a list)"
  obtains x where "u = c @ x" "rest = x @ v" | "strict_prefix u c"
proof (cases "strict_prefix u c")
  case False
  from assms obtain us where "u = c @ us \<and> us @ v = rest \<or> u @ us = c \<and> v = us @ rest"
    by (auto simp: append_eq_append_conv2)
  with False show ?thesis using that(1)[of us] that(1)[of "[]"] by (auto simp: strict_prefix_def)
qed (rule that(2))

text \<open>
  Whatever part of the command is buffered and however the rest arrives, the next call
  returns it and consumes exactly its bytes.
\<close>

lemma readCommand_next:
  "rd_ok rd \<Longrightarrow> cmd_ok (cr_lim rd) args \<Longrightarrow> int (length (cmd_bytes args)) \<le> MaxQueryBuffer (cr_lim rd) \<Longrightarrow>
   pending rd = cmd_bytes args @ rest \<Longrightarrow>
   \<exists>rd'. readCommand rd = Some (rd', Inr args) \<and> rd_ok rd' \<and> pending rd' = rest \<and> cr_lim rd' = cr_lim rd"
proof (induction rd rule: readCommand.induct)
  case (1 rd)
  let ?c = "cmd_bytes args" and ?u = "unread rd"
  let ?p = "if cr_r rd < cr_w rd then rd_parse (cr_lim rd) ?u else Some (Inl errIncomplete)"
  note len = length_unread[OF "1.prems"(1)]
  have lim: "lim_ok (cr_lim rd)" "length (cr_buf rd) \<le> 2 ^ 61" "cr_w rd \<le> length (cr_buf rd)" "cr_r rd \<le> cr_w rd"
    using "1.prems"(1) by (simp_all add: rd_ok_def)
  from "1.prems"(4)[unfolded pending_def] consider x where "?u = ?c @ x" "rest = x @ concat (cr_src rd)"
    | "strict_prefix ?u ?c" by (rule append_prefix_cases)
  then show ?case
  proof cases
    case 1
    have c0: "?c \<noteq> []" by (simp add: appendRESPArray_eq)
    have "len_ok ?u" using len lim by (simp add: len_ok_def)
    then have parse: "?p = Some (Inr (args, length ?c))"
      using rd_parse_complete[of "cr_lim rd" args x] 1(1) "1.prems"(2) lim(1) c0 len
      by (cases "cr_r rd < cr_w rd") auto
    let ?rd = "rd\<lparr>cr_r := cr_r rd + length ?c\<rparr>"
    have "cr_r rd + length ?c \<le> cr_w rd" using len 1(1) lim(4) by simp
    then have "rd_ok ?rd" using "1.prems"(1) by (simp add: rd_ok_def)
    moreover have "unread ?rd = drop (length ?c) ?u"
      by (simp add: unread_def drop_take add.commute)
    moreover have "readCommand rd = Some (?rd, Inr args)"
      using "1.prems"(2) by (simp only: readCommand_unread[of rd] parse) (simp add: cmd_ok_def)
    ultimately show ?thesis using 1 by (simp add: pending_def)
  next
    case 2
    then have lt: "length ?u < length ?c" by (rule prefix_length_less)
    then have room: "int (length ?u) < MaxQueryBuffer (cr_lim rd)" using "1.prems"(3) by simp
    have src: "cr_src rd \<noteq> []"
      using "1.prems"(4) 2 lt arg_cong[OF "1.prems"(4), of length] by (auto simp: pending_def)
    obtain rd1 where f: "fill rd = (rd1, None)" "rd_ok rd1" "pending rd1 = pending rd" "cr_lim rd1 = cr_lim rd"
      using fill_ok[OF "1.prems"(1) disjI2[OF room] src] by blast
    have "cr_r rd < cr_w rd \<Longrightarrow> ?u \<noteq> []" using len by auto
    then have parse: "?p = Some (Inl errIncomplete)"
      using rd_parse_incomplete[OF "1.prems"(2) lim(1) 2] len lim by auto
    then have rd: "readCommand rd = readCommand rd1"
      using f(1) by (simp only: readCommand_unread[of rd] parse) simp
    show ?thesis
      unfolding rd f(4)[symmetric]
      by (rule "1.IH"(1)[OF parse[unfolded unread_def] refl _ f(1)[symmetric] refl f(2)])
        (use f "1.prems" in simp_all)
  qed
qed

lemma readCommand_EOF:
  assumes "rd_ok rd" "pending rd = []"
  shows "\<exists>rd'. readCommand rd = Some (rd', Inl EOF)"
proof -
  have "cr_src rd = []" using assms by (cases "cr_src rd") (auto simp: pending_def rd_ok_def)
  moreover have "cr_r rd = cr_w rd" using assms length_unread[of rd] by (auto simp: pending_def rd_ok_def)
  ultimately show ?thesis
    by (subst readCommand.simps) (simp add: fill_def fill_room_def Let_def)
qed

lemma conn_commands_pipeline:
  "rd_ok rd \<Longrightarrow> list_all (cmd_ok (cr_lim rd)) cmds \<Longrightarrow>
   list_all (\<lambda>args. int (length (cmd_bytes args)) \<le> MaxQueryBuffer (cr_lim rd)) cmds \<Longrightarrow>
   pending rd = concat (map (appendRESPArray []) cmds) \<Longrightarrow> conn_commands rd = Some (cmds, EOF)"
proof (induction cmds arbitrary: rd)
  case Nil
  then show ?case using readCommand_EOF[of rd] by (auto simp: conn_commands.simps[of rd])
next
  case (Cons args cmds)
  then obtain rd' where "readCommand rd = Some (rd', Inr args)" "rd_ok rd'" "cr_lim rd' = cr_lim rd"
      "pending rd' = concat (map (appendRESPArray []) cmds)"
    using readCommand_next[of rd args] by auto
  then show ?case using Cons by (simp add: conn_commands.simps[of rd])
qed

subsection \<open>The encoder\<close>

fun encode_args :: "bytes \<Rightarrow> bytes list \<Rightarrow> bytes go" where
  "encode_args dst [] = Some dst"
| "encode_args dst (a # as) =
     do {
       d \<leftarrow> appendInt (dst @ [Dollar]) (int (length a));
       encode_args (d @ [CR, LF] @ a @ [CR, LF]) as
     }"

definition EncodeCommand :: "bytes \<Rightarrow> bytes list \<Rightarrow> bytes go" where
  "EncodeCommand dst args =
     do {
       d \<leftarrow> appendInt (dst @ [Star]) (int (length args));
       encode_args (d @ [CR, LF]) args
     }"

lemma encode_args_eq:
  "list_all len_ok as \<Longrightarrow> encode_args dst as = Some (dst @ concat (map bulk_bytes as))"
proof (induction as arbitrary: dst)
  case (Cons a as)
  then have "is_int64 (int (length a))" by (simp add: len_ok_def is_int64_def)
  then show ?case using Cons by (simp add: appendInt_eq_AppendInt bulk_bytes_def)
qed simp

lemma EncodeCommand_eq:
  "len_ok args \<Longrightarrow> list_all len_ok args \<Longrightarrow> EncodeCommand dst args = Some (appendRESPArray dst args)"
  by (simp add: EncodeCommand_def appendInt_eq_AppendInt encode_args_eq appendRESPArray_eq len_ok_def is_int64_def)

subsection \<open>Properties\<close>

lemma rd_ok_NewReader:
  "lim_ok lim \<Longrightarrow> MaxBulk lim \<noteq> 0 \<Longrightarrow> list_all (\<lambda>c. c \<noteq> []) chunks \<Longrightarrow> rd_ok (NewReader chunks lim)"
  by (simp add: rd_ok_def NewReader_def initialReadBuffer_def)

lemma pending_NewReader: "pending (NewReader chunks lim) = concat chunks"
  by (simp add: pending_def unread_def NewReader_def)

text \<open>C16: A client's pipeline of encoded commands is decoded to exactly those commands, in order, and then the
  end of the connection, however the bytes are cut into reads: a command split anywhere, several
  commands in one read, a buffer that has to be compacted or grown on the way.\<close>

theorem pipeline_read_back:
  assumes "lim_ok lim" "MaxBulk lim \<noteq> 0" "list_all (cmd_ok lim) cmds"
    and "list_all (\<lambda>args. int (length (cmd_bytes args)) \<le> MaxQueryBuffer lim) cmds"
    and "those (map (EncodeCommand []) cmds) = Some encoded" "concat chunks = concat encoded"
    and "list_all (\<lambda>c. c \<noteq> []) chunks"
  shows "conn_commands (NewReader chunks lim) = Some (cmds, EOF)"
proof -
  have "cmd_ok lim args \<Longrightarrow> EncodeCommand [] args = Some (appendRESPArray [] args)" for args
    using assms(1) by (intro EncodeCommand_eq) (auto simp: cmd_ok_def lim_ok_def len_ok_def list_all_iff)
  then have "those (map (EncodeCommand []) cmds) = Some (map (appendRESPArray []) cmds)"
    using assms(3) by (induction cmds) auto
  then have "pending (NewReader chunks lim) = concat (map (appendRESPArray []) cmds)"
    using assms(5,6) by (simp add: pending_NewReader)
  moreover have "cr_lim (NewReader chunks lim) = lim" using assms(2) by (simp add: NewReader_def)
  ultimately show ?thesis
    using conn_commands_pipeline[of "NewReader chunks lim" cmds] rd_ok_NewReader assms(1-4,7) by simp
qed

theorem pipeline_read_back_witness:
  "conn_commands (NewReader [[42, 49, 13], [10, 36, 49, 13, 10, 65, 13, 10, 42, 49], [13, 10, 36, 48, 13, 10, 13, 10]]
     DefaultLimits) = Some ([[[65]], [[]]], EOF)"
  by (rule pipeline_read_back[where encoded = "[[42, 49, 13, 10, 36, 49, 13, 10, 65, 13, 10],
      [42, 49, 13, 10, 36, 48, 13, 10, 13, 10]]"])
    (simp_all add: lim_ok_def DefaultLimits_def cmd_ok_def appendRESPArray_def bulk_bytes_def AppendInt_def
      dec_digits.simps EncodeCommand_def appendInt_def)



text \<open>C31: Unescaping never lengthens an inline command: the scratch space its quoted arguments are written to
  never grows beyond the length of the line, which is what the parser reserves before it hands out
  slices of it.\<close>

theorem inline_scratch_bounded:
  assumes "inline_loop line 0 [] [] = Inr (args, scratch)"
  shows "length scratch \<le> length line"
  using inline_loop_bound[OF assms] by simp

theorem inline_scratch_bounded_witness:
  "length ([LF, 65] :: bytes) \<le> length ([Quote, Backslash, 110, Backslash, 120, 52, 49, Quote] :: bytes)"
  by (rule inline_scratch_bounded[where args = "[[LF, 65]]"])
    (simp add: inline_loop.simps scan_while.simps inline_arg_def readDoubleQuoted_def readDoubleQuoted_at.simps
      isSpace_def isHex_def hexVal_def unescape_def Let_def)

end
