(* ===== verification/Resp_Writer.thy ===== *)
theory Resp_Writer
  imports Complex_Main Resp_Stream
begin

text \<open>
  Replies: the value tree of \<open>resp/value.go\<close>, the serialiser of
  \<open>resp/writer.go\<close> for both protocol versions, and the decoder of
  \<open>resp/replyreader.go\<close> that the client and the replication follower use. A finite
  \<open>float64\<close> is its exact rational value. The two conversions of \<open>strconv\<close> for
  numbers with a fraction are parameters: \<open>fmtg\<close> for \<open>AppendFloat(f, 'g', 17, 64)\<close>
  and \<open>pf\<close> for \<open>ParseFloat(s, 64)\<close>; \<open>float_lib\<close> says what the
  documentation promises of the pair.
\<close>

subsection \<open>Values\<close>

datatype Kind =
  KindSimple | KindError | KindInt | KindBulk | KindArray | KindNull | KindNullArray | KindMap
  | KindSet | KindDouble | KindBool | KindBigNum | KindVerbatim | KindPush | KindNone | KindUnknown

datatype float64 = FInf bool | FNaN | FNum rat

datatype resp_value =
  Value (v_Kind: Kind) (v_Str: bytes) (v_Int: int) (v_Float: float64) (v_Bool: bool)
    (v_Elems: "resp_value list") (v_Fmt: bytes)

text \<open>The zero value of the fields a constructor does not set.\<close>

definition val :: "Kind \<Rightarrow> bytes \<Rightarrow> resp_value" where
  "val k s = Value k s 0 (FNum 0) False [] []"

definition val_elems :: "Kind \<Rightarrow> resp_value list \<Rightarrow> resp_value" where
  "val_elems k es = Value k [] 0 (FNum 0) False es []"

definition v_Simple :: "bytes \<Rightarrow> resp_value" where "v_Simple s = val KindSimple s"
definition v_OK :: resp_value where "v_OK = val KindSimple (lit ''OK'')"
definition v_Err :: "bytes \<Rightarrow> resp_value" where "v_Err msg = val KindError msg"
definition v_Integer :: "int \<Rightarrow> resp_value" where "v_Integer n = Value KindInt [] n (FNum 0) False [] []"
definition v_Bulk :: "bytes \<Rightarrow> resp_value" where "v_Bulk b = val KindBulk b"
definition v_BulkInt :: "int \<Rightarrow> resp_value" where "v_BulkInt n = val KindBulk (AppendInt n)"
definition v_Null :: resp_value where "v_Null = val KindNull []"
definition v_NullArray :: resp_value where "v_NullArray = val KindNullArray []"
definition v_Array :: "resp_value list \<Rightarrow> resp_value" where "v_Array es = val_elems KindArray es"
definition v_Map :: "resp_value list \<Rightarrow> resp_value" where "v_Map kv = val_elems KindMap kv"
definition v_Set :: "resp_value list \<Rightarrow> resp_value" where "v_Set es = val_elems KindSet es"
definition v_Push :: "resp_value list \<Rightarrow> resp_value" where "v_Push es = val_elems KindPush es"
definition v_Double :: "float64 \<Rightarrow> resp_value" where "v_Double f = Value KindDouble [] 0 f False [] []"
definition v_Boolean :: "bool \<Rightarrow> resp_value" where "v_Boolean b = Value KindBool [] 0 (FNum 0) b [] []"
definition v_Verbatim :: "bytes \<Rightarrow> bytes \<Rightarrow> resp_value" where
  "v_Verbatim fmt s = Value KindVerbatim s 0 (FNum 0) False [] fmt"
definition v_None :: resp_value where "v_None = val KindNone []"

lemmas val_defs = val_def val_elems_def v_Simple_def v_OK_def v_Err_def v_Integer_def v_Bulk_def v_BulkInt_def
  v_Null_def v_NullArray_def v_Array_def v_Map_def v_Set_def v_Push_def v_Double_def v_Boolean_def
  v_Verbatim_def v_None_def

subsection \<open>Numbers\<close>

definition is_whole :: "rat \<Rightarrow> bool" where
  "is_whole x \<longleftrightarrow> of_int \<lfloor>x\<rfloor> = x"

definition appendDouble :: "(rat \<Rightarrow> bytes) \<Rightarrow> float64 \<Rightarrow> bytes" where
  "appendDouble fmtg f =
     (case f of
        FInf neg \<Rightarrow> if neg then lit ''-inf'' else lit ''inf''
      | FNaN \<Rightarrow> lit ''nan''
      | FNum x \<Rightarrow> if is_whole x \<and> \<bar>x\<bar> < 10 ^ 17 then AppendInt \<lfloor>x\<rfloor> else fmtg x)"

text \<open>
  \<open>strings.ToLower\<close> as far as a comparison with \<open>inf\<close> can tell: the one letter
  beyond ASCII that it maps to a letter of that word is the dotted capital I.
\<close>

fun toLower :: "bytes \<Rightarrow> bytes" where
  "toLower [] = []"
| "toLower (c # cs) =
     (if c = 0xC4 \<and> cs \<noteq> [] \<and> hd cs = 0xB0 then 105 # toLower (tl cs)
      else (if 65 \<le> c \<and> c \<le> 90 then c + 32 else c) # toLower cs)"

definition parseDouble :: "(bytes \<Rightarrow> float64) \<Rightarrow> bytes \<Rightarrow> float64" where
  "parseDouble pf s =
     (if toLower s = lit ''inf'' \<or> toLower s = lit ''+inf'' then FInf False
      else if toLower s = lit ''-inf'' then FInf True
      else pf s)"

subsection \<open>The serialiser\<close>

definition crlf :: bytes where "crlf = [CR, LF]"

definition wr_line :: "byte \<Rightarrow> bytes \<Rightarrow> bytes" where
  "wr_line pfx s = pfx # s @ crlf"

definition wr_bulk :: "bytes \<Rightarrow> bytes" where
  "wr_bulk s = Dollar # AppendInt (int (length s)) @ crlf @ s @ crlf"

definition wr_header :: "byte \<Rightarrow> nat \<Rightarrow> bytes" where
  "wr_header pfx n = pfx # AppendInt (int n) @ crlf"

definition verbatim_fmt :: "bytes \<Rightarrow> bytes" where
  "verbatim_fmt f = (if length f \<noteq> 3 then lit ''txt'' else f)"

text \<open>
  \<open>encode fmtg r3 v\<close> is what \<open>encode\<close> appends to the buffer of a writer; \<open>r3\<close>
  says that version 3 was negotiated. Every branch of the code only appends.
\<close>

fun encode :: "(rat \<Rightarrow> bytes) \<Rightarrow> bool \<Rightarrow> resp_value \<Rightarrow> bytes" where
  "encode fmtg r3 (Value k s n f b es fm) =
     (case k of
        KindNone \<Rightarrow> []
      | KindSimple \<Rightarrow> wr_line Plus s
      | KindError \<Rightarrow> wr_line Minus s
      | KindInt \<Rightarrow> 58 # AppendInt n @ crlf
      | KindBulk \<Rightarrow> wr_bulk s
      | KindArray \<Rightarrow> wr_header Star (length es) @ concat (map (encode fmtg r3) es)
      | KindNull \<Rightarrow> if r3 then 95 # crlf else [Dollar, Minus, 49, CR, LF]
      | KindNullArray \<Rightarrow> if r3 then 95 # crlf else [Star, Minus, 49, CR, LF]
      | KindMap \<Rightarrow>
          if r3 then wr_header 37 (length es div 2) @ concat (map (encode fmtg r3) es)
          else wr_header Star (length es) @ concat (map (encode fmtg r3) es)
      | KindSet \<Rightarrow> wr_header (if r3 then 126 else Star) (length es) @ concat (map (encode fmtg r3) es)
      | KindPush \<Rightarrow> wr_header (if r3 then 62 else Star) (length es) @ concat (map (encode fmtg r3) es)
      | KindDouble \<Rightarrow> if r3 then 44 # appendDouble fmtg f @ crlf else wr_bulk (appendDouble fmtg f)
      | KindBool \<Rightarrow> if r3 then [35, if b then 116 else 102, CR, LF] else [58, if b then 49 else 48, CR, LF]
      | KindBigNum \<Rightarrow> if r3 then wr_line 40 s else wr_bulk s
      | KindVerbatim \<Rightarrow>
          if r3 then 61 # AppendInt (int (length s + 4)) @ crlf @ verbatim_fmt fm @ 58 # s @ crlf
          else wr_bulk s
      | KindUnknown \<Rightarrow> wr_line Minus (lit ''ERR internal: unknown reply kind''))"

text \<open>
  A writer. \<open>w_out\<close> lists what the underlying \<open>io.Writer\<close> has been given, oldest
  first; \<open>accept\<close> decides whether the \<open>i\<close>-th call of its \<open>Write\<close> succeeds.
\<close>

record writer =
  w_out :: "bytes list"
  w_buf :: bytes
  w_r3 :: bool
  w_err :: bool
  w_MaxBuffer :: int

definition NewWriter :: writer where
  "NewWriter = \<lparr>w_out = [], w_buf = [], w_r3 = False, w_err = False, w_MaxBuffer = 0\<rparr>"

definition SetProtocol :: "bool \<Rightarrow> writer \<Rightarrow> writer" where
  "SetProtocol v w = w\<lparr>w_r3 := v\<rparr>"

definition wr_Reset :: "writer \<Rightarrow> writer" where
  "wr_Reset w = w\<lparr>w_out := [], w_buf := [], w_err := False, w_r3 := False\<rparr>"

definition Flush :: "(nat \<Rightarrow> bool) \<Rightarrow> writer \<Rightarrow> writer" where
  "Flush accept w =
     (if w_err w then w
      else if w_buf w = [] then w
      else w\<lparr>w_out := w_out w @ [w_buf w], w_buf := [], w_err := \<not> accept (length (w_out w))\<rparr>)"

definition WriteValue :: "(nat \<Rightarrow> bool) \<Rightarrow> (rat \<Rightarrow> bytes) \<Rightarrow> resp_value \<Rightarrow> writer \<Rightarrow> writer" where
  "WriteValue accept fmtg v w =
     (if w_err w then w
      else
        let w1 = w\<lparr>w_buf := w_buf w @ encode fmtg (w_r3 w) v\<rparr>
        in if w_MaxBuffer w1 > 0 \<and> int (length (w_buf w1)) \<ge> w_MaxBuffer w1 then Flush accept w1 else w1)"

definition WriteRaw :: "bytes \<Rightarrow> writer \<Rightarrow> writer" where
  "WriteRaw b w = (if w_err w then w else w\<lparr>w_buf := w_buf w @ b\<rparr>)"

definition WriteArrayHeader :: "nat \<Rightarrow> writer \<Rightarrow> writer" where
  "WriteArrayHeader n w = w\<lparr>w_buf := w_buf w @ wr_header Star n\<rparr>"

subsection \<open>The decoder\<close>

datatype reply_error = RE_EOF | RE_UnexpectedEOF | RE_Number | RE_Protocol bytes | RE_Deep

text \<open>The source is the list of bytes still to come. \<open>ReadBytes\<close> up to a newline, without the terminator.\<close>

definition reply_readLine :: "bytes \<Rightarrow> reply_error + (bytes \<times> bytes)" where
  "reply_readLine b =
     (if LF \<in> set b then Inr (strip_cr (takeWhile (\<lambda>c. c \<noteq> LF) b), tl (dropWhile (\<lambda>c. c \<noteq> LF) b))
      else Inl RE_EOF)"

definition ReadFull :: "nat \<Rightarrow> bytes \<Rightarrow> reply_error + (bytes \<times> bytes)" where
  "ReadFull n b =
     (if n \<le> length b then Inr (take n b, drop n b)
      else Inl (if b = [] then RE_EOF else RE_UnexpectedEOF))"

text \<open>A \<open>Value\<close> takes 96 bytes.\<close>

definition kindForPrefix :: "byte \<Rightarrow> Kind" where
  "kindForPrefix p = (if p = 126 then KindSet else if p = 62 then KindPush else if p = 37 then KindMap else KindArray)"

text \<open>The conversion of a byte to a string, which is the encoding of that code point.\<close>

definition utf8 :: "byte \<Rightarrow> bytes" where
  "utf8 c = (if c < 128 then [c] else [0xC0 OR drop_bit 6 c, 0x80 OR (c AND 0x3F)])"

fun read_elems :: "(bytes \<Rightarrow> (reply_error + (resp_value \<times> bytes)) go) \<Rightarrow> nat \<Rightarrow> bytes \<Rightarrow>
    (reply_error + (resp_value list \<times> bytes)) go" where
  "read_elems rd 0 b = Some (Inr ([], b))"
| "read_elems rd (Suc n) b =
     do {
       r \<leftarrow> rd b;
       (case r of
          Inl e \<Rightarrow> Some (Inl e)
        | Inr (v, b') \<Rightarrow>
            do {
              rs \<leftarrow> read_elems rd n b';
              (case rs of Inl e \<Rightarrow> Some (Inl e) | Inr (vs, b'') \<Rightarrow> Some (Inr (v # vs, b'')))
            })
     }"

definition read_bulk :: "byte \<Rightarrow> bytes \<Rightarrow> bytes \<Rightarrow> (reply_error + (resp_value \<times> bytes)) go" where
  "read_bulk pfx line b =
     (case ParseInt line of
        None \<Rightarrow> Some (Inl (RE_Protocol (lit ''invalid bulk length'')))
      | Some n \<Rightarrow>
          if n < 0 then Some (Inr (v_Null, b))
          else do {
            go_make (wrap64 (n + 2)) 1;
            (case ReadFull (nat (wrap64 (n + 2))) b of
               Inl e \<Rightarrow> Some (Inl e)
             | Inr (buf, b') \<Rightarrow>
                 if pfx = 61 \<and> n \<ge> 4
                 then Some (Inr (v_Verbatim (take 3 buf) (drop 4 (take (nat n) buf)), b'))
                 else Some (Inr (v_Bulk (take (nat n) buf), b')))
          })"

text \<open>\<open>ReadReply\<close> calls itself once per level of nesting; \<open>d\<close> bounds the levels.\<close>

fun readReply :: "(bytes \<Rightarrow> float64) \<Rightarrow> nat \<Rightarrow> bytes \<Rightarrow> (reply_error + (resp_value \<times> bytes)) go" where
  "readReply pf 0 b = Some (Inl RE_Deep)"
| "readReply pf (Suc d) [] = Some (Inl RE_EOF)"
| "readReply pf (Suc d) (pfx # b) =
     (case reply_readLine b of
        Inl e \<Rightarrow> Some (Inl e)
      | Inr (line, b) \<Rightarrow>
          if pfx = Plus then Some (Inr (v_Simple line, b))
          else if pfx = Minus then Some (Inr (v_Err line, b))
          else if pfx = 58 then
            (case ParseInt line of None \<Rightarrow> Some (Inl RE_Number) | Some n \<Rightarrow> Some (Inr (v_Integer n, b)))
          else if pfx = 95 then Some (Inr (v_Null, b))
          else if pfx = 35 then Some (Inr (v_Boolean (line \<noteq> [] \<and> hd line = 116), b))
          else if pfx = 44 then Some (Inr (v_Double (parseDouble pf line), b))
          else if pfx = 40 then Some (Inr (val KindBigNum line, b))
          else if pfx = Dollar \<or> pfx = 61 then read_bulk pfx line b
          else if pfx = Star \<or> pfx = 126 \<or> pfx = 62 \<or> pfx = 37 then
            (case ParseInt line of
               None \<Rightarrow> Some (Inl (RE_Protocol (lit ''invalid multibulk length'')))
             | Some n \<Rightarrow>
                 if n < 0 then Some (Inr (v_NullArray, b))
                 else
                   let n' = (if pfx = 37 then wrap64 (n * 2) else n)
                   in do {
                        go_make n' 96;
                        r \<leftarrow> read_elems (readReply pf d) (nat n') b;
                        (case r of
                           Inl e \<Rightarrow> Some (Inl e)
                         | Inr (es, b') \<Rightarrow> Some (Inr (val_elems (kindForPrefix pfx) es, b')))
                      })
          else Some (Inl (RE_Protocol (lit ''unknown reply type byte '' @ [39] @ utf8 pfx @ [39]))))"

subsection \<open>What the other side sees\<close>

text \<open>The degradation to version 2, and the fields a decoder fills in.\<close>

fun view :: "(rat \<Rightarrow> bytes) \<Rightarrow> bool \<Rightarrow> resp_value \<Rightarrow> resp_value" where
  "view fmtg r3 (Value k s n f b es fm) =
     (case k of
        KindSimple \<Rightarrow> v_Simple s
      | KindError \<Rightarrow> v_Err s
      | KindInt \<Rightarrow> v_Integer n
      | KindBulk \<Rightarrow> v_Bulk s
      | KindArray \<Rightarrow> v_Array (map (view fmtg r3) es)
      | KindNull \<Rightarrow> v_Null
      | KindNullArray \<Rightarrow> if r3 then v_Null else v_NullArray
      | KindMap \<Rightarrow> (if r3 then v_Map else v_Array) (map (view fmtg r3) es)
      | KindSet \<Rightarrow> (if r3 then v_Set else v_Array) (map (view fmtg r3) es)
      | KindPush \<Rightarrow> (if r3 then v_Push else v_Array) (map (view fmtg r3) es)
      | KindDouble \<Rightarrow> if r3 then v_Double f else v_Bulk (appendDouble fmtg f)
      | KindBool \<Rightarrow> if r3 then v_Boolean b else v_Integer (if b then 1 else 0)
      | KindBigNum \<Rightarrow> if r3 then val KindBigNum s else v_Bulk s
      | KindVerbatim \<Rightarrow> if r3 then v_Verbatim (verbatim_fmt fm) s else v_Bulk s
      | KindNone \<Rightarrow> v_None
      | KindUnknown \<Rightarrow> v_Err (lit ''ERR internal: unknown reply kind''))"

text \<open>
  The documented contract of the two conversions on a set of values \<open>X\<close>: seventeen
  significant digits identify a number, the text is one word of digits, and whole numbers and
  \<open>nan\<close> are understood.
\<close>

definition float_lib :: "(rat \<Rightarrow> bytes) \<Rightarrow> (bytes \<Rightarrow> float64) \<Rightarrow> rat set \<Rightarrow> bool" where
  "float_lib fmtg pf X \<longleftrightarrow>
     (\<forall>x \<in> X. LF \<notin> set (fmtg x) \<and> (\<exists>c \<in> set (fmtg x). is_digit c) \<and> pf (fmtg x) = FNum x) \<and>
     (\<forall>n. \<bar>n\<bar> < 10 ^ 17 \<longrightarrow> pf (AppendInt n) = FNum (of_int n)) \<and> pf (lit ''nan'') = FNaN"

fun float_in :: "rat set \<Rightarrow> float64 \<Rightarrow> bool" where
  "float_in X (FNum x) \<longleftrightarrow> x \<in> X \<or> is_whole x \<and> \<bar>x\<bar> < 10 ^ 17"
| "float_in X f \<longleftrightarrow> True"

text \<open>
  The replies that can be sent: no newline in a one-line reply, lengths that can be allocated,
  an even number of entries in a map, and a reply to send in every element.
\<close>

fun sendable :: "(rat \<Rightarrow> bytes) \<Rightarrow> rat set \<Rightarrow> bool \<Rightarrow> resp_value \<Rightarrow> bool" where
  "sendable fmtg X r3 (Value k s n f b es fm) \<longleftrightarrow>
     96 * int (length es) \<le> 2 ^ 48 \<and> list_all (sendable fmtg X r3) es \<and> is_int64 n \<and> int (length s) + 6 \<le> 2 ^ 48 \<and>
     (k = KindSimple \<or> k = KindError \<or> k = KindBigNum \<longrightarrow> LF \<notin> set s) \<and>
     (k = KindMap \<longrightarrow> even (length es)) \<and>
     (k = KindDouble \<longrightarrow> float_in X f \<and> int (length (appendDouble fmtg f)) + 6 \<le> 2 ^ 48) \<and>
     k \<noteq> KindNone \<and> k \<noteq> KindUnknown"

fun weight :: "resp_value \<Rightarrow> nat" where
  "weight (Value k s n f b es fm) = Suc (sum_list (map weight es))"

subsection \<open>Decoding what was encoded\<close>

lemma reply_readLine_line:
  assumes "LF \<notin> set s" shows "reply_readLine (s @ CR # LF # rest) = Inr (s, rest)"
proof -
  have "takeWhile (\<lambda>c. c \<noteq> LF) (s @ CR # LF # rest) = s @ [CR]"
    using assms by (subst takeWhile_append2) auto
  moreover have "dropWhile (\<lambda>c. c \<noteq> LF) (s @ CR # LF # rest) = LF # rest"
    using assms by (subst dropWhile_append2) auto
  ultimately show ?thesis by (simp add: reply_readLine_def)
qed

lemma reply_readLine_int: "reply_readLine (AppendInt n @ CR # LF # rest) = Inr (AppendInt n, rest)"
  by (rule reply_readLine_line) (use AppendInt_no_crlf[of LF n] in auto)

lemma read_bulk_bytes:
  assumes "int (length x) + 2 \<le> 2 ^ 48"
  shows "read_bulk p (AppendInt (int (length x))) (x @ CR # LF # rest) =
      Some (Inr (if p = 61 \<and> 4 \<le> length x then v_Verbatim (take 3 x) (drop 4 x) else v_Bulk x, rest))"
proof -
  have i: "is_int64 (int (length x))" "is_int64 (int (length x) + 2)"
    using assms by (simp_all add: is_int64_def)
  show ?thesis
    using assms i ParseInt_AppendInt[OF i(1)]
    by (auto simp: read_bulk_def go_make_def ReadFull_def nat_add_distrib)
qed

lemma read_verbatim:
  assumes "int (length s) + 6 \<le> 2 ^ 48" "length f = 3"
  shows "read_bulk 61 (AppendInt (int (length s + 4))) (f @ 58 # s @ CR # LF # rest) =
      Some (Inr (v_Verbatim f s, rest))"
  using read_bulk_bytes[of "f @ 58 # s" 61 rest] assms by (simp add: add.commute)

lemma read_elems_map:
  "\<forall>v \<in> set es. \<forall>rest. rd (enc v @ rest) = Some (Inr (g v, rest)) \<Longrightarrow>
   read_elems rd (length es) (concat (map enc es) @ rest) = Some (Inr (map g es, rest))"
  by (induction es) auto

lemma readReply_aggregate:
  assumes "p = Star \<or> p = 126 \<or> p = 62" "96 * int (length es) \<le> 2 ^ 48"
    and "\<forall>v \<in> set es. \<forall>rest. readReply pf d (enc v @ rest) = Some (Inr (g v, rest))"
  shows "readReply pf (Suc d) (wr_header p (length es) @ concat (map enc es) @ rest) =
      Some (Inr (val_elems (kindForPrefix p) (map g es), rest))"
proof -
  have i: "is_int64 (int (length es))" using assms(2) by (simp add: is_int64_def)
  show ?thesis
    using assms(1,2) ParseInt_AppendInt[OF i] read_elems_map[OF assms(3), of rest]
    by (auto simp: wr_header_def crlf_def reply_readLine_int go_make_def)
qed

lemma readReply_map:
  assumes "96 * int (length es) \<le> 2 ^ 48" "even (length es)"
    and "\<forall>v \<in> set es. \<forall>rest. readReply pf d (enc v @ rest) = Some (Inr (g v, rest))"
  shows "readReply pf (Suc d) (wr_header 37 (length es div 2) @ concat (map enc es) @ rest) =
      Some (Inr (val_elems KindMap (map g es), rest))"
proof -
  have i: "is_int64 (int (length es div 2))" "is_int64 (int (length es))"
    using assms(1) by (simp_all add: is_int64_def)
  have e: "int (length es div 2) * 2 = int (length es)" using assms(2) by (simp add: zdiv_int)
  show ?thesis
    using assms(1) ParseInt_AppendInt[OF i(1)] read_elems_map[OF assms(3), of rest] i(2)
    by (simp add: wr_header_def crlf_def reply_readLine_int go_make_def kindForPrefix_def e del: of_nat_div zdiv_int)
qed

lemma toLower_digit: "c \<in> set s \<Longrightarrow> is_digit c \<Longrightarrow> \<exists>d \<in> set (toLower s). is_digit d"
proof (induction s rule: toLower.induct)
  case (2 c' cs)
  have d: "\<not> is_digit 0xC4" "\<not> is_digit 0xB0" by (simp_all add: is_digit_def)
  have l: "is_digit c' \<Longrightarrow> \<not> (65 \<le> c' \<and> c' \<le> 90)" by (simp add: is_digit_iff word_le_nat_alt)
  show ?case
  proof (cases "c' = 0xC4 \<and> cs \<noteq> [] \<and> hd cs = 0xB0")
    case True
    then have "c \<in> set (tl cs)" using "2.prems" d by (cases cs) auto
    then show ?thesis using "2.IH"(1)[OF True] "2.prems"(2) True by simp
  next
    case False
    then show ?thesis using "2.IH"(2)[OF False] "2.prems" l by auto
  qed
qed simp

lemma inf_no_digit:
  "c \<in> set (lit ''inf'') \<Longrightarrow> \<not> is_digit c" "c \<in> set (lit ''+inf'') \<Longrightarrow> \<not> is_digit c"
  "c \<in> set (lit ''-inf'') \<Longrightarrow> \<not> is_digit c"
  by (auto simp: lit_def is_digit_def)

lemma float_word:
  assumes "\<exists>c \<in> set s. is_digit c" shows "parseDouble pf s = pf s"
proof -
  obtain d where "d \<in> set (toLower s)" "is_digit d" using toLower_digit assms by blast
  then have "toLower s \<noteq> lit ''inf''" "toLower s \<noteq> lit ''+inf''" "toLower s \<noteq> lit ''-inf''"
    using inf_no_digit by metis+
  then show ?thesis by (simp add: parseDouble_def)
qed

lemma AppendInt_digit: "\<exists>c \<in> set (AppendInt n). is_digit c"
proof -
  have "\<exists>c \<in> set (dec_digits m). is_digit c" for m
    using dec_digits_all[of m] dec_digits_ne[of m] by (metis list.set_sel(1) list_all_iff)
  then show ?thesis by (auto simp: AppendInt_def)
qed

lemma double_line:
  assumes "float_lib fmtg pf X" "float_in X f"
  shows "LF \<notin> set (appendDouble fmtg f)" "parseDouble pf (appendDouble fmtg f) = f"
proof -
  have n: "parseDouble pf (AppendInt n) = pf (AppendInt n)" "LF \<notin> set (AppendInt n)" for n
    using AppendInt_digit float_word AppendInt_no_crlf[of LF n] by blast+
  have w: "parseDouble pf (lit ''nan'') = FNaN" "parseDouble pf (lit ''inf'') = FInf False"
      "parseDouble pf (lit ''-inf'') = FInf True"
    using assms(1) by (simp_all add: parseDouble_def lit_def float_lib_def)
  have fr: "\<not> (is_whole x \<and> \<bar>x\<bar> < 10 ^ 17) \<Longrightarrow> f = FNum x \<Longrightarrow> x \<in> X" for x using assms(2) by auto
  have wh: "is_whole x \<Longrightarrow> \<bar>x\<bar> < 10 ^ 17 \<Longrightarrow> pf (AppendInt \<lfloor>x\<rfloor>) = FNum x" for x
  proof -
    assume x: "is_whole x" "\<bar>x\<bar> < 10 ^ 17"
    have "of_int \<bar>\<lfloor>x\<rfloor>\<bar> = \<bar>x\<bar>" using x(1) unfolding is_whole_def by (metis of_int_abs)
    then have "of_int \<bar>\<lfloor>x\<rfloor>\<bar> < (of_int (10 ^ 17) :: rat)" using x(2) by (simp only: of_int_power of_int_numeral)
    then have "\<bar>\<lfloor>x\<rfloor>\<bar> < 10 ^ 17" by (simp only: of_int_less_iff)
    then show ?thesis using assms(1) x(1) by (simp add: float_lib_def is_whole_def)
  qed
  show "LF \<notin> set (appendDouble fmtg f)"
    using assms(1) n(2) fr by (auto simp: appendDouble_def float_lib_def lit_def split: float64.splits)
  show "parseDouble pf (appendDouble fmtg f) = f"
    using assms(1) n(1) w fr wh
    by (auto simp: appendDouble_def float_lib_def float_word split: float64.splits)
qed

lemma weight_elem: "v \<in> set es \<Longrightarrow> weight v \<le> sum_list (map weight es)"
  by (simp add: member_le_sum_list)

lemma readReply_encode:
  assumes lib: "float_lib fmtg pf X"
  shows "sendable fmtg X r3 v \<Longrightarrow> weight v \<le> d \<Longrightarrow>
    readReply pf d (encode fmtg r3 v @ rest) = Some (Inr (view fmtg r3 v, rest))"
proof (induction v arbitrary: d rest)
  case (Value k s n f b es fm)
  obtain d' where d: "d = Suc d'" using Value.prems(2) by (cases d) auto
  have sv: "96 * int (length es) \<le> 2 ^ 48" "list_all (sendable fmtg X r3) es" "is_int64 n" "int (length s) + 6 \<le> 2 ^ 48"
    using Value.prems(1) by simp_all
  have "weight v \<le> d'" if "v \<in> set es" for v
    using weight_elem[OF that] Value.prems(2) d by simp
  then have els: "\<forall>v \<in> set es. \<forall>rest. readReply pf d' (encode fmtg r3 v @ rest) = Some (Inr (view fmtg r3 v, rest))"
    using Value.IH sv(2) by (auto simp: list_all_iff)
  note agg = readReply_aggregate[OF _ sv(1) els] and mp = readReply_map[OF sv(1) _ els]
  have int: "ParseInt (AppendInt m) = Some m" if "is_int64 m" for m by (rule ParseInt_AppendInt[OF that])
  have bulk: "readReply pf d (wr_bulk x @ rest) = Some (Inr (v_Bulk x, rest))" if "int (length x) + 6 \<le> 2 ^ 48" for x
    using that read_bulk_bytes[of x Dollar rest] by (simp add: d wr_bulk_def crlf_def reply_readLine_int)
  have one: "AppendInt (-1) = [Minus, 49]" "AppendInt 1 = [49]" "AppendInt 0 = [48]"
    by (simp_all add: AppendInt_def dec_digits.simps digit_def)
  note lines = wr_line_def crlf_def reply_readLine_line reply_readLine_int d
  show ?case
  proof (cases k)
    case KindArray
    then show ?thesis using agg[of Star rest] by (simp add: d kindForPrefix_def v_Array_def)
  next
    case KindMap
    then show ?thesis
      using agg[of Star rest] mp[of rest] Value.prems(1)
      by (cases r3) (simp_all add: d kindForPrefix_def v_Array_def v_Map_def)
  next
    case KindSet
    then show ?thesis
      using agg[of Star rest] agg[of 126 rest]
      by (cases r3) (simp_all add: d kindForPrefix_def v_Array_def v_Set_def)
  next
    case KindPush
    then show ?thesis
      using agg[of Star rest] agg[of 62 rest]
      by (cases r3) (simp_all add: d kindForPrefix_def v_Array_def v_Push_def)
  next
    case KindDouble
    then have f: "float_in X f" "int (length (appendDouble fmtg f)) + 6 \<le> 2 ^ 48" using Value.prems(1) by simp_all
    then show ?thesis using KindDouble double_line[OF lib f(1)] bulk by (simp add: lines)
  next
    case KindVerbatim
    have "length (verbatim_fmt fm) = 3" by (simp add: verbatim_fmt_def lit_def)
    then show ?thesis
      using KindVerbatim bulk[OF sv(4)] read_verbatim[OF sv(4), of "verbatim_fmt fm" rest] reply_readLine_int[of "int (length s + 4)"]
      by (simp add: d crlf_def)
  next
    case KindNull
    then show ?thesis
      using int[of "-1"] reply_readLine_int[of "-1" rest]
      by (simp add: d crlf_def one is_int64_def read_bulk_def reply_readLine_line[of "[]", simplified])
  next
    case KindNullArray
    then show ?thesis
      using int[of "-1"] reply_readLine_int[of "-1" rest]
      by (simp add: d crlf_def one is_int64_def reply_readLine_line[of "[]", simplified])
  next
    case KindBool
    then show ?thesis
      using int[of 1] int[of 0] reply_readLine_int[of 1 rest] reply_readLine_int[of 0 rest]
        reply_readLine_line[of "[116]" rest] reply_readLine_line[of "[102]" rest]
      by (simp add: d crlf_def one is_int64_def)
  qed (use Value.prems(1) bulk sv in \<open>simp_all add: lines int\<close>)
qed

subsection \<open>The depth bound is never reached\<close>

lemma reply_readLine_shrinks: "reply_readLine b = Inr (l, b') \<Longrightarrow> length b' < length b"
proof -
  assume r: "reply_readLine b = Inr (l, b')"
  then have "LF \<in> set b" "b' = tl (dropWhile (\<lambda>c. c \<noteq> LF) b)"
    by (auto simp: reply_readLine_def split: if_splits)
  moreover from this have "dropWhile (\<lambda>c. c \<noteq> LF) b \<noteq> []" by (simp add: dropWhile_eq_Nil_conv)
  ultimately show ?thesis using length_dropWhile_le[of "\<lambda>c. c \<noteq> LF" b]
    by (cases "dropWhile (\<lambda>c. c \<noteq> LF) b") auto
qed

lemma read_bulk_shrinks: "read_bulk p l b = Some (Inr (v, b')) \<Longrightarrow> length b' \<le> length b"
  by (auto simp: read_bulk_def ReadFull_def split: option.splits if_splits sum.splits prod.splits Option.bind_splits)

lemma read_bulk_not_deep: "read_bulk p l b \<noteq> Some (Inl RE_Deep)"
  by (auto simp: read_bulk_def ReadFull_def split: option.splits if_splits sum.splits prod.splits Option.bind_splits)

definition reads_ok :: "(bytes \<Rightarrow> (reply_error + (resp_value \<times> bytes)) go) \<Rightarrow> nat \<Rightarrow> bool" where
  "reads_ok rd m \<longleftrightarrow>
     (\<forall>b. length b < m \<longrightarrow> rd b \<noteq> Some (Inl RE_Deep) \<and>
        (\<forall>v b'. rd b = Some (Inr (v, b')) \<longrightarrow> length b' < length b))"

lemma read_elems_shrinks:
  "reads_ok rd m \<Longrightarrow> length b < m \<Longrightarrow>
   read_elems rd n b \<noteq> Some (Inl RE_Deep) \<and>
   (\<forall>vs b'. read_elems rd n b = Some (Inr (vs, b')) \<longrightarrow> length b' \<le> length b)"
proof (induction n arbitrary: b)
  case (Suc n)
  show ?case
  proof (cases "\<exists>v b1. rd b = Some (Inr (v, b1))")
    case True
    then obtain v b1 where r: "rd b = Some (Inr (v, b1))" by blast
    then have "length b1 < length b" using Suc.prems by (auto simp: reads_ok_def)
    then show ?thesis
      using Suc.IH[of b1] Suc.prems r by (fastforce split: Option.bind_splits sum.splits prod.splits)
  next
    case False
    then show ?thesis
      using Suc.prems by (auto simp: reads_ok_def split: Option.bind_splits sum.splits)
  qed
qed simp

lemma readReply_ok: "reads_ok (readReply pf d) d"
proof (induction d)
  case 0
  then show ?case by (simp add: reads_ok_def)
next
  case (Suc d)
  have "readReply pf (Suc d) b \<noteq> Some (Inl RE_Deep) \<and>
      (\<forall>v b'. readReply pf (Suc d) b = Some (Inr (v, b')) \<longrightarrow> length b' < length b)" if b: "length b < Suc d" for b
  proof (cases b)
    case (Cons p b1)
    show ?thesis
    proof (cases "reply_readLine b1")
      case (Inl e)
      then show ?thesis using Cons by (auto simp: reply_readLine_def split: if_splits)
    next
      case (Inr x)
      obtain l b2 where x: "x = (l, b2)" by (cases x)
      have sh: "length b2 < length b1" using reply_readLine_shrinks Inr x by simp
      then have "length b2 < d" using b Cons by simp
      note el = read_elems_shrinks[OF Suc this]
      have el2: "length b' < length b" if "read_elems (readReply pf d) k b2 = Some (Inr (vs, b'))" for k vs b'
        using el[of k] that sh Cons by fastforce
      have bk: "length b' < length b" if "read_bulk q l b2 = Some (Inr (v, b'))" for q v b'
        using read_bulk_shrinks[OF that] sh Cons by simp
      show ?thesis
        using Cons Inr x sh el el2 bk read_bulk_not_deep
        by (auto simp: Let_def split: option.splits Option.bind_splits sum.splits if_splits)
    qed
  qed simp
  then show ?case by (simp add: reads_ok_def)
qed

subsection \<open>The writer\<close>

definition sent :: "writer \<Rightarrow> bytes" where
  "sent w = concat (w_out w) @ w_buf w"

lemma Flush_sent:
  "\<not> w_err w \<Longrightarrow>
   sent (Flush (\<lambda>i. True) w) = sent w \<and> \<not> w_err (Flush (\<lambda>i. True) w) \<and> w_r3 (Flush (\<lambda>i. True) w) = w_r3 w \<and> w_buf (Flush (\<lambda>i. True) w) = []"
  by (auto simp: Flush_def sent_def)

lemma WriteValue_sent:
  "\<not> w_err w \<Longrightarrow>
   sent (WriteValue (\<lambda>i. True) fmtg v w) = sent w @ encode fmtg (w_r3 w) v \<and> \<not> w_err (WriteValue (\<lambda>i. True) fmtg v w) \<and>
   w_r3 (WriteValue (\<lambda>i. True) fmtg v w) = w_r3 w"
  using Flush_sent[of "w\<lparr>w_buf := w_buf w @ encode fmtg (w_r3 w) v\<rparr>"]
  by (auto simp: WriteValue_def Let_def sent_def)

lemma fold_WriteValue_sent:
  "\<not> w_err w \<Longrightarrow>
   sent (fold (WriteValue (\<lambda>i. True) fmtg) vs w) = sent w @ concat (map (encode fmtg (w_r3 w)) vs) \<and>
   \<not> w_err (fold (WriteValue (\<lambda>i. True) fmtg) vs w)"
proof (induction vs arbitrary: w)
  case (Cons v vs)
  then show ?case using WriteValue_sent[of w fmtg v] by simp
qed simp

subsection \<open>An error reply that echoes the client (command/errors.go)\<close>

definition errUnknownCommand :: "bytes \<Rightarrow> bytes list \<Rightarrow> resp_value" where
  "errUnknownCommand name args =
     v_Err (lit ''ERR unknown command '' @ [39] @ name @ [39] @ lit '', with args beginning with: '' @
       concat (map (\<lambda>a. [39] @ a @ [39] @ lit '', '') (take 20 args)))"

subsection \<open>Properties\<close>


definition half_text :: "rat \<Rightarrow> bytes" where "half_text x = lit ''0.5''"

definition half_parse :: "bytes \<Rightarrow> float64" where
  "half_parse s = (if s = lit ''0.5'' then FNum (1 / 2)
     else case ParseInt s of Some n \<Rightarrow> FNum (of_int n) | None \<Rightarrow> FNaN)"

lemma half_fraction: "\<not> is_whole (1 / 2)"
proof -
  have "\<lfloor>1 / 2 :: rat\<rfloor> = 0" by (simp add: floor_eq_iff)
  then show ?thesis by (simp add: is_whole_def)
qed

lemma half_lib: "float_lib half_text half_parse {1 / 2}"
proof -
  have ne: "AppendInt n \<noteq> lit ''0.5''" if "is_int64 n" for n
  proof
    assume "AppendInt n = lit ''0.5''"
    then have "ParseInt (lit ''0.5'') = Some n" using ParseInt_AppendInt[OF that] by simp
    then show False by (simp add: ParseInt_def lit_def is_digit_def)
  qed
  have "is_int64 n" if "\<bar>n\<bar> < 10 ^ 17" for n using that by (simp add: is_int64_def abs_less_iff)
  then show ?thesis
    using ne ParseInt_AppendInt
    by (auto simp: float_lib_def half_text_def half_parse_def lit_def is_digit_def ParseInt_def[of "[110, 97, 110]"])
qed


text \<open>C37: Decoding a reply always ends: with one level of nesting allowed per byte of input the depth bound is never
  hit, and a reply that is decoded consumes at least one byte.\<close>

theorem readReply_terminates:
  "readReply pf (Suc (length b)) b \<noteq> Some (Inl RE_Deep) \<and>
   (\<forall>v b'. readReply pf (Suc (length b)) b = Some (Inr (v, b')) \<longrightarrow> length b' < length b)"
  using readReply_ok[of pf "Suc (length b)"] by (simp add: reads_ok_def)

theorem readReply_terminates_witness:
  "readReply half_parse (Suc (length [Star, 49, CR, LF])) [Star, 49, CR, LF] \<noteq> Some (Inl RE_Deep)"
  using readReply_terminates[of half_parse "[Star, 49, CR, LF]"] by (rule conjunct1)

text \<open>The error for an unknown command echoes the client's bytes unescaped, so a newline in the command name ends
  the error reply early and everything after it is read by the client as the next reply.\<close>

theorem unknown_command_splits_reply:
  assumes "LF \<notin> set a"
  shows "\<exists>tail. readReply pf (Suc d) (encode fmtg r3 (errUnknownCommand (a @ CR # LF # forged) args)) =
      Some (Inr (v_Err (lit ''ERR unknown command '' @ [39] @ a), forged @ tail))"
proof -
  have "LF \<notin> set (lit ''ERR unknown command '' @ [39] @ a)" using assms by (simp add: lit_def)
  from reply_readLine_line[OF this] show ?thesis
    by (auto simp: errUnknownCommand_def v_Err_def val_def wr_line_def)
qed

theorem unknown_command_splits_reply_witness:
  "\<exists>tail. readReply half_parse 1 (encode half_text False (errUnknownCommand ([65] @ CR # LF # [58, 55, CR, LF]) [])) =
      Some (Inr (v_Err (lit ''ERR unknown command '' @ [39] @ [65]), [58, 55, CR, LF] @ tail))"
  using unknown_command_splits_reply[of "[65]" half_parse 0 half_text False "[58, 55, CR, LF]" "[]"] by simp

text \<open>After a failed write the writer ignores values, raw bytes and flushes, but the array header that opens a
  transaction's reply is still appended to its buffer.\<close>

lemma failed_writer:
  assumes "w_err w"
  shows "WriteValue accept fmtg v w = w \<and> WriteRaw b w = w \<and> Flush accept w = w \<and>
     w_buf (WriteArrayHeader n w) = w_buf w @ wr_header Star n \<and> w_buf (WriteArrayHeader n w) \<noteq> w_buf w"
  using assms by (simp add: WriteValue_def WriteRaw_def Flush_def WriteArrayHeader_def wr_header_def)

end
