(* ===== verification/Group_Commit.thy ===== *)
theory Group_Commit
  imports Log_Stream
begin

text \<open>
  The writing half of the log, \<open>persist/log.go\<close>: any number of goroutines append to one
  segment; each stages its record in a shared buffer under the mutex, and one of them writes
  the whole batch with the mutex released while the others wait on a condition variable. The
  model is a step relation. A step is one critical section of the mutex, or one call of the
  operating system made while it is released, so every interleaving the mutex allows is a
  run. Goroutines are numbered; \<open>sg_staged\<close> is a history variable, everything that was
  ever staged, in the order in which offsets were handed out. Stream offsets are natural
  numbers: a stream of 2 to the 64 bytes is out of reach.
\<close>

datatype Fsync = FsyncEverySec | FsyncAlways | FsyncNo

definition Fsync_String :: "Fsync \<Rightarrow> bytes" where
  "Fsync_String f = (case f of FsyncAlways \<Rightarrow> lit ''always'' | FsyncNo \<Rightarrow> lit ''no'' | FsyncEverySec \<Rightarrow> lit ''everysec'')"

definition ParseFsync :: "bytes \<Rightarrow> Fsync option" where
  "ParseFsync s =
     (if s = lit ''always'' then Some FsyncAlways
      else if s = lit ''everysec'' then Some FsyncEverySec
      else if s = lit ''no'' then Some FsyncNo
      else None)"

subsection \<open>The segment and its goroutines\<close>

text \<open>
  \<open>sg_file\<close> is the file past its header as the operating system has it,
  \<open>sg_forced\<close> how many of those bytes are on stable storage.
\<close>

record segment =
  sg_file :: bytes
  sg_forced :: nat
  sg_pending :: bytes
  sg_assigned :: nat
  sg_offset :: nat
  sg_flushing :: bool
  sg_waiters :: nat
  sg_dirty :: bool
  sg_err :: bool
  sg_fsync :: Fsync
  sg_staged :: bytes

text \<open>What a goroutine inside the segment is after: its record at its offset, or everything written and forced.\<close>

datatype goal = GAppend nat bytes | GDrain bool

datatype flush_result = FlushOk | WriteFailed | SyncFailed

datatype result = Acked nat bytes | Synced | Failed

text \<open>
  Where a goroutine is: outside, in \<open>flushWait.Wait\<close>, signalled but without the mutex
  yet, in \<open>f.Write\<close> or \<open>f.Sync\<close> of \<open>flushLocked\<close>, back from both and about to
  take the mutex again, or returned. The flag tells the call of \<open>flushLocked\<close> that
  \<open>stageLocked\<close> makes before its loop from those inside a loop.
\<close>

datatype pc =
  Idle
  | Waiting goal
  | Woken goal
  | Writing goal bool bytes nat Fsync
  | Forcing goal bool nat Fsync
  | Flushed goal bool nat Fsync flush_result
  | Returned result

definition startSegment :: "nat \<Rightarrow> bytes \<Rightarrow> Fsync \<Rightarrow> segment" where
  "startSegment offset file f =
     \<lparr>sg_file = file, sg_forced = length file, sg_pending = [], sg_assigned = offset, sg_offset = offset,
      sg_flushing = False, sg_waiters = 0, sg_dirty = False, sg_err = False, sg_fsync = f, sg_staged = file\<rparr>"

text \<open>The first half of \<open>flushLocked\<close>, up to the release of the mutex.\<close>

definition begin_flush :: "goal \<Rightarrow> bool \<Rightarrow> segment \<Rightarrow> segment \<times> pc" where
  "begin_flush g fast s =
     (s\<lparr>sg_pending := [], sg_flushing := True\<rparr>,
      Writing g fast (sg_pending s) (sg_offset s + length (sg_pending s)) (sg_fsync s))"

definition wait :: "goal \<Rightarrow> segment \<Rightarrow> segment \<times> pc" where
  "wait g s = (s\<lparr>sg_waiters := sg_waiters s + 1\<rparr>, Waiting g)"

text \<open>
  The end of \<open>syncLocked\<close>, once nothing is staged, and what \<open>Close\<close> adds.
  \<open>sok\<close> is whether the call of \<open>f.Sync\<close>, made with the mutex held, succeeds.
\<close>

definition force :: "bool \<Rightarrow> bool \<Rightarrow> segment \<Rightarrow> segment \<times> pc" where
  "force sok closing s =
     (let (s1, r) =
        (if \<not> sg_dirty s then (s, Synced)
         else if \<not> sok then (s\<lparr>sg_err := True\<rparr>, Failed)
         else (s\<lparr>sg_forced := length (sg_file s), sg_dirty := False\<rparr>, Synced))
      in (if closing then s1\<lparr>sg_err := True\<rparr> else s1, Returned r))"

text \<open>One round of the loops of \<open>stageLocked\<close> and \<open>drainLocked\<close>.\<close>

definition loop_top :: "bool \<Rightarrow> goal \<Rightarrow> segment \<Rightarrow> segment \<times> pc" where
  "loop_top sok g s =
     (if sg_err s then (s, Returned Failed)
      else case g of
        GAppend at raw \<Rightarrow>
          if sg_offset s \<ge> at + length raw then (s, Returned (Acked at raw))
          else if sg_flushing s then wait g s
          else begin_flush g False s
      | GDrain closing \<Rightarrow>
          if sg_flushing s then wait g s
          else if sg_pending s = [] then force sok closing s
          else begin_flush g False s)"

text \<open>\<open>Append\<close> and \<open>AppendRaw\<close> with the framed record \<open>raw\<close>.\<close>

definition stage :: "bytes \<Rightarrow> segment \<Rightarrow> segment \<times> pc" where
  "stage raw s =
     (if sg_err s then (s, Returned Failed)
      else
        let g = GAppend (sg_assigned s) raw;
            s1 = s\<lparr>sg_pending := sg_pending s @ raw, sg_assigned := sg_assigned s + length raw,
                   sg_staged := sg_staged s @ raw\<rparr>
        in if \<not> sg_flushing s1 \<and> sg_waiters s1 = 0 then begin_flush g True s1
           else loop_top True g s1)"

definition seg_AppendRaw :: "bytes \<Rightarrow> segment \<Rightarrow> segment \<times> pc" where
  "seg_AppendRaw raw s =
     (if sg_err s then (s, Returned Failed)
      else if verifyRecord raw \<noteq> None then (s, Returned Failed)
      else stage raw s)"

text \<open>
  The second half of \<open>flushLocked\<close>, with the mutex back, and what its callers do with the
  outcome.
\<close>

definition end_flush :: "nat \<Rightarrow> Fsync \<Rightarrow> flush_result \<Rightarrow> segment \<Rightarrow> segment" where
  "end_flush e policy r s =
     (let s1 = s\<lparr>sg_flushing := False\<rparr>
      in case r of
           WriteFailed \<Rightarrow> s1\<lparr>sg_err := True\<rparr>
         | SyncFailed \<Rightarrow> s1\<lparr>sg_offset := e, sg_err := True\<rparr>
         | FlushOk \<Rightarrow> s1\<lparr>sg_offset := e, sg_dirty := (policy \<noteq> FsyncAlways)\<rparr>)"

definition after_flush :: "bool \<Rightarrow> goal \<Rightarrow> bool \<Rightarrow> flush_result \<Rightarrow> segment \<Rightarrow> segment \<times> pc" where
  "after_flush sok g fast r s =
     (if r \<noteq> FlushOk then (s, Returned Failed)
      else case g of
        GAppend at raw \<Rightarrow>
          if fast \<and> sg_offset s \<ge> at + length raw then (s, Returned (Acked at raw)) else loop_top sok g s
      | GDrain closing \<Rightarrow> loop_top sok g s)"

fun wake :: "pc \<Rightarrow> pc" where
  "wake (Waiting g) = Woken g"
| "wake p = p"

subsection \<open>The steps\<close>

record system =
  sy_seg :: segment
  sy_pc :: "nat \<Rightarrow> pc"

definition put :: "nat \<Rightarrow> segment \<times> pc \<Rightarrow> (nat \<Rightarrow> pc) \<Rightarrow> system" where
  "put t r ps = \<lparr>sy_seg = fst r, sy_pc = ps(t := snd r)\<rparr>"

lemma put_simps [simp]: "sy_seg (put t r ps) = fst r" "sy_pc (put t r ps) = ps(t := snd r)"
  by (simp_all add: put_def)

inductive gc_step :: "system \<Rightarrow> system \<Rightarrow> bool" where
  append: "sy_pc y t = Idle \<Longrightarrow> gc_step y (put t (stage raw (sy_seg y)) (sy_pc y))"
| sync: "sy_pc y t = Idle \<Longrightarrow> gc_step y (put t (loop_top sok (GDrain closing) (sy_seg y)) (sy_pc y))"
| resume: "sy_pc y t = Woken g \<Longrightarrow>
     gc_step y (put t (loop_top sok g ((sy_seg y)\<lparr>sg_waiters := sg_waiters (sy_seg y) - 1\<rparr>)) (sy_pc y))"
| io_write: "sy_pc y t = Writing g fast batch e policy \<Longrightarrow>
     gc_step y (put t ((sy_seg y)\<lparr>sg_file := sg_file (sy_seg y) @ batch\<rparr>,
       if policy = FsyncAlways then Forcing g fast e policy else Flushed g fast e policy FlushOk) (sy_pc y))"
| io_write_error: "sy_pc y t = Writing g fast batch e policy \<Longrightarrow>
     gc_step y (put t ((sy_seg y)\<lparr>sg_file := sg_file (sy_seg y) @ take k batch\<rparr>,
       Flushed g fast e policy WriteFailed) (sy_pc y))"
| io_fsync: "sy_pc y t = Forcing g fast e policy \<Longrightarrow>
     gc_step y (put t ((sy_seg y)\<lparr>sg_forced := length (sg_file (sy_seg y))\<rparr>, Flushed g fast e policy FlushOk) (sy_pc y))"
| io_fsync_error: "sy_pc y t = Forcing g fast e policy \<Longrightarrow>
     gc_step y (put t (sy_seg y, Flushed g fast e policy SyncFailed) (sy_pc y))"
| finish: "sy_pc y t = Flushed g fast e policy r \<Longrightarrow> s1 = end_flush e policy r (sy_seg y) \<Longrightarrow>
     gc_step y (put t (after_flush sok g fast r s1)
       (if sg_waiters (sy_seg y) > 0 then wake \<circ> sy_pc y else sy_pc y))"
| os_writeback: "sg_forced (sy_seg y) \<le> k \<Longrightarrow> k \<le> length (sg_file (sy_seg y)) \<Longrightarrow>
     gc_step y (y\<lparr>sy_seg := (sy_seg y)\<lparr>sg_forced := k\<rparr>\<rparr>)"

text \<open>
  Reachable from a segment opened at stream offset \<open>base\<close> on a file of whole records, where
  \<open>SetFsync\<close> may choose among the policies \<open>A\<close> at any time.
\<close>

inductive gc_reach :: "Fsync set \<Rightarrow> nat \<Rightarrow> system \<Rightarrow> bool" for A base where
  start: "p \<in> A \<Longrightarrow> gc_reach A base \<lparr>sy_seg = startSegment (base + length init) init p, sy_pc = (\<lambda>t. Idle)\<rparr>"
| step: "gc_reach A base y \<Longrightarrow> gc_step y y' \<Longrightarrow> gc_reach A base y'"
| set_policy: "gc_reach A base y \<Longrightarrow> p \<in> A \<Longrightarrow> gc_reach A base (y\<lparr>sy_seg := (sy_seg y)\<lparr>sg_fsync := p\<rparr>\<rparr>)"

subsection \<open>The invariant\<close>

fun in_flight :: "pc \<Rightarrow> bool" where
  "in_flight (Writing g fast batch e p) \<longleftrightarrow> True"
| "in_flight (Forcing g fast e p) \<longleftrightarrow> True"
| "in_flight (Flushed g fast e p r) \<longleftrightarrow> True"
| "in_flight q \<longleftrightarrow> False"

fun queued :: "pc \<Rightarrow> bool" where
  "queued (Waiting g) \<longleftrightarrow> True"
| "queued (Woken g) \<longleftrightarrow> True"
| "queued q \<longleftrightarrow> False"

text \<open>The record \<open>raw\<close> was given the offset \<open>at\<close>.\<close>

definition staged_at :: "nat \<Rightarrow> segment \<Rightarrow> nat \<Rightarrow> bytes \<Rightarrow> bool" where
  "staged_at base s at raw \<longleftrightarrow>
     base \<le> at \<and> at + length raw \<le> base + length (sg_staged s) \<and>
     take (length raw) (drop (at - base) (sg_staged s)) = raw"

fun goal_ok :: "nat \<Rightarrow> segment \<Rightarrow> goal \<Rightarrow> bool" where
  "goal_ok base s (GAppend at raw) \<longleftrightarrow> staged_at base s at raw"
| "goal_ok base s (GDrain c) \<longleftrightarrow> True"

text \<open>Everything staged is in the file or staged still.\<close>

definition accounted :: "segment \<Rightarrow> bool" where
  "accounted s \<longleftrightarrow> sg_file s @ sg_pending s = sg_staged s"

lemma accounted_take: "accounted s \<Longrightarrow> take (length (sg_file s)) (sg_staged s) = sg_file s"
  by (metis accounted_def append_eq_conv_conj)

definition flight_ok :: "nat \<Rightarrow> segment \<Rightarrow> goal \<Rightarrow> bool" where
  "flight_ok base s g \<longleftrightarrow> sg_flushing s \<and> \<not> sg_err s \<and> goal_ok base s g"

fun thread_ok :: "nat \<Rightarrow> segment \<Rightarrow> pc \<Rightarrow> bool" where
  "thread_ok base s Idle \<longleftrightarrow> True"
| "thread_ok base s (Waiting g) \<longleftrightarrow> sg_flushing s \<and> goal_ok base s g"
| "thread_ok base s (Woken g) \<longleftrightarrow> goal_ok base s g"
| "thread_ok base s (Writing g fast batch e p) \<longleftrightarrow>
     flight_ok base s g \<and> sg_file s @ batch @ sg_pending s = sg_staged s \<and>
     sg_offset s = base + length (sg_file s) \<and> e = base + length (sg_file s) + length batch"
| "thread_ok base s (Forcing g fast e p) \<longleftrightarrow>
     flight_ok base s g \<and> accounted s \<and> e = base + length (sg_file s) \<and> sg_offset s \<le> e"
| "thread_ok base s (Flushed g fast e p r) \<longleftrightarrow>
     flight_ok base s g \<and>
     (r \<noteq> WriteFailed \<longrightarrow> accounted s \<and> e = base + length (sg_file s) \<and> sg_offset s \<le> e)"
| "thread_ok base s (Returned r) \<longleftrightarrow>
     (case r of Acked at raw \<Rightarrow> staged_at base s at raw \<and> at + length raw \<le> sg_offset s | _ \<Rightarrow> True)"

definition seg_ok :: "nat \<Rightarrow> segment \<Rightarrow> bool" where
  "seg_ok base s \<longleftrightarrow>
     base \<le> sg_offset s \<and> sg_offset s \<le> base + length (sg_file s) \<and>
     take (sg_offset s - base) (sg_file s) = take (sg_offset s - base) (sg_staged s) \<and>
     sg_assigned s = base + length (sg_staged s) \<and> sg_forced s \<le> length (sg_file s) \<and>
     (\<not> sg_flushing s \<longrightarrow> \<not> sg_err s \<longrightarrow> accounted s \<and> sg_offset s = base + length (sg_file s))"

definition gc_inv :: "nat \<Rightarrow> segment \<Rightarrow> (nat \<Rightarrow> pc) \<Rightarrow> bool" where
  "gc_inv base s ps \<longleftrightarrow>
     seg_ok base s \<and> (\<forall>t. thread_ok base s (ps t)) \<and>
     (\<forall>t u. in_flight (ps t) \<longrightarrow> in_flight (ps u) \<longrightarrow> t = u) \<and>
     (sg_flushing s \<longrightarrow> (\<exists>t. in_flight (ps t))) \<and>
     finite {t. queued (ps t)} \<and> sg_waiters s = card {t. queued (ps t)}"

lemma thread_ok_flight: "thread_ok base s p \<Longrightarrow> in_flight p \<Longrightarrow> sg_flushing s \<and> \<not> sg_err s"
  by (cases p) (auto simp: flight_ok_def)

lemma no_flight: "gc_inv base s ps \<Longrightarrow> \<not> sg_flushing s \<or> sg_err s \<Longrightarrow> \<not> in_flight (ps t)"
  using thread_ok_flight unfolding gc_inv_def by blast

lemma flight_unique: "gc_inv base s ps \<Longrightarrow> in_flight (ps t) \<Longrightarrow> in_flight (ps u) \<Longrightarrow> t = u"
  unfolding gc_inv_def by blast

text \<open>A change of the segment that the goroutine \<open>p\<close> does not notice.\<close>

definition grows :: "segment \<Rightarrow> segment \<Rightarrow> bool" where
  "grows s s' \<longleftrightarrow> (\<exists>x. sg_staged s' = sg_staged s @ x) \<and> sg_offset s \<le> sg_offset s'"

lemma staged_at_mono: "staged_at base s at raw \<Longrightarrow> grows s s' \<Longrightarrow> staged_at base s' at raw"
  by (auto simp: staged_at_def grows_def)

lemma goal_ok_mono: "goal_ok base s g \<Longrightarrow> grows s s' \<Longrightarrow> goal_ok base s' g"
  by (cases g) (auto intro: staged_at_mono)

lemma thread_ok_mono:
  "thread_ok base s p \<Longrightarrow> grows s s' \<Longrightarrow> \<not> in_flight p \<Longrightarrow> (\<forall>g. p = Waiting g \<longrightarrow> sg_flushing s') \<Longrightarrow>
   thread_ok base s' p"
  by (cases p) (auto intro: goal_ok_mono staged_at_mono simp: grows_def split: result.splits)

lemma queued_upd:
  "ps t = Idle \<Longrightarrow> finite {u. queued (ps u)} \<Longrightarrow>
   finite {u. queued ((ps(t := p)) u)} \<and>
   card {u. queued ((ps(t := p)) u)} = card {u. queued (ps u)} + (if queued p then 1 else 0)"
proof -
  assume t: "ps t = Idle" and f: "finite {u. queued (ps u)}"
  have "{u. queued ((ps(t := p)) u)} = (if queued p then insert t {u. queued (ps u)} else {u. queued (ps u)})"
    using t by auto
  moreover have "t \<notin> {u. queued (ps u)}" using t by simp
  ultimately show ?thesis using f by simp
qed

text \<open>
  A goroutine that holds the mutex changes the segment from \<open>s\<close> to \<open>s'\<close> and goes to
  \<open>p\<close>; nobody is in flight, or it does not touch what is in flight.
\<close>

lemma gc_inv_put:
  assumes "gc_inv base s ps" "ps t = Idle" "seg_ok base s'" "thread_ok base s' p"
    and "\<forall>u. u \<noteq> t \<longrightarrow> thread_ok base s' (ps u)"
    and "in_flight p \<longrightarrow> (\<forall>u. \<not> in_flight (ps u))" "sg_flushing s' \<longrightarrow> in_flight p \<or> sg_flushing s"
    and "sg_waiters s' = sg_waiters s + (if queued p then 1 else 0)"
  shows "gc_inv base s' (ps(t := p))"
proof -
  have "(\<exists>u. in_flight ((ps(t := p)) u))" if fl: "sg_flushing s'"
  proof (cases "in_flight p")
    case False
    then obtain u where "in_flight (ps u)" using assms(1,7) fl by (auto simp: gc_inv_def)
    moreover from this have "u \<noteq> t" using assms(2) by auto
    ultimately show ?thesis by auto
  qed auto
  then show ?thesis
    using assms queued_upd[of ps t p] by (auto simp: gc_inv_def)
qed

subsection \<open>Each critical section keeps it\<close>

lemma grows_refl: "sg_staged s' = sg_staged s \<Longrightarrow> sg_offset s' = sg_offset s \<Longrightarrow> grows s s'"
  by (simp add: grows_def)

lemma inv_parts:
  assumes "gc_inv base s ps"
  shows "seg_ok base s" "thread_ok base s (ps u)"
  using assms by (simp_all add: gc_inv_def)

lemma begin_flush_inv:
  assumes inv: "gc_inv base s ps" and t: "ps t = Idle" and free: "\<not> sg_flushing s" "\<not> sg_err s" and g: "goal_ok base s g"
  shows "gc_inv base (fst (begin_flush g fast s)) (ps(t := snd (begin_flush g fast s)))"
proof (rule gc_inv_put[OF inv t])
  let ?s = "fst (begin_flush g fast s)"
  have s: "accounted s" "sg_offset s = base + length (sg_file s)"
    using inv_parts(1)[OF inv] free by (simp_all add: seg_ok_def)
  have gr: "grows s ?s" by (rule grows_refl) (simp_all add: begin_flush_def)
  show "seg_ok base ?s" using inv_parts(1)[OF inv] by (simp add: seg_ok_def begin_flush_def)
  show "thread_ok base ?s (snd (begin_flush g fast s))"
    using s goal_ok_mono[OF g gr] free by (simp add: begin_flush_def flight_ok_def accounted_def)
  show "\<forall>u. u \<noteq> t \<longrightarrow> thread_ok base ?s (ps u)"
    using thread_ok_mono[OF inv_parts(2)[OF inv] gr] no_flight[OF inv] free by (simp add: begin_flush_def)
  show "in_flight (snd (begin_flush g fast s)) \<longrightarrow> (\<forall>u. \<not> in_flight (ps u))"
    using no_flight[OF inv] free by blast
qed (simp_all add: begin_flush_def)

lemma stay_inv:
  assumes "gc_inv base s ps" "ps t = Idle" "thread_ok base s (Returned r)"
  shows "gc_inv base s (ps(t := Returned r))"
  using assms inv_parts[OF assms(1)] by (intro gc_inv_put[OF assms(1,2)]) auto

lemma wait_inv:
  assumes "gc_inv base s ps" "ps t = Idle" "sg_flushing s" "goal_ok base s g"
  shows "gc_inv base (fst (wait g s)) (ps(t := snd (wait g s)))"
proof (rule gc_inv_put[OF assms(1,2)])
  let ?s = "fst (wait g s)"
  have same: "thread_ok base ?s p = thread_ok base s p" for p
    by (cases p) (auto simp: wait_def flight_ok_def accounted_def staged_at_def elim!: goal_ok.elims split: result.splits)
  show "thread_ok base ?s (snd (wait g s))" using same[of "Waiting g"] assms by (simp add: wait_def)
  show "\<forall>u. u \<noteq> t \<longrightarrow> thread_ok base ?s (ps u)" using same inv_parts[OF assms(1)] by simp
  show "seg_ok base ?s" using inv_parts[OF assms(1)] by (simp add: seg_ok_def wait_def accounted_def)
qed (use assms in \<open>auto simp: wait_def\<close>)

lemma force_inv:
  assumes inv: "gc_inv base s ps" and t: "ps t = Idle" and free: "\<not> sg_flushing s" "\<not> sg_err s"
  shows "gc_inv base (fst (force sok c s)) (ps(t := snd (force sok c s)))"
proof (rule gc_inv_put[OF inv t])
  let ?s = "fst (force sok c s)"
  have gr: "grows s ?s" by (rule grows_refl) (simp_all add: force_def Let_def split: prod.splits)
  have fl: "sg_flushing ?s = sg_flushing s" "sg_waiters ?s = sg_waiters s"
    by (simp_all add: force_def Let_def split: prod.splits)
  show "seg_ok base ?s"
    using inv_parts(1)[OF inv] by (auto simp: seg_ok_def force_def Let_def accounted_def)
  show "\<forall>u. u \<noteq> t \<longrightarrow> thread_ok base ?s (ps u)"
  proof (intro allI impI)
    fix u
    have "\<not> in_flight (ps u)" "\<And>g. ps u \<noteq> Waiting g"
      using no_flight[OF inv] inv_parts(2)[OF inv, of u] free by auto
    then show "thread_ok base ?s (ps u)" using thread_ok_mono[OF inv_parts(2)[OF inv] gr, of u] by simp
  qed
  show "thread_ok base ?s (snd (force sok c s))" by (simp add: force_def Let_def split: prod.splits)
  show "in_flight (snd (force sok c s)) \<longrightarrow> (\<forall>u. \<not> in_flight (ps u))"
    by (simp add: force_def Let_def split: prod.splits)
  show "sg_waiters ?s = sg_waiters s + (if queued (snd (force sok c s)) then 1 else 0)"
    using fl by (simp add: force_def Let_def split: prod.splits)
qed (use force_def in \<open>auto simp: force_def Let_def split: prod.splits if_splits\<close>)

lemma loop_top_inv:
  assumes "gc_inv base s ps" "ps t = Idle" "goal_ok base s g"
  shows "gc_inv base (fst (loop_top sok g s)) (ps(t := snd (loop_top sok g s)))"
proof (cases g)
  case (GAppend at raw)
  then show ?thesis
    using begin_flush_inv[OF assms(1,2) _ _ assms(3), of False] wait_inv[OF assms(1,2) _ assms(3)]
      stay_inv[OF assms(1,2), of Failed] stay_inv[OF assms(1,2), of "Acked at raw"] assms(3)
    by (simp add: loop_top_def)
next
  case (GDrain c)
  then show ?thesis
    using begin_flush_inv[OF assms(1,2) _ _ assms(3), of False] wait_inv[OF assms(1,2) _ assms(3)]
      stay_inv[OF assms(1,2), of Failed] force_inv[OF assms(1,2), of sok c]
    by (simp add: loop_top_def)
qed

text \<open>Staging while a batch is in flight leaves that batch alone.\<close>

definition staged_more :: "bytes \<Rightarrow> segment \<Rightarrow> segment" where
  "staged_more raw s = s\<lparr>sg_pending := sg_pending s @ raw, sg_assigned := sg_assigned s + length raw,
     sg_staged := sg_staged s @ raw\<rparr>"

lemma staged_more_thread: "thread_ok base s p \<Longrightarrow> thread_ok base (staged_more raw s) p"
proof -
  have gr: "grows s (staged_more raw s)" by (simp add: grows_def staged_more_def)
  show "thread_ok base s p \<Longrightarrow> thread_ok base (staged_more raw s) p"
    using goal_ok_mono[OF _ gr] staged_at_mono[OF _ gr]
    by (cases p) (auto simp: flight_ok_def accounted_def staged_more_def simp flip: append_assoc split: result.splits)
qed

lemma seg_ok_offset: "seg_ok base s \<Longrightarrow> sg_offset s - base \<le> length (sg_staged s)"
proof -
  assume s: "seg_ok base s"
  then have "length (take (sg_offset s - base) (sg_file s)) = length (take (sg_offset s - base) (sg_staged s))"
    by (simp only: seg_ok_def)
  moreover have "sg_offset s - base \<le> length (sg_file s)" using s by (auto simp: seg_ok_def)
  ultimately show ?thesis by simp
qed

lemma staged_more_seg: "seg_ok base s \<Longrightarrow> seg_ok base (staged_more raw s)"
  using seg_ok_offset[of base s] by (simp add: staged_more_def seg_ok_def accounted_def flip: append_assoc)

lemma staged_more_inv: "gc_inv base s ps \<Longrightarrow> gc_inv base (staged_more raw s) ps"
proof -
  have "sg_flushing (staged_more raw s) = sg_flushing s" "sg_waiters (staged_more raw s) = sg_waiters s"
    by (simp_all add: staged_more_def)
  then show "gc_inv base s ps \<Longrightarrow> gc_inv base (staged_more raw s) ps"
    using staged_more_thread staged_more_seg by (simp add: gc_inv_def)
qed

lemma staged_more_goal: "seg_ok base s \<Longrightarrow> goal_ok base (staged_more raw s) (GAppend (sg_assigned s) raw)"
  by (simp add: staged_more_def staged_at_def seg_ok_def)

lemma stage_inv:
  assumes "gc_inv base s ps" "ps t = Idle"
  shows "gc_inv base (fst (stage raw s)) (ps(t := snd (stage raw s)))"
proof (cases "sg_err s")
  case True
  then show ?thesis using stay_inv[OF assms, of Failed] by (simp add: stage_def)
next
  case False
  let ?g = "GAppend (sg_assigned s) raw" and ?s = "staged_more raw s"
  note inv = staged_more_inv[OF assms(1), of raw] and g = staged_more_goal[OF inv_parts(1)[OF assms(1)], of raw]
  have e: "sg_err ?s = sg_err s" by (simp add: staged_more_def)
  have "stage raw s = (if \<not> sg_flushing ?s \<and> sg_waiters ?s = 0 then begin_flush ?g True ?s else loop_top True ?g ?s)"
    using False by (simp add: stage_def staged_more_def Let_def)
  then show ?thesis
    using begin_flush_inv[OF inv assms(2) _ _ g, of True] loop_top_inv[OF inv assms(2) g, of True] False e by simp
qed

lemma leave_queue_inv:
  assumes "gc_inv base s ps" "ps t = Woken g"
  shows "gc_inv base (s\<lparr>sg_waiters := sg_waiters s - 1\<rparr>) (ps(t := Idle)) \<and>
    goal_ok base (s\<lparr>sg_waiters := sg_waiters s - 1\<rparr>) g"
proof -
  let ?s = "s\<lparr>sg_waiters := sg_waiters s - 1\<rparr>" and ?Q = "{u. queued (ps u)}"
  have th: "thread_ok base ?s p = thread_ok base s p" for p
    by (cases p) (auto simp: flight_ok_def accounted_def staged_at_def elim!: goal_ok.elims split: result.splits)
  have "t \<in> ?Q" "finite ?Q" "sg_waiters s = card ?Q" using assms by (auto simp: gc_inv_def)
  moreover have "{u. queued ((ps(t := Idle)) u)} = ?Q - {t}" by auto
  ultimately have "finite {u. queued ((ps(t := Idle)) u)}" "sg_waiters ?s = card {u. queued ((ps(t := Idle)) u)}"
    by simp_all
  moreover have "\<exists>u. in_flight ((ps(t := Idle)) u)" if fl: "sg_flushing s"
  proof -
    obtain u where "in_flight (ps u)" using assms(1) fl by (auto simp: gc_inv_def)
    moreover from this have "u \<noteq> t" using assms(2) by auto
    ultimately show ?thesis by auto
  qed
  ultimately have "gc_inv base ?s (ps(t := Idle))"
    using assms(1) th by (auto simp: gc_inv_def seg_ok_def accounted_def)
  moreover have "goal_ok base ?s g" using inv_parts(2)[OF assms(1), of t] th[of "Woken g"] assms(2) by simp
  ultimately show ?thesis ..
qed

lemma wake_flight [simp]: "in_flight (wake p) = in_flight p" "queued (wake p) = queued p"
  by (cases p; simp)+

text \<open>The flusher is back with the mutex: everybody who waited is woken and nobody is in flight.\<close>

lemma end_flush_inv:
  assumes inv: "gc_inv base s ps" and t: "ps t = Flushed g fast e pol r"
  defines "ps' \<equiv> (if sg_waiters s > 0 then wake \<circ> ps else ps)(t := Idle)"
  shows "gc_inv base (end_flush e pol r s) ps' \<and> goal_ok base (end_flush e pol r s) g \<and>
    (r = FlushOk \<longrightarrow> \<not> sg_err (end_flush e pol r s))"
proof -
  let ?s = "end_flush e pol r s" and ?Q = "{u. queued (ps u)}"
  have ft: "flight_ok base s g" and fr: "r \<noteq> WriteFailed \<longrightarrow> accounted s \<and> e = base + length (sg_file s) \<and> sg_offset s \<le> e"
    using inv_parts(2)[OF inv, of t] t by auto
  have sg: "seg_ok base s" by (rule inv_parts(1)[OF inv])
  have gr: "grows s ?s" using fr by (cases r) (simp_all add: end_flush_def grows_def)
  have alone: "\<not> in_flight (ps u)" if "u \<noteq> t" for u
    using flight_unique[OF inv, of t u] t that by auto
  have Q: "finite ?Q" "sg_waiters s = card ?Q" "t \<notin> ?Q" using inv t by (auto simp: gc_inv_def)
  have wk: "ps' u = wake (ps u)" if "u \<noteq> t" for u
  proof (cases "sg_waiters s > 0")
    case False
    then have "\<not> queued (ps u)" using Q by auto
    then have "wake (ps u) = ps u" by (cases "ps u") auto
    then show ?thesis using False that by (simp add: ps'_def)
  qed (use that in \<open>simp add: ps'_def\<close>)
  have "thread_ok base ?s (ps' u)" for u
  proof (cases "u = t")
    case False
    have "thread_ok base s (wake (ps u))" using inv_parts(2)[OF inv, of u] by (cases "ps u") auto
    moreover have "wake (ps u) \<noteq> Waiting h" for h by (cases "ps u") auto
    ultimately show ?thesis using thread_ok_mono[OF _ gr] alone[OF False] wk[OF False] by simp
  qed (simp add: ps'_def)
  moreover have "\<not> in_flight (ps' u)" for u
    using alone[of u] wk[of u] by (cases "u = t") (simp_all add: ps'_def)
  moreover have "{u. queued (ps' u)} = ?Q"
  proof (intro Collect_cong)
    show "queued (ps' u) = queued (ps u)" for u using wk[of u] t by (cases "u = t") (simp_all add: ps'_def)
  qed
  moreover have "seg_ok base ?s"
    using sg fr ft accounted_take[of s] by (cases r) (auto simp: seg_ok_def end_flush_def Let_def accounted_def flight_ok_def)
  moreover have "\<not> sg_flushing ?s" "sg_waiters ?s = sg_waiters s"
    by (cases r; simp add: end_flush_def Let_def)+
  ultimately have "gc_inv base ?s ps'" using Q by (simp add: gc_inv_def)
  moreover have "goal_ok base ?s g" using goal_ok_mono[OF _ gr] ft by (simp add: flight_ok_def)
  moreover have "r = FlushOk \<longrightarrow> \<not> sg_err ?s" using ft by (simp add: end_flush_def flight_ok_def)
  ultimately show ?thesis by blast
qed

lemma after_flush_inv:
  assumes "gc_inv base s ps" "ps t = Idle" "goal_ok base s g"
  shows "gc_inv base (fst (after_flush sok g fast r s)) (ps(t := snd (after_flush sok g fast r s)))"
  using stay_inv[OF assms(1,2), of Failed] loop_top_inv[OF assms, of sok] assms(3)
  by (auto simp: after_flush_def split: goal.splits intro!: stay_inv[OF assms(1,2)])

subsection \<open>Each call of the operating system keeps it\<close>

text \<open>The goroutine in flight moves on with the file changed; the others see nothing but the file.\<close>

lemma gc_inv_io:
  assumes inv: "gc_inv base s ps" and t: "in_flight (ps t)" and p: "in_flight p" "thread_ok base s' p"
    and s': "seg_ok base s'" "sg_staged s' = sg_staged s" "sg_offset s' = sg_offset s" "sg_flushing s' = sg_flushing s"
      "sg_waiters s' = sg_waiters s"
  shows "gc_inv base s' (ps(t := p))"
proof -
  have gr: "grows s s'" using s' by (simp add: grows_def)
  have alone: "u = t" if "in_flight (ps u)" for u using flight_unique[OF inv that t] .
  have th: "thread_ok base s' ((ps(t := p)) u)" for u
  proof (cases "u = t")
    case False
    then have "\<not> in_flight (ps u)" using alone by blast
    moreover have "\<forall>g. ps u = Waiting g \<longrightarrow> sg_flushing s'" using inv_parts(2)[OF inv, of u] s'(4) by auto
    ultimately show ?thesis using thread_ok_mono[OF inv_parts(2)[OF inv] gr, of u] False by simp
  qed (simp add: p)
  have "in_flight q \<Longrightarrow> \<not> queued q" for q by (cases q) simp_all
  then have q: "\<not> queued p" "\<not> queued (ps t)" using p(1) t by blast+
  have Q: "{u. queued ((ps(t := p)) u)} = {u. queued (ps u)}" using q by auto
  have "in_flight ((ps(t := p)) t)" using p(1) by simp
  then have "\<exists>u. in_flight ((ps(t := p)) u)" ..
  moreover have "u = t" if "in_flight ((ps(t := p)) u)" for u using alone[of u] that by (cases "u = t") simp_all
  then have "\<forall>u v. in_flight ((ps(t := p)) u) \<longrightarrow> in_flight ((ps(t := p)) v) \<longrightarrow> u = v" by blast
  moreover have "finite {u. queued (ps u)}" "sg_waiters s = card {u. queued (ps u)}"
    using inv by (simp_all add: gc_inv_def)
  ultimately show ?thesis
    unfolding gc_inv_def Q using s'(1,5) th by (simp add: fun_upd_same del: fun_upd_apply)
qed

lemma io_steps_inv:
  assumes "gc_inv base s ps"
  shows "ps t = Writing g fast b e pol \<Longrightarrow>
      gc_inv base (s\<lparr>sg_file := sg_file s @ b\<rparr>)
        (ps(t := if pol = FsyncAlways then Forcing g fast e pol else Flushed g fast e pol FlushOk))"
    and "ps t = Writing g fast b e pol \<Longrightarrow>
      gc_inv base (s\<lparr>sg_file := sg_file s @ take k b\<rparr>) (ps(t := Flushed g fast e pol WriteFailed))"
    and "ps t = Forcing g fast e pol \<Longrightarrow>
      gc_inv base (s\<lparr>sg_forced := length (sg_file s)\<rparr>) (ps(t := Flushed g fast e pol FlushOk))"
    and "ps t = Forcing g fast e pol \<Longrightarrow> gc_inv base s (ps(t := Flushed g fast e pol SyncFailed))"
proof -
  have st: "goal_ok base (s\<lparr>sg_file := f\<rparr>) g = goal_ok base s g" "goal_ok base (s\<lparr>sg_forced := n\<rparr>) g = goal_ok base s g" for f n
    by (cases g; simp add: staged_at_def)+
  note sg = inv_parts(1)[OF assms, unfolded seg_ok_def] and th = inv_parts(2)[OF assms, of t]
  show "ps t = Writing g fast b e pol \<Longrightarrow>
      gc_inv base (s\<lparr>sg_file := sg_file s @ b\<rparr>)
        (ps(t := if pol = FsyncAlways then Forcing g fast e pol else Flushed g fast e pol FlushOk))"
    by (rule gc_inv_io[OF assms]) (use sg th in \<open>auto simp: seg_ok_def flight_ok_def accounted_def st\<close>)
  show "ps t = Writing g fast b e pol \<Longrightarrow>
      gc_inv base (s\<lparr>sg_file := sg_file s @ take k b\<rparr>) (ps(t := Flushed g fast e pol WriteFailed))"
    by (rule gc_inv_io[OF assms]) (use sg th in \<open>auto simp: seg_ok_def flight_ok_def accounted_def st\<close>)
  show "ps t = Forcing g fast e pol \<Longrightarrow>
      gc_inv base (s\<lparr>sg_forced := length (sg_file s)\<rparr>) (ps(t := Flushed g fast e pol FlushOk))"
    by (rule gc_inv_io[OF assms]) (use sg th in \<open>auto simp: seg_ok_def flight_ok_def accounted_def st\<close>)
  show "ps t = Forcing g fast e pol \<Longrightarrow> gc_inv base s (ps(t := Flushed g fast e pol SyncFailed))"
    by (rule gc_inv_io[OF assms]) (use sg th in \<open>auto simp: seg_ok_def flight_ok_def accounted_def st\<close>)
qed

lemma unrelated_inv:
  assumes "gc_inv base s ps"
  shows "k \<le> length (sg_file s) \<Longrightarrow> gc_inv base (s\<lparr>sg_forced := k\<rparr>) ps" "gc_inv base (s\<lparr>sg_fsync := p\<rparr>) ps"
proof -
  have g: "goal_ok base (s\<lparr>sg_forced := k\<rparr>) g = goal_ok base s g" "goal_ok base (s\<lparr>sg_fsync := p\<rparr>) g = goal_ok base s g" for g
    by (cases g; simp add: staged_at_def)+
  have "thread_ok base (s\<lparr>sg_forced := k\<rparr>) q = thread_ok base s q" "thread_ok base (s\<lparr>sg_fsync := p\<rparr>) q = thread_ok base s q" for q
    by (cases q; auto simp: flight_ok_def accounted_def staged_at_def g split: result.splits)+
  then show "k \<le> length (sg_file s) \<Longrightarrow> gc_inv base (s\<lparr>sg_forced := k\<rparr>) ps" "gc_inv base (s\<lparr>sg_fsync := p\<rparr>) ps"
    using assms by (auto simp: gc_inv_def seg_ok_def accounted_def)
qed

lemma gc_step_inv: "gc_step y y' \<Longrightarrow> gc_inv base (sy_seg y) (sy_pc y) \<Longrightarrow> gc_inv base (sy_seg y') (sy_pc y')"
proof (induction rule: gc_step.induct)
  case (append y t raw)
  then show ?case using stage_inv[of base "sy_seg y" "sy_pc y" t raw] by (simp add: fun_upd_same del: fun_upd_apply)
next
  case (sync y t sok closing)
  then show ?case using loop_top_inv[of base "sy_seg y" "sy_pc y" t "GDrain closing" sok] by (simp add: fun_upd_same del: fun_upd_apply)
next
  case (resume y t g sok)
  then show ?case
    using leave_queue_inv[of base "sy_seg y" "sy_pc y" t g]
      loop_top_inv[of base _ "(sy_pc y)(t := Idle)" t g sok] by (simp add: fun_upd_same del: fun_upd_apply)
next
  case (finish y t g fast e policy r s1 sok)
  let ?ps = "if sg_waiters (sy_seg y) > 0 then wake \<circ> sy_pc y else sy_pc y"
  show ?case
    using end_flush_inv[OF finish.prems finish.hyps(1)]
      after_flush_inv[of base s1 "?ps(t := Idle)" t g sok fast r] finish.hyps(2) by (simp add: fun_upd_same del: fun_upd_apply)
qed (simp_all add: io_steps_inv unrelated_inv del: fun_upd_apply)

lemma gc_reach_inv: "gc_reach A base y \<Longrightarrow> gc_inv base (sy_seg y) (sy_pc y)"
proof (induction rule: gc_reach.induct)
  case (start p init)
  then show ?case by (simp add: gc_inv_def seg_ok_def startSegment_def accounted_def)
next
  case (step y y')
  then show ?case using gc_step_inv by blast
next
  case (set_policy y p)
  then show ?case using unrelated_inv(2) by (simp add: fun_upd_same del: fun_upd_apply)
qed

subsection \<open>Durability under appendfsync always\<close>

definition seg_forced :: "nat \<Rightarrow> segment \<Rightarrow> bool" where
  "seg_forced base s \<longleftrightarrow> sg_fsync s = FsyncAlways \<and> (\<not> sg_err s \<longrightarrow> sg_offset s \<le> base + sg_forced s)"

fun thread_forced :: "nat \<Rightarrow> segment \<Rightarrow> pc \<Rightarrow> bool" where
  "thread_forced base s (Writing g fast b e pol) \<longleftrightarrow> pol = FsyncAlways"
| "thread_forced base s (Forcing g fast e pol) \<longleftrightarrow> pol = FsyncAlways"
| "thread_forced base s (Flushed g fast e pol r) \<longleftrightarrow> pol = FsyncAlways \<and> (r = FlushOk \<longrightarrow> e \<le> base + sg_forced s)"
| "thread_forced base s (Returned (Acked at raw)) \<longleftrightarrow> at + length raw \<le> base + sg_forced s"
| "thread_forced base s p \<longleftrightarrow> True"

definition all_forced :: "nat \<Rightarrow> segment \<Rightarrow> (nat \<Rightarrow> pc) \<Rightarrow> bool" where
  "all_forced base s ps \<longleftrightarrow> seg_forced base s \<and> (\<forall>t. thread_forced base s (ps t))"

lemma thread_forced_mono:
  "thread_forced base s p \<Longrightarrow> sg_forced s \<le> sg_forced s' \<Longrightarrow> thread_forced base s' p"
  by (induction base s p rule: thread_forced.induct) auto

lemma all_forced_put:
  assumes "all_forced base s ps" "sg_forced s \<le> sg_forced s'" "seg_forced base s'" "thread_forced base s' p"
  shows "all_forced base s' (ps(t := p))"
  using assms thread_forced_mono[OF _ assms(2)] by (auto simp: all_forced_def)

lemma loop_top_forced:
  assumes "seg_forced base s" "sg_forced s \<le> length (sg_file s)"
  shows "seg_forced base (fst (loop_top sok g s)) \<and> thread_forced base (fst (loop_top sok g s)) (snd (loop_top sok g s)) \<and>
    sg_forced s \<le> sg_forced (fst (loop_top sok g s))"
  using assms
  by (cases g) (auto simp: loop_top_def seg_forced_def wait_def begin_flush_def force_def Let_def)

lemma stage_forced:
  assumes "seg_forced base s" "sg_forced s \<le> length (sg_file s)"
  shows "seg_forced base (fst (stage raw s)) \<and> thread_forced base (fst (stage raw s)) (snd (stage raw s)) \<and>
    sg_forced s \<le> sg_forced (fst (stage raw s))"
proof (cases "sg_err s")
  case True
  then show ?thesis using assms(1) by (simp add: stage_def)
next
  case False
  have "seg_forced base (staged_more raw s)" "sg_forced (staged_more raw s) = sg_forced s"
      "sg_file (staged_more raw s) = sg_file s"
    using assms(1) by (simp_all add: seg_forced_def staged_more_def)
  then show ?thesis
    using loop_top_forced[of base "staged_more raw s" True "GAppend (sg_assigned s) raw"] assms(2) False
    by (simp add: stage_def Let_def flip: staged_more_def) (simp add: begin_flush_def seg_forced_def)
qed

lemma gc_step_forced:
  "gc_step y y' \<Longrightarrow> gc_inv base (sy_seg y) (sy_pc y) \<Longrightarrow> all_forced base (sy_seg y) (sy_pc y) \<Longrightarrow>
   all_forced base (sy_seg y') (sy_pc y')"
proof (induction rule: gc_step.induct)
  case (append y t raw)
  then have "sg_forced (sy_seg y) \<le> length (sg_file (sy_seg y))" by (simp add: gc_inv_def seg_ok_def)
  then show ?case
    using stage_forced[of base "sy_seg y" raw] append.prems(2) all_forced_put[OF append.prems(2)]
    by (simp add: all_forced_def[of base "sy_seg y"] del: fun_upd_apply)
next
  case (sync y t sok closing)
  then have "sg_forced (sy_seg y) \<le> length (sg_file (sy_seg y))" by (simp add: gc_inv_def seg_ok_def)
  then show ?case
    using loop_top_forced[of base "sy_seg y" sok "GDrain closing"] sync.prems(2) all_forced_put[OF sync.prems(2)]
    by (simp add: all_forced_def[of base "sy_seg y"] del: fun_upd_apply)
next
  case (resume y t g sok)
  let ?s = "(sy_seg y)\<lparr>sg_waiters := sg_waiters (sy_seg y) - 1\<rparr>"
  have "sg_forced ?s \<le> length (sg_file ?s)" "seg_forced base ?s"
    using resume.prems by (simp_all add: gc_inv_def seg_ok_def all_forced_def seg_forced_def)
  then show ?case
    using loop_top_forced[of base ?s sok g] all_forced_put[OF resume.prems(2)] by (simp del: fun_upd_apply)
next
  case (io_write y t g fast batch e policy)
  then have "policy = FsyncAlways" by (auto simp: all_forced_def dest: spec[of _ t])
  then show ?case
    using io_write.prems(2) by (simp add: all_forced_def seg_forced_def)
      (auto intro: thread_forced_mono)
next
  case (io_write_error y t g fast batch e policy k)
  then show ?case by (auto simp: all_forced_def seg_forced_def intro: thread_forced_mono dest: spec[of _ t])
next
  case (io_fsync y t g fast e policy)
  let ?s = "sy_seg y" and ?s' = "(sy_seg y)\<lparr>sg_forced := length (sg_file (sy_seg y))\<rparr>"
  have "thread_ok base ?s (Forcing g fast e policy)" "policy = FsyncAlways"
    using inv_parts(2)[OF io_fsync.prems(1), of t] io_fsync.prems(2) io_fsync.hyps
    by (auto simp: all_forced_def dest: spec[of _ t])
  then have "seg_forced base ?s'" "thread_forced base ?s' (Flushed g fast e policy FlushOk)" "sg_forced ?s \<le> sg_forced ?s'"
    using io_fsync.prems by (simp_all add: seg_forced_def all_forced_def gc_inv_def seg_ok_def)
  then show ?case using all_forced_put[OF io_fsync.prems(2)] by (simp del: fun_upd_apply)
next
  case (io_fsync_error y t g fast e policy)
  then show ?case by (auto simp: all_forced_def seg_forced_def intro: thread_forced_mono dest: spec[of _ t])
next
  case (finish y t g fast e policy r s1 sok)
  let ?ps = "if sg_waiters (sy_seg y) > 0 then wake \<circ> sy_pc y else sy_pc y"
  have th: "thread_forced base (sy_seg y) (Flushed g fast e policy r)" "flight_ok base (sy_seg y) g"
    using inv_parts(2)[OF finish.prems(1), of t] finish.prems(2) finish.hyps(1)
    by (auto simp: all_forced_def dest: spec[of _ t])
  have fo: "sg_forced s1 = sg_forced (sy_seg y)" "sg_file s1 = sg_file (sy_seg y)" "r = FlushOk \<longrightarrow> \<not> sg_err s1"
    using finish.hyps(2) th(2) by (cases r; simp add: end_flush_def flight_ok_def)+
  have sf: "seg_forced base s1"
    using finish.hyps(2) finish.prems(2) th by (cases r) (simp_all add: end_flush_def seg_forced_def all_forced_def)
  have wk: "thread_forced base (sy_seg y) (wake p) = thread_forced base (sy_seg y) p" for p by (cases p) simp_all
  have "all_forced base s1 ?ps"
    using finish.prems(2) sf wk thread_forced_mono[of base "sy_seg y" _ s1] fo(1) by (auto simp: all_forced_def)
  moreover have "sg_forced s1 \<le> length (sg_file s1)" using fo finish.prems(1) by (simp add: gc_inv_def seg_ok_def)
  note lt = loop_top_forced[OF sf this, of sok g]
  have "seg_forced base (fst (after_flush sok g fast r s1)) \<and>
      thread_forced base (fst (after_flush sok g fast r s1)) (snd (after_flush sok g fast r s1)) \<and>
      sg_forced s1 \<le> sg_forced (fst (after_flush sok g fast r s1))"
    using lt sf fo(3) by (cases g) (auto simp: after_flush_def seg_forced_def)
  ultimately show ?case using all_forced_put[of base s1 ?ps] by (simp del: fun_upd_apply)
next
  case (os_writeback y k)
  then show ?case by (auto simp: all_forced_def seg_forced_def intro: thread_forced_mono)
qed

lemma gc_reach_forced: "gc_reach A base y \<Longrightarrow> A = {FsyncAlways} \<Longrightarrow> all_forced base (sy_seg y) (sy_pc y)"
proof (induction rule: gc_reach.induct)
  case (start p init)
  then show ?case by (simp add: all_forced_def seg_forced_def startSegment_def)
next
  case (step y y')
  then show ?case using gc_step_forced gc_reach_inv by blast
next
  case (set_policy y p)
  then show ?case using thread_forced_mono[of base "sy_seg y" _ "(sy_seg y)\<lparr>sg_fsync := p\<rparr>"]
    by (auto simp: all_forced_def seg_forced_def)
qed

subsection \<open>No waiter is forgotten\<close>

text \<open>The batch in flight can always be brought to its end, and its end wakes every waiter.\<close>

lemma wake_finish:
  assumes "gc_inv base (sy_seg y) (sy_pc y)" "sy_pc y u = Flushed h fast e pol r" "sy_pc y t = Waiting g"
  shows "\<exists>y'. gc_step y y' \<and> sy_pc y' t = Woken g"
proof -
  have "t \<noteq> u" using assms(2,3) by auto
  have "t \<in> {x. queued (sy_pc y x)}" "finite {x. queued (sy_pc y x)}" "sg_waiters (sy_seg y) = card {x. queued (sy_pc y x)}"
    using assms(1,3) by (auto simp: gc_inv_def)
  then have "sg_waiters (sy_seg y) > 0" by (auto simp: card_gt_0_iff)
  then show ?thesis
    using gc_step.finish[OF assms(2) refl, of True] assms(3) \<open>t \<noteq> u\<close> by (intro exI conjI) auto
qed

lemma wake_forcing:
  assumes "gc_inv base (sy_seg y) (sy_pc y)" "sy_pc y u = Forcing h fast e pol" "sy_pc y t = Waiting g"
  shows "\<exists>y'. gc_step\<^sup>*\<^sup>* y y' \<and> sy_pc y' t = Woken g"
proof -
  have "t \<noteq> u" using assms(2,3) by auto
  note st = gc_step.io_fsync[OF assms(2)]
  from wake_finish[OF gc_step_inv[OF st assms(1)], of u h fast e pol FlushOk t g] \<open>t \<noteq> u\<close> assms(3)
  obtain y' where "gc_step (put u ((sy_seg y)\<lparr>sg_forced := length (sg_file (sy_seg y))\<rparr>, Flushed h fast e pol FlushOk) (sy_pc y)) y'"
      "sy_pc y' t = Woken g" by auto
  then show ?thesis using st by (meson converse_rtranclp_into_rtranclp r_into_rtranclp)
qed

lemma wake_waiting:
  assumes inv: "gc_inv base (sy_seg y) (sy_pc y)" and t: "sy_pc y t = Waiting g"
  shows "\<exists>y'. gc_step\<^sup>*\<^sup>* y y' \<and> sy_pc y' t = Woken g"
proof -
  have "sg_flushing (sy_seg y)" using inv_parts(2)[OF inv, of t] t by simp
  then obtain u where u: "in_flight (sy_pc y u)" using inv by (auto simp: gc_inv_def)
  then have "t \<noteq> u" using t by auto
  show ?thesis
  proof (cases "sy_pc y u")
    case (Writing h fast b e pol)
    note st = gc_step.io_write[OF Writing]
    let ?y = "put u ((sy_seg y)\<lparr>sg_file := sg_file (sy_seg y) @ b\<rparr>,
       if pol = FsyncAlways then Forcing h fast e pol else Flushed h fast e pol FlushOk) (sy_pc y)"
    have "\<exists>y'. gc_step\<^sup>*\<^sup>* ?y y' \<and> sy_pc y' t = Woken g"
      using wake_forcing[OF gc_step_inv[OF st inv], of u h fast e pol t g] \<open>t \<noteq> u\<close> t
        wake_finish[OF gc_step_inv[OF st inv], of u h fast e pol FlushOk t g] by (cases "pol = FsyncAlways") auto
    then show ?thesis using st by (meson converse_rtranclp_into_rtranclp)
  next
    case (Forcing h fast e pol)
    then show ?thesis using wake_forcing[OF inv _ t] by simp
  next
    case (Flushed h fast e pol r)
    then show ?thesis using wake_finish[OF inv _ t] by blast
  qed (use u in auto)
qed

subsection \<open>Properties\<close>

text \<open>C15: An append that returns its offset finds its record in the file at that offset, whole and in the order the
  offsets were handed out, whatever other goroutines appended, synced, failed or closed in the meantime.\<close>

theorem acked_record_in_file:
  assumes "gc_reach A base y" "sy_pc y t = Returned (Acked at raw)"
  shows "base \<le> at \<and> take (length raw) (drop (at - base) (sg_file (sy_seg y))) = raw \<and>
     at + length raw \<le> sg_offset (sy_seg y) \<and>
     take (sg_offset (sy_seg y) - base) (sg_file (sy_seg y)) = take (sg_offset (sy_seg y) - base) (sg_staged (sy_seg y))"
proof -
  let ?s = "sy_seg y" and ?n = "sg_offset (sy_seg y) - base"
  note inv = gc_reach_inv[OF assms(1)]
  have a: "staged_at base ?s at raw" "at + length raw \<le> sg_offset ?s"
    using inv_parts(2)[OF inv, of t] assms(2) by simp_all
  have p: "take ?n (sg_file ?s) = take ?n (sg_staged ?s)" using inv_parts(1)[OF inv] by (simp add: seg_ok_def)
  have cut: "take (length raw) (drop (at - base) xs) = take (length raw) (drop (at - base) (take ?n xs))" for xs :: bytes
    using a by (auto simp: staged_at_def drop_take min_def)
  show ?thesis using a p cut[of "sg_file ?s"] cut[of "sg_staged ?s"] by (simp add: staged_at_def)
qed

definition one_append :: "nat \<Rightarrow> system" where
  "one_append k = (if k = 0 then \<lparr>sy_seg = startSegment 0 [] FsyncAlways, sy_pc = (\<lambda>t. Idle)\<rparr>
     else if k = 1 then put 0 (stage [7] (startSegment 0 [] FsyncAlways)) (\<lambda>t. Idle)
     else put 1 (stage [8] (fst (stage [7] (startSegment 0 [] FsyncAlways))))
       ((\<lambda>t. Idle)(0 := snd (stage [7] (startSegment 0 [] FsyncAlways)))))"

lemma one_append_reach: "gc_reach {FsyncAlways} 0 (one_append 1)" "gc_reach {FsyncAlways} 0 (one_append 2)"
proof -
  have 0: "gc_reach {FsyncAlways} 0 (one_append 0)"
    using gc_reach.start[of FsyncAlways "{FsyncAlways}" 0 "[]"] by (simp add: one_append_def)
  show 1: "gc_reach {FsyncAlways} 0 (one_append 1)"
    using gc_reach.step[OF 0 gc_step.append[of _ 0 "[7]"]] by (simp add: one_append_def)
  show "gc_reach {FsyncAlways} 0 (one_append 2)"
    using gc_reach.step[OF 1 gc_step.append[of _ 1 "[8]"]] by (simp add: one_append_def)
qed

definition one_acked :: system where
  "one_acked = put 0 (startSegment 0 [] FsyncAlways\<lparr>sg_file := [7], sg_forced := 1, sg_assigned := 1, sg_offset := 1, sg_staged := [7]\<rparr>,
     Returned (Acked 0 [7])) (\<lambda>t. Idle)"

lemma one_acked_reach: "gc_reach {FsyncAlways} 0 one_acked"
proof -
  note simps = one_append_def one_acked_def stage_def begin_flush_def startSegment_def put_def end_flush_def after_flush_def
  let ?g = "GAppend 0 [7]"
  have p: "sy_pc (one_append 1) 0 = Writing ?g True [7] 1 FsyncAlways" by (simp add: simps)
  note r1 = gc_reach.step[OF one_append_reach(1) gc_step.io_write[OF p]]
  note r2 = gc_reach.step[OF r1 gc_step.io_fsync[of _ 0 ?g True 1 FsyncAlways]]
  note r3 = gc_reach.step[OF r2 gc_step.finish[of _ 0 ?g True 1 FsyncAlways FlushOk _ True, OF _ refl]]
  show ?thesis using r3 by (simp add: simps)
qed

theorem acked_record_in_file_witness:
  "take 1 (drop 0 (sg_file (sy_seg one_acked))) = [7]"
  using acked_record_in_file[OF one_acked_reach, of 0 0 "[7]"] by (simp add: one_acked_def)

text \<open>C14: Under appendfsync always an acknowledged record is on stable storage: any crash that keeps at least what was
  forced keeps the whole record.\<close>

theorem always_durable:
  assumes "gc_reach {FsyncAlways} base y" "sy_pc y t = Returned (Acked at raw)" "sg_forced (sy_seg y) \<le> n"
  shows "take (length raw) (drop (at - base) (take n (sg_file (sy_seg y)))) = raw"
proof -
  let ?s = "sy_seg y"
  note inv = gc_reach_inv[OF assms(1)]
  have a: "staged_at base ?s at raw" "at + length raw \<le> sg_offset ?s"
    using inv_parts(2)[OF inv, of t] assms(2) by simp_all
  have p: "take (sg_offset ?s - base) (sg_file ?s) = take (sg_offset ?s - base) (sg_staged ?s)"
    using inv_parts(1)[OF inv] by (simp add: seg_ok_def)
  have "thread_forced base ?s (Returned (Acked at raw))"
    using gc_reach_forced[OF assms(1) refl] assms(2) by (auto simp: all_forced_def dest: spec[of _ t])
  then have n: "at + length raw \<le> base + n" using assms(3) by simp
  have cut: "take (length raw) (drop (at - base) xs) = take (length raw) (drop (at - base) (take k xs))"
    if "at + length raw \<le> base + k" for xs :: bytes and k
    using a(1) that by (auto simp: staged_at_def drop_take min_def)
  have off: "at + length raw \<le> base + (sg_offset ?s - base)" using a by (simp add: staged_at_def)
  show ?thesis
    using cut[OF n, of "sg_file ?s"] cut[OF off, of "sg_file ?s"] cut[OF off, of "sg_staged ?s"] a(1) p
    by (simp add: staged_at_def)
qed

theorem always_durable_witness:
  "take 1 (drop 0 (take 1 (sg_file (sy_seg one_acked)))) = [7]"
  using always_durable[OF one_acked_reach, of 0 0 "[7]" 1] by (simp add: one_acked_def)



text \<open>C34: After the first write or sync failure nothing more reaches the file and no append is acknowledged: every later
  call fails.\<close>

theorem failure_is_sticky:
  assumes "gc_reach A base y" "sg_err (sy_seg y)" "gc_step y y'"
  shows "sg_err (sy_seg y') \<and> sg_file (sy_seg y') = sg_file (sy_seg y) \<and>
     (\<forall>t r. sy_pc y' t = Returned r \<longrightarrow> sy_pc y t = Returned r \<or> r = Failed)"
proof -
  have "\<not> in_flight (sy_pc y u)" for u using no_flight[OF gc_reach_inv[OF assms(1)]] assms(2) by blast
  then have f: "sy_pc y u \<noteq> Writing g fast b e p" "sy_pc y u \<noteq> Forcing g fast e p" "sy_pc y u \<noteq> Flushed g fast e p r"
    for u g fast b e p r by (metis in_flight.simps(1), metis in_flight.simps(2), metis in_flight.simps(3))
  show ?thesis
    using assms(3,2) f by (cases rule: gc_step.cases) (auto simp: stage_def loop_top_def split: if_splits)
qed

theorem failure_is_sticky_witness:
  "\<exists>y y'. gc_reach {FsyncAlways} 0 y \<and> sg_err (sy_seg y) \<and> gc_step y y' \<and> sg_err (sy_seg y') \<and>
     sg_file (sy_seg y') = sg_file (sy_seg y)"
proof -
  note simps = one_append_def stage_def begin_flush_def startSegment_def put_def end_flush_def after_flush_def
  let ?g = "GAppend 0 [7]"
  have p: "sy_pc (one_append 1) 0 = Writing ?g True [7] 1 FsyncAlways" by (simp add: simps)
  note r1 = gc_reach.step[OF one_append_reach(1) gc_step.io_write_error[OF p, of 0]]
  note r2 = gc_reach.step[OF r1 gc_step.finish[of _ 0 ?g True 1 FsyncAlways WriteFailed _ True, OF _ refl]]
  obtain y where y: "gc_reach {FsyncAlways} 0 y" "sg_err (sy_seg y)" "sy_pc y 1 = Idle"
    using r2 by (auto simp: simps)
  show ?thesis using failure_is_sticky[OF y(1,2) gc_step.append[OF y(3), of "[8]"]] y gc_step.append[OF y(3), of "[8]"] by blast
qed

end
