(* ===== verification/Recovery.thy ===== *)
theory Recovery
  imports Log_Stream
begin

text \<open>
  The log as a directory of segment files, \<open>persist/segments.go\<close>, and its replay at
  start-up, \<open>persist/recover.go\<close>. A directory is the list of its regular files in the
  order \<open>os.ReadDir\<close> gives them. The applier that recovery drives lives in another
  package and is an argument: a function from database, stream offset and arguments to a
  change of the keyspace that may fail. Calls of the operating system that only read succeed;
  creating an existing file fails, and whether a file can be removed is an argument.
\<close>

type_synonym dir = "(bytes \<times> bytes) list"

subsection \<open>Segment files\<close>

definition segmentPrefix :: bytes where "segmentPrefix = lit ''kestrel-''"
definition segmentSuffix :: bytes where "segmentSuffix = lit ''.log''"
definition legacyLogName :: bytes where "legacyLogName = lit ''kestrel.log''"

record Segment =
  sm_Path :: bytes
  sm_Seq :: int
  sm_Base :: nat
  sm_End :: nat

definition segmentName :: "nat \<Rightarrow> bytes" where
  "segmentName seq =
     (let d = dec_digits seq in segmentPrefix @ replicate (6 - length d) Zero @ d @ segmentSuffix)"

definition has_prefix :: "bytes \<Rightarrow> bytes \<Rightarrow> bool" where
  "has_prefix p s \<longleftrightarrow> take (length p) s = p"

definition has_suffix :: "bytes \<Rightarrow> bytes \<Rightarrow> bool" where
  "has_suffix p s \<longleftrightarrow> length p \<le> length s \<and> drop (length s - length p) s = p"

definition parseSegmentSeq :: "bytes \<Rightarrow> int option" where
  "parseSegmentSeq name =
     (if \<not> has_prefix segmentPrefix name \<or> \<not> has_suffix segmentSuffix name then None
      else
        let mid = take (length name - length segmentPrefix - length segmentSuffix)
                    (drop (length segmentPrefix) name)
        in case ParseInt mid of
             None \<Rightarrow> None
           | Some n \<Rightarrow> if n \<le> 0 then None else Some n)"

definition readSegmentHeader :: "bytes \<Rightarrow> int \<Rightarrow> bytes \<Rightarrow> persist_error + Segment" where
  "readSegmentHeader path seq file =
     (if length file < fileHeaderSize then Inl ErrBadHeader
      else case decodeFileHeader (take fileHeaderSize file) logMagic of
             Inl e \<Rightarrow> Inl e
           | Inr h \<Rightarrow>
               Inr \<lparr>sm_Path = path, sm_Seq = seq, sm_Base = unat (fh_Base h),
                    sm_End = (unat (fh_Base h) + length file - fileHeaderSize) mod 2 ^ 64\<rparr>)"

fun collect_segments :: "dir \<Rightarrow> persist_error + Segment list" where
  "collect_segments [] = Inr []"
| "collect_segments ((name, file) # es) =
     (case parseSegmentSeq name of
        None \<Rightarrow> collect_segments es
      | Some seq \<Rightarrow>
          (case readSegmentHeader name seq file of
             Inl e \<Rightarrow> Inl e
           | Inr seg \<Rightarrow>
               (case collect_segments es of Inl e \<Rightarrow> Inl e | Inr segs \<Rightarrow> Inr (seg # segs))))"

fun unbroken :: "Segment list \<Rightarrow> bool" where
  "unbroken (a # b # segs) \<longleftrightarrow> sm_Base b = sm_End a \<and> unbroken (b # segs)"
| "unbroken segs \<longleftrightarrow> True"

definition Segments :: "dir \<Rightarrow> persist_error + Segment list" where
  "Segments d =
     (case collect_segments d of
        Inl e \<Rightarrow> Inl e
      | Inr segs \<Rightarrow>
          let out = sort_key sm_Seq segs
          in if unbroken out then Inr out else Inl ErrCorrupt)"

definition adoptLegacyLog :: "dir \<Rightarrow> persist_error + dir" where
  "adoptLegacyLog d =
     (if legacyLogName \<notin> set (map fst d) then Inr d
      else if segmentName 1 \<in> set (map fst d) then Inl ErrPlain
      else Inr (map (\<lambda>(n, f). (if n = legacyLogName then segmentName 1 else n, f)) d))"

subsection \<open>The log, one caller at a time\<close>

record Log =
  lg_dir :: dir
  lg_segs :: "Segment list"
  lg_offset :: nat

definition file_append :: "bytes \<Rightarrow> bytes \<Rightarrow> dir \<Rightarrow> dir" where
  "file_append path b d = map (\<lambda>(n, f). (n, if n = path then f @ b else f)) d"

definition file_truncate :: "bytes \<Rightarrow> nat \<Rightarrow> dir \<Rightarrow> dir" where
  "file_truncate path k d = map (\<lambda>(n, f). (n, if n = path then take k f else f)) d"

text \<open>\<open>createSegment\<close> fails when the file exists; \<open>now\<close> is the clock.\<close>

definition startSegmentLocked :: "64 word \<Rightarrow> int \<Rightarrow> nat \<Rightarrow> Log \<Rightarrow> persist_error + Log" where
  "startSegmentLocked now seq base l =
     (let path = segmentName (nat seq);
          h = \<lparr>fh_Version = of_nat fileVersion, fh_Flags = 0, fh_Base = of_nat base, fh_Created = now\<rparr>
      in if path \<in> set (map fst (lg_dir l)) then Inl ErrPlain
         else Inr (l\<lparr>lg_dir := lg_dir l @ [(path, encodeFileHeader h logMagic)],
                     lg_segs := lg_segs l @ [\<lparr>sm_Path = path, sm_Seq = seq, sm_Base = base, sm_End = base\<rparr>],
                     lg_offset := base\<rparr>))"

definition OpenLog :: "64 word \<Rightarrow> dir \<Rightarrow> persist_error + Log" where
  "OpenLog now d0 =
     (case adoptLegacyLog d0 of
        Inl e \<Rightarrow> Inl e
      | Inr d \<Rightarrow>
          (case Segments d of
             Inl e \<Rightarrow> Inl e
           | Inr segs \<Rightarrow>
               let l = \<lparr>lg_dir = d, lg_segs = segs, lg_offset = 0\<rparr>
               in if segs = [] then startSegmentLocked now 1 0 l
                  else Inr (l\<lparr>lg_offset := sm_End (last segs)\<rparr>)))"

definition log_Append :: "int \<Rightarrow> bytes list \<Rightarrow> Log \<Rightarrow> Log \<times> nat" where
  "log_Append db args l =
     (let raw = encodeRecord [] db KindEffect args
      in (l\<lparr>lg_dir := file_append (sm_Path (last (lg_segs l))) raw (lg_dir l),
            lg_offset := lg_offset l + length raw\<rparr>, lg_offset l))"

definition log_Roll :: "64 word \<Rightarrow> Log \<Rightarrow> persist_error + Log" where
  "log_Roll now l =
     (let seq = sm_Seq (last (lg_segs l)) + 1;
          at = lg_offset l
      in startSegmentLocked now seq at
           (l\<lparr>lg_segs := butlast (lg_segs l) @ [(last (lg_segs l))\<lparr>sm_End := at\<rparr>]\<rparr>))"

text \<open>
  \<open>Prune\<close>: the segments kept, the directory, how many files and bytes were removed and
  whether every removal succeeded. When a file is gone already, \<open>Stat\<close> and
  \<open>Remove\<close> both fail and the size of the missing file information is read: a panic.
\<close>

fun prune_loop :: "(bytes \<Rightarrow> bool) \<Rightarrow> nat \<Rightarrow> Segment list \<Rightarrow> dir \<Rightarrow>
    (Segment list \<times> dir \<times> nat \<times> nat \<times> bool) go" where
  "prune_loop removable below [] d = Some ([], d, 0, 0, True)"
| "prune_loop removable below [s] d = Some ([s], d, 0, 0, True)"
| "prune_loop removable below (s # s' # segs) d =
     (if sm_End s > below then
        do { (keep, d', n, freed, ok) \<leftarrow> prune_loop removable below (s' # segs) d; Some (s # keep, d', n, freed, ok) }
      else
        do {
          file \<leftarrow> map_of d (sm_Path s);
          (if \<not> removable (sm_Path s) then
             do { (keep, d', n, freed, ok) \<leftarrow> prune_loop removable below (s' # segs) d; Some (s # keep, d', n, freed, False) }
           else
             do {
               (keep, d', n, freed, ok) \<leftarrow>
                 prune_loop removable below (s' # segs) (filter (\<lambda>(n, f). n \<noteq> sm_Path s) d);
               Some (keep, d', n + 1, freed + length file, ok)
             })
        })"

definition log_Prune :: "(bytes \<Rightarrow> bool) \<Rightarrow> nat \<Rightarrow> Log \<Rightarrow> (Log \<times> nat \<times> nat \<times> bool) go" where
  "log_Prune removable below l =
     do {
       (keep, d, n, freed, ok) \<leftarrow> prune_loop removable below (lg_segs l) (lg_dir l);
       Some (l\<lparr>lg_segs := keep, lg_dir := d\<rparr>, n, freed, ok)
     }"

definition log_Reset :: "64 word \<Rightarrow> nat \<Rightarrow> Log \<Rightarrow> persist_error + Log" where
  "log_Reset now base l =
     startSegmentLocked now 1 base
       (l\<lparr>lg_dir := filter (\<lambda>(n, f). n \<notin> set (map sm_Path (lg_segs l))) (lg_dir l), lg_segs := []\<rparr>)"

definition OldestOffset :: "Log \<Rightarrow> nat" where
  "OldestOffset l = sm_Base (hd (lg_segs l))"

definition log_Segments :: "Log \<Rightarrow> Segment list" where
  "log_Segments l = butlast (lg_segs l) @ [(last (lg_segs l))\<lparr>sm_End := lg_offset l\<rparr>]"

subsection \<open>Recovery\<close>

datatype CorruptPolicy = PolicyTruncate | PolicyRefuse

definition ParseCorruptPolicy :: "bytes \<Rightarrow> CorruptPolicy option" where
  "ParseCorruptPolicy s =
     (if s = lit ''truncate'' then Some PolicyTruncate
      else if s = lit ''refuse'' then Some PolicyRefuse else None)"

datatype recover_error =
  RecoverFailed persist_error | NoSegments | MissingRecords | ErrDiverged | NotAnEffect
  | DamagedBeforeLast persist_error | DamageRefused persist_error

record Result =
  rs_Records :: nat
  rs_Skipped :: nat
  rs_Offset :: nat
  rs_Damage :: "persist_error option"
  rs_Discarded :: nat
  rs_Segments :: nat

text \<open>The loop \<open>for r.Next()\<close> of \<open>replaySegment\<close>.\<close>

function replay_loop :: "nat \<Rightarrow> (nat \<Rightarrow> nat \<Rightarrow> bytes list \<Rightarrow> 'k \<Rightarrow> 'k option) \<Rightarrow> log_reader \<Rightarrow> 'k \<Rightarrow> Result \<Rightarrow>
    (log_reader \<times> 'k \<times> Result \<times> recover_error option) go" where
  "replay_loop from app r k res =
     (case log_Next r of
        None \<Rightarrow> None
      | Some (r', ok) \<Rightarrow>
          if \<not> ok then Some (r', k, res, None)
          else
            let rec = the (rd_rec r')
            in if rec_Kind rec \<noteq> KindEffect then Some (r', k, res, Some NotAnEffect)
               else if rec_Offset rec < from then
                 replay_loop from app r' k (res\<lparr>rs_Skipped := rs_Skipped res + 1, rs_Offset := rd_off r'\<rparr>)
               else
                 (case app (rec_DB rec) (rec_Offset rec) (rec_Args rec) k of
                    None \<Rightarrow> Some (r', k, res, Some ErrDiverged)
                  | Some k' \<Rightarrow>
                      replay_loop from app r' k' (res\<lparr>rs_Records := rs_Records res + 1, rs_Offset := rd_off r'\<rparr>)))"
  by pat_completeness auto
termination
  by (relation "measure (\<lambda>(from, app, r, k, res). length (rd_src r))") (auto dest: log_Next_shrinks)

declare replay_loop.simps [simp del]

text \<open>
  The result is the directory, the keyspace, the counters and either an error or whether the
  segment was damaged.
\<close>

definition replaySegment :: "nat \<Rightarrow> CorruptPolicy \<Rightarrow> (nat \<Rightarrow> nat \<Rightarrow> bytes list \<Rightarrow> 'k \<Rightarrow> 'k option) \<Rightarrow> Segment \<Rightarrow> bool \<Rightarrow>
    dir \<Rightarrow> 'k \<Rightarrow> Result \<Rightarrow> (dir \<times> 'k \<times> Result \<times> (recover_error + bool)) go" where
  "replaySegment from policy app seg lastseg d k res =
     (case map_of d (sm_Path seg) of
        None \<Rightarrow> Some (d, k, res, Inl (RecoverFailed ErrPlain))
      | Some file \<Rightarrow>
          (case newReader file logMagic of
             Inl e \<Rightarrow> Some (d, k, res, Inl (RecoverFailed e))
           | Inr r0 \<Rightarrow>
               do {
                 (r, k', res1, err) \<leftarrow> replay_loop from app r0 k res;
                 (case err of
                    Some e \<Rightarrow> Some (d, k', res1, Inl e)
                  | None \<Rightarrow>
                      (case rd_err r of
                         None \<Rightarrow> Some (d, k', res1, Inr False)
                       | Some e \<Rightarrow>
                           let res2 = res1\<lparr>rs_Damage := Some e\<rparr>
                           in if \<not> lastseg then Some (d, k', res2, Inl (DamagedBeforeLast e))
                              else if policy = PolicyRefuse then Some (d, k', res2, Inl (DamageRefused e))
                              else Some (file_truncate (sm_Path seg) (rd_FileSize r) d, k',
                                     res2\<lparr>rs_Discarded := length file - rd_FileSize r\<rparr>, Inr True)))
               }))"

fun replay_all :: "nat \<Rightarrow> CorruptPolicy \<Rightarrow> (nat \<Rightarrow> nat \<Rightarrow> bytes list \<Rightarrow> 'k \<Rightarrow> 'k option) \<Rightarrow> Segment list \<Rightarrow>
    dir \<Rightarrow> 'k \<Rightarrow> Result \<Rightarrow> (dir \<times> 'k \<times> Result \<times> recover_error option) go" where
  "replay_all from policy app [] d k res = Some (d, k, res, None)"
| "replay_all from policy app (seg # segs) d k res =
     (if sm_End seg \<le> from \<and> segs \<noteq> [] then
        replay_all from policy app segs d k (res\<lparr>rs_Offset := sm_End seg\<rparr>)
      else
        do {
          (d', k', res', r) \<leftarrow> replaySegment from policy app seg (segs = []) d k res;
          (case r of
             Inl e \<Rightarrow> Some (d', k', res', Some e)
           | Inr damaged \<Rightarrow>
               if damaged then Some (d', k', res', None) else replay_all from policy app segs d' k' res')
        })"

definition Recover :: "nat \<Rightarrow> CorruptPolicy \<Rightarrow> (nat \<Rightarrow> nat \<Rightarrow> bytes list \<Rightarrow> 'k \<Rightarrow> 'k option) \<Rightarrow> dir \<Rightarrow> 'k \<Rightarrow>
    (dir \<times> 'k \<times> Result \<times> recover_error option) go" where
  "Recover from policy app d0 k =
     (let res = \<lparr>rs_Records = 0, rs_Skipped = 0, rs_Offset = 0, rs_Damage = None, rs_Discarded = 0, rs_Segments = 0\<rparr>
      in case adoptLegacyLog d0 of
           Inl e \<Rightarrow> Some (d0, k, res, Some (RecoverFailed e))
         | Inr d \<Rightarrow>
             (case Segments d of
                Inl e \<Rightarrow> Some (d, k, res, Some (RecoverFailed e))
              | Inr segs \<Rightarrow>
                  let res = res\<lparr>rs_Segments := length segs\<rparr>
                  in if segs = [] then Some (d, k, res, Some NoSegments)
                     else if sm_Base (hd segs) > from then Some (d, k, res, Some MissingRecords)
                     else replay_all from policy app segs d k (res\<lparr>rs_Offset := sm_Base (hd segs)\<rparr>)))"

subsection \<open>Headers and names\<close>

lemma length_encodeFileHeader: "length (encodeFileHeader h logMagic) = fileHeaderSize"
  by (simp add: encodeFileHeader_def header_body_def fileHeaderSize_def Let_def)

lemma le_word_id: "of_nat (le_val (le_bytes k (unat (w :: 'a :: len word)))) = w" if "256 ^ k = (2 :: nat) ^ LENGTH('a)"
proof -
  have "unat w < 256 ^ k" using that by simp
  then show ?thesis by (simp add: le_val_le_bytes_id)
qed

lemma decode_encode_header:
  assumes "unat (fh_Version h) = fileVersion"
  shows "decodeFileHeader (encodeFileHeader h logMagic @ rest) logMagic = Inr h"
proof -
  let ?b = "header_body logMagic h"
  have m: "take 8 (copy_at (replicate fileHeaderSize 0) 0 logMagic) = logMagic" "length logMagic = 8"
    by (simp_all add: logMagic_def lit_def copy_at_def fileHeaderSize_def)
  have b: "?b = logMagic @ le_bytes 2 (unat (fh_Version h)) @ le_bytes 2 (unat (fh_Flags h)) @
      le_bytes 8 (unat (fh_Base h)) @ le_bytes 8 (unat (fh_Created h))"
    by (simp add: header_body_def m)
  have l: "length ?b = 28" by (simp add: b m)
  have e: "encodeFileHeader h logMagic = ?b @ le_bytes 4 (unat (crc_Checksum ?b))"
    by (simp add: encodeFileHeader_def Let_def)
  define x where "x = encodeFileHeader h logMagic @ rest"
  have "unat (crc_Checksum ?b) < 256 ^ 4" using unsigned_less[of "crc_Checksum ?b"] by simp
  then have c: "le_val (take 4 (drop 28 x)) = unat (crc_Checksum (take 28 x))"
    using l by (simp add: x_def e le_val_le_bytes_id)
  have f: "take 8 x = logMagic" "take 2 (drop 8 x) = le_bytes 2 (unat (fh_Version h))"
      "take 2 (drop 10 x) = le_bytes 2 (unat (fh_Flags h))" "take 8 (drop 12 x) = le_bytes 8 (unat (fh_Base h))"
      "take 8 (drop 20 x) = le_bytes 8 (unat (fh_Created h))"
    by (simp_all add: x_def e b m)
  have "\<not> length x < fileHeaderSize" using length_encodeFileHeader[of h] by (simp add: x_def)
  moreover have w: "of_nat (le_val (le_bytes 2 (unat (fh_Version h)))) = fh_Version h"
      "of_nat (le_val (le_bytes 2 (unat (fh_Flags h)))) = fh_Flags h"
      "of_nat (le_val (le_bytes 8 (unat (fh_Base h)))) = fh_Base h"
      "of_nat (le_val (le_bytes 8 (unat (fh_Created h)))) = fh_Created h"
    by (rule le_word_id, simp)+
  ultimately show ?thesis
    unfolding x_def[symmetric] decodeFileHeader_def c f w by (simp add: assms)
qed

lemma parse_segmentName:
  assumes "0 < seq" "int seq < 2 ^ 63"
  shows "parseSegmentSeq (segmentName seq) = Some (int seq)"
proof -
  define d where "d = replicate (6 - length (dec_digits seq)) Zero @ dec_digits seq"
  have n: "segmentName seq = segmentPrefix @ d @ segmentSuffix"
    by (simp add: segmentName_def d_def Let_def)
  have dig: "list_all is_digit d" using dec_digits_all[of seq] by (auto simp: d_def list_all_iff is_digit_def)
  have z: "dec_val (replicate k Zero @ ds) = dec_val ds" for k ds
    by (induction k) (simp_all add: dval_def)
  have v: "dec_val d = seq" by (simp add: d_def z)
  have "d \<noteq> []" by (simp add: d_def)
  then obtain c cs where c: "d = c # cs" by (cases d) auto
  then have "c \<noteq> Minus" "c \<noteq> Plus" using dig is_digit_not_sign by auto
  then have "ParseInt d = Some (int seq)"
    using dig v assms c by (simp add: ParseInt_def Let_def del: dec_val_Cons)
  then show ?thesis
    using assms(1) by (simp add: parseSegmentSeq_def n has_prefix_def has_suffix_def)
qed

lemma segmentName_inj:
  "0 < a \<Longrightarrow> int a < 2 ^ 63 \<Longrightarrow> 0 < b \<Longrightarrow> int b < 2 ^ 63 \<Longrightarrow> segmentName a = segmentName b \<longleftrightarrow> a = b"
  using parse_segmentName[of a] parse_segmentName[of b] by (metis of_nat_eq_iff option.inject)

lemma segmentName_not_legacy: "0 < seq \<Longrightarrow> int seq < 2 ^ 63 \<Longrightarrow> segmentName seq \<noteq> legacyLogName"
  using parse_segmentName[of seq]
  by (auto simp: parseSegmentSeq_def has_prefix_def segmentPrefix_def legacyLogName_def lit_def)

subsection \<open>The directory of a log\<close>

type_synonym effect = "int \<times> record_kind \<times> bytes list"

definition seg_header :: "64 word \<Rightarrow> nat \<Rightarrow> bytes" where
  "seg_header now base =
     encodeFileHeader \<lparr>fh_Version = of_nat fileVersion, fh_Flags = 0, fh_Base = of_nat base, fh_Created = now\<rparr> logMagic"

text \<open>The files of segments \<open>q\<close>, \<open>q + 1\<close>, ... holding the records \<open>xss\<close> from offset \<open>b\<close>, created at times \<open>c\<close>.\<close>

fun log_files :: "(nat \<Rightarrow> 64 word) \<Rightarrow> nat \<Rightarrow> nat \<Rightarrow> effect list list \<Rightarrow> dir" where
  "log_files c q b [] = []"
| "log_files c q b (xs # xss) =
     (segmentName q, seg_header (c q) b @ enc_stream xs) # log_files c (Suc q) (b + length (enc_stream xs)) xss"

fun seg_list :: "nat \<Rightarrow> nat \<Rightarrow> effect list list \<Rightarrow> Segment list" where
  "seg_list q b [] = []"
| "seg_list q b (xs # xss) =
     \<lparr>sm_Path = segmentName q, sm_Seq = int q, sm_Base = b, sm_End = b + length (enc_stream xs)\<rparr> #
     seg_list (Suc q) (b + length (enc_stream xs)) xss"

definition is_effect :: "effect \<Rightarrow> bool" where
  "is_effect x \<longleftrightarrow> rec_ok x \<and> fst (snd x) = KindEffect"

text \<open>Sequence numbers and offsets that fit their types.\<close>

definition stream_ok :: "nat \<Rightarrow> nat \<Rightarrow> effect list list \<Rightarrow> bool" where
  "stream_ok q b xss \<longleftrightarrow>
     0 < q \<and> int (q + length xss) < 2 ^ 63 \<and> b + length (enc_stream (concat xss)) < 2 ^ 64 \<and>
     list_all (list_all is_effect) xss"

lemma enc_stream_append [simp]: "enc_stream (xs @ ys) = enc_stream xs @ enc_stream ys"
  by (simp add: enc_stream_def)

lemma stream_ok_Cons:
  "stream_ok q b (xs # xss) \<longleftrightarrow>
   0 < q \<and> int q < 2 ^ 63 \<and> b < 2 ^ 64 \<and> list_all is_effect xs \<and> stream_ok (Suc q) (b + length (enc_stream xs)) xss"
  by (auto simp: stream_ok_def)

lemma unat_base: "b < 2 ^ 64 \<Longrightarrow> unat (of_nat b :: 64 word) = b"
  by (simp add: unat_of_nat)

lemma decode_seg_header:
  "decodeFileHeader (seg_header now b @ rest) logMagic =
   Inr \<lparr>fh_Version = of_nat fileVersion, fh_Flags = 0, fh_Base = of_nat b, fh_Created = now\<rparr>"
  unfolding seg_header_def by (rule decode_encode_header) (simp add: fileVersion_def)

lemma length_seg_header [simp]: "length (seg_header now b) = fileHeaderSize"
  by (simp add: seg_header_def length_encodeFileHeader)

lemma readSegmentHeader_file:
  "b + length body < 2 ^ 64 \<Longrightarrow>
   readSegmentHeader path seq (seg_header now b @ body) =
     Inr \<lparr>sm_Path = path, sm_Seq = seq, sm_Base = b, sm_End = b + length body\<rparr>"
  using decode_seg_header[of now b "[]"] by (simp add: readSegmentHeader_def unat_base)

lemma newReader_file:
  "b < 2 ^ 64 \<Longrightarrow> newReader (seg_header now b @ body) logMagic = Inr (NewRecordStream body b)"
  using decode_seg_header[of now b "[]"] by (simp add: newReader_def unat_base)

lemma log_files_append:
  "log_files c q b (xss @ yss) = log_files c q b xss @ log_files c (q + length xss) (b + length (enc_stream (concat xss))) yss"
  by (induction xss arbitrary: q b) (simp_all add: add.assoc)

lemma seg_list_append:
  "seg_list q b (xss @ yss) = seg_list q b xss @ seg_list (q + length xss) (b + length (enc_stream (concat xss))) yss"
  by (induction xss arbitrary: q b) (simp_all add: add.assoc)

lemma collect_files:
  "stream_ok q b xss \<Longrightarrow> collect_segments (log_files c q b xss @ es) =
     (case collect_segments es of Inl e \<Rightarrow> Inl e | Inr segs \<Rightarrow> Inr (seg_list q b xss @ segs))"
proof (induction xss arbitrary: q b)
  case Nil
  then show ?case by (simp split: sum.split)
next
  case (Cons xs xss)
  then have "stream_ok (Suc q) (b + length (enc_stream xs)) xss" "0 < q" "int q < 2 ^ 63" "b + length (enc_stream xs) < 2 ^ 64"
    by (auto simp: stream_ok_Cons) (auto simp: stream_ok_def)
  then show ?case
    using Cons.IH[of "Suc q" "b + length (enc_stream xs)"]
    by (simp add: parse_segmentName readSegmentHeader_file split: sum.split)
qed

lemma seg_list_sorted: "sorted (map sm_Seq (seg_list q b xss)) \<and> (\<forall>s \<in> set (seg_list q b xss). int q \<le> sm_Seq s)"
  by (induction xss arbitrary: q b) fastforce+

lemma seg_list_unbroken: "unbroken (seg_list q b xss)"
proof (induction xss arbitrary: q b)
  case (Cons xs xss)
  then show ?case using Cons[of "Suc q" "b + length (enc_stream xs)"] by (cases xss) simp_all
qed simp

lemma Segments_files: "stream_ok q b xss \<Longrightarrow> Segments (log_files c q b xss) = Inr (seg_list q b xss)"
  using collect_files[of q b xss c "[]"] seg_list_sorted[of q b xss] seg_list_unbroken[of q b xss]
  by (simp add: Segments_def sort_key_id_if_sorted)

lemma log_files_names: "map fst (log_files c q b xss) = map segmentName [q ..< q + length xss]"
proof (induction xss arbitrary: q b)
  case (Cons xs xss)
  have "[q ..< q + length (xs # xss)] = q # [Suc q ..< Suc q + length xss]" by (subst upt_conv_Cons) simp_all
  then show ?case using Cons[of "Suc q"] by (simp del: upt.simps)
qed simp

lemma adopt_none: "legacyLogName \<notin> set (map fst d) \<Longrightarrow> adoptLegacyLog d = Inr d"
  by (simp add: adoptLegacyLog_def)

subsection \<open>Replaying good records\<close>

text \<open>What recovery is to compute: the effects from offset \<open>from\<close> on, in order.\<close>

fun replay_from :: "(nat \<Rightarrow> nat \<Rightarrow> bytes list \<Rightarrow> 'k \<Rightarrow> 'k) \<Rightarrow> nat \<Rightarrow> nat \<Rightarrow> effect list \<Rightarrow> 'k \<Rightarrow> 'k" where
  "replay_from f from off [] k = k"
| "replay_from f from off (x # xs) k =
     replay_from f from (off + length (rec_bytes x)) xs
       (if off < from then k else f (nat (fst x)) off (snd (snd x)) k)"

lemma replay_from_append:
  "replay_from f from off (xs @ ys) k =
   replay_from f from (off + length (enc_stream xs)) ys (replay_from f from off xs k)"
  by (induction xs arbitrary: off k) (simp_all add: add.assoc)

lemma replay_from_skip: "off + length (enc_stream xs) \<le> from \<Longrightarrow> replay_from f from off xs k = k"
proof (induction xs arbitrary: off k)
  case (Cons x xs)
  have "off < from" using Cons.prems length_rec_bytes[of x] by simp
  then show ?case using Cons.IH[of "off + length (rec_bytes x)"] Cons.prems by simp
qed simp

definition total :: "(nat \<Rightarrow> nat \<Rightarrow> bytes list \<Rightarrow> 'k \<Rightarrow> 'k) \<Rightarrow> nat \<Rightarrow> nat \<Rightarrow> bytes list \<Rightarrow> 'k \<Rightarrow> 'k option" where
  "total f db off args k = Some (f db off args k)"

lemma replay_loop_prefix:
  assumes "list_all is_effect xs" "rd_err r = None" "rd_keep r = False" "rd_src r = enc_stream xs @ rest"
  shows "\<exists>rc res'. replay_loop from (total f) r k res =
      replay_loop from (total f) (r\<lparr>rd_src := rest, rd_rec := rc, rd_off := rd_off r + length (enc_stream xs)\<rparr>)
        (replay_from f from (rd_off r) xs k) res' \<and>
    rs_Damage res' = rs_Damage res \<and> rs_Segments res' = rs_Segments res \<and>
    rs_Records res' + rs_Skipped res' = rs_Records res + rs_Skipped res + length xs \<and>
    rs_Offset res' = (if xs = [] then rs_Offset res else rd_off r + length (enc_stream xs))"
  using assms
proof (induction xs arbitrary: r k res)
  case Nil
  have "r\<lparr>rd_src := rest, rd_rec := rd_rec r, rd_off := rd_off r\<rparr> = r" using Nil.prems by simp
  then show ?case by (intro exI[of _ "rd_rec r"] exI[of _ res]) simp
next
  case (Cons x xs)
  obtain db args where x: "x = (db, KindEffect, args)"
    using Cons.prems(1) by (cases x) (auto simp: is_effect_def)
  let ?off = "rd_off r + length (rec_bytes x)"
  let ?r = "r\<lparr>rd_src := enc_stream xs @ rest, rd_rec := Some (rec_at (rd_off r) x), rd_off := ?off\<rparr>"
  let ?k = "if rd_off r < from then k else f (nat db) (rd_off r) args k"
  let ?res = "if rd_off r < from then res\<lparr>rs_Skipped := rs_Skipped res + 1, rs_Offset := ?off\<rparr>
     else res\<lparr>rs_Records := rs_Records res + 1, rs_Offset := ?off\<rparr>"
  have nx: "log_Next r = Some (?r, True)"
    using Cons.prems by (intro log_Next_rec) (simp_all add: is_effect_def)
  have step: "replay_loop from (total f) r k res = replay_loop from (total f) ?r ?k ?res"
    by (subst replay_loop.simps) (simp add: nx x rec_at_def total_def Let_def)
  from Cons.IH[of ?r ?k ?res] Cons.prems
  obtain rc res' where "replay_loop from (total f) ?r ?k ?res =
      replay_loop from (total f) (?r\<lparr>rd_src := rest, rd_rec := rc, rd_off := rd_off ?r + length (enc_stream xs)\<rparr>)
        (replay_from f from (rd_off ?r) xs ?k) res'"
      "rs_Damage res' = rs_Damage ?res" "rs_Segments res' = rs_Segments ?res"
      "rs_Records res' + rs_Skipped res' = rs_Records ?res + rs_Skipped ?res + length xs"
      "rs_Offset res' = (if xs = [] then rs_Offset ?res else rd_off ?r + length (enc_stream xs))"
    by auto
  then show ?case
    by (intro exI[of _ rc] exI[of _ res']) (auto simp: step x add.assoc)
qed

text \<open>The last segment, cut by a crash after \<open>n\<close> bytes of records; \<open>j\<close> of them are complete.\<close>

definition complete :: "nat \<Rightarrow> nat \<Rightarrow> effect list \<Rightarrow> bool" where
  "complete j n xs \<longleftrightarrow>
     j \<le> length xs \<and> length (enc_stream (take j xs)) \<le> n \<and>
     (j < length xs \<longrightarrow> n < length (enc_stream (take (Suc j) xs)))"

lemma torn_tail:
  assumes "list_all rec_ok xs" "n \<le> length (enc_stream xs)"
  obtains j rest where "complete j n xs" "take n (enc_stream xs) = enc_stream (take j xs) @ rest"
    "\<And>r. rd_src r = rest \<Longrightarrow> rd_err r = None \<Longrightarrow>
       \<exists>r1. log_Next r = Some (r1, False) \<and> rd_off r1 = rd_off r \<and> rd_base r1 = rd_base r \<and>
         rd_err r1 = (if length (enc_stream (take j xs)) = n then None else Some ErrTornTail)"
proof -
  obtain j where j: "j \<le> length xs" "length (enc_stream (take j xs)) \<le> n"
    "take n (enc_stream xs) = enc_stream (take j xs) @
       (if j < length xs then take (n - length (enc_stream (take j xs))) (rec_bytes (xs ! j)) else [])"
    "j < length xs \<longrightarrow> n < length (enc_stream (take (Suc j) xs))"
    using take_stream_split[OF assms(2)] by blast
  let ?m = "n - length (enc_stream (take j xs))"
  let ?rest = "if j < length xs then take ?m (rec_bytes (xs ! j)) else []"
  have full: "j = length xs \<Longrightarrow> n = length (enc_stream (take j xs))" using assms(2) j(2) by simp
  have "\<exists>r1. log_Next r = Some (r1, False) \<and> rd_off r1 = rd_off r \<and> rd_base r1 = rd_base r \<and>
         rd_err r1 = (if length (enc_stream (take j xs)) = n then None else Some ErrTornTail)"
    if r: "rd_src r = ?rest" "rd_err r = None" for r
  proof (cases "?m = 0")
    case True
    then have "rd_src r = []" using r(1) by simp
    then show ?thesis using r(2) True j(2) by (simp add: log_Next_def)
  next
    case False
    then have lt: "j < length xs" using j(1) full by fastforce
    have "enc_stream (take (Suc j) xs) = enc_stream (take j xs) @ rec_bytes (xs ! j)"
      using lt by (simp add: take_Suc_conv_app_nth)
    then have "?m < length (rec_bytes (xs ! j))" using j(4) lt False by auto
    moreover have "rec_ok (xs ! j)" using assms(1) lt by (simp add: list_all_length)
    ultimately show ?thesis using log_Next_torn[of "xs ! j" r ?m] r False lt by auto
  qed
  then show ?thesis using that[of j ?rest] j by (simp add: complete_def)
qed

lemma is_effect_rec_ok: "list_all is_effect xs \<Longrightarrow> list_all rec_ok xs"
  by (auto simp: list_all_iff is_effect_def)

lemma replaySegment_torn:
  assumes "map_of d (sm_Path seg) = Some (seg_header now b @ take n (enc_stream xs))" "b < 2 ^ 64"
    and "list_all is_effect xs" "n \<le> length (enc_stream xs)" "rs_Offset res = b" "rs_Damage res = None"
  shows "\<exists>j res'. complete j n xs \<and> rs_Offset res' = b + length (enc_stream (take j xs)) \<and> rs_Segments res' = rs_Segments res \<and>
    rs_Damage res' = (if length (enc_stream (take j xs)) = n then None else Some ErrTornTail) \<and>
    replaySegment from PolicyTruncate (total f) seg True d k res =
      Some (if length (enc_stream (take j xs)) = n then d
            else file_truncate (sm_Path seg) (fileHeaderSize + length (enc_stream (take j xs))) d,
        replay_from f from b (take j xs) k, res', Inr (length (enc_stream (take j xs)) \<noteq> n))"
proof -
  obtain j rest where j: "complete j n xs" "take n (enc_stream xs) = enc_stream (take j xs) @ rest"
    and stop: "\<And>r. rd_src r = rest \<Longrightarrow> rd_err r = None \<Longrightarrow>
       \<exists>r1. log_Next r = Some (r1, False) \<and> rd_off r1 = rd_off r \<and> rd_base r1 = rd_base r \<and>
         rd_err r1 = (if length (enc_stream (take j xs)) = n then None else Some ErrTornTail)"
    using torn_tail[OF is_effect_rec_ok[OF assms(3)] assms(4)] by metis
  let ?body = "take n (enc_stream xs)" and ?ys = "take j xs"
  let ?r = "NewRecordStream ?body b"
  have ys: "list_all is_effect ?ys" using assms(3) by (auto simp: list_all_iff dest: in_set_takeD)
  from replay_loop_prefix[OF ys, of ?r rest "from" f k res] j(2)
  obtain rc res' where r: "replay_loop from (total f) ?r k res =
      replay_loop from (total f) (?r\<lparr>rd_src := rest, rd_rec := rc, rd_off := b + length (enc_stream ?ys)\<rparr>)
        (replay_from f from b ?ys k) res'"
      "rs_Damage res' = None" "rs_Segments res' = rs_Segments res" "rs_Offset res' = b + length (enc_stream ?ys)"
    using assms(5,6) by (auto simp: NewRecordStream_def split: if_splits)
  let ?halt = "?r\<lparr>rd_src := rest, rd_rec := rc, rd_off := b + length (enc_stream ?ys)\<rparr>"
  obtain r1 where r1: "log_Next ?halt = Some (r1, False)" "rd_off r1 = b + length (enc_stream ?ys)" "rd_base r1 = b"
      "rd_err r1 = (if length (enc_stream ?ys) = n then None else Some ErrTornTail)"
    using stop[of ?halt] by (auto simp: NewRecordStream_def)
  have "replay_loop from (total f) ?halt k' res' = Some (r1, k', res', None)" for k'
    by (subst replay_loop.simps) (simp add: r1(1))
  then have loop: "replay_loop from (total f) ?r k res = Some (r1, replay_from f from b ?ys k, res', None)"
    by (rule trans[OF r(1)])
  have fs: "rd_FileSize r1 = fileHeaderSize + length (enc_stream ?ys)" by (simp add: rd_FileSize_def r1)
  have seg: "replaySegment from PolicyTruncate (total f) seg True d k res =
      (if length (enc_stream ?ys) = n then Some (d, replay_from f from b ?ys k, res', Inr False)
       else Some (file_truncate (sm_Path seg) (rd_FileSize r1) d, replay_from f from b ?ys k,
         res'\<lparr>rs_Damage := Some ErrTornTail,
              rs_Discarded := length (seg_header now b @ ?body) - rd_FileSize r1\<rparr>, Inr True))"
    using assms(1) newReader_file[OF assms(2)] loop r1(4) by (simp add: replaySegment_def)
  show ?thesis
  proof (cases "length (enc_stream ?ys) = n")
    case True
    then show ?thesis using j(1) r(2-4) seg by (intro exI[of _ j] exI[of _ res']) simp
  next
    case False
    then show ?thesis
      using j(1) r(3,4) seg fs
      by (intro exI[of _ j] exI[of _ "res'\<lparr>rs_Damage := Some ErrTornTail,
              rs_Discarded := length (seg_header now b @ ?body) - rd_FileSize r1\<rparr>"]) simp
  qed
qed

lemma replaySegment_intact:
  assumes "map_of d (sm_Path seg) = Some (seg_header now b @ enc_stream xs)" "b < 2 ^ 64"
    and "list_all is_effect xs" "rs_Offset res = b"
  shows "\<exists>res'. rs_Offset res' = b + length (enc_stream xs) \<and> rs_Damage res' = rs_Damage res \<and>
    rs_Segments res' = rs_Segments res \<and>
    replaySegment from pol (total f) seg lst d k res = Some (d, replay_from f from b xs k, res', Inr False)"
proof -
  let ?r = "NewRecordStream (enc_stream xs) b"
  obtain rc res' where r: "replay_loop from (total f) ?r k res =
      replay_loop from (total f) (?r\<lparr>rd_src := [], rd_rec := rc, rd_off := b + length (enc_stream xs)\<rparr>)
        (replay_from f from b xs k) res'"
      "rs_Damage res' = rs_Damage res" "rs_Segments res' = rs_Segments res" "rs_Offset res' = b + length (enc_stream xs)"
    using replay_loop_prefix[OF assms(3), of ?r "[]" "from" f k res] assms(4)
    by (auto simp: NewRecordStream_def split: if_splits)
  let ?halt = "?r\<lparr>rd_src := [], rd_rec := rc, rd_off := b + length (enc_stream xs)\<rparr>"
  have "replay_loop from (total f) ?halt k' res' = Some (?halt, k', res', None)" for k'
    by (subst replay_loop.simps) (simp add: log_Next_def NewRecordStream_def)
  then show ?thesis
    using r assms(1) newReader_file[OF assms(2)]
    by (intro exI[of _ res']) (simp add: replaySegment_def NewRecordStream_def)
qed

definition files_in :: "dir \<Rightarrow> dir \<Rightarrow> bool" where
  "files_in d fs \<longleftrightarrow> (\<forall>(n, f) \<in> set fs. map_of d n = Some f)"

lemma replay_all_prefix:
  "stream_ok q b xss \<Longrightarrow> files_in d (log_files c q b xss) \<Longrightarrow> rs_Offset res = b \<Longrightarrow> segs \<noteq> [] \<Longrightarrow>
   \<exists>res'. replay_all from pol (total f) (seg_list q b xss @ segs) d k res =
       replay_all from pol (total f) segs d (replay_from f from b (concat xss) k) res' \<and>
     rs_Offset res' = b + length (enc_stream (concat xss)) \<and> rs_Damage res' = rs_Damage res \<and>
     rs_Segments res' = rs_Segments res"
proof (induction xss arbitrary: q b k res)
  case (Cons xs xss)
  let ?b = "b + length (enc_stream xs)"
  let ?seg = "\<lparr>sm_Path = segmentName q, sm_Seq = int q, sm_Base = b, sm_End = ?b\<rparr>"
  have ok: "stream_ok (Suc q) ?b xss" "list_all is_effect xs" "b < 2 ^ 64"
    using Cons.prems(1) by (simp_all add: stream_ok_Cons)
  have fin: "files_in d (log_files c (Suc q) ?b xss)" "map_of d (sm_Path ?seg) = Some (seg_header (c q) b @ enc_stream xs)"
    using Cons.prems(2) by (simp_all add: files_in_def)
  note IH = Cons.IH[OF ok(1) fin(1) _ Cons.prems(4)]
  show ?case
  proof (cases "?b \<le> from")
    case True
    then show ?thesis
      using IH[of "res\<lparr>rs_Offset := ?b\<rparr>" k] Cons.prems(4) replay_from_skip[OF True, of f k]
      by (simp add: replay_from_append add.assoc)
  next
    case False
    obtain res1 where r1: "rs_Offset res1 = ?b" "rs_Damage res1 = rs_Damage res" "rs_Segments res1 = rs_Segments res"
        "\<And>lst. replaySegment from pol (total f) ?seg False d k res = Some (d, replay_from f from b xs k, res1, Inr False)"
      using replaySegment_intact[OF fin(2) ok(3,2) Cons.prems(3), of "from" pol f False k] by blast
    then show ?thesis
      using IH[of res1 "replay_from f from b xs k"] False Cons.prems(4)
      by (auto simp: replay_from_append add.assoc)
  qed
qed auto

lemma seg_list_snoc:
  "sm_Seq s = int (q + length xss) \<Longrightarrow> sm_Base s = b + length (enc_stream (concat xss)) \<Longrightarrow>
   unbroken (seg_list q b xss @ [s]) \<and> sorted (map sm_Seq (seg_list q b xss @ [s])) \<and>
   (\<forall>x \<in> set (seg_list q b xss @ [s]). int q \<le> sm_Seq x)"
proof (induction xss arbitrary: q b)
  case (Cons xs xss)
  let ?b = "b + length (enc_stream xs)"
  have "unbroken (seg_list (Suc q) ?b xss @ [s]) \<and> sorted (map sm_Seq (seg_list (Suc q) ?b xss @ [s])) \<and>
     (\<forall>x \<in> set (seg_list (Suc q) ?b xss @ [s]). int (Suc q) \<le> sm_Seq x)"
    using Cons.prems by (intro Cons.IH) (simp_all add: add.assoc)
  then show ?case using Cons.prems by (cases xss) fastforce+
qed simp

subsection \<open>Recovery of a whole directory\<close>

lemma names_distinct:
  assumes "stream_ok q b (xss @ [xs])"
  shows "distinct (map segmentName [q ..< q + Suc (length xss)])" "legacyLogName \<notin> set (map segmentName [q ..< q + Suc (length xss)])"
proof -
  have r: "0 < i \<and> int i < 2 ^ 63" if "i \<in> set [q ..< q + Suc (length xss)]" for i
    using assms that by (auto simp: stream_ok_def)
  show "distinct (map segmentName [q ..< q + Suc (length xss)])"
    unfolding distinct_map by (intro conjI distinct_upt inj_onI) (use r segmentName_inj in blast)
  show "legacyLogName \<notin> set (map segmentName [q ..< q + Suc (length xss)])"
    using r segmentName_not_legacy by (metis (no_types, lifting) imageE set_map)
qed

text \<open>A log directory whose last file a crash cut after \<open>n\<close> bytes of records.\<close>

definition cut_files :: "(nat \<Rightarrow> 64 word) \<Rightarrow> nat \<Rightarrow> nat \<Rightarrow> effect list list \<Rightarrow> effect list \<Rightarrow> nat \<Rightarrow> dir" where
  "cut_files c q b xss xs n =
     log_files c q b xss @ [(segmentName (q + length xss),
       seg_header (c (q + length xss)) (b + length (enc_stream (concat xss))) @ take n (enc_stream xs))]"

lemma cut_files_whole: "length (enc_stream xs) \<le> n \<Longrightarrow> cut_files c q b xss xs n = log_files c q b (xss @ [xs])"
  by (simp add: cut_files_def log_files_append)

lemma stream_ok_butlast: "stream_ok q b (xss @ [xs]) \<Longrightarrow> stream_ok q b xss \<and> list_all is_effect xs"
  by (auto simp: stream_ok_def)

lemma truncate_cut:
  assumes "stream_ok q b (xss @ [xs])" "complete j n xs"
  shows "file_truncate (segmentName (q + length xss)) (fileHeaderSize + length (enc_stream (take j xs))) (cut_files c q b xss xs n) =
    cut_files c q b xss (take j xs) (length (enc_stream (take j xs)))"
proof -
  have "segmentName (q + length xss) \<notin> set (map fst (log_files c q b xss))"
    using names_distinct(1)[OF assms(1)] by (simp add: log_files_names)
  then have "map (\<lambda>(m, f). (m, if m = segmentName (q + length xss) then take i f else f)) (log_files c q b xss) =
      log_files c q b xss" for i
    by (intro map_idI) (force simp: image_iff)
  moreover have "take (length (enc_stream (take j xs))) (take n (enc_stream xs)) = enc_stream (take j xs)"
  proof -
    have "enc_stream xs = enc_stream (take j xs) @ enc_stream (drop j xs)"
      by (metis append_take_drop_id enc_stream_append)
    then show ?thesis using assms(2) by (simp add: complete_def min_def)
  qed
  ultimately show ?thesis by (simp add: file_truncate_def cut_files_def)
qed

lemma Recover_cut:
  assumes ok: "stream_ok q b (xss @ [xs])" and b: "b \<le> from" and n: "n \<le> length (enc_stream xs)"
  shows "\<exists>j res. complete j n xs \<and>
    Recover from PolicyTruncate (total f) (cut_files c q b xss xs n) k =
      Some (log_files c q b (xss @ [take j xs]), replay_from f from b (concat xss @ take j xs) k, res, None) \<and>
    rs_Offset res = b + length (enc_stream (concat xss @ take j xs)) \<and>
    rs_Damage res = (if length (enc_stream (take j xs)) = n then None else Some ErrTornTail)"
proof -
  let ?d = "cut_files c q b xss xs n" and ?q = "q + length xss" and ?b = "b + length (enc_stream (concat xss))"
  let ?seg = "\<lparr>sm_Path = segmentName ?q, sm_Seq = int ?q, sm_Base = ?b, sm_End = ?b + n\<rparr>"
  let ?segs = "seg_list q b xss @ [?seg]"
  have nm: "map fst ?d = map segmentName [q ..< q + Suc (length xss)]"
    by (simp add: cut_files_def log_files_names)
  have bb: "?b + n < 2 ^ 64" "?b < 2 ^ 64" and q: "0 < ?q" "int ?q < 2 ^ 63"
    using ok n by (auto simp: stream_ok_def)
  have sok: "stream_ok q b xss" "list_all is_effect xs" using stream_ok_butlast[OF ok] by simp_all
  have "collect_segments ?d = Inr ?segs"
    unfolding cut_files_def
    using collect_files[OF sok(1), of c] q bb n
    by (simp add: parse_segmentName readSegmentHeader_file)
  then have segs: "Segments ?d = Inr ?segs"
    using seg_list_snoc[of ?seg q xss b] by (simp add: Segments_def sort_key_id_if_sorted)
  have ad: "adoptLegacyLog ?d = Inr ?d"
    by (rule adopt_none) (use names_distinct(2)[OF ok] nm in simp)
  have hd: "sm_Base (hd ?segs) = b" by (cases xss) simp_all
  have fin: "files_in ?d (log_files c q b xss)" "map_of ?d (sm_Path ?seg) = Some (seg_header (c ?q) ?b @ take n (enc_stream xs))"
  proof -
    have "distinct (map fst ?d)" using names_distinct(1)[OF ok] nm by simp
    note m = map_of_is_SomeI[OF this]
    have "set (log_files c q b xss) \<subseteq> set ?d" by (auto simp: cut_files_def)
    then show "files_in ?d (log_files c q b xss)" using m by (auto simp: files_in_def)
    show "map_of ?d (sm_Path ?seg) = Some (seg_header (c ?q) ?b @ take n (enc_stream xs))"
      unfolding Segment.select_convs by (rule m) (simp add: cut_files_def)
  qed
  let ?res = "\<lparr>rs_Records = 0, rs_Skipped = 0, rs_Offset = b, rs_Damage = None, rs_Discarded = 0, rs_Segments = length ?segs\<rparr>"
  obtain res1 where r1: "replay_all from PolicyTruncate (total f) ?segs ?d k ?res =
      replay_all from PolicyTruncate (total f) [?seg] ?d (replay_from f from b (concat xss) k) res1"
      "rs_Offset res1 = ?b" "rs_Damage res1 = None"
    using replay_all_prefix[OF sok(1) fin(1), of ?res "[?seg]" "from" PolicyTruncate f k] by auto
  let ?k = "replay_from f from b (concat xss) k"
  obtain j res2 where j: "complete j n xs" "rs_Offset res2 = ?b + length (enc_stream (take j xs))"
      "rs_Damage res2 = (if length (enc_stream (take j xs)) = n then None else Some ErrTornTail)"
      "replaySegment from PolicyTruncate (total f) ?seg True ?d ?k res1 =
        Some (if length (enc_stream (take j xs)) = n then ?d
              else file_truncate (sm_Path ?seg) (fileHeaderSize + length (enc_stream (take j xs))) ?d,
          replay_from f from ?b (take j xs) ?k, res2, Inr (length (enc_stream (take j xs)) \<noteq> n))"
    using replaySegment_torn[OF fin(2) bb(2) sok(2) n r1(2,3), of "from" f ?k] by blast
  have whole: "length (enc_stream (take j xs)) = n \<Longrightarrow> take n (enc_stream xs) = enc_stream (take j xs)"
    by (metis append_eq_conv_conj append_take_drop_id enc_stream_append)
  have d: "(if length (enc_stream (take j xs)) = n then ?d
      else file_truncate (sm_Path ?seg) (fileHeaderSize + length (enc_stream (take j xs))) ?d) = log_files c q b (xss @ [take j xs])"
    using truncate_cut[OF ok j(1), of c] whole cut_files_whole[of "take j xs" "length (enc_stream (take j xs))" c q b xss]
    by (auto simp: cut_files_def log_files_append)
  have "Recover from PolicyTruncate (total f) ?d k =
      Some (log_files c q b (xss @ [take j xs]), replay_from f from ?b (take j xs) ?k, res2, None)"
    using ad segs hd b r1(1) j(4) d by (auto simp: Recover_def Let_def)
  then show ?thesis using j(1-3) by (intro exI[of _ j] exI[of _ res2]) (simp add: replay_from_append)
qed

lemma complete_whole: "complete j (length (enc_stream xs)) xs \<Longrightarrow> take j xs = xs"
proof -
  assume c: "complete j (length (enc_stream xs)) xs"
  have "length (enc_stream (take (Suc j) xs)) \<le> length (enc_stream xs)"
    by (metis append_take_drop_id enc_stream_append length_append le_add1)
  then show ?thesis using c by (auto simp: complete_def)
qed

lemma Recover_whole:
  assumes "stream_ok q b xss" "xss \<noteq> []" "b \<le> from"
  shows "\<exists>res. Recover from PolicyTruncate (total f) (log_files c q b xss) k =
      Some (log_files c q b xss, replay_from f from b (concat xss) k, res, None) \<and>
    rs_Offset res = b + length (enc_stream (concat xss)) \<and> rs_Damage res = None"
proof -
  let ?xs = "last xss" and ?n = "length (enc_stream (last xss))"
  have x: "butlast xss @ [?xs] = xss" using assms(2) by simp
  obtain j res where j: "complete j ?n ?xs"
      "Recover from PolicyTruncate (total f) (cut_files c q b (butlast xss) ?xs ?n) k =
        Some (log_files c q b (butlast xss @ [take j ?xs]), replay_from f from b (concat (butlast xss) @ take j ?xs) k, res, None)"
      "rs_Offset res = b + length (enc_stream (concat (butlast xss) @ take j ?xs))"
      "rs_Damage res = (if length (enc_stream (take j ?xs)) = ?n then None else Some ErrTornTail)"
    using Recover_cut[of q b "butlast xss" ?xs "from" ?n f c k] assms x by auto
  have c: "concat (butlast xss) @ ?xs = concat xss" by (metis x concat.simps(1,2) concat_append append_Nil2)
  then show ?thesis
    using j complete_whole[OF j(1)] x cut_files_whole[of ?xs ?n c q b "butlast xss"] by (intro exI[of _ res]) simp
qed

subsection \<open>Appending, rolling and pruning\<close>

datatype log_op = LAppend int "bytes list" | LRoll "64 word" | LPrune nat

definition log_step :: "log_op \<Rightarrow> Log \<Rightarrow> Log go" where
  "log_step op l =
     (case op of
        LAppend db args \<Rightarrow> Some (fst (log_Append db args l))
      | LRoll now \<Rightarrow> (case log_Roll now l of Inl e \<Rightarrow> None | Inr l' \<Rightarrow> Some l')
      | LPrune below \<Rightarrow> map_option fst (log_Prune (\<lambda>p. True) below l))"

fun log_run :: "log_op list \<Rightarrow> Log \<Rightarrow> Log go" where
  "log_run [] l = Some l"
| "log_run (op # ops) l = do { l' \<leftarrow> log_step op l; log_run ops l' }"

text \<open>The log holds the segments \<open>xss\<close>. The recorded end of the segment being written lags behind.\<close>

definition log_rep :: "Log \<Rightarrow> (nat \<Rightarrow> 64 word) \<Rightarrow> nat \<Rightarrow> nat \<Rightarrow> effect list list \<Rightarrow> effect list \<Rightarrow> bool" where
  "log_rep l c q b xss xs \<longleftrightarrow>
     stream_ok q b (xss @ [xs]) \<and> lg_dir l = log_files c q b (xss @ [xs]) \<and>
     (\<exists>e. lg_segs l = seg_list q b xss @
        [\<lparr>sm_Path = segmentName (q + length xss), sm_Seq = int (q + length xss),
          sm_Base = b + length (enc_stream (concat xss)), sm_End = e\<rparr>]) \<and>
     lg_offset l = b + length (enc_stream (concat xss @ xs))"

lemma OpenLog_empty:
  "\<exists>l. OpenLog now [] = Inr l \<and> log_rep l (\<lambda>i. now) 1 0 [] []"
  by (simp add: OpenLog_def adoptLegacyLog_def Segments_def startSegmentLocked_def log_rep_def stream_ok_def seg_header_def
      Let_def)

lemma log_Append_rep:
  assumes "log_rep l c q b xss xs" "is_effect (db, KindEffect, args)"
    and "lg_offset l + length (rec_bytes (db, KindEffect, args)) < 2 ^ 64"
  shows "log_rep (fst (log_Append db args l)) c q b xss (xs @ [(db, KindEffect, args)]) \<and> snd (log_Append db args l) = lg_offset l"
proof -
  let ?x = "(db, KindEffect, args)" and ?p = "segmentName (q + length xss)"
  have ok: "stream_ok q b (xss @ [xs])" using assms(1) by (simp add: log_rep_def)
  have "?p \<notin> set (map fst (log_files c q b xss))"
    using names_distinct(1)[OF ok] by (simp add: log_files_names)
  then have "map (\<lambda>(m, f). (m, if m = ?p then f @ r else f)) (log_files c q b xss) = log_files c q b xss" for r
    by (intro map_idI) (force simp: image_iff)
  then have "file_append ?p (rec_bytes ?x) (log_files c q b (xss @ [xs])) = log_files c q b (xss @ [xs @ [?x]])"
    by (simp add: file_append_def log_files_append)
  moreover have "stream_ok q b (xss @ [xs @ [?x]])"
    using ok assms by (auto simp: stream_ok_def log_rep_def)
  ultimately show ?thesis
    using assms(1) by (auto simp: log_rep_def log_Append_def Let_def rec_bytes_def)
qed

lemma log_files_cong: "(\<And>i. i < q + length xss \<Longrightarrow> c i = c' i) \<Longrightarrow> log_files c q b xss = log_files c' q b xss"
  by (induction xss arbitrary: q b) simp_all

lemma log_Roll_rep:
  assumes "log_rep l c q b xss xs" "int (q + length xss + 2) < 2 ^ 63"
  shows "\<exists>l'. log_Roll now l = Inr l' \<and> log_rep l' (c(q + length xss + 1 := now)) q b (xss @ [xs]) [] \<and> lg_offset l' = lg_offset l"
proof -
  let ?Q = "q + length xss + 1"
  have ok: "stream_ok q b (xss @ [xs])" "stream_ok q b ((xss @ [xs]) @ [[]])"
    using assms by (auto simp: log_rep_def stream_ok_def)
  obtain e where l: "lg_dir l = log_files c q b (xss @ [xs])"
      "lg_segs l = seg_list q b xss @ [\<lparr>sm_Path = segmentName (q + length xss), sm_Seq = int (q + length xss),
          sm_Base = b + length (enc_stream (concat xss)), sm_End = e\<rparr>]"
      "lg_offset l = b + length (enc_stream (concat xss @ xs))"
    using assms by (auto simp: log_rep_def)
  have "segmentName ?Q \<notin> set (map fst (lg_dir l))"
    using names_distinct(1)[OF ok(2)] l(1) by (auto simp: log_files_names)
  moreover have "nat (int (q + length xss) + 1) = ?Q" by simp
  ultimately have r: "log_Roll now l = Inr (l\<lparr>lg_dir := lg_dir l @ [(segmentName ?Q, seg_header now (lg_offset l))],
      lg_segs := seg_list q b (xss @ [xs]) @ [\<lparr>sm_Path = segmentName ?Q, sm_Seq = int ?Q, sm_Base = lg_offset l, sm_End = lg_offset l\<rparr>],
      lg_offset := lg_offset l\<rparr>)"
    using l(2,3) by (simp add: log_Roll_def startSegmentLocked_def seg_header_def seg_list_append Let_def add.assoc)
  have "log_files (c(?Q := now)) q b ((xss @ [xs]) @ [[]]) = lg_dir l @ [(segmentName ?Q, seg_header now (lg_offset l))]"
    unfolding log_files_append[of _ _ _ "xss @ [xs]"]
    using log_files_cong[of q "xss @ [xs]" "c(?Q := now)" c b] l by (simp add: add.assoc)
  then show ?thesis
    using r ok(2) l(3) by (auto simp: log_rep_def)
qed

lemma prune_nothing:
  "list_all (\<lambda>s. below < sm_End s) segs \<Longrightarrow> prune_loop rm below (segs @ [s]) d = Some (segs @ [s], d, 0, 0, True)"
proof (induction segs)
  case (Cons a segs)
  then show ?case by (cases segs) simp_all
qed simp

lemma seg_list_ends: "s \<in> set (seg_list q b xss) \<Longrightarrow> b \<le> sm_Base s \<and> sm_Base s \<le> sm_End s"
  by (induction xss arbitrary: q b) fastforce+

lemma prune_rep:
  "stream_ok q b (xss @ [xs]) \<Longrightarrow>
   set (map fst rest) \<subseteq> segmentName ` {q + length xss ..< q + length xss + 1} \<Longrightarrow>
   \<exists>m freed. m \<le> length xss \<and> b + length (enc_stream (concat (take m xss))) \<le> max b below \<and>
     prune_loop (\<lambda>p. True) below (seg_list q b xss @ [s]) (log_files c q b xss @ rest) =
       Some (seg_list (q + m) (b + length (enc_stream (concat (take m xss)))) (drop m xss) @ [s],
         log_files c (q + m) (b + length (enc_stream (concat (take m xss)))) (drop m xss) @ rest, m, freed, True)"
proof (induction xss arbitrary: q b)
  case Nil
  then show ?case by (intro exI[of _ 0]) simp
next
  case (Cons x xss)
  let ?b = "b + length (enc_stream x)"
  have ok: "stream_ok (Suc q) ?b (xss @ [xs])" using Cons.prems(1) by (simp add: stream_ok_Cons)
  show ?case
  proof (cases "below < ?b")
    case True
    then have "list_all (\<lambda>s. below < sm_End s) (seg_list q b (x # xss))"
      using seg_list_ends[of _ "Suc q" ?b xss] by (fastforce simp: list_all_iff)
    from prune_nothing[OF this, of "\<lambda>p. True" s] show ?thesis by (intro exI[of _ 0]) simp
  next
    case False
    have dist: "distinct (map segmentName [q ..< q + Suc (length (x # xss))])"
      using names_distinct(1)[of q b "x # xss" xs] Cons.prems(1) by simp
    have split: "[q ..< q + Suc (length (x # xss))] = q # [Suc q ..< Suc q + Suc (length xss)]"
      by (subst upt_conv_Cons) simp_all
    have new: "segmentName q \<notin> segmentName ` {Suc q ..< Suc q + Suc (length xss)}"
      using dist unfolding split by (auto simp del: upt.simps)
    have "segmentName q \<notin> set (map fst (log_files c (Suc q) ?b xss @ rest))"
    proof -
      have "set (map fst (log_files c (Suc q) ?b xss @ rest)) \<subseteq> segmentName ` {Suc q ..< Suc q + Suc (length xss)}"
      proof -
        have "set (map fst (log_files c (Suc q) ?b xss)) = segmentName ` {Suc q ..< Suc q + length xss}"
          by (simp only: log_files_names set_map set_upt)
        moreover have "set (map fst rest) \<subseteq> segmentName ` {Suc q + length xss ..< Suc q + length xss + 1}"
          using Cons.prems(2) by simp
        moreover have "{Suc q ..< Suc q + length xss} \<union> {Suc q + length xss ..< Suc q + length xss + 1} \<subseteq>
            {Suc q ..< Suc q + Suc (length xss)}" by auto
        ultimately show ?thesis unfolding map_append set_append by blast
      qed
      then show ?thesis using new by blast
    qed
    then have flt: "filter (\<lambda>(n, f). n \<noteq> segmentName q) (log_files c (Suc q) ?b xss @ rest) = log_files c (Suc q) ?b xss @ rest"
      by (intro filter_True) (force simp: image_iff)
    obtain m freed where m: "m \<le> length xss" "?b + length (enc_stream (concat (take m xss))) \<le> max ?b below"
        "prune_loop (\<lambda>p. True) below (seg_list (Suc q) ?b xss @ [s]) (log_files c (Suc q) ?b xss @ rest) =
          Some (seg_list (Suc q + m) (?b + length (enc_stream (concat (take m xss)))) (drop m xss) @ [s],
            log_files c (Suc q + m) (?b + length (enc_stream (concat (take m xss)))) (drop m xss) @ rest, m, freed, True)"
      using Cons.IH[OF ok] Cons.prems(2) by auto
    obtain s' ss where ss: "seg_list (Suc q) ?b xss @ [s] = s' # ss" by (cases "seg_list (Suc q) ?b xss @ [s]") auto
    have "prune_loop (\<lambda>p. True) below (seg_list q b (x # xss) @ [s]) (log_files c q b (x # xss) @ rest) =
        Some (seg_list (Suc q + m) (?b + length (enc_stream (concat (take m xss)))) (drop m xss) @ [s],
            log_files c (Suc q + m) (?b + length (enc_stream (concat (take m xss)))) (drop m xss) @ rest, m + 1,
            freed + length (seg_header (c q) b @ enc_stream x), True)"
      using False m(3) flt ss by simp
    then show ?thesis
      using m(1,2) False by (intro exI[of _ "Suc m"] exI[of _ "freed + length (seg_header (c q) b @ enc_stream x)"])
        (simp add: add.assoc)
  qed
qed

lemma log_Prune_rep:
  assumes "log_rep l c q b xss xs"
  shows "\<exists>l' n fr m. log_Prune (\<lambda>p. True) below l = Some (l', n, fr, True) \<and> m \<le> length xss \<and>
    b + length (enc_stream (concat (take m xss))) \<le> max b below \<and>
    log_rep l' c (q + m) (b + length (enc_stream (concat (take m xss)))) (drop m xss) xs \<and> lg_offset l' = lg_offset l"
proof -
  obtain e where l: "stream_ok q b (xss @ [xs])" "lg_dir l = log_files c q b (xss @ [xs])"
      "lg_segs l = seg_list q b xss @ [\<lparr>sm_Path = segmentName (q + length xss), sm_Seq = int (q + length xss),
          sm_Base = b + length (enc_stream (concat xss)), sm_End = e\<rparr>]"
      "lg_offset l = b + length (enc_stream (concat xss @ xs))"
    using assms by (auto simp: log_rep_def)
  let ?s = "\<lparr>sm_Path = segmentName (q + length xss), sm_Seq = int (q + length xss),
          sm_Base = b + length (enc_stream (concat xss)), sm_End = e\<rparr>"
  let ?rest = "log_files c (q + length xss) (b + length (enc_stream (concat xss))) [xs]"
  obtain m fr where m: "m \<le> length xss" "b + length (enc_stream (concat (take m xss))) \<le> max b below"
      "prune_loop (\<lambda>p. True) below (seg_list q b xss @ [?s]) (log_files c q b xss @ ?rest) =
       Some (seg_list (q + m) (b + length (enc_stream (concat (take m xss)))) (drop m xss) @ [?s],
         log_files c (q + m) (b + length (enc_stream (concat (take m xss)))) (drop m xss) @ ?rest, m, fr, True)"
    using prune_rep[OF l(1), of ?rest below ?s c] by auto
  have len: "length (enc_stream (concat xss)) = length (enc_stream (concat (take m xss))) + length (enc_stream (concat (drop m xss)))"
    by (metis append_take_drop_id concat_append enc_stream_append length_append)
  have qm: "q + m + length (drop m xss) = q + length xss" using m(1) by simp
  have all: "list_all (list_all is_effect) (drop m xss)" using l(1) by (auto simp: stream_ok_def list_all_iff dest: in_set_dropD)
  let ?B = "b + length (enc_stream (concat (take m xss)))"
  let ?l = "l\<lparr>lg_segs := seg_list (q + m) ?B (drop m xss) @ [?s], lg_dir := log_files c (q + m) ?B (drop m xss) @ ?rest\<rparr>"
  have b': "?B + length (enc_stream (concat (drop m xss))) = b + length (enc_stream (concat xss))" using len by simp
  have "stream_ok (q + m) ?B (drop m xss @ [xs])"
    using l(1) m(1) len all by (auto simp: stream_ok_def)
  moreover have "log_files c (q + m) ?B (drop m xss) @ ?rest = log_files c (q + m) ?B (drop m xss @ [xs])"
    unfolding log_files_append qm b' by simp
  moreover have "lg_offset l = ?B + length (enc_stream (concat (drop m xss) @ xs))" using l(4) b' by simp
  ultimately have "log_rep ?l c (q + m) ?B (drop m xss) xs"
    unfolding log_rep_def qm b' by auto
  moreover have "lg_dir l = log_files c q b xss @ ?rest" using l(2) by (simp add: log_files_append)
  then have "log_Prune (\<lambda>p. True) below l = Some (?l, m, fr, True)"
    using m(3) l(3) by (simp add: log_Prune_def)
  moreover have "lg_offset ?l = lg_offset l" by simp
  ultimately show ?thesis using m(1,2) by blast
qed

fun appended :: "log_op list \<Rightarrow> effect list" where
  "appended [] = []"
| "appended (LAppend db args # ops) = (db, KindEffect, args) # appended ops"
| "appended (LRoll now # ops) = appended ops"
| "appended (LPrune below # ops) = appended ops"

fun pruned_below :: "log_op list \<Rightarrow> nat" where
  "pruned_below [] = 0"
| "pruned_below (LPrune below # ops) = max below (pruned_below ops)"
| "pruned_below (op # ops) = pruned_below ops"

lemma log_run_rep:
  "log_rep l c q b xss xs \<Longrightarrow> list_all is_effect (appended ops) \<Longrightarrow>
   lg_offset l + length (enc_stream (appended ops)) < 2 ^ 64 \<Longrightarrow> int (q + length xss + length ops + 2) < 2 ^ 63 \<Longrightarrow>
   \<exists>l' c' q' b' xss' xs' old. log_run ops l = Some l' \<and> log_rep l' c' q' b' xss' xs' \<and>
     concat xss @ xs @ appended ops = old @ concat xss' @ xs' \<and> b' = b + length (enc_stream old) \<and>
     b' \<le> max b (pruned_below ops)"
proof (induction ops arbitrary: l c q b xss xs rule: appended.induct)
  case 1
  then show ?case by (intro exI[of _ l] exI[of _ c] exI[of _ q] exI[of _ b] exI[of _ xss] exI[of _ xs] exI[of _ "[]"]) simp
next
  case (2 db args ops)
  let ?l = "fst (log_Append db args l)" and ?x = "(db, KindEffect, args)"
  have rep: "log_rep ?l c q b xss (xs @ [?x])"
    using log_Append_rep[OF "2.prems"(1)] "2.prems"(2,3) by simp
  have off: "lg_offset ?l = lg_offset l + length (rec_bytes ?x)"
    by (simp add: log_Append_def Let_def rec_bytes_def)
  show ?case
    using "2.IH"[OF rep] "2.prems"(2-4) off by (simp add: log_step_def)
next
  case (3 now ops)
  obtain l' where l': "log_Roll now l = Inr l'" "log_rep l' (c(q + length xss + 1 := now)) q b (xss @ [xs]) []"
      "lg_offset l' = lg_offset l"
    using log_Roll_rep[OF "3.prems"(1)] "3.prems"(4) by auto
  show ?case
    using "3.IH"[OF l'(2)] "3.prems"(2-4) l'(1,3) by (simp add: log_step_def)
next
  case (4 below ops)
  obtain l' n fr m where l': "log_Prune (\<lambda>p. True) below l = Some (l', n, fr, True)" "m \<le> length xss"
      "b + length (enc_stream (concat (take m xss))) \<le> max b below"
      "log_rep l' c (q + m) (b + length (enc_stream (concat (take m xss)))) (drop m xss) xs" "lg_offset l' = lg_offset l"
    using log_Prune_rep[OF "4.prems"(1)] by blast
  obtain l2 c2 q2 b2 xss2 xs2 old where r: "log_run ops l' = Some l2" "log_rep l2 c2 q2 b2 xss2 xs2"
      "concat (drop m xss) @ xs @ appended ops = old @ concat xss2 @ xs2"
      "b2 = b + length (enc_stream (concat (take m xss))) + length (enc_stream old)"
      "b2 \<le> max (b + length (enc_stream (concat (take m xss)))) (pruned_below ops)"
    using "4.IH"[OF l'(4)] "4.prems"(2-4) l'(2,5) by auto
  have "concat xss @ xs @ appended ops = (concat (take m xss) @ old) @ concat xss2 @ xs2"
    using r(3) by (metis append.assoc append_take_drop_id concat_append)
  then show ?case
    using r l'(1,3)
    by (intro exI[of _ l2] exI[of _ c2] exI[of _ q2] exI[of _ b2] exI[of _ xss2] exI[of _ xs2] exI[of _ "concat (take m xss) @ old"])
      (auto simp: log_step_def)
qed

subsection \<open>Properties\<close>

text \<open>C9: Whatever byte of the last segment a crash cut the log at, recovery replays exactly the records that are complete
  and not in the snapshot already, in order, over all segments; it cuts the file back to them, and recovering again
  finds a clean log and rebuilds the same state.\<close>

theorem recovery_after_crash:
  assumes "stream_ok q b (xss @ [xs])" "b \<le> from" "n \<le> length (enc_stream xs)"
  shows "\<exists>j d res res2. complete j n xs \<and>
    Recover from PolicyTruncate (total f) (cut_files c q b xss xs n) k =
      Some (d, replay_from f from b (concat xss @ take j xs) k, res, None) \<and>
    rs_Offset res = b + length (enc_stream (concat xss @ take j xs)) \<and>
    rs_Damage res = (if length (enc_stream (take j xs)) = n then None else Some ErrTornTail) \<and>
    Recover from PolicyTruncate (total f) d k =
      Some (d, replay_from f from b (concat xss @ take j xs) k, res2, None) \<and> rs_Damage res2 = None"
proof -
  obtain j res where j: "complete j n xs"
      "Recover from PolicyTruncate (total f) (cut_files c q b xss xs n) k =
        Some (log_files c q b (xss @ [take j xs]), replay_from f from b (concat xss @ take j xs) k, res, None)"
      "rs_Offset res = b + length (enc_stream (concat xss @ take j xs))"
      "rs_Damage res = (if length (enc_stream (take j xs)) = n then None else Some ErrTornTail)"
    using Recover_cut[OF assms, of f c k] by blast
  have "length (enc_stream (take j xs)) \<le> length (enc_stream xs)" using j(1) assms(3) by (simp add: complete_def)
  moreover have "list_all is_effect (take j xs)"
    using assms(1) by (auto simp: stream_ok_def list_all_iff dest: in_set_takeD)
  ultimately have "stream_ok q b (xss @ [take j xs])" using assms(1) by (simp add: stream_ok_def)
  then obtain res2 where "Recover from PolicyTruncate (total f) (log_files c q b (xss @ [take j xs])) k =
      Some (log_files c q b (xss @ [take j xs]), replay_from f from b (concat (xss @ [take j xs])) k, res2, None)"
      "rs_Damage res2 = None"
    using Recover_whole[OF _ _ assms(2), of q "xss @ [take j xs]" f c k] by blast
  then show ?thesis using j
    by (intro exI[of _ j] exI[of _ "log_files c q b (xss @ [take j xs])"] exI[of _ res] exI[of _ res2]) simp
qed

definition one_effect :: effect where "one_effect = (0, KindEffect, [[83, 69, 84], [107]])"

lemma one_effect_ok: "is_effect one_effect"
  by (simp add: is_effect_def one_effect_def rec_ok_def kind_of_def small_payload MaxRecordSize_def)

lemma one_effect_length: "length (enc_stream [one_effect]) = 32"
  by (simp add: one_effect_def rec_bytes_def length_encodeRecord small_payload)

theorem recovery_after_crash_witness:
  "\<exists>j d res. complete j 20 [one_effect] \<and>
    Recover 0 PolicyTruncate (total (\<lambda>db off args k. k + 1)) (cut_files (\<lambda>i. 0) 1 0 [[one_effect]] [one_effect] 20) (0 :: nat) =
      Some (d, replay_from (\<lambda>db off args k. k + 1) 0 0 ([one_effect] @ take j [one_effect]) 0, res, None) \<and>
    rs_Damage res = Some ErrTornTail"
proof -
  have ok: "stream_ok 1 0 ([[one_effect]] @ [[one_effect]])"
    using one_effect_length by (simp add: stream_ok_def one_effect_ok)
  have prem: "(0 :: nat) \<le> 0" "20 \<le> length (enc_stream [one_effect])" using one_effect_length by simp_all
  obtain j d res where j: "complete j 20 [one_effect]"
    "Recover 0 PolicyTruncate (total (\<lambda>db off args k. k + 1)) (cut_files (\<lambda>i. 0) 1 0 [[one_effect]] [one_effect] 20) (0 :: nat) =
      Some (d, replay_from (\<lambda>db off args k. k + 1) 0 0 (concat [[one_effect]] @ take j [one_effect]) 0, res, None)"
    "rs_Damage res = (if length (enc_stream (take j [one_effect])) = 20 then None else Some ErrTornTail)"
    using recovery_after_crash[OF ok prem, of "\<lambda>db off args k. k + 1" "\<lambda>i. 0" 0] by blast
  have "length (enc_stream (take j [one_effect])) \<noteq> 20"
    using one_effect_length by (cases j) simp_all
  then show ?thesis using j by (auto simp del: One_nat_def)
qed

text \<open>C10: Rolling and pruning never lose a record that is still needed: after any sequence of appends, rolls and prunes
  on a new log, recovery from any offset not below what was pruned replays exactly the appended records from that offset on,
  and the log reports no damage and no gap.\<close>

theorem compaction_keeps_records:
  assumes "list_all is_effect (appended ops)" "length (enc_stream (appended ops)) < 2 ^ 64" "int (length ops) + 3 < 2 ^ 63"
    and "pruned_below ops \<le> from"
  shows "\<exists>l0 l res. OpenLog now [] = Inr l0 \<and> log_run ops l0 = Some l \<and>
    Recover from PolicyTruncate (total f) (lg_dir l) k =
      Some (lg_dir l, replay_from f from 0 (appended ops) k, res, None) \<and>
    rs_Offset res = lg_offset l \<and> rs_Damage res = None"
proof -
  obtain l0 where l0: "OpenLog now [] = Inr l0" "log_rep l0 (\<lambda>i. now) 1 0 [] []" using OpenLog_empty by blast
  have off: "lg_offset l0 = 0" using l0(2) by (simp add: log_rep_def)
  obtain l c q b xss xs old where l: "log_run ops l0 = Some l" "log_rep l c q b xss xs"
      "appended ops = old @ concat xss @ xs" "b = length (enc_stream old)" "b \<le> pruned_below ops"
    using log_run_rep[OF l0(2) assms(1)] assms(2,3) off by auto
  have d: "stream_ok q b (xss @ [xs])" "lg_dir l = log_files c q b (xss @ [xs])"
      "lg_offset l = b + length (enc_stream (concat xss @ xs))"
    using l(2) by (auto simp: log_rep_def)
  have "replay_from f from 0 (appended ops) k = replay_from f from b (concat (xss @ [xs])) k"
    using replay_from_skip[of 0 old "from" f k] l(3-5) assms(4) by (simp add: replay_from_append)
  then show ?thesis
    using Recover_whole[OF d(1), of "from" f c k] l0(1) l(1,5) assms(4) d(2,3) by auto
qed

theorem compaction_keeps_records_witness:
  "\<exists>l0 l res. OpenLog 0 [] = Inr l0 \<and> log_run [LAppend 0 [[65]], LRoll 1, LAppend 0 [[66]], LPrune 20] l0 = Some l \<and>
    Recover 20 PolicyTruncate (total (\<lambda>db off args k. args # k)) (lg_dir l) [] =
      Some (lg_dir l, replay_from (\<lambda>db off args k. args # k) 20 0 [(0, KindEffect, [[65]]), (0, KindEffect, [[66]])] [], res, None)"
proof -
  have "list_all is_effect (appended [LAppend 0 [[65]], LRoll 1, LAppend 0 [[66]], LPrune 20])"
      "length (enc_stream (appended [LAppend 0 [[65]], LRoll 1, LAppend 0 [[66]], LPrune 20])) < 2 ^ 64"
    by (simp_all add: is_effect_def rec_ok_def kind_of_def small_payload MaxRecordSize_def rec_bytes_def length_encodeRecord)
  from compaction_keeps_records[OF this, of 20 0 "\<lambda>db off args k. args # k" "[]"] show ?thesis by auto
qed

text \<open>A segment that cannot be deleted is a correctness problem when a later one is deleted: the prune reports one
  removed file and the failure, but the directory then has a gap, and the next start refuses it as corrupt although no
  needed record was lost.\<close>

theorem prune_gap_refused:
  assumes "log_rep l c q b [ys, zs] xs" "zs \<noteq> []" "b + length (enc_stream (ys @ zs)) \<le> below"
  shows "\<exists>l' fr. log_Prune (\<lambda>p. p \<noteq> segmentName q) below l = Some (l', 1, fr, False) \<and> OpenLog now (lg_dir l') = Inl ErrCorrupt"
proof -
  let ?b = "b + length (enc_stream ys)" and ?b' = "b + length (enc_stream ys) + length (enc_stream zs)"
  have ok: "stream_ok q b ([ys, zs] @ [xs])" using assms(1) by (simp add: log_rep_def)
  have q: "0 < q" "int q < 2 ^ 63" "int (Suc q) < 2 ^ 63" "int (Suc (Suc q)) < 2 ^ 63"
    "?b < 2 ^ 64" "?b' + length (enc_stream xs) < 2 ^ 64"
    using ok by (auto simp: stream_ok_def)
  have ne: "segmentName q \<noteq> segmentName (Suc q)" "segmentName (Suc q) \<noteq> segmentName (Suc (Suc q))"
    "segmentName q \<noteq> legacyLogName" "segmentName (Suc (Suc q)) \<noteq> legacyLogName"
    using q segmentName_inj segmentName_not_legacy by auto
  have pos: "0 < length (enc_stream zs)"
    using assms(2) length_rec_bytes[of "hd zs"] by (cases zs) auto
  let ?d = "[(segmentName q, seg_header (c q) b @ enc_stream ys),
    (segmentName (Suc (Suc q)), seg_header (c (Suc (Suc q))) ?b' @ enc_stream xs)]"
  obtain fr where p: "log_Prune (\<lambda>p. p \<noteq> segmentName q) below l = Some (l\<lparr>lg_segs := [hd (lg_segs l), last (lg_segs l)], lg_dir := ?d\<rparr>, 1, fr, False)"
    using assms(1,3) ne by (auto simp: log_rep_def log_Prune_def add.assoc)
  have "collect_segments ?d = Inr [\<lparr>sm_Path = segmentName q, sm_Seq = int q, sm_Base = b, sm_End = ?b\<rparr>,
      \<lparr>sm_Path = segmentName (Suc (Suc q)), sm_Seq = int (Suc (Suc q)), sm_Base = ?b', sm_End = ?b' + length (enc_stream xs)\<rparr>]"
    using q by (simp add: parse_segmentName readSegmentHeader_file del: of_nat_Suc)
  then have "Segments ?d = Inl ErrCorrupt" using pos by (simp add: Segments_def)
  moreover have "adoptLegacyLog ?d = Inr ?d" using ne by (intro adopt_none) auto
  ultimately have "OpenLog now ?d = Inl ErrCorrupt" by (simp add: OpenLog_def)
  then show ?thesis using p by auto
qed

theorem prune_gap_refused_witness:
  "\<exists>l l' fr. log_rep l (\<lambda>i. 0) 1 0 [[one_effect], [one_effect]] [] \<and>
    log_Prune (\<lambda>p. p \<noteq> segmentName 1) 64 l = Some (l', 1, fr, False) \<and> OpenLog 0 (lg_dir l') = Inl ErrCorrupt"
proof -
  let ?l = "\<lparr>lg_dir = log_files (\<lambda>i. 0) 1 0 ([[one_effect], [one_effect]] @ [[]]),
    lg_segs = seg_list 1 0 [[one_effect], [one_effect]] @ [\<lparr>sm_Path = segmentName 3, sm_Seq = 3, sm_Base = 64, sm_End = 64\<rparr>],
    lg_offset = 64\<rparr>"
  have two: "length (enc_stream [one_effect, one_effect]) = 64"
    using one_effect_length enc_stream_append[of "[one_effect]" "[one_effect]"] by simp
  then have l: "log_rep ?l (\<lambda>i. 0) 1 0 [[one_effect], [one_effect]] []"
    by (simp add: log_rep_def stream_ok_def one_effect_ok numeral_3_eq_3)
  have "[one_effect] \<noteq> []" "0 + length (enc_stream ([one_effect] @ [one_effect])) \<le> 64" using two by simp_all
  from prune_gap_refused[OF l this, of 0] show ?thesis using l by blast
qed

end
