(* ===== verification/Skiplist.thy ===== *)
theory Skiplist
  imports Simulation "HOL-Library.List_Lexorder" "HOL-Library.Product_Lexorder"
begin

text \<open>
  The skip list behind sorted sets, \<open>engine/skiplist.go\<close>. Nodes live in a store, a
  list that only grows (the garbage collector is what reclaims a node); a pointer is an index
  into it, node 0 is the head. Reading a node or a level that does not exist is a panic. A
  score is an element of a linear order: a NaN never reaches the list, and the two zeros
  compare equal. The loop that follows forward pointers carries fuel, one unit per node of
  the store.
\<close>

subsection \<open>Data\<close>

definition skiplistMaxLevel :: nat where "skiplistMaxLevel = 32"
definition skiplistBranch :: "32 word" where "skiplistBranch = 4"

record slLevel =
  lv_next :: "nat option"
  lv_span :: int

record 'f slNode =
  nd_member :: bytes
  nd_score :: 'f
  nd_back :: "nat option"
  nd_levels :: "slLevel list"

record 'f skiplist =
  sl_nodes :: "'f slNode list"
  sl_tail :: "nat option"
  sl_length :: int
  sl_level :: nat
  sl_rng :: "32 word"

definition no_level :: slLevel where "no_level = \<lparr>lv_next = None, lv_span = 0\<rparr>"

definition newSkiplist :: "('f :: zero) skiplist" where
  "newSkiplist =
     \<lparr>sl_nodes = [\<lparr>nd_member = [], nd_score = 0, nd_back = None, nd_levels = replicate skiplistMaxLevel no_level\<rparr>],
      sl_tail = None, sl_length = 0, sl_level = 1, sl_rng = 0x9e3779b9\<rparr>"

text \<open>\<open>randomLevel\<close>: at most 31 promotions are left at level 1.\<close>

definition xorshift :: "32 word \<Rightarrow> 32 word" where
  "xorshift r =
     (let r = xor r (push_bit 13 r); r = xor r (drop_bit 17 r) in xor r (push_bit 5 r))"

fun random_level :: "nat \<Rightarrow> nat \<Rightarrow> 32 word \<Rightarrow> nat \<times> 32 word" where
  "random_level 0 level rng = (level, rng)"
| "random_level (Suc k) level rng =
     (let rng = xorshift rng
      in if rng mod skiplistBranch \<noteq> 0 then (level, rng) else random_level k (Suc level) rng)"

definition randomLevel :: "'f skiplist \<Rightarrow> 'f skiplist \<times> nat" where
  "randomLevel sl =
     (let (level, rng) = random_level (skiplistMaxLevel - 1) 1 (sl_rng sl) in (sl\<lparr>sl_rng := rng\<rparr>, level))"

definition before :: "('f :: linorder) slNode \<Rightarrow> 'f \<Rightarrow> bytes \<Rightarrow> bool" where
  "before n score member \<longleftrightarrow> (if nd_score n \<noteq> score then nd_score n < score else nd_member n < member)"

definition after :: "('f :: linorder) slNode \<Rightarrow> 'f \<Rightarrow> bytes \<Rightarrow> bool" where
  "after n score member \<longleftrightarrow> (if nd_score n \<noteq> score then nd_score n > score else nd_member n > member)"

subsection \<open>Following pointers\<close>

definition node_at :: "'f slNode list \<Rightarrow> nat \<Rightarrow> 'f slNode go" where
  "node_at ns p = (if p < length ns then Some (ns ! p) else None)"

definition level_at :: "'f slNode list \<Rightarrow> nat \<Rightarrow> nat \<Rightarrow> slLevel go" where
  "level_at ns p i =
     do { n \<leftarrow> node_at ns p; if i < length (nd_levels n) then Some (nd_levels n ! i) else None }"

definition set_level :: "'f slNode list \<Rightarrow> nat \<Rightarrow> nat \<Rightarrow> slLevel \<Rightarrow> 'f slNode list" where
  "set_level ns p i l = ns[p := (ns ! p)\<lparr>nd_levels := (nd_levels (ns ! p))[i := l]\<rparr>]"

definition set_back :: "'f slNode list \<Rightarrow> nat \<Rightarrow> nat option \<Rightarrow> 'f slNode list" where
  "set_back ns p b = ns[p := (ns ! p)\<lparr>nd_back := b\<rparr>]"

text \<open>
  The inner loop of every search, \<open>for x.levels[i].next != nil && ...\<close>: it goes on
  while the condition holds of the next node and of the rank it would reach.
\<close>

fun sl_forward :: "nat \<Rightarrow> 'f slNode list \<Rightarrow> ('f slNode \<Rightarrow> int \<Rightarrow> bool) \<Rightarrow> nat \<Rightarrow> nat \<Rightarrow> int \<Rightarrow> (nat \<times> int) go" where
  "sl_forward 0 ns c i x r = None"
| "sl_forward (Suc fuel) ns c i x r =
     do {
       l \<leftarrow> level_at ns x i;
       (case lv_next l of
          None \<Rightarrow> Some (x, r)
        | Some y \<Rightarrow>
            do {
              n \<leftarrow> node_at ns y;
              if c n (r + lv_span l) then sl_forward fuel ns c i y (r + lv_span l) else Some (x, r)
            })
     }"

text \<open>The outer loop, from the level below \<open>i\<close> down; \<open>update\<close> and \<open>rank\<close> are its list, lowest level first.\<close>

fun sl_descend :: "'f slNode list \<Rightarrow> ('f slNode \<Rightarrow> int \<Rightarrow> bool) \<Rightarrow> nat \<Rightarrow> nat \<Rightarrow> int \<Rightarrow> (nat \<times> int) list go" where
  "sl_descend ns c 0 x r = Some []"
| "sl_descend ns c (Suc i) x r =
     do {
       (y, r') \<leftarrow> sl_forward (length ns) ns c i x r;
       us \<leftarrow> sl_descend ns c i y r';
       Some (us @ [(y, r')])
     }"

subsection \<open>Insert and delete\<close>

fun raise_levels :: "int \<Rightarrow> nat list \<Rightarrow> 'f slNode list \<Rightarrow> 'f slNode list go" where
  "raise_levels len [] ns = Some ns"
| "raise_levels len (i # is) ns =
     do { l \<leftarrow> level_at ns 0 i; raise_levels len is (set_level ns 0 i (l\<lparr>lv_span := len\<rparr>)) }"

fun link_levels :: "(nat \<times> int) list \<Rightarrow> nat \<Rightarrow> nat list \<Rightarrow> 'f slNode list \<Rightarrow> 'f slNode list go" where
  "link_levels us p [] ns = Some ns"
| "link_levels us p (i # is) ns =
     (let (x, r) = us ! i; r0 = snd (us ! 0)
      in do {
        l \<leftarrow> level_at ns x i;
        link_levels us p is
          (set_level (set_level ns p i \<lparr>lv_next = lv_next l, lv_span = lv_span l - (r0 - r)\<rparr>)
             x i \<lparr>lv_next = Some p, lv_span = (r0 - r) + 1\<rparr>)
      })"

fun widen_levels :: "(nat \<times> int) list \<Rightarrow> nat list \<Rightarrow> 'f slNode list \<Rightarrow> 'f slNode list go" where
  "widen_levels us [] ns = Some ns"
| "widen_levels us (i # is) ns =
     (let x = fst (us ! i)
      in do { l \<leftarrow> level_at ns x i; widen_levels us is (set_level ns x i (l\<lparr>lv_span := lv_span l + 1\<rparr>)) })"

definition sl_Insert :: "'f \<Rightarrow> bytes \<Rightarrow> ('f :: linorder) skiplist \<Rightarrow> ('f skiplist \<times> nat) go" where
  "sl_Insert score member sl0 =
     do {
       us \<leftarrow> sl_descend (sl_nodes sl0) (\<lambda>n r. before n score member) (sl_level sl0) 0 0;
       let (sl, level) = randomLevel sl0;
       let us = us @ replicate (level - sl_level sl) (0, 0);
       ns \<leftarrow> raise_levels (sl_length sl) [sl_level sl ..< level] (sl_nodes sl);
       let top = max level (sl_level sl);
       let p = length ns;
       let ns = ns @ [\<lparr>nd_member = member, nd_score = score, nd_back = None, nd_levels = replicate level no_level\<rparr>];
       ns \<leftarrow> link_levels us p [0 ..< level] ns;
       ns \<leftarrow> widen_levels us [level ..< top] ns;
       let ns = (if fst (us ! 0) \<noteq> 0 then set_back ns p (Some (fst (us ! 0))) else ns);
       l \<leftarrow> level_at ns p 0;
       (case lv_next l of
          Some y \<Rightarrow> Some (sl\<lparr>sl_nodes := set_back ns y (Some p), sl_level := top, sl_length := sl_length sl + 1\<rparr>, p)
        | None \<Rightarrow> Some (sl\<lparr>sl_nodes := ns, sl_level := top, sl_tail := Some p, sl_length := sl_length sl + 1\<rparr>, p))
     }"

fun unlink_levels :: "nat list \<Rightarrow> nat \<Rightarrow> nat list \<Rightarrow> 'f slNode list \<Rightarrow> 'f slNode list go" where
  "unlink_levels us p [] ns = Some ns"
| "unlink_levels us p (i # is) ns =
     do {
       l \<leftarrow> level_at ns (us ! i) i;
       (if lv_next l = Some p then
          do {
            k \<leftarrow> level_at ns p i;
            unlink_levels us p is
              (set_level ns (us ! i) i \<lparr>lv_next = lv_next k, lv_span = lv_span l + (lv_span k - 1)\<rparr>)
          }
        else unlink_levels us p is (set_level ns (us ! i) i (l\<lparr>lv_span := lv_span l - 1\<rparr>)))
     }"

fun drop_levels :: "'f slNode list \<Rightarrow> nat \<Rightarrow> nat go" where
  "drop_levels ns 0 = Some 0"
| "drop_levels ns (Suc k) =
     (if k = 0 then Some 1
      else do { l \<leftarrow> level_at ns 0 k; if lv_next l = None then drop_levels ns k else Some (Suc k) })"

definition sl_unlink :: "nat \<Rightarrow> nat list \<Rightarrow> 'f skiplist \<Rightarrow> 'f skiplist go" where
  "sl_unlink p us sl =
     do {
       ns \<leftarrow> unlink_levels us p [0 ..< sl_level sl] (sl_nodes sl);
       l \<leftarrow> level_at ns p 0;
       n \<leftarrow> node_at ns p;
       let (ns, tail) =
         (case lv_next l of Some y \<Rightarrow> (set_back ns y (nd_back n), sl_tail sl) | None \<Rightarrow> (ns, nd_back n));
       level \<leftarrow> drop_levels ns (sl_level sl);
       Some (sl\<lparr>sl_nodes := ns, sl_tail := tail, sl_level := level, sl_length := sl_length sl - 1\<rparr>)
     }"

definition sl_Delete :: "'f \<Rightarrow> bytes \<Rightarrow> ('f :: linorder) skiplist \<Rightarrow> ('f skiplist \<times> bool) go" where
  "sl_Delete score member sl =
     do {
       us \<leftarrow> sl_descend (sl_nodes sl) (\<lambda>n r. before n score member) (sl_level sl) 0 0;
       l \<leftarrow> level_at (sl_nodes sl) (fst (us ! 0)) 0;
       (case lv_next l of
          None \<Rightarrow> Some (sl, False)
        | Some p \<Rightarrow>
            do {
              n \<leftarrow> node_at (sl_nodes sl) p;
              if nd_score n \<noteq> score \<or> nd_member n \<noteq> member then Some (sl, False)
              else do { sl' \<leftarrow> sl_unlink p (map fst us) sl; Some (sl', True) }
            })
     }"

subsection \<open>Ranks\<close>

fun rank_loop :: "'f \<Rightarrow> bytes \<Rightarrow> ('f :: linorder) slNode list \<Rightarrow> nat \<Rightarrow> nat \<Rightarrow> int \<Rightarrow> int go" where
  "rank_loop score member ns 0 x r = Some 0"
| "rank_loop score member ns (Suc i) x r =
     do {
       (y, r') \<leftarrow> sl_forward (length ns) ns (\<lambda>n r. \<not> after n score member) i x r;
       n \<leftarrow> node_at ns y;
       if y \<noteq> 0 \<and> nd_score n = score \<and> nd_member n = member then Some r'
       else rank_loop score member ns i y r'
     }"

definition sl_Rank :: "'f \<Rightarrow> bytes \<Rightarrow> ('f :: linorder) skiplist \<Rightarrow> int go" where
  "sl_Rank score member sl = rank_loop score member (sl_nodes sl) (sl_level sl) 0 0"

fun node_loop :: "int \<Rightarrow> 'f slNode list \<Rightarrow> nat \<Rightarrow> nat \<Rightarrow> int \<Rightarrow> nat option go" where
  "node_loop rank ns 0 x r = Some None"
| "node_loop rank ns (Suc i) x r =
     do {
       (y, r') \<leftarrow> sl_forward (length ns) ns (\<lambda>n r. r \<le> rank) i x r;
       if r' = rank then Some (Some y) else node_loop rank ns i y r'
     }"

definition NodeByRank :: "int \<Rightarrow> 'f skiplist \<Rightarrow> nat option go" where
  "NodeByRank rank sl =
     (if rank \<le> 0 \<or> rank > sl_length sl then Some None else node_loop rank (sl_nodes sl) (sl_level sl) 0 0)"

definition sl_First :: "'f skiplist \<Rightarrow> nat option go" where
  "sl_First sl = map_option lv_next (level_at (sl_nodes sl) 0 0)"

definition sl_Last :: "'f skiplist \<Rightarrow> nat option" where
  "sl_Last sl = sl_tail sl"

subsection \<open>Ranges\<close>

record 'f ScoreRange =
  sr_Min :: 'f
  sr_Max :: 'f
  sr_MinExcl :: bool
  sr_MaxExcl :: bool

definition sr_empty :: "('f :: linorder) ScoreRange \<Rightarrow> bool" where
  "sr_empty r \<longleftrightarrow> (if sr_Min r > sr_Max r then True else sr_Min r = sr_Max r \<and> (sr_MinExcl r \<or> sr_MaxExcl r))"

definition sr_aboveMin :: "('f :: linorder) ScoreRange \<Rightarrow> 'f \<Rightarrow> bool" where
  "sr_aboveMin r score \<longleftrightarrow> (if sr_MinExcl r then score > sr_Min r else score \<ge> sr_Min r)"

definition sr_belowMax :: "('f :: linorder) ScoreRange \<Rightarrow> 'f \<Rightarrow> bool" where
  "sr_belowMax r score \<longleftrightarrow> (if sr_MaxExcl r then score < sr_Max r else score \<le> sr_Max r)"

definition sr_Contains :: "('f :: linorder) ScoreRange \<Rightarrow> 'f \<Rightarrow> bool" where
  "sr_Contains r score \<longleftrightarrow> sr_aboveMin r score \<and> sr_belowMax r score"

record LexRange =
  lr_Min :: bytes
  lr_Max :: bytes
  lr_MinExcl :: bool
  lr_MaxExcl :: bool
  lr_MinInf :: bool
  lr_MaxInf :: bool

definition lr_aboveMin :: "LexRange \<Rightarrow> bytes \<Rightarrow> bool" where
  "lr_aboveMin r member \<longleftrightarrow>
     (if lr_MinInf r then True else if lr_MinExcl r then member > lr_Min r else member \<ge> lr_Min r)"

definition lr_belowMax :: "LexRange \<Rightarrow> bytes \<Rightarrow> bool" where
  "lr_belowMax r member \<longleftrightarrow>
     (if lr_MaxInf r then True else if lr_MaxExcl r then member < lr_Max r else member \<le> lr_Max r)"

definition lr_Contains :: "LexRange \<Rightarrow> bytes \<Rightarrow> bool" where
  "lr_Contains r member \<longleftrightarrow> lr_aboveMin r member \<and> lr_belowMax r member"

definition lr_empty :: "LexRange \<Rightarrow> bool" where
  "lr_empty r \<longleftrightarrow>
     (if lr_MinInf r \<or> lr_MaxInf r then False
      else lr_Min r > lr_Max r \<or> (lr_Min r = lr_Max r \<and> (lr_MinExcl r \<or> lr_MaxExcl r)))"

text \<open>The last node the search passes, and the one after it.\<close>

definition sl_seek :: "('f slNode \<Rightarrow> bool) \<Rightarrow> 'f skiplist \<Rightarrow> nat go" where
  "sl_seek c sl =
     do { us \<leftarrow> sl_descend (sl_nodes sl) (\<lambda>n r. c n) (sl_level sl) 0 0; Some (fst (us ! 0)) }"

definition first_in :: "('f slNode \<Rightarrow> bool) \<Rightarrow> ('f slNode \<Rightarrow> bool) \<Rightarrow> 'f skiplist \<Rightarrow> nat option go" where
  "first_in lo hi sl =
     do {
       x \<leftarrow> sl_seek (\<lambda>n. \<not> lo n) sl;
       l \<leftarrow> level_at (sl_nodes sl) x 0;
       (case lv_next l of
          None \<Rightarrow> Some None
        | Some y \<Rightarrow> do { n \<leftarrow> node_at (sl_nodes sl) y; Some (if \<not> hi n then None else Some y) })
     }"

definition last_in :: "('f slNode \<Rightarrow> bool) \<Rightarrow> ('f slNode \<Rightarrow> bool) \<Rightarrow> 'f skiplist \<Rightarrow> nat option go" where
  "last_in lo hi sl =
     do {
       x \<leftarrow> sl_seek hi sl;
       (if x = 0 then Some None
        else do { n \<leftarrow> node_at (sl_nodes sl) x; Some (if \<not> lo n then None else Some x) })
     }"

definition FirstInScoreRange :: "('f :: linorder) ScoreRange \<Rightarrow> 'f skiplist \<Rightarrow> nat option go" where
  "FirstInScoreRange r sl =
     (if sr_empty r then Some None
      else first_in (\<lambda>n. sr_aboveMin r (nd_score n)) (\<lambda>n. sr_belowMax r (nd_score n)) sl)"

definition LastInScoreRange :: "('f :: linorder) ScoreRange \<Rightarrow> 'f skiplist \<Rightarrow> nat option go" where
  "LastInScoreRange r sl =
     (if sr_empty r then Some None
      else last_in (\<lambda>n. sr_aboveMin r (nd_score n)) (\<lambda>n. sr_belowMax r (nd_score n)) sl)"

definition FirstInLexRange :: "LexRange \<Rightarrow> 'f skiplist \<Rightarrow> nat option go" where
  "FirstInLexRange r sl =
     (if lr_empty r then Some None
      else first_in (\<lambda>n. lr_aboveMin r (nd_member n)) (\<lambda>n. lr_belowMax r (nd_member n)) sl)"

definition LastInLexRange :: "LexRange \<Rightarrow> 'f skiplist \<Rightarrow> nat option go" where
  "LastInLexRange r sl =
     (if lr_empty r then Some None
      else last_in (\<lambda>n. lr_aboveMin r (nd_member n)) (\<lambda>n. lr_belowMax r (nd_member n)) sl)"

text \<open>The walk along level 0 that the sorted set uses, from the node after \<open>x\<close>.\<close>

fun sl_walk :: "nat \<Rightarrow> 'f slNode list \<Rightarrow> nat option \<Rightarrow> ('f \<times> bytes) list go" where
  "sl_walk fuel ns None = Some []"
| "sl_walk 0 ns (Some x) = None"
| "sl_walk (Suc fuel) ns (Some x) =
     do {
       n \<leftarrow> node_at ns x;
       l \<leftarrow> level_at ns x 0;
       rest \<leftarrow> sl_walk fuel ns (lv_next l);
       Some ((nd_score n, nd_member n) # rest)
     }"

definition sl_entries :: "'f skiplist \<Rightarrow> ('f \<times> bytes) list go" where
  "sl_entries sl = do { x \<leftarrow> sl_First sl; sl_walk (length (sl_nodes sl)) (sl_nodes sl) x }"


subsection \<open>The self-check\<close>

datatype sl_error =
  LevelRange | LengthMismatch | EmptyTail | TailWrong | OutOfOrder | BackWrong | FirstBack
  | SpanWrong nat | NegativeSpan nat | RankWrong | NodeWrong | NodeRange

fun sl_chain :: "nat \<Rightarrow> 'f slNode list \<Rightarrow> nat option \<Rightarrow> nat list go" where
  "sl_chain fuel ns None = Some []"
| "sl_chain 0 ns (Some x) = None"
| "sl_chain (Suc fuel) ns (Some x) =
     do { l \<leftarrow> level_at ns x 0; rest \<leftarrow> sl_chain fuel ns (lv_next l); Some (x # rest) }"

fun check_order :: "('f :: linorder) slNode list \<Rightarrow> nat option \<Rightarrow> nat list \<Rightarrow> sl_error option go" where
  "check_order ns prev [] = Some None"
| "check_order ns prev (x # xs) =
     do {
       n \<leftarrow> node_at ns x;
       (case prev of
          None \<Rightarrow> if nd_back n \<noteq> None then Some (Some FirstBack) else check_order ns (Some x) xs
        | Some p \<Rightarrow>
            do {
              pn \<leftarrow> node_at ns p;
              if nd_score pn > nd_score n \<or> (nd_score pn = nd_score n \<and> nd_member pn > nd_member n) then Some (Some OutOfOrder)
              else if nd_back n \<noteq> Some p then Some (Some BackWrong)
              else check_order ns (Some x) xs
            })
     }"

definition sl_pos :: "nat list \<Rightarrow> nat \<Rightarrow> int" where
  "sl_pos seq p = (if p \<in> set seq then int (length (takeWhile (\<lambda>q. q \<noteq> p) seq)) + 1 else 0)"

fun check_span :: "nat \<Rightarrow> 'f slNode list \<Rightarrow> nat list \<Rightarrow> nat \<Rightarrow> nat \<Rightarrow> int \<Rightarrow> sl_error option go" where
  "check_span 0 ns seq level x at = None"
| "check_span (Suc fuel) ns seq level x at =
     do {
       l \<leftarrow> level_at ns x level;
       (case lv_next l of
          None \<Rightarrow> Some (if lv_span l < 0 then Some (NegativeSpan level) else None)
        | Some y \<Rightarrow>
            if lv_span l \<noteq> sl_pos seq y - at then Some (Some (SpanWrong level))
            else check_span fuel ns seq level y (sl_pos seq y))
     }"

fun check_spans :: "'f slNode list \<Rightarrow> nat list \<Rightarrow> nat list \<Rightarrow> sl_error option go" where
  "check_spans ns seq [] = Some None"
| "check_spans ns seq (level # levels) =
     do {
       e \<leftarrow> check_span (length ns) ns seq level 0 0;
       if e \<noteq> None then Some e else check_spans ns seq levels
     }"

fun check_ranks :: "('f :: linorder) skiplist \<Rightarrow> int \<Rightarrow> nat list \<Rightarrow> sl_error option go" where
  "check_ranks sl i [] = Some None"
| "check_ranks sl i (x # xs) =
     do {
       n \<leftarrow> node_at (sl_nodes sl) x;
       r \<leftarrow> sl_Rank (nd_score n) (nd_member n) sl;
       if r \<noteq> i + 1 then Some (Some RankWrong)
       else do {
         y \<leftarrow> NodeByRank (i + 1) sl;
         if y \<noteq> Some x then Some (Some NodeWrong) else check_ranks sl (i + 1) xs
       }
     }"

definition checkInvariants :: "('f :: linorder) skiplist \<Rightarrow> sl_error option go" where
  "checkInvariants sl =
     (if sl_level sl < 1 \<or> sl_level sl > skiplistMaxLevel then Some (Some LevelRange)
      else do {
        x \<leftarrow> sl_First sl;
        seq \<leftarrow> sl_chain (length (sl_nodes sl)) (sl_nodes sl) x;
        if int (length seq) \<noteq> sl_length sl then Some (Some LengthMismatch)
        else if sl_length sl = 0 then Some (if sl_tail sl \<noteq> None then Some EmptyTail else None)
        else if sl_tail sl \<noteq> Some (last seq) then Some (Some TailWrong)
        else do {
          e \<leftarrow> check_order (sl_nodes sl) None seq;
          if e \<noteq> None then Some e
          else do {
            e \<leftarrow> check_spans (sl_nodes sl) seq [0 ..< sl_level sl];
            if e \<noteq> None then Some e
            else do {
              e \<leftarrow> check_ranks sl 0 seq;
              if e \<noteq> None then Some e
              else do {
                a \<leftarrow> NodeByRank 0 sl;
                b \<leftarrow> NodeByRank (sl_length sl + 1) sl;
                Some (if a \<noteq> None \<or> b \<noteq> None then Some NodeRange else None)
              }
            }
          }
        }
      })"

subsection \<open>The sequence a skip list holds\<close>

text \<open>
  \<open>next_tall h i ps\<close>: the first of the nodes \<open>ps\<close> that is taller than level
  \<open>i\<close>, and how many nodes a pointer from just before \<open>ps\<close> to it spans; a
  pointer to nothing spans all of them.
\<close>

fun next_tall :: "(nat \<Rightarrow> nat) \<Rightarrow> nat \<Rightarrow> nat list \<Rightarrow> nat option \<times> nat" where
  "next_tall h i [] = (None, 0)"
| "next_tall h i (p # ps) = (if i < h p then (Some p, 1) else (fst (next_tall h i ps), Suc (snd (next_tall h i ps))))"

lemma next_tall_none: "\<forall>p \<in> set ps. h p \<le> i \<Longrightarrow> next_tall h i ps = (None, length ps)"
  by (induction ps) (auto simp: not_less)

lemma next_tall_skip:
  "\<forall>p \<in> set ps. h p \<le> i \<Longrightarrow>
   next_tall h i (ps @ qs) = (fst (next_tall h i qs), length ps + snd (next_tall h i qs))"
  by (induction ps) (auto simp: not_less)

lemma next_tall_stays: "p \<in> set ps \<Longrightarrow> i < h p \<Longrightarrow> next_tall h i (ps @ qs) = next_tall h i ps"
  by (induction ps) auto

lemma next_tall_cong: "(\<And>p. p \<in> set ps \<Longrightarrow> h p = h' p) \<Longrightarrow> next_tall h i ps = next_tall h' i ps"
  by (induction ps) auto

lemma next_tall_cases:
  obtains "next_tall h i ps = (None, length ps)" "\<forall>j < length ps. h (ps ! j) \<le> i"
  | j where "next_tall h i ps = (Some (ps ! j), Suc j)" "j < length ps" "i < h (ps ! j)" "\<forall>j' < j. h (ps ! j') \<le> i"
proof (induction ps arbitrary: thesis)
  case (Cons p ps)
  show ?case
  proof (cases "i < h p")
    case True
    then show ?thesis using Cons.prems(2)[of 0] by simp
  next
    case False
    show ?thesis
    proof (rule Cons.IH)
      assume "next_tall h i ps = (None, length ps)" "\<forall>j < length ps. h (ps ! j) \<le> i"
      then show thesis using False Cons.prems(1) by (auto simp: nth_Cons split: nat.split)
    next
      fix j assume "next_tall h i ps = (Some (ps ! j), Suc j)" "j < length ps" "i < h (ps ! j)" "\<forall>j' < j. h (ps ! j') \<le> i"
      then show thesis using False Cons.prems(2)[of "Suc j"] by (auto simp: nth_Cons split: nat.split)
    qed
  qed
qed simp

definition tall :: "'f slNode list \<Rightarrow> nat \<Rightarrow> nat" where
  "tall ns p = length (nd_levels (ns ! p))"

definition lvl :: "'f slNode list \<Rightarrow> nat \<Rightarrow> nat \<Rightarrow> slLevel" where
  "lvl ns p i = nd_levels (ns ! p) ! i"

definition key_of :: "'f slNode list \<Rightarrow> nat \<Rightarrow> 'f \<times> bytes" where
  "key_of ns p = (nd_score (ns ! p), nd_member (ns ! p))"

text \<open>Every pointer leads to the next node of its height; spans count on the levels in use.\<close>

definition levels_ok :: "'f slNode list \<Rightarrow> nat \<Rightarrow> nat list \<Rightarrow> bool" where
  "levels_ok ns L seq \<longleftrightarrow>
     (\<forall>k \<le> length seq. \<forall>i < tall ns ((0 # seq) ! k).
        lv_next (lvl ns ((0 # seq) ! k) i) = fst (next_tall (tall ns) i (drop k seq)) \<and>
        (i < L \<longrightarrow> lv_span (lvl ns ((0 # seq) ! k) i) = int (snd (next_tall (tall ns) i (drop k seq)))))"

definition backs_ok :: "'f slNode list \<Rightarrow> nat list \<Rightarrow> bool" where
  "backs_ok ns seq \<longleftrightarrow>
     (\<forall>k < length seq. nd_back (ns ! (seq ! k)) = (if k = 0 then None else Some (seq ! (k - 1))))"

definition nodes_ok :: "('f :: linorder) slNode list \<Rightarrow> nat \<Rightarrow> nat list \<Rightarrow> bool" where
  "nodes_ok ns L seq \<longleftrightarrow>
     ns \<noteq> [] \<and> tall ns 0 = skiplistMaxLevel \<and> distinct (0 # seq) \<and> (\<forall>p \<in> set seq. p < length ns) \<and>
     sorted_wrt (<) (map (key_of ns) seq) \<and> 1 \<le> L \<and> L \<le> skiplistMaxLevel \<and>
     (\<forall>p \<in> set seq. 1 \<le> tall ns p \<and> tall ns p \<le> L) \<and> levels_ok ns L seq"

definition sl_rep :: "('f :: linorder) skiplist \<Rightarrow> nat list \<Rightarrow> bool" where
  "sl_rep sl seq \<longleftrightarrow>
     nodes_ok (sl_nodes sl) (sl_level sl) seq \<and> backs_ok (sl_nodes sl) seq \<and>
     sl_tail sl = (if seq = [] then None else Some (last seq)) \<and> sl_length sl = int (length seq)"

lemma level_at_eq: "p < length ns \<Longrightarrow> i < tall ns p \<Longrightarrow> level_at ns p i = Some (lvl ns p i)"
  by (simp add: level_at_def node_at_def tall_def lvl_def)

lemma newSkiplist_rep: "sl_rep newSkiplist []"
  by (simp add: sl_rep_def nodes_ok_def newSkiplist_def tall_def levels_ok_def backs_ok_def lvl_def no_level_def skiplistMaxLevel_def)

subsection \<open>Searching\<close>

text \<open>
  \<open>stop_at ns seq m i k\<close>: position \<open>k\<close> (0 is the head) is the last one not
  beyond \<open>m\<close> whose node is taller than level \<open>i\<close>.
\<close>

definition stop_at :: "'f slNode list \<Rightarrow> nat list \<Rightarrow> nat \<Rightarrow> nat \<Rightarrow> nat \<Rightarrow> bool" where
  "stop_at ns seq m i k \<longleftrightarrow>
     k \<le> m \<and> i < tall ns ((0 # seq) ! k) \<and> (\<forall>j. k \<le> j \<and> j < m \<longrightarrow> tall ns (seq ! j) \<le> i)"

lemma ids_lt: "nodes_ok ns L seq \<Longrightarrow> k \<le> length seq \<Longrightarrow> (0 # seq) ! k < length ns"
  by (cases k) (auto simp: nodes_ok_def dest: nth_mem)

lemma sl_forward_stops:
  assumes "nodes_ok ns L seq" "i < L" "m \<le> length seq" "k \<le> m" "i < tall ns ((0 # seq) ! k)" "m - k < fuel"
    and c: "\<And>j. k \<le> j \<Longrightarrow> j < length seq \<Longrightarrow> c (ns ! (seq ! j)) (int (Suc j)) \<longleftrightarrow> j < m"
  shows "\<exists>k'. k \<le> k' \<and> stop_at ns seq m i k' \<and> sl_forward fuel ns c i ((0 # seq) ! k) (int k) = Some ((0 # seq) ! k', int k')"
  using assms(4-)
proof (induction fuel arbitrary: k)
  case (Suc fuel)
  let ?l = "lvl ns ((0 # seq) ! k) i"
  have l: "lv_next ?l = fst (next_tall (tall ns) i (drop k seq))" "lv_span ?l = int (snd (next_tall (tall ns) i (drop k seq)))"
    using assms(1-3) Suc.prems(1,2) by (auto simp: nodes_ok_def levels_ok_def)
  have la: "level_at ns ((0 # seq) ! k) i = Some ?l"
    using ids_lt[OF assms(1)] assms(3) Suc.prems(1,2) by (intro level_at_eq) simp_all
  show ?case
  proof (rule next_tall_cases[of "tall ns" i "drop k seq"])
    assume n: "next_tall (tall ns) i (drop k seq) = (None, length (drop k seq))" "\<forall>j < length (drop k seq). tall ns (drop k seq ! j) \<le> i"
    have "tall ns (seq ! j) \<le> i" if "k \<le> j" "j < m" for j
      using n(2)[rule_format, of "j - k"] that assms(3) by simp
    then show ?thesis using Suc.prems(1,2) l n(1) la by (intro exI[of _ k]) (simp add: stop_at_def)
  next
    fix j assume n: "next_tall (tall ns) i (drop k seq) = (Some (drop k seq ! j), Suc j)" "j < length (drop k seq)"
      "i < tall ns (drop k seq ! j)" "\<forall>j' < j. tall ns (drop k seq ! j') \<le> i"
    have y: "drop k seq ! j = seq ! (k + j)" "k + j < length seq" using n(2) by auto
    have na: "node_at ns (seq ! (k + j)) = Some (ns ! (seq ! (k + j)))"
      using ids_lt[OF assms(1), of "Suc (k + j)"] y(2) by (simp add: node_at_def)
    have eq: "sl_forward (Suc fuel) ns c i ((0 # seq) ! k) (int k) =
        (if k + j < m then sl_forward fuel ns c i ((0 # seq) ! Suc (k + j)) (int (Suc (k + j))) else Some ((0 # seq) ! k, int k))"
      using la l n(1) y na Suc.prems(4)[of "k + j"] by (simp add: algebra_simps)
    show ?thesis
    proof (cases "k + j < m")
      case True
      then have pre: "Suc (k + j) \<le> m" "i < tall ns ((0 # seq) ! Suc (k + j))" "m - Suc (k + j) < fuel"
        using n(3) y Suc.prems(3) by auto
      have "c (ns ! (seq ! j')) (int (Suc j')) \<longleftrightarrow> j' < m" if "Suc (k + j) \<le> j'" "j' < length seq" for j'
        using Suc.prems(4)[of j'] that by simp
      from Suc.IH[OF pre this] obtain k' where "Suc (k + j) \<le> k'" "stop_at ns seq m i k'"
          "sl_forward fuel ns c i ((0 # seq) ! Suc (k + j)) (int (Suc (k + j))) = Some ((0 # seq) ! k', int k')"
        by blast
      then show ?thesis using eq True by (intro exI[of _ k']) simp
    next
      case False
      have "tall ns (seq ! j') \<le> i" if "k \<le> j'" "j' < m" for j'
        using n(4)[rule_format, of "j' - k"] that False y(2) by simp
      then show ?thesis using eq False Suc.prems(1,2) by (intro exI[of _ k]) (simp add: stop_at_def)
    qed
  qed
qed simp

lemma nodes_ok_room: "nodes_ok ns L seq \<Longrightarrow> length seq < length ns"
proof -
  assume a: "nodes_ok ns L seq"
  then have "card (set (0 # seq)) \<le> card {..<length ns}" by (intro card_mono) (auto simp: nodes_ok_def)
  then show ?thesis using a distinct_card[of "0 # seq"] by (simp add: nodes_ok_def)
qed

lemma sl_descend_stops:
  assumes "nodes_ok ns L seq" "m \<le> length seq"
    and c: "\<And>j. j < length seq \<Longrightarrow> c (ns ! (seq ! j)) (int (Suc j)) \<longleftrightarrow> j < m"
  shows "i \<le> L \<Longrightarrow> k \<le> m \<Longrightarrow> i \<le> tall ns ((0 # seq) ! k) \<Longrightarrow>
    \<exists>ks. length ks = i \<and> (\<forall>j < i. stop_at ns seq m j (ks ! j)) \<and>
      sl_descend ns c i ((0 # seq) ! k) (int k) = Some (map (\<lambda>k. ((0 # seq) ! k, int k)) ks)"
proof (induction i arbitrary: k)
  case (Suc i)
  have "m - k < length ns" using nodes_ok_room[OF assms(1)] assms(2) by simp
  then obtain k' where k': "k \<le> k'" "stop_at ns seq m i k'"
      "sl_forward (length ns) ns c i ((0 # seq) ! k) (int k) = Some ((0 # seq) ! k', int k')"
    using sl_forward_stops[OF assms(1) _ assms(2) Suc.prems(2), of i "length ns" c] Suc.prems(1,3) c by auto
  obtain ks where ks: "length ks = i" "\<forall>j < i. stop_at ns seq m j (ks ! j)"
      "sl_descend ns c i ((0 # seq) ! k') (int k') = Some (map (\<lambda>k. ((0 # seq) ! k, int k)) ks)"
    using Suc.IH[of k'] k'(2) Suc.prems(1) by (auto simp: stop_at_def)
  show ?case
    using ks k' by (intro exI[of _ "ks @ [k']"]) (auto simp: nth_append less_Suc_eq)
qed simp

lemma stop_at_bottom: "nodes_ok ns L seq \<Longrightarrow> m \<le> length seq \<Longrightarrow> stop_at ns seq m 0 k \<Longrightarrow> k = m"
proof (rule ccontr)
  assume a: "nodes_ok ns L seq" "m \<le> length seq" "stop_at ns seq m 0 k" "k \<noteq> m"
  then have "tall ns (seq ! k) \<le> 0" "k < length seq" by (auto simp: stop_at_def)
  then show False using a(1) by (auto simp: nodes_ok_def dest!: nth_mem)
qed

subsection \<open>Changing levels\<close>

definition shape :: "'f slNode \<Rightarrow> 'f \<times> bytes \<times> nat option \<times> nat" where
  "shape n = (nd_score n, nd_member n, nd_back n, length (nd_levels n))"

definition sl_shape :: "'f slNode list \<Rightarrow> 'f slNode list \<Rightarrow> bool" where
  "sl_shape ns ns' \<longleftrightarrow> map shape ns' = map shape ns"

lemma sl_shape_length: "sl_shape ns ns' \<Longrightarrow> length ns' = length ns"
  by (metis sl_shape_def length_map)

lemma sl_shape_nth:
  assumes "sl_shape ns ns'" "p < length ns"
  shows "tall ns' p = tall ns p \<and> key_of ns' p = key_of ns p \<and> nd_back (ns' ! p) = nd_back (ns ! p)"
proof -
  have "map shape ns' ! p = map shape ns ! p" using assms(1) by (simp add: sl_shape_def)
  then have "shape (ns' ! p) = shape (ns ! p)" using assms(2) sl_shape_length[OF assms(1)] by simp
  then show ?thesis by (simp add: shape_def tall_def key_of_def)
qed

lemma sl_shape_trans: "sl_shape a b \<Longrightarrow> sl_shape b c \<Longrightarrow> sl_shape a c"
  by (simp add: sl_shape_def)

lemma sl_shape_set_level: "sl_shape ns (set_level ns p i l)"
proof (cases "p < length ns")
  case True
  then have "shape ((ns ! p)\<lparr>nd_levels := (nd_levels (ns ! p))[i := l]\<rparr>) = map shape ns ! p"
    by (simp add: shape_def)
  then show ?thesis by (simp only: sl_shape_def set_level_def map_update list_update_id)
qed (simp add: sl_shape_def set_level_def list_update_beyond)

lemma lvl_set_level:
  "lvl (set_level ns p i l) x j = (if x = p \<and> j = i \<and> p < length ns \<and> i < tall ns p then l else lvl ns x j)"
  by (cases "p < length ns"; cases "x = p"; cases "j = i"; cases "i < tall ns p") (simp_all add: lvl_def set_level_def tall_def not_less list_update_beyond)

lemma set_level_simps [simp]:
  "length (set_level ns p i l) = length ns"
  "x < length ns \<Longrightarrow> tall (set_level ns p i l) x = tall ns x"
  using sl_shape_length[OF sl_shape_set_level] sl_shape_nth[OF sl_shape_set_level] by blast+

lemma raise_levels_eq:
  assumes "distinct is" "\<forall>i \<in> set is. i < tall ns 0" "ns \<noteq> []"
  shows "\<exists>ns'. raise_levels len is ns = Some ns' \<and> sl_shape ns ns' \<and>
    (\<forall>x i. lvl ns' x i = (if i \<in> set is \<and> x = 0 then (lvl ns 0 i)\<lparr>lv_span := len\<rparr> else lvl ns x i))"
  using assms
proof (induction "is" arbitrary: ns)
  case (Cons j "is")
  let ?ns = "set_level ns 0 j ((lvl ns 0 j)\<lparr>lv_span := len\<rparr>)"
  have "distinct is" "\<forall>i \<in> set is. i < tall ?ns 0" "?ns \<noteq> []" using Cons.prems by (auto simp flip: length_greater_0_conv)
  from Cons.IH[OF this] obtain ns' where ns': "raise_levels len is ?ns = Some ns'" "sl_shape ?ns ns'"
    "\<forall>x i. lvl ns' x i = (if i \<in> set is \<and> x = 0 then (lvl ?ns 0 i)\<lparr>lv_span := len\<rparr> else lvl ?ns x i)" by blast
  have "raise_levels len (j # is) ns = Some ns'" using Cons.prems ns'(1) by (simp add: level_at_eq)
  then show ?case
    using ns'(2,3) Cons.prems sl_shape_trans[OF sl_shape_set_level ns'(2)] by (intro exI[of _ ns']) (auto simp: lvl_set_level)
qed (simp add: sl_shape_def)

lemma link_levels_eq:
  assumes "distinct is" "p < length ns"
    and "\<forall>i \<in> set is. fst (us ! i) < length ns \<and> fst (us ! i) \<noteq> p \<and> i < tall ns (fst (us ! i)) \<and> i < tall ns p"
  shows "\<exists>ns'. link_levels us p is ns = Some ns' \<and> sl_shape ns ns' \<and>
    (\<forall>x i. lvl ns' x i =
      (if i \<in> set is \<and> x = fst (us ! i) then \<lparr>lv_next = Some p, lv_span = (snd (us ! 0) - snd (us ! i)) + 1\<rparr>
       else if i \<in> set is \<and> x = p then
         \<lparr>lv_next = lv_next (lvl ns (fst (us ! i)) i),
          lv_span = lv_span (lvl ns (fst (us ! i)) i) - (snd (us ! 0) - snd (us ! i))\<rparr>
       else lvl ns x i))"
  using assms
proof (induction "is" arbitrary: ns)
  case (Cons j "is")
  let ?l = "lvl ns (fst (us ! j)) j"
  let ?n1 = "set_level ns p j \<lparr>lv_next = lv_next ?l, lv_span = lv_span ?l - (snd (us ! 0) - snd (us ! j))\<rparr>"
  let ?ns = "set_level ?n1 (fst (us ! j)) j \<lparr>lv_next = Some p, lv_span = (snd (us ! 0) - snd (us ! j)) + 1\<rparr>"
  have pre: "distinct is" "p < length ?ns"
    "\<forall>i \<in> set is. fst (us ! i) < length ?ns \<and> fst (us ! i) \<noteq> p \<and> i < tall ?ns (fst (us ! i)) \<and> i < tall ?ns p"
    using Cons.prems by auto
  from Cons.IH[OF pre] obtain ns' where ns': "link_levels us p is ?ns = Some ns'" "sl_shape ?ns ns'"
    "\<forall>x i. lvl ns' x i =
      (if i \<in> set is \<and> x = fst (us ! i) then \<lparr>lv_next = Some p, lv_span = (snd (us ! 0) - snd (us ! i)) + 1\<rparr>
       else if i \<in> set is \<and> x = p then
         \<lparr>lv_next = lv_next (lvl ?ns (fst (us ! i)) i),
          lv_span = lv_span (lvl ?ns (fst (us ! i)) i) - (snd (us ! 0) - snd (us ! i))\<rparr>
       else lvl ?ns x i)" by blast
  have "link_levels us p (j # is) ns = Some ns'"
    using Cons.prems ns'(1) by (simp add: level_at_eq case_prod_unfold Let_def)
  moreover have "sl_shape ns ns'"
    using sl_shape_trans[OF sl_shape_trans[OF sl_shape_set_level sl_shape_set_level] ns'(2)] .
  ultimately show ?case
    using ns'(3) Cons.prems by (intro exI[of _ ns']) (auto simp: lvl_set_level)
qed (simp add: sl_shape_def)

lemma widen_levels_eq:
  assumes "distinct is" "\<forall>i \<in> set is. fst (us ! i) < length ns \<and> i < tall ns (fst (us ! i))"
  shows "\<exists>ns'. widen_levels us is ns = Some ns' \<and> sl_shape ns ns' \<and>
    (\<forall>x i. lvl ns' x i =
      (if i \<in> set is \<and> x = fst (us ! i) then (lvl ns x i)\<lparr>lv_span := lv_span (lvl ns x i) + 1\<rparr> else lvl ns x i))"
  using assms
proof (induction "is" arbitrary: ns)
  case (Cons j "is")
  let ?l = "lvl ns (fst (us ! j)) j"
  let ?ns = "set_level ns (fst (us ! j)) j (?l\<lparr>lv_span := lv_span ?l + 1\<rparr>)"
  have "distinct is" "\<forall>i \<in> set is. fst (us ! i) < length ?ns \<and> i < tall ?ns (fst (us ! i))" using Cons.prems by auto
  from Cons.IH[OF this] obtain ns' where ns': "widen_levels us is ?ns = Some ns'" "sl_shape ?ns ns'"
    "\<forall>x i. lvl ns' x i =
      (if i \<in> set is \<and> x = fst (us ! i) then (lvl ?ns x i)\<lparr>lv_span := lv_span (lvl ?ns x i) + 1\<rparr> else lvl ?ns x i)" by blast
  have "widen_levels us (j # is) ns = Some ns'" using Cons.prems ns'(1) by (simp add: level_at_eq Let_def)
  then show ?case
    using ns'(3) Cons.prems sl_shape_trans[OF sl_shape_set_level ns'(2)] by (intro exI[of _ ns']) (auto simp: lvl_set_level)
qed (simp add: sl_shape_def)

lemma unlink_levels_eq:
  assumes "distinct is" "p < length ns"
    and "\<forall>i \<in> set is. us ! i < length ns \<and> us ! i \<noteq> p \<and> i < tall ns (us ! i) \<and>
      (lv_next (lvl ns (us ! i) i) = Some p \<longrightarrow> i < tall ns p)"
  shows "\<exists>ns'. unlink_levels us p is ns = Some ns' \<and> sl_shape ns ns' \<and>
    (\<forall>x i. lvl ns' x i =
      (if i \<in> set is \<and> x = us ! i then
         if lv_next (lvl ns x i) = Some p then
           \<lparr>lv_next = lv_next (lvl ns p i), lv_span = lv_span (lvl ns x i) + (lv_span (lvl ns p i) - 1)\<rparr>
         else (lvl ns x i)\<lparr>lv_span := lv_span (lvl ns x i) - 1\<rparr>
       else lvl ns x i))"
  using assms
proof (induction "is" arbitrary: ns)
  case (Cons j "is")
  let ?l = "lvl ns (us ! j) j" and ?k = "lvl ns p j"
  let ?new = "if lv_next ?l = Some p then \<lparr>lv_next = lv_next ?k, lv_span = lv_span ?l + (lv_span ?k - 1)\<rparr>
    else ?l\<lparr>lv_span := lv_span ?l - 1\<rparr>"
  let ?ns = "set_level ns (us ! j) j ?new"
  have pre: "distinct is" "p < length ?ns"
    "\<forall>i \<in> set is. us ! i < length ?ns \<and> us ! i \<noteq> p \<and> i < tall ?ns (us ! i) \<and>
      (lv_next (lvl ?ns (us ! i) i) = Some p \<longrightarrow> i < tall ?ns p)"
    using Cons.prems by (auto simp: lvl_set_level)
  from Cons.IH[OF pre] obtain ns' where ns': "unlink_levels us p is ?ns = Some ns'" "sl_shape ?ns ns'"
    "\<forall>x i. lvl ns' x i =
      (if i \<in> set is \<and> x = us ! i then
         if lv_next (lvl ?ns x i) = Some p then
           \<lparr>lv_next = lv_next (lvl ?ns p i), lv_span = lv_span (lvl ?ns x i) + (lv_span (lvl ?ns p i) - 1)\<rparr>
         else (lvl ?ns x i)\<lparr>lv_span := lv_span (lvl ?ns x i) - 1\<rparr>
       else lvl ?ns x i)" by blast
  have "unlink_levels us p (j # is) ns = Some ns'"
    using Cons.prems ns'(1) by (auto simp: level_at_eq)
  then show ?case
    using ns'(3) Cons.prems sl_shape_trans[OF sl_shape_set_level ns'(2)] by (intro exI[of _ ns']) (auto simp: lvl_set_level)
qed (simp add: sl_shape_def)

subsection \<open>Inserting a node\<close>

text \<open>What a search for position \<open>m\<close> knows: its stop on every level in use.\<close>

definition stops :: "'f slNode list \<Rightarrow> nat list \<Rightarrow> nat \<Rightarrow> nat \<Rightarrow> nat list \<Rightarrow> bool" where
  "stops ns seq m L ks \<longleftrightarrow> length ks = L \<and> (\<forall>i < L. stop_at ns seq m i (ks ! i))"

lemma stops_cases:
  assumes "stops ns seq m L ks" "i < L" "k \<le> m" "m \<le> length seq" "i < tall ns ((0 # seq) ! k)"
  obtains "k = ks ! i" "\<forall>q \<in> set (take (m - k) (drop k seq)). tall ns q \<le> i"
  | q where "k < ks ! i" "q \<in> set (take (m - k) (drop k seq))" "i < tall ns q"
proof -
  have st: "ks ! i \<le> m" "i < tall ns ((0 # seq) ! (ks ! i))" "\<forall>j. ks ! i \<le> j \<and> j < m \<longrightarrow> tall ns (seq ! j) \<le> i"
    using assms(1,2) by (auto simp: stops_def stop_at_def)
  consider "k = ks ! i" | "k < ks ! i" | "ks ! i < k" by linarith
  then show thesis
  proof cases
    case 1
    have "\<forall>q \<in> set (take (m - k) (drop k seq)). tall ns q \<le> i"
      using st(3) 1 assms(4) by (auto simp: in_set_conv_nth)
    then show thesis using that(1) 1 by blast
  next
    case 2
    then have "seq ! (ks ! i - 1) \<in> set (take (m - k) (drop k seq))"
      unfolding in_set_conv_nth using st(1) assms(4) by (intro exI[of _ "ks ! i - 1 - k"]) auto
    moreover have "i < tall ns (seq ! (ks ! i - 1))" using st(2) 2 by (cases "ks ! i") auto
    ultimately show thesis using that(2) 2 by blast
  next
    case 3
    then have "ks ! i \<le> k - 1 \<and> k - 1 < m" using assms(3) by linarith
    then have "tall ns (seq ! (k - 1)) \<le> i" using st(3) by blast
    then show thesis using assms(5) 3 by (cases k) auto
  qed
qed

lemma drop_split: "k \<le> m \<Longrightarrow> m \<le> length xs \<Longrightarrow> drop k xs = take (m - k) (drop k xs) @ drop m xs"
  by (metis append_take_drop_id drop_drop le_add_diff_inverse2)

lemma drop_insert_at: "k \<le> m \<Longrightarrow> m \<le> length xs \<Longrightarrow> drop k (insert_at m p xs) = take (m - k) (drop k xs) @ p # drop m xs"
  by (simp add: insert_at_def drop_take)

lemma drop_insert_at_after: "m \<le> length xs \<Longrightarrow> m < k \<Longrightarrow> drop k (insert_at m p xs) = drop (k - 1) xs"
  by (cases k) (simp_all add: insert_at_def Suc_diff_le)

lemma nth_insert_at: "m \<le> length xs \<Longrightarrow> k \<le> length xs \<Longrightarrow>
  insert_at m p xs ! k = (if k < m then xs ! k else if k = m then p else xs ! (k - 1))"
  by (cases "k - m") (auto simp: insert_at_def nth_append intro!: arg_cong[of _ _ "(!) xs"])

lemma ids_insert_at: "m \<le> length xs \<Longrightarrow> k \<le> Suc (length xs) \<Longrightarrow>
  (0 # insert_at m p xs) ! k = (if k \<le> m then (0 # xs) ! k else if k = Suc m then p else (0 # xs) ! (k - 1))"
  by (cases k) (auto simp: nth_insert_at nth_Cons split: nat.split)

lemma ids_inj: "distinct (0 # seq) \<Longrightarrow> a \<le> length seq \<Longrightarrow> b \<le> length seq \<Longrightarrow> (0 # seq) ! a = (0 # seq) ! b \<longleftrightarrow> a = b"
  using nth_eq_iff_index_eq[of "0 # seq" a b] by simp

lemma levels_ok_insert:
  assumes old: "nodes_ok ns L seq" and m: "m \<le> length seq" and st: "stops ns seq m L ks"
    and p: "p \<notin> set (0 # seq)" and lev: "lev \<le> L"
    and same: "\<And>q. q \<in> set (0 # seq) \<Longrightarrow> tall ns' q = tall ns q" and new: "tall ns' p = lev"
    and lv: "\<And>q i. q \<in> set (0 # seq) \<Longrightarrow> i < L \<Longrightarrow> lvl ns' q i =
        (if q = (0 # seq) ! (ks ! i) then
           if i < lev then \<lparr>lv_next = Some p, lv_span = int (m - ks ! i) + 1\<rparr>
           else (lvl ns q i)\<lparr>lv_span := lv_span (lvl ns q i) + 1\<rparr>
         else lvl ns q i)"
    and hi: "\<And>q i. q \<in> set (0 # seq) \<Longrightarrow> L \<le> i \<Longrightarrow> lvl ns' q i = lvl ns q i"
    and lp: "\<And>i. i < lev \<Longrightarrow> lvl ns' p i =
        \<lparr>lv_next = lv_next (lvl ns ((0 # seq) ! (ks ! i)) i),
         lv_span = lv_span (lvl ns ((0 # seq) ! (ks ! i)) i) - int (m - ks ! i)\<rparr>"
  shows "levels_ok ns' L (insert_at m p seq)"
  unfolding levels_ok_def
proof (intro allI impI)
  let ?s = "insert_at m p seq"
  fix k i assume k: "k \<le> length ?s" and i: "i < tall ns' ((0 # ?s) ! k)"
  have d: "distinct (0 # seq)" using old by (simp add: nodes_ok_def)
  have lo: "lv_next (lvl ns ((0 # seq) ! a) j) = fst (next_tall (tall ns) j (drop a seq))"
      "j < L \<Longrightarrow> lv_span (lvl ns ((0 # seq) ! a) j) = int (snd (next_tall (tall ns) j (drop a seq)))"
    if "a \<le> length seq" "j < tall ns ((0 # seq) ! a)" for a j
    using old that unfolding nodes_ok_def levels_ok_def by blast+
  have cong: "next_tall (tall ns') j qs = next_tall (tall ns) j qs" if "set qs \<subseteq> set seq" for j qs
    using same that by (intro next_tall_cong) auto
  have sub: "set (drop a seq) \<subseteq> set seq" "set (take b (drop a seq)) \<subseteq> set seq" for a b
    by (meson set_drop_subset set_take_subset subset_trans)+
  have mem: "(0 # seq) ! a \<in> set (0 # seq)" if "a \<le> length seq" for a using that by (intro nth_mem) simp
  have sk: "ks ! j \<le> m" "j < tall ns ((0 # seq) ! (ks ! j))" "\<forall>q \<in> set (take (m - ks ! j) (drop (ks ! j) seq)). tall ns q \<le> j"
    if "j < L" for j
    using st that m by (auto simp: stops_def stop_at_def in_set_conv_nth)
  have at: "next_tall (tall ns) j (drop (ks ! j) seq) =
      (fst (next_tall (tall ns) j (drop m seq)), m - ks ! j + snd (next_tall (tall ns) j (drop m seq)))" if "j < L" for j
    using next_tall_skip[OF sk(3)[OF that], of "drop m seq"] drop_split[OF sk(1)[OF that] m] m sk(1)[OF that] by simp
  consider "k \<le> m" "i < L" | "k \<le> m" "L \<le> i" | "k = Suc m" | "Suc m < k" by linarith
  then show "lv_next (lvl ns' ((0 # ?s) ! k) i) = fst (next_tall (tall ns') i (drop k ?s)) \<and>
    (i < L \<longrightarrow> lv_span (lvl ns' ((0 # ?s) ! k) i) = int (snd (next_tall (tall ns') i (drop k ?s))))"
  proof cases
    case 1
    let ?A = "take (m - k) (drop k seq)" and ?x = "(0 # seq) ! k"
    have x: "(0 # ?s) ! k = ?x" "?x \<in> set (0 # seq)" using 1 m k mem ids_insert_at[OF m, of k p] by auto
    have ti: "i < tall ns ?x" using i x same by simp
    have ds: "drop k ?s = ?A @ p # drop m seq" "drop k seq = ?A @ drop m seq" 
      using drop_insert_at[OF 1(1) m] drop_split[OF 1(1) m] by auto
    have lx: "lv_next (lvl ns ?x i) = fst (next_tall (tall ns) i (drop k seq))"
        "lv_span (lvl ns ?x i) = int (snd (next_tall (tall ns) i (drop k seq)))"
      using lo ti 1 m by auto
    from st 1(2) 1(1) m ti show ?thesis
    proof (cases rule: stops_cases)
      case 1
      have "\<forall>q \<in> set ?A. tall ns' q \<le> i" using 1(2) same sub(2)[of "m - k" k] by auto
      then have "next_tall (tall ns') i (drop k ?s) =
          (if i < lev then (Some p, Suc (m - k)) else (fst (next_tall (tall ns) i (drop m seq)), Suc (m - k + snd (next_tall (tall ns) i (drop m seq)))))"
        using next_tall_skip[of ?A "tall ns'" i] new cong[OF sub(1)] m \<open>k \<le> m\<close> by (simp add: ds(1) Suc_diff_le)
      then show ?thesis using lv[OF x(2) \<open>i < L\<close>] 1(1) x lx at[OF \<open>i < L\<close>] by auto
    next
      case (2 q)
      have "?x \<noteq> (0 # seq) ! (ks ! i)" using 2(1) ids_inj[OF d, of k "ks ! i"] sk(1)[OF \<open>i < L\<close>] \<open>k \<le> m\<close> m by simp
      moreover have "next_tall (tall ns') i (drop k ?s) = next_tall (tall ns) i (drop k seq)"
      proof -
        have tq: "i < tall ns' q" using 2(2,3) same[of q] sub(2)[of "m - k" k] by auto
        have "next_tall (tall ns') i (drop k ?s) = next_tall (tall ns') i ?A" unfolding ds(1) using next_tall_stays 2(2) tq by blast
        also have "\<dots> = next_tall (tall ns) i ?A" by (rule cong[OF sub(2)])
        also have "\<dots> = next_tall (tall ns) i (?A @ drop m seq)" using next_tall_stays[where h = "tall ns"] 2(2,3) by metis
        finally show ?thesis by (simp only: ds(2)[symmetric])
      qed
      ultimately show ?thesis using lv[OF x(2) \<open>i < L\<close>] x lx by simp
    qed
  next
    case 2
    have x: "(0 # ?s) ! k = (0 # seq) ! k" "(0 # seq) ! k \<in> set (0 # seq)" using 2 m k mem ids_insert_at[OF m, of k p] by auto
    have "\<forall>q \<in> insert p (set seq). tall ns' q \<le> i" using old same new lev 2 by (auto simp: nodes_ok_def)
    then have "\<forall>q \<in> set (drop k ?s). tall ns' q \<le> i" "\<forall>q \<in> set (drop k seq). tall ns q \<le> i"
      using same sub(1)[of k] by (auto dest!: in_set_dropD)
    then show ?thesis
      using 2 hi[OF x(2)] lo(1)[of k i] i x same m by (simp add: next_tall_none)
  next
    case 3
    then have "(0 # ?s) ! k = p" "drop k ?s = drop m seq" using m ids_insert_at[OF m, of k p] drop_insert_at_after[OF m, of k p] by auto
    then show ?thesis
      using lp[of i] i new lev at[of i] sk[of i] lo[of "ks ! i" i] cong[OF sub(1)] m by auto
  next
    case 4
    then have x: "(0 # ?s) ! k = (0 # seq) ! (k - 1)" "drop k ?s = drop (k - 1) seq" "k - 1 \<le> length seq"
      using m k ids_insert_at[OF m, of k p] drop_insert_at_after[OF m, of k p] by auto
    have "(0 # seq) ! (k - 1) \<noteq> (0 # seq) ! (ks ! i)" if "i < L"
      using ids_inj[OF d x(3), of "ks ! i"] sk(1)[OF that] 4 m by simp
    then have "lvl ns' ((0 # seq) ! (k - 1)) i = lvl ns ((0 # seq) ! (k - 1)) i"
      using lv[OF mem[OF x(3)]] hi[OF mem[OF x(3)]] by (cases "i < L") auto
    then show ?thesis using x lo[OF x(3)] same[OF mem[OF x(3)]] i cong[OF sub(1)] by simp
  qed
qed

subsection \<open>Removing a node\<close>

lemma next_tall_in: "fst (next_tall h i qs) = Some y \<Longrightarrow> y \<in> set qs \<and> i < h y"
  by (induction qs) (auto split: if_splits)

lemma drop_remove_at: "k \<le> m \<Longrightarrow> m < length xs \<Longrightarrow> drop k (remove_at m xs) = take (m - k) (drop k xs) @ drop (Suc m) xs"
  by (simp add: remove_at_def drop_take)

lemma drop_remove_at_after: "m < length xs \<Longrightarrow> m < k \<Longrightarrow> drop k (remove_at m xs) = drop (Suc k) xs"
  by (simp add: remove_at_def)

lemma ids_remove_at: "m < length xs \<Longrightarrow> k < length xs \<Longrightarrow>
  (0 # remove_at m xs) ! k = (if k \<le> m then (0 # xs) ! k else (0 # xs) ! Suc k)"
  by (cases k) (auto simp: remove_at_def nth_append)

lemma levels_ok_remove:
  assumes old: "nodes_ok ns L seq" and m: "m < length seq" and st: "stops ns seq m L ks"
    and same: "\<And>q. q \<in> set (0 # seq) \<Longrightarrow> tall ns' q = tall ns q"
    and lv: "\<And>q i. q \<in> set (0 # seq) \<Longrightarrow> i < L \<Longrightarrow> lvl ns' q i =
        (if q = (0 # seq) ! (ks ! i) then
           if lv_next (lvl ns q i) = Some (seq ! m) then
             \<lparr>lv_next = lv_next (lvl ns (seq ! m) i), lv_span = lv_span (lvl ns q i) + (lv_span (lvl ns (seq ! m) i) - 1)\<rparr>
           else (lvl ns q i)\<lparr>lv_span := lv_span (lvl ns q i) - 1\<rparr>
         else lvl ns q i)"
    and hi: "\<And>q i. q \<in> set (0 # seq) \<Longrightarrow> L \<le> i \<Longrightarrow> lvl ns' q i = lvl ns q i"
  shows "levels_ok ns' L (remove_at m seq)"
  unfolding levels_ok_def
proof (intro allI impI)
  let ?s = "remove_at m seq" and ?p = "seq ! m" and ?B = "drop (Suc m) seq"
  fix k i assume k: "k \<le> length ?s" and i: "i < tall ns' ((0 # ?s) ! k)"
  have d: "distinct (0 # seq)" using old by (simp add: nodes_ok_def)
  have m': "m \<le> length seq" and k': "k < length seq" using m k by simp_all
  have lo: "lv_next (lvl ns ((0 # seq) ! a) j) = fst (next_tall (tall ns) j (drop a seq))"
      "j < L \<Longrightarrow> lv_span (lvl ns ((0 # seq) ! a) j) = int (snd (next_tall (tall ns) j (drop a seq)))"
    if "a \<le> length seq" "j < tall ns ((0 # seq) ! a)" for a j
    using old that unfolding nodes_ok_def levels_ok_def by blast+
  have cong: "next_tall (tall ns') j qs = next_tall (tall ns) j qs" if "set qs \<subseteq> set seq" for j qs
    using same that by (intro next_tall_cong) auto
  have sub: "set (drop a seq) \<subseteq> set seq" "set (take b (drop a seq)) \<subseteq> set seq" for a b
    by (meson set_drop_subset set_take_subset subset_trans)+
  have mem: "(0 # seq) ! a \<in> set (0 # seq)" if "a \<le> length seq" for a using that by (intro nth_mem) simp
  have sk: "ks ! j \<le> m" if "j < L" for j using st that by (auto simp: stops_def stop_at_def)
  have pB: "drop m seq = ?p # ?B" "?p \<notin> set ?B"
    using m d by (auto simp: Cons_nth_drop_Suc in_set_conv_nth nth_eq_iff_index_eq)
  consider "k \<le> m" "i < L" | "k \<le> m" "L \<le> i" | "m < k" by linarith
  then show "lv_next (lvl ns' ((0 # ?s) ! k) i) = fst (next_tall (tall ns') i (drop k ?s)) \<and>
    (i < L \<longrightarrow> lv_span (lvl ns' ((0 # ?s) ! k) i) = int (snd (next_tall (tall ns') i (drop k ?s))))"
  proof cases
    case 1
    let ?A = "take (m - k) (drop k seq)" and ?x = "(0 # seq) ! k"
    have x: "(0 # ?s) ! k = ?x" "?x \<in> set (0 # seq)" using 1 mem k' ids_remove_at[OF m k'] by auto
    have ti: "i < tall ns ?x" using i x same by simp
    have ds: "drop k ?s = ?A @ ?B" "drop k seq = ?A @ ?p # ?B"
      using drop_remove_at[OF 1(1) m] drop_split[OF 1(1) m'] pB(1) by auto
    have lx: "lv_next (lvl ns ?x i) = fst (next_tall (tall ns) i (drop k seq))"
        "lv_span (lvl ns ?x i) = int (snd (next_tall (tall ns) i (drop k seq)))"
      using lo ti 1 m by auto
    from st 1(2) 1(1) m' ti show ?thesis
    proof (cases rule: stops_cases)
      case 1
      have "\<forall>q \<in> set ?A. tall ns' q \<le> i" using 1(2) same sub(2)[of "m - k" k] by auto
      then have new: "next_tall (tall ns') i (drop k ?s) = (fst (next_tall (tall ns) i ?B), m - k + snd (next_tall (tall ns) i ?B))"
        using next_tall_skip[of ?A "tall ns'" i ?B] cong[OF sub(1)] m \<open>k \<le> m\<close> unfolding ds(1) by simp
      have was: "next_tall (tall ns) i (?A @ ?p # ?B) =
          (if i < tall ns ?p then (Some ?p, Suc (m - k)) else (fst (next_tall (tall ns) i ?B), Suc (m - k + snd (next_tall (tall ns) i ?B))))"
        using next_tall_skip[OF 1(2), of "?p # ?B"] m \<open>k \<le> m\<close> by (simp add: Suc_diff_le)
      have "fst (next_tall (tall ns) i ?B) \<noteq> Some ?p" using next_tall_in pB(2) by metis
      then show ?thesis using lv[OF x(2) \<open>i < L\<close>] 1(1) x lx was[folded ds(2)] new lo[of "Suc m" i] m \<open>i < L\<close> by auto
    next
      case (2 q)
      have "?x \<noteq> (0 # seq) ! (ks ! i)" using 2(1) ids_inj[OF d, of k "ks ! i"] sk[OF \<open>i < L\<close>] \<open>k \<le> m\<close> m by simp
      moreover have "next_tall (tall ns') i (drop k ?s) = next_tall (tall ns) i (drop k seq)"
      proof -
        have tq: "i < tall ns' q" using 2(2,3) same[of q] sub(2)[of "m - k" k] by auto
        have "next_tall (tall ns') i (drop k ?s) = next_tall (tall ns') i ?A" unfolding ds(1) using next_tall_stays 2(2) tq by blast
        also have "\<dots> = next_tall (tall ns) i ?A" by (rule cong[OF sub(2)])
        also have "\<dots> = next_tall (tall ns) i (?A @ ?p # ?B)" using next_tall_stays[where h = "tall ns"] 2(2,3) by metis
        finally show ?thesis by (simp only: ds(2)[symmetric])
      qed
      ultimately show ?thesis using lv[OF x(2) \<open>i < L\<close>] x lx by simp
    qed
  next
    case 2
    have x: "(0 # ?s) ! k = (0 # seq) ! k" "(0 # seq) ! k \<in> set (0 # seq)" using 2 mem k' ids_remove_at[OF m k'] by auto
    have "\<forall>q \<in> set seq. tall ns' q \<le> i" "\<forall>q \<in> set seq. tall ns q \<le> i" using old same 2 by (auto simp: nodes_ok_def)
    then have "\<forall>q \<in> set (drop k ?s). tall ns' q \<le> i" "\<forall>q \<in> set (drop k seq). tall ns q \<le> i"
      using set_remove_at_subset[of m seq] by (auto dest!: in_set_dropD)
    then show ?thesis
      using 2 hi[OF x(2)] lo(1)[of k i] i x same k' by (simp add: next_tall_none)
  next
    case 3
    then have x: "(0 # ?s) ! k = (0 # seq) ! Suc k" "drop k ?s = drop (Suc k) seq" "Suc k \<le> length seq"
      using m k' ids_remove_at[OF m k'] drop_remove_at_after[OF m, of k] by auto
    have "(0 # seq) ! Suc k \<noteq> (0 # seq) ! (ks ! i)" if "i < L"
      using ids_inj[OF d x(3), of "ks ! i"] sk[OF that] 3 m by simp
    then have "lvl ns' ((0 # seq) ! Suc k) i = lvl ns ((0 # seq) ! Suc k) i"
      using lv[OF mem[OF x(3)]] hi[OF mem[OF x(3)]] by (cases "i < L") auto
    then show ?thesis using x lo[OF x(3)] same[OF mem[OF x(3)]] i cong[OF sub(1)] by simp
  qed
qed

subsection \<open>Insert\<close>

lemma before_iff: "before (ns ! p) score member \<longleftrightarrow> key_of ns p < (score, member)"
  by (auto simp: before_def key_of_def less_prod_def')

lemma after_iff: "after (ns ! p) score member \<longleftrightarrow> (score, member) < key_of ns p"
  by (auto simp: after_def key_of_def less_prod_def')

lemma random_level_bounds: "level \<le> fst (random_level k level rng) \<and> fst (random_level k level rng) \<le> level + k"
proof (induction k arbitrary: level rng)
  case (Suc k)
  show ?case using Suc.IH[of "Suc level" "xorshift rng"] by (auto simp: Let_def)
qed simp

lemma randomLevel_bounds:
  obtains rng lev where "randomLevel sl = (sl\<lparr>sl_rng := rng\<rparr>, lev)" "1 \<le> lev" "lev \<le> skiplistMaxLevel"
proof -
  obtain lev rng where r: "random_level (skiplistMaxLevel - 1) 1 (sl_rng sl) = (lev, rng)" by fastforce
  then show thesis
    using that[of rng lev] random_level_bounds[of 1 "skiplistMaxLevel - 1" "sl_rng sl"]
    by (simp add: randomLevel_def skiplistMaxLevel_def)
qed

lemma nodes_ok_transfer:
  assumes "nodes_ok ns L seq" "length ns \<le> length ns'"
    and h: "\<And>q. q \<in> set (0 # seq) \<Longrightarrow> tall ns' q = tall ns q \<and> lvl ns' q = lvl ns q \<and> key_of ns' q = key_of ns q"
  shows "nodes_ok ns' L seq"
proof -
  have nt: "next_tall (tall ns') i (drop k seq) = next_tall (tall ns) i (drop k seq)" for i k
    using h by (intro next_tall_cong) (auto dest: in_set_dropD)
  have "levels_ok ns' L seq" unfolding levels_ok_def nt
  proof (intro allI impI)
    fix k i assume k: "k \<le> length seq" and i: "i < tall ns' ((0 # seq) ! k)"
    have "(0 # seq) ! k \<in> set (0 # seq)" using k by (intro nth_mem) simp
    from h[OF this] show "lv_next (lvl ns' ((0 # seq) ! k) i) = fst (next_tall (tall ns) i (drop k seq)) \<and>
      (i < L \<longrightarrow> lv_span (lvl ns' ((0 # seq) ! k) i) = int (snd (next_tall (tall ns) i (drop k seq))))"
      using assms(1) k i by (simp add: nodes_ok_def levels_ok_def)
  qed
  moreover have "map (key_of ns') seq = map (key_of ns) seq" using h by auto
  then have "sorted_wrt (<) (map (key_of ns') seq)" using assms(1) unfolding nodes_ok_def by (simp only:)
  ultimately show ?thesis using assms h by (auto simp: nodes_ok_def)
qed

lemma nodes_ok_snoc: "nodes_ok ns L seq \<Longrightarrow> nodes_ok (ns @ [n]) L seq"
  by (rule nodes_ok_transfer) (auto simp: nodes_ok_def nth_append tall_def lvl_def key_of_def fun_eq_iff)

lemma set_back_nth [simp]:
  "nd_levels (set_back ns p b ! q) = nd_levels (ns ! q)" "nd_score (set_back ns p b ! q) = nd_score (ns ! q)"
  "nd_member (set_back ns p b ! q) = nd_member (ns ! q)" "length (set_back ns p b) = length ns"
  "p < length ns \<Longrightarrow> nd_back (set_back ns p b ! q) = (if q = p then b else nd_back (ns ! q))"
  by (cases "p < length ns"; cases "q = p"; simp add: set_back_def list_update_beyond)+

lemma set_back_views [simp]:
  "tall (set_back ns p b) = tall ns" "lvl (set_back ns p b) = lvl ns" "key_of (set_back ns p b) = key_of ns"
  by (simp_all add: tall_def lvl_def key_of_def fun_eq_iff)

lemma nodes_ok_set_back: "nodes_ok ns L seq \<Longrightarrow> nodes_ok (set_back ns p b) L seq"
  by (rule nodes_ok_transfer) auto

lemma stops_snoc: "nodes_ok ns L seq \<Longrightarrow> m \<le> length seq \<Longrightarrow> stops ns seq m K ks \<Longrightarrow> stops (ns @ [n]) seq m K ks"
proof -
  assume a: "nodes_ok ns L seq" "m \<le> length seq" "stops ns seq m K ks"
  have h: "tall (ns @ [n]) q = tall ns q" if "q < length ns" for q using that by (simp add: tall_def nth_append)
  have "tall (ns @ [n]) ((0 # seq) ! k) = tall ns ((0 # seq) ! k)" if "k \<le> m" for k
    using h[OF ids_lt[OF a(1)]] that a(2) by simp
  moreover have "tall (ns @ [n]) (seq ! j) = tall ns (seq ! j)" if "j < m" for j
    using h[OF ids_lt[OF a(1), of "Suc j"]] that a(2) by simp
  ultimately show ?thesis using a(3) by (auto simp: stops_def stop_at_def)
qed


lemma stops_us:
  assumes "nodes_ok ns L seq" "m \<le> length seq" "stops ns seq m L ks" "i < L"
  shows "(0 # seq) ! (ks ! i) < length ns" "i < tall ns ((0 # seq) ! (ks ! i))" "ks ! i \<le> m" "i < length ks"
    "ks ! 0 = m" "0 < L" "(0 # seq) ! (ks ! i) \<in> set (0 # seq)"
proof -
  have st: "stop_at ns seq m i (ks ! i)" "stop_at ns seq m 0 (ks ! 0)" "i < length ks" "0 < L"
    using assms(3,4) by (auto simp: stops_def)
  then show "ks ! i \<le> m" "i < tall ns ((0 # seq) ! (ks ! i))" "i < length ks" "0 < L" by (auto simp: stop_at_def)
  then show "(0 # seq) ! (ks ! i) < length ns" using ids_lt[OF assms(1)] assms(2) by simp
  show "ks ! 0 = m" by (rule stop_at_bottom[OF assms(1,2) st(2)])
  show "(0 # seq) ! (ks ! i) \<in> set (0 # seq)" using \<open>ks ! i \<le> m\<close> assms(2) by (intro nth_mem) simp
qed

lemma sorted_insert_at:
  assumes "sorted_wrt (<) (map f seq)" "\<And>j. j < length seq \<Longrightarrow> f (seq ! j) < f p \<longleftrightarrow> j < m" "f p \<notin> f ` set seq" "m \<le> length seq"
  shows "sorted_wrt (<) (map f (insert_at m p seq) :: 'a :: linorder list)"
proof -
  have "f q < f p" if "q \<in> set (take m seq)" for q using that assms(2,4) by (auto simp: in_set_conv_nth)
  moreover have "f p < f q" if q: "q \<in> set (drop m seq)" for q
  proof -
    obtain i where i: "i < length (drop m seq)" "drop m seq ! i = q" using q in_set_conv_nth[of q "drop m seq"] by blast
    define j where "j = m + i"
    have j: "q = seq ! j" "m \<le> j" "j < length seq" using i assms(4) by (simp_all add: j_def)
    have "\<not> f q < f p" using j assms(2)[of j] by simp
    moreover have "f q \<noteq> f p" using j assms(3) by (metis imageI nth_mem)
    ultimately show ?thesis by simp
  qed
  moreover have "sorted_wrt (<) (map f (take m seq) @ map f (drop m seq))" using assms(1) by (metis append_take_drop_id map_append)
  ultimately show ?thesis by (auto simp: insert_at_def sorted_wrt_append)
qed

lemma link_nodes:
  fixes score :: "'f :: linorder"
  assumes ok: "nodes_ok ns L seq" and m: "m \<le> length seq" and st: "stops ns seq m L ks" and lev: "1 \<le> lev" "lev \<le> L"
    and cut: "\<And>j. j < length seq \<Longrightarrow> key_of ns (seq ! j) < (score, member) \<longleftrightarrow> j < m" and fresh: "(score, member) \<notin> key_of ns ` set seq"
    and us: "us = map (\<lambda>k. ((0 # seq) ! k, int k)) ks" and n: "n = \<lparr>nd_member = member, nd_score = score, nd_back = None, nd_levels = replicate lev no_level\<rparr>"
  shows "\<exists>n1 n2. link_levels us (length ns) [0 ..< lev] (ns @ [n]) = Some n1 \<and> widen_levels us [lev ..< L] n1 = Some n2 \<and>
    nodes_ok n2 L (insert_at m (length ns) seq) \<and> sl_shape (ns @ [n]) n2"
proof -
  let ?p = "length ns" and ?n0 = "ns @ [n]"
  have ok0: "nodes_ok ?n0 L seq" and st0: "stops ?n0 seq m L ks" using nodes_ok_snoc[OF ok] stops_snoc[OF ok m st] by auto
  have u: "us ! i = ((0 # seq) ! (ks ! i), int (ks ! i))" if "i < L" for i using stops_us(4)[OF ok m st that] by (simp add: us)
  have S: "(0 # seq) ! (ks ! i) < length ns" "i < tall ?n0 ((0 # seq) ! (ks ! i))" "ks ! i \<le> m" "ks ! 0 = m" if "i < L" for i
    using stops_us[OF ok m st that] stops_us(2)[OF ok0 m st0 that] by auto
  have tp: "tall ?n0 ?p = lev" by (simp add: tall_def n)
  have pre: "distinct [0 ..< lev]" "?p < length ?n0" "\<forall>i \<in> set [0 ..< lev]. fst (us ! i) < length ?n0 \<and> fst (us ! i) \<noteq> ?p \<and> i < tall ?n0 (fst (us ! i)) \<and> i < tall ?n0 ?p"
    using S(2) u lev tp less_imp_neq[OF S(1)] less_SucI[OF S(1)] by simp_all
  from link_levels_eq[OF pre] obtain n1 where n1: "link_levels us ?p [0 ..< lev] ?n0 = Some n1" "sl_shape ?n0 n1"
    "\<And>x i. lvl n1 x i =
      (if i \<in> set [0 ..< lev] \<and> x = fst (us ! i) then \<lparr>lv_next = Some ?p, lv_span = (snd (us ! 0) - snd (us ! i)) + 1\<rparr>
       else if i \<in> set [0 ..< lev] \<and> x = ?p then
         \<lparr>lv_next = lv_next (lvl ?n0 (fst (us ! i)) i), lv_span = lv_span (lvl ?n0 (fst (us ! i)) i) - (snd (us ! 0) - snd (us ! i))\<rparr>
       else lvl ?n0 x i)" by blast
  have "\<forall>i \<in> set [lev ..< L]. fst (us ! i) < length n1 \<and> i < tall n1 (fst (us ! i))"
    using S u sl_shape_length[OF n1(2)] sl_shape_nth[OF n1(2)] by (auto simp: less_Suc_eq)
  from widen_levels_eq[OF distinct_upt this] obtain n2 where n2: "widen_levels us [lev ..< L] n1 = Some n2" "sl_shape n1 n2"
    "\<And>x i. lvl n2 x i = (if i \<in> set [lev ..< L] \<and> x = fst (us ! i) then (lvl n1 x i)\<lparr>lv_span := lv_span (lvl n1 x i) + 1\<rparr> else lvl n1 x i)" by blast
  have sh: "sl_shape ?n0 n2" by (rule sl_shape_trans[OF n1(2) n2(2)])
  have np: "?p \<notin> set (0 # seq)" using ok by (auto simp: nodes_ok_def)
  have lt: "q < length ?n0" if "q \<in> set (0 # seq)" for q using that ok by (auto simp: nodes_ok_def)
  have r: "snd (us ! 0) - snd (us ! i) = int (m - ks ! i)" if "i < L" for i using u[OF that] u[of 0] S[OF that] that by simp
  have lvp: "lvl n2 ?p i = \<lparr>lv_next = lv_next (lvl ?n0 ((0 # seq) ! (ks ! i)) i),
      lv_span = lv_span (lvl ?n0 ((0 # seq) ! (ks ! i)) i) - int (m - ks ! i)\<rparr>" if "i < lev" for i
    using n1(3)[of ?p i] n2(3)[of ?p i] u[of i] r[of i] S(1)[of i] that lev(2) by auto
  have "levels_ok n2 L (insert_at m ?p seq)"
  proof (rule levels_ok_insert[OF ok0 m st0 np lev(2) _ _ _ _ lvp])
    fix q i assume q: "q \<in> set (0 # seq)"
    show "tall n2 q = tall ?n0 q" using sl_shape_nth[OF sh lt[OF q]] by simp
    have qp: "q \<noteq> ?p" using q np by blast
    show "lvl n2 q i = lvl ?n0 q i" if "L \<le> i" using that n1(3)[of q i] n2(3)[of q i] lev(2) by simp
    show "lvl n2 q i = (if q = (0 # seq) ! (ks ! i) then
        if i < lev then \<lparr>lv_next = Some ?p, lv_span = int (m - ks ! i) + 1\<rparr> else (lvl ?n0 q i)\<lparr>lv_span := lv_span (lvl ?n0 q i) + 1\<rparr>
      else lvl ?n0 q i)" if "i < L"
      using that n1(3)[of q i] n2(3)[of q i] u[OF that] r[OF that] qp by auto
  next
    show "tall n2 ?p = lev" using sl_shape_nth[OF sh, of ?p] tp by simp
  qed
  moreover have keys: "key_of n2 q = (if q = ?p then (score, member) else key_of ns q)" if "q \<in> set (?p # seq)" for q
    using sl_shape_nth[OF sh, of q] lt[of q] that by (auto simp: key_of_def nth_append n less_Suc_eq)
  have "sorted_wrt (<) (map (key_of n2) (insert_at m ?p seq))"
  proof (rule sorted_insert_at[OF _ _ _ m])
    have "map (key_of n2) seq = map (key_of ns) seq" using keys np by auto
    then show "sorted_wrt (<) (map (key_of n2) seq)" using ok unfolding nodes_ok_def by (simp only:)
    show "key_of n2 (seq ! j) < key_of n2 ?p \<longleftrightarrow> j < m" if "j < length seq" for j using keys[of "seq ! j"] keys[of ?p] cut[OF that] np nth_mem[OF that] by (metis list.set_intros(1,2))
    show "key_of n2 ?p \<notin> key_of n2 ` set seq" using keys fresh np by (auto simp: image_iff)
  qed
  moreover have "\<forall>q \<in> set (insert_at m ?p seq). 1 \<le> tall n2 q \<and> tall n2 q \<le> L \<and> q < length n2"
    using ok0 sl_shape_nth[OF sh] sl_shape_length[OF sh] lt tp lev by (auto simp: nodes_ok_def)
  moreover have "distinct (0 # insert_at m ?p seq)"
    using ok np set_take_disj_set_drop_if_distinct[of seq m m] by (auto simp: nodes_ok_def insert_at_def dest: in_set_takeD in_set_dropD)
  moreover have "tall n2 0 = skiplistMaxLevel" "n2 \<noteq> []"
    using sl_shape_nth[OF sh, of 0] sl_shape_length[OF sh] ok0 by (auto simp: nodes_ok_def)
  ultimately have "nodes_ok n2 L (insert_at m ?p seq)" using ok unfolding nodes_ok_def by blast
  then show ?thesis using n1(1) n2(1) sh by blast
qed


text \<open>Raising the list to a new top level.\<close>

lemma raise_nodes:
  assumes ok: "nodes_ok ns L seq" and lev: "lev \<le> skiplistMaxLevel"
  shows "\<exists>n1. raise_levels (int (length seq)) [L ..< lev] ns = Some n1 \<and> sl_shape ns n1 \<and> nodes_ok n1 (max lev L) seq"
proof -
  have "\<forall>i \<in> set [L ..< lev]. i < tall ns 0" "ns \<noteq> []" using ok lev by (auto simp: nodes_ok_def)
  from raise_levels_eq[OF distinct_upt this, of "int (length seq)"] obtain n1 where n1:
      "raise_levels (int (length seq)) [L ..< lev] ns = Some n1" "sl_shape ns n1"
      "\<And>x i. lvl n1 x i = (if i \<in> set [L ..< lev] \<and> x = 0 then (lvl ns 0 i)\<lparr>lv_span := int (length seq)\<rparr> else lvl ns x i)" by blast
  have same: "tall n1 q = tall ns q" "key_of n1 q = key_of ns q" if "q \<in> set (0 # seq)" for q
    using sl_shape_nth[OF n1(2), of q] that ok by (auto simp: nodes_ok_def)
  have nt: "next_tall (tall n1) i (drop k seq) = next_tall (tall ns) i (drop k seq)" for i k
    using same by (intro next_tall_cong) (auto dest: in_set_dropD)
  have "levels_ok n1 (max lev L) seq" unfolding levels_ok_def nt
  proof (intro allI impI)
    fix k i assume k: "k \<le> length seq" and i: "i < tall n1 ((0 # seq) ! k)"
    have mem: "(0 # seq) ! k \<in> set (0 # seq)" using k by (intro nth_mem) simp
    have ti: "i < tall ns ((0 # seq) ! k)" using i same(1)[OF mem] by simp
    have old: "lv_next (lvl ns ((0 # seq) ! k) i) = fst (next_tall (tall ns) i (drop k seq))"
        "i < L \<Longrightarrow> lv_span (lvl ns ((0 # seq) ! k) i) = int (snd (next_tall (tall ns) i (drop k seq)))"
      using ok k ti unfolding nodes_ok_def levels_ok_def by blast+
    have k0: "k = 0" if "L \<le> i"
    proof (rule ccontr)
      assume "k \<noteq> 0"
      then have "seq ! (k - 1) \<in> set seq" "(0 # seq) ! k = seq ! (k - 1)" using k by auto
      then show False using ok ti that by (auto simp: nodes_ok_def)
    qed
    have n: "next_tall (tall ns) i (drop 0 seq) = (None, length seq)" if "L \<le> i"
      using ok that by (simp add: nodes_ok_def) (intro next_tall_none, force)
    show "lv_next (lvl n1 ((0 # seq) ! k) i) = fst (next_tall (tall ns) i (drop k seq)) \<and>
      (i < max lev L \<longrightarrow> lv_span (lvl n1 ((0 # seq) ! k) i) = int (snd (next_tall (tall ns) i (drop k seq))))"
      using old n1(3)[of "(0 # seq) ! k" i] k0 n by (cases "i < L") auto
  qed
  moreover have "map (key_of n1) seq = map (key_of ns) seq" using same(2) by auto
  then have "sorted_wrt (<) (map (key_of n1) seq)" using ok unfolding nodes_ok_def by (simp only:)
  ultimately have "nodes_ok n1 (max lev L) seq"
    using ok same lev sl_shape_length[OF n1(2)] by (auto simp: nodes_ok_def simp flip: length_greater_0_conv)
  then show ?thesis using n1(1,2) by blast
qed

lemma stops_raise:
  assumes "nodes_ok ns L seq" "m \<le> length seq" "stops ns seq m L ks" "sl_shape ns n1" "lev \<le> skiplistMaxLevel"
  shows "stops n1 seq m (max lev L) (ks @ replicate (lev - L) 0)"
proof -
  have h: "tall n1 q = tall ns q" if "q < length ns" for q using sl_shape_nth[OF assms(4) that] by simp
  have a: "tall n1 ((0 # seq) ! k) = tall ns ((0 # seq) ! k)" if "k \<le> m" for k
    using h[OF ids_lt[OF assms(1)]] that assms(2) by simp
  have b: "tall n1 (seq ! j) = tall ns (seq ! j)" if "j < m" for j
    using h[OF ids_lt[OF assms(1), of "Suc j"]] that assms(2) by simp
  have "stop_at n1 seq m i ((ks @ replicate (lev - L) 0) ! i)" if i: "i < max lev L" for i
  proof (cases "i < L")
    case True
    then show ?thesis using assms(3) a b by (auto simp: stops_def stop_at_def nth_append)
  next
    case False
    have "tall ns (seq ! j) \<le> i" if "j < m" for j
    proof -
      have "seq ! j \<in> set seq" using that assms(2) by simp
      then show ?thesis using assms(1) False by (auto simp: nodes_ok_def)
    qed
    then show ?thesis using False i a[of 0] b assms by (auto simp: stops_def stop_at_def nth_append nodes_ok_def)
  qed
  then show ?thesis using assms(3) by (simp add: stops_def)
qed


lemma bottom_next:
  assumes "nodes_ok ns L seq" "k \<le> length seq"
  shows "\<exists>l. level_at ns ((0 # seq) ! k) 0 = Some l \<and> lv_next l = (if k < length seq then Some (seq ! k) else None)"
proof -
  let ?x = "(0 # seq) ! k"
  have t: "0 < tall ns ?x" using assms by (cases k) (auto simp: nodes_ok_def skiplistMaxLevel_def Suc_le_eq)
  have "lv_next (lvl ns ?x 0) = fst (next_tall (tall ns) 0 (drop k seq))"
    using assms t unfolding nodes_ok_def levels_ok_def by blast
  also have "\<dots> = (if k < length seq then Some (seq ! k) else None)"
  proof (cases "k < length seq")
    case True
    then have "0 < tall ns (seq ! k)" using assms(1) nth_mem[OF True] by (auto simp: nodes_ok_def Suc_le_eq)
    then show ?thesis using True by (simp add: Cons_nth_drop_Suc[symmetric])
  qed simp
  finally show ?thesis using level_at_eq[OF ids_lt[OF assms] t] by blast
qed

lemma backs_ok_insert:
  assumes "backs_ok ns seq" "distinct (p # seq)" "m \<le> length seq" "p < length n'" "\<forall>q \<in> set seq. q < length n'"
    and "\<And>q. q \<in> set seq \<Longrightarrow> nd_back (n' ! q) = (if m < length seq \<and> q = seq ! m then Some p else nd_back (ns ! q))"
    and "nd_back (n' ! p) = (if m = 0 then None else Some (seq ! (m - 1)))"
  shows "backs_ok n' (insert_at m p seq)"
  unfolding backs_ok_def
proof (intro allI impI)
  fix k assume k: "k < length (insert_at m p seq)"
  have old: "nd_back (ns ! (seq ! j)) = (if j = 0 then None else Some (seq ! (j - 1)))" if "j < length seq" for j
    using assms(1) that by (simp add: backs_ok_def)
  have dj: "seq ! a = seq ! b \<longleftrightarrow> a = b" if "a < length seq" "b < length seq" for a b
    using assms(2) that nth_eq_iff_index_eq by auto
  consider "k < m" | "k = m" | "m < k" by linarith
  then show "nd_back (n' ! (insert_at m p seq ! k)) = (if k = 0 then None else Some (insert_at m p seq ! (k - 1)))"
  proof cases
    case 1
    then have kl: "k < length seq" using assms(3) by simp
    have "nd_back (n' ! (seq ! k)) = nd_back (ns ! (seq ! k))" using assms(6)[OF nth_mem[OF kl]] dj[OF kl, of m] 1 by auto
    then show ?thesis using old[OF kl] 1 kl assms(3) by (auto simp: nth_insert_at)
  next
    case 2
    then show ?thesis using assms(3,7) by (auto simp: nth_insert_at)
  next
    case 3
    then have j: "insert_at m p seq ! k = seq ! (k - 1)" "k - 1 < length seq" "k \<noteq> 0" "insert_at m p seq ! (k - 1) = (if k - 1 = m then p else seq ! (k - 2))"
      using k assms(3) by (auto simp: nth_insert_at numeral_2_eq_2)
    show ?thesis using j 3 assms(6)[of "seq ! (k - 1)"] old[of "k - 1"] dj[of "k - 1" m] by (auto simp: numeral_2_eq_2)
  qed
qed

lemma length_takeWhile_map: "length (takeWhile P (map f xs)) = length (takeWhile (\<lambda>x. P (f x)) xs)"
  by (simp add: takeWhile_map comp_def)

lemma search_position:
  fixes score :: "'f :: linorder" and member :: bytes
  assumes "sl_rep sl seq"
  defines "ns \<equiv> sl_nodes sl" and "m \<equiv> length (takeWhile (\<lambda>p. key_of (sl_nodes sl) p < (score, member)) seq)"
  obtains ks where "m \<le> length seq" "\<And>j. j < length seq \<Longrightarrow> key_of ns (seq ! j) < (score, member) \<longleftrightarrow> j < m"
    "stops ns seq m (sl_level sl) ks"
    "sl_descend ns (\<lambda>n r. before n score member) (sl_level sl) 0 0 = Some (map (\<lambda>k. ((0 # seq) ! k, int k)) ks)"
proof -
  have ok: "nodes_ok ns (sl_level sl) seq" using assms(1) by (simp add: sl_rep_def ns_def)
  have m: "m \<le> length seq" by (simp add: m_def length_takeWhile_le)
  have cut: "key_of ns (seq ! j) < (score, member) \<longleftrightarrow> j < m" if "j < length seq" for j
    using sorted_cut[of "map (key_of ns) seq" j "(score, member)"] ok that
    by (simp add: nodes_ok_def m_def ns_def length_takeWhile_map)
  have "sl_level sl \<le> tall ns ((0 # seq) ! 0)" using ok by (simp add: nodes_ok_def)
  from sl_descend_stops[OF ok m _ order_refl le0 this, of "\<lambda>n r. before n score member"] obtain ks where
    "length ks = sl_level sl" "\<forall>j < sl_level sl. stop_at ns seq m j (ks ! j)"
    "sl_descend ns (\<lambda>n r. before n score member) (sl_level sl) ((0 # seq) ! 0) (int 0) = Some (map (\<lambda>k. ((0 # seq) ! k, int k)) ks)"
    using cut by (auto simp: before_iff)
  then show thesis using that[OF m cut] by (simp add: stops_def)
qed

lemma sl_Insert_rep:
  assumes rep: "sl_rep sl seq" and fresh: "(score, member) \<notin> key_of (sl_nodes sl) ` set seq"
  shows "\<exists>sl' p. sl_Insert score member sl = Some (sl', p) \<and>
    sl_rep sl' (insert_at (length (takeWhile (\<lambda>p. key_of (sl_nodes sl) p < (score, member)) seq)) p seq) \<and>
    key_of (sl_nodes sl') p = (score, member) \<and> (\<forall>q \<in> set seq. key_of (sl_nodes sl') q = key_of (sl_nodes sl) q)"
proof -
  let ?ns = "sl_nodes sl" and ?L = "sl_level sl" and ?p = "length (sl_nodes sl)"
  define m where "m = length (takeWhile (\<lambda>p. key_of (sl_nodes sl) p < (score, member)) seq)"
  obtain ks where ks: "m \<le> length seq" "\<And>j. j < length seq \<Longrightarrow> key_of ?ns (seq ! j) < (score, member) \<longleftrightarrow> j < m" "stops ?ns seq m ?L ks"
    "sl_descend ?ns (\<lambda>n r. before n score member) ?L 0 0 = Some (map (\<lambda>k. ((0 # seq) ! k, int k)) ks)"
    using search_position[OF rep, of score member] unfolding m_def[symmetric] by blast
  have ok: "nodes_ok ?ns ?L seq" and len: "sl_length sl = int (length seq)" and backs: "backs_ok ?ns seq"
    and tail: "sl_tail sl = (if seq = [] then None else Some (last seq))" using rep by (auto simp: sl_rep_def)
  obtain rng lev where r: "randomLevel sl = (sl\<lparr>sl_rng := rng\<rparr>, lev)" "1 \<le> lev" "lev \<le> skiplistMaxLevel" by (rule randomLevel_bounds)
  let ?top = "max lev ?L" and ?ks = "ks @ replicate (lev - ?L) 0"
  let ?n = "\<lparr>nd_member = member, nd_score = score, nd_back = None, nd_levels = replicate lev no_level\<rparr>"
  let ?us = "map (\<lambda>k. ((0 # seq) ! k, int k)) ?ks"
  obtain n1 where n1: "raise_levels (int (length seq)) [?L ..< lev] ?ns = Some n1" "sl_shape ?ns n1" "nodes_ok n1 ?top seq"
    using raise_nodes[OF ok r(3)] by blast
  have p: "length n1 = ?p" by (rule sl_shape_length[OF n1(2)])
  have key1: "key_of n1 q = key_of ?ns q" "nd_back (n1 ! q) = nd_back (?ns ! q)" if "q \<in> set seq" for q
    using sl_shape_nth[OF n1(2), of q] that ok by (auto simp: nodes_ok_def)
  have st1: "stops n1 seq m ?top ?ks" by (rule stops_raise[OF ok ks(1,3) n1(2) r(3)])
  have cut1: "key_of n1 (seq ! j) < (score, member) \<longleftrightarrow> j < m" if "j < length seq" for j using ks(2) key1(1) that by simp
  have fresh1: "(score, member) \<notin> key_of n1 ` set seq" using fresh key1(1) by (auto simp: image_iff)
  obtain n2 n3 where n3: "link_levels ?us ?p [0 ..< lev] (n1 @ [?n]) = Some n2" "widen_levels ?us [lev ..< ?top] n2 = Some n3"
    "nodes_ok n3 ?top (insert_at m ?p seq)" "sl_shape (n1 @ [?n]) n3"
    using link_nodes[OF n1(3) ks(1) st1 r(2) _ cut1 fresh1 refl refl] unfolding p by auto
  have t0: "0 < ?top" using r(2) by simp
  have u0: "?us ! 0 = ((0 # seq) ! m, int m)"
    using stops_us(4,5)[OF n1(3) ks(1) st1 t0] by (simp only: nth_map)
  have bk: "fst (?us ! 0) \<noteq> 0 \<longleftrightarrow> m \<noteq> 0" using u0 ks(1) ok ids_inj[of seq m 0] by (simp add: nodes_ok_def)
  let ?n4 = "if fst (?us ! 0) \<noteq> 0 then set_back n3 ?p (Some (fst (?us ! 0))) else n3"
  have ok4: "nodes_ok ?n4 ?top (insert_at m ?p seq)" using n3(3) nodes_ok_set_back by auto
  have l4: "length ?n4 = Suc ?p" using sl_shape_length[OF n3(4)] p by simp
  have id: "(0 # insert_at m ?p seq) ! Suc m = ?p" using nth_insert_at[OF ks(1,1)] by simp
  obtain l where l: "level_at ?n4 ?p 0 = Some l" "lv_next l = (if m < length seq then Some (seq ! m) else None)"
    using bottom_next[OF ok4, of "Suc m"] ks(1) nth_insert_at[OF ks(1), of "Suc m" ?p] unfolding id by auto
  let ?n5 = "if m < length seq then set_back ?n4 (seq ! m) (Some ?p) else ?n4"
  have ok5: "nodes_ok ?n5 ?top (insert_at m ?p seq)" using ok4 nodes_ok_set_back by auto
  have lt: "q < ?p" if "q \<in> set seq" for q using that ok by (auto simp: nodes_ok_def)
  have old3: "nd_back (n3 ! q) = nd_back (?ns ! q)" "key_of n3 q = key_of ?ns q" if "q \<in> set seq" for q
    using sl_shape_nth[OF n3(4), of q] lt[OF that] key1[OF that] p by (auto simp: nth_append key_of_def)
  have new3: "nd_back (n3 ! ?p) = None" "key_of n3 ?p = (score, member)"
    using sl_shape_nth[OF n3(4), of ?p] p by (simp_all add: key_of_def nth_append)
  have keys: "key_of ?n5 = key_of n3" by simp
  have "backs_ok ?n5 (insert_at m ?p seq)"
  proof (rule backs_ok_insert[OF backs _ ks(1)])
    show "distinct (?p # seq)" using ok lt by (auto simp: nodes_ok_def)
    show "?p < length ?n5" "\<forall>q \<in> set seq. q < length ?n5" using l4 lt by (auto simp: less_SucI)
    show "nd_back (?n5 ! q) = (if m < length seq \<and> q = seq ! m then Some ?p else nd_back (?ns ! q))" if "q \<in> set seq" for q
      using old3(1)[OF that] lt[OF that] l4 lt[of "seq ! m"] by auto
    show "nd_back (?n5 ! ?p) = (if m = 0 then None else Some (seq ! (m - 1)))"
      using new3(1) u0 bk l4 lt[of "seq ! m"] by (cases m) auto
  qed
  moreover have "insert_at m ?p seq \<noteq> []" "last (insert_at m ?p seq) = (if m < length seq then last seq else ?p)"
    using ks(1) by (auto simp: insert_at_def)
  ultimately have "sl_rep (sl\<lparr>sl_rng := rng, sl_nodes := ?n5, sl_level := ?top,
      sl_tail := (if m < length seq then sl_tail sl else Some ?p), sl_length := sl_length sl + 1\<rparr>) (insert_at m ?p seq)"
    using ok5 len tail by (auto simp: sl_rep_def)
  moreover have "sl_Insert score member sl = Some (sl\<lparr>sl_rng := rng, sl_nodes := ?n5, sl_level := ?top,
      sl_tail := (if m < length seq then sl_tail sl else Some ?p), sl_length := sl_length sl + 1\<rparr>, ?p)"
    using ks(4) r(1) n1(1) n3(1,2) l p len
    by (cases "m < length seq"; cases "fst (?us ! 0) = 0") (simp_all add: sl_Insert_def Let_def)
  ultimately show ?thesis unfolding m_def[symmetric] using old3(2) new3(2) keys by auto
qed


subsection \<open>Delete\<close>

lemma unlink_nodes:
  assumes ok: "nodes_ok ns L seq" and m: "m < length seq" and st: "stops ns seq m L ks"
    and us: "us = map (\<lambda>k. (0 # seq) ! k) ks"
  shows "\<exists>n1. unlink_levels us (seq ! m) [0 ..< L] ns = Some n1 \<and> sl_shape ns n1 \<and>
    nodes_ok n1 L (remove_at m seq) \<and> lvl n1 (seq ! m) = lvl ns (seq ! m)"
proof -
  let ?p = "seq ! m"
  have m': "m \<le> length seq" and d: "distinct (0 # seq)" using m ok by (auto simp: nodes_ok_def)
  have u: "us ! i = (0 # seq) ! (ks ! i)" if "i < L" for i using stops_us(4)[OF ok m' st that] by (simp add: us)
  have S: "(0 # seq) ! (ks ! i) < length ns" "i < tall ns ((0 # seq) ! (ks ! i))" "ks ! i \<le> m" if "i < L" for i
    using stops_us[OF ok m' st that] by auto
  have np: "(0 # seq) ! (ks ! i) \<noteq> ?p" if "i < L" for i
    using ids_inj[OF d, of "ks ! i" "Suc m"] S(3)[OF that] m by simp
  have nx: "i < tall ns ?p" if "i < L" "lv_next (lvl ns ((0 # seq) ! (ks ! i)) i) = Some ?p" for i
  proof -
    have "ks ! i \<le> length seq" using S(3)[OF that(1)] m by simp
    then have "lv_next (lvl ns ((0 # seq) ! (ks ! i)) i) = fst (next_tall (tall ns) i (drop (ks ! i) seq))"
      using ok S(2)[OF that(1)] unfolding nodes_ok_def levels_ok_def by blast
    then show ?thesis using that(2) next_tall_in by metis
  qed
  have lt: "q < length ns" if "q \<in> set (0 # seq)" for q using that ok by (auto simp: nodes_ok_def)
  have pre: "?p < length ns" "\<forall>i \<in> set [0 ..< L]. us ! i < length ns \<and> us ! i \<noteq> ?p \<and> i < tall ns (us ! i) \<and>
      (lv_next (lvl ns (us ! i) i) = Some ?p \<longrightarrow> i < tall ns ?p)"
    using S u np nx lt m by simp_all
  from unlink_levels_eq[OF distinct_upt pre] obtain n1 where n1: "unlink_levels us ?p [0 ..< L] ns = Some n1" "sl_shape ns n1"
    "\<And>x i. lvl n1 x i =
      (if i \<in> set [0 ..< L] \<and> x = us ! i then
         if lv_next (lvl ns x i) = Some ?p then
           \<lparr>lv_next = lv_next (lvl ns ?p i), lv_span = lv_span (lvl ns x i) + (lv_span (lvl ns ?p i) - 1)\<rparr>
         else (lvl ns x i)\<lparr>lv_span := lv_span (lvl ns x i) - 1\<rparr>
       else lvl ns x i)" by blast
  have same: "tall n1 q = tall ns q" "key_of n1 q = key_of ns q" if "q \<in> set (0 # seq)" for q
    using sl_shape_nth[OF n1(2) lt[OF that]] by auto
  have "levels_ok n1 L (remove_at m seq)"
    by (rule levels_ok_remove[OF ok m st]) (use same n1(3) u in auto)
  moreover have sub: "set (remove_at m seq) \<subseteq> set seq" by (rule set_remove_at_subset)
  moreover have "map (key_of n1) (remove_at m seq) = remove_at m (map (key_of ns) seq)"
    using same(2) sub by (simp add: map_remove_at[symmetric] subset_iff)
  then have "sorted_wrt (<) (map (key_of n1) (remove_at m seq))"
    using ok sorted_remove_at[of _ "map (key_of ns) seq" m] m unfolding nodes_ok_def by simp
  moreover have "distinct (remove_at m seq)"
    using d set_take_disj_set_drop_if_distinct[of seq m "Suc m"] by (auto simp: remove_at_def)
  ultimately have "nodes_ok n1 L (remove_at m seq)"
    using ok same sl_shape_length[OF n1(2)] unfolding nodes_ok_def by (auto simp flip: length_greater_0_conv)
  moreover have "lvl n1 ?p = lvl ns ?p"
  proof
    fix i show "lvl n1 ?p i = lvl ns ?p i" using n1(3)[of ?p i] u[of i] np[of i] by auto
  qed
  ultimately show ?thesis using n1(1,2) by blast
qed

lemma drop_levels_ok: "nodes_ok ns k seq \<Longrightarrow> \<exists>k'. drop_levels ns k = Some k' \<and> nodes_ok ns k' seq"
proof (induction k)
  case (Suc k)
  show ?case
  proof (cases "k = 0")
    case False
    have t: "k < tall ns 0" "0 < length ns" using Suc.prems by (auto simp: nodes_ok_def)
    have l: "level_at ns 0 k = Some (lvl ns 0 k)" "lv_next (lvl ns 0 k) = fst (next_tall (tall ns) k (drop 0 seq))"
    proof -
      have "levels_ok ns (Suc k) seq" using Suc.prems by (simp add: nodes_ok_def)
      from this[unfolded levels_ok_def, rule_format, of 0 k] show "lv_next (lvl ns 0 k) = fst (next_tall (tall ns) k (drop 0 seq))"
        using t(1) by simp
    qed (rule level_at_eq[OF t(2,1)])
    show ?thesis
    proof (cases "lv_next (lvl ns 0 k) = None")
      case True
      have "\<forall>q \<in> set seq. tall ns q \<le> k"
        using True l(2) by (cases rule: next_tall_cases[of "tall ns" k seq]) (auto simp: in_set_conv_nth)
      then have "nodes_ok ns k seq" using Suc.prems False unfolding nodes_ok_def levels_ok_def by (simp add: Suc_le_eq)
      then show ?thesis using Suc.IH True l False by simp
    next
      case False
      then show ?thesis using Suc.prems l \<open>k \<noteq> 0\<close> by auto
    qed
  qed (use Suc.prems in simp)
qed (simp add: nodes_ok_def)

lemma backs_ok_remove:
  assumes "backs_ok ns seq" "distinct seq" "m < length seq"
    and "\<And>q. q \<in> set seq \<Longrightarrow> nd_back (n' ! q) = (if Suc m < length seq \<and> q = seq ! Suc m then nd_back (ns ! (seq ! m)) else nd_back (ns ! q))"
  shows "backs_ok n' (remove_at m seq)"
  unfolding backs_ok_def
proof (intro allI impI)
  fix k assume k: "k < length (remove_at m seq)"
  have old: "nd_back (ns ! (seq ! j)) = (if j = 0 then None else Some (seq ! (j - 1)))" if "j < length seq" for j
    using assms(1) that by (simp add: backs_ok_def)
  have dj: "seq ! a = seq ! b \<longleftrightarrow> a = b" if "a < length seq" "b < length seq" for a b
    using assms(2) that nth_eq_iff_index_eq by auto
  have nr: "remove_at m seq ! j = (if j < m then seq ! j else seq ! Suc j)" if "Suc j < length seq" for j
    using that assms(3) by (auto simp: remove_at_def nth_append)
  have k': "Suc k < length seq" using k assms(3) by simp
  consider "k < m" | "k = m" | "m < k" by linarith
  then show "nd_back (n' ! (remove_at m seq ! k)) = (if k = 0 then None else Some (remove_at m seq ! (k - 1)))"
  proof cases
    case 1
    then show ?thesis using assms(4)[of "seq ! k"] old[of k] dj[of k "Suc m"] k' nr[OF k'] nr[of "k - 1"] by auto
  next
    case 2
    then show ?thesis using assms(4)[of "seq ! Suc m"] old[of m] k' nr[OF k'] nr[of "k - 1"] by auto
  next
    case 3
    then show ?thesis using assms(4)[of "seq ! Suc k"] old[of "Suc k"] dj[of "Suc k" "Suc m"] k' nr[OF k'] nr[of "k - 1"] by auto
  qed
qed

lemma last_remove_at:
  "m < length xs \<Longrightarrow> remove_at m xs \<noteq> [] \<Longrightarrow> last (remove_at m xs) = (if Suc m < length xs then last xs else xs ! (m - 1))"
proof (cases "Suc m < length xs")
  case False
  assume a: "m < length xs" "remove_at m xs \<noteq> []"
  then have "remove_at m xs = take m xs" "0 < m" using False by (auto simp: remove_at_def intro: gr0I)
  then show ?thesis using False a by (simp add: last_conv_nth)
qed (simp add: remove_at_def)

lemma sl_Delete_rep:
  assumes rep: "sl_rep sl seq"
  shows "if (score, member) \<in> key_of (sl_nodes sl) ` set seq then
      \<exists>sl' m. m < length seq \<and> key_of (sl_nodes sl) (seq ! m) = (score, member) \<and> sl_Delete score member sl = Some (sl', True) \<and>
        sl_rep sl' (remove_at m seq) \<and> (\<forall>q \<in> set seq. key_of (sl_nodes sl') q = key_of (sl_nodes sl) q)
    else sl_Delete score member sl = Some (sl, False)"
proof -
  let ?ns = "sl_nodes sl" and ?L = "sl_level sl" and ?t = "(score, member)"
  define m where "m = length (takeWhile (\<lambda>p. key_of (sl_nodes sl) p < (score, member)) seq)"
  obtain ks where ks: "m \<le> length seq" "\<And>j. j < length seq \<Longrightarrow> key_of ?ns (seq ! j) < ?t \<longleftrightarrow> j < m" "stops ?ns seq m ?L ks"
    "sl_descend ?ns (\<lambda>n r. before n score member) ?L 0 0 = Some (map (\<lambda>k. ((0 # seq) ! k, int k)) ks)"
    using search_position[OF rep, of score member] unfolding m_def[symmetric] by blast
  have ok: "nodes_ok ?ns ?L seq" and len: "sl_length sl = int (length seq)" and backs: "backs_ok ?ns seq"
    and tail: "sl_tail sl = (if seq = [] then None else Some (last seq))" using rep by (auto simp: sl_rep_def)
  have L0: "0 < ?L" using ok by (simp add: nodes_ok_def)
  have u0: "map (\<lambda>k. ((0 # seq) ! k, int k)) ks ! 0 = ((0 # seq) ! m, int m)"
    using stops_us(4,5)[OF ok ks(1,3) L0] by (simp only: nth_map)
  obtain l where l: "level_at ?ns ((0 # seq) ! m) 0 = Some l" "lv_next l = (if m < length seq then Some (seq ! m) else None)"
    using bottom_next[OF ok ks(1)] by blast
  have lt: "q < length ?ns" if "q \<in> set seq" for q using that ok by (auto simp: nodes_ok_def)
  have inj: "key_of ?ns (seq ! a) < key_of ?ns (seq ! b)" if "a < b" "b < length seq" for a b
    using ok that sorted_wrt_nth_less[of "(<)" "map (key_of ?ns) seq" a b] by (simp add: nodes_ok_def)
  have found: "?t \<in> key_of ?ns ` set seq \<longleftrightarrow> m < length seq \<and> key_of ?ns (seq ! m) = ?t"
  proof
    assume "?t \<in> key_of ?ns ` set seq"
    then obtain j where j: "j < length seq" "key_of ?ns (seq ! j) = ?t" by (auto simp: in_set_conv_nth)
    then have "m \<le> j" using ks(2)[OF j(1)] by auto
    moreover have "\<not> m < j" using inj[of m j] j ks(2)[of m] by auto
    ultimately show "m < length seq \<and> key_of ?ns (seq ! m) = ?t" using j by simp
  qed (metis imageI nth_mem)
  show ?thesis
  proof (cases "?t \<in> key_of ?ns ` set seq")
    case False
    have "sl_Delete score member sl = Some (sl, False)"
      using ks(4) u0 l False found lt[of "seq ! m"] by (auto simp: sl_Delete_def node_at_def key_of_def)
    then show ?thesis using False by simp
  next
    case True
    then have m: "m < length seq" "key_of ?ns (seq ! m) = ?t" using found by auto
    let ?p = "seq ! m" and ?us = "map (\<lambda>k. (0 # seq) ! k) ks"
    obtain n1 where n1: "unlink_levels ?us ?p [0 ..< ?L] ?ns = Some n1" "sl_shape ?ns n1" "nodes_ok n1 ?L (remove_at m seq)" "lvl n1 ?p = lvl ?ns ?p"
      using unlink_nodes[OF ok m(1) ks(3) refl] by blast
    have pp: "?p < length ?ns" "0 < tall ?ns ?p" using ok nth_mem[OF m(1)] by (auto simp: nodes_ok_def Suc_le_eq)
    have s1: "tall n1 q = tall ?ns q" "key_of n1 q = key_of ?ns q" "nd_back (n1 ! q) = nd_back (?ns ! q)" if "q \<in> set seq" for q
      using sl_shape_nth[OF n1(2) lt[OF that]] by auto
    obtain l1 where l1: "level_at n1 ?p 0 = Some l1" "lv_next l1 = (if Suc m < length seq then Some (seq ! Suc m) else None)"
      using bottom_next[OF ok, of "Suc m"] m(1) level_at_eq[OF pp] level_at_eq[of ?p n1 0] s1(1)[OF nth_mem[OF m(1)]] pp
        sl_shape_length[OF n1(2)] n1(4) by auto
    let ?n2 = "if Suc m < length seq then set_back n1 (seq ! Suc m) (nd_back (?ns ! ?p)) else n1"
    have ok2: "nodes_ok ?n2 ?L (remove_at m seq)" using n1(3) nodes_ok_set_back by auto
    obtain lev where lev: "drop_levels ?n2 ?L = Some lev" "nodes_ok ?n2 lev (remove_at m seq)" using drop_levels_ok[OF ok2] by blast
    have "backs_ok ?n2 (remove_at m seq)"
      by (rule backs_ok_remove[OF backs _ m(1)]) (use ok s1(3) lt[of "seq ! Suc m"] sl_shape_length[OF n1(2)] in \<open>auto simp: nodes_ok_def\<close>)
    moreover have "nd_back (?ns ! ?p) = (if m = 0 then None else Some (seq ! (m - 1)))" using backs m(1) by (simp add: backs_ok_def)
    moreover have "remove_at m seq = [] \<longleftrightarrow> length seq = 1"
      unfolding length_0_conv[symmetric] length_remove_at[OF m(1)] using m(1) by linarith
    ultimately have "sl_rep (sl\<lparr>sl_nodes := ?n2, sl_tail := (if Suc m < length seq then sl_tail sl else nd_back (?ns ! ?p)), sl_level := lev,
        sl_length := sl_length sl - 1\<rparr>) (remove_at m seq)"
      using lev(2) len tail m(1) last_remove_at[OF m(1)] by (auto simp: sl_rep_def)
    moreover have "sl_Delete score member sl = Some (sl\<lparr>sl_nodes := ?n2, sl_tail := (if Suc m < length seq then sl_tail sl else nd_back (?ns ! ?p)),
        sl_level := lev, sl_length := sl_length sl - 1\<rparr>, True)"
      using ks(4) u0 l m lt[of ?p] n1(1) l1 lev(1) s1(3)[OF nth_mem[OF m(1)]] sl_shape_length[OF n1(2)]
      by (cases "Suc m < length seq") (simp_all add: sl_Delete_def sl_unlink_def node_at_def key_of_def comp_def)
    moreover have "\<forall>q \<in> set seq. key_of ?n2 q = key_of ?ns q" using s1(2) by auto
    ultimately show ?thesis using True m by auto
  qed
qed


subsection \<open>Queries\<close>

text \<open>The specification of the queries on the sorted list of keys.\<close>

definition rank_spec :: "'k :: linorder \<Rightarrow> 'k list \<Rightarrow> int" where
  "rank_spec t xs = (if t \<in> set xs then int (length (takeWhile (\<lambda>x. x < t) xs)) + 1 else 0)"

lemma rank_loop_eq:
  fixes score :: "'f :: linorder"
  assumes ok: "nodes_ok ns L seq" and m: "m \<le> length seq"
    and cut: "\<And>j. j < length seq \<Longrightarrow> key_of ns (seq ! j) \<le> (score, member) \<longleftrightarrow> j < m"
  shows "i \<le> L \<Longrightarrow> k \<le> m \<Longrightarrow> i \<le> tall ns ((0 # seq) ! k) \<Longrightarrow>
    rank_loop score member ns i ((0 # seq) ! k) (int k) =
      Some (if 0 < i \<and> 0 < m \<and> key_of ns (seq ! (m - 1)) = (score, member) then int m else 0)"
proof (induction i arbitrary: k)
  case (Suc i)
  have "m - k < length ns" using nodes_ok_room[OF ok] m by simp
  then obtain k' where k': "stop_at ns seq m i k'"
      "sl_forward (length ns) ns (\<lambda>n r. \<not> after n score member) i ((0 # seq) ! k) (int k) = Some ((0 # seq) ! k', int k')"
    using sl_forward_stops[OF ok _ m Suc.prems(2), of i "length ns" "\<lambda>n r. \<not> after n score member"] Suc.prems(1,3) cut
    by (auto simp: after_iff not_less)
  have km: "k' \<le> m" "i < tall ns ((0 # seq) ! k')" using k'(1) by (auto simp: stop_at_def)
  have d: "distinct (0 # seq)" using ok by (simp add: nodes_ok_def)
  have nd: "node_at ns ((0 # seq) ! k') = Some (ns ! ((0 # seq) ! k'))"
    using ids_lt[OF ok, of k'] km(1) m by (simp add: node_at_def)
  have nz: "(0 # seq) ! k' = 0 \<longleftrightarrow> k' = 0" using ids_inj[OF d, of k' 0] km(1) m by simp
  have eq: "rank_loop score member ns (Suc i) ((0 # seq) ! k) (int k) =
      (if k' \<noteq> 0 \<and> key_of ns (seq ! (k' - 1)) = (score, member) then Some (int k')
       else rank_loop score member ns i ((0 # seq) ! k') (int k'))"
    using k'(2) nd nz by (cases k') (simp_all add: key_of_def)
  show ?case
  proof (cases "k' \<noteq> 0 \<and> key_of ns (seq ! (k' - 1)) = (score, member)")
    case True
    have "\<not> k' < m"
    proof
      assume lt: "k' < m"
      then have "key_of ns (seq ! k') \<le> (score, member)" using cut[of k'] m by simp
      moreover have "key_of ns (seq ! (k' - 1)) < key_of ns (seq ! k')"
        using ok True lt m sorted_wrt_nth_less[of "(<)" "map (key_of ns) seq" "k' - 1" k'] by (simp add: nodes_ok_def)
      ultimately show False using True by simp
    qed
    then show ?thesis using True eq km(1) by simp
  next
    case False
    have "k' = m" if "i = 0" using stop_at_bottom[OF ok m] k'(1) that by simp
    then show ?thesis using False eq Suc.IH[of k'] Suc.prems(1) km by auto
  qed
qed simp

lemma sorted_cut_le:
  "sorted_wrt (<) xs \<Longrightarrow> k < length xs \<Longrightarrow> xs ! k \<le> (t :: 'a :: linorder) \<longleftrightarrow> k < length (takeWhile (\<lambda>x. x \<le> t) xs)"
  by (rule cut_position) (meson order_less_imp_le order_trans sorted_wrt_nth_less)+

lemma rank_spec_le:
  assumes "sorted_wrt (<) xs" "m = length (takeWhile (\<lambda>x. x \<le> t) xs)"
  shows "rank_spec t xs = (if 0 < m \<and> xs ! (m - 1) = t then int m else 0)"
proof (cases "t \<in> set xs")
  case True
  then obtain ys zs where xs: "xs = ys @ t # zs" by (meson split_list)
  then have "\<forall>y \<in> set ys. y < t" "\<forall>z \<in> set zs. t < z" using assms(1) by (auto simp: sorted_wrt_append)
  then have "takeWhile (\<lambda>x. x < t) xs = ys" "takeWhile (\<lambda>x. x \<le> t) xs = ys @ [t]"
    unfolding xs by (auto simp: takeWhile_append takeWhile_eq_Nil_iff not_le dest: hd_in_set)
  then show ?thesis using True assms(2) xs by (simp add: rank_spec_def nth_append)
next
  case False
  have "m \<le> length xs" using assms(2) length_takeWhile_le by auto
  then have "xs ! (m - 1) \<noteq> t" if "0 < m" using False nth_mem[of "m - 1" xs] that by auto
  then show ?thesis using False by (auto simp: rank_spec_def)
qed

lemma sl_Rank_eq: "sl_rep sl seq \<Longrightarrow> sl_Rank score member sl = Some (rank_spec (score, member) (map (key_of (sl_nodes sl)) seq))"
proof -
  assume rep: "sl_rep sl seq"
  let ?ns = "sl_nodes sl"
  define m where "m = length (takeWhile (\<lambda>x. x \<le> (score, member)) (map (key_of ?ns) seq))"
  have ok: "nodes_ok ?ns (sl_level sl) seq" and srt: "sorted_wrt (<) (map (key_of ?ns) seq)"
    using rep by (auto simp: sl_rep_def nodes_ok_def)
  have m: "m \<le> length seq" using length_takeWhile_le[of _ "map (key_of ?ns) seq"] by (simp add: m_def)
  have cut: "key_of ?ns (seq ! j) \<le> (score, member) \<longleftrightarrow> j < m" if "j < length seq" for j
    using sorted_cut_le[OF srt, of j "(score, member)"] that by (simp add: m_def)
  have "sl_level sl \<le> tall ?ns ((0 # seq) ! 0)" "0 < sl_level sl" using ok by (auto simp: nodes_ok_def)
  then show ?thesis
    using rank_loop_eq[OF ok m cut order_refl le0] rank_spec_le[OF srt m_def] m by (auto simp: sl_Rank_def)
qed

lemma node_loop_eq:
  assumes ok: "nodes_ok ns L seq" and m: "0 < m" "m \<le> length seq"
  shows "i \<le> L \<Longrightarrow> k \<le> m \<Longrightarrow> i \<le> tall ns ((0 # seq) ! k) \<Longrightarrow>
    node_loop (int m) ns i ((0 # seq) ! k) (int k) = Some (if 0 < i then Some (seq ! (m - 1)) else None)"
proof (induction i arbitrary: k)
  case (Suc i)
  have "m - k < length ns" using nodes_ok_room[OF ok] m by simp
  then obtain k' where k': "stop_at ns seq m i k'"
      "sl_forward (length ns) ns (\<lambda>n r. r \<le> int m) i ((0 # seq) ! k) (int k) = Some ((0 # seq) ! k', int k')"
  proof -
    have il: "i < L" "i < tall ns ((0 # seq) ! k)" using Suc.prems by auto
    have c: "int (Suc j) \<le> int m \<longleftrightarrow> j < m" for j by linarith
    show thesis
      using sl_forward_stops[OF ok il(1) m(2) Suc.prems(2) il(2) \<open>m - k < length ns\<close>, of "\<lambda>n r. r \<le> int m"] c that by blast
  qed
  have km: "k' \<le> m" "i < tall ns ((0 # seq) ! k')" using k'(1) by (auto simp: stop_at_def)
  have "k' = m" if "i = 0" using stop_at_bottom[OF ok m(2)] k'(1) that by simp
  then show ?case using k'(2) Suc.IH[of k'] Suc.prems(1) km m by (cases "k' = m") auto
qed simp

lemma NodeByRank_eq:
  assumes "sl_rep sl seq"
  shows "NodeByRank r sl = Some (if 0 < r \<and> r \<le> int (length seq) then Some (seq ! nat (r - 1)) else None)"
proof (cases "0 < r \<and> r \<le> int (length seq)")
  case True
  have ok: "nodes_ok (sl_nodes sl) (sl_level sl) seq" and len: "sl_length sl = int (length seq)" using assms by (auto simp: sl_rep_def)
  have "0 < nat r" "nat r \<le> length seq" "sl_level sl \<le> tall (sl_nodes sl) ((0 # seq) ! 0)" "0 < sl_level sl"
    using True ok by (auto simp: nodes_ok_def)
  then show ?thesis
    using node_loop_eq[OF ok _ _ order_refl le0, of "nat r"] True len by (auto simp: NodeByRank_def nat_diff_distrib)
qed (use assms in \<open>auto simp: NodeByRank_def sl_rep_def\<close>)

lemma sl_First_eq: "sl_rep sl seq \<Longrightarrow> sl_First sl = Some (if seq = [] then None else Some (hd seq))"
  using bottom_next[of "sl_nodes sl" "sl_level sl" seq 0] by (auto simp: sl_First_def sl_rep_def hd_conv_nth)

lemma sl_walk_eq:
  assumes "nodes_ok ns L seq"
  shows "k \<le> length seq \<Longrightarrow> length seq - k \<le> fuel \<Longrightarrow>
    sl_walk fuel ns (if k < length seq then Some (seq ! k) else None) = Some (map (key_of ns) (drop k seq))"
proof (induction fuel arbitrary: k)
  case (Suc fuel)
  show ?case
  proof (cases "k < length seq")
    case True
    obtain l where "level_at ns (seq ! k) 0 = Some l" "lv_next l = (if Suc k < length seq then Some (seq ! Suc k) else None)"
      using bottom_next[OF assms, of "Suc k"] True by auto
    moreover have "node_at ns (seq ! k) = Some (ns ! (seq ! k))" using ids_lt[OF assms, of "Suc k"] True by (simp add: node_at_def)
    ultimately show ?thesis
      using True Suc.IH[of "Suc k"] Suc.prems by (simp add: Cons_nth_drop_Suc[symmetric] key_of_def)
  qed simp
qed simp

lemma sl_entries_eq: "sl_rep sl seq \<Longrightarrow> sl_entries sl = Some (map (key_of (sl_nodes sl)) seq)"
  using sl_First_eq[of sl seq] sl_walk_eq[of "sl_nodes sl" "sl_level sl" seq 0 "length (sl_nodes sl)"]
    nodes_ok_room[of "sl_nodes sl" "sl_level sl" seq]
  by (auto simp: sl_entries_def sl_rep_def hd_conv_nth)


lemma find_first_in:
  "sorted_wrt (\<lambda>x y. hi y \<longrightarrow> hi x) xs \<Longrightarrow> find (\<lambda>x. lo x \<and> hi x) xs =
    (let m = length (takeWhile (\<lambda>x. \<not> lo x) xs) in if m < length xs \<and> hi (xs ! m) then Some (xs ! m) else None)"
  by (induction xs) (auto simp: Let_def find_None_iff)

lemma find_last_in:
  "sorted_wrt (\<lambda>x y. hi y \<longrightarrow> hi x) xs \<Longrightarrow> sorted_wrt (\<lambda>x y. lo x \<longrightarrow> lo y) xs \<Longrightarrow> find (\<lambda>x. lo x \<and> hi x) (rev xs) =
    (let m = length (takeWhile hi xs) in if 0 < m \<and> lo (xs ! (m - 1)) then Some (xs ! (m - 1)) else None)"
proof (induction xs rule: rev_induct)
  case (snoc x xs)
  then have s: "\<forall>y \<in> set xs. hi x \<longrightarrow> hi y" "\<forall>y \<in> set xs. lo y \<longrightarrow> lo x"
      "find (\<lambda>x. lo x \<and> hi x) (rev xs) =
        (let m = length (takeWhile hi xs) in if 0 < m \<and> lo (xs ! (m - 1)) then Some (xs ! (m - 1)) else None)"
    by (auto simp: sorted_wrt_append)
  show ?case
  proof (cases "hi x")
    case True
    then have "takeWhile hi (xs @ [x]) = xs @ [x]" using s(1) by (simp add: takeWhile_eq_all_conv)
    then show ?thesis using True s(2) by (auto simp: Let_def find_None_iff)
  next
    case False
    have t: "takeWhile hi (xs @ [x]) = takeWhile hi xs" using False by (induction xs) auto
    have "length (takeWhile hi xs) - 1 < length xs" if "takeWhile hi xs \<noteq> []"
      using that length_takeWhile_le[of hi xs] by (cases "takeWhile hi xs") auto
    then show ?thesis using False s(3) unfolding t by (auto simp: Let_def nth_append)
  qed
qed simp

lemma sl_seek_eq:
  assumes "sl_rep sl seq" and mono: "sorted_wrt (\<lambda>p q. c (sl_nodes sl ! q) \<longrightarrow> c (sl_nodes sl ! p)) seq"
  defines "m \<equiv> length (takeWhile (\<lambda>p. c (sl_nodes sl ! p)) seq)"
  shows "sl_seek c sl = Some ((0 # seq) ! m)" "m \<le> length seq"
proof -
  let ?ns = "sl_nodes sl"
  have ok: "nodes_ok ?ns (sl_level sl) seq" using assms(1) by (simp add: sl_rep_def)
  show m: "m \<le> length seq" by (simp add: m_def length_takeWhile_le)
  have cut: "c (?ns ! (seq ! j)) \<longleftrightarrow> j < m" if "j < length seq" for j
    unfolding m_def by (rule cut_position[OF _ that]) (use mono sorted_wrt_nth_less in blast)
  have L: "sl_level sl \<le> tall ?ns ((0 # seq) ! 0)" "0 < sl_level sl" using ok by (auto simp: nodes_ok_def)
  from sl_descend_stops[OF ok m _ order_refl le0 L(1), of "\<lambda>n r. c n", OF cut] obtain ks where ks: "length ks = sl_level sl"
    "\<forall>j < sl_level sl. stop_at ?ns seq m j (ks ! j)"
    "sl_descend ?ns (\<lambda>n r. c n) (sl_level sl) ((0 # seq) ! 0) (int 0) = Some (map (\<lambda>k. ((0 # seq) ! k, int k)) ks)" by blast
  then have "ks ! 0 = m" using stop_at_bottom[OF ok m] L(2) by blast
  then show "sl_seek c sl = Some ((0 # seq) ! m)" using ks L(2) by (simp add: sl_seek_def)
qed

lemma first_in_eq:
  assumes "sl_rep sl seq"
    and "sorted_wrt (\<lambda>p q. lo (sl_nodes sl ! p) \<longrightarrow> lo (sl_nodes sl ! q)) seq"
    and "sorted_wrt (\<lambda>p q. hi (sl_nodes sl ! q) \<longrightarrow> hi (sl_nodes sl ! p)) seq"
  shows "first_in lo hi sl = Some (find (\<lambda>p. lo (sl_nodes sl ! p) \<and> hi (sl_nodes sl ! p)) seq)"
proof -
  let ?ns = "sl_nodes sl"
  define m where "m = length (takeWhile (\<lambda>p. \<not> lo (?ns ! p)) seq)"
  have ok: "nodes_ok ?ns (sl_level sl) seq" using assms(1) by (simp add: sl_rep_def)
  have s: "sl_seek (\<lambda>n. \<not> lo n) sl = Some ((0 # seq) ! m)" "m \<le> length seq"
    unfolding m_def by (rule sl_seek_eq[OF assms(1)], rule sorted_wrt_mono_rel[OF _ assms(2)], blast)+
  obtain l where l: "level_at ?ns ((0 # seq) ! m) 0 = Some l" "lv_next l = (if m < length seq then Some (seq ! m) else None)"
    using bottom_next[OF ok s(2)] by blast
  have "node_at ?ns (seq ! m) = Some (?ns ! (seq ! m))" if "m < length seq"
    using ids_lt[OF ok, of "Suc m"] that by (simp add: node_at_def)
  then show ?thesis
    using find_first_in[OF assms(3), of "\<lambda>p. lo (?ns ! p)"] s(1) l
    by (auto simp: first_in_def Let_def m_def[symmetric])
qed

lemma last_in_eq:
  assumes "sl_rep sl seq"
    and "sorted_wrt (\<lambda>p q. lo (sl_nodes sl ! p) \<longrightarrow> lo (sl_nodes sl ! q)) seq"
    and "sorted_wrt (\<lambda>p q. hi (sl_nodes sl ! q) \<longrightarrow> hi (sl_nodes sl ! p)) seq"
  shows "last_in lo hi sl = Some (find (\<lambda>p. lo (sl_nodes sl ! p) \<and> hi (sl_nodes sl ! p)) (rev seq))"
proof -
  let ?ns = "sl_nodes sl"
  define m where "m = length (takeWhile (\<lambda>p. hi (?ns ! p)) seq)"
  have ok: "nodes_ok ?ns (sl_level sl) seq" using assms(1) by (simp add: sl_rep_def)
  have s: "sl_seek hi sl = Some ((0 # seq) ! m)" "m \<le> length seq"
    unfolding m_def by (rule sl_seek_eq[OF assms(1,3)])+
  have nz: "(0 # seq) ! m = 0 \<longleftrightarrow> m = 0" using ok ids_inj[of seq m 0] s(2) by (simp add: nodes_ok_def)
  have "node_at ?ns (seq ! (m - 1)) = Some (?ns ! (seq ! (m - 1)))" if "0 < m"
    using ids_lt[OF ok, of m] that s(2) by (simp add: node_at_def)
  then show ?thesis
    using find_last_in[OF assms(3,2)] s(1) nz
    by (cases m) (auto simp: last_in_def Let_def m_def[symmetric])
qed


lemma sorted_keys: "sl_rep sl seq \<Longrightarrow> sorted_wrt (\<lambda>p q. key_of (sl_nodes sl) p < key_of (sl_nodes sl) q) seq"
  by (simp add: sl_rep_def nodes_ok_def sorted_wrt_map)

lemma sorted_scores: "sl_rep sl seq \<Longrightarrow> sorted_wrt (\<lambda>p q. nd_score (sl_nodes sl ! p) \<le> nd_score (sl_nodes sl ! q)) seq"
  by (rule sorted_wrt_mono_rel[OF _ sorted_keys]) (auto simp: key_of_def less_prod_def')

lemma score_range_find:
  assumes "sl_rep sl seq"
  shows "FirstInScoreRange r sl = Some (find (\<lambda>p. sr_Contains r (nd_score (sl_nodes sl ! p))) seq)"
    "LastInScoreRange r sl = Some (find (\<lambda>p. sr_Contains r (nd_score (sl_nodes sl ! p))) (rev seq))"
proof -
  have "\<not> sr_Contains r x" if "sr_empty r" for x
    using that by (auto simp: sr_Contains_def sr_empty_def sr_aboveMin_def sr_belowMax_def split: if_splits)
  then have e: "find (\<lambda>p. sr_Contains r (nd_score (sl_nodes sl ! p))) qs = None" if "sr_empty r" for qs
    using that by (simp add: find_None_iff)
  have m: "sorted_wrt (\<lambda>p q. sr_aboveMin r (nd_score (sl_nodes sl ! p)) \<longrightarrow> sr_aboveMin r (nd_score (sl_nodes sl ! q))) seq"
    "sorted_wrt (\<lambda>p q. sr_belowMax r (nd_score (sl_nodes sl ! q)) \<longrightarrow> sr_belowMax r (nd_score (sl_nodes sl ! p))) seq"
    by (rule sorted_wrt_mono_rel[OF _ sorted_scores[OF assms]]; auto simp: sr_aboveMin_def sr_belowMax_def)+
  show "FirstInScoreRange r sl = Some (find (\<lambda>p. sr_Contains r (nd_score (sl_nodes sl ! p))) seq)"
    "LastInScoreRange r sl = Some (find (\<lambda>p. sr_Contains r (nd_score (sl_nodes sl ! p))) (rev seq))"
    using e first_in_eq[OF assms m] last_in_eq[OF assms m]
    by (simp_all add: FirstInScoreRange_def LastInScoreRange_def sr_Contains_def)
qed

text \<open>A range by member needs one score for all, as the comment on the type says.\<close>

lemma lex_range_find:
  assumes "sl_rep sl seq" "\<forall>p \<in> set seq. nd_score (sl_nodes sl ! p) = s"
  shows "FirstInLexRange r sl = Some (find (\<lambda>p. lr_Contains r (nd_member (sl_nodes sl ! p))) seq)"
    "LastInLexRange r sl = Some (find (\<lambda>p. lr_Contains r (nd_member (sl_nodes sl ! p))) (rev seq))"
proof -
  have "\<not> lr_Contains r x" if "lr_empty r" for x
    using that by (auto simp: lr_Contains_def lr_empty_def lr_aboveMin_def lr_belowMax_def split: if_splits)
  then have e: "find (\<lambda>p. lr_Contains r (nd_member (sl_nodes sl ! p))) qs = None" if "lr_empty r" for qs
    using that by (simp add: find_None_iff)
  have srt: "sorted_wrt (\<lambda>p q. nd_member (sl_nodes sl ! p) \<le> nd_member (sl_nodes sl ! q)) seq"
    by (rule sorted_wrt_mono_rel[OF _ sorted_keys[OF assms(1)]]) (use assms(2) in \<open>auto simp: key_of_def less_prod_def'\<close>)
  have m: "sorted_wrt (\<lambda>p q. lr_aboveMin r (nd_member (sl_nodes sl ! p)) \<longrightarrow> lr_aboveMin r (nd_member (sl_nodes sl ! q))) seq"
    "sorted_wrt (\<lambda>p q. lr_belowMax r (nd_member (sl_nodes sl ! q)) \<longrightarrow> lr_belowMax r (nd_member (sl_nodes sl ! p))) seq"
    by (rule sorted_wrt_mono_rel[OF _ srt]; auto simp: lr_aboveMin_def lr_belowMax_def)+
  show "FirstInLexRange r sl = Some (find (\<lambda>p. lr_Contains r (nd_member (sl_nodes sl ! p))) seq)"
    "LastInLexRange r sl = Some (find (\<lambda>p. lr_Contains r (nd_member (sl_nodes sl ! p))) (rev seq))"
    using e first_in_eq[OF assms(1) m] last_in_eq[OF assms(1) m]
    by (simp_all add: FirstInLexRange_def LastInLexRange_def lr_Contains_def)
qed

subsection \<open>The contract\<close>

datatype 'f sl_op =
  SlInsert 'f bytes | SlDelete 'f bytes | SlRank 'f bytes | SlNode int | SlFirst | SlLast
  | SlFirstScore "'f ScoreRange" | SlLastScore "'f ScoreRange" | SlFirstLex LexRange | SlLastLex LexRange | SlEntries

datatype 'f sl_reply = RKey "('f \<times> bytes) option" | RBool bool | RRank int | RList "('f \<times> bytes) list"

definition key_at :: "'f skiplist \<Rightarrow> nat option \<Rightarrow> 'f sl_reply go" where
  "key_at sl x =
     (case x of None \<Rightarrow> Some (RKey None)
      | Some p \<Rightarrow> map_option (\<lambda>n. RKey (Some (nd_score n, nd_member n))) (node_at (sl_nodes sl) p))"

definition query :: "'f skiplist \<Rightarrow> nat option go \<Rightarrow> ('f skiplist \<times> 'f sl_reply) go" where
  "query sl g = do { x \<leftarrow> g; r \<leftarrow> key_at sl x; Some (sl, r) }"

fun sl_step :: "('f :: linorder) sl_op \<Rightarrow> 'f skiplist \<Rightarrow> ('f skiplist \<times> 'f sl_reply) go" where
  "sl_step (SlInsert s m) sl = do { (sl', p) \<leftarrow> sl_Insert s m sl; query sl' (Some (Some p)) }"
| "sl_step (SlDelete s m) sl = do { (sl', b) \<leftarrow> sl_Delete s m sl; Some (sl', RBool b) }"
| "sl_step (SlRank s m) sl = do { r \<leftarrow> sl_Rank s m sl; Some (sl, RRank r) }"
| "sl_step (SlNode r) sl = query sl (NodeByRank r sl)"
| "sl_step SlFirst sl = query sl (sl_First sl)"
| "sl_step SlLast sl = query sl (Some (sl_Last sl))"
| "sl_step (SlFirstScore r) sl = query sl (FirstInScoreRange r sl)"
| "sl_step (SlLastScore r) sl = query sl (LastInScoreRange r sl)"
| "sl_step (SlFirstLex r) sl = query sl (FirstInLexRange r sl)"
| "sl_step (SlLastLex r) sl = query sl (LastInLexRange r sl)"
| "sl_step SlEntries sl = do { xs \<leftarrow> sl_entries sl; Some (sl, RList xs) }"

fun sl_spec :: "('f :: linorder) sl_op \<Rightarrow> ('f \<times> bytes) list \<Rightarrow> ('f \<times> bytes) list \<times> 'f sl_reply" where
  "sl_spec (SlInsert s m) xs = (insort (s, m) xs, RKey (Some (s, m)))"
| "sl_spec (SlDelete s m) xs = (remove1 (s, m) xs, RBool ((s, m) \<in> set xs))"
| "sl_spec (SlRank s m) xs = (xs, RRank (rank_spec (s, m) xs))"
| "sl_spec (SlNode r) xs = (xs, RKey (if 0 < r \<and> r \<le> int (length xs) then Some (xs ! nat (r - 1)) else None))"
| "sl_spec SlFirst xs = (xs, RKey (if xs = [] then None else Some (hd xs)))"
| "sl_spec SlLast xs = (xs, RKey (if xs = [] then None else Some (last xs)))"
| "sl_spec (SlFirstScore r) xs = (xs, RKey (find (\<lambda>x. sr_Contains r (fst x)) xs))"
| "sl_spec (SlLastScore r) xs = (xs, RKey (find (\<lambda>x. sr_Contains r (fst x)) (rev xs)))"
| "sl_spec (SlFirstLex r) xs = (xs, RKey (find (\<lambda>x. lr_Contains r (snd x)) xs))"
| "sl_spec (SlLastLex r) xs = (xs, RKey (find (\<lambda>x. lr_Contains r (snd x)) (rev xs)))"
| "sl_spec SlEntries xs = (xs, RList xs)"

text \<open>What the callers guarantee: an inserted key is new, and a range by member is asked of one score only.\<close>

fun sl_ok :: "('f :: linorder) sl_op \<Rightarrow> ('f \<times> bytes) list \<Rightarrow> bool" where
  "sl_ok (SlInsert s m) xs \<longleftrightarrow> (s, m) \<notin> set xs"
| "sl_ok (SlFirstLex r) xs \<longleftrightarrow> (\<forall>x \<in> set xs. fst x = fst (hd xs))"
| "sl_ok (SlLastLex r) xs \<longleftrightarrow> (\<forall>x \<in> set xs. fst x = fst (hd xs))"
| "sl_ok op xs \<longleftrightarrow> True"

definition sl_holds :: "('f :: linorder) skiplist \<Rightarrow> ('f \<times> bytes) list \<Rightarrow> bool" where
  "sl_holds sl xs \<longleftrightarrow> (\<exists>seq. sl_rep sl seq \<and> xs = map (key_of (sl_nodes sl)) seq)"

lemma find_over_map: "find P (map f xs) = map_option f (find (\<lambda>x. P (f x)) xs)"
  by (induction xs) auto

lemma find_in: "set_option (find P xs) \<subseteq> set xs"
  by (cases "find P xs") (auto simp: find_Some_iff)

lemma query_eq:
  assumes "sl_rep sl seq" "g = Some x" "set_option x \<subseteq> set seq"
  shows "query sl g = Some (sl, RKey (map_option (key_of (sl_nodes sl)) x))"
proof (cases x)
  case (Some p)
  then have "p < length (sl_nodes sl)" using assms(1,3) by (auto simp: sl_rep_def nodes_ok_def)
  then show ?thesis using assms(2) Some by (simp add: query_def key_at_def node_at_def key_of_def)
qed (use assms(2) in \<open>simp add: query_def key_at_def\<close>)

lemma sl_step_insert:
  assumes "sl_holds sl xs" "(s, m) \<notin> set xs"
  shows "\<exists>sl'. sl_step (SlInsert s m) sl = Some (sl', RKey (Some (s, m))) \<and> sl_holds sl' (insort (s, m) xs)"
proof -
  obtain seq where seq: "sl_rep sl seq" "xs = map (key_of (sl_nodes sl)) seq" using assms(1) by (auto simp: sl_holds_def)
  let ?m = "length (takeWhile (\<lambda>p. key_of (sl_nodes sl) p < (s, m)) seq)"
  obtain sl' p where i: "sl_Insert s m sl = Some (sl', p)" "sl_rep sl' (insert_at ?m p seq)" "key_of (sl_nodes sl') p = (s, m)"
      "\<forall>q \<in> set seq. key_of (sl_nodes sl') q = key_of (sl_nodes sl) q"
    using sl_Insert_rep[OF seq(1)] assms(2) seq(2) by force
  have eq: "map (key_of (sl_nodes sl')) seq = xs" using i(4) seq(2) by simp
  have "sorted_wrt (<) xs" using sorted_keys[OF seq(1)] seq(2) by (simp add: sorted_wrt_map)
  then have "insort (s, m) xs = insert_at (length (takeWhile (\<lambda>x. x < (s, m)) xs)) (s, m) xs" by (rule insort_insert_at[OF _ assms(2)])
  moreover have "length (takeWhile (\<lambda>x. x < (s, m)) xs) = ?m" unfolding seq(2) by (rule length_takeWhile_map)
  ultimately have "map (key_of (sl_nodes sl')) (insert_at ?m p seq) = insort (s, m) xs" by (simp only: map_insert_at i(3) eq)
  then have "sl_holds sl' (insort (s, m) xs)" using i(2) unfolding sl_holds_def by metis
  moreover have "query sl' (Some (Some p)) = Some (sl', RKey (Some (s, m)))" using query_eq[OF i(2)] i(3) by auto
  ultimately show ?thesis using i(1) by auto
qed

lemma sl_step_delete:
  assumes "sl_holds sl xs"
  shows "\<exists>sl'. sl_step (SlDelete s m) sl = Some (sl', RBool ((s, m) \<in> set xs)) \<and> sl_holds sl' (remove1 (s, m) xs)"
proof -
  obtain seq where seq: "sl_rep sl seq" "xs = map (key_of (sl_nodes sl)) seq" using assms(1) by (auto simp: sl_holds_def)
  have "sorted_wrt (<) xs" using sorted_keys[OF seq(1)] seq(2) by (simp add: sorted_wrt_map)
  then have d: "distinct xs" by (simp add: strict_sorted_iff)
  show ?thesis
  proof (cases "(s, m) \<in> set xs")
    case False
    then show ?thesis using sl_Delete_rep[OF seq(1), of s m] seq(2) assms by (auto simp: remove1_idem)
  next
    case True
    then obtain sl' k where k: "k < length seq" "key_of (sl_nodes sl) (seq ! k) = (s, m)" "sl_Delete s m sl = Some (sl', True)"
        "sl_rep sl' (remove_at k seq)" "\<forall>q \<in> set seq. key_of (sl_nodes sl') q = key_of (sl_nodes sl) q"
      using sl_Delete_rep[OF seq(1), of s m] seq(2) by auto
    have "map (key_of (sl_nodes sl')) (remove_at k seq) = remove_at k xs"
      using k(5) set_remove_at_subset[of k seq] seq(2) by (auto simp flip: map_remove_at)
    also have "\<dots> = remove1 (s, m) xs" using remove1_remove_at[OF d, of k] k(1,2) seq(2) by simp
    finally show ?thesis using k(3,4) True unfolding sl_holds_def by auto
  qed
qed

interpretation skip: guarded_simulation sl_holds newSkiplist "[]" sl_ok sl_step sl_spec
proof
  show "sl_holds (newSkiplist :: ('f :: {linorder, zero}) skiplist) []" using newSkiplist_rep by (auto simp: sl_holds_def)
next
  fix sl :: "('f :: {linorder, zero}) skiplist" and xs op
  assume h: "sl_holds sl xs" and ok: "sl_ok op xs"
  obtain seq where seq: "sl_rep sl seq" "xs = map (key_of (sl_nodes sl)) seq" using h by (auto simp: sl_holds_def)
  have empty: "seq = [] \<longleftrightarrow> xs = []" and len: "length xs = length seq" using seq(2) by auto
  have scores: "\<exists>s. \<forall>p \<in> set seq. nd_score (sl_nodes sl ! p) = s" if "\<forall>x \<in> set xs. fst x = fst (hd xs)"
    using that seq(2) by (auto simp: key_of_def)
  note q = query_eq[OF seq(1)]
  have in_rev: "set_option (find P (rev seq)) \<subseteq> set seq" for P using find_in[of P "rev seq"] by simp
  show "\<exists>sl'. sl_step op sl = Some (sl', snd (sl_spec op xs)) \<and> sl_holds sl' (fst (sl_spec op xs))"
  proof (cases op)
    case (SlInsert s m)
    then show ?thesis using sl_step_insert[OF h, of s m] ok by simp
  next
    case (SlDelete s m)
    then show ?thesis using sl_step_delete[OF h] by simp
  next
    case (SlRank s m)
    then show ?thesis using sl_Rank_eq[OF seq(1)] seq(2) h by simp
  next
    case (SlNode r)
    have "query sl (NodeByRank r sl) = Some (sl, RKey (map_option (key_of (sl_nodes sl))
        (if 0 < r \<and> r \<le> int (length seq) then Some (seq ! nat (r - 1)) else None)))"
      by (rule q[OF NodeByRank_eq[OF seq(1)]]) auto
    then show ?thesis using SlNode seq(2) h by auto
  next
    case SlFirst
    have "query sl (sl_First sl) = Some (sl, RKey (map_option (key_of (sl_nodes sl)) (if seq = [] then None else Some (hd seq))))"
      by (rule q[OF sl_First_eq[OF seq(1)]]) auto
    then show ?thesis using SlFirst seq(2) h by (auto simp: hd_map)
  next
    case SlLast
    have "sl_Last sl = (if seq = [] then None else Some (last seq))" using seq(1) by (simp add: sl_Last_def sl_rep_def)
    then have "query sl (Some (sl_Last sl)) = Some (sl, RKey (map_option (key_of (sl_nodes sl)) (if seq = [] then None else Some (last seq))))"
      by (intro q) auto
    then show ?thesis using SlLast seq(2) h by (auto simp: last_map)
  next
    case (SlFirstScore r)
    show ?thesis using SlFirstScore q[OF score_range_find(1)[OF seq(1)] find_in] seq(2) h by (simp add: find_over_map key_of_def)
  next
    case (SlLastScore r)
    show ?thesis using SlLastScore q[OF score_range_find(2)[OF seq(1)] in_rev] seq(2) h by (simp add: find_over_map key_of_def rev_map)
  next
    case (SlFirstLex r)
    then obtain s where s: "\<forall>p \<in> set seq. nd_score (sl_nodes sl ! p) = s" using scores ok by auto
    show ?thesis using SlFirstLex q[OF lex_range_find(1)[OF seq(1) s] find_in] seq(2) h by (simp add: find_over_map key_of_def)
  next
    case (SlLastLex r)
    then obtain s where s: "\<forall>p \<in> set seq. nd_score (sl_nodes sl ! p) = s" using scores ok by auto
    show ?thesis using SlLastLex q[OF lex_range_find(2)[OF seq(1) s] in_rev] seq(2) h by (simp add: find_over_map key_of_def rev_map)
  next
    case SlEntries
    then show ?thesis using sl_entries_eq[OF seq(1)] seq(2) h by simp
  qed
qed


subsection \<open>The self-check never complains\<close>

lemma sl_chain_eq:
  assumes "nodes_ok ns L seq"
  shows "k \<le> length seq \<Longrightarrow> length seq - k \<le> fuel \<Longrightarrow>
    sl_chain fuel ns (if k < length seq then Some (seq ! k) else None) = Some (drop k seq)"
proof (induction fuel arbitrary: k)
  case (Suc fuel)
  show ?case
  proof (cases "k < length seq")
    case True
    obtain l where "level_at ns (seq ! k) 0 = Some l" "lv_next l = (if Suc k < length seq then Some (seq ! Suc k) else None)"
      using bottom_next[OF assms, of "Suc k"] True by auto
    then show ?thesis using True Suc.IH[of "Suc k"] Suc.prems by (simp add: Cons_nth_drop_Suc[symmetric])
  qed simp
qed simp

lemma check_order_eq:
  assumes ok: "nodes_ok ns L seq" and backs: "backs_ok ns seq"
  shows "k \<le> length seq \<Longrightarrow> check_order ns (if k = 0 then None else Some (seq ! (k - 1))) (drop k seq) = Some None"
proof (induction "length seq - k" arbitrary: k)
  case (Suc n)
  then have k: "k < length seq" by simp
  have na: "node_at ns (seq ! j) = Some (ns ! (seq ! j))" if "j < length seq" for j
    using ids_lt[OF ok, of "Suc j"] that by (simp add: node_at_def)
  have b: "nd_back (ns ! (seq ! k)) = (if k = 0 then None else Some (seq ! (k - 1)))" using backs k by (simp add: backs_ok_def)
  have "key_of ns (seq ! (k - 1)) < key_of ns (seq ! k)" if "k \<noteq> 0"
    using ok k that sorted_wrt_nth_less[of "(<)" "map (key_of ns) seq" "k - 1" k] by (simp add: nodes_ok_def)
  moreover have dk: "drop k seq = seq ! k # drop (Suc k) seq" using k by (simp add: Cons_nth_drop_Suc)
  ultimately show ?case
    using Suc.hyps(1)[of "Suc k"] Suc.hyps(2) k na[OF k] na[of "k - 1"] b unfolding dk
    by (cases "k = 0") (auto simp: key_of_def less_prod_def')
qed simp

lemma sl_pos_nth: "distinct seq \<Longrightarrow> k < length seq \<Longrightarrow> sl_pos seq (seq ! k) = int (Suc k)"
proof -
  assume a: "distinct seq" "k < length seq"
  have "takeWhile (\<lambda>q. q \<noteq> seq ! k) (take k seq @ seq ! k # drop (Suc k) seq) = take k seq"
    using a by (subst takeWhile_append2) (auto simp: in_set_conv_nth nth_eq_iff_index_eq)
  then show ?thesis using a id_take_nth_drop[OF a(2)] by (simp add: sl_pos_def)
qed

lemma check_span_eq:
  assumes ok: "nodes_ok ns L seq" and i: "i < L"
  shows "k \<le> length seq \<Longrightarrow> i < tall ns ((0 # seq) ! k) \<Longrightarrow> length seq - k < fuel \<Longrightarrow>
    check_span fuel ns seq i ((0 # seq) ! k) (int k) = Some None"
proof (induction fuel arbitrary: k)
  case (Suc fuel)
  let ?l = "lvl ns ((0 # seq) ! k) i"
  have l: "lv_next ?l = fst (next_tall (tall ns) i (drop k seq))" "lv_span ?l = int (snd (next_tall (tall ns) i (drop k seq)))"
    using ok i Suc.prems(1,2) unfolding nodes_ok_def levels_ok_def by blast+
  have la: "level_at ns ((0 # seq) ! k) i = Some ?l" by (rule level_at_eq[OF ids_lt[OF ok Suc.prems(1)] Suc.prems(2)])
  have d: "distinct seq" using ok by (simp add: nodes_ok_def)
  show ?case
  proof (rule next_tall_cases[of "tall ns" i "drop k seq"])
    assume "next_tall (tall ns) i (drop k seq) = (None, length (drop k seq))"
    then show ?thesis using la l by simp
  next
    fix j assume n: "next_tall (tall ns) i (drop k seq) = (Some (drop k seq ! j), Suc j)" "j < length (drop k seq)" "i < tall ns (drop k seq ! j)"
    have y: "drop k seq ! j = seq ! (k + j)" "k + j < length seq" using n(2) by auto
    have "check_span fuel ns seq i ((0 # seq) ! Suc (k + j)) (int (Suc (k + j))) = Some None"
      using Suc.IH[of "Suc (k + j)"] y n(3) Suc.prems(3) by (simp del: of_nat_Suc)
    then show ?thesis using la l n(1) y sl_pos_nth[OF d y(2)] by simp
  qed
qed simp

lemma check_spans_eq:
  assumes "nodes_ok ns L seq"
  shows "\<forall>i \<in> set is. i < L \<Longrightarrow> check_spans ns seq is = Some None"
proof (induction "is")
  case (Cons i "is")
  have "i < tall ns ((0 # seq) ! 0)" using assms Cons.prems by (simp add: nodes_ok_def)
  then show ?case using check_span_eq[OF assms, of i 0 "length ns"] nodes_ok_room[OF assms] Cons by simp
qed simp

lemma check_ranks_eq:
  assumes "sl_rep sl seq"
  shows "k \<le> length seq \<Longrightarrow> check_ranks sl (int k) (drop k seq) = Some None"
proof (induction "length seq - k" arbitrary: k)
  case (Suc n)
  then have k: "k < length seq" by simp
  let ?xs = "map (key_of (sl_nodes sl)) seq"
  have "seq ! k < length (sl_nodes sl)" using assms nth_mem[OF k] by (auto simp: sl_rep_def nodes_ok_def)
  then have na: "node_at (sl_nodes sl) (seq ! k) = Some (sl_nodes sl ! (seq ! k))" by (simp add: node_at_def)
  have srt: "sorted_wrt (<) ?xs" using sorted_keys[OF assms] by (simp add: sorted_wrt_map)
  have "length (takeWhile (\<lambda>x. x < ?xs ! k) ?xs) = k" using length_takeWhile_nth[OF srt] k by simp
  then have "rank_spec (key_of (sl_nodes sl) (seq ! k)) ?xs = int k + 1" using k by (simp add: rank_spec_def)
  then have "sl_Rank (nd_score (sl_nodes sl ! (seq ! k))) (nd_member (sl_nodes sl ! (seq ! k))) sl = Some (int k + 1)"
    using sl_Rank_eq[OF assms] by (simp add: key_of_def)
  moreover have "NodeByRank (int k + 1) sl = Some (Some (seq ! k))" using NodeByRank_eq[OF assms, of "int k + 1"] k by simp
  ultimately show ?case
    using Suc.hyps(1)[of "Suc k"] Suc.hyps(2) k na by (simp add: Cons_nth_drop_Suc[symmetric] add.commute)
qed simp

lemma checkInvariants_ok: "sl_holds sl xs \<Longrightarrow> checkInvariants sl = Some None"
proof -
  assume "sl_holds sl xs"
  then obtain seq where rep: "sl_rep sl seq" by (auto simp: sl_holds_def)
  then have ok: "nodes_ok (sl_nodes sl) (sl_level sl) seq" "backs_ok (sl_nodes sl) seq" "sl_length sl = int (length seq)"
      "sl_tail sl = (if seq = [] then None else Some (last seq))" by (auto simp: sl_rep_def)
  have "sl_chain (length (sl_nodes sl)) (sl_nodes sl) (if seq = [] then None else Some (hd seq)) = Some seq"
    using sl_chain_eq[OF ok(1), of 0 "length (sl_nodes sl)"] nodes_ok_room[OF ok(1)] by (auto simp: hd_conv_nth)
  moreover have "check_order (sl_nodes sl) None seq = Some None" using check_order_eq[OF ok(1,2), of 0] by simp
  moreover have "check_spans (sl_nodes sl) seq [0 ..< sl_level sl] = Some None" by (rule check_spans_eq[OF ok(1)]) simp
  moreover have "check_ranks sl 0 seq = Some None" using check_ranks_eq[OF rep, of 0] by simp
  moreover have "1 \<le> sl_level sl" "sl_level sl \<le> skiplistMaxLevel" using ok(1) by (auto simp: nodes_ok_def)
  ultimately show ?thesis
    using sl_First_eq[OF rep] NodeByRank_eq[OF rep, of 0] NodeByRank_eq[OF rep, of "sl_length sl + 1"] ok(3,4)
    by (auto simp: checkInvariants_def)
qed

subsection \<open>Properties\<close>

text \<open>C6: Whatever sequence of inserts of new keys, deletes and queries a skip list sees, with whatever heights its
  generator draws, it answers as the sorted list of its keys does: ranks and nodes by rank count positions of that list,
  the range searches find its first and last element in the range, and no pointer or level is ever out of range.\<close>

theorem skiplist_refines_sorted_list:
  fixes ops :: "('f :: {linorder, zero}) sl_op list"
  assumes "ok_run sl_ok sl_spec ops []"
  shows "\<exists>sl. go_run sl_step ops newSkiplist = Some (sl, snd (spec_run sl_spec ops [])) \<and>
    sl_entries sl = Some (fst (spec_run sl_spec ops [])) \<and> sorted_wrt (<) (fst (spec_run sl_spec ops []))"
proof -
  obtain sl where sl: "go_run sl_step ops newSkiplist = Some (sl, snd (spec_run sl_spec ops []))" "sl_holds sl (fst (spec_run sl_spec ops []))"
    using skip.guarded_run_new[OF assms] by blast
  then obtain seq where "sl_rep sl seq" "fst (spec_run sl_spec ops []) = map (key_of (sl_nodes sl)) seq" by (auto simp: sl_holds_def)
  then show ?thesis using sl(1) sl_entries_eq[of sl seq] sorted_keys[of sl seq] by (simp add: sorted_wrt_map)
qed

theorem skiplist_refines_sorted_list_witness:
  "\<exists>sl. go_run sl_step [SlInsert (2 :: int) [98], SlInsert 1 [97], SlInsert 2 [97], SlRank 2 [98], SlDelete 1 [97], SlNode 1] newSkiplist =
    Some (sl, [RKey (Some (2, [98])), RKey (Some (1, [97])), RKey (Some (2, [97])), RRank 3, RBool True, RKey (Some (2, [97]))])"
proof -
  let ?ops = "[SlInsert (2 :: int) [98], SlInsert 1 [97], SlInsert 2 [97], SlRank 2 [98], SlDelete 1 [97], SlNode 1]"
  have "ok_run sl_ok sl_spec ?ops []" by (simp add: less_eq_prod_def)
  from skiplist_refines_sorted_list[OF this] show ?thesis by (auto simp: less_eq_prod_def rank_spec_def less_prod_def')
qed

text \<open>C32: After any such sequence the structure is well formed by the code's own standard: the self-check, which compares
  order, back pointers, every span, the tail, and the rank of every node with a count along the bottom level, reports nothing.\<close>

theorem skiplist_check_passes:
  fixes ops :: "('f :: {linorder, zero}) sl_op list"
  assumes "ok_run sl_ok sl_spec ops []" "go_run sl_step ops newSkiplist = Some (sl, rs)"
  shows "checkInvariants sl = Some None"
  using skip.guarded_run_new[OF assms(1)] assms(2) checkInvariants_ok by auto

theorem skiplist_check_passes_witness:
  "\<exists>sl rs. go_run sl_step [SlInsert (2 :: int) [98], SlInsert 1 [97], SlDelete 2 [98]] newSkiplist = Some (sl, rs) \<and> checkInvariants sl = Some None"
proof -
  let ?ops = "[SlInsert (2 :: int) [98], SlInsert 1 [97], SlDelete 2 [98]]"
  have ok: "ok_run sl_ok sl_spec ?ops []" by simp
  then obtain sl where "go_run sl_step ?ops newSkiplist = Some (sl, snd (spec_run sl_spec ?ops []))" using skip.guarded_run_new by blast
  with skiplist_check_passes[OF ok this] show ?thesis by blast
qed

end
