(* ===== verification/Sorted_Set.thy ===== *)
theory Sorted_Set
  imports Skiplist Dict_Map List_Type Decimal
begin

text \<open>
  The sorted set value of \<open>engine/zset.go\<close>: a listpack of alternating members and
  rendered scores while it is small, a skip list paired with a dict from members to scores
  afterwards. A score is an element of a linear order, as in the skip list; rendering and
  parsing it are the standard library's and come as the argument \<open>fl\<close>. What the code
  relies on is that parsing a rendered score gives the score back (\<open>floats_ok\<close>).
  Random sampling is not modelled.
\<close>

subsection \<open>Scores\<close>

record 'f floats =
  fl_Format :: "'f \<Rightarrow> bytes"
  fl_Parse :: "bytes \<Rightarrow> 'f option"

definition floats_ok :: "'f floats \<Rightarrow> bool" where
  "floats_ok fl \<longleftrightarrow> (\<forall>s. fl_Parse fl (fl_Format fl s) = Some s \<and> len_ok (fl_Format fl s))"

subsection \<open>The type\<close>

type_synonym 'f zmember = "'f \<times> bytes"

record 'f zset =
  z_lp :: "listpack option"
  z_sl :: "'f skiplist option"
  z_m :: "'f dict option"

definition newZSet :: "'f zset" where
  "newZSet = \<lparr>z_lp = Some newListpack, z_sl = None, z_m = None\<rparr>"

definition z_Len :: "'f zset \<Rightarrow> int go" where
  "z_Len z = (case z_lp z of Some p \<Rightarrow> Some (int (lp_Len p div 2)) | None \<Rightarrow> map_option d_len (z_m z))"

definition z_Encoding :: "'f zset \<Rightarrow> encoding" where
  "z_Encoding z = (if z_lp z \<noteq> None then EncodingListpack else EncodingSkiplist)"

text \<open>\<open>lpAt\<close> drops the error of the parser, which then returned zero.\<close>

definition z_lpAt :: "('f :: zero) floats \<Rightarrow> listpack \<Rightarrow> int \<Rightarrow> (bytes \<times> 'f) go" where
  "z_lpAt fl p i =
     do {
       m \<leftarrow> lp_At p (i * 2);
       r \<leftarrow> lp_At p (i * 2 + 1);
       Some (nil_bytes m, (case fl_Parse fl (nil_bytes r) of None \<Rightarrow> 0 | Some s \<Rightarrow> s))
     }"

definition z_lpFind :: "listpack \<Rightarrow> bytes \<Rightarrow> int go" where
  "z_lpFind p member = do { i \<leftarrow> lp_IndexOfStep p member 2 0; Some (if i < 0 then -1 else i div 2) }"

definition z_lpSearch :: "('f :: {linorder, zero}) floats \<Rightarrow> listpack \<Rightarrow> 'f \<Rightarrow> bytes \<Rightarrow> nat go" where
  "z_lpSearch fl p score member =
     sort_Search (lp_Len p div 2)
       (\<lambda>i. do { (m, s) \<leftarrow> z_lpAt fl p (int i); Some (if s \<noteq> score then s > score else m \<ge> member) })"

definition z_Score :: "(bytes \<Rightarrow> 32 word) \<Rightarrow> ('f :: zero) floats \<Rightarrow> bytes \<Rightarrow> 'f zset \<Rightarrow> 'f option go" where
  "z_Score hf fl member z =
     (case z_lp z of
        None \<Rightarrow> do { d \<leftarrow> z_m z; d_get hf d member }
      | Some p \<Rightarrow>
          do {
            i \<leftarrow> z_lpFind p member;
            (if i < 0 then Some None else do { (m, s) \<leftarrow> z_lpAt fl p i; Some (Some s) })
          })"

definition z_lpInsert :: "('f :: {linorder, zero}) floats \<Rightarrow> 'f \<Rightarrow> bytes \<Rightarrow> listpack \<Rightarrow> listpack go" where
  "z_lpInsert fl score member p =
     do {
       at \<leftarrow> z_lpSearch fl p score member;
       p \<leftarrow> lp_InsertAt p (int at * 2) member;
       lp_InsertAt p (int at * 2 + 1) (fl_Format fl score)
     }"

text \<open>Moving \<open>n\<close> members from position \<open>i\<close> on into the two new structures.\<close>

fun promote_loop :: "(bytes \<Rightarrow> 32 word) \<Rightarrow> ('f :: {linorder, zero}) floats \<Rightarrow> listpack \<Rightarrow> nat \<Rightarrow> nat \<Rightarrow>
    'f skiplist \<times> 'f dict \<Rightarrow> ('f skiplist \<times> 'f dict) go" where
  "promote_loop hf fl p i 0 (sl, m) = Some (sl, m)"
| "promote_loop hf fl p i (Suc n) (sl, m) =
     do {
       (member, score) \<leftarrow> z_lpAt fl p (int i);
       (sl, x) \<leftarrow> sl_Insert score member sl;
       (m, b) \<leftarrow> d_set hf m member score;
       promote_loop hf fl p (Suc i) n (sl, m)
     }"

definition z_promoteIfNeeded :: "(bytes \<Rightarrow> 32 word) \<Rightarrow> ('f :: {linorder, zero}) floats \<Rightarrow> Thresholds \<Rightarrow> int \<Rightarrow> 'f zset \<Rightarrow> 'f zset go" where
  "z_promoteIfNeeded hf fl t longest z =
     (case z_lp z of
        None \<Rightarrow> Some z
      | Some p \<Rightarrow>
          if int (lp_Len p div 2) \<le> ZSetMaxListpackEntries t \<and> longest \<le> ZSetMaxListpackValue t then Some z
          else do {
            (sl, m) \<leftarrow> promote_loop hf fl p 0 (lp_Len p div 2) (newSkiplist, newDict);
            Some \<lparr>z_lp = None, z_sl = Some sl, z_m = Some m\<rparr>
          })"

definition z_Add :: "(bytes \<Rightarrow> 32 word) \<Rightarrow> ('f :: {linorder, zero}) floats \<Rightarrow> bytes \<Rightarrow> 'f \<Rightarrow> Thresholds \<Rightarrow> 'f zset \<Rightarrow> ('f zset \<times> bool) go" where
  "z_Add hf fl member score t z =
     (case z_lp z of
        None \<Rightarrow>
          do {
            m \<leftarrow> z_m z;
            sl \<leftarrow> z_sl z;
            old \<leftarrow> d_get hf m member;
            (if old = Some score then Some (z, False)
             else do {
               sl \<leftarrow> (case old of None \<Rightarrow> Some sl | Some s \<Rightarrow> map_option fst (sl_Delete s member sl));
               (sl, x) \<leftarrow> sl_Insert score member sl;
               (m, b) \<leftarrow> d_set hf m member score;
               Some (z\<lparr>z_sl := Some sl, z_m := Some m\<rparr>, old = None)
             })
          }
      | Some p \<Rightarrow>
          do {
            i \<leftarrow> z_lpFind p member;
            (if i \<ge> 0 then
               do {
                 (m, old) \<leftarrow> z_lpAt fl p i;
                 (if old = score then Some (z, False)
                  else do {
                    p \<leftarrow> lp_DeleteRun p (i * 2) 2;
                    p \<leftarrow> z_lpInsert fl score member p;
                    Some (z\<lparr>z_lp := Some p\<rparr>, False)
                  })
               }
             else
               do {
                 p \<leftarrow> z_lpInsert fl score member p;
                 z \<leftarrow> z_promoteIfNeeded hf fl t (int (length member)) (z\<lparr>z_lp := Some p\<rparr>);
                 Some (z, True)
               })
          })"

definition z_Remove :: "(bytes \<Rightarrow> 32 word) \<Rightarrow> bytes \<Rightarrow> ('f :: linorder) zset \<Rightarrow> ('f zset \<times> bool) go" where
  "z_Remove hf member z =
     (case z_lp z of
        None \<Rightarrow>
          do {
            m \<leftarrow> z_m z;
            sl \<leftarrow> z_sl z;
            old \<leftarrow> d_get hf m member;
            (case old of
               None \<Rightarrow> Some (z, False)
             | Some score \<Rightarrow>
                 do {
                   (sl, b) \<leftarrow> sl_Delete score member sl;
                   (m, b) \<leftarrow> d_delete hf m member;
                   Some (z\<lparr>z_sl := Some sl, z_m := Some m\<rparr>, True)
                 })
          }
      | Some p \<Rightarrow>
          do {
            i \<leftarrow> z_lpFind p member;
            (if i < 0 then Some (z, False)
             else do { p \<leftarrow> lp_DeleteRun p (i * 2) 2; Some (z\<lparr>z_lp := Some p\<rparr>, True) })
          })"

definition z_Rank :: "(bytes \<Rightarrow> 32 word) \<Rightarrow> bytes \<Rightarrow> bool \<Rightarrow> ('f :: linorder) zset \<Rightarrow> int option go" where
  "z_Rank hf member rv z =
     do {
       r \<leftarrow>
         (case z_lp z of
            None \<Rightarrow>
              do {
                m \<leftarrow> z_m z;
                sl \<leftarrow> z_sl z;
                s \<leftarrow> d_get hf m member;
                (case s of None \<Rightarrow> Some None
                 | Some score \<Rightarrow> do { r \<leftarrow> sl_Rank score member sl; Some (Some (r - 1)) })
              }
          | Some p \<Rightarrow> do { i \<leftarrow> z_lpFind p member; Some (if i < 0 then None else Some i) });
       (case r of
          None \<Rightarrow> Some None
        | Some rank \<Rightarrow> if rv then do { n \<leftarrow> z_Len z; Some (Some (n - 1 - rank)) } else Some (Some rank))
     }"

fun lp_members :: "('f :: zero) floats \<Rightarrow> listpack \<Rightarrow> nat \<Rightarrow> nat \<Rightarrow> 'f zmember list go" where
  "lp_members fl p i 0 = Some []"
| "lp_members fl p i (Suc n) =
     do { (member, score) \<leftarrow> z_lpAt fl p (int i); rest \<leftarrow> lp_members fl p (Suc i) n; Some ((score, member) # rest) }"

text \<open>\<open>Each\<close> with a callback that never stops, which is how every caller uses it.\<close>

definition z_All :: "('f :: zero) floats \<Rightarrow> 'f zset \<Rightarrow> 'f zmember list go" where
  "z_All fl z =
     (case z_lp z of
        None \<Rightarrow> do { sl \<leftarrow> z_sl z; sl_entries sl }
      | Some p \<Rightarrow> lp_members fl p 0 (lp_Len p div 2))"

subsection \<open>Ranges\<close>

text \<open>\<open>reverseMembers\<close>: the swaps of the loop with \<open>i\<close> and \<open>j\<close> closing in.\<close>

fun swap_loop :: "nat \<Rightarrow> int \<Rightarrow> int \<Rightarrow> 'a list \<Rightarrow> 'a list" where
  "swap_loop 0 i j m = m"
| "swap_loop (Suc fuel) i j m =
     (if i < j then swap_loop fuel (i + 1) (j - 1) (m[nat i := m ! nat j, nat j := m ! nat i]) else m)"

definition reverseMembers :: "'a list \<Rightarrow> 'a list" where
  "reverseMembers m = swap_loop (length m) 0 (int (length m) - 1) m"

definition applyLimit :: "'a list \<Rightarrow> int \<Rightarrow> int \<Rightarrow> 'a list" where
  "applyLimit xs offset cnt =
     (if offset < 0 then []
      else if offset \<ge> int (length xs) then []
      else
        let xs = drop (nat offset) xs
        in if cnt \<ge> 0 \<and> cnt < int (length xs) then take (nat cnt) xs else xs)"

definition z_RangeByRank :: "('f :: zero) floats \<Rightarrow> int \<Rightarrow> int \<Rightarrow> bool \<Rightarrow> 'f zset \<Rightarrow> 'f zmember list go" where
  "z_RangeByRank fl start stop rv z =
     do {
       xs \<leftarrow> z_All fl z;
       let xs = (if rv then reverseMembers xs else xs);
       let (lo, hi, ok) = clampRange start stop (int (length xs));
       (if \<not> ok then Some [] else go_slice xs lo (hi + 1))
     }"

definition z_RangeByScore :: "('f :: {linorder, zero}) floats \<Rightarrow> 'f ScoreRange \<Rightarrow> bool \<Rightarrow> int \<Rightarrow> int \<Rightarrow> 'f zset \<Rightarrow> 'f zmember list go" where
  "z_RangeByScore fl r rv offset cnt z =
     do {
       xs \<leftarrow> z_All fl z;
       let out = filter (\<lambda>x. sr_Contains r (fst x)) xs;
       Some (applyLimit (if rv then reverseMembers out else out) offset cnt)
     }"

definition z_RangeByLex :: "('f :: zero) floats \<Rightarrow> LexRange \<Rightarrow> bool \<Rightarrow> int \<Rightarrow> int \<Rightarrow> 'f zset \<Rightarrow> 'f zmember list go" where
  "z_RangeByLex fl r rv offset cnt z =
     do {
       xs \<leftarrow> z_All fl z;
       let out = filter (\<lambda>x. lr_Contains r (snd x)) xs;
       Some (applyLimit (if rv then reverseMembers out else out) offset cnt)
     }"

definition z_Count :: "('f :: {linorder, zero}) floats \<Rightarrow> 'f ScoreRange \<Rightarrow> 'f zset \<Rightarrow> int go" where
  "z_Count fl r z = do { xs \<leftarrow> z_All fl z; Some (int (length (filter (\<lambda>x. sr_Contains r (fst x)) xs))) }"

definition z_LexCount :: "('f :: zero) floats \<Rightarrow> LexRange \<Rightarrow> 'f zset \<Rightarrow> int go" where
  "z_LexCount fl r z = do { xs \<leftarrow> z_All fl z; Some (int (length (filter (\<lambda>x. lr_Contains r (snd x)) xs))) }"

datatype RangeBy = RangeByRank | RangeByScore | RangeByLex

record 'f ZRangeSpec =
  zr_By :: RangeBy
  zr_Start :: int
  zr_Stop :: int
  zr_Score :: "'f ScoreRange"
  zr_Lex :: LexRange
  zr_Reverse :: bool
  zr_Offset :: int
  zr_Count :: int

definition z_rangeBy :: "('f :: {linorder, zero}) floats \<Rightarrow> 'f ZRangeSpec \<Rightarrow> 'f zset \<Rightarrow> 'f zmember list go" where
  "z_rangeBy fl spec z =
     (case zr_By spec of
        RangeByScore \<Rightarrow> z_RangeByScore fl (zr_Score spec) (zr_Reverse spec) (zr_Offset spec) (zr_Count spec) z
      | RangeByLex \<Rightarrow> z_RangeByLex fl (zr_Lex spec) (zr_Reverse spec) (zr_Offset spec) (zr_Count spec) z
      | RangeByRank \<Rightarrow> z_RangeByRank fl (zr_Start spec) (zr_Stop spec) (zr_Reverse spec) z)"

subsection \<open>Bulk removal, copy and self-check\<close>

fun z_RemoveMembers :: "(bytes \<Rightarrow> 32 word) \<Rightarrow> ('f :: linorder) zmember list \<Rightarrow> 'f zset \<Rightarrow> ('f zset \<times> int) go" where
  "z_RemoveMembers hf [] z = Some (z, 0)"
| "z_RemoveMembers hf (x # xs) z =
     do {
       (z, b) \<leftarrow> z_Remove hf (snd x) z;
       (z, n) \<leftarrow> z_RemoveMembers hf xs z;
       Some (z, if b then n + 1 else n)
     }"

definition z_Pop :: "(bytes \<Rightarrow> 32 word) \<Rightarrow> ('f :: {linorder, zero}) floats \<Rightarrow> int \<Rightarrow> bool \<Rightarrow> 'f zset \<Rightarrow> ('f zset \<times> 'f zmember list) go" where
  "z_Pop hf fl cnt highest z =
     do {
       xs \<leftarrow> z_All fl z;
       let xs = (if highest then reverseMembers xs else xs);
       let cnt = (if cnt > int (length xs) then int (length xs) else cnt);
       out \<leftarrow> go_slice xs 0 cnt;
       (z, n) \<leftarrow> z_RemoveMembers hf out z;
       Some (z, out)
     }"

fun clone_loop :: "(bytes \<Rightarrow> 32 word) \<Rightarrow> ('f :: linorder) zmember list \<Rightarrow> 'f skiplist \<times> 'f dict \<Rightarrow> ('f skiplist \<times> 'f dict) go" where
  "clone_loop hf [] (sl, m) = Some (sl, m)"
| "clone_loop hf (x # xs) (sl, m) =
     do {
       (sl, p) \<leftarrow> sl_Insert (fst x) (snd x) sl;
       (m, b) \<leftarrow> d_set hf m (snd x) (fst x);
       clone_loop hf xs (sl, m)
     }"

definition z_Clone :: "(bytes \<Rightarrow> 32 word) \<Rightarrow> ('f :: {linorder, zero}) zset \<Rightarrow> 'f zset go" where
  "z_Clone hf z =
     (case z_lp z of
        Some p \<Rightarrow> Some \<lparr>z_lp = Some (lp_Clone p), z_sl = None, z_m = None\<rparr>
      | None \<Rightarrow>
          do {
            sl \<leftarrow> z_sl z;
            xs \<leftarrow> sl_entries sl;
            (sl, m) \<leftarrow> clone_loop hf xs (newSkiplist, newDict);
            Some \<lparr>z_lp = None, z_sl = Some sl, z_m = Some m\<rparr>
          })"

datatype zset_error = errUnevenListpack | errZSetLengthMismatch | errZSetScoreMismatch | SkiplistError sl_error

fun check_scores :: "(bytes \<Rightarrow> 32 word) \<Rightarrow> 'f dict \<Rightarrow> 'f zmember list \<Rightarrow> bool go" where
  "check_scores hf m [] = Some True"
| "check_scores hf m (x # xs) =
     do { s \<leftarrow> d_get hf m (snd x); if s \<noteq> Some (fst x) then Some False else check_scores hf m xs }"

definition z_checkInvariant :: "(bytes \<Rightarrow> 32 word) \<Rightarrow> ('f :: linorder) zset \<Rightarrow> zset_error option go" where
  "z_checkInvariant hf z =
     (case z_lp z of
        Some p \<Rightarrow> Some (if lp_Len p mod 2 \<noteq> 0 then Some errUnevenListpack else None)
      | None \<Rightarrow>
          do {
            sl \<leftarrow> z_sl z;
            m \<leftarrow> z_m z;
            if sl_length sl \<noteq> d_len m then Some (Some errZSetLengthMismatch)
            else do {
              xs \<leftarrow> sl_entries sl;
              ok \<leftarrow> check_scores hf m xs;
              if \<not> ok then Some (Some errZSetScoreMismatch)
              else do { e \<leftarrow> checkInvariants sl; Some (map_option SkiplistError e) }
            }
          })"

subsection \<open>Sorted members\<close>

definition z_ok :: "('f :: linorder) zmember list \<Rightarrow> bool" where
  "z_ok xs \<longleftrightarrow> sorted_wrt (<) xs \<and> distinct (map snd xs) \<and> list_all (\<lambda>x. len_ok (snd x)) xs"

definition score_map :: "'f zmember list \<Rightarrow> bytes \<rightharpoonup> 'f" where
  "score_map xs = map_of (map (\<lambda>x. (snd x, fst x)) xs)"

definition without :: "bytes \<Rightarrow> 'f zmember list \<Rightarrow> 'f zmember list" where
  "without member xs = filter (\<lambda>x. snd x \<noteq> member) xs"

definition z_index :: "bytes \<Rightarrow> 'f zmember list \<Rightarrow> nat" where
  "z_index member xs = length (takeWhile (\<lambda>x. snd x \<noteq> member) xs)"

lemma score_map_iff: "distinct (map snd xs) \<Longrightarrow> score_map xs k = Some s \<longleftrightarrow> (s, k) \<in> set xs"
  unfolding score_map_def by (subst map_of_eq_Some_iff) (force simp: comp_def)+

lemma score_map_None: "score_map xs k = None \<longleftrightarrow> k \<notin> snd ` set xs"
  by (auto simp: score_map_def map_of_eq_None_iff image_iff)

lemma dom_score_map: "dom (score_map xs) = snd ` set xs"
  using score_map_None[of xs] by (metis (no_types, lifting) domIff subsetI subset_antisym)

lemma map_eqI: "(\<And>k v. f k = Some v \<longleftrightarrow> g k = Some v) \<Longrightarrow> f = g"
  by (rule ext) (metis option.exhaust)

lemma z_index_found:
  assumes "member \<in> snd ` set xs" "distinct (map snd xs)"
  shows "z_index member xs < length xs \<and> snd (xs ! z_index member xs) = member \<and>
    remove_at (z_index member xs) xs = without member xs \<and> score_map xs member = Some (fst (xs ! z_index member xs))"
  using assms
proof (induction xs)
  case (Cons x xs)
  show ?case
  proof (cases "snd x = member")
    case True
    then have "\<forall>y \<in> set xs. snd y \<noteq> member" using Cons.prems(2) by (auto simp: image_iff)
    then have "filter (\<lambda>x. snd x \<noteq> member) xs = xs" by (simp add: filter_id_conv)
    then show ?thesis using True by (simp add: z_index_def remove_at_def without_def score_map_def)
  next
    case False
    then show ?thesis using Cons by (auto simp: z_index_def remove_at_def without_def score_map_def)
  qed
qed simp

lemma without_id: "member \<notin> snd ` set xs \<Longrightarrow> without member xs = xs"
  by (auto simp: without_def filter_id_conv image_iff)

lemma z_ok_without: "z_ok xs \<Longrightarrow> z_ok (without member xs)"
  by (auto simp: z_ok_def without_def sorted_wrt_filter distinct_map_filter list_all_iff)

lemma sorted_insort_lt:
  assumes "sorted_wrt (<) xs" "t \<notin> set xs"
  shows "sorted_wrt (<) (insort t (xs :: 'a :: linorder list))"
  using assms by (simp add: strict_sorted_iff sorted_insort distinct_insort)

lemma z_ok_insort:
  assumes "z_ok xs" "m \<notin> snd ` set xs" "len_ok m"
  shows "z_ok (insort (s, m) xs)"
proof -
  have "distinct (map snd (insort (s, m) xs))"
  proof -
    have "mset (map snd (insort (s, m) xs)) = mset (m # map snd xs)" by simp
    then show ?thesis using assms by (metis distinct.simps(2) list.set_map mset_eq_imp_distinct_iff z_ok_def)
  qed
  moreover have "(s, m) \<notin> set xs" using assms(2) by force
  ultimately show ?thesis using assms sorted_insort_lt by (auto simp: z_ok_def list_all_iff set_insort_key)
qed

lemma score_map_without:
  assumes "distinct (map snd xs)"
  shows "score_map (without m xs) = (score_map xs)(m := None)"
proof (rule map_eqI)
  fix k v
  have "distinct (map snd (without m xs))" using assms by (simp add: without_def distinct_map_filter)
  then show "score_map (without m xs) k = Some v \<longleftrightarrow> ((score_map xs)(m := None)) k = Some v"
    using assms by (auto simp: score_map_iff without_def)
qed

lemma score_map_insort:
  assumes "z_ok xs" "m \<notin> snd ` set xs" "len_ok m"
  shows "score_map (insort (s, m) xs) = (score_map xs)(m \<mapsto> s)"
proof (rule map_eqI)
  fix k v
  have d: "distinct (map snd (insort (s, m) xs))" "distinct (map snd xs)" using z_ok_insort[OF assms] assms(1) by (auto simp: z_ok_def)
  show "score_map (insort (s, m) xs) k = Some v \<longleftrightarrow> ((score_map xs)(m \<mapsto> s)) k = Some v"
    using score_map_iff[OF d(1)] score_map_iff[OF d(2)] assms(2) by (force simp: set_insort_key)
qed

subsection \<open>The listpack encoding\<close>

definition pairs :: "'f floats \<Rightarrow> 'f zmember list \<Rightarrow> bytes list" where
  "pairs fl xs = alternate (map (\<lambda>x. (snd x, fl_Format fl (fst x))) xs)"

lemma pairs_simps [simp]:
  "pairs fl [] = []" "pairs fl (x # xs) = snd x # fl_Format fl (fst x) # pairs fl xs" "pairs fl (xs @ ys) = pairs fl xs @ pairs fl ys"
  by (simp_all add: pairs_def)

lemma length_pairs [simp]: "length (pairs fl xs) = 2 * length xs"
  by (simp add: pairs_def)

lemma nth_pairs: "i < length xs \<Longrightarrow> pairs fl xs ! (2 * i) = snd (xs ! i) \<and> pairs fl xs ! Suc (2 * i) = fl_Format fl (fst (xs ! i))"
  by (simp add: pairs_def nth_alternate)

lemma take_pairs: "take (2 * i) (pairs fl xs) = pairs fl (take i xs)"
  by (simp add: pairs_def take_alternate take_map)

lemma drop_pairs: "drop (2 * i) (pairs fl xs) = pairs fl (drop i xs)"
  by (simp add: pairs_def drop_alternate drop_map)

lemma z_lpAt_eq:
  assumes "floats_ok fl" "lp_rep p (pairs fl xs)" "i < length xs"
  shows "z_lpAt fl p (int i) = Some (snd (xs ! i), fst (xs ! i))"
proof -
  have "nat (int i * 2) = 2 * i" "nat (int i * 2 + 1) = Suc (2 * i)" by auto
  then show ?thesis
    using assms nth_pairs[OF assms(3), of fl] by (auto simp: z_lpAt_def lp_At_rep[OF assms(2)] nil_bytes_def floats_ok_def)
qed

lemma first_idx_pairs:
  "first_idx 0 (\<lambda>i e. i mod 2 = 0 \<and> e = member) (pairs fl xs) =
     (if member \<in> snd ` set xs then int (2 * z_index member xs) else -1)"
proof -
  have "length (takeWhile (\<lambda>x. fst x \<noteq> member) (map (\<lambda>x. (snd x, fl_Format fl (fst x))) xs)) = z_index member xs"
    by (simp add: takeWhile_map z_index_def comp_def)
  then show ?thesis
    using first_idx_alternate[of 0 member "map (\<lambda>x. (snd x, fl_Format fl (fst x))) xs"] by (simp add: pairs_def image_image)
qed

lemma z_lpFind_eq:
  "lp_rep p (pairs fl xs) \<Longrightarrow> z_lpFind p member = Some (if member \<in> snd ` set xs then int (z_index member xs) else -1)"
  using lp_IndexOfStep_rep[of p "pairs fl xs" member 2 0] first_idx_pairs[of member fl xs] by (simp add: z_lpFind_def)

lemma z_lpSearch_eq:
  assumes "floats_ok fl" "lp_rep p (pairs fl xs)" "sorted_wrt (<) xs"
  shows "z_lpSearch fl p s m = Some (length (takeWhile (\<lambda>x. x < (s, m)) xs))"
proof -
  have "lp_Len p = 2 * length xs" using lp_rep_Len[OF assms(2)] by simp
  moreover have "(do { (m', s') \<leftarrow> z_lpAt fl p (int h); Some (if s' \<noteq> s then s' > s else m' \<ge> m) }) =
      Some (length (takeWhile (\<lambda>x. x < (s, m)) xs) \<le> h)" if "h < length xs" for h
    using z_lpAt_eq[OF assms(1,2) that] sorted_cut[OF assms(3) that, of "(s, m)"]
    by (cases "xs ! h") (auto simp: less_prod_def' not_less linorder_not_le[symmetric])
  ultimately show ?thesis
    unfolding z_lpSearch_def sort_Search_def by (intro search_loop_eq) (auto simp: length_takeWhile_le)
qed

lemma insert_pairs:
  assumes "m \<le> length xs"
  shows "insert_at (2 * m + 1) (fl_Format fl (fst x)) (insert_at (2 * m) (snd x) (pairs fl xs)) = pairs fl (insert_at m x xs)"
proof -
  have "insert_at (2 * m) (snd x) (pairs fl xs) = (pairs fl (take m xs) @ [snd x]) @ pairs fl (drop m xs)"
    by (simp add: insert_at_def take_pairs drop_pairs)
  moreover have "length (pairs fl (take m xs) @ [snd x]) = 2 * m + 1" using assms by simp
  ultimately show ?thesis by (simp add: insert_at_def)
qed

lemma z_lpInsert_eq:
  assumes "floats_ok fl" "lp_rep p (pairs fl xs)" "z_ok xs" "(s, m) \<notin> set xs" "len_ok m"
  shows "\<exists>p'. z_lpInsert fl s m p = Some p' \<and> lp_rep p' (pairs fl (insort (s, m) xs))"
proof -
  let ?k = "length (takeWhile (\<lambda>x. x < (s, m)) xs)"
  have srt: "sorted_wrt (<) xs" using assms(3) by (simp add: z_ok_def)
  have k: "?k \<le> length xs" by (rule length_takeWhile_le)
  obtain p1 where p1: "lp_InsertAt p (int ?k * 2) m = Some p1" "lp_rep p1 (insert_at (nat (int ?k * 2)) m (pairs fl xs))"
    using lp_InsertAt_rep[OF assms(2,5)] by blast
  have "len_ok (fl_Format fl s)" using assms(1) by (simp add: floats_ok_def)
  then obtain p2 where p2: "lp_InsertAt p1 (int ?k * 2 + 1) (fl_Format fl s) = Some p2"
      "lp_rep p2 (insert_at (nat (int ?k * 2 + 1)) (fl_Format fl s) (insert_at (nat (int ?k * 2)) m (pairs fl xs)))"
    using lp_InsertAt_rep[OF p1(2)] by blast
  have "nat (int ?k * 2) = 2 * ?k" "nat (int ?k * 2 + 1) = 2 * ?k + 1" by auto
  then have "lp_rep p2 (pairs fl (insert_at ?k (s, m) xs))" using p2(2) insert_pairs[OF k, of fl "(s, m)"] by simp
  then show ?thesis
    using p1(1) p2(1) z_lpSearch_eq[OF assms(1,2) srt] insort_insert_at[OF srt assms(4)] by (simp add: z_lpInsert_def)
qed

lemma z_delete_pair:
  assumes "lp_rep p (pairs fl xs)" "i < length xs"
  shows "\<exists>p'. lp_DeleteRun p (int i * 2) 2 = Some p' \<and> lp_rep p' (pairs fl (remove_at i xs))"
  using lp_delete_pair[of p "map (\<lambda>x. (snd x, fl_Format fl (fst x))) xs" i] assms
  by (simp add: pairs_def remove_at_def take_map drop_map mult.commute)

subsection \<open>Both encodings hold the sorted members\<close>

definition pair_rep :: "(bytes \<Rightarrow> 32 word) \<Rightarrow> ('f :: linorder) skiplist \<Rightarrow> 'f dict \<Rightarrow> 'f zmember list \<Rightarrow> bool" where
  "pair_rep hf sl m xs \<longleftrightarrow> sl_holds sl xs \<and> dict_map hf m (score_map xs)"

definition z_rep :: "(bytes \<Rightarrow> 32 word) \<Rightarrow> 'f floats \<Rightarrow> ('f :: linorder) zset \<Rightarrow> 'f zmember list \<Rightarrow> bool" where
  "z_rep hf fl z xs \<longleftrightarrow> z_ok xs \<and>
     (case z_lp z of
        Some p \<Rightarrow> lp_rep p (pairs fl xs)
      | None \<Rightarrow> \<exists>sl m. z_sl z = Some sl \<and> z_m z = Some m \<and> pair_rep hf sl m xs)"

lemma z_rep_cases:
  assumes "z_rep hf fl z xs"
  obtains p where "z_lp z = Some p" "lp_rep p (pairs fl xs)" "z_ok xs"
  | sl m where "z_lp z = None" "z_sl z = Some sl" "z_m z = Some m" "pair_rep hf sl m xs" "z_ok xs"
  using assms by (cases "z_lp z") (auto simp: z_rep_def)

lemma newZSet_rep: "z_rep hf fl newZSet []"
  using lp_rep_new by (simp add: z_rep_def newZSet_def z_ok_def)

lemma sl_Insert_holds:
  "sl_holds sl xs \<Longrightarrow> (s, m) \<notin> set xs \<Longrightarrow> \<exists>sl' p. sl_Insert s m sl = Some (sl', p) \<and> sl_holds sl' (insort (s, m) xs)"
  using sl_step_insert[of sl xs s m] by (auto simp: query_def bind_eq_Some_conv)

lemma sl_Delete_holds:
  "sl_holds sl xs \<Longrightarrow> \<exists>sl'. sl_Delete s m sl = Some (sl', (s, m) \<in> set xs) \<and> sl_holds sl' (remove1 (s, m) xs)"
  using sl_step_delete[of sl xs s m] by (auto simp: bind_eq_Some_conv)

lemma sl_Rank_holds: "sl_holds sl xs \<Longrightarrow> sl_Rank s m sl = Some (rank_spec (s, m) xs)"
  using sl_Rank_eq by (auto simp: sl_holds_def)

lemma sl_entries_holds: "sl_holds sl xs \<Longrightarrow> sl_entries sl = Some xs"
  using sl_entries_eq by (auto simp: sl_holds_def)

lemma sl_length_holds: "sl_holds sl xs \<Longrightarrow> sl_length sl = int (length xs)"
  by (auto simp: sl_holds_def sl_rep_def)

lemma pair_put:
  assumes "pair_rep hf sl d xs" "z_ok xs" "m \<notin> snd ` set xs" "len_ok m"
  shows "\<exists>sl' p d'. sl_Insert s m sl = Some (sl', p) \<and> d_set hf d m s = Some (d', True) \<and> pair_rep hf sl' d' (insort (s, m) xs)"
proof -
  have "(s, m) \<notin> set xs" using assms(3) by force
  then obtain sl' p where "sl_Insert s m sl = Some (sl', p)" "sl_holds sl' (insort (s, m) xs)"
    using sl_Insert_holds assms(1) unfolding pair_rep_def by blast
  moreover obtain d' where "d_set hf d m s = Some (d', True)" "dict_map hf d' ((score_map xs)(m \<mapsto> s))"
    using d_set_map[of hf d "score_map xs" m s] assms(1,3) by (auto simp: pair_rep_def dom_score_map)
  ultimately show ?thesis using score_map_insort[OF assms(2-4)] by (auto simp: pair_rep_def)
qed

lemma pair_new: "pair_rep hf newSkiplist newDict []"
  using newSkiplist_rep newDict_map[of hf] by (auto simp: pair_rep_def sl_holds_def score_map_def)

lemma insort_last: "\<forall>y \<in> set ys. y < x \<Longrightarrow> insort x ys = ys @ [x :: 'a :: linorder]"
  by (induction ys) auto

lemma clone_loop_rep:
  "pair_rep hf sl d ys \<Longrightarrow> z_ok (ys @ xs) \<Longrightarrow> \<exists>sl' d'. clone_loop hf xs (sl, d) = Some (sl', d') \<and> pair_rep hf sl' d' (ys @ xs)"
proof (induction xs arbitrary: sl d ys)
  case (Cons x xs)
  have ok: "z_ok ys" "snd x \<notin> snd ` set ys" "len_ok (snd x)" "\<forall>y \<in> set ys. y < x" "z_ok ((ys @ [x]) @ xs)"
    using Cons.prems(2) by (auto simp: z_ok_def sorted_wrt_append)
  obtain sl' p d' where p: "sl_Insert (fst x) (snd x) sl = Some (sl', p)" "d_set hf d (snd x) (fst x) = Some (d', True)"
      "pair_rep hf sl' d' (ys @ [x])"
    using pair_put[OF Cons.prems(1) ok(1-3), of "fst x"] insort_last[OF ok(4)] by auto
  show ?case using Cons.IH[OF p(3) ok(5)] p(1,2) by auto
qed simp

lemma promote_loop_eq:
  assumes "floats_ok fl" "lp_rep p (pairs fl xs)"
  shows "i + n \<le> length xs \<Longrightarrow> promote_loop hf fl p i n (sl, d) = clone_loop hf (take n (drop i xs)) (sl, d)"
proof (induction n arbitrary: i sl d)
  case (Suc n)
  have t: "take (Suc n) (drop i xs) = xs ! i # take n (drop (Suc i) xs)"
    using Suc.prems by (simp add: Cons_nth_drop_Suc[symmetric])
  have IH: "promote_loop hf fl p (Suc i) n (sl, d) = clone_loop hf (take n (drop (Suc i) xs)) (sl, d)" for sl d
    using Suc.IH[of "Suc i"] Suc.prems by simp
  show ?case using z_lpAt_eq[OF assms, of i] Suc.prems unfolding t by (simp add: IH)
qed simp

lemma z_promoteIfNeeded_rep:
  assumes "floats_ok fl" "z_rep hf fl z xs"
  shows "\<exists>z'. z_promoteIfNeeded hf fl t n z = Some z' \<and> z_rep hf fl z' xs"
  using assms(2)
proof (cases rule: z_rep_cases)
  case (1 p)
  have len: "lp_Len p div 2 = length xs" using lp_rep_Len[OF 1(2)] by simp
  obtain sl d where "clone_loop hf xs (newSkiplist, newDict) = Some (sl, d)" "pair_rep hf sl d xs"
    using clone_loop_rep[OF pair_new, of xs hf] 1(3) by auto
  then show ?thesis
    using 1 len promote_loop_eq[OF assms(1) 1(2), of 0 "length xs" hf newSkiplist newDict] assms(2)
    by (auto simp: z_promoteIfNeeded_def z_rep_def)
qed (use assms(2) in \<open>auto simp: z_promoteIfNeeded_def\<close>)

subsection \<open>Operations\<close>

lemma z_Score_rep: "floats_ok fl \<Longrightarrow> z_rep hf fl z xs \<Longrightarrow> z_Score hf fl m z = Some (score_map xs m)"
proof -
  assume f: "floats_ok fl" and "z_rep hf fl z xs"
  from this(2) show ?thesis
  proof (cases rule: z_rep_cases)
    case (1 p)
    have d: "distinct (map snd xs)" using 1(3) by (simp add: z_ok_def)
    show ?thesis
    proof (cases "m \<in> snd ` set xs")
      case True
      from z_index_found[OF this d] show ?thesis
        using 1(1) z_lpFind_eq[OF 1(2), of m] z_lpAt_eq[OF f 1(2), of "z_index m xs"] True by (simp add: z_Score_def)
    next
      case False
      then show ?thesis using 1(1) z_lpFind_eq[OF 1(2), of m] score_map_None[of xs m] by (simp add: z_Score_def)
    qed
  next
    case (2 sl d)
    then show ?thesis using d_get_map(1)[of hf d "score_map xs" m] by (simp add: z_Score_def pair_rep_def)
  qed
qed

definition z_put :: "bytes \<Rightarrow> 'f \<Rightarrow> ('f :: linorder) zmember list \<Rightarrow> 'f zmember list" where
  "z_put m s xs = (if score_map xs m = Some s then xs else insort (s, m) (without m xs))"

lemma without_fresh: "m \<notin> snd ` set (without m xs)"
  by (auto simp: without_def)

lemma remove1_without:
  assumes "z_ok xs" "score_map xs m = Some s"
  shows "remove1 (s, m) xs = without m xs"
proof -
  have d: "distinct (map snd xs)" "distinct xs" using assms(1) by (auto simp: z_ok_def distinct_map)
  have "m \<in> snd ` set xs" using assms(2) score_map_None[of xs m] by auto
  from z_index_found[OF this d(1)] have i: "z_index m xs < length xs" "xs ! z_index m xs = (s, m)" "remove_at (z_index m xs) xs = without m xs"
    using assms(2) by (auto simp: prod_eq_iff)
  then show ?thesis using remove1_remove_at[OF d(2) i(1)] by simp
qed

lemma z_Add_rep:
  assumes f: "floats_ok fl" and rep: "z_rep hf fl z xs" and m: "len_ok m"
  shows "\<exists>z'. z_Add hf fl m s t z = Some (z', score_map xs m = None) \<and> z_rep hf fl z' (z_put m s xs)"
  using rep
proof (cases rule: z_rep_cases)
  case (1 p)
  have d: "distinct (map snd xs)" using 1(3) by (simp add: z_ok_def)
  show ?thesis
  proof (cases "m \<in> snd ` set xs")
    case True
    note i = z_index_found[OF True d]
    show ?thesis
    proof (cases "score_map xs m = Some s")
      case same: True
      then show ?thesis
        using i 1(1) rep z_lpFind_eq[OF 1(2), of m] z_lpAt_eq[OF f 1(2), of "z_index m xs"] True by (simp add: z_Add_def z_put_def)
    next
      case False
      obtain p1 where p1: "lp_DeleteRun p (int (z_index m xs) * 2) 2 = Some p1" "lp_rep p1 (pairs fl (without m xs))"
        using z_delete_pair[OF 1(2), of "z_index m xs"] i by auto
      have "(s, m) \<notin> set (without m xs)" by (simp add: without_def)
      from z_lpInsert_eq[OF f p1(2) z_ok_without[OF 1(3)] this m] obtain p2 where
        p2: "z_lpInsert fl s m p1 = Some p2" "lp_rep p2 (pairs fl (z_put m s xs))" using False by (auto simp: z_put_def)
      have "z_ok (z_put m s xs)" using z_ok_insort[OF z_ok_without[OF 1(3)] without_fresh m] False by (simp add: z_put_def)
      then show ?thesis
        using i 1(1) p1(1) p2 z_lpFind_eq[OF 1(2), of m] z_lpAt_eq[OF f 1(2), of "z_index m xs"] True False
        by (auto simp: z_Add_def z_rep_def)
    qed
  next
    case False
    then have n: "score_map xs m = None" "z_put m s xs = insort (s, m) xs" "(s, m) \<notin> set xs"
      using score_map_None[of xs m] without_id[OF False] by (auto simp: z_put_def) force
    obtain p1 where p1: "z_lpInsert fl s m p = Some p1" "lp_rep p1 (pairs fl (insort (s, m) xs))"
      using z_lpInsert_eq[OF f 1(2,3) n(3) m] by blast
    have "z_rep hf fl (z\<lparr>z_lp := Some p1\<rparr>) (insort (s, m) xs)" using p1(2) z_ok_insort[OF 1(3) False m] by (simp add: z_rep_def)
    from z_promoteIfNeeded_rep[OF f this, of t "int (length m)"] show ?thesis
      using 1(1) p1(1) z_lpFind_eq[OF 1(2), of m] False n by (auto simp: z_Add_def)
  qed
next
  case (2 sl d)
  have g: "d_get hf d m = Some (score_map xs m)" using d_get_map(1) 2(4) by (auto simp: pair_rep_def)
  show ?thesis
  proof (cases "score_map xs m = Some s")
    case True
    then show ?thesis using 2 g rep by (simp add: z_Add_def z_put_def)
  next
    case False
    obtain sl1 where sl1: "(case score_map xs m of None \<Rightarrow> Some sl | Some s \<Rightarrow> map_option fst (sl_Delete s m sl)) = Some sl1"
        "sl_holds sl1 (without m xs)"
    proof (cases "score_map xs m")
      case None
      then show thesis using that[of sl] 2(4) score_map_None[of xs m] without_id[of m xs] by (simp add: pair_rep_def)
    next
      case (Some old)
      then show thesis using that sl_Delete_holds[of sl xs old m] remove1_without[OF 2(5) Some] 2(4) by (auto simp: pair_rep_def)
    qed
    have "(s, m) \<notin> set (without m xs)" by (simp add: without_def)
    from sl_Insert_holds[OF sl1(2) this] obtain sl2 x where sl2: "sl_Insert s m sl1 = Some (sl2, x)" "sl_holds sl2 (z_put m s xs)"
      using False by (auto simp: z_put_def)
    have ds: "distinct (map snd xs)" using 2(5) by (simp add: z_ok_def)
    have "score_map (z_put m s xs) = (score_map xs)(m \<mapsto> s)"
      using False score_map_insort[OF z_ok_without[OF 2(5)] without_fresh m] score_map_without[OF ds] by (simp add: z_put_def)
    then obtain d' b where d': "d_set hf d m s = Some (d', b)" "dict_map hf d' (score_map (z_put m s xs))"
      using d_set_map[of hf d "score_map xs" m s] 2(4) by (auto simp: pair_rep_def)
    have "z_ok (z_put m s xs)" using z_ok_insort[OF z_ok_without[OF 2(5)] without_fresh m] False by (simp add: z_put_def)
    then show ?thesis using 2 g False sl1(1) sl2 d' by (auto simp: z_Add_def z_rep_def pair_rep_def)
  qed
qed

lemma z_Remove_rep:
  assumes "z_rep hf fl z xs"
  shows "\<exists>z'. z_Remove hf m z = Some (z', m \<in> snd ` set xs) \<and> z_rep hf fl z' (without m xs)"
  using assms
proof (cases rule: z_rep_cases)
  case (1 p)
  have d: "distinct (map snd xs)" using 1(3) by (simp add: z_ok_def)
  show ?thesis
  proof (cases "m \<in> snd ` set xs")
    case True
    note i = z_index_found[OF True d]
    obtain p1 where "lp_DeleteRun p (int (z_index m xs) * 2) 2 = Some p1" "lp_rep p1 (pairs fl (without m xs))"
      using z_delete_pair[OF 1(2), of "z_index m xs"] i by auto
    then show ?thesis using 1(1) z_lpFind_eq[OF 1(2), of m] True z_ok_without[OF 1(3)] by (auto simp: z_Remove_def z_rep_def)
  next
    case False
    then show ?thesis using 1(1) z_lpFind_eq[OF 1(2), of m] assms without_id[OF False] by (simp add: z_Remove_def)
  qed
next
  case (2 sl d)
  have g: "d_get hf d m = Some (score_map xs m)" using d_get_map(1) 2(4) by (auto simp: pair_rep_def)
  have ds: "distinct (map snd xs)" using 2(5) by (simp add: z_ok_def)
  show ?thesis
  proof (cases "score_map xs m")
    case None
    then have "m \<notin> snd ` set xs" using score_map_None[of xs m] by simp
    then show ?thesis using 2 g None assms without_id[of m xs] by (simp add: z_Remove_def)
  next
    case (Some s)
    then have mem: "m \<in> snd ` set xs" using score_map_None[of xs m] by auto
    obtain sl' b where sl': "sl_Delete s m sl = Some (sl', b)" "sl_holds sl' (without m xs)"
      using sl_Delete_holds[of sl xs s m] remove1_without[OF 2(5) Some] 2(4) by (auto simp: pair_rep_def)
    obtain d' b' where "d_delete hf d m = Some (d', b')" "dict_map hf d' (score_map (without m xs))"
      using d_delete_map[of hf d "score_map xs" m] 2(4) score_map_without[OF ds] by (auto simp: pair_rep_def)
    then show ?thesis using 2 g Some sl' z_ok_without[OF 2(5)] mem by (auto simp: z_Remove_def z_rep_def pair_rep_def)
  qed
qed

lemma z_Len_rep: "z_rep hf fl z xs \<Longrightarrow> z_Len z = Some (int (length xs))"
proof (erule z_rep_cases)
  fix p assume "z_lp z = Some p" "lp_rep p (pairs fl xs)"
  then show ?thesis using lp_rep_Len[of p "pairs fl xs"] by (simp add: z_Len_def)
next
  fix sl d assume a: "z_lp z = None" "z_m z = Some d" "pair_rep hf sl d xs" "z_ok xs"
  have "card (snd ` set xs) = length xs" using a(4) distinct_card[of "map snd xs"] by (simp add: z_ok_def)
  then show ?thesis using a d_len_map(1)[of hf d "score_map xs"] by (simp add: z_Len_def pair_rep_def dom_score_map)
qed

definition z_rank :: "bytes \<Rightarrow> bool \<Rightarrow> 'f zmember list \<Rightarrow> int option" where
  "z_rank m rv xs =
     (if m \<in> snd ` set xs then Some (if rv then int (length xs) - 1 - int (z_index m xs) else int (z_index m xs)) else None)"

lemma z_Rank_rep: "z_rep hf fl z xs \<Longrightarrow> z_Rank hf m rv z = Some (z_rank m rv xs)"
proof -
  assume rep: "z_rep hf fl z xs"
  note n = z_Len_rep[OF rep]
  from rep show ?thesis
  proof (cases rule: z_rep_cases)
    case (1 p)
    then show ?thesis using z_lpFind_eq[OF 1(2), of m] n by (simp add: z_Rank_def z_rank_def)
  next
    case (2 sl d)
    have g: "d_get hf d m = Some (score_map xs m)" using d_get_map(1) 2(4) by (auto simp: pair_rep_def)
    have ds: "distinct (map snd xs)" "sorted_wrt (<) xs" using 2(5) by (auto simp: z_ok_def)
    show ?thesis
    proof (cases "m \<in> snd ` set xs")
      case True
      note i = z_index_found[OF True ds(1)]
      then have "xs ! z_index m xs = (fst (xs ! z_index m xs), m)" by (simp add: prod_eq_iff)
      then have "rank_spec (fst (xs ! z_index m xs), m) xs = int (z_index m xs) + 1"
        using length_takeWhile_nth[OF ds(2), of "z_index m xs"] nth_mem[of "z_index m xs" xs] i by (simp add: rank_spec_def)
      then show ?thesis using 2 g i n True sl_Rank_holds[of sl xs] by (simp add: z_Rank_def z_rank_def pair_rep_def)
    next
      case False
      then show ?thesis using 2 g score_map_None[of xs m] by (simp add: z_Rank_def z_rank_def)
    qed
  qed
qed

lemma lp_members_eq:
  assumes "floats_ok fl" "lp_rep p (pairs fl xs)"
  shows "i + n \<le> length xs \<Longrightarrow> lp_members fl p i n = Some (take n (drop i xs))"
proof (induction n arbitrary: i)
  case (Suc n)
  have "take (Suc n) (drop i xs) = xs ! i # take n (drop (Suc i) xs)" using Suc.prems by (simp add: Cons_nth_drop_Suc[symmetric])
  then show ?case using z_lpAt_eq[OF assms, of i] Suc.prems Suc.IH[of "Suc i"] by simp
qed simp

lemma z_All_rep: "floats_ok fl \<Longrightarrow> z_rep hf fl z xs \<Longrightarrow> z_All fl z = Some xs"
proof -
  assume f: "floats_ok fl" and "z_rep hf fl z xs"
  from this(2) show ?thesis
  proof (cases rule: z_rep_cases)
    case (1 p)
    have "lp_Len p div 2 = length xs" using lp_rep_Len[OF 1(2)] by simp
    then show ?thesis using 1(1) lp_members_eq[OF f 1(2), of 0 "length xs"] by (simp add: z_All_def)
  next
    case (2 sl d)
    then show ?thesis using sl_entries_holds by (auto simp: z_All_def pair_rep_def)
  qed
qed

lemma swap_loop_rev:
  "length A = i \<Longrightarrow> length M \<le> fuel \<Longrightarrow> swap_loop fuel (int i) (int i + int (length M) - 1) (A @ M @ B) = A @ rev M @ B"
proof (induction fuel arbitrary: i A M B)
  case (Suc fuel)
  show ?case
  proof (cases "length M \<le> 1")
    case True
    then have "rev M = M" by (cases M) auto
    then show ?thesis using True by simp
  next
    case False
    then obtain x M' y where M: "M = x # M' @ [y]" by (metis One_nat_def append_butlast_last_id last_ConsL le_SucI list.exhaust list.size(3,4) not_le le0 add_Suc_right add.right_neutral order_refl)
    have j: "int i + int (length M) - 1 = int (i + Suc (length M'))" by (simp add: M)
    have "(A @ M @ B)[i := (A @ M @ B) ! (i + Suc (length M')), i + Suc (length M') := (A @ M @ B) ! i] = (A @ [y]) @ M' @ (x # B)"
      using Suc.prems(1) by (simp add: M nth_append list_update_append)
    moreover have e: "int i + 1 = int (Suc i)" "int (Suc (i + length M')) - 1 = int (Suc i) + int (length M') - 1" by auto
    ultimately show ?thesis
      using Suc.IH[of "A @ [y]" "Suc i" M' "x # B"] Suc.prems False unfolding j by (simp add: M nat_int e del: of_nat_add of_nat_Suc)
  qed
qed simp

lemma reverseMembers_rev [simp]: "reverseMembers xs = rev xs"
  using swap_loop_rev[of "[]" 0 xs "length xs" "[]"] by (simp add: reverseMembers_def)

lemma z_RangeByRank_rep:
  assumes "floats_ok fl" "z_rep hf fl z xs"
  shows "z_RangeByRank fl a b rv z = Some (list_range a b (if rv then rev xs else xs))"
proof -
  let ?ys = "if rv then rev xs else xs"
  obtain lo hi ok where c: "clampRange a b (int (length ?ys)) = (lo, hi, ok)" by (cases "clampRange a b (int (length ?ys))") auto
  have "go_slice ?ys lo (hi + 1) = Some (drop (nat lo) (take (nat (hi + 1)) ?ys))" if ok
  proof -
    have b: "0 \<le> lo" "lo \<le> hi" "hi < int (length ?ys)" using clampRange_bounds[of a b "int (length ?ys)" lo hi] c that by auto
    then have "nat (hi + 1) - nat lo = nat (hi + 1 - lo)" by linarith
    then show ?thesis using b by (simp add: go_slice_def drop_take)
  qed
  then show ?thesis using z_All_rep[OF assms] c by (auto simp: z_RangeByRank_def list_range_def Let_def)
qed

lemma z_RemoveMembers_rep:
  "z_rep hf fl z xs \<Longrightarrow> \<exists>z'. z_RemoveMembers hf ys z = Some (z', int (length xs) - int (length (filter (\<lambda>x. snd x \<notin> snd ` set ys) xs))) \<and>
     z_rep hf fl z' (filter (\<lambda>x. snd x \<notin> snd ` set ys) xs)"
proof (induction ys arbitrary: z xs)
  case (Cons y ys)
  let ?m = "snd y"
  obtain z1 where z1: "z_Remove hf ?m z = Some (z1, ?m \<in> snd ` set xs)" "z_rep hf fl z1 (without ?m xs)"
    using z_Remove_rep[OF Cons.prems, of ?m] by blast
  have f: "filter (\<lambda>x. snd x \<notin> snd ` set ys) (without ?m xs) = filter (\<lambda>x. snd x \<notin> snd ` set (y # ys)) xs"
    by (auto simp: without_def intro: filter_cong)
  have d: "distinct (map snd xs)" using Cons.prems by (simp add: z_rep_def z_ok_def)
  have "int (length (without ?m xs)) = int (length xs) - (if ?m \<in> snd ` set xs then 1 else 0)"
  proof (cases "?m \<in> snd ` set xs")
    case True
    from z_index_found[OF this d] have "length (without ?m xs) = length xs - 1" "0 < length xs" by (metis length_remove_at, auto)
    then show ?thesis using True by (simp add: of_nat_diff Suc_leI)
  qed (simp add: without_id)
  then show ?case using Cons.IH[OF z1(2)] z1(1) unfolding f by (auto split: if_splits)
qed simp

lemma z_Clone_rep: "z_rep hf fl z xs \<Longrightarrow> \<exists>z'. z_Clone hf z = Some z' \<and> z_rep hf fl z' xs"
proof (erule z_rep_cases)
  fix p assume "z_lp z = Some p" "lp_rep p (pairs fl xs)" "z_ok xs"
  then show ?thesis using lp_Clone_id[of p] by (simp add: z_Clone_def z_rep_def)
next
  fix sl d assume a: "z_lp z = None" "z_sl z = Some sl" "pair_rep hf sl d xs" "z_ok xs"
  obtain sl' d' where "clone_loop hf xs (newSkiplist, newDict) = Some (sl', d')" "pair_rep hf sl' d' xs"
    using clone_loop_rep[OF pair_new, of xs hf] a(4) by auto
  then show ?thesis using a sl_entries_holds[of sl xs] by (auto simp: z_Clone_def z_rep_def pair_rep_def)
qed

lemma check_scores_ok: "dict_map hf d m \<Longrightarrow> \<forall>x \<in> set xs. m (snd x) = Some (fst x) \<Longrightarrow> check_scores hf d xs = Some True"
  by (induction xs) (auto simp: d_get_map(1))

lemma z_checkInvariant_ok: "z_rep hf fl z xs \<Longrightarrow> z_checkInvariant hf z = Some None"
proof (erule z_rep_cases)
  fix p assume "z_lp z = Some p" "lp_rep p (pairs fl xs)"
  then show ?thesis using lp_rep_Len[of p "pairs fl xs"] by (simp add: z_checkInvariant_def)
next
  fix sl d assume a: "z_lp z = None" "z_sl z = Some sl" "z_m z = Some d" "pair_rep hf sl d xs" "z_ok xs"
  have ds: "distinct (map snd xs)" using a(5) by (simp add: z_ok_def)
  have p: "sl_holds sl xs" "dict_map hf d (score_map xs)" using a(4) by (auto simp: pair_rep_def)
  have "\<forall>x \<in> set xs. score_map xs (snd x) = Some (fst x)" using score_map_iff[OF ds] by auto
  then have "check_scores hf d xs = Some True" by (rule check_scores_ok[OF p(2)])
  moreover have "sl_length sl = d_len d"
    using sl_length_holds[OF p(1)] d_len_map(1)[OF p(2)] distinct_card[OF ds] by (simp add: dom_score_map)
  ultimately show ?thesis using a(1-3) sl_entries_holds[OF p(1)] checkInvariants_ok[OF p(1)] by (simp add: z_checkInvariant_def)
qed

subsection \<open>The contract\<close>

datatype 'f z_op =
  ZAddOp bytes 'f Thresholds | ZRemOp bytes | ZScoreOp bytes | ZRankOp bytes bool | ZLenOp | ZRangeOp "'f ZRangeSpec"
  | ZCountOp "'f ScoreRange" | ZLexCountOp LexRange | ZPopOp int bool | ZRemRangeOp "'f ZRangeSpec" | ZCloneOp

datatype 'f z_reply = ZBool bool | ZScore "'f option" | ZRank "int option" | ZInt int | ZMembers "'f zmember list" | ZUnit

fun z_step :: "(bytes \<Rightarrow> 32 word) \<Rightarrow> ('f :: {linorder, zero}) floats \<Rightarrow> 'f z_op \<Rightarrow> 'f zset \<Rightarrow> ('f zset \<times> 'f z_reply) go" where
  "z_step hf fl (ZAddOp m s t) z = do { (z, b) \<leftarrow> z_Add hf fl m s t z; Some (z, ZBool b) }"
| "z_step hf fl (ZRemOp m) z = do { (z, b) \<leftarrow> z_Remove hf m z; Some (z, ZBool b) }"
| "z_step hf fl (ZScoreOp m) z = do { s \<leftarrow> z_Score hf fl m z; Some (z, ZScore s) }"
| "z_step hf fl (ZRankOp m rv) z = do { r \<leftarrow> z_Rank hf m rv z; Some (z, ZRank r) }"
| "z_step hf fl ZLenOp z = do { n \<leftarrow> z_Len z; Some (z, ZInt n) }"
| "z_step hf fl (ZRangeOp r) z = do { xs \<leftarrow> z_rangeBy fl r z; Some (z, ZMembers xs) }"
| "z_step hf fl (ZCountOp r) z = do { n \<leftarrow> z_Count fl r z; Some (z, ZInt n) }"
| "z_step hf fl (ZLexCountOp r) z = do { n \<leftarrow> z_LexCount fl r z; Some (z, ZInt n) }"
| "z_step hf fl (ZPopOp n highest) z = do { (z, xs) \<leftarrow> z_Pop hf fl n highest z; Some (z, ZMembers xs) }"
| "z_step hf fl (ZRemRangeOp r) z = do { xs \<leftarrow> z_rangeBy fl r z; (z, n) \<leftarrow> z_RemoveMembers hf xs z; Some (z, ZInt n) }"
| "z_step hf fl ZCloneOp z = do { z \<leftarrow> z_Clone hf z; Some (z, ZUnit) }"

text \<open>What a range selects from the sorted members.\<close>

definition z_select :: "('f :: linorder) ZRangeSpec \<Rightarrow> 'f zmember list \<Rightarrow> 'f zmember list" where
  "z_select r xs =
     (let ord = (if zr_Reverse r then rev else id)
      in case zr_By r of
           RangeByRank \<Rightarrow> list_range (zr_Start r) (zr_Stop r) (ord xs)
         | RangeByScore \<Rightarrow> applyLimit (ord (filter (\<lambda>x. sr_Contains (zr_Score r) (fst x)) xs)) (zr_Offset r) (zr_Count r)
         | RangeByLex \<Rightarrow> applyLimit (ord (filter (\<lambda>x. lr_Contains (zr_Lex r) (snd x)) xs)) (zr_Offset r) (zr_Count r))"

fun z_spec :: "('f :: linorder) z_op \<Rightarrow> 'f zmember list \<Rightarrow> 'f zmember list \<times> 'f z_reply" where
  "z_spec (ZAddOp m s t) xs = (z_put m s xs, ZBool (m \<notin> snd ` set xs))"
| "z_spec (ZRemOp m) xs = (without m xs, ZBool (m \<in> snd ` set xs))"
| "z_spec (ZScoreOp m) xs = (xs, ZScore (score_map xs m))"
| "z_spec (ZRankOp m rv) xs = (xs, ZRank (z_rank m rv xs))"
| "z_spec ZLenOp xs = (xs, ZInt (int (length xs)))"
| "z_spec (ZRangeOp r) xs = (xs, ZMembers (z_select r xs))"
| "z_spec (ZCountOp r) xs = (xs, ZInt (int (length (filter (\<lambda>x. sr_Contains r (fst x)) xs))))"
| "z_spec (ZLexCountOp r) xs = (xs, ZInt (int (length (filter (\<lambda>x. lr_Contains r (snd x)) xs))))"
| "z_spec (ZPopOp n highest) xs =
     (if highest then take (length xs - nat n) xs else drop (nat n) xs,
      ZMembers (take (nat n) (if highest then rev xs else xs)))"
| "z_spec (ZRemRangeOp r) xs =
     (filter (\<lambda>x. x \<notin> set (z_select r xs)) xs, ZInt (int (length (filter (\<lambda>x. x \<in> set (z_select r xs)) xs))))"
| "z_spec ZCloneOp xs = (xs, ZUnit)"

text \<open>Members are Go slices, and the number of members to pop is not negative, which the command checks.\<close>

fun z_op_ok :: "'f z_op \<Rightarrow> bool" where
  "z_op_ok (ZAddOp m s t) \<longleftrightarrow> len_ok m"
| "z_op_ok (ZPopOp n highest) \<longleftrightarrow> 0 \<le> n"
| "z_op_ok op \<longleftrightarrow> True"

lemma applyLimit_subset: "set (applyLimit xs a b) \<subseteq> set xs"
  by (auto simp: applyLimit_def Let_def dest: in_set_takeD in_set_dropD)

lemma z_select_subset: "set (z_select r xs) \<subseteq> set xs"
proof (cases "zr_By r")
  case RangeByRank
  have "set (list_range a b ys) \<subseteq> set ys" for a b and ys :: "'a zmember list"
    by (cases "clampRange a b (int (length ys))") (auto simp: list_range_def dest: in_set_takeD in_set_dropD)
  from this[of "zr_Start r" "zr_Stop r" "(if zr_Reverse r then rev else id) xs"] show ?thesis
    using RangeByRank by (cases "zr_Reverse r") (simp_all add: z_select_def Let_def)
next
  case RangeByScore
  then show ?thesis
    using applyLimit_subset[of "(if zr_Reverse r then rev else id) (filter (\<lambda>x. sr_Contains (zr_Score r) (fst x)) xs)" "zr_Offset r" "zr_Count r"]
    by (auto simp: z_select_def Let_def split: if_splits)
next
  case RangeByLex
  then show ?thesis
    using applyLimit_subset[of "(if zr_Reverse r then rev else id) (filter (\<lambda>x. lr_Contains (zr_Lex r) (snd x)) xs)" "zr_Offset r" "zr_Count r"]
    by (auto simp: z_select_def Let_def split: if_splits)
qed

lemma z_rangeBy_rep: "floats_ok fl \<Longrightarrow> z_rep hf fl z xs \<Longrightarrow> z_rangeBy fl r z = Some (z_select r xs)"
  using z_RangeByRank_rep[of fl hf z xs "zr_Start r" "zr_Stop r" "zr_Reverse r"] z_All_rep[of fl hf z xs]
  by (cases "zr_By r") (auto simp: z_rangeBy_def z_select_def z_RangeByScore_def z_RangeByLex_def Let_def)

lemma member_in_sub:
  assumes "distinct (map snd xs)" "set ys \<subseteq> set xs" "x \<in> set xs"
  shows "snd x \<in> snd ` set ys \<longleftrightarrow> x \<in> set ys"
proof
  assume "snd x \<in> snd ` set ys"
  then obtain y where "y \<in> set ys" "snd y = snd x" by auto
  then have "y = x" using assms by (metis (no_types, lifting) distinct_map inj_onD subsetD)
  then show "x \<in> set ys" using \<open>y \<in> set ys\<close> by simp
qed simp

lemma filter_out_take:
  assumes "distinct xs"
  shows "filter (\<lambda>x. x \<notin> set (take n xs)) xs = drop n xs" "filter (\<lambda>x. x \<notin> set (take n (rev xs))) xs = take (length xs - n) xs"
proof -
  have "filter (\<lambda>x. x \<notin> set (take n xs)) (take n xs @ drop n xs) = drop n xs"
    unfolding filter_append using set_take_disj_set_drop_if_distinct[OF assms, of n n]
    by (auto simp: filter_empty_conv filter_id_conv)
  then show "filter (\<lambda>x. x \<notin> set (take n xs)) xs = drop n xs" by (simp only: append_take_drop_id)
  have t: "set (take n (rev xs)) = set (drop (length xs - n) xs)" by (simp add: take_rev)
  have "filter (\<lambda>x. x \<notin> set (drop k xs)) (take k xs @ drop k xs) = take k xs" for k
    unfolding filter_append using set_take_disj_set_drop_if_distinct[OF assms, of k k]
    by (auto simp: filter_empty_conv filter_id_conv)
  then show "filter (\<lambda>x. x \<notin> set (take n (rev xs))) xs = take (length xs - n) xs" unfolding t by (simp only: append_take_drop_id)
qed

lemma z_RemoveMembers_sub:
  assumes "z_rep hf fl z xs" "set ys \<subseteq> set xs"
  shows "\<exists>z'. z_RemoveMembers hf ys z = Some (z', int (length (filter (\<lambda>x. x \<in> set ys) xs))) \<and>
    z_rep hf fl z' (filter (\<lambda>x. x \<notin> set ys) xs)"
proof -
  have d: "distinct (map snd xs)" using assms(1) by (simp add: z_rep_def z_ok_def)
  have f: "filter (\<lambda>x. snd x \<notin> snd ` set ys) xs = filter (\<lambda>x. x \<notin> set ys) xs"
    using member_in_sub[OF d assms(2)] by (intro filter_cong) auto
  have "length xs = length (filter (\<lambda>x. x \<in> set ys) xs) + length (filter (\<lambda>x. x \<notin> set ys) xs)"
    by (simp add: sum_length_filter_compl)
  then show ?thesis using z_RemoveMembers_rep[OF assms(1), of ys] unfolding f by auto
qed

lemma z_Pop_rep:
  assumes "floats_ok fl" "z_rep hf fl z xs" "0 \<le> n"
  shows "\<exists>z'. z_Pop hf fl n highest z = Some (z', take (nat n) (if highest then rev xs else xs)) \<and>
    z_rep hf fl z' (if highest then take (length xs - nat n) xs else drop (nat n) xs)"
proof -
  let ?ys = "if highest then rev xs else xs" and ?c = "if n > int (length xs) then int (length xs) else n"
  have "distinct (map snd xs)" using assms(2) by (simp add: z_rep_def z_ok_def)
  then have d: "distinct xs" by (simp add: distinct_map)
  have out: "go_slice ?ys 0 ?c = Some (take (nat n) ?ys)" using assms(3) by (auto simp: go_slice_def)
  have "set (take (nat n) ?ys) \<subseteq> set xs" by (auto dest: in_set_takeD)
  from z_RemoveMembers_sub[OF assms(2) this] obtain z' k where z': "z_RemoveMembers hf (take (nat n) ?ys) z = Some (z', k)"
      "z_rep hf fl z' (filter (\<lambda>x. x \<notin> set (take (nat n) ?ys)) xs)" by blast
  have "filter (\<lambda>x. x \<notin> set (take (nat n) ?ys)) xs = (if highest then take (length xs - nat n) xs else drop (nat n) xs)"
    using filter_out_take[OF d] by simp
  then show ?thesis
    using z' z_All_rep[OF assms(1,2)] out by (cases highest; cases "n > int (length xs)") (simp_all add: z_Pop_def Let_def)
qed

lemma z_step_rep:
  assumes f: "floats_ok fl" and rep: "z_rep hf fl z xs" and ok: "z_op_ok op"
  shows "\<exists>z'. z_step hf fl op z = Some (z', snd (z_spec op xs)) \<and> z_rep hf fl z' (fst (z_spec op xs))"
proof (cases op)
  case (ZAddOp m s t)
  then show ?thesis using z_Add_rep[OF f rep, of m s t] ok by (auto simp: score_map_None)
next
  case (ZRemOp m)
  then show ?thesis using z_Remove_rep[OF rep, of m] by auto
next
  case (ZScoreOp m)
  then show ?thesis using z_Score_rep[OF f rep, of m] rep by simp
next
  case (ZRankOp m rv)
  then show ?thesis using z_Rank_rep[OF rep, of m rv] rep by simp
next
  case ZLenOp
  then show ?thesis using z_Len_rep[OF rep] rep by simp
next
  case (ZRangeOp r)
  then show ?thesis using z_rangeBy_rep[OF f rep, of r] rep by simp
next
  case (ZCountOp r)
  then show ?thesis using z_All_rep[OF f rep] rep by (simp add: z_Count_def)
next
  case (ZLexCountOp r)
  then show ?thesis using z_All_rep[OF f rep] rep by (simp add: z_LexCount_def)
next
  case (ZPopOp n highest)
  then show ?thesis using z_Pop_rep[OF f rep, of n highest] ok by auto
next
  case (ZRemRangeOp r)
  then show ?thesis using z_rangeBy_rep[OF f rep, of r] z_RemoveMembers_sub[OF rep z_select_subset, of r] by auto
next
  case ZCloneOp
  then show ?thesis using z_Clone_rep[OF rep] by auto
qed

lemma z_simulation: "floats_ok fl \<Longrightarrow> simulation (z_rep hf fl) newZSet [] z_op_ok (z_step hf fl) z_spec"
  by unfold_locales (use newZSet_rep z_step_rep in blast)+

text \<open>Scores that are small integers, rendered in decimal as the code renders them.\<close>

definition byte_floats :: "8 word floats" where
  "byte_floats = \<lparr>fl_Format = (\<lambda>w. dec_digits (unat w)), fl_Parse = (\<lambda>b. Some (of_nat (dec_val b)))\<rparr>"

lemma byte_floats_ok: "floats_ok byte_floats"
proof -
  have "length (dec_digits (unat (w :: 8 word))) \<le> 3" for w :: "8 word"
    using unsigned_less[of w, where ?'a = nat] by (intro length_dec_digits_le) auto
  then have "len_ok (dec_digits (unat w))" for w :: "8 word"
    using order_le_less_trans[of "length (dec_digits (unat w))" 3 "2 ^ 63"] by (simp add: len_ok_def)
  then show ?thesis by (simp add: floats_ok_def byte_floats_def dec_val_dec_digits)
qed

interpretation byte_zset: simulation "z_rep hf byte_floats" newZSet "[]" z_op_ok "z_step hf byte_floats" z_spec
  for hf :: "bytes \<Rightarrow> 32 word"
  by (rule z_simulation[OF byte_floats_ok])

subsection \<open>Properties\<close>

text \<open>C24: A sorted set, listpack or skip list with dict, behaves under any run of its operations as the list of its
  members sorted by score and then by member: adding re-scores or inserts, ranks count positions, the three kinds of
  range select from the sorted list in either direction, pops and range removals take exactly the selected members, and
  neither the encoding nor the moment of promotion can be observed. It relies on scores reading back as they were rendered.\<close>

theorem zset_refines_sorted_members:
  assumes "floats_ok fl" "list_all z_op_ok ops"
  shows "\<exists>z. go_run (z_step hf fl) ops newZSet = Some (z, snd (spec_run z_spec ops [])) \<and>
    z_All fl z = Some (fst (spec_run z_spec ops []))"
proof -
  obtain z where "go_run (z_step hf fl) ops newZSet = Some (z, snd (spec_run z_spec ops []))" "z_rep hf fl z (fst (spec_run z_spec ops []))"
    using simulation.run_new[OF z_simulation[OF assms(1)] assms(2)] by blast
  then show ?thesis using z_All_rep[OF assms(1)] by blast
qed

theorem zset_refines_sorted_members_witness:
  "\<exists>z. go_run (z_step (\<lambda>k. 0) byte_floats)
      [ZAddOp [98] 7 DefaultThresholds, ZAddOp [97] 9 DefaultThresholds, ZAddOp [98] 10 DefaultThresholds, ZRankOp [98] False, ZPopOp 1 False] newZSet =
    Some (z, [ZBool True, ZBool True, ZBool False, ZRank (Some 1), ZMembers [(9, [97])]])"
proof -
  have "list_all z_op_ok [ZAddOp [98] (7 :: 8 word) DefaultThresholds, ZAddOp [97] 9 DefaultThresholds, ZAddOp [98] 10 DefaultThresholds,
      ZRankOp [98] False, ZPopOp 1 False]"
    by (simp add: len_ok_def)
  from zset_refines_sorted_members[OF byte_floats_ok this, of "\<lambda>k. 0"] show ?thesis
    by (auto simp: z_put_def score_map_def without_def z_rank_def z_index_def less_eq_prod_def)
qed

text \<open>Whatever ran before, the skip list and the dict of a sorted set agree: the code's own consistency check of the two
  structures, and of the skip list itself, reports nothing.\<close>

theorem zset_check_passes:
  assumes "floats_ok fl" "list_all z_op_ok ops" "go_run (z_step hf fl) ops newZSet = Some (z, rs)"
  shows "z_checkInvariant hf z = Some None"
  using simulation.run_new[OF z_simulation[OF assms(1)] assms(2), of hf] assms(3) z_checkInvariant_ok by fastforce

theorem zset_check_passes_witness:
  "\<exists>z rs. go_run (z_step (\<lambda>k. 0) byte_floats) [ZAddOp [98] 7 DefaultThresholds, ZRemOp [98]] newZSet = Some (z, rs) \<and>
    z_checkInvariant (\<lambda>k. 0) z = Some None"
proof -
  let ?ops = "[ZAddOp [98] (7 :: 8 word) DefaultThresholds, ZRemOp [98]]"
  have ok: "list_all z_op_ok ?ops" by (simp add: len_ok_def)
  then obtain z rs where "go_run (z_step (\<lambda>k. 0) byte_floats) ?ops newZSet = Some (z, rs)"
    using byte_zset.run_new[of ?ops "\<lambda>k. 0"] by blast
  with zset_check_passes[OF byte_floats_ok ok this] show ?thesis by blast
qed

end
