(* ===== verification/Hash_Type.thy ===== *)
theory Hash_Type
  imports Dict_Map List_Type
begin

text \<open>
  The hash value of \<open>engine/hash.go\<close>: a listpack of alternating fields and values while it is
  small, a dict afterwards. \<open>h_rep hf h m\<close> says that \<open>h\<close> holds the finite map \<open>m\<close> in
  either encoding. Every accessor returns bytes, so which of them alias the buffer is not
  visible here.
\<close>

subsection \<open>The type\<close>

record hash_t =
  h_lp :: "listpack option"
  h_m :: "bytes dict option"

definition newHash :: hash_t where
  "newHash = \<lparr>h_lp = Some newListpack, h_m = None\<rparr>"

definition h_Len :: "hash_t \<Rightarrow> int go" where
  "h_Len h = (case h_m h of Some d \<Rightarrow> Some (d_len d) | None \<Rightarrow> map_option (\<lambda>p. int (lp_Len p div 2)) (h_lp h))"

definition h_Encoding :: "hash_t \<Rightarrow> encoding" where
  "h_Encoding h = (if h_m h \<noteq> None then EncodingHashtable else EncodingListpack)"

text \<open>The callback of \<open>forEach\<close> that copies every entry into another dict.\<close>

fun copy_entries :: "(bytes \<Rightarrow> 32 word) \<Rightarrow> (bytes \<times> bytes option) list \<Rightarrow> bytes dict \<Rightarrow> bytes dict go" where
  "copy_entries hf [] d = Some d"
| "copy_entries hf ((k, v) # kvs) d = do { (d, b) \<leftarrow> d_set hf d k (nil_bytes v); copy_entries hf kvs d }"

definition h_Clone :: "(bytes \<Rightarrow> 32 word) \<Rightarrow> hash_t \<Rightarrow> hash_t go" where
  "h_Clone hf h =
     (case h_m h of
        None \<Rightarrow> map_option (\<lambda>p. \<lparr>h_lp = Some (lp_Clone p), h_m = None\<rparr>) (h_lp h)
      | Some d \<Rightarrow> map_option (\<lambda>d. \<lparr>h_lp = None, h_m = Some d\<rparr>) (copy_entries hf (d_forEach d) newDict))"

subsection \<open>Single fields\<close>

definition h_Get :: "(bytes \<Rightarrow> 32 word) \<Rightarrow> bytes \<Rightarrow> hash_t \<Rightarrow> bytes option go" where
  "h_Get hf field h =
     (case h_m h of
        Some d \<Rightarrow> d_get hf d field
      | None \<Rightarrow>
          do {
            p \<leftarrow> h_lp h;
            i \<leftarrow> lp_IndexOfStep p field 2 0;
            if i < 0 then Some None
            else do { v \<leftarrow> lp_CopyAt p (i + 1); Some (Some (nil_bytes v)) }
          })"

definition h_Exists :: "(bytes \<Rightarrow> 32 word) \<Rightarrow> bytes \<Rightarrow> hash_t \<Rightarrow> bool go" where
  "h_Exists hf field h =
     (case h_m h of
        Some d \<Rightarrow> do { v \<leftarrow> d_get hf d field; Some (v \<noteq> None) }
      | None \<Rightarrow> do { p \<leftarrow> h_lp h; i \<leftarrow> lp_IndexOfStep p field 2 0; Some (i \<ge> 0) })"

definition h_ValueLen :: "(bytes \<Rightarrow> 32 word) \<Rightarrow> bytes \<Rightarrow> hash_t \<Rightarrow> (int \<times> bool) go" where
  "h_ValueLen hf field h =
     (case h_m h of
        Some d \<Rightarrow> do { v \<leftarrow> d_get hf d field; Some (int (length (nil_bytes v)), v \<noteq> None) }
      | None \<Rightarrow>
          do {
            p \<leftarrow> h_lp h;
            i \<leftarrow> lp_IndexOfStep p field 2 0;
            if i < 0 then Some (0, False)
            else do { v \<leftarrow> lp_At p (i + 1); Some (int (length (nil_bytes v)), True) }
          })"

text \<open>
  The callback of \<open>promoteIfNeeded\<close> keeps the last field it saw; the state of the walk is that
  field and the dict so far.
\<close>

definition promote_entry :: "(bytes \<Rightarrow> 32 word) \<Rightarrow> bytes \<times> bytes dict go \<Rightarrow> nat \<Rightarrow> bytes \<Rightarrow> (bytes \<times> bytes dict go) \<times> bool" where
  "promote_entry hf st i e =
     (case st of (field, d) \<Rightarrow>
        if i mod 2 = 0 then ((e, d), True)
        else ((field, do { d \<leftarrow> d; (d, b) \<leftarrow> d_set hf d field e; Some d }), True))"

definition h_promoteIfNeeded :: "(bytes \<Rightarrow> 32 word) \<Rightarrow> Thresholds \<Rightarrow> int \<Rightarrow> hash_t \<Rightarrow> hash_t go" where
  "h_promoteIfNeeded hf t longest h =
     (if h_m h \<noteq> None then Some h
      else do {
        p \<leftarrow> h_lp h;
        if int (lp_Len p div 2) \<le> HashMaxListpackEntries t \<and> longest \<le> HashMaxListpackValue t then Some h
        else do {
          (field, d) \<leftarrow> lp_Each p (promote_entry hf) ([], Some newDict);
          d \<leftarrow> d;
          Some \<lparr>h_lp = None, h_m = Some d\<rparr>
        }
      })"

definition h_Set :: "(bytes \<Rightarrow> 32 word) \<Rightarrow> bytes \<Rightarrow> bytes \<Rightarrow> Thresholds \<Rightarrow> hash_t \<Rightarrow> (hash_t \<times> bool) go" where
  "h_Set hf field value t h =
     (case h_m h of
        Some d \<Rightarrow>
          do {
            old \<leftarrow> d_get hf d field;
            (d, b) \<leftarrow> d_set hf d field value;
            Some (h\<lparr>h_m := Some d\<rparr>, old = None)
          }
      | None \<Rightarrow>
          do {
            p \<leftarrow> h_lp h;
            i \<leftarrow> lp_IndexOfStep p field 2 0;
            if i \<ge> 0 then do {
              p \<leftarrow> lp_SetAt p (i + 1) value;
              h \<leftarrow> h_promoteIfNeeded hf t (int (length value)) (h\<lparr>h_lp := Some p\<rparr>);
              Some (h, False)
            }
            else do {
              let p = lp_AppendMany p [field, value];
              h \<leftarrow> h_promoteIfNeeded hf t (max (int (length field)) (int (length value))) (h\<lparr>h_lp := Some p\<rparr>);
              Some (h, True)
            }
          })"

definition h_Delete :: "(bytes \<Rightarrow> 32 word) \<Rightarrow> bytes \<Rightarrow> hash_t \<Rightarrow> (hash_t \<times> bool) go" where
  "h_Delete hf field h =
     (case h_m h of
        Some d \<Rightarrow>
          do {
            old \<leftarrow> d_get hf d field;
            if old = None then Some (h, False)
            else do { (d, b) \<leftarrow> d_delete hf d field; Some (h\<lparr>h_m := Some d\<rparr>, True) }
          }
      | None \<Rightarrow>
          do {
            p \<leftarrow> h_lp h;
            i \<leftarrow> lp_IndexOfStep p field 2 0;
            if i < 0 then Some (h, False)
            else do { p \<leftarrow> lp_DeleteRun p i 2; Some (h\<lparr>h_lp := Some p\<rparr>, True) }
          })"

subsection \<open>Whole hashes\<close>

definition h_collect :: "bool \<Rightarrow> bool \<Rightarrow> hash_t \<Rightarrow> bytes list go" where
  "h_collect fs vs h =
     (case h_m h of
        Some d \<Rightarrow>
          Some (concat (map (\<lambda>(k, v). (if fs then [k] else []) @ (if vs then [nil_bytes v] else [])) (d_forEach d)))
      | None \<Rightarrow>
          do {
            p \<leftarrow> h_lp h;
            lp_Each p (\<lambda>out i e.
              (if (i mod 2 = 0 \<and> fs) \<or> (i mod 2 = 1 \<and> vs) then out @ [e] else out, True)) []
          })"

definition h_Fields :: "hash_t \<Rightarrow> bytes list go" where "h_Fields h = h_collect True False h"
definition h_Values :: "hash_t \<Rightarrow> bytes list go" where "h_Values h = h_collect False True h"
definition h_All :: "hash_t \<Rightarrow> bytes list go" where "h_All h = h_collect True True h"

subsection \<open>A hash holds a map\<close>

definition h_rep :: "(bytes \<Rightarrow> 32 word) \<Rightarrow> hash_t \<Rightarrow> (bytes \<rightharpoonup> bytes) \<Rightarrow> bool" where
  "h_rep hf h m \<longleftrightarrow>
     (case h_m h of
        Some d \<Rightarrow> dict_map hf d m
      | None \<Rightarrow> \<exists>p kvs. h_lp h = Some p \<and> lp_rep p (alternate kvs) \<and> distinct (map fst kvs) \<and> m = map_of kvs)"

lemma h_repE:
  assumes "h_rep hf h m"
  obtains d where "h_m h = Some d" "dict_map hf d m"
  | p kvs where "h_m h = None" "h_lp h = Some p" "lp_rep p (alternate kvs)" "distinct (map fst kvs)" "m = map_of kvs"
  using assms by (cases "h_m h") (auto simp: h_rep_def)

lemma newHash_rep: "h_rep hf newHash Map.empty"
  using lp_rep_new by (auto simp: h_rep_def newHash_def intro!: exI[of _ "[]"])

text \<open>The position of a field among pairs with distinct fields.\<close>

definition f_index :: "'a \<Rightarrow> ('a \<times> 'b) list \<Rightarrow> nat" where
  "f_index k kvs = length (takeWhile (\<lambda>x. fst x \<noteq> k) kvs)"

lemma f_index_found:
  assumes "k \<in> fst ` set kvs"
  shows "f_index k kvs < length kvs" "fst (kvs ! f_index k kvs) = k" "map_of kvs k = Some (snd (kvs ! f_index k kvs))"
  using assms by (induction kvs) (auto simp: f_index_def)

lemma map_of_set_field:
  assumes "k \<in> fst ` set kvs"
  shows "map_of (kvs[f_index k kvs := (k, v)]) = (map_of kvs)(k \<mapsto> v)"
  using assms
proof (induction kvs)
  case (Cons x kvs)
  then show ?case by (cases "fst x = k") (auto simp: f_index_def fun_upd_twist)
qed simp

lemma map_of_remove_field:
  assumes "k \<in> fst ` set kvs" "distinct (map fst kvs)"
  shows "map_of (remove_at (f_index k kvs) kvs) = (map_of kvs)(k := None)"
  using assms
proof (induction kvs)
  case (Cons x kvs)
  show ?case
  proof (cases "fst x = k")
    case True
    then have "map_of kvs k = None" using Cons.prems(2) by (auto simp: map_of_eq_None_iff)
    then show ?thesis using True by (auto simp: f_index_def remove_at_def fun_eq_iff)
  next
    case False
    then show ?thesis using Cons by (auto simp: f_index_def remove_at_def fun_eq_iff)
  qed
qed simp

lemma distinct_remove_pair: "distinct (map fst kvs) \<Longrightarrow> distinct (map fst (remove_at i kvs))"
  using distinct_remove_at[of "map fst kvs" i] by (simp add: remove_at_def take_map drop_map)

lemma lp_find_field:
  "lp_rep p (alternate kvs) \<Longrightarrow> lp_IndexOfStep p k 2 0 = Some (if k \<in> fst ` set kvs then int (2 * f_index k kvs) else -1)"
  using lp_find_pair[of p kvs k] by (simp add: f_index_def)

subsection \<open>The operations\<close>

lemma h_Len_rep: "h_rep hf h m \<Longrightarrow> h_Len h = Some (int (card (dom m))) \<and> finite (dom m)"
proof -
  assume "h_rep hf h m"
  then show ?thesis
  proof (cases rule: h_repE)
    case (1 d)
    then show ?thesis using d_len_map[of hf d m] by (simp add: h_Len_def)
  next
    case (2 p kvs)
    have "card (dom m) = length kvs" using 2(4,5) distinct_card[of "map fst kvs"] by (simp add: dom_map_of_conv_image_fst)
    then show ?thesis using 2 lp_rep_Len[OF 2(3)] by (simp add: h_Len_def finite_dom_map_of)
  qed
qed

lemma lp_At_value:
  assumes "lp_rep p (alternate kvs)" "k \<in> fst ` set kvs"
  shows "lp_At p (int (2 * f_index k kvs) + 1) = Some (Some (snd (kvs ! f_index k kvs)))"
proof -
  have "nat (int (2 * f_index k kvs) + 1) = Suc (2 * f_index k kvs)" by auto
  then show ?thesis
    using f_index_found[OF assms(2)] nth_alternate[of "f_index k kvs" kvs] by (simp add: lp_At_rep[OF assms(1)])
qed

lemma h_Get_rep: "h_rep hf h m \<Longrightarrow> h_Get hf k h = Some (m k)"
proof -
  assume "h_rep hf h m"
  then show ?thesis
  proof (cases rule: h_repE)
    case (1 d)
    then show ?thesis using d_get_map(1)[of hf d m] by (simp add: h_Get_def)
  next
    case (2 p kvs)
    then show ?thesis using lp_find_field[OF 2(3), of k] lp_At_value[OF 2(3), of k] f_index_found(3)[of k kvs] map_of_eq_None_iff[of kvs k]
      by (auto simp: h_Get_def lp_CopyAt_def nil_bytes_def)
  qed
qed

lemma h_Exists_rep: "h_rep hf h m \<Longrightarrow> h_Exists hf k h = Some (k \<in> dom m)"
proof -
  assume "h_rep hf h m"
  then show ?thesis
  proof (cases rule: h_repE)
    case (1 d)
    then show ?thesis using d_get_map(1)[of hf d m] by (simp add: h_Exists_def domIff)
  next
    case (2 p kvs)
    then show ?thesis using lp_find_field[OF 2(3), of k] by (simp add: h_Exists_def dom_map_of_conv_image_fst)
  qed
qed

lemma h_ValueLen_rep: "h_rep hf h m \<Longrightarrow> h_ValueLen hf k h = Some (int (length (nil_bytes (m k))), k \<in> dom m)"
proof -
  assume "h_rep hf h m"
  then show ?thesis
  proof (cases rule: h_repE)
    case (1 d)
    then show ?thesis using d_get_map(1)[of hf d m] by (simp add: h_ValueLen_def domIff)
  next
    case (2 p kvs)
    show ?thesis
    proof (cases "k \<in> fst ` set kvs")
      case True
      then show ?thesis using 2 lp_find_field[OF 2(3), of k] lp_At_value[OF 2(3) True] f_index_found(3)[OF True]
        by (simp add: h_ValueLen_def nil_bytes_def domIff)
    next
      case False
      then show ?thesis using 2 lp_find_field[OF 2(3), of k] map_of_eq_None_iff[of kvs k]
        by (simp add: h_ValueLen_def nil_bytes_def domIff)
    qed
  qed
qed

lemma each_promote:
  assumes "dict_map hf d m" "distinct (map fst kvs)" "dom m \<inter> fst ` set kvs = {}"
  shows "\<exists>d'. snd (each_from (2 * n) (promote_entry hf) (f, Some d) (alternate kvs)) = Some d' \<and> dict_map hf d' (m ++ map_of kvs)"
  using assms
proof (induction kvs arbitrary: n f d m)
  case Nil
  then show ?case by simp
next
  case (Cons x kvs)
  obtain d1 where d1: "d_set hf d (fst x) (snd x) = Some (d1, fst x \<notin> dom m)" "dict_map hf d1 (m(fst x \<mapsto> snd x))"
    using d_set_map[OF Cons.prems(1)] by blast
  have ne: "fst x \<notin> fst ` set kvs" using Cons.prems(2) by simp
  have "map_of kvs (fst x) = None" using ne by (simp add: map_of_eq_None_iff)
  then have eq: "m(fst x \<mapsto> snd x) ++ map_of kvs = m ++ map_of (x # kvs)"
    by (auto simp: map_add_def fun_eq_iff split: option.splits)
  have "snd (each_from (2 * n) (promote_entry hf) (f, Some d) (alternate (x # kvs))) =
      snd (each_from (2 * Suc n) (promote_entry hf) (fst x, Some d1) (alternate kvs))"
    using d1(1) by (simp add: promote_entry_def)
  moreover have "dom (m(fst x \<mapsto> snd x)) \<inter> fst ` set kvs = {}" "distinct (map fst kvs)" using Cons.prems(2,3) ne by auto
  ultimately show ?case using Cons.IH[OF d1(2), of "Suc n" "fst x"] unfolding eq by (simp only:)
qed

lemma h_promoteIfNeeded_rep: "h_rep hf h m \<Longrightarrow> \<exists>h'. h_promoteIfNeeded hf t n h = Some h' \<and> h_rep hf h' m"
proof -
  assume rep: "h_rep hf h m"
  then show ?thesis
  proof (cases rule: h_repE)
    case (2 p kvs)
    obtain fd d where e: "each_from 0 (promote_entry hf) ([], Some newDict) (alternate kvs) = (fd, Some d)" "dict_map hf d m"
      using each_promote[OF newDict_map[of hf] 2(4), of 0 "[]"] 2(5) by (auto simp: prod_eq_iff)
    then show ?thesis using 2 rep lp_Each_rep[OF 2(3), of "promote_entry hf" "([], Some newDict)"]
      by (auto simp: h_promoteIfNeeded_def h_rep_def)
  qed (use rep in \<open>auto simp: h_promoteIfNeeded_def\<close>)
qed

lemma h_rep_lp: "h_m h = None \<Longrightarrow> lp_rep p (alternate kvs) \<Longrightarrow> distinct (map fst kvs) \<Longrightarrow> h_rep hf (h\<lparr>h_lp := Some p\<rparr>) (map_of kvs)"
  by (auto simp: h_rep_def)

lemma h_Set_rep:
  assumes "h_rep hf h m" "len_ok k" "len_ok v"
  shows "\<exists>h'. h_Set hf k v t h = Some (h', k \<notin> dom m) \<and> h_rep hf h' (m(k \<mapsto> v))"
  using assms(1)
proof (cases rule: h_repE)
  case (1 d)
  then show ?thesis using d_set_map[OF 1(2), of k v] d_get_map(1)[OF 1(2), of k]
    by (auto simp: h_Set_def h_rep_def domIff)
next
  case (2 p kvs)
  show ?thesis
  proof (cases "k \<in> fst ` set kvs")
    case True
    let ?i = "f_index k kvs"
    note i = f_index_found[OF True]
    have "nat (int (2 * ?i) + 1) = Suc (2 * ?i)" by auto
    then obtain p1 where p1: "lp_SetAt p (int (2 * ?i) + 1) v = Some p1" "lp_rep p1 (alternate (kvs[?i := (k, v)]))"
      using lp_SetAt_rep[OF 2(3) assms(3), of "int (2 * ?i) + 1"] i update_alternate[OF i(1), of v] by auto
    have "map fst (kvs[?i := (k, v)]) = map fst kvs"
      using i list_update_id[of "map fst kvs" ?i] by (simp add: map_update)
    then have "h_rep hf (h\<lparr>h_lp := Some p1\<rparr>) (m(k \<mapsto> v))"
      using h_rep_lp[OF 2(1) p1(2)] 2(4,5) map_of_set_field[OF True, of v] by simp
    from h_promoteIfNeeded_rep[OF this, of t "int (length v)"] show ?thesis
      using True 2 p1(1) lp_find_field[OF 2(3), of k] by (auto simp: h_Set_def dom_map_of_conv_image_fst)
  next
    case False
    have "lp_rep (lp_AppendMany p [k, v]) (alternate (kvs @ [(k, v)]))"
      using lp_AppendMany_rep[OF 2(3), of "[k, v]"] assms(2,3) by simp
    then have "h_rep hf (h\<lparr>h_lp := Some (lp_AppendMany p [k, v])\<rparr>) (map_of (kvs @ [(k, v)]))"
      by (rule h_rep_lp[OF 2(1)]) (use 2(4) False in auto)
    moreover have "map_of kvs k = None" using False by (simp add: map_of_eq_None_iff)
    then have "map_of (kvs @ [(k, v)]) = m(k \<mapsto> v)"
      by (auto simp: 2(5) fun_eq_iff map_add_def split: option.splits)
    ultimately have "h_rep hf (h\<lparr>h_lp := Some (lp_AppendMany p [k, v])\<rparr>) (m(k \<mapsto> v))" by simp
    from h_promoteIfNeeded_rep[OF this, of t "max (int (length k)) (int (length v))"] show ?thesis
      using False 2 lp_find_field[OF 2(3), of k] by (auto simp: h_Set_def dom_map_of_conv_image_fst)
  qed
qed

lemma h_Delete_rep:
  assumes "h_rep hf h m"
  shows "\<exists>h'. h_Delete hf k h = Some (h', k \<in> dom m) \<and> h_rep hf h' (m(k := None))"
  using assms
proof (cases rule: h_repE)
  case (1 d)
  have "m k = None \<Longrightarrow> m(k := None) = m" by (auto simp: fun_eq_iff)
  then show ?thesis using d_delete_map[OF 1(2), of k] d_get_map(1)[OF 1(2), of k] 1 assms
    by (auto simp: h_Delete_def h_rep_def domIff)
next
  case (2 p kvs)
  show ?thesis
  proof (cases "k \<in> fst ` set kvs")
    case True
    obtain p1 where "lp_DeleteRun p (int (2 * f_index k kvs)) 2 = Some p1" "lp_rep p1 (alternate (remove_at (f_index k kvs) kvs))"
      using lp_delete_pair[OF 2(3) f_index_found(1)[OF True]] by blast
    then show ?thesis using True 2 lp_find_field[OF 2(3), of k] map_of_remove_field[OF True 2(4)] distinct_remove_pair[OF 2(4)]
      by (auto simp: h_Delete_def h_rep_def dom_map_of_conv_image_fst)
  next
    case False
    then have "m k = None" using 2(5) by (simp add: map_of_eq_None_iff)
    then have "m(k := None) = m" by (rule fun_upd_idem)
    then show ?thesis using False 2 lp_find_field[OF 2(3), of k] assms by (auto simp: h_Delete_def dom_map_of_conv_image_fst)
  qed
qed

text \<open>The three listings show the same entries in the same order.\<close>

lemma each_collect:
  "each_from (2 * n) (\<lambda>out i e. (if (i mod 2 = 0 \<and> fs) \<or> (i mod 2 = 1 \<and> vs) then out @ [e] else out, True)) out (alternate kvs) =
     out @ concat (map (\<lambda>(k, v). (if fs then [k] else []) @ (if vs then [v] else [])) kvs)"
proof (induction kvs arbitrary: n out)
  case (Cons x kvs)
  have "Suc (Suc (2 * n)) = 2 * Suc n" by simp
  then show ?case using Cons[of "Suc n"] by (cases x) (auto simp del: mult_Suc_right)
qed simp

lemma map_of_entries:
  assumes "distinct (map fst L)" "set L = (\<lambda>k. (k, m k)) ` dom m"
  shows "map_of (map (\<lambda>(k, v). (k, the v)) L) = m"
proof
  fix k
  have d: "distinct (map fst (map (\<lambda>(k, v). (k, the v)) L))" using assms(1) by (simp add: case_prod_unfold comp_def)
  show "map_of (map (\<lambda>(k, v). (k, the v)) L) k = m k"
  proof (cases "m k")
    case None
    then have "k \<notin> fst ` set L" using assms(2) by (auto simp: domIff)
    then show ?thesis using None by (simp add: map_of_eq_None_iff image_image case_prod_unfold)
  next
    case (Some v)
    then have "(k, Some v) \<in> set L" using assms(2) by (auto simp: image_iff intro: domI)
    then have "(k, v) \<in> set (map (\<lambda>(k, v). (k, the v)) L)" by force
    then show ?thesis using Some map_of_eq_Some_iff[OF d] by simp
  qed
qed

lemma d_forEach_values:
  assumes "dict_map hf d m"
  shows "\<exists>kvs. distinct (map fst kvs) \<and> map_of kvs = m \<and> d_forEach d = map (\<lambda>(k, v). (k, Some v)) kvs"
proof -
  let ?L = "d_forEach d"
  note e = d_forEach_entries[OF assms]
  have "map (\<lambda>(k, v). (k, Some v)) (map (\<lambda>(k, v). (k, the v)) ?L) = ?L"
    unfolding map_map by (rule map_idI) (use e(2) in auto)
  moreover have "distinct (map fst (map (\<lambda>(k, v). (k, the v)) ?L))" using e(1) by (simp add: case_prod_unfold comp_def)
  ultimately show ?thesis using map_of_entries[OF e] by metis
qed

lemma h_order:
  assumes "h_rep hf h m"
  shows "\<exists>kvs. distinct (map fst kvs) \<and> map_of kvs = m \<and>
    (\<forall>fs vs. h_collect fs vs h = Some (concat (map (\<lambda>(k, v). (if fs then [k] else []) @ (if vs then [v] else [])) kvs)))"
  using assms
proof (cases rule: h_repE)
  case (1 d)
  obtain kvs where "distinct (map fst kvs)" "map_of kvs = m" "d_forEach d = map (\<lambda>(k, v). (k, Some v)) kvs"
    using d_forEach_values[OF 1(2)] by blast
  moreover have "map (\<lambda>(k, v). (if fs then [k] else []) @ (if vs then [nil_bytes v] else [])) (map (\<lambda>(k, v). (k, Some v)) kvs) =
      map (\<lambda>(k, v). (if fs then [k] else []) @ (if vs then [v] else [])) kvs" for fs vs
    by (auto simp: nil_bytes_def)
  ultimately show ?thesis using 1(1) by (auto simp: h_collect_def intro!: exI[of _ kvs] simp del: map_map)
next
  case (2 p kvs)
  then show ?thesis using each_collect[of 0 _ _ "[]" kvs] by (auto simp: h_collect_def lp_Each_rep[OF 2(3)] intro!: exI[of _ kvs])
qed

lemma copy_entries_rep:
  assumes "dict_map hf d m" "distinct (map fst kvs)" "dom m \<inter> fst ` set kvs = {}"
  shows "\<exists>d'. copy_entries hf (map (\<lambda>(k, v). (k, Some v)) kvs) d = Some d' \<and> dict_map hf d' (m ++ map_of kvs)"
  using assms
proof (induction kvs arbitrary: d m)
  case (Cons x kvs)
  obtain d1 where d1: "d_set hf d (fst x) (snd x) = Some (d1, fst x \<notin> dom m)" "dict_map hf d1 (m(fst x \<mapsto> snd x))"
    using d_set_map[OF Cons.prems(1)] by blast
  have "dom (m(fst x \<mapsto> snd x)) \<inter> fst ` set kvs = {}" "distinct (map fst kvs)" using Cons.prems(2,3) by auto
  moreover have "m(fst x \<mapsto> snd x) ++ map_of kvs = m ++ map_of (x # kvs)"
    using Cons.prems(2) map_of_eq_None_iff[of kvs "fst x"] by (auto simp: map_add_def fun_eq_iff split: option.splits)
  ultimately have "\<exists>d'. copy_entries hf (map (\<lambda>(k, v). (k, Some v)) kvs) d1 = Some d' \<and> dict_map hf d' (m ++ map_of (x # kvs))"
    using Cons.IH[OF d1(2)] by (simp only:)
  moreover have "copy_entries hf (map (\<lambda>(k, v). (k, Some v)) (x # kvs)) d = copy_entries hf (map (\<lambda>(k, v). (k, Some v)) kvs) d1"
    using d1(1) by (cases x) (simp add: nil_bytes_def)
  ultimately show ?case by (simp only:)
qed simp

lemma h_Clone_rep:
  assumes "h_rep hf h m"
  shows "\<exists>h'. h_Clone hf h = Some h' \<and> h_rep hf h' m"
  using assms
proof (cases rule: h_repE)
  case (1 d)
  obtain kvs where k: "distinct (map fst kvs)" "map_of kvs = m" "d_forEach d = map (\<lambda>(k, v). (k, Some v)) kvs"
    using d_forEach_values[OF 1(2)] by blast
  then show ?thesis using 1(1) copy_entries_rep[OF newDict_map k(1), of hf] by (auto simp: h_Clone_def h_rep_def)
next
  case (2 p kvs)
  then show ?thesis by (auto simp: h_Clone_def h_rep_def lp_Clone_id)
qed

subsection \<open>Runs\<close>

datatype h_op = HSetOp bytes bytes Thresholds | HDelOp bytes | HGetOp bytes | HExistsOp bytes | HLenOp | HValueLenOp bytes
  | HFieldsOp | HValuesOp | HAllOp | HCloneOp

datatype h_reply = HBool bool | HVal "bytes option" | HInt int | HBag "bytes multiset" | HPairs "(bytes \<times> bytes) multiset" | HUnit

fun pair_up :: "'a list \<Rightarrow> ('a \<times> 'a) list" where
  "pair_up (x # y # zs) = (x, y) # pair_up zs"
| "pair_up [x] = []"
| "pair_up [] = []"

text \<open>The order of a listing depends on the encoding; a reply keeps what is listed, with its multiplicity.\<close>

fun h_step :: "(bytes \<Rightarrow> 32 word) \<Rightarrow> h_op \<Rightarrow> hash_t \<Rightarrow> (hash_t \<times> h_reply) go" where
  "h_step hf (HSetOp k v t) h = do { (h, b) \<leftarrow> h_Set hf k v t h; Some (h, HBool b) }"
| "h_step hf (HDelOp k) h = do { (h, b) \<leftarrow> h_Delete hf k h; Some (h, HBool b) }"
| "h_step hf (HGetOp k) h = do { v \<leftarrow> h_Get hf k h; Some (h, HVal v) }"
| "h_step hf (HExistsOp k) h = do { b \<leftarrow> h_Exists hf k h; Some (h, HBool b) }"
| "h_step hf HLenOp h = do { n \<leftarrow> h_Len h; Some (h, HInt n) }"
| "h_step hf (HValueLenOp k) h = do { (n, b) \<leftarrow> h_ValueLen hf k h; Some (h, HInt n) }"
| "h_step hf HFieldsOp h = do { xs \<leftarrow> h_Fields h; Some (h, HBag (mset xs)) }"
| "h_step hf HValuesOp h = do { xs \<leftarrow> h_Values h; Some (h, HBag (mset xs)) }"
| "h_step hf HAllOp h = do { xs \<leftarrow> h_All h; Some (h, HPairs (mset (pair_up xs))) }"
| "h_step hf HCloneOp h = do { h \<leftarrow> h_Clone hf h; Some (h, HUnit) }"

definition map_entries :: "(bytes \<rightharpoonup> bytes) \<Rightarrow> (bytes \<times> bytes) multiset" where
  "map_entries m = image_mset (\<lambda>k. (k, the (m k))) (mset_set (dom m))"

fun h_spec :: "h_op \<Rightarrow> (bytes \<rightharpoonup> bytes) \<Rightarrow> (bytes \<rightharpoonup> bytes) \<times> h_reply" where
  "h_spec (HSetOp k v t) m = (m(k \<mapsto> v), HBool (m k = None))"
| "h_spec (HDelOp k) m = (m(k := None), HBool (m k \<noteq> None))"
| "h_spec (HGetOp k) m = (m, HVal (m k))"
| "h_spec (HExistsOp k) m = (m, HBool (m k \<noteq> None))"
| "h_spec HLenOp m = (m, HInt (int (card (dom m))))"
| "h_spec (HValueLenOp k) m = (m, HInt (case m k of None \<Rightarrow> 0 | Some v \<Rightarrow> int (length v)))"
| "h_spec HFieldsOp m = (m, HBag (mset_set (dom m)))"
| "h_spec HValuesOp m = (m, HBag (image_mset snd (map_entries m)))"
| "h_spec HAllOp m = (m, HPairs (map_entries m))"
| "h_spec HCloneOp m = (m, HUnit)"

fun h_op_ok :: "h_op \<Rightarrow> bool" where
  "h_op_ok (HSetOp k v t) \<longleftrightarrow> len_ok k \<and> len_ok v"
| "h_op_ok (HDelOp k) \<longleftrightarrow> True"
| "h_op_ok (HGetOp k) \<longleftrightarrow> True"
| "h_op_ok (HExistsOp k) \<longleftrightarrow> True"
| "h_op_ok HLenOp \<longleftrightarrow> True"
| "h_op_ok (HValueLenOp k) \<longleftrightarrow> True"
| "h_op_ok HFieldsOp \<longleftrightarrow> True"
| "h_op_ok HValuesOp \<longleftrightarrow> True"
| "h_op_ok HAllOp \<longleftrightarrow> True"
| "h_op_ok HCloneOp \<longleftrightarrow> True"

lemma map_entries_list:
  assumes "distinct (map fst kvs)" "map_of kvs = m"
  shows "mset kvs = map_entries m" "mset (map fst kvs) = mset_set (dom m)"
proof -
  have d: "dom m = set (map fst kvs)" unfolding assms(2)[symmetric] dom_map_of_conv_image_fst by simp
  show fsts: "mset (map fst kvs) = mset_set (dom m)" unfolding d using assms(1) by (simp only: mset_set_set)
  have "map (\<lambda>k. (k, the (m k))) (map fst kvs) = kvs"
    unfolding map_map by (rule map_idI) (use assms(1) in \<open>auto simp: assms(2)[symmetric]\<close>)
  from arg_cong[OF this, of mset] have "mset kvs = image_mset (\<lambda>k. (k, the (m k))) (mset (map fst kvs))" by (simp only: mset_map)
  then show "mset kvs = map_entries m" unfolding fsts map_entries_def .
qed

lemma pair_up_alternate: "pair_up (concat (map (\<lambda>(k, v). [k, v]) kvs)) = kvs"
  by (induction kvs) auto

lemma h_collect_rep:
  assumes "h_rep hf h m"
  shows "\<exists>xs. h_Fields h = Some xs \<and> mset xs = mset_set (dom m)" "\<exists>xs. h_Values h = Some xs \<and> mset xs = image_mset snd (map_entries m)"
    "\<exists>xs. h_All h = Some xs \<and> mset (pair_up xs) = map_entries m"
proof -
  obtain kvs where k: "distinct (map fst kvs)" "map_of kvs = m" and
    c: "\<And>fs vs. h_collect fs vs h = Some (concat (map (\<lambda>(k, v). (if fs then [k] else []) @ (if vs then [v] else [])) kvs))"
    using h_order[OF assms] by blast
  note e = map_entries_list[OF k]
  have l: "concat (map (\<lambda>(k, v). [k]) kvs) = map fst kvs" "concat (map (\<lambda>(k, v). [v]) kvs) = map snd kvs"
    by (induction kvs) auto
  show "\<exists>xs. h_Fields h = Some xs \<and> mset xs = mset_set (dom m)" using c[of True False] e(2) l(1) by (simp add: h_Fields_def)
  show "\<exists>xs. h_Values h = Some xs \<and> mset xs = image_mset snd (map_entries m)"
    using c[of False True] e(1)[symmetric] l(2) by (simp add: h_Values_def)
  show "\<exists>xs. h_All h = Some xs \<and> mset (pair_up xs) = map_entries m"
    using c[of True True] e(1) pair_up_alternate[of kvs] by (simp add: h_All_def)
qed

interpretation hash: simulation "h_rep hf" newHash Map.empty h_op_ok "h_step hf" h_spec for hf :: "bytes \<Rightarrow> 32 word"
proof unfold_locales
  show "h_rep hf newHash Map.empty" by (rule newHash_rep)
  fix h m op
  assume rep: "h_rep hf h m" and ok: "h_op_ok op"
  show "\<exists>h'. h_step hf op h = Some (h', snd (h_spec op m)) \<and> h_rep hf h' (fst (h_spec op m))"
  proof (cases op)
    case (HSetOp k v t)
    then show ?thesis using h_Set_rep[OF rep, of k v t] ok by (auto simp: domIff)
  next
    case (HDelOp k)
    then show ?thesis using h_Delete_rep[OF rep, of k] by (auto simp: domIff)
  next
    case (HValueLenOp k)
    then show ?thesis using h_ValueLen_rep[OF rep, of k] rep by (auto simp: nil_bytes_def split: option.splits)
  next
    case HCloneOp
    then show ?thesis using h_Clone_rep[OF rep] by auto
  qed (use rep h_Get_rep[OF rep] h_Exists_rep[OF rep] h_Len_rep[OF rep] h_collect_rep[OF rep] in \<open>auto simp: domIff\<close>)
qed

subsection \<open>Properties\<close>

text \<open>C25: A hash, listpack or dict, behaves under any run of its operations as a finite map from fields to values: a set
  reports whether the field was new and a delete whether it was there, and the three listings show each entry
  exactly once. Neither the encoding nor the moment of promotion can be observed, and nothing panics.\<close>

theorem hash_refines_map:
  assumes "list_all h_op_ok ops"
  shows "\<exists>h. go_run (h_step hf) ops newHash = Some (h, snd (spec_run h_spec ops Map.empty)) \<and>
    (\<forall>k. h_Get hf k h = Some (fst (spec_run h_spec ops Map.empty) k))"
  using hash.run_new[OF assms, of hf] h_Get_rep by blast

theorem hash_refines_map_witness:
  "\<exists>h. go_run (h_step (\<lambda>k. 0))
      [HSetOp [1] [2] (DefaultThresholds\<lparr>HashMaxListpackEntries := 1\<rparr>), HSetOp [3] [4] (DefaultThresholds\<lparr>HashMaxListpackEntries := 1\<rparr>),
       HSetOp [1] [5, 6] DefaultThresholds, HDelOp [3], HGetOp [1], HLenOp, HValueLenOp [1]] newHash =
    Some (h, [HBool True, HBool True, HBool False, HBool True, HVal (Some [5, 6]), HInt 1, HInt 2])"
  using hash_refines_map[of "[HSetOp [1] [2] (DefaultThresholds\<lparr>HashMaxListpackEntries := 1\<rparr>),
      HSetOp [3] [4] (DefaultThresholds\<lparr>HashMaxListpackEntries := 1\<rparr>), HSetOp [1] [5, 6] DefaultThresholds, HDelOp [3], HGetOp [1], HLenOp, HValueLenOp [1]]" "\<lambda>k. 0"]
  by (auto simp: len_ok_def card_insert_if)

end
