(* ===== verification/Set_Type.thy ===== *)
theory Set_Type
  imports Decimal List_Type Dict_Map
begin

text \<open>
  The set value of \<open>engine/set.go\<close>: a sorted slice of integers while every member is an
  integer, a listpack while it is small, a dict otherwise. \<open>s_rep hf s S\<close> says that
  \<open>s\<close> holds the finite set \<open>S\<close> in one of the three encodings. The random generator
  is an argument: what \<open>Intn\<close> draws and how \<open>Shuffle\<close> reorders.
\<close>

subsection \<open>Integer sets\<close>

type_synonym intset = "int list"

definition is_search :: "intset \<Rightarrow> int \<Rightarrow> (nat \<times> bool) go" where
  "is_search v n =
     do {
       i \<leftarrow> sort_Search (length v) (\<lambda>i. map_option (\<lambda>x. x \<ge> n) (lst_nth v (int i)));
       Some (i, i < length v \<and> v ! i = n)
     }"

definition is_Contains :: "intset \<Rightarrow> int \<Rightarrow> bool go" where
  "is_Contains v n = do { (i, ok) \<leftarrow> is_search v n; Some ok }"

text \<open>Make room at the end, shift the tail by one, write the new value.\<close>

definition is_Add :: "intset \<Rightarrow> int \<Rightarrow> (intset \<times> bool) go" where
  "is_Add v n =
     do {
       (i, found) \<leftarrow> is_search v n;
       if found then Some (v, False)
       else (let v = v @ [0]; v = copy_at v (i + 1) (drop i v) in Some (v[i := n], True))
     }"

definition is_Remove :: "intset \<Rightarrow> int \<Rightarrow> (intset \<times> bool) go" where
  "is_Remove v n =
     do {
       (i, found) \<leftarrow> is_search v n;
       if \<not> found then Some (v, False)
       else do {
         a \<leftarrow> go_slice v 0 (int i);
         b \<leftarrow> go_slice v (int i + 1) (int (length v));
         Some (a @ b, True)
       }
     }"

subsection \<open>The type\<close>

record set_t =
  s_is :: "intset option"
  s_lp :: "listpack option"
  s_m :: "unit dict option"

definition newSet :: "bytes \<Rightarrow> Thresholds \<Rightarrow> set_t" where
  "newSet firstMember t =
     (if canonicalInt firstMember \<noteq> None then \<lparr>s_is = Some [], s_lp = None, s_m = None\<rparr>
      else if int (length firstMember) > SetMaxListpackValue t then \<lparr>s_is = None, s_lp = None, s_m = Some newDict\<rparr>
      else \<lparr>s_is = None, s_lp = Some newListpack, s_m = None\<rparr>)"

text \<open>The order of the cases is the code's: dict, integer set, listpack.\<close>

definition s_Len :: "set_t \<Rightarrow> int go" where
  "s_Len s =
     (case s_m s of Some d \<Rightarrow> Some (d_len d)
      | None \<Rightarrow> (case s_is s of Some v \<Rightarrow> Some (int (length v)) | None \<Rightarrow> map_option (\<lambda>p. int (lp_Len p)) (s_lp s)))"

definition s_Encoding :: "set_t \<Rightarrow> encoding" where
  "s_Encoding s =
     (if s_m s \<noteq> None then EncodingHashtable else if s_is s \<noteq> None then EncodingIntset else EncodingListpack)"

definition s_Contains :: "(bytes \<Rightarrow> 32 word) \<Rightarrow> bytes \<Rightarrow> set_t \<Rightarrow> bool go" where
  "s_Contains hf member s =
     (case s_m s of
        Some d \<Rightarrow> do { v \<leftarrow> d_get hf d member; Some (v \<noteq> None) }
      | None \<Rightarrow>
          (case s_is s of
             Some v \<Rightarrow> (case canonicalInt member of None \<Rightarrow> Some False | Some n \<Rightarrow> is_Contains v n)
           | None \<Rightarrow> do { p \<leftarrow> s_lp s; i \<leftarrow> lp_IndexOf p member; Some (i \<ge> 0) }))"

text \<open>The loops that copy members into a new dict or a new listpack.\<close>

fun dict_of :: "(bytes \<Rightarrow> 32 word) \<Rightarrow> bytes list \<Rightarrow> unit dict \<Rightarrow> unit dict go" where
  "dict_of hf [] d = Some d"
| "dict_of hf (x # xs) d = do { (d, b) \<leftarrow> d_set hf d x (); dict_of hf xs d }"

definition demoteIntset :: "(bytes \<Rightarrow> 32 word) \<Rightarrow> Thresholds \<Rightarrow> int \<Rightarrow> intset \<Rightarrow> set_t \<Rightarrow> set_t go" where
  "demoteIntset hf t incomingLen v s =
     (if int (length v) \<ge> SetMaxListpackEntries t \<or> incomingLen > SetMaxListpackValue t then
        do { d \<leftarrow> dict_of hf (map AppendInt v) newDict; Some (s\<lparr>s_m := Some d, s_is := None\<rparr>) }
      else Some (s\<lparr>s_lp := Some (foldl (\<lambda>p n. lp_Append p (AppendInt n)) newListpack v), s_is := None\<rparr>))"

definition promoteToMap :: "(bytes \<Rightarrow> 32 word) \<Rightarrow> listpack \<Rightarrow> set_t \<Rightarrow> set_t go" where
  "promoteToMap hf p s =
     do {
       d \<leftarrow> lp_Each p (\<lambda>d i e. (do { d \<leftarrow> d; (d, b) \<leftarrow> d_set hf d e (); Some d }, True)) (Some newDict);
       d \<leftarrow> d;
       Some (s\<lparr>s_m := Some d, s_lp := None\<rparr>)
     }"

text \<open>
  \<open>Add\<close> without its integer-set branch, which is also what the recursive call runs once
  \<open>demoteIntset\<close> has ended that encoding.
\<close>

definition s_Add_plain :: "(bytes \<Rightarrow> 32 word) \<Rightarrow> bytes \<Rightarrow> Thresholds \<Rightarrow> set_t \<Rightarrow> (set_t \<times> bool) go" where
  "s_Add_plain hf member t s =
     (case s_m s of
        Some d \<Rightarrow>
          do {
            v \<leftarrow> d_get hf d member;
            if v \<noteq> None then Some (s, False)
            else do { (d, b) \<leftarrow> d_set hf d member (); Some (s\<lparr>s_m := Some d\<rparr>, True) }
          }
      | None \<Rightarrow>
          do {
            p \<leftarrow> s_lp s;
            i \<leftarrow> lp_IndexOf p member;
            if i \<ge> 0 then Some (s, False)
            else do {
              let p = lp_Append p member;
              let s = s\<lparr>s_lp := Some p\<rparr>;
              s \<leftarrow> (if int (lp_Len p) > SetMaxListpackEntries t \<or> int (length member) > SetMaxListpackValue t
                    then promoteToMap hf p s else Some s);
              Some (s, True)
            }
          })"

definition s_Add :: "(bytes \<Rightarrow> 32 word) \<Rightarrow> bytes \<Rightarrow> Thresholds \<Rightarrow> set_t \<Rightarrow> (set_t \<times> bool) go" where
  "s_Add hf member t s =
     (case s_is s of
        Some v \<Rightarrow>
          if s_m s \<noteq> None then s_Add_plain hf member t s
          else
            (case canonicalInt member of
               None \<Rightarrow> do { s \<leftarrow> demoteIntset hf t (int (length member)) v s; s_Add_plain hf member t s }
             | Some n \<Rightarrow>
                 do {
                   (v, fresh) \<leftarrow> is_Add v n;
                   let s = s\<lparr>s_is := Some v\<rparr>;
                   if \<not> fresh then Some (s, False)
                   else do {
                     s \<leftarrow> (if int (length v) > SetMaxIntsetEntries t then demoteIntset hf t 20 v s else Some s);
                     Some (s, True)
                   }
                 })
      | None \<Rightarrow> s_Add_plain hf member t s)"

definition s_Remove :: "(bytes \<Rightarrow> 32 word) \<Rightarrow> bytes \<Rightarrow> set_t \<Rightarrow> (set_t \<times> bool) go" where
  "s_Remove hf member s =
     (case s_m s of
        Some d \<Rightarrow>
          do {
            v \<leftarrow> d_get hf d member;
            if v = None then Some (s, False)
            else do { (d, b) \<leftarrow> d_delete hf d member; Some (s\<lparr>s_m := Some d\<rparr>, True) }
          }
      | None \<Rightarrow>
          (case s_is s of
             Some v \<Rightarrow>
               (case canonicalInt member of None \<Rightarrow> Some (s, False)
                | Some n \<Rightarrow> do { (v, b) \<leftarrow> is_Remove v n; Some (s\<lparr>s_is := Some v\<rparr>, b) })
           | None \<Rightarrow>
               do {
                 p \<leftarrow> s_lp s;
                 i \<leftarrow> lp_IndexOf p member;
                 if i < 0 then Some (s, False)
                 else do { p \<leftarrow> lp_DeleteAt p i; Some (s\<lparr>s_lp := Some p\<rparr>, True) }
               }))"

definition s_Members :: "set_t \<Rightarrow> bytes list go" where
  "s_Members s =
     (case s_m s of
        Some d \<Rightarrow> Some (map fst (d_forEach d))
      | None \<Rightarrow>
          (case s_is s of
             Some v \<Rightarrow> Some (map AppendInt v)
           | None \<Rightarrow> do { p \<leftarrow> s_lp s; lp_Each p (\<lambda>out i e. (out @ [e], True)) [] }))"

definition s_Clone :: "(bytes \<Rightarrow> 32 word) \<Rightarrow> set_t \<Rightarrow> set_t go" where
  "s_Clone hf s =
     (case s_m s of
        Some d \<Rightarrow> do { d \<leftarrow> dict_of hf (map fst (d_forEach d)) newDict; Some \<lparr>s_is = None, s_lp = None, s_m = Some d\<rparr> }
      | None \<Rightarrow>
          (case s_is s of
             Some v \<Rightarrow> Some \<lparr>s_is = Some (copy_at (replicate (length v) 0) 0 v), s_lp = None, s_m = None\<rparr>
           | None \<Rightarrow> map_option (\<lambda>p. \<lparr>s_is = None, s_lp = Some (lp_Clone p), s_m = None\<rparr>) (s_lp s)))"

definition s_RandomMembers :: "(nat \<Rightarrow> nat) \<Rightarrow> (bytes list \<Rightarrow> bytes list) \<Rightarrow> int \<Rightarrow> set_t \<Rightarrow> bytes list go" where
  "s_RandomMembers draw shuffle cnt s =
     do {
       xs \<leftarrow> s_Members s;
       if length xs = 0 then Some []
       else if cnt < 0 then
         do {
           go_make (wrap64 (- cnt)) 24;
           those (map (\<lambda>i. lst_nth xs (int (draw i))) [0 ..< nat (- cnt)])
         }
       else go_slice (shuffle xs) 0 (if cnt > int (length xs) then int (length xs) else cnt)
     }"

subsection \<open>A set holds a set\<close>

definition s_rep :: "(bytes \<Rightarrow> 32 word) \<Rightarrow> set_t \<Rightarrow> bytes set \<Rightarrow> bool" where
  "s_rep hf s S \<longleftrightarrow>
     (case s_m s of
        Some d \<Rightarrow> \<exists>m. dict_map hf d m \<and> S = dom m
      | None \<Rightarrow>
          (case s_is s of
             Some v \<Rightarrow> sorted_wrt (<) v \<and> list_all is_int64 v \<and> S = AppendInt ` set v
           | None \<Rightarrow> \<exists>p xs. s_lp s = Some p \<and> lp_rep p xs \<and> distinct xs \<and> S = set xs))"

lemma s_repE:
  assumes "s_rep hf s S"
  obtains (dict) d m where "s_m s = Some d" "dict_map hf d m" "S = dom m"
  | (ints) v where "s_m s = None" "s_is s = Some v" "sorted_wrt (<) v" "list_all is_int64 v" "S = AppendInt ` set v"
  | (pack) p xs where "s_m s = None" "s_is s = None" "s_lp s = Some p" "lp_rep p xs" "distinct xs" "S = set xs"
  using assms by (auto simp: s_rep_def split: option.splits)

lemma newSet_rep: "s_rep hf (newSet b t) {}"
  using lp_rep_new newDict_map[of hf] by (fastforce simp: s_rep_def newSet_def)

lemma is_search_eq:
  assumes "sorted_wrt (<) v"
  shows "is_search v n = Some (length (takeWhile (\<lambda>x. x < n) v), n \<in> set v)"
proof -
  let ?m = "length (takeWhile (\<lambda>x. x < n) v)"
  have c: "v ! k < n \<longleftrightarrow> k < ?m" if "k < length v" for k using sorted_cut[OF assms that] .
  have "sort_Search (length v) (\<lambda>i. map_option (\<lambda>x. x \<ge> n) (lst_nth v (int i))) = Some ?m"
    unfolding sort_Search_def
  proof (rule search_loop_eq)
    fix h assume "h < length v"
    then show "map_option (\<lambda>x. x \<ge> n) (lst_nth v (int h)) = Some (?m \<le> h)" using c[of h] by (auto simp: not_less[symmetric])
  qed (simp_all add: length_takeWhile_le)
  moreover have "?m < length v \<and> v ! ?m = n \<longleftrightarrow> n \<in> set v"
  proof
    assume "n \<in> set v"
    then obtain k where k: "k < length v" "v ! k = n" by (auto simp: in_set_conv_nth)
    then have "?m = k" using length_takeWhile_nth[OF assms, of k] by simp
    then show "?m < length v \<and> v ! ?m = n" using k by simp
  next
    assume "?m < length v \<and> v ! ?m = n"
    then show "n \<in> set v" by (metis nth_mem)
  qed
  ultimately show ?thesis by (simp add: is_search_def)
qed

lemma is_Contains_eq: "sorted_wrt (<) v \<Longrightarrow> is_Contains v n = Some (n \<in> set v)"
  by (simp add: is_Contains_def is_search_eq)

lemma shift_insert: "i \<le> length v \<Longrightarrow> (copy_at (v @ [z]) (i + 1) (drop i (v @ [z])))[i := n] = insert_at i n v"
proof -
  assume i: "i \<le> length v"
  define a b where "a = take i v" and "b = drop i v"
  have v: "v = a @ b" "length a = i" using i by (simp_all add: a_def b_def)
  obtain c cs where c: "b @ [z] = c # cs" by (cases "b @ [z]") auto
  then have len: "length cs = length b" by (metis length_append_singleton length_Cons nat.inject)
  have "copy_at (v @ [z]) (i + 1) (drop i (v @ [z])) = a @ c # take (length cs) (c # cs)"
    using v c len by (simp add: copy_at_def)
  also have "take (length cs) (c # cs) = b" using c len by (metis append_eq_conv_conj)
  finally show ?thesis using v by (simp add: insert_at_def list_update_append)
qed

lemma is_Add_eq:
  assumes "sorted_wrt (<) v"
  shows "is_Add v n = Some (if n \<in> set v then (v, False) else (insort n v, True))"
  using is_search_eq[OF assms, of n] insort_insert_at[OF assms, of n] shift_insert[OF length_takeWhile_le, of v 0 "\<lambda>x. x < n" n]
  by (auto simp: is_Add_def Let_def)

lemma is_Remove_eq:
  assumes "sorted_wrt (<) v"
  shows "is_Remove v n = Some (remove1 n v, n \<in> set v)"
proof (cases "n \<in> set v")
  case True
  then obtain k where k: "k < length v" "v ! k = n" by (auto simp: in_set_conv_nth)
  have m: "length (takeWhile (\<lambda>x. x < n) v) = k" using length_takeWhile_nth[OF assms k(1)] k(2) by simp
  have "remove1 n v = remove_at k v" using remove1_remove_at[of v k] k assms by (simp add: strict_sorted_iff)
  moreover have "nat (1 + int k) = Suc k" by simp
  ultimately show ?thesis using True k m is_search_eq[OF assms, of n]
    by (simp add: is_Remove_def go_slice_def remove_at_def add.commute)
next
  case False
  then show ?thesis using is_search_eq[OF assms, of n] by (simp add: is_Remove_def remove1_idem)
qed

subsection \<open>The operations\<close>

lemma card_ints: "list_all is_int64 v \<Longrightarrow> sorted_wrt (<) v \<Longrightarrow> card (AppendInt ` set v) = length v"
proof -
  assume "list_all is_int64 v" "sorted_wrt (<) v"
  then have "inj_on AppendInt (set v)" "distinct v" by (auto simp: inj_on_def list_all_iff AppendInt_inj strict_sorted_iff)
  then show ?thesis by (simp add: card_image distinct_card)
qed

lemma s_Len_rep: "s_rep hf s S \<Longrightarrow> s_Len s = Some (int (card S)) \<and> finite S"
proof -
  assume "s_rep hf s S"
  then show ?thesis
  proof (cases rule: s_repE)
    case (dict d m)
    then show ?thesis using d_len_map[OF dict(2)] by (simp add: s_Len_def)
  next
    case (ints v)
    then show ?thesis using card_ints[of v] by (simp add: s_Len_def)
  next
    case (pack p xs)
    then show ?thesis using lp_rep_Len[OF pack(4)] by (simp add: s_Len_def distinct_card)
  qed
qed

lemma mem_ints:
  assumes "list_all is_int64 v"
  shows "b \<in> AppendInt ` set v \<longleftrightarrow> (\<exists>n. canonicalInt b = Some n \<and> n \<in> set v)"
  using assms by (auto simp: canonicalInt_iff list_all_iff)

lemma lp_IndexOf_iff:
  assumes "lp_rep p xs"
  shows "\<exists>i. lp_IndexOf p b = Some i \<and> (0 \<le> i \<longleftrightarrow> b \<in> set xs) \<and> (0 \<le> i \<longrightarrow> nat i < length xs \<and> xs ! nat i = b)"
proof -
  let ?i = "first_idx 0 (\<lambda>_ e. e = b) xs"
  have none: "?i = -1 \<longleftrightarrow> b \<notin> set xs" using first_idx_None[of 0 "\<lambda>_ e. e = b" xs] by (auto simp: in_set_conv_nth)
  have some: "nat ?i < length xs \<and> xs ! nat ?i = b" if "0 \<le> ?i" using first_idx_Some[of 0 "\<lambda>_ e. e = b" xs "nat ?i"] that by simp
  have "0 \<le> ?i \<or> ?i = -1" using first_idx_range[of 0 "\<lambda>_ e. e = b" xs] by auto
  then show ?thesis using lp_IndexOf_rep[OF assms] none some by auto
qed

lemma s_Contains_rep: "s_rep hf s S \<Longrightarrow> s_Contains hf b s = Some (b \<in> S)"
proof -
  assume "s_rep hf s S"
  then show ?thesis
  proof (cases rule: s_repE)
    case (dict d m)
    then show ?thesis using d_get_map(1)[OF dict(2)] by (simp add: s_Contains_def domIff)
  next
    case (ints v)
    then show ?thesis using mem_ints[OF ints(4), of b] by (auto simp: s_Contains_def is_Contains_eq split: option.splits)
  next
    case (pack p xs)
    then show ?thesis using lp_IndexOf_iff[OF pack(4), of b] by (auto simp: s_Contains_def)
  qed
qed

lemma dict_of_rep: "dict_map hf d m \<Longrightarrow> \<exists>d' m'. dict_of hf xs d = Some d' \<and> dict_map hf d' m' \<and> dom m' = dom m \<union> set xs"
proof (induction xs arbitrary: d m)
  case (Cons x xs)
  obtain d1 where "d_set hf d x () = Some (d1, x \<notin> dom m)" "dict_map hf d1 (m(x \<mapsto> ()))" using d_set_map[OF Cons.prems] by blast
  then show ?case using Cons.IH by fastforce
qed auto

lemma lp_append_ints:
  "lp_rep p xs \<Longrightarrow> list_all is_int64 v \<Longrightarrow> lp_rep (foldl (\<lambda>p n. lp_Append p (AppendInt n)) p v) (xs @ map AppendInt v)"
proof (induction v arbitrary: p xs)
  case (Cons n v)
  have "len_ok (AppendInt n)" using length_AppendInt[of n] Cons.prems(2) by (simp add: len_ok_def)
  then have "lp_rep (lp_Append p (AppendInt n)) (xs @ [AppendInt n])" using lp_Append_rep Cons.prems(1) by blast
  from Cons.IH[OF this] Cons.prems(2) show ?case by simp
qed simp

lemma demoteIntset_rep:
  assumes "s_m s = None" "sorted_wrt (<) v" "list_all is_int64 v"
  shows "\<exists>s'. demoteIntset hf t n v s = Some s' \<and> s_rep hf s' (AppendInt ` set v) \<and> s_is s' = None"
proof -
  obtain d m where d: "dict_of hf (map AppendInt v) newDict = Some d" "dict_map hf d m" "dom m = AppendInt ` set v"
    using dict_of_rep[OF newDict_map[of hf], of "map AppendInt v"] by auto
  have "distinct (map AppendInt v)" using assms(2,3)
    by (auto simp: distinct_map inj_on_def list_all_iff AppendInt_inj strict_sorted_iff)
  then show ?thesis
    using d lp_append_ints[OF lp_rep_new assms(3)] assms(1) by (fastforce simp: demoteIntset_def s_rep_def)
qed

lemma each_dict_of:
  "each_from i (\<lambda>d i e. (do { d \<leftarrow> d; (d, b) \<leftarrow> d_set hf d e (); Some d }, True)) d xs = do { d \<leftarrow> d; dict_of hf xs d }"
  by (induction xs arbitrary: i d) (auto split: bind_splits)

lemma promoteToMap_rep:
  assumes "lp_rep p xs" "s_m s = None" "s_is s = None"
  shows "\<exists>s'. promoteToMap hf p s = Some s' \<and> s_rep hf s' (set xs)"
proof -
  obtain d m where "dict_of hf xs newDict = Some d" "dict_map hf d m" "dom m = set xs"
    using dict_of_rep[OF newDict_map[of hf], of xs] by auto
  then show ?thesis using each_dict_of[of 0 hf "Some newDict" xs]
    by (auto simp: promoteToMap_def s_rep_def lp_Each_rep[OF assms(1)])
qed

lemma s_Add_plain_rep:
  assumes "s_rep hf s S" "len_ok b" "s_is s = None \<or> s_m s \<noteq> None"
  shows "\<exists>s'. s_Add_plain hf b t s = Some (s', b \<notin> S) \<and> s_rep hf s' (insert b S)"
  using assms(1)
proof (cases rule: s_repE)
  case (dict d m)
  obtain d1 where "d_set hf d b () = Some (d1, b \<notin> dom m)" "dict_map hf d1 (m(b \<mapsto> ()))" using d_set_map[OF dict(2)] by blast
  moreover from this have "s_rep hf (s\<lparr>s_m := Some d1\<rparr>) (insert b S)" using dict(3) by (auto simp: s_rep_def intro!: exI[of _ "m(b \<mapsto> ())"])
  moreover have "b \<in> S \<Longrightarrow> s_rep hf s (insert b S)" using assms(1) by (simp add: insert_absorb)
  ultimately show ?thesis using dict d_get_map(1)[OF dict(2), of b] by (cases "b \<in> S") (auto simp: s_Add_plain_def domIff)
next
  case (pack p xs)
  obtain i where i: "lp_IndexOf p b = Some i" "0 \<le> i \<longleftrightarrow> b \<in> set xs" using lp_IndexOf_iff[OF pack(4)] by blast
  show ?thesis
  proof (cases "b \<in> set xs")
    case True
    then show ?thesis using pack i assms(1) by (simp add: s_Add_plain_def insert_absorb)
  next
    case False
    let ?p = "lp_Append p b"
    have p: "lp_rep ?p (xs @ [b])" using lp_Append_rep[OF pack(4) assms(2)] .
    then have plain: "s_rep hf (s\<lparr>s_lp := Some ?p\<rparr>) (insert b S)" using pack False by (fastforce simp: s_rep_def)
    obtain s1 where "promoteToMap hf ?p (s\<lparr>s_lp := Some ?p\<rparr>) = Some s1" "s_rep hf s1 (insert b S)"
      using promoteToMap_rep[OF p, of "s\<lparr>s_lp := Some ?p\<rparr>" hf] pack by auto
    then show ?thesis using plain pack i False by (auto simp: s_Add_plain_def Let_def)
  qed
qed (use assms(3) in auto)

lemma s_Add_rep:
  assumes "s_rep hf s S" "len_ok b"
  shows "\<exists>s'. s_Add hf b t s = Some (s', b \<notin> S) \<and> s_rep hf s' (insert b S)"
proof (cases "s_is s = None \<or> s_m s \<noteq> None")
  case True
  then have "s_Add hf b t s = s_Add_plain hf b t s" by (auto simp: s_Add_def split: option.splits)
  then show ?thesis using s_Add_plain_rep[OF assms True] by simp
next
  case False
  then obtain v where v: "s_m s = None" "s_is s = Some v" "sorted_wrt (<) v" "list_all is_int64 v" "S = AppendInt ` set v"
    using assms(1) by (auto elim: s_repE)
  show ?thesis
  proof (cases "canonicalInt b")
    case None
    obtain s1 where s1: "demoteIntset hf t (int (length b)) v s = Some s1" "s_rep hf s1 S" "s_is s1 = None"
      using demoteIntset_rep[OF v(1,3,4)] v(5) by blast
    then show ?thesis using None v s_Add_plain_rep[OF s1(2) assms(2)] by (simp add: s_Add_def)
  next
    case (Some n)
    then have n: "is_int64 n" "b = AppendInt n" by (auto simp: canonicalInt_iff)
    have mem: "b \<in> S \<longleftrightarrow> n \<in> set v" using mem_ints[OF v(4), of b] Some v(5) by simp
    show ?thesis
    proof (cases "n \<in> set v")
      case True
      have "s_rep hf (s\<lparr>s_is := Some v\<rparr>) S" using v by (simp add: s_rep_def)
      then show ?thesis using True Some v mem is_Add_eq[OF v(3), of n] assms(1) by (simp add: s_Add_def insert_absorb)
    next
      case False
      let ?v = "insort n v"
      have w: "sorted_wrt (<) ?v" "list_all is_int64 ?v" "AppendInt ` set ?v = insert b S"
        using v(3-5) n False by (auto simp: strict_sorted_iff sorted_insort distinct_insort list_all_iff set_insort_key)
      then have plain: "s_rep hf (s\<lparr>s_is := Some ?v\<rparr>) (insert b S)" using v(1) by (simp add: s_rep_def)
      obtain s1 where "demoteIntset hf t 20 ?v (s\<lparr>s_is := Some ?v\<rparr>) = Some s1" "s_rep hf s1 (insert b S)"
        using demoteIntset_rep[of "s\<lparr>s_is := Some ?v\<rparr>" ?v hf t 20] v(1) w by auto
      then show ?thesis using plain Some v(1,2) mem False is_Add_eq[OF v(3), of n] by (auto simp: s_Add_def Let_def)
    qed
  qed
qed

lemma s_Remove_rep:
  assumes "s_rep hf s S"
  shows "\<exists>s'. s_Remove hf b s = Some (s', b \<in> S) \<and> s_rep hf s' (S - {b})"
  using assms
proof (cases rule: s_repE)
  case (dict d m)
  obtain d1 where "d_delete hf d b = Some (d1, b \<in> dom m)" "dict_map hf d1 (m(b := None))" using d_delete_map[OF dict(2)] by blast
  moreover from this have "s_rep hf (s\<lparr>s_m := Some d1\<rparr>) (S - {b})" using dict(3) by (auto simp: s_rep_def intro!: exI[of _ "m(b := None)"] split: if_splits)
  moreover have "b \<notin> S \<Longrightarrow> s_rep hf s (S - {b})" using assms by simp
  ultimately show ?thesis using dict d_get_map(1)[OF dict(2), of b] by (cases "b \<in> S") (auto simp: s_Remove_def domIff)
next
  case (ints v)
  show ?thesis
  proof (cases "canonicalInt b")
    case None
    then have "b \<notin> S" using mem_ints[OF ints(4), of b] ints(5) by simp
    then show ?thesis using None ints assms by (simp add: s_Remove_def)
  next
    case (Some n)
    then have n: "is_int64 n" "b = AppendInt n" by (auto simp: canonicalInt_iff)
    have "AppendInt ` set (remove1 n v) = S - {b}"
      using ints(3-5) n by (auto simp: strict_sorted_iff list_all_iff dest: AppendInt_inj)
    moreover have "sorted_wrt (<) (remove1 n v)" "list_all is_int64 (remove1 n v)"
      using ints(3,4) by (auto simp: strict_sorted_iff sorted_remove1 list_all_iff dest: notin_set_remove1)
    ultimately show ?thesis using Some ints mem_ints[OF ints(4), of b] is_Remove_eq[OF ints(3), of n]
      by (auto simp: s_Remove_def s_rep_def)
  qed
next
  case (pack p xs)
  obtain i where i: "lp_IndexOf p b = Some i" "0 \<le> i \<longleftrightarrow> b \<in> set xs" "0 \<le> i \<longrightarrow> nat i < length xs \<and> xs ! nat i = b"
    using lp_IndexOf_iff[OF pack(4)] by blast
  show ?thesis
  proof (cases "b \<in> set xs")
    case True
    then have "remove_at (nat i) xs = remove1 b xs" using i remove1_remove_at[OF pack(5), of "nat i"] by simp
    moreover obtain p1 where "lp_DeleteAt p i = Some p1" "lp_rep p1 (remove_at (nat i) xs)"
      using lp_DeleteAt_rep[OF pack(4), of i] True i by (metis nat_less_iff)
    ultimately show ?thesis using pack True i by (fastforce simp: s_Remove_def s_rep_def)
  next
    case False
    then show ?thesis using pack i assms by (simp add: s_Remove_def)
  qed
qed

lemma each_snoc: "each_from i (\<lambda>out i e. (out @ [e], True)) out xs = out @ xs"
  by (induction xs arbitrary: i out) auto

lemma s_Members_rep: "s_rep hf s S \<Longrightarrow> \<exists>xs. s_Members s = Some xs \<and> distinct xs \<and> set xs = S"
proof -
  assume "s_rep hf s S"
  then show ?thesis
  proof (cases rule: s_repE)
    case (dict d m)
    then show ?thesis using d_forEach_entries[OF dict(2)] by (simp add: s_Members_def image_image)
  next
    case (ints v)
    then show ?thesis
      by (auto simp: s_Members_def distinct_map inj_on_def list_all_iff AppendInt_inj strict_sorted_iff)
  next
    case (pack p xs)
    then show ?thesis using each_snoc[of 0 "[]" xs] by (simp add: s_Members_def lp_Each_rep[OF pack(4)])
  qed
qed

lemma s_Clone_rep: "s_rep hf s S \<Longrightarrow> \<exists>s'. s_Clone hf s = Some s' \<and> s_rep hf s' S"
proof -
  assume "s_rep hf s S"
  then show ?thesis
  proof (cases rule: s_repE)
    case (dict d m)
    have "fst ` set (d_forEach d) = dom m" using d_forEach_entries(2)[OF dict(2)] by (simp add: image_image)
    then show ?thesis using dict dict_of_rep[OF newDict_map[of hf], of "map fst (d_forEach d)"]
      by (fastforce simp: s_Clone_def s_rep_def)
  next
    case (ints v)
    then show ?thesis by (simp add: s_Clone_def s_rep_def copy_at_def)
  next
    case (pack p xs)
    then show ?thesis by (auto simp: s_Clone_def s_rep_def lp_Clone_id)
  qed
qed

lemma s_RandomMembers_rep:
  assumes "s_rep hf s S" "\<And>xs. mset (shuffle xs) = mset xs" "0 \<le> cnt"
  shows "\<exists>ys. s_RandomMembers draw shuffle cnt s = Some ys \<and> distinct ys \<and> set ys \<subseteq> S \<and> length ys = min (nat cnt) (card S)"
proof -
  obtain xs where xs: "s_Members s = Some xs" "distinct xs" "set xs = S" using s_Members_rep[OF assms(1)] by blast
  have sh: "distinct (shuffle xs)" "set (shuffle xs) = S" "length (shuffle xs) = length xs"
    using assms(2)[of xs] xs by (auto dest: mset_eq_imp_distinct_iff mset_eq_setD mset_eq_length)
  have card: "card S = length xs" using xs distinct_card by blast
  let ?n = "if cnt > int (length xs) then int (length xs) else cnt"
  have "go_slice (shuffle xs) 0 ?n = Some (take (nat ?n) (shuffle xs))" using assms(3) sh(3) by (simp add: go_slice_def)
  moreover have "length (take (nat ?n) (shuffle xs)) = min (nat cnt) (card S)" using sh(3) card assms(3) by auto
  moreover have "set (take (nat ?n) (shuffle xs)) \<subseteq> S" using sh(2) set_take_subset by fast
  ultimately show ?thesis using xs(1) sh(1) assms(3) card by (auto simp: s_RandomMembers_def)
qed

subsection \<open>Runs\<close>

datatype s_op = SAddOp bytes Thresholds | SRemOp bytes | SHasOp bytes | SLenOp | SMembersOp | SCloneOp

datatype s_reply = SBool bool | SInt int | SBag "bytes multiset" | SUnit

text \<open>The order of the members depends on the encoding; the reply keeps each with its multiplicity.\<close>

fun s_step :: "(bytes \<Rightarrow> 32 word) \<Rightarrow> s_op \<Rightarrow> set_t \<Rightarrow> (set_t \<times> s_reply) go" where
  "s_step hf (SAddOp b t) s = do { (s, r) \<leftarrow> s_Add hf b t s; Some (s, SBool r) }"
| "s_step hf (SRemOp b) s = do { (s, r) \<leftarrow> s_Remove hf b s; Some (s, SBool r) }"
| "s_step hf (SHasOp b) s = do { r \<leftarrow> s_Contains hf b s; Some (s, SBool r) }"
| "s_step hf SLenOp s = do { n \<leftarrow> s_Len s; Some (s, SInt n) }"
| "s_step hf SMembersOp s = do { xs \<leftarrow> s_Members s; Some (s, SBag (mset xs)) }"
| "s_step hf SCloneOp s = do { s \<leftarrow> s_Clone hf s; Some (s, SUnit) }"

fun s_spec :: "s_op \<Rightarrow> bytes set \<Rightarrow> bytes set \<times> s_reply" where
  "s_spec (SAddOp b t) S = (insert b S, SBool (b \<notin> S))"
| "s_spec (SRemOp b) S = (S - {b}, SBool (b \<in> S))"
| "s_spec (SHasOp b) S = (S, SBool (b \<in> S))"
| "s_spec SLenOp S = (S, SInt (int (card S)))"
| "s_spec SMembersOp S = (S, SBag (mset_set S))"
| "s_spec SCloneOp S = (S, SUnit)"

fun s_op_ok :: "s_op \<Rightarrow> bool" where
  "s_op_ok (SAddOp b t) \<longleftrightarrow> len_ok b"
| "s_op_ok (SRemOp b) \<longleftrightarrow> True"
| "s_op_ok (SHasOp b) \<longleftrightarrow> True"
| "s_op_ok SLenOp \<longleftrightarrow> True"
| "s_op_ok SMembersOp \<longleftrightarrow> True"
| "s_op_ok SCloneOp \<longleftrightarrow> True"

interpretation set_value: simulation "s_rep hf" "newSet b t" "{}" s_op_ok "s_step hf" s_spec
  for hf :: "bytes \<Rightarrow> 32 word" and b :: bytes and t :: Thresholds
proof unfold_locales
  show "s_rep hf (newSet b t) {}" by (rule newSet_rep)
  fix s S op
  assume rep: "s_rep hf s S" and ok: "s_op_ok op"
  show "\<exists>s'. s_step hf op s = Some (s', snd (s_spec op S)) \<and> s_rep hf s' (fst (s_spec op S))"
  proof (cases op)
    case (SAddOp b t)
    then show ?thesis using s_Add_rep[OF rep, of b t] ok by auto
  next
    case (SRemOp b)
    then show ?thesis using s_Remove_rep[OF rep, of b] by auto
  next
    case SMembersOp
    then show ?thesis using s_Members_rep[OF rep] rep by (auto simp: mset_set_set)
  next
    case SCloneOp
    then show ?thesis using s_Clone_rep[OF rep] by auto
  qed (use rep s_Contains_rep[OF rep] s_Len_rep[OF rep] in auto)
qed

subsection \<open>Properties\<close>

text \<open>C26: A set behaves under any run of its operations as a finite set of byte strings, whichever of its three
  encodings it starts in and passes through: integers kept as sorted numbers are the members they render to, an
  addition reports whether the member was new, and the members are listed exactly once each. Nothing panics.\<close>

theorem set_refines_finite_set:
  assumes "list_all s_op_ok ops"
  shows "\<exists>s. go_run (s_step hf) ops (newSet first t) = Some (s, snd (spec_run s_spec ops {})) \<and>
    (\<forall>b. s_Contains hf b s = Some (b \<in> fst (spec_run s_spec ops {})))"
  using set_value.run_new[OF assms, of hf first t] s_Contains_rep by blast

theorem set_refines_finite_set_witness:
  "\<exists>s. go_run (s_step (\<lambda>k. 0))
      [SAddOp [49, 50] DefaultThresholds, SAddOp [45, 51] DefaultThresholds, SAddOp [97] DefaultThresholds, SHasOp [49, 50],
       SRemOp [45, 51], SAddOp [97] DefaultThresholds, SHasOp [45, 51]] (newSet [49, 50] DefaultThresholds) =
    Some (s, [SBool True, SBool True, SBool True, SBool True, SBool True, SBool False, SBool False])"
  using set_refines_finite_set[of "[SAddOp [49, 50] DefaultThresholds, SAddOp [45, 51] DefaultThresholds, SAddOp [97] DefaultThresholds,
      SHasOp [49, 50], SRemOp [45, 51], SAddOp [97] DefaultThresholds, SHasOp [45, 51]]" "\<lambda>k. 0" "[49, 50]" DefaultThresholds]
  by (auto simp: len_ok_def)

text \<open>Asking a set that is not empty for a negative number of random members, which allows repeats, panics as soon as
  the slice for them exceeds what the runtime can allocate; the count comes from the client unchecked.\<close>

theorem random_members_huge_count_panics:
  assumes "s_rep hf s S" "S \<noteq> {}" "is_int64 cnt" "cnt < - (2 ^ 48 div 24)"
  shows "s_RandomMembers draw shuffle cnt s = None"
proof -
  obtain xs where xs: "s_Members s = Some xs" "set xs = S" using s_Members_rep[OF assms(1)] by blast
  have "go_make (wrap64 (- cnt)) 24 = None"
  proof (cases "cnt = min_int64")
    case True
    then show ?thesis by (simp add: go_make_def wrap64_def)
  next
    case False
    then have "is_int64 (- cnt)" using assms(3) by (auto simp: is_int64_def)
    then show ?thesis using assms(4) by (simp add: go_make_def)
  qed
  then show ?thesis using xs assms(2,4) by (auto simp: s_RandomMembers_def)
qed

theorem random_members_huge_count_panics_witness:
  "s_RandomMembers (\<lambda>i. 0) (\<lambda>xs. xs) (- 9000000000000000000) \<lparr>s_is = Some [7], s_lp = None, s_m = None\<rparr> = None"
proof -
  have "s_rep (\<lambda>k. 0) \<lparr>s_is = Some [7], s_lp = None, s_m = None\<rparr> {AppendInt 7}" by (simp add: s_rep_def is_int64_def)
  from random_members_huge_count_panics[OF this, of "- 9000000000000000000" "\<lambda>i. 0" "\<lambda>xs. xs"] show ?thesis by (simp add: is_int64_def)
qed

end
