(* ===== verification/Command_Table.thy ===== *)
theory Command_Table
  imports Kestrel_Prelude "HOL-Library.List_Lexorder"
begin

text \<open>
  The command table of \<open>command/table.go\<close>: descriptors, the checks at registration, the
  renames a configuration asks for, lookup by name, and the positions of the keys among the arguments
  (\<open>ExtractKeys\<close> of \<open>command/server.go\<close>).

  A handler is an element of the type parameter \<open>'h\<close>; what it does is the business of the
  dispatcher. The parent of a subcommand is used for its name only, so the pointer is that name.
  \<open>strings.ToLower\<close> and \<open>ToUpper\<close> fold ASCII strings byte by byte; what they make of a
  string with a byte outside ASCII is left to the argument \<open>ul\<close>, the Unicode tables of the
  library. A Go map is
  an association list, whose order stands for the order in which the runtime happens to iterate.
  The fields \<open>Summary\<close> and \<open>index\<close> are documentation and statistics.
\<close>

unbundle bit_operations_syntax

subsection \<open>Case folding\<close>

definition is_ascii :: "bytes \<Rightarrow> bool" where
  "is_ascii s = list_all (\<lambda>c. c < 128) s"

definition lower_byte :: "byte \<Rightarrow> byte" where
  "lower_byte c = (if 65 \<le> c \<and> c \<le> 90 then c + 32 else c)"

definition upper_byte :: "byte \<Rightarrow> byte" where
  "upper_byte c = (if 97 \<le> c \<and> c \<le> 122 then c - 32 else c)"

record unicode =
  u_lower :: "bytes \<Rightarrow> bytes"
  u_upper :: "bytes \<Rightarrow> bytes"

definition ToLower :: "unicode \<Rightarrow> bytes \<Rightarrow> bytes" where
  "ToLower ul s = (if is_ascii s then map lower_byte s else u_lower ul s)"

definition ToUpper :: "unicode \<Rightarrow> bytes \<Rightarrow> bytes" where
  "ToUpper ul s = (if is_ascii s then map upper_byte s else u_upper ul s)"

definition upper :: "bytes \<Rightarrow> bytes" where
  "upper b = (if list_ex (\<lambda>c. 97 \<le> c \<and> c \<le> 122) b then map upper_byte b else b)"

lemma upper_map: "upper b = map upper_byte b"
proof (cases "list_ex (\<lambda>c. 97 \<le> c \<and> c \<le> 122) b")
  case False
  then have "map upper_byte b = map (\<lambda>c. c) b"
    by (intro map_cong) (auto simp: list_ex_iff upper_byte_def)
  with False show ?thesis by (simp add: upper_def)
qed (simp add: upper_def)

lemma byte_cases_256:
  assumes "\<And>n. n < 256 \<Longrightarrow> P (word_of_nat n)"
  shows "P (c :: byte)"
  using assms[of "unat c"] unsigned_less[of c, where 'a = nat] by simp

lemma upper_lower_byte: "upper_byte (lower_byte c) = upper_byte c"
  by (auto simp: upper_byte_def lower_byte_def word_le_nat_alt unat_word_ariths)

lemma lower_lower_byte: "lower_byte (lower_byte c) = lower_byte c"
  by (auto simp: lower_byte_def word_le_nat_alt unat_word_ariths)

lemma upper_upper_byte: "upper_byte (upper_byte c) = upper_byte c"
  by (auto simp: upper_byte_def word_le_nat_alt unat_sub)

lemma lower_byte_ascii: "c < 128 \<Longrightarrow> lower_byte c < 128"
  by (auto simp: lower_byte_def word_le_nat_alt word_less_nat_alt unat_word_ariths)

lemma lower_upper_byte: "lower_byte (upper_byte c) = lower_byte c"
  by (auto simp: upper_byte_def lower_byte_def word_le_nat_alt unat_sub)

subsection \<open>Descriptors\<close>

type_synonym Flag = "32 word"

definition FWrite :: Flag where "FWrite = push_bit 0 1"
definition FReadonly :: Flag where "FReadonly = push_bit 1 1"
definition FAdmin :: Flag where "FAdmin = push_bit 2 1"
definition FDenyOOM :: Flag where "FDenyOOM = push_bit 3 1"
definition FNoMulti :: Flag where "FNoMulti = push_bit 4 1"
definition FLoading :: Flag where "FLoading = push_bit 5 1"
definition FStale :: Flag where "FStale = push_bit 6 1"
definition FNoAuth :: Flag where "FNoAuth = push_bit 7 1"
definition FFast :: Flag where "FFast = push_bit 8 1"
definition FBlocking :: Flag where "FBlocking = push_bit 9 1"
definition FSubscriberOK :: Flag where "FSubscriberOK = push_bit 10 1"
definition FNoScript :: Flag where "FNoScript = push_bit 11 1"

lemmas flag_defs = FWrite_def FReadonly_def FAdmin_def FDenyOOM_def FNoMulti_def FLoading_def FStale_def
  FNoAuth_def FFast_def FBlocking_def FSubscriberOK_def FNoScript_def

datatype EffectKind = EffectNone | EffectVerbatim | EffectCanonical
datatype Locality = LocalityUnset | LocalityShardLocal | LocalityCrossShard

datatype 'h Descriptor =
  Descriptor (d_Name: bytes) (d_Arity: int) (d_Flags: Flag) (d_FirstKey: int) (d_LastKey: int) (d_Step: int)
    (d_Categories: "bytes list") (d_Handler: "'h option") (d_Effect: EffectKind) (d_Locality: Locality)
    (d_Subcommands: "(bytes \<times> 'h Descriptor) list") (d_parent: "bytes option") (d_fullName: bytes)
    (d_lowerName: bytes)

definition d_Is :: "'h Descriptor \<Rightarrow> Flag \<Rightarrow> bool" where
  "d_Is d f \<longleftrightarrow> d_Flags d AND f = f"

definition IsContainer :: "'h Descriptor \<Rightarrow> bool" where
  "IsContainer d \<longleftrightarrow> d_Handler d = None \<and> length (d_Subcommands d) > 0"

definition flagNames :: "(Flag \<times> bytes) list" where
  "flagNames =
     [(FWrite, lit ''write''), (FReadonly, lit ''readonly''), (FAdmin, lit ''admin''), (FDenyOOM, lit ''denyoom''),
      (FNoMulti, lit ''no-multi''), (FLoading, lit ''loading''), (FStale, lit ''stale''), (FNoAuth, lit ''no-auth''),
      (FFast, lit ''fast''), (FBlocking, lit ''blocking''), (FSubscriberOK, lit ''pubsub''),
      (FNoScript, lit ''noscript'')]"

definition FlagNames :: "'h Descriptor \<Rightarrow> bytes list" where
  "FlagNames d = map snd (filter (\<lambda>(f, nm). d_Flags d AND f \<noteq> 0) flagNames)"

subsection \<open>Registration\<close>

text \<open>How deep subcommands are nested: the measure of the recursion.\<close>

primrec d_nest :: "'h Descriptor \<Rightarrow> nat" where
  "d_nest (Descriptor nm arity flags fk lk st cats h eff loc subs parent full low) =
     Suc (sum_list (map snd (map (map_prod id d_nest) subs)))"

lemma d_nest_sub: "(name, sub) \<in> set subs \<Longrightarrow> d_nest sub \<le> sum_list (map snd (map (map_prod id d_nest) subs))"
  by (rule member_le_sum_list) (force, simp)

text \<open>The panics of \<open>validate\<close> on the descriptor itself.\<close>

definition d_passes :: "'h Descriptor \<Rightarrow> bool" where
  "d_passes d =
     (if d_Arity d = 0 then False
      else if d_Handler d = None \<and> length (d_Subcommands d) = 0 then False
      else if d_Is d FWrite \<and> d_Is d FReadonly then False
      else if d_Is d FWrite \<and> d_Effect d = EffectNone then False
      else if \<not> d_Is d FWrite \<and> d_Effect d \<noteq> EffectNone then False
      else if d_Is d FWrite \<and> d_Locality d = LocalityUnset then False
      else if \<not> d_Is d FWrite \<and> d_Locality d \<noteq> LocalityUnset then False
      else True)"

text \<open>What the loop over the subcommands sets before it validates one: name, parent and categories.\<close>

definition adopt :: "unicode \<Rightarrow> bytes \<Rightarrow> bytes list \<Rightarrow> bytes \<Rightarrow> 'h Descriptor \<Rightarrow> 'h Descriptor" where
  "adopt ul parent cats name sub =
     Descriptor (ToUpper ul name) (d_Arity sub) (d_Flags sub) (d_FirstKey sub) (d_LastKey sub) (d_Step sub)
       (if length (d_Categories sub) = 0 then cats else d_Categories sub) (d_Handler sub) (d_Effect sub)
       (d_Locality sub) (d_Subcommands sub) (Some parent) (d_fullName sub) (d_lowerName sub)"

lemma d_nest_adopt [simp]: "d_nest (adopt ul parent cats name sub) = d_nest sub"
  by (cases sub) (simp add: adopt_def)

text \<open>\<open>validate\<close> computes the full names and checks; it is \<open>None\<close> where the code panics.\<close>

function validate :: "unicode \<Rightarrow> 'h Descriptor \<Rightarrow> 'h Descriptor go" where
  "validate ul (Descriptor nm arity flags fk lk st cats h eff loc subs parent full low) =
     (let full = (case parent of None \<Rightarrow> nm | Some p \<Rightarrow> p @ lit ''|'' @ nm);
          named = (\<lambda>subs. Descriptor nm arity flags fk lk st cats h eff loc subs parent full (ToLower ul full))
      in if \<not> d_passes (named subs) then None
         else map_option named
           (those (map (\<lambda>(name, sub). map_option (Pair name) (validate ul (adopt ul nm cats name sub))) subs)))"
  by pat_completeness auto
termination
proof (relation "measure (d_nest \<circ> snd)", goal_cases)
  case (2 ul nm arity flags fk lk st cats h eff loc subs parent full low fullName named p name sub)
  then show ?case using d_nest_sub[of name sub subs] by (auto simp: less_Suc_eq_le)
qed simp

declare validate.simps [simp del]

definition register :: "unicode \<Rightarrow> 'h Descriptor \<Rightarrow> (bytes \<times> 'h Descriptor) list \<Rightarrow> (bytes \<times> 'h Descriptor) list go" where
  "register ul d builtins =
     (let nm = ToUpper ul (d_Name d)
      in if map_of builtins nm \<noteq> None then None
         else do {
           d \<leftarrow> validate ul (Descriptor nm (d_Arity d) (d_Flags d) (d_FirstKey d) (d_LastKey d) (d_Step d)
             (d_Categories d) (d_Handler d) (d_Effect d) (d_Locality d) (d_Subcommands d) (d_parent d)
             (d_fullName d) (d_lowerName d));
           Some ((nm, d) # builtins)
         })"

subsection \<open>The table of a server\<close>

record 'h Table =
  byName :: "bytes \<rightharpoonup> 'h Descriptor"
  t_all :: "'h Descriptor list"
  disabled :: "bytes set"

definition table_add :: "unicode \<Rightarrow> bytes \<Rightarrow> 'h Descriptor \<Rightarrow> (bytes \<rightharpoonup> 'h Descriptor) \<Rightarrow> bytes \<rightharpoonup> 'h Descriptor" where
  "table_add ul name d m =
     (let m = m(name \<mapsto> d); lower = ToLower ul name
      in if lower \<noteq> name then m(lower \<mapsto> d) else m)"

fun table_loop :: "unicode \<Rightarrow> (bytes \<rightharpoonup> bytes) \<Rightarrow> (bytes \<times> 'h Descriptor) list \<Rightarrow> 'h Table \<Rightarrow> 'h Table option" where
  "table_loop ul renames [] t = Some t"
| "table_loop ul renames ((name, d) # rest) t =
     (case renames name of
        None \<Rightarrow> table_loop ul renames rest (t\<lparr>byName := table_add ul name d (byName t), t_all := t_all t @ [d]\<rparr>)
      | Some target \<Rightarrow>
          if target = [] then
            table_loop ul renames rest
              (t\<lparr>disabled := disabled t \<union> {name, ToLower ul name}, t_all := t_all t @ [d]\<rparr>)
          else if byName t target \<noteq> None then None
          else table_loop ul renames rest (t\<lparr>byName := table_add ul target d (byName t), t_all := t_all t @ [d]\<rparr>))"

text \<open>\<open>NewTable\<close>; \<open>None\<close> is its error.\<close>

definition NewTable :: "unicode \<Rightarrow> (bytes \<rightharpoonup> bytes) \<Rightarrow> (bytes \<times> 'h Descriptor) list \<Rightarrow> 'h Table option" where
  "NewTable ul renames builtins =
     map_option (\<lambda>t. t\<lparr>t_all := sort_key d_Name (t_all t)\<rparr>)
       (table_loop ul renames builtins \<lparr>byName = Map.empty, t_all = [], disabled = {}\<rparr>)"

definition Lookup :: "'h Table \<Rightarrow> bytes \<Rightarrow> 'h Descriptor option" where
  "Lookup t name =
     (case byName t name of Some d \<Rightarrow> Some d | None \<Rightarrow> byName t (upper name))"

definition LookupSub :: "'h Descriptor \<Rightarrow> bytes \<Rightarrow> 'h Descriptor option" where
  "LookupSub d name = map_of (d_Subcommands d) (upper name)"

definition Disabled :: "'h Table \<Rightarrow> bytes \<Rightarrow> bool" where
  "Disabled t name \<longleftrightarrow> name \<in> disabled t \<or> upper name \<in> disabled t"

subsection \<open>Arity and keys\<close>

definition arityOK :: "'h Descriptor \<Rightarrow> int \<Rightarrow> bool" where
  "arityOK d n = (if d_Arity d \<ge> 0 then n = d_Arity d else n \<ge> - d_Arity d)"

function keys_loop :: "int \<Rightarrow> int \<Rightarrow> int \<Rightarrow> bytes list \<Rightarrow> bytes list go" where
  "keys_loop i lastk step args =
     (if step \<le> 0 then None
      else if i \<le> lastk then do {
        k \<leftarrow> lst_nth args i;
        ks \<leftarrow> keys_loop (i + step) lastk step args;
        Some (k # ks)
      } else Some [])"
  by pat_completeness auto
termination
  by (relation "measure (\<lambda>(i, lastk, step, args). nat (lastk + 1 - i))") auto

declare keys_loop.simps [simp del]

definition ExtractKeys :: "'h Descriptor \<Rightarrow> bytes list \<Rightarrow> bytes list go" where
  "ExtractKeys d args =
     (let n = int (length args)
      in if d_FirstKey d \<le> 0 \<or> d_FirstKey d \<ge> n then Some []
         else let lastk = (if d_LastKey d < 0 then n + d_LastKey d else d_LastKey d);
                  lastk = (if lastk \<ge> n then n - 1 else lastk);
                  step = (if d_Step d \<le> 0 then 1 else d_Step d)
              in keys_loop (d_FirstKey d) lastk step args)"


lemma keys_loop_eq:
  "0 \<le> i \<Longrightarrow> lastk < int (length args) \<Longrightarrow> 0 < step \<Longrightarrow>
   \<exists>ks. keys_loop i lastk step args = Some ks \<and> set ks \<subseteq> set args \<and>
     (\<forall>k. k \<in> set ks \<longleftrightarrow> (\<exists>j \<ge> i. j \<le> lastk \<and> step dvd (j - i) \<and> k = args ! nat j))"
proof (induction i lastk step args rule: keys_loop.induct)
  case (1 i lastk step args)
  show ?case
  proof (cases "i \<le> lastk")
    case True
    then have nth: "lst_nth args i = Some (args ! nat i)" using 1(2,3) by (simp add: lst_nth_def)
    obtain ks where ks: "keys_loop (i + step) lastk step args = Some ks" "set ks \<subseteq> set args"
      "\<forall>k. k \<in> set ks \<longleftrightarrow> (\<exists>j \<ge> i + step. j \<le> lastk \<and> step dvd (j - (i + step)) \<and> k = args ! nat j)"
      using "1.IH"[of "args ! nat i"] True nth 1(2-4) by force
    have split: "(j \<ge> i \<and> step dvd (j - i)) \<longleftrightarrow> (j = i \<or> (j \<ge> i + step \<and> step dvd (j - (i + step))))" for j
    proof -
      have "step dvd (j - i) \<longleftrightarrow> step dvd (j - (i + step))"
        using dvd_minus_add by (metis add.commute diff_diff_eq dvd_add_triv_right_iff diff_add_cancel)
      moreover have "j > i \<Longrightarrow> step dvd (j - i) \<Longrightarrow> j \<ge> i + step" using zdvd_imp_le[of step "j - i"] by simp
      ultimately show ?thesis using 1(4) by force
    qed
    have "keys_loop i lastk step args = Some (args ! nat i # ks)"
      using True nth ks(1) 1(4) by (subst keys_loop.simps) simp
    moreover have "args ! nat i \<in> set args" using True 1(2,3) by (intro nth_mem) linarith
    moreover have "k \<in> set (args ! nat i # ks) \<longleftrightarrow> (\<exists>j \<ge> i. j \<le> lastk \<and> step dvd (j - i) \<and> k = args ! nat j)" for k
      unfolding set_simps insert_iff ks(3)[rule_format] using split True by metis
    ultimately show ?thesis using ks(2) by simp
  next
    case False
    then show ?thesis using 1(4) by (subst keys_loop.simps) auto
  qed
qed

lemma ExtractKeys_total: "\<exists>ks. ExtractKeys d args = Some ks \<and> set ks \<subseteq> set (tl args)"
proof (cases "d_FirstKey d \<le> 0 \<or> d_FirstKey d \<ge> int (length args)")
  case False
  define n where "n = int (length args)"
  define lastk where "lastk = (let l = (if d_LastKey d < 0 then n + d_LastKey d else d_LastKey d) in if l \<ge> n then n - 1 else l)"
  define step where "step = (if d_Step d \<le> 0 then 1 else d_Step d)"
  have "ExtractKeys d args = keys_loop (d_FirstKey d) lastk step args"
    using False by (simp add: ExtractKeys_def Let_def n_def lastk_def step_def)
  moreover have "lastk < int (length args)" "0 < step" "0 \<le> d_FirstKey d"
    using False by (auto simp: lastk_def n_def step_def Let_def)
  ultimately obtain ks where ks: "ExtractKeys d args = Some ks"
    "\<forall>k. k \<in> set ks \<longleftrightarrow> (\<exists>j \<ge> d_FirstKey d. j \<le> lastk \<and> step dvd (j - d_FirstKey d) \<and> k = args ! nat j)"
    using keys_loop_eq by metis
  have "args ! nat j \<in> set (tl args)" if "j \<ge> d_FirstKey d" "j \<le> lastk" for j
  proof -
    have "args ! nat j = tl args ! (nat j - 1)" "nat j - 1 < length (tl args)"
      using that False \<open>lastk < int (length args)\<close> by (auto simp: nth_tl)
    then show ?thesis by (simp add: nth_mem)
  qed
  then show ?thesis using ks by auto
qed (simp add: ExtractKeys_def)

subsection \<open>What registration guarantees\<close>

definition declares :: "'h Descriptor \<Rightarrow> bool" where
  "declares d \<longleftrightarrow>
     d_Arity d \<noteq> 0 \<and> \<not> (d_Is d FWrite \<and> d_Is d FReadonly) \<and>
     (d_Is d FWrite \<longleftrightarrow> d_Effect d \<noteq> EffectNone) \<and> (d_Is d FWrite \<longleftrightarrow> d_Locality d \<noteq> LocalityUnset) \<and>
     (d_Handler d = None \<longrightarrow> d_Subcommands d \<noteq> [])"

text \<open>A command and, through it, the subcommands that \<open>resolve\<close> can reach.\<close>

inductive reaches :: "'h Descriptor \<Rightarrow> 'h Descriptor \<Rightarrow> bool" where
  reaches_self: "reaches d d"
| reaches_sub: "(name, sub) \<in> set (d_Subcommands d) \<Longrightarrow> reaches sub d' \<Longrightarrow> reaches d d'"

lemma those_Some_iff: "those xs = Some ys \<longleftrightarrow> xs = map Some ys"
  by (induction xs arbitrary: ys) (auto split: option.splits)

lemma d_passes_declares: "d_passes d \<longleftrightarrow> declares d"
  by (auto simp: d_passes_def declares_def)

lemma validate_declares:
  "validate ul d = Some v \<Longrightarrow>
   declares v \<and> (\<forall>(name, sub) \<in> set (d_Subcommands v). \<exists>sub'. validate ul sub' = Some sub)"
proof (cases d)
  case (Descriptor nm arity flags fk lk st cats h eff loc subs parent full low)
  assume a: "validate ul d = Some v"
  let ?g = "\<lambda>(name, sub). map_option (Pair name) (validate ul (adopt ul nm cats name sub))"
  define named where "named f vs = Descriptor nm arity flags fk lk st cats h eff loc vs parent f (ToLower ul f)" for f vs
  obtain f vs where vs: "map ?g subs = map Some vs" "v = named f vs" "d_passes (named f subs)"
    using a Descriptor
    by (auto simp: Let_def those_Some_iff validate.simps[of ul nm] named_def split: if_splits)
  have "length subs = length vs" using map_eq_imp_length_eq[OF vs(1)] .
  then have "declares v" using vs(2,3) by (auto simp: d_passes_declares declares_def named_def d_Is_def)
  moreover have "\<exists>sub'. validate ul sub' = Some sub" if "(name, sub) \<in> set vs" for name sub
  proof -
    from that have "Some (name, sub) \<in> set (map ?g subs)" using vs(1) by simp
    then show ?thesis by (auto simp: map_option_eq_Some dest!: sym[of "Some (name, sub)"])
  qed
  ultimately show ?thesis using vs(2) by (auto simp: named_def)
qed

lemma validate_reaches: "reaches v d' \<Longrightarrow> validate ul d = Some v \<Longrightarrow> declares d'"
proof (induction v d' arbitrary: d rule: reaches.induct)
  case (reaches_sub name sub d d' d0)
  then show ?case using validate_declares[of ul d0 d] by fastforce
qed (simp add: validate_declares)


lemma register_declares:
  assumes "register ul d builtins = Some bs" "\<forall>(name, b) \<in> set builtins. \<exists>d0. validate ul d0 = Some b"
  shows "\<forall>(name, b) \<in> set bs. \<exists>d0. validate ul d0 = Some b"
proof -
  obtain v d0 nm where "validate ul d0 = Some v" "bs = (nm, v) # builtins"
    using assms(1) by (auto simp: register_def Let_def bind_eq_Some_conv split: if_splits)
  then show ?thesis using assms(2) by auto
qed

subsection \<open>Lookup ignores case\<close>

definition shouted :: "bytes \<Rightarrow> bool" where
  "shouted name \<longleftrightarrow> is_ascii name \<and> upper name = name"

definition folded :: "(bytes \<rightharpoonup> 'h Descriptor) \<Rightarrow> bool" where
  "folded m \<longleftrightarrow> (\<forall>k d. m k = Some d \<longrightarrow>
     m (upper k) = Some d \<and> (k = upper k \<or> k = map lower_byte (upper k)))"

lemma upper_idem [simp]: "upper (upper k) = upper k"
  by (simp add: upper_map upper_upper_byte)

lemma upper_lower [simp]: "upper (map lower_byte k) = upper k"
  by (simp add: upper_map upper_lower_byte)

lemma folded_add:
  assumes "folded m" "shouted name"
  shows "folded (table_add ul name d m)"
proof -
  let ?l = "map lower_byte name"
  have n: "upper name = name" "ToLower ul name = ?l" using assms(2) by (auto simp: shouted_def ToLower_def)
  have eq: "table_add ul name d m k = (if k = name \<or> k = ?l then Some d else m k)" for k
    using n by (auto simp: table_add_def Let_def)
  show ?thesis
    unfolding folded_def
  proof (intro allI impI)
    fix k d'
    assume k: "table_add ul name d m k = Some d'"
    show "table_add ul name d m (upper k) = Some d' \<and> (k = upper k \<or> k = map lower_byte (upper k))"
    proof (cases "k = name \<or> k = ?l")
      case True
      then have "upper k = name" using n(1) by auto
      then show ?thesis using True k eq n by auto
    next
      case False
      then have m: "m k = Some d'" using k eq by simp
      then have f: "m (upper k) = Some d'" "k = upper k \<or> k = map lower_byte (upper k)"
        using assms(1) by (auto simp: folded_def)
      have "upper k \<noteq> name" using False f(2) by auto
      moreover have "upper k \<noteq> ?l" if "upper k \<noteq> name" using that n(1) upper_lower[of name] upper_idem[of k] by metis
      ultimately show ?thesis using f eq by simp
    qed
  qed
qed

lemma table_loop_folded:
  assumes "table_loop ul renames builtins t = Some t'" "folded (byName t)"
    "\<forall>(name, d) \<in> set builtins. shouted (case renames name of None \<Rightarrow> name | Some target \<Rightarrow> target)"
  shows "folded (byName t')"
  using assms
proof (induction ul renames builtins t rule: table_loop.induct)
  case (2 ul renames name d rest t)
  then show ?case by (auto simp: folded_add split: option.splits if_splits)
qed simp

text \<open>A command is found under every spelling of its name: in a table built from upper-case ASCII names,
  after any renames, looking a name up is looking up its upper-case form.\<close>

theorem lookup_ignores_case:
  assumes "NewTable ul renames builtins = Some t"
    "\<forall>(name, d) \<in> set builtins. shouted (case renames name of None \<Rightarrow> name | Some target \<Rightarrow> target)"
  shows "Lookup t name = byName t (upper name)"
proof -
  let ?t0 = "\<lparr>byName = Map.empty, t_all = [], disabled = {}\<rparr> :: 'a Table"
  obtain t' where t': "table_loop ul renames builtins ?t0 = Some t'" "byName t = byName t'"
    using assms(1) by (auto simp: NewTable_def)
  moreover have "folded (byName ?t0)" by (simp add: folded_def)
  ultimately have "folded (byName t)" using table_loop_folded[OF t'(1) _ assms(2)] by simp
  then show ?thesis by (cases "byName t name") (auto simp: Lookup_def folded_def)
qed


text \<open>A library that leaves everything outside ASCII alone.\<close>

definition plain_unicode :: unicode where
  "plain_unicode = \<lparr>u_lower = map lower_byte, u_upper = map upper_byte\<rparr>"

definition get_descriptor :: "nat Descriptor" where
  "get_descriptor =
     Descriptor (lit ''GET'') 2 (FReadonly OR FFast) 1 1 1 [lit ''read''] (Some 0) EffectNone LocalityUnset [] None
       (lit ''GET'') (lit ''get'')"

theorem lookup_ignores_case_witness:
  "\<exists>t. NewTable plain_unicode [lit ''GET'' \<mapsto> lit ''FETCH''] [(lit ''GET'', get_descriptor)] = Some t \<and>
     Lookup t (lit ''fEtCh'') = Some get_descriptor \<and> Lookup t (lit ''get'') = None"
proof -
  let ?r = "[lit ''GET'' \<mapsto> lit ''FETCH'']"
  let ?b = "[(lit ''GET'', get_descriptor)]"
  obtain t where t: "NewTable plain_unicode ?r ?b = Some t" "byName t (lit ''FETCH'') = Some get_descriptor"
    "byName t (lit ''GET'') = None"
    by (simp add: NewTable_def table_add_def Let_def ToLower_def is_ascii_def lit_def lower_byte_def)
  have s: "\<forall>(name, d) \<in> set ?b. shouted (case ?r name of None \<Rightarrow> name | Some target \<Rightarrow> target)"
    by (simp add: shouted_def is_ascii_def lit_def upper_def)
  have "upper (lit ''fEtCh'') = lit ''FETCH''" "upper (lit ''get'') = lit ''GET''"
    by (simp_all add: upper_def lit_def upper_byte_def)
  then show ?thesis using lookup_ignores_case[OF t(1) s] t by simp
qed

end
