(* ===== verification/ACL.thy ===== *)
theory ACL
  imports Command_Table Glob Resp_Writer
begin

text \<open>
  Access control, \<open>command/acl.go\<close> and the handlers of \<open>command/aclcmd.go\<close>. A user is the
  set of commands it may run, the key and channel patterns it may use and the hashes of its passwords;
  rules change it one after the other. \<open>sha\<close> stands for \<open>sha256.Sum256\<close> and \<open>ul\<close>
  for the Unicode tables of \<open>strings.ToLower\<close>. The locks guard single operations and are left
  out, so a clone is the value itself. \<open>raw[0]\<close> panics on an empty rule, which is \<open>None\<close>.
\<close>

subsection \<open>Users\<close>

record commandFacts =
  cf_name :: bytes
  cf_categories :: "bytes list"

record User =
  u_Name :: bytes
  enabled :: bool
  nopass :: bool
  passwords :: "bytes list"
  allowed :: "bytes \<rightharpoonup> bool"
  rules :: "bytes list"
  allKeys :: bool
  keyPatterns :: "bytes list"
  allChannels :: bool
  channelPatterns :: "bytes list"

type_synonym acl_error = bytes

definition errSyntaxRule :: "bytes \<Rightarrow> acl_error" where
  "errSyntaxRule r = lit ''Error in ACL SETUSER modifier '' @ [39] @ r @ [39] @ lit '': Syntax error''"

definition errUnknownRule :: "bytes \<Rightarrow> acl_error" where
  "errUnknownRule r = lit ''Error in ACL SETUSER modifier '' @ [39] @ r @ [39] @
     lit '': Unknown command or category name in ACL''"

definition errHashRule :: "bytes \<Rightarrow> acl_error" where
  "errHashRule h = lit ''Error in ACL SETUSER modifier '' @ [39] @ lit ''#'' @ h @ [39] @
     lit '': Invalid password hash provided. It must be exactly 64 characters and contain only lowercase hexadecimal characters''"

definition newUser :: "commandFacts list \<Rightarrow> bytes \<Rightarrow> User" where
  "newUser commands name =
     \<lparr>u_Name = name, enabled = False, nopass = False, passwords = [],
      allowed = map_of (map (\<lambda>c. (cf_name c, False)) commands), rules = [], allKeys = False, keyPatterns = [],
      allChannels = False, channelPatterns = []\<rparr>"

subsection \<open>Passwords\<close>

definition hex_digit :: "byte \<Rightarrow> byte" where
  "hex_digit n = (if n < 10 then 48 + n else 87 + n)"

definition hex_encode :: "bytes \<Rightarrow> bytes" where
  "hex_encode b = concat (map (\<lambda>c. [hex_digit (c div 16), hex_digit (c mod 16)]) b)"

definition is_hex :: "byte \<Rightarrow> bool" where
  "is_hex c \<longleftrightarrow> (48 \<le> c \<and> c \<le> 57) \<or> (97 \<le> c \<and> c \<le> 102) \<or> (65 \<le> c \<and> c \<le> 70)"

text \<open>\<open>hex.DecodeString\<close> succeeds on an even number of hexadecimal digits.\<close>

definition hex_decodes :: "bytes \<Rightarrow> bool" where
  "hex_decodes s \<longleftrightarrow> even (length s) \<and> list_all is_hex s"

definition hashPassword :: "(bytes \<Rightarrow> bytes) \<Rightarrow> bytes \<Rightarrow> bytes" where
  "hashPassword sha p = hex_encode (sha p)"

definition normaliseHash :: "unicode \<Rightarrow> bytes \<Rightarrow> acl_error + bytes" where
  "normaliseHash ul h =
     (let h = ToLower ul h
      in if length h \<noteq> 64 then Inl (errHashRule h)
         else if \<not> hex_decodes h then Inl (errHashRule h)
         else Inr h)"

definition appendUnique :: "bytes list \<Rightarrow> bytes \<Rightarrow> bytes list" where
  "appendUnique xs v = (if v \<in> set xs then xs else xs @ [v])"

definition removeString :: "bytes list \<Rightarrow> bytes \<Rightarrow> bytes list" where
  "removeString xs v = filter (\<lambda>x. x \<noteq> v) xs"

text \<open>\<open>b\<close> are the bytes \<open>rand.Read\<close> filled the buffer of \<open>(bits + 7) / 8\<close> bytes with.\<close>

definition genPassword :: "(nat \<Rightarrow> bytes) \<Rightarrow> nat \<Rightarrow> bytes" where
  "genPassword rnd bits =
     (let s = hex_encode (rnd ((bits + 7) div 8)); want = (bits + 3) div 4
      in if length s > want then take want s else s)"

subsection \<open>Rules\<close>

definition setAll :: "bool \<Rightarrow> User \<Rightarrow> User" where
  "setAll v u = u\<lparr>allowed := (\<lambda>k. map_option (\<lambda>_. v) (allowed u k))\<rparr>"

text \<open>The loop over the commands of a category, with its flag \<open>matched\<close>.\<close>

fun grant_category :: "bytes \<Rightarrow> bool \<Rightarrow> commandFacts list \<Rightarrow> (bytes \<rightharpoonup> bool) \<times> bool \<Rightarrow> (bytes \<rightharpoonup> bool) \<times> bool" where
  "grant_category category g [] (al, matched) = (al, matched)"
| "grant_category category g (c # cs) (al, matched) =
     grant_category category g cs
       (if category \<in> set (cf_categories c) then (al(cf_name c \<mapsto> g), True) else (al, matched))"

fun grant_prefix :: "bytes \<Rightarrow> bool \<Rightarrow> commandFacts list \<Rightarrow> (bytes \<rightharpoonup> bool) \<Rightarrow> bytes \<rightharpoonup> bool" where
  "grant_prefix pre g [] al = al"
| "grant_prefix pre g (c # cs) al =
     grant_prefix pre g cs (if take (length pre) (cf_name c) = pre then al(cf_name c \<mapsto> g) else al)"

definition applyCommandRule :: "commandFacts list \<Rightarrow> bytes \<Rightarrow> User \<Rightarrow> (acl_error + User) go" where
  "applyCommandRule commands rule u = do {
     c \<leftarrow> lst_nth rule 0;
     let g = (c = Plus);
     let name = drop 1 rule;
     if name = [] then Some (Inl (errSyntaxRule rule))
     else if hd name = 64 then
       (case grant_category (drop 1 name) g commands (allowed u, False) of (al, matched) \<Rightarrow>
          if \<not> matched then Some (Inl (errUnknownRule rule))
          else Some (Inr (u\<lparr>allowed := al, rules := rules u @ [rule]\<rparr>)))
     else if allowed u name = None then Some (Inl (errUnknownRule rule))
     else Some (Inr (u\<lparr>allowed := grant_prefix (name @ lit ''|'') g commands ((allowed u)(name \<mapsto> g)),
                       rules := rules u @ [rule]\<rparr>))
   }"

text \<open>The first switch of \<open>applyOne\<close>, on the whole rule; \<open>None\<close> when no case matches.\<close>

definition applyWord :: "bytes \<Rightarrow> User \<Rightarrow> User option" where
  "applyWord rule u =
     (if rule = lit ''on'' then Some (u\<lparr>enabled := True\<rparr>)
      else if rule = lit ''off'' then Some (u\<lparr>enabled := False\<rparr>)
      else if rule = lit ''nopass'' then Some (u\<lparr>nopass := True, passwords := []\<rparr>)
      else if rule = lit ''resetpass'' then Some (u\<lparr>nopass := False, passwords := []\<rparr>)
      else if rule = lit ''reset'' then
        Some ((setAll False (u\<lparr>enabled := False, nopass := False, passwords := []\<rparr>))
          \<lparr>rules := [], allKeys := False, keyPatterns := [], allChannels := False, channelPatterns := []\<rparr>)
      else if rule = lit ''allkeys'' \<or> rule = lit ''~*'' then Some (u\<lparr>allKeys := True, keyPatterns := []\<rparr>)
      else if rule = lit ''resetkeys'' then Some (u\<lparr>allKeys := False, keyPatterns := []\<rparr>)
      else if rule = lit ''allchannels'' \<or> rule = lit ''&*'' then
        Some (u\<lparr>allChannels := True, channelPatterns := []\<rparr>)
      else if rule = lit ''resetchannels'' then Some (u\<lparr>allChannels := False, channelPatterns := []\<rparr>)
      else if rule = lit ''allcommands'' \<or> rule = lit ''+@all'' then
        Some ((setAll True u)\<lparr>rules := [lit ''+@all'']\<rparr>)
      else if rule = lit ''nocommands'' \<or> rule = lit ''-@all'' then
        Some ((setAll False u)\<lparr>rules := [lit ''-@all'']\<rparr>)
      else None)"

text \<open>The second switch, on the first byte; it panics when there is none.\<close>

definition applyPrefixed :: "(bytes \<Rightarrow> bytes) \<Rightarrow> unicode \<Rightarrow> commandFacts list \<Rightarrow> bytes \<Rightarrow> bytes \<Rightarrow> User \<Rightarrow> (acl_error + User) go" where
  "applyPrefixed sha ul commands raw rule u = do {
     c \<leftarrow> lst_nth raw 0;
     if c = 62 then
       Some (Inr (u\<lparr>passwords := appendUnique (passwords u) (hashPassword sha (drop 1 raw)), nopass := False\<rparr>))
     else if c = 60 then
       Some (Inr (u\<lparr>passwords := removeString (passwords u) (hashPassword sha (drop 1 raw))\<rparr>))
     else if c = 35 then
       (case normaliseHash ul (drop 1 raw) of Inl err \<Rightarrow> Some (Inl err)
        | Inr h \<Rightarrow> Some (Inr (u\<lparr>passwords := appendUnique (passwords u) h, nopass := False\<rparr>)))
     else if c = 33 then
       (case normaliseHash ul (drop 1 raw) of Inl err \<Rightarrow> Some (Inl err)
        | Inr h \<Rightarrow> Some (Inr (u\<lparr>passwords := removeString (passwords u) h\<rparr>)))
     else if c = 126 then Some (Inr (u\<lparr>keyPatterns := appendUnique (keyPatterns u) (drop 1 raw)\<rparr>))
     else if c = 38 then Some (Inr (u\<lparr>channelPatterns := appendUnique (channelPatterns u) (drop 1 raw)\<rparr>))
     else if c = Plus \<or> c = Minus then applyCommandRule commands rule u
     else Some (Inl (errSyntaxRule raw))
   }"

definition applyOne :: "(bytes \<Rightarrow> bytes) \<Rightarrow> unicode \<Rightarrow> commandFacts list \<Rightarrow> bytes \<Rightarrow> User \<Rightarrow> (acl_error + User) go" where
  "applyOne sha ul commands raw u =
     (let rule = ToLower ul raw
      in case applyWord rule u of
           Some u' \<Rightarrow> Some (Inr u')
         | None \<Rightarrow> applyPrefixed sha ul commands raw rule u)"

fun apply_rules :: "(bytes \<Rightarrow> bytes) \<Rightarrow> unicode \<Rightarrow> commandFacts list \<Rightarrow> bytes list \<Rightarrow> User \<Rightarrow> (acl_error + User) go" where
  "apply_rules sha ul commands [] u = Some (Inr u)"
| "apply_rules sha ul commands (raw # rs) u =
     (case applyOne sha ul commands raw u of
        None \<Rightarrow> None
      | Some (Inl err) \<Rightarrow> Some (Inl err)
      | Some (Inr u') \<Rightarrow> apply_rules sha ul commands rs u')"

subsection \<open>What a user may do\<close>

text \<open>\<open>subtle.ConstantTimeCompare\<close> is equality.\<close>

definition CheckPassword :: "(bytes \<Rightarrow> bytes) \<Rightarrow> User \<Rightarrow> bytes \<Rightarrow> bool" where
  "CheckPassword sha u password =
     (if \<not> enabled u then False
      else if nopass u then True
      else (let want = hashPassword sha password in fold (\<lambda>h ok. if h = want then True else ok) (passwords u) False))"

definition CanRun :: "User \<Rightarrow> 'h Descriptor \<Rightarrow> bool" where
  "CanRun u d = (case allowed u (d_lowerName d) of None \<Rightarrow> False | Some b \<Rightarrow> b)"

definition Unrestricted :: "User \<Rightarrow> bool" where
  "Unrestricted u \<longleftrightarrow> allKeys u \<and> allChannels u"

definition CanAccessKey :: "User \<Rightarrow> bytes \<Rightarrow> bool" where
  "CanAccessKey u key = (if allKeys u then True else list_ex (\<lambda>p. MatchPattern p key) (keyPatterns u))"

definition CanAccessChannel :: "User \<Rightarrow> bytes \<Rightarrow> bool" where
  "CanAccessChannel u channel =
     (if allChannels u then True else list_ex (\<lambda>p. MatchPattern p channel) (channelPatterns u))"

fun join_sp :: "bytes list \<Rightarrow> bytes" where
  "join_sp [] = []"
| "join_sp [x] = x"
| "join_sp (x # y # zs) = x @ [32] @ join_sp (y # zs)"

definition describe_parts :: "User \<Rightarrow> bytes list" where
  "describe_parts u =
     [if enabled u then lit ''on'' else lit ''off''] @
     (if nopass u then [lit ''nopass''] else []) @
     map (\<lambda>h. lit ''#'' @ h) (passwords u) @
     (if allKeys u then [lit ''~*''] else []) @
     map (\<lambda>p. lit ''~'' @ p) (keyPatterns u) @
     (if allChannels u then [lit ''&*''] else []) @
     map (\<lambda>p. lit ''&'' @ p) (channelPatterns u) @
     (if length (rules u) = 0 then [lit ''-@all''] else rules u)"

definition Describe :: "User \<Rightarrow> bytes" where
  "Describe u = join_sp (describe_parts u)"

text \<open>\<open>Snapshot\<close> returns flags, passwords, keys, channels and commands.\<close>

definition user_Snapshot :: "User \<Rightarrow> bytes list \<times> bytes list \<times> bytes list \<times> bytes list \<times> bytes" where
  "user_Snapshot u =
     ([if enabled u then lit ''on'' else lit ''off''] @ (if nopass u then [lit ''nopass''] else []) @
        (if allKeys u then [lit ''allkeys''] else []) @ (if allChannels u then [lit ''allchannels''] else []),
      passwords u,
      (if allKeys u then [lit ''~*''] else map (\<lambda>p. lit ''~'' @ p) (keyPatterns u)),
      (if allChannels u then [lit ''&*''] else map (\<lambda>p. lit ''&'' @ p) (channelPatterns u)),
      (if length (rules u) = 0 then lit ''-@all'' else join_sp (rules u)))"

subsection \<open>The registry\<close>

record ACL =
  users :: "bytes \<rightharpoonup> User"
  acl_commands :: "commandFacts list"

fun walk_commands :: "'h Descriptor \<Rightarrow> 'h Descriptor list" where
  "walk_commands (Descriptor nm arity flags fk lk st cats h eff loc subs parent full low) =
     Descriptor nm arity flags fk lk st cats h eff loc subs parent full low #
     concat (map (\<lambda>(name, sub). walk_commands sub) subs)"

definition allCommandsOf :: "'h Table \<Rightarrow> 'h Descriptor list" where
  "allCommandsOf t = concat (map walk_commands (t_all t))"

definition NewACL :: "(bytes \<Rightarrow> bytes) \<Rightarrow> unicode \<Rightarrow> 'h Table \<Rightarrow> ACL go" where
  "NewACL sha ul t =
     (let cs = map (\<lambda>d. \<lparr>cf_name = ToLower ul (d_fullName d), cf_categories = d_Categories d\<rparr>) (allCommandsOf t)
      in case apply_rules sha ul cs [lit ''on'', lit ''nopass'', lit ''~*'', lit ''&*'', lit ''+@all'']
                (newUser cs (lit ''default'')) of
           None \<Rightarrow> None
         | Some (Inl err) \<Rightarrow> None
         | Some (Inr def) \<Rightarrow> Some \<lparr>users = [lit ''default'' \<mapsto> def], acl_commands = cs\<rparr>)"

definition acl_User :: "ACL \<Rightarrow> bytes \<Rightarrow> User option" where
  "acl_User a name = users a name"

definition SetUser :: "(bytes \<Rightarrow> bytes) \<Rightarrow> unicode \<Rightarrow> bytes \<Rightarrow> bytes list \<Rightarrow> ACL \<Rightarrow> (ACL \<times> acl_error option) go" where
  "SetUser sha ul name rs a =
     (let draft = (case users a name of Some existing \<Rightarrow> existing | None \<Rightarrow> newUser (acl_commands a) name)
      in case apply_rules sha ul (acl_commands a) rs draft of
           None \<Rightarrow> None
         | Some (Inl err) \<Rightarrow> Some (a, Some err)
         | Some (Inr u) \<Rightarrow> Some (a\<lparr>users := (users a)(name \<mapsto> u)\<rparr>, None))"

fun DelUser :: "bytes list \<Rightarrow> int \<Rightarrow> ACL \<Rightarrow> ACL \<times> int \<times> acl_error option" where
  "DelUser [] n a = (a, n, None)"
| "DelUser (name # names) n a =
     (if name = lit ''default'' then (a, n, Some (lit ''the 'default' user cannot be removed''))
      else if users a name \<noteq> None then DelUser names (n + 1) (a\<lparr>users := (users a)(name := None)\<rparr>)
      else DelUser names n a)"

definition SetDefaultPassword :: "(bytes \<Rightarrow> bytes) \<Rightarrow> bytes \<Rightarrow> ACL \<Rightarrow> ACL" where
  "SetDefaultPassword sha password a =
     (case users a (lit ''default'') of
        None \<Rightarrow> a
      | Some u \<Rightarrow>
          (let u = u\<lparr>passwords := []\<rparr>
           in a\<lparr>users := (users a)(lit ''default'' \<mapsto>
                (if password = [] then u\<lparr>nopass := True\<rparr>
                 else u\<lparr>nopass := False, passwords := [hashPassword sha password]\<rparr>))\<rparr>))"

definition CommandsIn :: "ACL \<Rightarrow> bytes \<Rightarrow> bytes list \<times> bool" where
  "CommandsIn a category =
     (let out = concat (map (\<lambda>c. map (\<lambda>_. cf_name c) (filter (\<lambda>cat. cat = category) (cf_categories c))) (acl_commands a))
      in (sort out, out \<noteq> []))"

definition Categories :: "ACL \<Rightarrow> bytes list" where
  "Categories a = sorted_list_of_set (set (concat (map cf_categories (acl_commands a))))"


definition Names :: "ACL \<Rightarrow> bytes list" where
  "Names a = sorted_list_of_set (dom (users a))"

definition Users :: "ACL \<Rightarrow> User list" where
  "Users a = List.map_filter (acl_User a) (Names a)"

subsection \<open>The handlers\<close>

text \<open>\<open>c.Arg(i)\<close> is empty out of range; the arity of the descriptors keeps the indices in range.\<close>

definition arg_at :: "bytes list \<Rightarrow> nat \<Rightarrow> bytes" where
  "arg_at args i = (if i < length args then args ! i else [])"

definition cmdACLList :: "ACL \<Rightarrow> resp_value" where
  "cmdACLList a = v_Array (map (\<lambda>u. v_Bulk (lit ''user '' @ u_Name u @ lit '' '' @ Describe u)) (Users a))"

definition cmdACLUsers :: "ACL \<Rightarrow> resp_value" where
  "cmdACLUsers a = v_Array (map v_Bulk (Names a))"

definition stringArray :: "bytes list \<Rightarrow> resp_value" where
  "stringArray xs = v_Array (map v_Bulk xs)"

definition cmdACLGetUser :: "bytes list \<Rightarrow> ACL \<Rightarrow> resp_value" where
  "cmdACLGetUser args a =
     (case acl_User a (arg_at args 2) of
        None \<Rightarrow> v_NullArray
      | Some u \<Rightarrow> (case user_Snapshot u of (flags, pws, ks, chans, cmds) \<Rightarrow>
          v_Map [v_Bulk (lit ''flags''), stringArray flags, v_Bulk (lit ''passwords''), stringArray pws,
                 v_Bulk (lit ''commands''), v_Bulk cmds, v_Bulk (lit ''keys''), v_Bulk (join_sp ks),
                 v_Bulk (lit ''channels''), v_Bulk (join_sp chans)]))"

definition cmdACLSetUser :: "(bytes \<Rightarrow> bytes) \<Rightarrow> unicode \<Rightarrow> bytes list \<Rightarrow> ACL \<Rightarrow> (ACL \<times> resp_value) go" where
  "cmdACLSetUser sha ul args a =
     (let name = arg_at args 2
      in if list_ex (\<lambda>c. c \<in> {32, LF, CR}) name
         then Some (a, v_Err (lit ''ERR Usernames can't contain spaces or null characters''))
         else case SetUser sha ul name (drop 3 args) a of
                None \<Rightarrow> None
              | Some (a', Some err) \<Rightarrow> Some (a', v_Err (lit ''ERR '' @ err))
              | Some (a', None) \<Rightarrow> Some (a', v_OK))"

definition cmdACLDelUser :: "bytes list \<Rightarrow> ACL \<Rightarrow> ACL \<times> resp_value" where
  "cmdACLDelUser args a =
     (case DelUser (drop 2 args) 0 a of
        (a', n, Some err) \<Rightarrow> (a', v_Err (lit ''ERR '' @ err))
      | (a', n, None) \<Rightarrow> (a', v_Integer n))"

definition cmdACLCat :: "unicode \<Rightarrow> bytes list \<Rightarrow> ACL \<Rightarrow> resp_value" where
  "cmdACLCat ul args a =
     (if length args = 2 then stringArray (Categories a)
      else if length args \<noteq> 3 then v_Err (lit ''ERR wrong number of arguments for 'acl|cat' command'')
      else case CommandsIn a (ToLower ul (arg_at args 2)) of (cmds, known) \<Rightarrow>
        if \<not> known then v_Err (lit ''ERR Unknown ACL cat '' @ [39] @ arg_at args 2 @ [39]) else stringArray cmds)"

definition cmdACLGenPass :: "(nat \<Rightarrow> bytes) \<Rightarrow> bytes list \<Rightarrow> resp_value" where
  "cmdACLGenPass rnd args =
     (if length args = 3 then
        (case ParseInt (arg_at args 2) of
           Some n \<Rightarrow> if n \<le> 0 \<or> n > 4096
             then v_Err (lit ''ERR ACL GENPASS argument must be the number of bits for the output password, a positive number up to 4096'')
             else v_Bulk (genPassword rnd (nat n))
         | None \<Rightarrow> v_Err (lit ''ERR ACL GENPASS argument must be the number of bits for the output password, a positive number up to 4096''))
      else if length args \<noteq> 2 then v_Err (lit ''ERR wrong number of arguments for 'acl|genpass' command'')
      else v_Bulk (genPassword rnd 256))"

lemma hex_encode_length: "length (hex_encode b) = 2 * length b"
  by (induction b) (auto simp: hex_encode_def)

lemma genPassword_length: "\<forall>n. length (rnd n) = n \<Longrightarrow> length (genPassword rnd bits) = (bits + 3) div 4"
  by (auto simp: genPassword_def Let_def hex_encode_length)

end
