(* ===== verification/ACL_Rules.thy ===== *)
theory ACL_Rules
  imports ACL
begin

text \<open>
  What the rules of access control mean. The last rule that names a command decides about it; the
  invariant of users and of the registry; and the description of a user that \<open>ACL LIST\<close> prints
  gives the user back. The laws assumed of the library are \<open>lower_lib\<close> and \<open>sha_lib\<close>.
\<close>

subsection \<open>Applying rules\<close>

text \<open>
  What the code relies on of \<open>strings.ToLower\<close> outside ASCII: characters are folded one by one,
  none becomes a star, and no ASCII capital is left.
\<close>

definition lower_lib :: "unicode \<Rightarrow> bool" where
  "lower_lib ul \<longleftrightarrow>
     (\<forall>c s. c < 128 \<longrightarrow> \<not> is_ascii s \<longrightarrow> u_lower ul (c # s) = lower_byte c # u_lower ul s) \<and>
     (\<forall>s. \<not> is_ascii s \<longrightarrow> u_lower ul s \<noteq> [Star] \<and> (\<forall>x \<in> set (u_lower ul s). lower_byte x = x))"

definition quiet :: "bytes \<Rightarrow> bool" where
  "quiet s \<longleftrightarrow> is_ascii s \<and> map lower_byte s = s"

definition facts_ok :: "commandFacts list \<Rightarrow> bool" where
  "facts_ok cs \<longleftrightarrow> (\<forall>c \<in> set cs. quiet (cf_name c) \<and> 32 \<notin> set (cf_name c) \<and>
     (\<forall>cat \<in> set (cf_categories c). quiet cat \<and> 32 \<notin> set cat))"

lemma ToLower_Cons: "lower_lib ul \<Longrightarrow> c < 128 \<Longrightarrow> ToLower ul (c # s) = lower_byte c # ToLower ul s"
  by (auto simp: ToLower_def lower_lib_def is_ascii_def)

lemma ToLower_quiet: "quiet s \<Longrightarrow> ToLower ul s = s"
  by (simp add: ToLower_def quiet_def)

lemma quiet_Cons [simp]: "quiet (c # s) \<longleftrightarrow> c < 128 \<and> lower_byte c = c \<and> quiet s"
  by (auto simp: quiet_def is_ascii_def)

lemma ToLower_star: "lower_lib ul \<Longrightarrow> ToLower ul s = [Star] \<Longrightarrow> s = [Star]"
  by (auto simp: ToLower_def lower_lib_def lower_byte_def word_le_nat_alt unat_word_ariths split: if_splits)

lemma grant_category_eq:
  "grant_category cat g cs (al, m) =
     (\<lambda>n. if \<exists>c \<in> set cs. cf_name c = n \<and> cat \<in> set (cf_categories c) then Some g else al n,
      m \<or> (\<exists>c \<in> set cs. cat \<in> set (cf_categories c)))"
  by (induction cs arbitrary: al m) (auto simp: fun_eq_iff)

lemma grant_prefix_eq:
  "grant_prefix pre g cs al =
     (\<lambda>n. if \<exists>c \<in> set cs. cf_name c = n \<and> take (length pre) n = pre then Some g else al n)"
  by (induction cs arbitrary: al) (auto simp: fun_eq_iff)

definition cmd_names :: "commandFacts list \<Rightarrow> bytes set" where
  "cmd_names cs = cf_name ` set cs"

definition none_allowed :: "commandFacts list \<Rightarrow> bytes \<rightharpoonup> bool" where
  "none_allowed cs = (\<lambda>n. if n \<in> cmd_names cs then Some False else None)"

lemma newUser_allowed: "allowed (newUser cs nm) = none_allowed cs"
proof
  fix n
  show "allowed (newUser cs nm) n = none_allowed cs n"
    by (induction cs) (auto simp: newUser_def none_allowed_def cmd_names_def)
qed

text \<open>Which commands a command rule, already in lower case, names.\<close>

definition covers :: "commandFacts list \<Rightarrow> bytes \<Rightarrow> bytes \<Rightarrow> bool" where
  "covers cs what n \<longleftrightarrow>
     (if what \<noteq> [] \<and> hd what = 64 then \<exists>c \<in> set cs. cf_name c = n \<and> tl what \<in> set (cf_categories c)
      else n = what \<or> (n \<in> cmd_names cs \<and> take (length what + 1) n = what @ [124]))"

lemma applyCommandRule_eq:
  assumes "dom (allowed u) = cmd_names cs"
  shows "applyCommandRule cs (c # what) u =
     (if what = [] then Some (Inl (errSyntaxRule (c # what)))
      else if \<not> (\<exists>n \<in> cmd_names cs. covers cs what n) \<or> (hd what \<noteq> 64 \<and> what \<notin> cmd_names cs) then Some (Inl (errUnknownRule (c # what)))
      else Some (Inr (u\<lparr>allowed := (\<lambda>n. if covers cs what n then Some (c = Plus) else allowed u n),
                        rules := rules u @ [c # what]\<rparr>)))"
proof -
  consider "what = []" | cat where "what = 64 # cat" | "what \<noteq> []" "hd what \<noteq> 64" by (cases what) auto
  then show ?thesis
  proof cases
    case 2
    then show ?thesis
      by (auto simp: applyCommandRule_def lst_nth_def grant_category_eq covers_def cmd_names_def Let_def fun_eq_iff)
  next
    case 3
    have d: "allowed u what = None \<longleftrightarrow> what \<notin> cmd_names cs" using assms by auto
    have g: "grant_prefix (what @ lit ''|'') b cs ((allowed u)(what \<mapsto> b)) =
        (\<lambda>n. if covers cs what n then Some b else allowed u n)" for b
      using 3 by (auto simp: grant_prefix_eq fun_eq_iff covers_def cmd_names_def lit_def)
    have "what \<in> cmd_names cs \<Longrightarrow> \<exists>n \<in> cmd_names cs. covers cs what n" using 3 by (auto simp: covers_def)
    then show ?thesis using 3 by (simp add: applyCommandRule_def lst_nth_def g d Let_def)
  qed (simp add: applyCommandRule_def lst_nth_def)
qed


lemma apply_rules_append:
  "apply_rules sha ul cs (rs @ rs') u =
     (case apply_rules sha ul cs rs u of None \<Rightarrow> None | Some (Inl err) \<Rightarrow> Some (Inl err)
      | Some (Inr u') \<Rightarrow> apply_rules sha ul cs rs' u')"
  by (induction rs arbitrary: u) (auto split: option.splits sum.splits)

subsection \<open>The last rule that names a command decides\<close>

text \<open>What a rule says about a command: nothing, grant or refuse.\<close>

definition decides :: "unicode \<Rightarrow> commandFacts list \<Rightarrow> bytes \<Rightarrow> bytes \<Rightarrow> bool option" where
  "decides ul cs raw n =
     (let rule = ToLower ul raw
      in if rule \<in> {lit ''reset'', lit ''nocommands'', lit ''-@all''} then Some False
         else if rule \<in> {lit ''allcommands'', lit ''+@all''} then Some True
         else case rule of [] \<Rightarrow> None
              | c # what \<Rightarrow> if (c = Plus \<or> c = Minus) \<and> covers cs what n then Some (c = Plus) else None)"

fun last_decision :: "unicode \<Rightarrow> commandFacts list \<Rightarrow> bytes list \<Rightarrow> bytes \<Rightarrow> bool option" where
  "last_decision ul cs [] n = None"
| "last_decision ul cs (r # rs) n =
     (case last_decision ul cs rs n of Some b \<Rightarrow> Some b | None \<Rightarrow> decides ul cs r n)"

definition decided :: "bool option \<Rightarrow> bool option \<Rightarrow> bool option" where
  "decided old new = (case new of None \<Rightarrow> old | Some b \<Rightarrow> Some b)"

lemma lower_byte_sign [simp]: "lower_byte Plus = Plus" "lower_byte Minus = Minus"
  by (simp_all add: lower_byte_def)

lemma ToLower_first:
  assumes "lower_lib ul" "lst_nth raw 0 = Some c" "c < 128"
  shows "\<exists>s. ToLower ul raw = lower_byte c # s"
  using assms by (cases raw) (auto simp: lst_nth_def ToLower_Cons)

definition command_words :: "bytes set" where
  "command_words = {lit ''reset'', lit ''nocommands'', lit ''-@all'', lit ''allcommands'', lit ''+@all''}"

definition signed :: "bytes \<Rightarrow> bool" where
  "signed rule \<longleftrightarrow> rule \<noteq> [] \<and> (hd rule = Plus \<or> hd rule = Minus)"

lemma decides_None: "ToLower ul raw \<notin> command_words \<Longrightarrow> \<not> signed (ToLower ul raw) \<Longrightarrow> decides ul cs raw n = None"
  by (auto simp: decides_def command_words_def signed_def Let_def split: list.splits)

definition plain_words :: "bytes set" where
  "plain_words = {lit ''on'', lit ''off'', lit ''nopass'', lit ''resetpass'', lit ''allkeys'', lit ''~*'', lit ''resetkeys'',
     lit ''allchannels'', lit ''&*'', lit ''resetchannels''}"

lemma applyWord_None: "applyWord rule u = None \<longleftrightarrow> rule \<notin> command_words \<union> plain_words"
  by (simp add: applyWord_def command_words_def plain_words_def)

lemma applyWord_command_ex:
  "rule \<in> command_words \<Longrightarrow>
   \<exists>v. applyWord rule u = Some v \<and> allowed v = allowed (setAll (rule \<in> {lit ''allcommands'', lit ''+@all''}) u) \<and>
     rules v = (if rule \<in> {lit ''allcommands'', lit ''+@all''} then [lit ''+@all'']
       else if rule = lit ''reset'' then [] else [lit ''-@all''])"
  unfolding command_words_def by (elim insertE) (simp_all add: applyWord_def lit_def setAll_def)

lemma applyWord_plain_ex:
  "rule \<in> plain_words \<Longrightarrow> \<exists>v. applyWord rule u = Some v \<and> allowed v = allowed u \<and> rules v = rules u"
  unfolding plain_words_def by (elim insertE) (simp_all add: applyWord_def lit_def)

lemma applyWord_command:
  assumes "rule \<in> command_words" "applyWord rule u = Some u'"
  shows "allowed u' = allowed (setAll (rule \<in> {lit ''allcommands'', lit ''+@all''}) u)"
    "rules u' = (if rule \<in> {lit ''allcommands'', lit ''+@all''} then [lit ''+@all'']
       else if rule = lit ''reset'' then [] else [lit ''-@all''])"
  using applyWord_command_ex[OF assms(1), of u] assms(2) by force+

lemma applyWord_plain:
  assumes "rule \<in> plain_words" "applyWord rule u = Some u'"
  shows "allowed u' = allowed u" "rules u' = rules u"
  using applyWord_plain_ex[OF assms(1), of u] assms(2) by force+

lemma plain_not_command: "rule \<in> plain_words \<Longrightarrow> rule \<notin> command_words"
  unfolding plain_words_def command_words_def by (elim insertE) (simp_all add: lit_def)

lemma plain_not_signed: "rule \<in> plain_words \<Longrightarrow> \<not> signed rule"
  unfolding plain_words_def signed_def by (elim insertE) (simp_all add: lit_def)

lemma applyOne_words:
  assumes "ToLower ul raw \<in> command_words" "applyOne sha ul cs raw u = Some (Inr u')"
  shows "applyWord (ToLower ul raw) u = Some u'"
  using assms applyWord_None[of "ToLower ul raw" u] by (auto simp: applyOne_def Let_def split: option.splits)

lemma lower_byte_other: "lower_byte c = Plus \<Longrightarrow> c = Plus" "lower_byte c = Minus \<Longrightarrow> c = Minus"
  by (auto simp: lower_byte_def word_le_nat_alt unat_word_ariths word_unat_eq_iff split: if_splits)

lemma signed_first:
  assumes "lower_lib ul" "lst_nth raw 0 = Some c" "c < 128"
  shows "signed (ToLower ul raw) \<longleftrightarrow> c = Plus \<or> c = Minus"
proof -
  obtain s where "ToLower ul raw = lower_byte c # s" using ToLower_first[OF assms] by auto
  then show ?thesis using lower_byte_other[of c] by (auto simp: signed_def)
qed

lemma applyOne_unsigned:
  assumes "lower_lib ul" "ToLower ul raw \<notin> command_words" "applyOne sha ul cs raw u = Some (Inr u')"
    "\<not> signed (ToLower ul raw)"
  shows "allowed u' = allowed u \<and> rules u' = rules u"
proof (cases "applyWord (ToLower ul raw) u")
  case None
  then have "applyPrefixed sha ul cs raw (ToLower ul raw) u = Some (Inr u')" using assms(3) by (simp add: applyOne_def)
  moreover have "lst_nth raw 0 \<noteq> Some Plus" "lst_nth raw 0 \<noteq> Some Minus"
    using assms(4) signed_first[OF assms(1), of raw] by auto
  ultimately show ?thesis by (auto simp: applyPrefixed_def bind_eq_Some_conv split: if_splits sum.splits)
next
  case (Some v)
  then show ?thesis using assms(2,3) applyWord_plain[of "ToLower ul raw" u] applyWord_None[of "ToLower ul raw" u]
    by (auto simp: applyOne_def)
qed

lemma applyOne_signed:
  assumes "lower_lib ul" "ToLower ul raw \<notin> command_words" "applyOne sha ul cs raw u = Some (Inr u')"
    "signed (ToLower ul raw)"
  shows "applyCommandRule cs (ToLower ul raw) u = Some (Inr u')"
proof -
  have "applyWord (ToLower ul raw) u = None" using assms(2,4) plain_not_signed by (auto simp: applyWord_None)
  then have ap: "applyPrefixed sha ul cs raw (ToLower ul raw) u = Some (Inr u')" using assms(3) by (simp add: applyOne_def)
  then obtain c where c: "lst_nth raw 0 = Some c" by (auto simp: applyPrefixed_def bind_eq_Some_conv)
  have "c = Plus \<or> c = Minus \<or> c \<notin> {62, 60, 35, 33, 126, 38}" using signed_first[OF assms(1) c] assms(4) by auto
  then show ?thesis using ap c by (auto simp: applyPrefixed_def split: if_splits)
qed

lemma applyOne_decides:
  assumes lib: "lower_lib ul" and dm: "dom (allowed u) = cmd_names cs"
    and ap: "applyOne sha ul cs raw u = Some (Inr u')"
  shows "dom (allowed u') = cmd_names cs \<and>
    (\<forall>n \<in> cmd_names cs. allowed u' n = decided (allowed u n) (decides ul cs raw n))"
proof -
  let ?rule = "ToLower ul raw"
  consider (word) "?rule \<in> command_words" | (plain) "?rule \<notin> command_words" "\<not> signed ?rule"
    | (command) c what where "?rule = c # what" "c = Plus \<or> c = Minus" "?rule \<notin> command_words"
    by (cases ?rule) (auto simp: signed_def)
  then show ?thesis
  proof cases
    case word
    then have "decides ul cs raw n = Some (?rule \<in> {lit ''allcommands'', lit ''+@all''})" for n
      by (auto simp: decides_def command_words_def Let_def lit_def)
    then show ?thesis using applyWord_command(1)[OF word applyOne_words[OF word ap]]
      by (auto simp: setAll_def decided_def dm[symmetric])
  next
    case plain
    then show ?thesis using applyOne_unsigned[OF lib _ ap] decides_None dm by (simp add: decided_def)
  next
    case (command c what)
    have ar: "applyCommandRule cs (c # what) u = Some (Inr u')"
      using applyOne_signed[OF lib command(3) ap] command(1,2) by (simp add: signed_def)
    have d: "decides ul cs raw n = (if covers cs what n then Some (c = Plus) else None)" for n
      using command by (auto simp: decides_def Let_def command_words_def)
    have eq: "allowed u' = (\<lambda>n. if covers cs what n then Some (c = Plus) else allowed u n)"
      and ok: "what \<noteq> []" "hd what = 64 \<or> what \<in> cmd_names cs"
      using ar by (auto simp: applyCommandRule_eq[OF dm] split: if_splits)
    have "covers cs what n \<Longrightarrow> n \<in> cmd_names cs" for n
      using ok by (auto simp: covers_def cmd_names_def split: if_splits)
    then have "covers cs what n \<Longrightarrow> \<exists>b. allowed u n = Some b" for n using dm by blast
    then show ?thesis using d eq by (auto simp: decided_def dm[symmetric] split: if_splits)
  qed
qed

lemma apply_rules_decides:
  assumes "lower_lib ul" "dom (allowed u) = cmd_names cs" "apply_rules sha ul cs rs u = Some (Inr u')"
  shows "dom (allowed u') = cmd_names cs \<and>
    (\<forall>n \<in> cmd_names cs. allowed u' n = decided (allowed u n) (last_decision ul cs rs n))"
  using assms(2,3)
proof (induction rs arbitrary: u)
  case (Cons r rs)
  then obtain v where v: "applyOne sha ul cs r u = Some (Inr v)" "apply_rules sha ul cs rs v = Some (Inr u')"
    by (auto split: option.splits sum.splits)
  show ?case
    using Cons.IH[OF _ v(2)] applyOne_decides[OF assms(1) Cons.prems(1) v(1)]
    by (auto simp: decided_def split: option.splits)
qed (simp add: decided_def)


subsection \<open>The invariant of a user\<close>

definition hash_form :: "bytes \<Rightarrow> bool" where
  "hash_form h \<longleftrightarrow> length h = 64 \<and> hex_decodes h \<and> quiet h \<and> 32 \<notin> set h"

text \<open>The recorded rules, applied to a user without command permissions, give the permissions of this one.\<close>

definition replays :: "(bytes \<Rightarrow> bytes) \<Rightarrow> unicode \<Rightarrow> commandFacts list \<Rightarrow> User \<Rightarrow> bool" where
  "replays sha ul cs u \<longleftrightarrow> (\<forall>u0. apply_rules sha ul cs (rules u) (u0\<lparr>allowed := none_allowed cs, rules := []\<rparr>) =
     Some (Inr (u0\<lparr>allowed := allowed u, rules := rules u\<rparr>)))"

definition patterns_ok :: "bytes list \<Rightarrow> bool" where
  "patterns_ok ps \<longleftrightarrow> distinct ps \<and> [Star] \<notin> set ps"

definition user_ok :: "(bytes \<Rightarrow> bytes) \<Rightarrow> unicode \<Rightarrow> commandFacts list \<Rightarrow> User \<Rightarrow> bool" where
  "user_ok sha ul cs u \<longleftrightarrow>
     dom (allowed u) = cmd_names cs \<and> replays sha ul cs u \<and> (\<forall>r \<in> set (rules u). 32 \<notin> set r) \<and>
     (nopass u \<longrightarrow> passwords u = []) \<and> distinct (passwords u) \<and> (\<forall>h \<in> set (passwords u). hash_form h) \<and>
     patterns_ok (keyPatterns u) \<and> patterns_ok (channelPatterns u)"

text \<open>\<open>sha256.Sum256\<close> returns 32 bytes.\<close>

definition sha_lib :: "(bytes \<Rightarrow> bytes) \<Rightarrow> bool" where
  "sha_lib sha \<longleftrightarrow> (\<forall>p. length (sha p) = 32)"

lemma hex_digit_form:
  assumes "(n :: byte) < 16"
  shows "is_hex (hex_digit n) \<and> hex_digit n < 128 \<and> lower_byte (hex_digit n) = hex_digit n \<and> hex_digit n \<noteq> 32"
  using assms
  by (auto simp: hex_digit_def is_hex_def lower_byte_def word_le_nat_alt word_less_nat_alt unat_word_ariths word_unat_eq_iff)

lemma hex_nibbles: "(c :: byte) div 16 < 16" "(c :: byte) mod 16 < 16"
proof -
  show "c div 16 < 16" using unsigned_less[of c, where 'a = nat]
    by (simp add: word_less_nat_alt unat_div less_mult_imp_div_less)
  show "c mod 16 < 16" by (simp add: word_less_nat_alt unat_mod)
qed

lemma hex_encode_form:
  "length (hex_encode b) = 2 * length b"
  "x \<in> set (hex_encode b) \<Longrightarrow> is_hex x \<and> x < 128 \<and> lower_byte x = x \<and> x \<noteq> 32"
  by (induction b) (auto simp: hex_encode_def hex_digit_form hex_nibbles)

lemma hashPassword_form: "sha_lib sha \<Longrightarrow> hash_form (hashPassword sha p)"
  using hex_encode_form(2)[of _ "sha p"]
  by (auto simp: hash_form_def hashPassword_def hex_encode_form(1) sha_lib_def hex_decodes_def quiet_def is_ascii_def
        list_all_iff intro: map_idI)

lemma hex_no_space: "is_hex x \<Longrightarrow> x \<noteq> 32 \<and> x < 128"
  by (auto simp: is_hex_def word_le_nat_alt word_less_nat_alt)

lemma ToLower_low: "lower_lib ul \<Longrightarrow> x \<in> set (ToLower ul s) \<Longrightarrow> lower_byte x = x"
  by (auto simp: ToLower_def lower_lib_def lower_lower_byte split: if_splits)

lemma normaliseHash_form: "lower_lib ul \<Longrightarrow> normaliseHash ul h = Inr h' \<Longrightarrow> hash_form h'"
  using ToLower_low[of ul _ h] hex_no_space
  by (auto simp: normaliseHash_def Let_def hash_form_def hex_decodes_def quiet_def is_ascii_def list_all_iff
        split: if_splits intro: map_idI)

lemma setAll_False: "dom (allowed u) = cmd_names cs \<Longrightarrow> allowed (setAll False u) = none_allowed cs"
  by (auto simp: setAll_def none_allowed_def fun_eq_iff)

lemma replays_words:
  assumes "dom (allowed u) = cmd_names cs" "ToLower ul raw \<in> command_words" "applyOne sha ul cs raw u = Some (Inr u')"
  shows "replays sha ul cs u' \<and> (\<forall>r \<in> set (rules u'). 32 \<notin> set r)"
proof -
  let ?all = "ToLower ul raw \<in> {lit ''allcommands'', lit ''+@all''}"
  define F where "F v = (\<lambda>n. if n \<in> cmd_names cs then Some v else None)" for v :: bool
  have a: "allowed (setAll v u) = F v" for v
    using assms(1) by (auto simp: setAll_def F_def fun_eq_iff)
  have nF: "none_allowed cs = F False" by (simp add: F_def none_allowed_def)
  have lit: "ToLower ul (lit ''+@all'') = lit ''+@all''" "ToLower ul (lit ''-@all'') = lit ''-@all''"
    by (simp_all add: ToLower_def lit_def is_ascii_def lower_byte_def)
  have one: "applyOne sha ul cs (lit ''+@all'') v = Some (Inr ((setAll True v)\<lparr>rules := [lit ''+@all'']\<rparr>))"
    "applyOne sha ul cs (lit ''-@all'') v = Some (Inr ((setAll False v)\<lparr>rules := [lit ''-@all'']\<rparr>))" for v
    unfolding applyOne_def lit Let_def by (simp_all add: applyWord_def lit_def)
  have s: "setAll b (v\<lparr>allowed := none_allowed cs, rules := []\<rparr>) =
      v\<lparr>allowed := F b, rules := []\<rparr>" for b v
    by (auto simp: setAll_def none_allowed_def F_def fun_eq_iff intro!: arg_cong[of _ _ "\<lambda>f. v\<lparr>allowed := f, rules := []\<rparr>"])
  have u': "allowed u' = allowed (setAll ?all u)"
    "rules u' = (if ?all then [lit ''+@all''] else if ToLower ul raw = lit ''reset'' then [] else [lit ''-@all''])"
    using applyWord_command[OF assms(2) applyOne_words[OF assms(2,3)]] by auto
  have "32 \<notin> set (lit ''+@all'')" "32 \<notin> set (lit ''-@all'')" by (simp_all add: lit_def)
  moreover have "replays sha ul cs u'"
  proof -
    consider "rules u' = [lit ''+@all'']" "allowed u' = F True"
      | "rules u' = [lit ''-@all'']" "allowed u' = F False"
      | "rules u' = []" "allowed u' = F False"
    proof -
      obtain b where b: "b = ?all" by simp
      then have "allowed u' = allowed (setAll b u)"
        "rules u' = (if b then [lit ''+@all''] else if ToLower ul raw = lit ''reset'' then [] else [lit ''-@all''])"
        using u' by simp_all
      then show ?thesis using that a[of b] by (cases b) (auto split: if_splits)
    qed
    then show ?thesis unfolding replays_def by cases (simp_all add: one s[unfolded nF] nF)
  qed
  ultimately show ?thesis using u'(2) by auto
qed

lemma applyOne_recorded:
  assumes "quiet (c # what)" "c = Plus \<or> c = Minus" "c # what \<notin> command_words"
  shows "applyOne sha ul cs (c # what) u = applyCommandRule cs (c # what) u"
proof -
  have "signed (c # what)" using assms(2) by (simp add: signed_def)
  then have "applyWord (c # what) u = None" using assms(3) plain_not_signed by (auto simp: applyWord_None)
  then show ?thesis using assms(2) ToLower_quiet[OF assms(1), of ul]
    by (auto simp: applyOne_def applyPrefixed_def lst_nth_def)
qed

lemma replays_command:
  assumes f: "facts_ok cs" and dm: "dom (allowed u) = cmd_names cs" and r: "replays sha ul cs u"
    "\<forall>r \<in> set (rules u). 32 \<notin> set r" and c: "c = Plus \<or> c = Minus" "c # what \<notin> command_words"
    and ar: "applyCommandRule cs (c # what) u = Some (Inr u')"
  shows "replays sha ul cs u' \<and> (\<forall>r \<in> set (rules u'). 32 \<notin> set r)"
proof -
  have u': "allowed u' = (\<lambda>n. if covers cs what n then Some (c = Plus) else allowed u n)" "rules u' = rules u @ [c # what]"
    and ok: "what \<noteq> []" "\<exists>n \<in> cmd_names cs. covers cs what n" "hd what = 64 \<or> what \<in> cmd_names cs"
    using ar by (auto simp: applyCommandRule_eq[OF dm] split: if_splits)
  have q: "quiet (c # what) \<and> 32 \<notin> set (c # what)"
  proof (cases "hd what = 64")
    case True
    then obtain cat where w: "what = 64 # cat" using ok(1) by (cases what) auto
    then show ?thesis using ok(2) f c by (auto simp: facts_ok_def covers_def lower_byte_def)
  next
    case False
    then show ?thesis using ok(3) f c by (auto simp: facts_ok_def cmd_names_def)
  qed
  have "applyOne sha ul cs (c # what) (u0\<lparr>allowed := allowed u, rules := rules u\<rparr>) =
      Some (Inr (u0\<lparr>allowed := allowed u', rules := rules u'\<rparr>))" for u0 :: User
  proof -
    have "dom (allowed (u0\<lparr>allowed := allowed u, rules := rules u\<rparr>)) = cmd_names cs" using dm by simp
    then show ?thesis using q c ok u' by (auto simp: applyOne_recorded applyCommandRule_eq cong: if_cong)
  qed
  then show ?thesis using r q u'(2) by (auto simp: replays_def apply_rules_append)
qed

definition passwords_ok :: "User \<Rightarrow> bool" where
  "passwords_ok u \<longleftrightarrow> (nopass u \<longrightarrow> passwords u = []) \<and> distinct (passwords u) \<and> (\<forall>h \<in> set (passwords u). hash_form h)"

lemma applyWord_passwords: "applyWord rule u = Some u' \<Longrightarrow> passwords_ok u \<Longrightarrow> passwords_ok u'"
  unfolding applyWord_def by (auto simp: passwords_ok_def setAll_def split: if_splits)

lemma applyWord_patterns:
  "applyWord rule u = Some u' \<Longrightarrow> patterns_ok (keyPatterns u) \<Longrightarrow> patterns_ok (channelPatterns u) \<Longrightarrow>
   patterns_ok (keyPatterns u') \<and> patterns_ok (channelPatterns u')"
  unfolding applyWord_def by (auto simp: patterns_ok_def setAll_def split: if_splits)

lemma applyCommandRule_keeps:
  "applyCommandRule cs rule u = Some (Inr u') \<Longrightarrow> \<exists>al rs. u' = u\<lparr>allowed := al, rules := rs\<rparr>"
  by (auto simp: applyCommandRule_def Let_def bind_eq_Some_conv split: if_splits prod.splits)

lemma appendUnique_simps [simp]:
  "set (appendUnique xs v) = insert v (set xs)" "distinct xs \<Longrightarrow> distinct (appendUnique xs v)"
  "v \<notin> set xs \<Longrightarrow> appendUnique xs v = xs @ [v]"
  by (auto simp: appendUnique_def)

lemma applyPrefixed_cases:
  assumes "lower_lib ul" "sha_lib sha" "applyPrefixed sha ul cs raw rule u = Some (Inr u')"
  obtains (add) h where "hash_form h" "u' = u\<lparr>passwords := appendUnique (passwords u) h, nopass := False\<rparr>"
    | (remove) h where "u' = u\<lparr>passwords := removeString (passwords u) h\<rparr>"
    | (key) p where "raw = 126 # p" "u' = u\<lparr>keyPatterns := appendUnique (keyPatterns u) p\<rparr>"
    | (channel) p where "raw = 38 # p" "u' = u\<lparr>channelPatterns := appendUnique (channelPatterns u) p\<rparr>"
    | (command) al rs where "u' = u\<lparr>allowed := al, rules := rs\<rparr>"
proof -
  obtain c p where raw: "raw = c # p"
    using assms(3) by (cases raw) (auto simp: applyPrefixed_def lst_nth_def bind_eq_Some_conv)
  consider "c = 62" | "c = 60" | "c = 35" | "c = 33" | "c = 126" | "c = 38" | "c = Plus \<or> c = Minus"
    using assms(3) raw by (auto simp: applyPrefixed_def lst_nth_def split: if_splits)
  then show thesis
  proof cases
    case 1
    then have "u' = u\<lparr>passwords := appendUnique (passwords u) (hashPassword sha p), nopass := False\<rparr>"
      using assms(3) raw by (simp add: applyPrefixed_def lst_nth_def)
    then show thesis by (rule add[OF hashPassword_form[OF assms(2)]])
  next
    case 3
    then show thesis using add[OF normaliseHash_form[OF assms(1)]] assms(3) raw
      by (simp add: applyPrefixed_def lst_nth_def split: sum.splits)
  next
    case 7
    then have "applyCommandRule cs rule u = Some (Inr u')" using assms(3) raw by (auto simp: applyPrefixed_def lst_nth_def)
    then show thesis using applyCommandRule_keeps command by blast
  qed (use assms(3) raw remove key channel in \<open>auto simp: applyPrefixed_def lst_nth_def split: sum.splits\<close>)
qed

lemma applyOne_passwords:
  assumes "lower_lib ul" "sha_lib sha" "applyOne sha ul cs raw u = Some (Inr u')" "passwords_ok u"
  shows "passwords_ok u'"
proof (cases "applyWord (ToLower ul raw) u")
  case None
  then have "applyPrefixed sha ul cs raw (ToLower ul raw) u = Some (Inr u')" using assms(3) by (simp add: applyOne_def)
  from assms(1,2) this show ?thesis
    by (rule applyPrefixed_cases) (use assms(4) in \<open>auto simp: passwords_ok_def removeString_def\<close>)
qed (use assms applyWord_passwords in \<open>auto simp: applyOne_def\<close>)

lemma applyOne_patterns:
  assumes "lower_lib ul" "sha_lib sha" "applyOne sha ul cs raw u = Some (Inr u')"
    "patterns_ok (keyPatterns u)" "patterns_ok (channelPatterns u)"
  shows "patterns_ok (keyPatterns u') \<and> patterns_ok (channelPatterns u')"
proof (cases "applyWord (ToLower ul raw) u")
  case None
  then have ap: "applyPrefixed sha ul cs raw (ToLower ul raw) u = Some (Inr u')" using assms(3) by (simp add: applyOne_def)
  have "raw \<noteq> [126, Star]" "raw \<noteq> [38, Star]"
    using None by (auto simp: applyWord_None plain_words_def lit_def ToLower_def is_ascii_def lower_byte_def)
  note ne = this
  from assms(1,2) ap show ?thesis
    by (rule applyPrefixed_cases) (use ne assms(4,5) in \<open>auto simp: patterns_ok_def\<close>)
qed (use assms applyWord_patterns in \<open>auto simp: applyOne_def\<close>)

lemma applyOne_ok:
  assumes lib: "lower_lib ul" "sha_lib sha" "facts_ok cs" and ok: "user_ok sha ul cs u"
    and ap: "applyOne sha ul cs raw u = Some (Inr u')"
  shows "user_ok sha ul cs u'"
proof -
  let ?rule = "ToLower ul raw"
  have dm: "dom (allowed u) = cmd_names cs" using ok by (simp add: user_ok_def)
  have "replays sha ul cs u' \<and> (\<forall>r \<in> set (rules u'). 32 \<notin> set r)"
  proof -
    consider (word) "?rule \<in> command_words" | (plain) "?rule \<notin> command_words" "\<not> signed ?rule"
      | (command) c what where "?rule = c # what" "c = Plus \<or> c = Minus" "?rule \<notin> command_words"
      by (cases ?rule) (auto simp: signed_def)
    then show ?thesis
    proof cases
      case word
      then show ?thesis by (rule replays_words[OF dm _ ap])
    next
      case plain
      then show ?thesis
        using applyOne_unsigned[OF lib(1) _ ap] ok
        by (simp add: user_ok_def replays_def)
    next
      case (command c what)
      then have "applyCommandRule cs (c # what) u = Some (Inr u')"
        using applyOne_signed[OF lib(1) command(3) ap] by (simp add: signed_def)
      moreover have "replays sha ul cs u" "\<forall>r \<in> set (rules u). 32 \<notin> set r" using ok by (auto simp: user_ok_def)
      moreover have "c # what \<notin> command_words" using command(1,3) by simp
      ultimately show ?thesis using replays_command[OF lib(3) dm _ _ command(2)] by blast
    qed
  qed
  moreover have "dom (allowed u') = cmd_names cs" using applyOne_decides[OF lib(1) dm ap] by simp
  moreover have "(nopass u' \<longrightarrow> passwords u' = []) \<and> distinct (passwords u') \<and> (\<forall>h \<in> set (passwords u'). hash_form h)"
    using applyOne_passwords[OF lib(1,2) ap] ok by (simp add: user_ok_def passwords_ok_def)
  moreover have "patterns_ok (keyPatterns u') \<and> patterns_ok (channelPatterns u')"
    using applyOne_patterns[OF lib(1,2) ap] ok by (simp add: user_ok_def)
  ultimately show ?thesis by (simp add: user_ok_def)
qed


lemma apply_rules_ok:
  assumes "lower_lib ul" "sha_lib sha" "facts_ok cs" "user_ok sha ul cs u" "apply_rules sha ul cs rs u = Some (Inr u')"
  shows "user_ok sha ul cs u'"
  using assms(4,5)
proof (induction rs arbitrary: u)
  case (Cons r rs)
  then show ?case using applyOne_ok[OF assms(1-3)] by (auto split: option.splits sum.splits)
qed simp

lemma newUser_ok: "user_ok sha ul cs (newUser cs nm)"
proof -
  have "dom (allowed (newUser cs nm)) = cmd_names cs" by (auto simp: newUser_allowed none_allowed_def split: if_splits)
  then show ?thesis by (simp add: user_ok_def replays_def newUser_allowed patterns_ok_def) (simp add: newUser_def)
qed


subsection \<open>A description gives the user back\<close>

lemma applyWord_hash: "applyWord (35 # h) u = None"
  by (simp add: applyWord_def lit_def)

lemma applyWord_pattern: "s \<noteq> [Star] \<Longrightarrow> applyWord (126 # s) u = None" "s \<noteq> [Star] \<Longrightarrow> applyWord (38 # s) u = None"
  by (simp_all add: applyWord_def lit_def)

lemma applyOne_hash:
  "lower_lib ul \<Longrightarrow> hash_form h \<Longrightarrow>
   applyOne sha ul cs (35 # h) u = Some (Inr (u\<lparr>passwords := appendUnique (passwords u) h, nopass := False\<rparr>))"
  by (simp add: applyOne_def ToLower_Cons lower_byte_def ToLower_quiet hash_form_def applyWord_hash applyPrefixed_def lst_nth_def
        normaliseHash_def)

lemma ToLower_not_star: "lower_lib ul \<Longrightarrow> s \<noteq> [Star] \<Longrightarrow> ToLower ul s \<noteq> [Star]"
  using ToLower_star by blast

lemma applyOne_key:
  "lower_lib ul \<Longrightarrow> p \<noteq> [Star] \<Longrightarrow>
   applyOne sha ul cs (126 # p) u = Some (Inr (u\<lparr>keyPatterns := appendUnique (keyPatterns u) p\<rparr>))"
  by (simp add: applyOne_def ToLower_Cons lower_byte_def ToLower_not_star applyWord_pattern applyPrefixed_def lst_nth_def)

lemma applyOne_channel:
  "lower_lib ul \<Longrightarrow> p \<noteq> [Star] \<Longrightarrow>
   applyOne sha ul cs (38 # p) u = Some (Inr (u\<lparr>channelPatterns := appendUnique (channelPatterns u) p\<rparr>))"
  by (simp add: applyOne_def ToLower_Cons lower_byte_def ToLower_not_star applyWord_pattern applyPrefixed_def lst_nth_def)

lemma apply_hashes:
  "lower_lib ul \<Longrightarrow> \<not> nopass u \<Longrightarrow> distinct (passwords u @ hs) \<Longrightarrow> \<forall>h \<in> set hs. hash_form h \<Longrightarrow>
   apply_rules sha ul cs (map (\<lambda>h. lit ''#'' @ h) hs) u = Some (Inr (u\<lparr>passwords := passwords u @ hs\<rparr>))"
  by (induction hs arbitrary: u) (auto simp: lit_def applyOne_hash)

lemma apply_keys:
  "lower_lib ul \<Longrightarrow> patterns_ok (keyPatterns u @ ps) \<Longrightarrow>
   apply_rules sha ul cs (map (\<lambda>p. lit ''~'' @ p) ps) u = Some (Inr (u\<lparr>keyPatterns := keyPatterns u @ ps\<rparr>))"
  by (induction ps arbitrary: u) (auto simp: lit_def applyOne_key patterns_ok_def)

lemma apply_channels:
  "lower_lib ul \<Longrightarrow> patterns_ok (channelPatterns u @ ps) \<Longrightarrow>
   apply_rules sha ul cs (map (\<lambda>p. lit ''&'' @ p) ps) u = Some (Inr (u\<lparr>channelPatterns := channelPatterns u @ ps\<rparr>))"
  by (induction ps arbitrary: u) (auto simp: lit_def applyOne_channel patterns_ok_def)

lemma applyOne_words_eval:
  "applyOne sha ul cs (lit ''on'') u = Some (Inr (u\<lparr>enabled := True\<rparr>))"
  "applyOne sha ul cs (lit ''off'') u = Some (Inr (u\<lparr>enabled := False\<rparr>))"
  "applyOne sha ul cs (lit ''nopass'') u = Some (Inr (u\<lparr>nopass := True, passwords := []\<rparr>))"
  "applyOne sha ul cs (lit ''~*'') u = Some (Inr (u\<lparr>allKeys := True, keyPatterns := []\<rparr>))"
  "applyOne sha ul cs (lit ''&*'') u = Some (Inr (u\<lparr>allChannels := True, channelPatterns := []\<rparr>))"
  "applyOne sha ul cs (lit ''+@all'') u = Some (Inr ((setAll True u)\<lparr>rules := [lit ''+@all'']\<rparr>))"
  "applyOne sha ul cs (lit ''-@all'') u = Some (Inr ((setAll False u)\<lparr>rules := [lit ''-@all'']\<rparr>))"
  by (simp_all add: applyOne_def ToLower_def is_ascii_def lower_byte_def lit_def applyWord_def)

text \<open>The user a description stands for: an empty rule list is written as \<open>-@all\<close>.\<close>

definition described :: "User \<Rightarrow> User" where
  "described u = u\<lparr>rules := (if rules u = [] then [lit ''-@all''] else rules u)\<rparr>"

lemma setAll_none: "allowed v = none_allowed cs \<Longrightarrow> setAll False v = v"
proof -
  assume "allowed v = none_allowed cs"
  then have "(\<lambda>k. map_option (\<lambda>_. False) (allowed v k)) = allowed v" by (auto simp: none_allowed_def fun_eq_iff)
  then show ?thesis by (simp add: setAll_def)
qed

lemma apply_rule_part:
  assumes "user_ok sha ul cs u" "allowed v = none_allowed cs" "rules v = []"
  shows "apply_rules sha ul cs (if length (rules u) = 0 then [lit ''-@all''] else rules u) v =
    Some (Inr (v\<lparr>allowed := allowed u, rules := rules (described u)\<rparr>))"
proof -
  have v: "v = v\<lparr>allowed := none_allowed cs, rules := []\<rparr>" using assms(2,3) by simp
  have r: "replays sha ul cs u" using assms(1) by (simp add: user_ok_def)
  show ?thesis
  proof (cases "rules u = []")
    case True
    have "allowed u = none_allowed cs"
    proof -
      have "v\<lparr>allowed := none_allowed cs, rules := []\<rparr> = v\<lparr>allowed := allowed u, rules := []\<rparr>"
        using r True by (simp add: replays_def)
      then have "allowed (v\<lparr>allowed := none_allowed cs, rules := []\<rparr>) = allowed (v\<lparr>allowed := allowed u, rules := []\<rparr>)"
        by (rule arg_cong)
      then show ?thesis by simp
    qed
    moreover have "setAll False v = v" using setAll_none assms(2) by blast
    ultimately show ?thesis using True assms(2) by (simp add: applyOne_words_eval described_def)
  next
    case False
    then show ?thesis using r v by (simp add: replays_def described_def) metis
  qed
qed

lemma describe_parts_roundtrip:
  assumes lib: "lower_lib ul" and ok: "user_ok sha ul cs u"
  shows "apply_rules sha ul cs (describe_parts u) (newUser cs (u_Name u)) = Some (Inr (described u))"
proof -
  let ?n = "newUser cs (u_Name u)"
  have p: "passwords_ok u" "patterns_ok (keyPatterns u)" "patterns_ok (channelPatterns u)"
    using ok by (auto simp: user_ok_def passwords_ok_def)
  define u1 where "u1 = ?n\<lparr>enabled := enabled u, nopass := nopass u, passwords := passwords u\<rparr>"
  define u2 where "u2 = u1\<lparr>allKeys := allKeys u, keyPatterns := keyPatterns u\<rparr>"
  define u3 where "u3 = u2\<lparr>allChannels := allChannels u, channelPatterns := channelPatterns u\<rparr>"
  have n: "allowed ?n = none_allowed cs" "\<not> nopass ?n" "passwords ?n = []" "rules ?n = []" "\<not> allKeys ?n" "keyPatterns ?n = []"
    "\<not> allChannels ?n" "channelPatterns ?n = []" "u_Name ?n = u_Name u" "enabled ?n = False"
    by (rule newUser_allowed) (simp_all add: newUser_def)
  have 1: "apply_rules sha ul cs ([if enabled u then lit ''on'' else lit ''off''] @ (if nopass u then [lit ''nopass''] else []) @
      map (\<lambda>h. lit ''#'' @ h) (passwords u)) ?n = Some (Inr u1)"
    using p(1) n
    by (cases "nopass u"; cases "enabled u")
       (auto simp: apply_rules_append applyOne_words_eval apply_hashes[OF lib] passwords_ok_def u1_def)
  have 2: "apply_rules sha ul cs ((if allKeys u then [lit ''~*''] else []) @ map (\<lambda>p. lit ''~'' @ p) (keyPatterns u)) u1 =
      Some (Inr u2)"
    using p(2) n by (auto simp: apply_rules_append applyOne_words_eval apply_keys[OF lib] u1_def u2_def)
  have 3: "apply_rules sha ul cs ((if allChannels u then [lit ''&*''] else []) @ map (\<lambda>p. lit ''&'' @ p) (channelPatterns u)) u2 =
      Some (Inr u3)"
    using p(3) n by (auto simp: apply_rules_append applyOne_words_eval apply_channels[OF lib] u1_def u2_def u3_def)
  have 4: "u3\<lparr>allowed := allowed u, rules := rules (described u)\<rparr> = described u"
    using n by (simp add: u1_def u2_def u3_def described_def)
  have "allowed u3 = none_allowed cs" "rules u3 = []" using n by (simp_all add: u1_def u2_def u3_def)
  from apply_rule_part[OF ok this]
  have "apply_rules sha ul cs (([if enabled u then lit ''on'' else lit ''off''] @ (if nopass u then [lit ''nopass''] else []) @
      map (\<lambda>h. lit ''#'' @ h) (passwords u)) @
      ((if allKeys u then [lit ''~*''] else []) @ map (\<lambda>p. lit ''~'' @ p) (keyPatterns u)) @
      ((if allChannels u then [lit ''&*''] else []) @ map (\<lambda>p. lit ''&'' @ p) (channelPatterns u)) @
      (if length (rules u) = 0 then [lit ''-@all''] else rules u)) ?n = Some (Inr (described u))"
    unfolding apply_rules_append[of sha ul cs "_ @ _"] 1 2 3 4 by (simp add: 2 3 4)
  then show ?thesis by (simp add: describe_parts_def)
qed


fun split_sp :: "bytes \<Rightarrow> bytes \<Rightarrow> bytes list" where
  "split_sp acc [] = [acc]"
| "split_sp acc (c # s) = (if c = 32 then acc # split_sp [] s else split_sp (acc @ [c]) s)"

lemma split_sp_word: "32 \<notin> set w \<Longrightarrow> split_sp acc (w @ s) = split_sp (acc @ w) s"
  by (induction w arbitrary: acc) auto

lemma split_join: "ws \<noteq> [] \<Longrightarrow> \<forall>w \<in> set ws. 32 \<notin> set w \<Longrightarrow> split_sp [] (join_sp ws) = ws"
proof (induction ws rule: join_sp.induct)
  case (2 x)
  then show ?case using split_sp_word[of x "[]" "[]"] by simp
qed (simp_all add: split_sp_word)

subsection \<open>Runs of the registry\<close>

datatype acl_op = OpSetUser bytes "bytes list" | OpDelUser "bytes list" | OpDefaultPassword bytes

fun acl_step :: "(bytes \<Rightarrow> bytes) \<Rightarrow> unicode \<Rightarrow> acl_op \<Rightarrow> ACL \<Rightarrow> ACL go" where
  "acl_step sha ul (OpSetUser name rs) a = map_option fst (SetUser sha ul name rs a)"
| "acl_step sha ul (OpDelUser ns) a = Some (fst (DelUser ns 0 a))"
| "acl_step sha ul (OpDefaultPassword pw) a = Some (SetDefaultPassword sha pw a)"

fun acl_run :: "(bytes \<Rightarrow> bytes) \<Rightarrow> unicode \<Rightarrow> acl_op list \<Rightarrow> ACL \<Rightarrow> ACL go" where
  "acl_run sha ul [] a = Some a"
| "acl_run sha ul (op # ops) a = (case acl_step sha ul op a of None \<Rightarrow> None | Some a' \<Rightarrow> acl_run sha ul ops a')"

definition acl_ok :: "(bytes \<Rightarrow> bytes) \<Rightarrow> unicode \<Rightarrow> ACL \<Rightarrow> bool" where
  "acl_ok sha ul a \<longleftrightarrow> users a (lit ''default'') \<noteq> None \<and>
     (\<forall>nm u. users a nm = Some u \<longrightarrow> u_Name u = nm \<and> user_ok sha ul (acl_commands a) u)"

lemma applyOne_name: "applyOne sha ul cs raw u = Some (Inr u') \<Longrightarrow> lower_lib ul \<Longrightarrow> sha_lib sha \<Longrightarrow> u_Name u' = u_Name u"
proof (cases "applyWord (ToLower ul raw) u")
  case None
  assume a: "applyOne sha ul cs raw u = Some (Inr u')" "lower_lib ul" "sha_lib sha"
  then have "applyPrefixed sha ul cs raw (ToLower ul raw) u = Some (Inr u')" using None by (simp add: applyOne_def)
  from a(2,3) this show ?thesis by (rule applyPrefixed_cases) auto
next
  case (Some v)
  assume "applyOne sha ul cs raw u = Some (Inr u')"
  then show ?thesis using Some by (auto simp: applyOne_def applyWord_def setAll_def split: if_splits)
qed

lemma apply_rules_name:
  "lower_lib ul \<Longrightarrow> sha_lib sha \<Longrightarrow> apply_rules sha ul cs rs u = Some (Inr u') \<Longrightarrow> u_Name u' = u_Name u"
  by (induction rs arbitrary: u) (auto dest!: applyOne_name split: option.splits sum.splits)

lemma SetUser_ok:
  assumes "lower_lib ul" "sha_lib sha" "facts_ok (acl_commands a)" "acl_ok sha ul a" "SetUser sha ul name rs a = Some (a', err)"
  shows "acl_ok sha ul a' \<and> acl_commands a' = acl_commands a"
proof -
  let ?cs = "acl_commands a"
  define draft where "draft = (case users a name of Some existing \<Rightarrow> existing | None \<Rightarrow> newUser ?cs name)"
  have d: "user_ok sha ul ?cs draft" "u_Name draft = name"
    using assms(4) newUser_ok by (auto simp: draft_def acl_ok_def newUser_def split: option.splits)
  consider "a' = a" | u where "apply_rules sha ul ?cs rs draft = Some (Inr u)" "a' = a\<lparr>users := (users a)(name \<mapsto> u)\<rparr>"
    using assms(5) by (auto simp: SetUser_def Let_def draft_def split: option.splits sum.splits)
  then show ?thesis
  proof cases
    case 2
    then have "user_ok sha ul ?cs u" "u_Name u = name"
      using apply_rules_ok[OF assms(1-3) d(1)] apply_rules_name[OF assms(1,2)] d(2) by auto
    then show ?thesis using 2(2) assms(4) by (auto simp: acl_ok_def)
  qed (use assms(4) in simp)
qed

lemma DelUser_ok: "acl_ok sha ul a \<Longrightarrow> acl_ok sha ul (fst (DelUser ns n a)) \<and> acl_commands (fst (DelUser ns n a)) = acl_commands a"
proof (induction ns arbitrary: n a)
  case (Cons nm ns)
  have "acl_ok sha ul (a\<lparr>users := (users a)(nm := None)\<rparr>)" if "nm \<noteq> lit ''default''"
    using Cons.prems that by (auto simp: acl_ok_def)
  then show ?case using Cons.IH[OF Cons.prems] Cons.IH[of "a\<lparr>users := (users a)(nm := None)\<rparr>"] Cons.prems by auto
qed simp

lemma SetDefaultPassword_ok:
  assumes "sha_lib sha" "acl_ok sha ul a"
  shows "acl_ok sha ul (SetDefaultPassword sha pw a) \<and> acl_commands (SetDefaultPassword sha pw a) = acl_commands a"
  using assms hashPassword_form[OF assms(1), of pw]
  by (auto simp: SetDefaultPassword_def acl_ok_def user_ok_def replays_def Let_def split: option.splits)

lemma acl_step_ok:
  assumes "lower_lib ul" "sha_lib sha" "facts_ok (acl_commands a)" "acl_ok sha ul a" "acl_step sha ul op a = Some a'"
  shows "acl_ok sha ul a' \<and> acl_commands a' = acl_commands a"
  using assms SetUser_ok[OF assms(1-4)] DelUser_ok[OF assms(4)] SetDefaultPassword_ok[OF assms(2,4)]
  by (cases op) auto

lemma acl_run_ok:
  assumes "lower_lib ul" "sha_lib sha"
  shows "facts_ok (acl_commands a) \<Longrightarrow> acl_ok sha ul a \<Longrightarrow> acl_run sha ul ops a = Some a' \<Longrightarrow>
    acl_ok sha ul a' \<and> acl_commands a' = acl_commands a"
proof (induction ops arbitrary: a)
  case (Cons op ops)
  then obtain b where b: "acl_step sha ul op a = Some b" "acl_run sha ul ops b = Some a'" by (auto split: option.splits)
  have "acl_ok sha ul b \<and> acl_commands b = acl_commands a" by (rule acl_step_ok[OF assms Cons.prems(1,2) b(1)])
  then show ?case using Cons.IH[of b] Cons.prems(1) b(2) by simp
qed simp


definition table_plain :: "'h Table \<Rightarrow> bool" where
  "table_plain t \<longleftrightarrow> (\<forall>d \<in> set (allCommandsOf t). is_ascii (d_fullName d) \<and> 32 \<notin> set (d_fullName d) \<and>
     (\<forall>cat \<in> set (d_Categories d). quiet cat \<and> 32 \<notin> set cat))"

lemma lower_byte_space: "lower_byte c = 32 \<Longrightarrow> c = 32"
  by (auto simp: lower_byte_def word_le_nat_alt unat_word_ariths word_unat_eq_iff split: if_splits)

lemma NewACL_ok:
  assumes "lower_lib ul" "sha_lib sha" "table_plain t"
  shows "\<exists>a. NewACL sha ul t = Some a \<and> acl_ok sha ul a \<and> facts_ok (acl_commands a)"
proof -
  define cs where "cs = map (\<lambda>d. \<lparr>cf_name = ToLower ul (d_fullName d), cf_categories = d_Categories d\<rparr>) (allCommandsOf t)"
  let ?rs = "[lit ''on'', lit ''nopass'', lit ''~*'', lit ''&*'', lit ''+@all'']"
  have f: "facts_ok cs"
    using assms(3) lower_byte_space
    by (fastforce simp: facts_ok_def cs_def table_plain_def ToLower_def quiet_def is_ascii_def list_all_iff lower_lower_byte
        lower_byte_ascii)
  obtain u where u: "apply_rules sha ul cs ?rs (newUser cs (lit ''default'')) = Some (Inr u)"
    by (simp add: applyOne_words_eval)
  have "user_ok sha ul cs u" "u_Name u = lit ''default''"
    using apply_rules_ok[OF assms(1,2) f newUser_ok u] apply_rules_name[OF assms(1,2) u] by (simp_all add: newUser_def)
  then show ?thesis using u f by (auto simp: NewACL_def Let_def cs_def[symmetric] acl_ok_def)
qed

lemma describe_no_space:
  assumes "user_ok sha ul cs u" "\<forall>p \<in> set (keyPatterns u) \<union> set (channelPatterns u). 32 \<notin> set p"
  shows "\<forall>w \<in> set (describe_parts u). 32 \<notin> set w"
  using assms by (auto simp: describe_parts_def user_ok_def lit_def hash_form_def split: if_splits)

text \<open>C21: What \<open>ACL LIST\<close> shows of a user is enough to make the user again. After any run of user
  changes on a new registry, splitting the line of a user at its spaces and applying the words to a fresh
  user gives the same user: enabled or not, passwords, commands, keys and channels. Patterns must not
  contain spaces.\<close>

theorem acl_list_roundtrip:
  assumes "lower_lib ul" "sha_lib sha" "table_plain t"
    and "NewACL sha ul t = Some a0" "acl_run sha ul ops a0 = Some a" "users a nm = Some u"
    and "\<forall>p \<in> set (keyPatterns u) \<union> set (channelPatterns u). 32 \<notin> set p"
  shows "apply_rules sha ul (acl_commands a) (split_sp [] (Describe u)) (newUser (acl_commands a) nm) = Some (Inr (described u))"
proof -
  have ok: "acl_ok sha ul a0" "facts_ok (acl_commands a0)" using NewACL_ok[OF assms(1-3)] assms(4) by auto
  then have "acl_ok sha ul a" using acl_run_ok[OF assms(1,2)] assms(5) by blast
  then have u: "user_ok sha ul (acl_commands a) u" "u_Name u = nm" using assms(6) by (auto simp: acl_ok_def)
  have "split_sp [] (Describe u) = describe_parts u"
    unfolding Describe_def by (rule split_join[OF _ describe_no_space[OF u(1) assms(7)]]) (simp add: describe_parts_def)
  then show ?thesis using describe_parts_roundtrip[OF assms(1) u(1)] u(2) by simp
qed

definition wit_sha :: "bytes \<Rightarrow> bytes" where "wit_sha p = replicate 32 7"

definition wit_table :: "nat Table" where
  "wit_table = \<lparr>byName = Map.empty, t_all = [get_descriptor], disabled = {}\<rparr>"

definition wit_rules :: "bytes list" where
  "wit_rules = [lit ''on'', lit ''+@read'', lit ''~k*'', lit ''-GET'']"

lemma lower_byte_star: "lower_byte c = Star \<Longrightarrow> c = Star"
  by (auto simp: lower_byte_def word_le_nat_alt unat_word_ariths word_unat_eq_iff split: if_splits)

lemma wit_libs: "lower_lib plain_unicode" "sha_lib wit_sha" "table_plain wit_table"
proof -
  show "lower_lib plain_unicode"
    by (auto simp: lower_lib_def plain_unicode_def is_ascii_def lower_lower_byte dest!: lower_byte_star)
  show "sha_lib wit_sha" by (simp add: sha_lib_def wit_sha_def)
  show "table_plain wit_table"
    by (simp add: table_plain_def wit_table_def allCommandsOf_def get_descriptor_def lit_def quiet_def is_ascii_def lower_byte_def)
qed

lemma wit_runs:
  obtains a0 a u where "NewACL wit_sha plain_unicode wit_table = Some a0"
    "acl_run wit_sha plain_unicode [OpSetUser (lit ''b'') wit_rules] a0 = Some a"
    "users a0 (lit ''b'') = None" "users a (lit ''b'') = Some u" "keyPatterns u = [lit ''k*'']" "channelPatterns u = []"
    "acl_commands a = [\<lparr>cf_name = lit ''get'', cf_categories = [lit ''read'']\<rparr>]" "acl_commands a0 = acl_commands a"
    "SetUser wit_sha plain_unicode (lit ''b'') wit_rules a0 = Some (a, None)"
    "allowed u (lit ''get'') = Some False"
proof -
  have "\<exists>a0 a u. NewACL wit_sha plain_unicode wit_table = Some a0 \<and>
    SetUser wit_sha plain_unicode (lit ''b'') wit_rules a0 = Some (a, None) \<and>
    users a0 (lit ''b'') = None \<and> users a (lit ''b'') = Some u \<and> keyPatterns u = [lit ''k*''] \<and> channelPatterns u = [] \<and>
    acl_commands a = [\<lparr>cf_name = lit ''get'', cf_categories = [lit ''read'']\<rparr>] \<and> acl_commands a0 = acl_commands a \<and>
    allowed u (lit ''get'') = Some False"
    by (simp add: NewACL_def SetUser_def wit_table_def wit_rules_def allCommandsOf_def get_descriptor_def applyOne_def
        applyWord_def applyPrefixed_def applyCommandRule_def lst_nth_def ToLower_def is_ascii_def lower_byte_def lit_def
        newUser_def setAll_def appendUnique_def Let_def)
  then show thesis using that by force
qed

theorem acl_list_roundtrip_witness:
  "\<exists>(a :: ACL) u. users a (lit ''b'') = Some u \<and> acl_commands a \<noteq> [] \<and> keyPatterns u = [lit ''k*''] \<and>
     apply_rules wit_sha plain_unicode (acl_commands a) (split_sp [] (Describe u)) (newUser (acl_commands a) (lit ''b'')) =
       Some (Inr (described u))"
proof -
  obtain a0 a u where w: "NewACL wit_sha plain_unicode wit_table = Some a0"
    "acl_run wit_sha plain_unicode [OpSetUser (lit ''b'') wit_rules] a0 = Some a" "users a (lit ''b'') = Some u"
    "keyPatterns u = [lit ''k*'']" "channelPatterns u = []"
    "acl_commands a = [\<lparr>cf_name = lit ''get'', cf_categories = [lit ''read'']\<rparr>]"
    by (rule wit_runs) blast
  have "\<forall>p \<in> set (keyPatterns u) \<union> set (channelPatterns u). 32 \<notin> set p" using w(4,5) by (simp add: lit_def)
  from acl_list_roundtrip[OF wit_libs w(1-3) this] have "users a (lit ''b'') = Some u \<and> acl_commands a \<noteq> [] \<and> keyPatterns u = [lit ''k*''] \<and>
     apply_rules wit_sha plain_unicode (acl_commands a) (split_sp [] (Describe u)) (newUser (acl_commands a) (lit ''b'')) =
       Some (Inr (described u))" using w(3,4,6) by simp
  then show ?thesis by blast
qed

text \<open>C22: The order of rules is the grammar of access lists: when \<open>SetUser\<close> accepts a list of rules, a
  command is permitted exactly as the last rule that names it says, by name, by container or by category,
  and as before when no rule names it; a command of a user that did not exist starts refused. When it does
  not accept the list nothing of the registry changes.\<close>

theorem setuser_last_rule_decides:
  assumes "lower_lib ul" "sha_lib sha" "table_plain t"
    and "NewACL sha ul t = Some a0" "acl_run sha ul ops a0 = Some a"
    and "SetUser sha ul nm rs a = Some (a', err)"
  shows "(err = None \<longrightarrow> (\<exists>u. users a' nm = Some u \<and> (\<forall>n \<in> cmd_names (acl_commands a).
            allowed u n = decided (case users a nm of None \<Rightarrow> Some False | Some old \<Rightarrow> allowed old n)
              (last_decision ul (acl_commands a) rs n))) \<and> (\<forall>other. other \<noteq> nm \<longrightarrow> users a' other = users a other)) \<and>
    (err \<noteq> None \<longrightarrow> a' = a)"
proof -
  have ok: "acl_ok sha ul a0" "facts_ok (acl_commands a0)" using NewACL_ok[OF assms(1-3)] assms(4) by auto
  then have a: "acl_ok sha ul a" using acl_run_ok[OF assms(1,2)] assms(5) by blast
  let ?cs = "acl_commands a"
  define draft where "draft = (case users a nm of Some existing \<Rightarrow> existing | None \<Rightarrow> newUser ?cs nm)"
  have d: "dom (allowed draft) = cmd_names ?cs"
    using a newUser_ok[of sha ul ?cs nm] by (auto simp: draft_def acl_ok_def user_ok_def split: option.splits)
  have al: "n \<in> cmd_names ?cs \<Longrightarrow> allowed draft n = (case users a nm of None \<Rightarrow> Some False | Some old \<Rightarrow> allowed old n)" for n
    by (simp add: draft_def newUser_allowed none_allowed_def split: option.split)
  consider e where "err = Some e" "a' = a"
    | u where "apply_rules sha ul ?cs rs draft = Some (Inr u)" "a' = a\<lparr>users := (users a)(nm \<mapsto> u)\<rparr>" "err = None"
    using assms(6) by (auto simp: SetUser_def Let_def draft_def split: option.splits sum.splits)
  then show ?thesis
  proof cases
    case 2
    then show ?thesis using apply_rules_decides[OF assms(1) d 2(1)] al by simp
  qed simp
qed

theorem setuser_last_rule_decides_witness:
  "\<exists>(a' :: ACL) u. users a' (lit ''b'') = Some u \<and> allowed u (lit ''get'') = Some False \<and>
     last_decision plain_unicode [\<lparr>cf_name = lit ''get'', cf_categories = [lit ''read'']\<rparr>] wit_rules (lit ''get'') = Some False"
proof -
  let ?cs = "[\<lparr>cf_name = lit ''get'', cf_categories = [lit ''read'']\<rparr>]"
  obtain a0 a where w: "NewACL wit_sha plain_unicode wit_table = Some a0" "acl_commands a = ?cs" "acl_commands a0 = acl_commands a"
    "SetUser wit_sha plain_unicode (lit ''b'') wit_rules a0 = Some (a, None)"
    by (rule wit_runs) blast
  have l: "last_decision plain_unicode ?cs wit_rules (lit ''get'') = Some False"
    by (simp add: wit_rules_def decides_def ToLower_def is_ascii_def lower_byte_def lit_def covers_def cmd_names_def)
  have "acl_run wit_sha plain_unicode [] a0 = Some a0" by simp
  from setuser_last_rule_decides[OF wit_libs w(1) this w(4)] l w(2,3)
  obtain u where "users a (lit ''b'') = Some u" "allowed u (lit ''get'') = Some False"
    by (auto simp: cmd_names_def decided_def)
  with l show ?thesis by blast
qed

text \<open>An empty rule brings the server down: \<open>ACL SETUSER bob\<close> with an empty argument reaches
  \<open>raw[0]\<close>, whatever the registry and whatever the user.\<close>

theorem empty_acl_rule_panics:
  assumes "\<not> list_ex (\<lambda>c. c \<in> {32, LF, CR}) nm"
  shows "cmdACLSetUser sha ul [lit ''ACL'', lit ''SETUSER'', nm, []] a = None"
proof -
  have "applyOne sha ul cs [] u = None" for cs u
    by (simp add: applyOne_def ToLower_def is_ascii_def applyWord_def lit_def applyPrefixed_def lst_nth_def)
  then show ?thesis using assms by (simp add: cmdACLSetUser_def arg_at_def SetUser_def Let_def)
qed


theorem empty_acl_rule_panics_witness:
  "cmdACLSetUser wit_sha plain_unicode [lit ''ACL'', lit ''SETUSER'', lit ''bob'', []] \<lparr>users = Map.empty, acl_commands = []\<rparr> = None"
  by (rule empty_acl_rule_panics) (simp add: lit_def)

end
