(* ===== verification/Registry.thy ===== *)
theory Registry
  imports Kestrel_Prelude "HOL-Library.AList"
begin

text \<open>
  The shape that the subscription registry, the watch registry and the registry of blocked clients
  share: a Go map from a topic to the set of parties interested in it, from which a topic disappears
  with its last party. A Go map is an association list with distinct keys and a Go set is a list
  without repetitions; their order stands for the order in which the runtime iterates, which the
  language leaves open. The locale \<open>subscription\<close> states what the registry and the sets the
  parties keep themselves promise together.
\<close>

type_synonym ('k, 'c) registry = "('k \<times> 'c list) list"

definition reg_get :: "('k, 'c) registry \<Rightarrow> 'k \<Rightarrow> 'c list" where
  "reg_get m k = (case map_of m k of None \<Rightarrow> [] | Some s \<Rightarrow> s)"

text \<open>\<open>set[c] = struct{}{}\<close>, with the set made when the key is new.\<close>

definition set_add :: "'c \<Rightarrow> 'c list \<Rightarrow> 'c list" where
  "set_add c s = (if c \<in> set s then s else c # s)"

definition reg_add :: "'k \<Rightarrow> 'c \<Rightarrow> ('k, 'c) registry \<Rightarrow> ('k, 'c) registry" where
  "reg_add k c m = AList.update k (set_add c (reg_get m k)) m"

text \<open>\<open>delete(set, c)\<close>, and the key with it when that was the last.\<close>

definition reg_del :: "'k \<Rightarrow> 'c \<Rightarrow> ('k, 'c) registry \<Rightarrow> ('k, 'c) registry" where
  "reg_del k c m =
     (case map_of m k of
        None \<Rightarrow> m
      | Some s \<Rightarrow> (let s' = removeAll c s in if length s' = 0 then AList.delete k m else AList.update k s' m))"

definition reg_ok :: "('k, 'c) registry \<Rightarrow> bool" where
  "reg_ok m \<longleftrightarrow> distinct (map fst m) \<and> (\<forall>(k, s) \<in> set m. s \<noteq> [] \<and> distinct s)"

lemma reg_ok_Nil [simp]: "reg_ok []"
  by (simp add: reg_ok_def)

lemma set_add_simps [simp]: "set (set_add c s) = insert c (set s)" "distinct (set_add c s) \<longleftrightarrow> distinct s"
  "set_add c s \<noteq> []"
  by (auto simp: set_add_def)

lemma reg_get_add: "reg_get (reg_add k c m) k' = (if k' = k then set_add c (reg_get m k) else reg_get m k')"
  by (simp add: reg_get_def reg_add_def update_conv)

lemma reg_get_del: "reg_get (reg_del k c m) k' = (if k' = k then removeAll c (reg_get m k) else reg_get m k')"
  by (auto simp: reg_get_def reg_del_def update_conv delete_conv Let_def split: option.splits)

lemma reg_get_ok: "reg_ok m \<Longrightarrow> distinct (reg_get m k)"
  by (auto simp: reg_get_def reg_ok_def dest: map_of_SomeD split: option.splits)

lemma update_in: "x \<in> set (AList.update k v m) \<Longrightarrow> x = (k, v) \<or> x \<in> set m"
  by (induction m) (auto split: if_splits)

lemma delete_in: "x \<in> set (AList.delete k m) \<Longrightarrow> x \<in> set m"
  by (simp add: AList.delete_eq)

lemma reg_ok_update: "reg_ok m \<Longrightarrow> s \<noteq> [] \<Longrightarrow> distinct s \<Longrightarrow> reg_ok (AList.update k s m)"
  unfolding reg_ok_def by (auto simp: AList.distinct_update dest!: update_in)

lemma reg_ok_add: "reg_ok m \<Longrightarrow> reg_ok (reg_add k c m)"
  unfolding reg_add_def by (rule reg_ok_update) (simp_all add: reg_get_ok)

lemma reg_ok_del: "reg_ok m \<Longrightarrow> reg_ok (reg_del k c m)"
proof (cases "map_of m k")
  case (Some s)
  assume m: "reg_ok m"
  have "distinct s" using m Some by (auto simp: reg_ok_def dest: map_of_SomeD)
  moreover have "reg_ok (AList.delete k m)"
    using m unfolding reg_ok_def by (auto simp: AList.distinct_delete dest!: delete_in)
  ultimately show ?thesis using m Some by (auto simp: reg_del_def Let_def intro!: reg_ok_update distinct_removeAll)
qed (simp add: reg_del_def)

text \<open>A topic is in the map exactly when somebody is interested in it.\<close>

lemma reg_dom: "reg_ok m \<Longrightarrow> k \<in> fst ` set m \<longleftrightarrow> reg_get m k \<noteq> []"
proof
  assume m: "reg_ok m" and "k \<in> fst ` set m"
  then obtain s where "(k, s) \<in> set m" by auto
  moreover from this have "map_of m k = Some s" using m by (simp add: reg_ok_def map_of_is_SomeI)
  ultimately show "reg_get m k \<noteq> []" using m by (auto simp: reg_ok_def reg_get_def)
next
  assume "reg_ok m" "reg_get m k \<noteq> []"
  then show "k \<in> fst ` set m" by (auto simp: reg_get_def dest: map_of_SomeD intro: rev_image_eqI split: option.splits)
qed

text \<open>Dropping a list of topics of one party.\<close>

fun reg_del_all :: "'k list \<Rightarrow> 'c \<Rightarrow> ('k, 'c) registry \<Rightarrow> ('k, 'c) registry" where
  "reg_del_all [] c m = m"
| "reg_del_all (k # ks) c m = reg_del_all ks c (reg_del k c m)"

lemma reg_del_all_get: "set (reg_get (reg_del_all ks c m) k) = set (reg_get m k) - (if k \<in> set ks then {c} else {})"
  by (induction ks arbitrary: m) (auto simp: reg_get_del)

lemma reg_ok_del_all: "reg_ok m \<Longrightarrow> reg_ok (reg_del_all ks c m)"
  by (induction ks arbitrary: m) (simp_all add: reg_ok_del)

subsection \<open>The contract\<close>

text \<open>
  \<open>members s k\<close> are the parties the registry names for a topic, \<open>holds s c\<close> the topics a party
  believes it holds.
\<close>

locale subscription =
  fixes ok :: "'s \<Rightarrow> bool"
    and members :: "'s \<Rightarrow> 'k \<Rightarrow> 'c set"
    and holds :: "'s \<Rightarrow> 'c \<Rightarrow> 'k set"
    and topics :: "'s \<Rightarrow> 'k set"
    and join :: "'c \<Rightarrow> 'k \<Rightarrow> 's \<Rightarrow> 's"
    and leave :: "'c \<Rightarrow> 's \<Rightarrow> 's"
  assumes agree: "ok s \<Longrightarrow> c \<in> members s k \<longleftrightarrow> k \<in> holds s c"
    and topics_live: "ok s \<Longrightarrow> k \<in> topics s \<longleftrightarrow> members s k \<noteq> {}"
    and join_ok: "ok s \<Longrightarrow> ok (join c k s)"
    and join_holds: "ok s \<Longrightarrow> holds (join c k s) d = (if d = c then insert k (holds s c) else holds s d)"
    and leave_ok: "ok s \<Longrightarrow> ok (leave c s)"
    and leave_holds: "ok s \<Longrightarrow> holds (leave c s) d = (if d = c then {} else holds s d)"
begin

lemma members_join: "ok s \<Longrightarrow> members (join c k s) k' = (if k' = k then insert c (members s k) else members s k')"
  using agree[of s] agree[OF join_ok, of s] join_holds[of s] by (auto simp: set_eq_iff)

lemma members_leave: "ok s \<Longrightarrow> members (leave c s) k = members s k - {c}"
  using agree[of s] agree[OF leave_ok, of s] leave_holds[of s] by (auto simp: set_eq_iff)

lemma join_twice: "ok s \<Longrightarrow> members (join c k (join c k s)) = members (join c k s)"
  by (auto simp: members_join join_ok fun_eq_iff)

lemma topics_join: "ok s \<Longrightarrow> topics (join c k s) = insert k (topics s)"
  by (rule set_eqI) (simp add: topics_live join_ok members_join)

lemma topics_leave: "ok s \<Longrightarrow> topics (leave c s) = {k \<in> topics s. members s k \<noteq> {c}}"
  by (rule set_eqI) (auto simp: topics_live leave_ok members_leave)

lemma gone_after_leave: "ok s \<Longrightarrow> c \<notin> members (leave c s) k"
  by (simp add: members_leave)

end

end
