(* ===== verification/Client.thy ===== *)
theory Client
  imports ACL Registry
begin

text \<open>
  The connections of a server: the fields of \<open>Client\<close> (\<open>command/client.go\<close>) that the command
  layer reads or writes, and the front of the host, which holds all clients and the registries that
  name them. A client pointer is a number, the store \<open>f_clients\<close> maps it to the client. Fields
  that only \<open>CLIENT LIST\<close> or the idle timeout reads are left out. What a connection has been
  given to write is the list \<open>c_Out\<close>; the theory \<open>Resp_Writer\<close> turns it into bytes. The
  channel \<open>outbox\<close> is the list of the values queued in it.
\<close>

datatype out_item = OutValue resp_value | OutArrayHeader nat

type_synonym watchKey = "int \<times> bytes"

record client =
  c_Addr :: bytes
  c_ClientName :: bytes
  c_DBIndex :: int
  c_Authenticated :: bool
  c_User :: bytes
  c_Proto :: int
  c_Out :: "out_item list"
  c_CloseAfterReply :: bool
  c_channels :: "bytes list"
  c_patterns :: "bytes list"
  c_subCount :: int
  c_outbox :: "resp_value list"
  c_overflowed :: bool
  c_monitoring :: bool
  c_Perms :: "User option"
  c_inMulti :: bool
  c_multiAborted :: bool
  c_queue :: "bytes list list"
  c_watching :: "watchKey list"
  c_watchBroken :: bool
  c_inExec :: bool
  c_Replica :: bool

definition NewClient :: "bytes \<Rightarrow> bool \<Rightarrow> client" where
  "NewClient addr authenticated =
     \<lparr>c_Addr = addr, c_ClientName = [], c_DBIndex = 0, c_Authenticated = authenticated, c_User = lit ''default'',
      c_Proto = 2, c_Out = [], c_CloseAfterReply = False, c_channels = [], c_patterns = [], c_subCount = 0,
      c_outbox = [], c_overflowed = False, c_monitoring = False, c_Perms = None, c_inMulti = False,
      c_multiAborted = False, c_queue = [], c_watching = [], c_watchBroken = False, c_inExec = False,
      c_Replica = False\<rparr>"

record front =
  f_clients :: "nat \<Rightarrow> client"
  f_channels :: "(bytes, nat) registry"
  f_patterns :: "(bytes, nat) registry"
  f_watchers :: "(watchKey, nat) registry"
  f_monitors :: "nat list"

definition on_client :: "nat \<Rightarrow> (client \<Rightarrow> client) \<Rightarrow> 'a front_scheme \<Rightarrow> 'a front_scheme" where
  "on_client c f s = s\<lparr>f_clients := (f_clients s)(c := f (f_clients s c))\<rparr>"

lemma on_client_simps [simp]:
  "f_clients (on_client c f s) = (f_clients s)(c := f (f_clients s c))"
  "f_channels (on_client c f s) = f_channels s" "f_patterns (on_client c f s) = f_patterns s"
  "f_watchers (on_client c f s) = f_watchers s" "f_monitors (on_client c f s) = f_monitors s"
  by (simp_all add: on_client_def)

text \<open>\<open>cl.Out.WriteValue\<close>.\<close>

definition out_WriteValue :: "nat \<Rightarrow> resp_value \<Rightarrow> 'a front_scheme \<Rightarrow> 'a front_scheme" where
  "out_WriteValue c v = on_client c (\<lambda>cl. cl\<lparr>c_Out := c_Out cl @ [OutValue v]\<rparr>)"

subsection \<open>The delivery queue\<close>

definition outboxDepth :: nat where "outboxDepth = 1024"

definition deliver :: "nat \<Rightarrow> resp_value \<Rightarrow> 'a front_scheme \<Rightarrow> 'a front_scheme \<times> bool" where
  "deliver c v s =
     (if length (c_outbox (f_clients s c)) < outboxDepth
      then (on_client c (\<lambda>cl. cl\<lparr>c_outbox := c_outbox cl @ [v]\<rparr>) s, True)
      else (on_client c (\<lambda>cl. cl\<lparr>c_overflowed := True\<rparr>) s, False))"

text \<open>The loops that deliver one value to each client of a set, counting who took it.\<close>

fun deliver_all :: "resp_value \<Rightarrow> nat list \<Rightarrow> 'a front_scheme \<Rightarrow> 'a front_scheme \<times> nat" where
  "deliver_all v [] s = (s, 0)"
| "deliver_all v (c # cs) s =
     (case deliver c v s of (s1, ok) \<Rightarrow>
        case deliver_all v cs s1 of (s2, n) \<Rightarrow> (s2, (if ok then 1 else 0) + n))"

definition Subscribed :: "client \<Rightarrow> bool" where
  "Subscribed cl \<longleftrightarrow> c_subCount cl > 0"

definition NeedsPusher :: "client \<Rightarrow> bool" where
  "NeedsPusher cl \<longleftrightarrow> Subscribed cl \<or> c_monitoring cl"

end
