(* ===== verification/Pubsub.thy ===== *)
theory Pubsub
  imports Client
begin

text \<open>
  Publish/subscribe and MONITOR: \<open>command/pubsub.go\<close> and \<open>command/monitor.go\<close>. The
  registries of channels and patterns and the sets each client keeps are two views of the same
  subscriptions; both interpret the contract of \<open>Registry\<close>. What \<open>Publish\<close> does is proved
  against a reading per client: the messages it should get, as many as its queue has room for.
\<close>

subsection \<open>Subscribing\<close>

definition sub_total :: "client \<Rightarrow> int" where
  "sub_total cl = int (length (c_channels cl) + length (c_patterns cl))"

definition ps_Subscribe :: "nat \<Rightarrow> bytes \<Rightarrow> 'a front_scheme \<Rightarrow> 'a front_scheme \<times> int" where
  "ps_Subscribe c channel s =
     (let s = (if channel \<in> set (c_channels (f_clients s c)) then s
               else (on_client c (\<lambda>cl. cl\<lparr>c_channels := channel # c_channels cl, c_subCount := c_subCount cl + 1\<rparr>) s)
                 \<lparr>f_channels := reg_add channel c (f_channels s)\<rparr>)
      in (s, sub_total (f_clients s c)))"

definition ps_PSubscribe :: "nat \<Rightarrow> bytes \<Rightarrow> 'a front_scheme \<Rightarrow> 'a front_scheme \<times> int" where
  "ps_PSubscribe c pattern s =
     (let s = (if pattern \<in> set (c_patterns (f_clients s c)) then s
               else (on_client c (\<lambda>cl. cl\<lparr>c_patterns := pattern # c_patterns cl, c_subCount := c_subCount cl + 1\<rparr>) s)
                 \<lparr>f_patterns := reg_add pattern c (f_patterns s)\<rparr>)
      in (s, sub_total (f_clients s c)))"

definition removeChannelLocked :: "nat \<Rightarrow> bytes \<Rightarrow> 'a front_scheme \<Rightarrow> 'a front_scheme" where
  "removeChannelLocked c channel s =
     (if channel \<notin> set (c_channels (f_clients s c)) then s
      else (on_client c (\<lambda>cl. cl\<lparr>c_channels := removeAll channel (c_channels cl), c_subCount := c_subCount cl - 1\<rparr>) s)
        \<lparr>f_channels := reg_del channel c (f_channels s)\<rparr>)"

definition removePatternLocked :: "nat \<Rightarrow> bytes \<Rightarrow> 'a front_scheme \<Rightarrow> 'a front_scheme" where
  "removePatternLocked c pattern s =
     (if pattern \<notin> set (c_patterns (f_clients s c)) then s
      else (on_client c (\<lambda>cl. cl\<lparr>c_patterns := removeAll pattern (c_patterns cl), c_subCount := c_subCount cl - 1\<rparr>) s)
        \<lparr>f_patterns := reg_del pattern c (f_patterns s)\<rparr>)"

definition ps_Unsubscribe :: "nat \<Rightarrow> bytes \<Rightarrow> 'a front_scheme \<Rightarrow> 'a front_scheme \<times> int" where
  "ps_Unsubscribe c channel s = (let s = removeChannelLocked c channel s in (s, sub_total (f_clients s c)))"

definition ps_PUnsubscribe :: "nat \<Rightarrow> bytes \<Rightarrow> 'a front_scheme \<Rightarrow> 'a front_scheme \<times> int" where
  "ps_PUnsubscribe c pattern s = (let s = removePatternLocked c pattern s in (s, sub_total (f_clients s c)))"

text \<open>The loops range over the sets as they were; Go lets an iteration delete what it is at.\<close>

definition ps_Remove :: "nat \<Rightarrow> 'a front_scheme \<Rightarrow> 'a front_scheme" where
  "ps_Remove c s =
     (let s = fold (removeChannelLocked c) (c_channels (f_clients s c)) s
      in fold (removePatternLocked c) (c_patterns (f_clients s c)) s)"

subsection \<open>Publishing\<close>

record Message =
  m_Pattern :: bytes
  m_Channel :: bytes
  m_Payload :: bytes

definition MessageValue :: "Message \<Rightarrow> resp_value" where
  "MessageValue m =
     (if m_Pattern m \<noteq> [] then
        v_Push [v_Bulk (lit ''pmessage''), v_Bulk (m_Pattern m), v_Bulk (m_Channel m), v_Bulk (m_Payload m)]
      else v_Push [v_Bulk (lit ''message''), v_Bulk (m_Channel m), v_Bulk (m_Payload m)])"

fun publish_patterns :: "bytes \<Rightarrow> bytes \<Rightarrow> (bytes, nat) registry \<Rightarrow> 'a front_scheme \<Rightarrow> 'a front_scheme \<times> nat" where
  "publish_patterns channel payload [] s = (s, 0)"
| "publish_patterns channel payload ((pattern, cs) # rest) s =
     (if \<not> MatchPattern pattern channel then publish_patterns channel payload rest s
      else case deliver_all (MessageValue \<lparr>m_Pattern = pattern, m_Channel = channel, m_Payload = payload\<rparr>) cs s of (s1, n) \<Rightarrow>
        case publish_patterns channel payload rest s1 of (s2, n2) \<Rightarrow> (s2, n + n2))"

definition ps_Publish :: "bytes \<Rightarrow> bytes \<Rightarrow> 'a front_scheme \<Rightarrow> 'a front_scheme \<times> nat" where
  "ps_Publish channel payload s =
     (case deliver_all (MessageValue \<lparr>m_Pattern = [], m_Channel = channel, m_Payload = payload\<rparr>)
             (reg_get (f_channels s) channel) s of (s1, n) \<Rightarrow>
        case publish_patterns channel payload (f_patterns s1) s1 of (s2, n2) \<Rightarrow> (s2, n + n2))"

definition ChannelNames :: "bytes \<Rightarrow> bool \<Rightarrow> 'a front_scheme \<Rightarrow> bytes list" where
  "ChannelNames pattern filtered s =
     filter (\<lambda>ch. \<not> (filtered \<and> \<not> MatchPattern pattern ch)) (map fst (f_channels s))"

definition SubscriberCount :: "bytes \<Rightarrow> 'a front_scheme \<Rightarrow> int" where
  "SubscriberCount channel s = int (length (reg_get (f_channels s) channel))"

definition PatternCount :: "'a front_scheme \<Rightarrow> int" where
  "PatternCount s = int (length (f_patterns s))"

subsection \<open>The handlers\<close>

fun subscribe_loop :: "nat \<Rightarrow> bool \<Rightarrow> bytes list \<Rightarrow> 'a front_scheme \<Rightarrow> 'a front_scheme" where
  "subscribe_loop c pattern [] s = s"
| "subscribe_loop c pattern (name # names) s =
     (case (if pattern then ps_PSubscribe c name s else ps_Subscribe c name s) of (s1, n) \<Rightarrow>
        subscribe_loop c pattern names
          (out_WriteValue c (v_Push [v_Bulk (if pattern then lit ''psubscribe'' else lit ''subscribe''), v_Bulk name, v_Integer n]) s1))"

definition cmd_subscribe :: "nat \<Rightarrow> bool \<Rightarrow> bytes list \<Rightarrow> 'a front_scheme \<Rightarrow> 'a front_scheme \<times> resp_value" where
  "cmd_subscribe c pattern args s = (subscribe_loop c pattern (drop 1 args) s, v_None)"

fun unsubscribe_loop :: "nat \<Rightarrow> bool \<Rightarrow> bytes list \<Rightarrow> 'a front_scheme \<Rightarrow> 'a front_scheme" where
  "unsubscribe_loop c pattern [] s = s"
| "unsubscribe_loop c pattern (name # names) s =
     (case (if pattern then ps_PUnsubscribe c name s else ps_Unsubscribe c name s) of (s1, n) \<Rightarrow>
        unsubscribe_loop c pattern names
          (out_WriteValue c (v_Push [v_Bulk (if pattern then lit ''punsubscribe'' else lit ''unsubscribe''), v_Bulk name, v_Integer n]) s1))"

definition cmd_unsubscribe :: "nat \<Rightarrow> bool \<Rightarrow> bytes list \<Rightarrow> 'a front_scheme \<Rightarrow> 'a front_scheme \<times> resp_value" where
  "cmd_unsubscribe c pattern args s =
     (let verb = (if pattern then lit ''punsubscribe'' else lit ''unsubscribe'');
          names = drop 1 args
      in if length names = 0 then
           (let names = (if pattern then c_patterns (f_clients s c) else c_channels (f_clients s c))
            in if length names = 0
               then (out_WriteValue c (v_Push [v_Bulk verb, v_Null, v_Integer (c_subCount (f_clients s c))]) s, v_None)
               else (unsubscribe_loop c pattern names s, v_None))
         else (unsubscribe_loop c pattern names s, v_None))"

definition cmdPublish :: "bytes list \<Rightarrow> 'a front_scheme \<Rightarrow> 'a front_scheme \<times> resp_value" where
  "cmdPublish args s = (case ps_Publish (arg_at args 1) (arg_at args 2) s of (s1, n) \<Rightarrow> (s1, v_Integer (int n)))"

definition cmdPubSubChannels :: "bytes list \<Rightarrow> 'a front_scheme \<Rightarrow> resp_value" where
  "cmdPubSubChannels args s =
     (if length args > 3 then v_Err (lit ''ERR wrong number of arguments for 'pubsub|channels' command'')
      else v_Array (map v_Bulk
        (if length args = 3 then ChannelNames (arg_at args 2) True s else ChannelNames [] False s)))"

definition cmdPubSubNumSub :: "bytes list \<Rightarrow> 'a front_scheme \<Rightarrow> resp_value" where
  "cmdPubSubNumSub args s =
     v_Array (concat (map (\<lambda>name. [v_Bulk name, v_Integer (SubscriberCount name s)]) (drop 2 args)))"

definition cmdPubSubNumPat :: "'a front_scheme \<Rightarrow> resp_value" where
  "cmdPubSubNumPat s = v_Integer (PatternCount s)"

subsection \<open>MONITOR\<close>

definition mon_Add :: "nat \<Rightarrow> 'a front_scheme \<Rightarrow> 'a front_scheme" where
  "mon_Add c s =
     (if c \<in> set (f_monitors s) then s
      else (on_client c (\<lambda>cl. cl\<lparr>c_monitoring := True\<rparr>) s)\<lparr>f_monitors := c # f_monitors s\<rparr>)"

definition mon_Remove :: "nat \<Rightarrow> 'a front_scheme \<Rightarrow> 'a front_scheme" where
  "mon_Remove c s =
     (if c \<notin> set (f_monitors s) then s
      else (on_client c (\<lambda>cl. cl\<lparr>c_monitoring := False\<rparr>) s)\<lparr>f_monitors := removeAll c (f_monitors s)\<rparr>)"

text \<open>\<open>EqualFold(a, \"AUTH\")\<close>: no letter of the word has a fold outside ASCII.\<close>

definition redactedFrom :: "unicode \<Rightarrow> bytes list \<Rightarrow> int" where
  "redactedFrom ul args =
     (if args = [] then - 1
      else let name = ToUpper ul (hd args)
           in if name = lit ''AUTH'' then 1
              else if name = lit ''HELLO'' then
                (case List.find (\<lambda>i. map upper_byte (args ! i) = lit ''AUTH'') [1 ..< length args] of
                   Some i \<Rightarrow> int i + 1 | None \<Rightarrow> - 1)
              else - 1)"

text \<open>
  \<open>now\<close> is the time of the call as seconds and microseconds, \<open>quote\<close> is \<open>strconv.Quote\<close>.
\<close>

definition monitor_args :: "(bytes \<Rightarrow> bytes) \<Rightarrow> int \<Rightarrow> bytes list \<Rightarrow> bytes list" where
  "monitor_args quote redact args =
     map (\<lambda>(i, a). if redact \<ge> 0 \<and> int i \<ge> redact then [34] @ lit ''(redacted)'' @ [34] else quote a)
       (List.enumerate 0 args)"

definition monitorLine :: "unicode \<Rightarrow> (bytes \<Rightarrow> bytes) \<Rightarrow> int \<times> nat \<Rightarrow> client \<Rightarrow> bytes list \<Rightarrow> bytes" where
  "monitorLine ul quote now cl args =
     (let micros = AppendInt (int (snd now))
      in AppendInt (fst now) @ lit ''.'' @ replicate (6 - length micros) Zero @ micros @ lit '' ['' @
         AppendInt (c_DBIndex cl) @ lit '' '' @ c_Addr cl @ lit ''] '' @
         join_sp (monitor_args quote (redactedFrom ul args) args))"

fun feed_loop :: "nat \<Rightarrow> resp_value \<Rightarrow> nat list \<Rightarrow> 'a front_scheme \<Rightarrow> 'a front_scheme" where
  "feed_loop c line [] s = s"
| "feed_loop c line (m # ms) s =
     (if m = c then feed_loop c line ms s else feed_loop c line ms (fst (deliver m line s)))"

definition mon_Feed :: "unicode \<Rightarrow> (bytes \<Rightarrow> bytes) \<Rightarrow> int \<times> nat \<Rightarrow> nat \<Rightarrow> bytes list \<Rightarrow> 'a front_scheme \<Rightarrow> 'a front_scheme" where
  "mon_Feed ul quote now c args s =
     (if length (f_monitors s) = 0 then s
      else feed_loop c (v_Simple (monitorLine ul quote now (f_clients s c) args)) (f_monitors s) s)"


subsection \<open>Registry and clients agree\<close>

definition ps_ok :: "'a front_scheme \<Rightarrow> bool" where
  "ps_ok s \<longleftrightarrow> reg_ok (f_channels s) \<and> reg_ok (f_patterns s) \<and>
     (\<forall>c. distinct (c_channels (f_clients s c)) \<and> distinct (c_patterns (f_clients s c)) \<and>
        c_subCount (f_clients s c) = sub_total (f_clients s c) \<and>
        (\<forall>k. (c \<in> set (reg_get (f_channels s) k) \<longleftrightarrow> k \<in> set (c_channels (f_clients s c))) \<and>
             (c \<in> set (reg_get (f_patterns s) k) \<longleftrightarrow> k \<in> set (c_patterns (f_clients s c)))))"

definition holds_channels :: "'a front_scheme \<Rightarrow> nat \<Rightarrow> bytes set" where
  "holds_channels s c = set (c_channels (f_clients s c))"

definition holds_patterns :: "'a front_scheme \<Rightarrow> nat \<Rightarrow> bytes set" where
  "holds_patterns s c = set (c_patterns (f_clients s c))"

lemmas holds_defs = holds_channels_def holds_patterns_def

lemma length_removeAll_distinct: "distinct xs \<Longrightarrow> x \<in> set xs \<Longrightarrow> int (length (removeAll x xs)) = int (length xs) - 1"
  by (induction xs) (auto simp: removeAll_id)

lemma Subscribe_ok:
  assumes "ps_ok s"
  shows "ps_ok (fst (ps_Subscribe c k s))"
    "holds_channels (fst (ps_Subscribe c k s)) d = (if d = c then insert k (holds_channels s c) else holds_channels s d)"
    "holds_patterns (fst (ps_Subscribe c k s)) d = holds_patterns s d"
  using assms
  by (auto simp: ps_ok_def ps_Subscribe_def Let_def reg_ok_add reg_get_add sub_total_def holds_defs)

lemma PSubscribe_ok:
  assumes "ps_ok s"
  shows "ps_ok (fst (ps_PSubscribe c k s))"
    "holds_patterns (fst (ps_PSubscribe c k s)) d = (if d = c then insert k (holds_patterns s c) else holds_patterns s d)"
    "holds_channels (fst (ps_PSubscribe c k s)) d = holds_channels s d"
  using assms
  by (auto simp: ps_ok_def ps_PSubscribe_def Let_def reg_ok_add reg_get_add sub_total_def holds_defs)

lemma removeChannel_ok:
  assumes "ps_ok s"
  shows "ps_ok (removeChannelLocked c k s)"
    "holds_channels (removeChannelLocked c k s) d = (if d = c then holds_channels s c - {k} else holds_channels s d)"
    "holds_patterns (removeChannelLocked c k s) d = holds_patterns s d"
    "c_patterns (f_clients (removeChannelLocked c k s) d) = c_patterns (f_clients s d)"
proof -
  have "k \<in> set (c_channels (f_clients s c)) \<Longrightarrow>
      int (length (removeAll k (c_channels (f_clients s c)))) = int (length (c_channels (f_clients s c))) - 1"
    using assms length_removeAll_distinct[of "c_channels (f_clients s c)" k] by (auto simp: ps_ok_def)
  then show "ps_ok (removeChannelLocked c k s)"
    using assms
    by (auto simp: ps_ok_def removeChannelLocked_def reg_ok_del reg_get_del sub_total_def distinct_removeAll)
qed (auto simp: removeChannelLocked_def holds_defs)

lemma removePattern_ok:
  assumes "ps_ok s"
  shows "ps_ok (removePatternLocked c k s)"
    "holds_patterns (removePatternLocked c k s) d = (if d = c then holds_patterns s c - {k} else holds_patterns s d)"
    "holds_channels (removePatternLocked c k s) d = holds_channels s d"
proof -
  have "k \<in> set (c_patterns (f_clients s c)) \<Longrightarrow>
      int (length (removeAll k (c_patterns (f_clients s c)))) = int (length (c_patterns (f_clients s c))) - 1"
    using assms length_removeAll_distinct[of "c_patterns (f_clients s c)" k] by (auto simp: ps_ok_def)
  then show "ps_ok (removePatternLocked c k s)"
    using assms
    by (auto simp: ps_ok_def removePatternLocked_def reg_ok_del reg_get_del sub_total_def distinct_removeAll)
qed (auto simp: removePatternLocked_def holds_defs)

lemma removeChannels_ok:
  "ps_ok s \<Longrightarrow> ps_ok (fold (removeChannelLocked c) ks s) \<and>
     (\<forall>d. holds_channels (fold (removeChannelLocked c) ks s) d = (if d = c then holds_channels s c - set ks else holds_channels s d)) \<and>
     (\<forall>d. holds_patterns (fold (removeChannelLocked c) ks s) d = holds_patterns s d)"
  by (induction ks arbitrary: s) (auto simp: removeChannel_ok)

lemma removePatterns_ok:
  "ps_ok s \<Longrightarrow> ps_ok (fold (removePatternLocked c) ks s) \<and>
     (\<forall>d. holds_patterns (fold (removePatternLocked c) ks s) d = (if d = c then holds_patterns s c - set ks else holds_patterns s d)) \<and>
     (\<forall>d. holds_channels (fold (removePatternLocked c) ks s) d = holds_channels s d)"
  by (induction ks arbitrary: s) (auto simp: removePattern_ok)

lemma Remove_ok:
  assumes "ps_ok s"
  shows "ps_ok (ps_Remove c s)"
    "holds_channels (ps_Remove c s) d = (if d = c then {} else holds_channels s d)"
    "holds_patterns (ps_Remove c s) d = (if d = c then {} else holds_patterns s d)"
proof -
  let ?s1 = "fold (removeChannelLocked c) (c_channels (f_clients s c)) s"
  have 1: "ps_ok ?s1" "\<forall>d. holds_channels ?s1 d = (if d = c then {} else holds_channels s d)"
    "\<forall>d. holds_patterns ?s1 d = holds_patterns s d"
    using removeChannels_ok[OF assms, of c "c_channels (f_clients s c)"] by (auto simp: holds_channels_def)
  have "ps_Remove c s = fold (removePatternLocked c) (c_patterns (f_clients ?s1 c)) ?s1"
    by (simp add: ps_Remove_def Let_def)
  then show "ps_ok (ps_Remove c s)"
    "holds_channels (ps_Remove c s) d = (if d = c then {} else holds_channels s d)"
    "holds_patterns (ps_Remove c s) d = (if d = c then {} else holds_patterns s d)"
    using removePatterns_ok[OF 1(1), of c "c_patterns (f_clients ?s1 c)"] 1(2,3) by (auto simp: holds_patterns_def)
qed

interpretation channels: subscription ps_ok "\<lambda>s k. set (reg_get (f_channels s) k)" holds_channels
  "\<lambda>s. fst ` set (f_channels s)" "\<lambda>c k s. fst (ps_Subscribe c k s)" ps_Remove
  by unfold_locales (simp_all add: Subscribe_ok Remove_ok reg_dom, simp_all add: ps_ok_def holds_defs reg_dom)

interpretation patterns: subscription ps_ok "\<lambda>s k. set (reg_get (f_patterns s) k)" holds_patterns
  "\<lambda>s. fst ` set (f_patterns s)" "\<lambda>c k s. fst (ps_PSubscribe c k s)" ps_Remove
  by unfold_locales (simp_all add: PSubscribe_ok Remove_ok reg_dom, simp_all add: ps_ok_def holds_defs reg_dom)

subsection \<open>Who gets what\<close>

text \<open>A list of deliveries, in order.\<close>

fun deliveries :: "(nat \<times> resp_value) list \<Rightarrow> 'a front_scheme \<Rightarrow> 'a front_scheme \<times> nat" where
  "deliveries [] s = (s, 0)"
| "deliveries ((c, v) # ds) s =
     (case deliver c v s of (s1, ok) \<Rightarrow> case deliveries ds s1 of (s2, n) \<Rightarrow> (s2, (if ok then 1 else 0) + n))"

lemma deliveries_append:
  "deliveries (ds @ es) s = (case deliveries ds s of (s1, n) \<Rightarrow> case deliveries es s1 of (s2, m) \<Rightarrow> (s2, n + m))"
  by (induction ds s rule: deliveries.induct) (auto split: prod.splits)

lemma deliver_all_deliveries: "deliver_all v cs s = deliveries (map (\<lambda>c. (c, v)) cs) s"
  by (induction cs arbitrary: s) (auto split: prod.splits)

definition pattern_mail :: "bytes \<Rightarrow> bytes \<Rightarrow> (bytes, nat) registry \<Rightarrow> (nat \<times> resp_value) list" where
  "pattern_mail channel payload ps = concat (map (\<lambda>(p, cs). if MatchPattern p channel
     then map (\<lambda>c. (c, MessageValue \<lparr>m_Pattern = p, m_Channel = channel, m_Payload = payload\<rparr>)) cs else []) ps)"

lemma publish_patterns_deliveries: "publish_patterns channel payload ps s = deliveries (pattern_mail channel payload ps) s"
  by (induction channel payload ps s rule: publish_patterns.induct)
     (auto simp: pattern_mail_def deliveries_append deliver_all_deliveries split: prod.splits)

lemma deliver_keeps: "f_patterns (fst (deliver c v s)) = f_patterns s" "f_channels (fst (deliver c v s)) = f_channels s"
  by (simp_all add: deliver_def)

lemma deliveries_keep: "f_patterns (fst (deliveries ds s)) = f_patterns s" "f_channels (fst (deliveries ds s)) = f_channels s"
  by (induction ds arbitrary: s) (auto simp: deliver_keeps case_prod_unfold)

definition mail :: "nat \<Rightarrow> (nat \<times> resp_value) list \<Rightarrow> resp_value list" where
  "mail c ds = map snd (filter (\<lambda>d. fst d = c) ds)"

definition room :: "client \<Rightarrow> nat" where
  "room cl = outboxDepth - length (c_outbox cl)"

text \<open>A client after it was handed some messages: it queues what it has room for and is marked when it has not.\<close>

definition handed :: "resp_value list \<Rightarrow> client \<Rightarrow> client" where
  "handed ms cl = cl\<lparr>c_outbox := c_outbox cl @ take (room cl) ms, c_overflowed := c_overflowed cl \<or> room cl < length ms\<rparr>"

lemma mail_Cons: "mail c ((d, v) # ds) = (if d = c then [v] else []) @ mail c ds"
  by (simp add: mail_def)

lemma handed_Nil [simp]: "handed [] cl = cl"
  by (simp add: handed_def)

lemma handed_append: "handed ms (handed [v] cl) = handed (v # ms) cl"
proof (cases "room cl")
  case (Suc n)
  then have "room (cl\<lparr>c_outbox := c_outbox cl @ [v]\<rparr>) = n" by (simp add: room_def)
  then show ?thesis using Suc by (simp add: handed_def)
qed (simp add: handed_def room_def)

lemma deliver_handed: "f_clients (fst (deliver c v s)) d = handed (if c = d then [v] else []) (f_clients s d)"
  by (auto simp: deliver_def handed_def room_def)

lemma deliveries_handed: "f_clients (fst (deliveries ds s)) c = handed (mail c ds) (f_clients s c)"
proof (induction ds arbitrary: s)
  case (Cons d ds)
  then show ?case by (cases d) (auto simp: case_prod_unfold deliver_handed mail_Cons handed_append)
qed (simp add: mail_def)

lemma deliveries_count:
  "finite A \<Longrightarrow> fst ` set ds \<subseteq> A \<Longrightarrow> snd (deliveries ds s) = (\<Sum>c\<in>A. min (room (f_clients s c)) (length (mail c ds)))"
proof (induction ds arbitrary: s)
  case (Cons d ds)
  obtain c v where d: "d = (c, v)" by (cases d)
  let ?s1 = "fst (deliver c v s)"
  let ?f = "\<lambda>s ds c. min (room (f_clients s c)) (length (mail c ds))"
  have c: "c \<in> A" using Cons.prems d by auto
  have other: "?f ?s1 ds e = ?f s (d # ds) e" if "e \<noteq> c" for e
    using that by (simp add: deliver_handed mail_Cons d)
  have this_one: "(if snd (deliver c v s) then 1 else 0) + ?f ?s1 ds c = ?f s (d # ds) c"
    by (auto simp: deliver_def room_def mail_Cons d)
  have "snd (deliveries (d # ds) s) = (if snd (deliver c v s) then 1 else 0) + (\<Sum>e\<in>A. ?f ?s1 ds e)"
    using Cons by (simp add: d case_prod_unfold)
  also have "\<dots> = (if snd (deliver c v s) then 1 else 0) + (?f ?s1 ds c + (\<Sum>e\<in>A - {c}. ?f ?s1 ds e))"
    using Cons.prems(1) c by (simp add: sum.remove)
  also have "\<dots> = ?f s (d # ds) c + (\<Sum>e\<in>A - {c}. ?f s (d # ds) e)" using this_one other by simp
  also have "\<dots> = (\<Sum>e\<in>A. ?f s (d # ds) e)" using Cons.prems(1) c by (simp add: sum.remove)
  finally show ?case .
qed (simp add: mail_def)

text \<open>The messages a client should get, by its own subscriptions, in the order of the registry.\<close>

definition due :: "bytes \<Rightarrow> bytes \<Rightarrow> 'a front_scheme \<Rightarrow> nat \<Rightarrow> resp_value list" where
  "due channel payload s c =
     (if channel \<in> holds_channels s c
      then [MessageValue \<lparr>m_Pattern = [], m_Channel = channel, m_Payload = payload\<rparr>] else []) @
     map (\<lambda>p. MessageValue \<lparr>m_Pattern = p, m_Channel = channel, m_Payload = payload\<rparr>)
       (filter (\<lambda>p. MatchPattern p channel \<and> p \<in> holds_patterns s c) (map fst (f_patterns s)))"

definition mail_of :: "bytes \<Rightarrow> bytes \<Rightarrow> 'a front_scheme \<Rightarrow> (nat \<times> resp_value) list" where
  "mail_of channel payload s =
     map (\<lambda>c. (c, MessageValue \<lparr>m_Pattern = [], m_Channel = channel, m_Payload = payload\<rparr>)) (reg_get (f_channels s) channel) @
     pattern_mail channel payload (f_patterns s)"

lemma Publish_deliveries: "ps_Publish channel payload s = deliveries (mail_of channel payload s) s"
  using deliveries_keep(1)[of "map (\<lambda>c. (c, MessageValue \<lparr>m_Pattern = [], m_Channel = channel, m_Payload = payload\<rparr>)) (reg_get (f_channels s) channel)" s]
  by (simp add: ps_Publish_def mail_of_def deliveries_append deliver_all_deliveries publish_patterns_deliveries case_prod_unfold)

lemma filter_eq_distinct: "distinct xs \<Longrightarrow> filter (\<lambda>x. x = c) xs = (if c \<in> set xs then [c] else [])"
  by (induction xs) auto

lemma mail_same: "distinct cs \<Longrightarrow> mail c (map (\<lambda>c. (c, v)) cs) = (if c \<in> set cs then [v] else [])"
  by (simp add: mail_def filter_map comp_def filter_eq_distinct)

lemma mail_Nil [simp]: "mail c [] = []"
  by (simp add: mail_def)

lemma mail_append: "mail c (ds @ es) = mail c ds @ mail c es"
  by (simp add: mail_def)

lemma pattern_mail_due:
  assumes "reg_ok ps"
  shows "mail c (pattern_mail channel payload ps) =
    map (\<lambda>p. MessageValue \<lparr>m_Pattern = p, m_Channel = channel, m_Payload = payload\<rparr>)
      (filter (\<lambda>p. MatchPattern p channel \<and> c \<in> set (reg_get ps p)) (map fst ps))"
proof -
  have "mail c (pattern_mail channel payload qs) =
      map (\<lambda>p. MessageValue \<lparr>m_Pattern = p, m_Channel = channel, m_Payload = payload\<rparr>)
        (filter (\<lambda>p. MatchPattern p channel \<and> c \<in> set (reg_get ps p)) (map fst qs))"
    if "set qs \<subseteq> set ps" for qs
    using that
  proof (induction qs)
    case (Cons q qs)
    obtain p cs where q: "q = (p, cs)" by (cases q)
    have "(p, cs) \<in> set ps" using Cons.prems q by simp
    then have "reg_get ps p = cs" "distinct cs" using assms by (auto simp: reg_ok_def reg_get_def map_of_is_SomeI)
    then show ?case using Cons q by (simp add: pattern_mail_def mail_append mail_same)
  qed (simp add: pattern_mail_def mail_def)
  then show ?thesis by simp
qed

lemma mail_of_due: "ps_ok s \<Longrightarrow> mail c (mail_of channel payload s) = due channel payload s c"
  by (simp add: mail_of_def mail_append mail_same pattern_mail_due due_def ps_ok_def reg_get_ok holds_defs)


subsection \<open>Runs\<close>

text \<open>
  What connections do: subscribe and unsubscribe by command, publish, take values out of their queue,
  and end.
\<close>

datatype ps_op = PsSubscribe nat bool "bytes list" | PsUnsubscribe nat bool "bytes list" | PsPublish "bytes list"
  | PsTake nat nat | PsEnd nat

fun ps_step :: "ps_op \<Rightarrow> 'a front_scheme \<Rightarrow> 'a front_scheme" where
  "ps_step (PsSubscribe c pattern args) s = fst (cmd_subscribe c pattern args s)"
| "ps_step (PsUnsubscribe c pattern args) s = fst (cmd_unsubscribe c pattern args s)"
| "ps_step (PsPublish args) s = fst (cmdPublish args s)"
| "ps_step (PsTake c n) s = on_client c (\<lambda>cl. cl\<lparr>c_outbox := drop n (c_outbox cl)\<rparr>) s"
| "ps_step (PsEnd c) s = ps_Remove c s"

definition ps_run :: "ps_op list \<Rightarrow> 'a front_scheme \<Rightarrow> 'a front_scheme" where
  "ps_run ops s = fold ps_step ops s"

definition ps_fresh :: "'a front_scheme \<Rightarrow> bool" where
  "ps_fresh s \<longleftrightarrow> f_channels s = [] \<and> f_patterns s = [] \<and>
     (\<forall>c. c_channels (f_clients s c) = [] \<and> c_patterns (f_clients s c) = [] \<and> c_subCount (f_clients s c) = 0)"

definition ps_view :: "client \<Rightarrow> bytes list \<times> bytes list \<times> int" where
  "ps_view cl = (c_channels cl, c_patterns cl, c_subCount cl)"

lemma ps_ok_view:
  assumes "ps_ok s" "f_channels t = f_channels s" "f_patterns t = f_patterns s"
    "\<And>c. ps_view (f_clients t c) = ps_view (f_clients s c)"
  shows "ps_ok t"
  using assms(1,4) unfolding ps_ok_def assms(2,3) by (auto simp: ps_view_def sub_total_def)

lemma WriteValue_ok: "ps_ok s \<Longrightarrow> ps_ok (out_WriteValue c v s)"
  by (erule ps_ok_view) (auto simp: out_WriteValue_def ps_view_def)

lemma subscribe_loop_ok: "ps_ok s \<Longrightarrow> ps_ok (subscribe_loop c pattern ns s)"
  by (induction ns arbitrary: s)
     (simp_all add: case_prod_unfold WriteValue_ok Subscribe_ok(1) PSubscribe_ok(1))

lemma unsubscribe_loop_ok: "ps_ok s \<Longrightarrow> ps_ok (unsubscribe_loop c pattern ns s)"
  by (induction ns arbitrary: s)
     (simp_all add: case_prod_unfold ps_Unsubscribe_def ps_PUnsubscribe_def Let_def WriteValue_ok removeChannel_ok(1) removePattern_ok(1))

lemma ps_step_ok: "ps_ok s \<Longrightarrow> ps_ok (ps_step op s)"
proof (cases op)
  case (PsPublish args)
  assume "ps_ok s"
  then show ?thesis
    by (elim ps_ok_view)
       (simp_all add: PsPublish cmdPublish_def case_prod_unfold Publish_deliveries deliveries_keep deliveries_handed ps_view_def handed_def)
next
  case (PsTake c n)
  assume "ps_ok s"
  then show ?thesis by (elim ps_ok_view) (auto simp: PsTake ps_view_def)
qed (auto simp: cmd_subscribe_def cmd_unsubscribe_def Let_def intro: subscribe_loop_ok unsubscribe_loop_ok WriteValue_ok Remove_ok(1))

lemma ps_fresh_ok: "ps_fresh s \<Longrightarrow> ps_ok s"
  by (simp add: ps_fresh_def ps_ok_def reg_get_def sub_total_def)

lemma ps_run_ok: "ps_fresh s \<Longrightarrow> ps_ok (ps_run ops s)"
proof -
  have "ps_ok s \<Longrightarrow> ps_ok (fold ps_step ops s)" for s :: "'a front_scheme"
    by (induction ops arbitrary: s) (auto simp: ps_step_ok)
  then show "ps_fresh s \<Longrightarrow> ps_ok (ps_run ops s)" by (simp add: ps_run_def ps_fresh_ok)
qed

text \<open>C17: After any run of subscriptions, unsubscriptions, messages and connection ends, a message reaches
  each client exactly as often as its own subscriptions say: once for the channel and once for each
  matching pattern, in queue order and as far as its queue has room; a client without room is marked; no
  other client is touched; and the number \<open>PUBLISH\<close> reports is the number of messages queued.\<close>

theorem publish_reaches_subscribers:
  assumes "ps_fresh s0" "s = ps_run ops s0" "ps_Publish channel payload s = (s', n)"
  shows "(\<forall>c. f_clients s' c = handed (due channel payload s c) (f_clients s c)) \<and>
    n = (\<Sum>c | due channel payload s c \<noteq> []. min (room (f_clients s c)) (length (due channel payload s c)))"
proof -
  have ok: "ps_ok s" using ps_run_ok[OF assms(1)] assms(2) by simp
  have s': "s' = fst (deliveries (mail_of channel payload s) s)" "n = snd (deliveries (mail_of channel payload s) s)"
    using assms(3) by (simp_all add: Publish_deliveries)
  let ?A = "fst ` set (mail_of channel payload s)"
  have "{c. due channel payload s c \<noteq> []} \<subseteq> ?A"
    unfolding mail_of_due[OF ok, symmetric] by (auto simp: mail_def filter_empty_conv)
  then have "(\<Sum>c | due channel payload s c \<noteq> []. min (room (f_clients s c)) (length (due channel payload s c))) =
      (\<Sum>c\<in>?A. min (room (f_clients s c)) (length (due channel payload s c)))"
    by (intro sum.mono_neutral_left) auto
  also have "\<dots> = n" using deliveries_count[of ?A "mail_of channel payload s" s] s'(2) mail_of_due[OF ok] by simp
  finally show ?thesis using deliveries_handed[of "mail_of channel payload s" s] s'(1) mail_of_due[OF ok] by simp
qed


definition wit_front :: front where
  "wit_front = \<lparr>f_clients = (\<lambda>c. NewClient [] True), f_channels = [], f_patterns = [], f_watchers = [], f_monitors = []\<rparr>"

definition wit_subs :: "ps_op list" where
  "wit_subs = [PsSubscribe 1 False [lit ''SUBSCRIBE'', lit ''news''], PsSubscribe 1 True [lit ''PSUBSCRIBE'', lit ''n*'']]"

lemma wit_front_fresh: "ps_fresh wit_front"
  by (simp add: ps_fresh_def wit_front_def NewClient_def)

theorem publish_reaches_subscribers_witness:
  "\<exists>s' n. ps_Publish (lit ''news'') (lit ''x'') (ps_run wit_subs wit_front) = (s', n) \<and>
     length (c_outbox (f_clients s' 1)) = 2 \<and> c_outbox (f_clients s' 2) = []"
proof -
  let ?s = "ps_run wit_subs wit_front"
  have s: "c_outbox (f_clients ?s c) = []" "holds_channels ?s 1 = {lit ''news''}" "holds_patterns ?s 1 = {lit ''n*''}"
    "f_patterns ?s = [(lit ''n*'', [1])]" "holds_channels ?s 2 = {}" "holds_patterns ?s 2 = {}" for c
    by (auto simp: ps_run_def wit_subs_def wit_front_def NewClient_def cmd_subscribe_def ps_Subscribe_def ps_PSubscribe_def
        out_WriteValue_def holds_defs reg_add_def reg_get_def set_add_def Let_def)
  have m: "MatchPattern (lit ''n*'') (lit ''news'')" by (simp add: lit_def MatchPattern.simps)
  obtain s' n where p: "ps_Publish (lit ''news'') (lit ''x'') ?s = (s', n)" by (cases "ps_Publish (lit ''news'') (lit ''x'') ?s")
  have "\<forall>c. f_clients s' c = handed (due (lit ''news'') (lit ''x'') ?s c) (f_clients ?s c)"
    using publish_reaches_subscribers[OF wit_front_fresh refl p] by blast
  then show ?thesis using p s m by (auto simp: handed_def due_def room_def outboxDepth_def)
qed


end
