(* ===== verification/Dispatch.thy ===== *)
theory Dispatch
  imports Pubsub
begin

text \<open>
  The dispatch layer (\<open>command/dispatch.go\<close>) with transactions (\<open>command/transaction.go\<close>) and
  the handlers of \<open>command/connection.go\<close> that change a client. The host of the model holds what
  \<open>resolve\<close> asks the server for; the engine behind it is the argument \<open>eg\<close>: what a command on
  the keyspace does, the memory estimate and eviction, which reports \<open>None\<close> when it would wait for
  an ordering lock its own goroutine holds. Commands of different connections run one at a time: the
  ordering locks keep writes apart, and that is what the theory \<open>Write_Order\<close> is about.

  \<open>h_log\<close> is what was handed to \<open>Host.Propagate\<close> and \<open>h_modified\<close> the calls of the
  key-modification hook, both in order. Statistics, the slow log and \<open>lastCommand\<close> are left out. The
  administrative commands that act on the server itself (\<open>CONFIG\<close>, \<open>CLIENT\<close>,
  \<open>REPLICAOF\<close>, \<open>SHUTDOWN\<close> and others) have no handler here.
\<close>

subsection \<open>The host\<close>

datatype handler =
  HMulti | HExec | HDiscard | HWatch | HUnwatch | HSubscribe bool | HUnsubscribe bool | HPublish | HMonitor
  | HAuth | HPing | HEcho | HSelect | HQuit | HReset | HACLSetUser | HACLDelUser | HEngine bytes

record cfg_values =
  RequirePass :: bytes
  ReplicaReadOnly :: bool
  MinReplicasToWrite :: int
  MaxMemory :: int

record 'e host = front +
  h_engine :: 'e
  h_table :: "handler Table"
  h_acl :: ACL
  h_cfg :: cfg_values
  h_loading :: bool
  h_replica :: bool
  h_perr :: "bytes option"
  h_insync :: int
  h_log :: "(int \<times> bytes list) list"
  h_modified :: "watchKey list"

text \<open>What a command on the keyspace leaves behind, and the engine as the dispatcher sees it.\<close>

record 'e outcome =
  oc_engine :: 'e
  oc_reply :: resp_value
  oc_dirty :: int
  oc_effects :: "bytes list list"
  oc_suppress :: bool
  oc_emitted :: "(int \<times> bytes list) list"
  oc_modified :: "watchKey list"

record 'e engine =
  eg_run :: "bytes \<Rightarrow> int \<Rightarrow> bool \<Rightarrow> bytes list \<Rightarrow> 'e \<Rightarrow> 'e outcome"
  eg_Memory :: "'e \<Rightarrow> int"
  eg_Evict :: "bool \<Rightarrow> 'e \<Rightarrow> ('e \<times> (int \<times> bytes list) list \<times> watchKey list) go"
  eg_Databases :: "'e \<Rightarrow> int"

record ctx =
  x_dirty :: int
  x_effects :: "bytes list list"
  x_suppress :: bool

definition no_ctx :: ctx where
  "no_ctx = \<lparr>x_dirty = 0, x_effects = [], x_suppress = False\<rparr>"

subsection \<open>Watchers\<close>

definition w_KeyModified :: "watchKey \<Rightarrow> 'a front_scheme \<Rightarrow> 'a front_scheme" where
  "w_KeyModified k s = fold (\<lambda>c. on_client c (\<lambda>cl. cl\<lparr>c_watchBroken := True\<rparr>)) (reg_get (f_watchers s) k) s"

definition w_Watch :: "nat \<Rightarrow> int \<Rightarrow> bytes \<Rightarrow> 'a front_scheme \<Rightarrow> 'a front_scheme" where
  "w_Watch c db key s =
     (let k = (db, key)
      in if k \<in> set (c_watching (f_clients s c)) then s
         else (on_client c (\<lambda>cl. cl\<lparr>c_watching := k # c_watching cl\<rparr>) s)\<lparr>f_watchers := reg_add k c (f_watchers s)\<rparr>)"

definition w_Unwatch :: "nat \<Rightarrow> 'a front_scheme \<Rightarrow> 'a front_scheme" where
  "w_Unwatch c s =
     (let s = s\<lparr>f_watchers := reg_del_all (c_watching (f_clients s c)) c (f_watchers s)\<rparr>
      in on_client c (\<lambda>cl. cl\<lparr>c_watching := [], c_watchBroken := False\<rparr>) s)"

definition w_Count :: "'a front_scheme \<Rightarrow> int" where
  "w_Count s = int (length (f_watchers s))"

text \<open>The hook calls of one engine call, in order.\<close>

definition signal_all :: "watchKey list \<Rightarrow> 'e host \<Rightarrow> 'e host" where
  "signal_all ks h = (fold w_KeyModified ks h)\<lparr>h_modified := h_modified h @ ks\<rparr>"

definition Propagate :: "int \<Rightarrow> bytes list \<Rightarrow> 'e host \<Rightarrow> 'e host" where
  "Propagate db args h = h\<lparr>h_log := h_log h @ [(db, args)]\<rparr>"

subsection \<open>Errors\<close>

definition quoted :: "bytes \<Rightarrow> bytes" where
  "quoted s = [39] @ s @ [39]"

definition errWrongArgs :: "unicode \<Rightarrow> bytes \<Rightarrow> resp_value" where
  "errWrongArgs ul name = v_Err (lit ''ERR wrong number of arguments for '' @ quoted (ToLower ul name) @ lit '' command'')"

definition errUnknownSubcommand :: "bytes \<Rightarrow> bytes \<Rightarrow> resp_value" where
  "errUnknownSubcommand parent sub =
     v_Err (lit ''ERR Unknown subcommand or wrong number of arguments for '' @ quoted sub @ lit ''. Try '' @ parent @ lit '' HELP.'')"

definition errDisabledCommand :: "bytes \<Rightarrow> resp_value" where
  "errDisabledCommand name =
     v_Err (lit ''ERR unknown command '' @ quoted name @ lit '': this command has been disabled by configuration'')"

definition errNoAuth :: resp_value where "errNoAuth = v_Err (lit ''NOAUTH Authentication required.'')"
definition errLoading :: resp_value where "errLoading = v_Err (lit ''LOADING Kestrel is loading the dataset in memory'')"
definition errReadOnly :: resp_value where "errReadOnly = v_Err (lit ''READONLY You can't write against a read only replica.'')"
definition errOOM :: resp_value where
  "errOOM = v_Err (lit ''OOM command not allowed when used memory > '' @ [39] @ lit ''maxmemory'' @ [39] @ lit ''.'')"

definition errMisconf :: "bytes \<Rightarrow> resp_value" where
  "errMisconf err = v_Err (lit ''MISCONF Errors writing to the append log: '' @ err @ lit ''. Writes are refused until it recovers.'')"

definition errNotEnoughReplicas :: "int \<Rightarrow> int \<Rightarrow> resp_value" where
  "errNotEnoughReplicas have need =
     v_Err (lit ''NOREPLICAS Not enough good replicas to write. '' @ AppendInt have @ lit '' in sync, '' @ AppendInt need @ lit '' required.'')"

definition errSubscriberMode :: "unicode \<Rightarrow> bytes \<Rightarrow> resp_value" where
  "errSubscriberMode ul name =
     v_Err (lit ''ERR Can't execute '' @ quoted (ToLower ul name) @
       lit '': only (P|S)SUBSCRIBE / (P|S)UNSUBSCRIBE / PING / QUIT / RESET are allowed in this context'')"

definition errNoPermCommand :: "unicode \<Rightarrow> bytes \<Rightarrow> bytes \<Rightarrow> resp_value" where
  "errNoPermCommand ul user command =
     v_Err (lit ''NOPERM User '' @ user @ lit '' has no permissions to run the '' @ quoted (ToLower ul command) @ lit '' command'')"

definition errNoPermKey :: "bytes \<Rightarrow> resp_value" where
  "errNoPermKey user =
     v_Err (lit ''NOPERM No permissions to access one of the keys used as arguments (user '' @ user @ lit '')'')"

definition errNoPermChannel :: "bytes \<Rightarrow> resp_value" where
  "errNoPermChannel user =
     v_Err (lit ''NOPERM No permissions to access one of the channels used as arguments (user '' @ user @ lit '')'')"

subsection \<open>Checks before a handler runs\<close>

definition channelArgs :: "'h Descriptor \<Rightarrow> bytes list \<Rightarrow> bytes list" where
  "channelArgs d args =
     (if d_Name d \<in> {lit ''SUBSCRIBE'', lit ''PSUBSCRIBE'', lit ''UNSUBSCRIBE'', lit ''PUNSUBSCRIBE''} then drop 1 args
      else if d_Name d = lit ''PUBLISH'' then (if length args \<ge> 2 then take 1 (drop 1 args) else [])
      else [])"

definition checkPermissions :: "unicode \<Rightarrow> client \<Rightarrow> 'h Descriptor \<Rightarrow> bytes list \<Rightarrow> (resp_value option) go" where
  "checkPermissions ul cl d args =
     (case c_Perms cl of
        None \<Rightarrow> Some None
      | Some u \<Rightarrow>
          if \<not> CanRun u d then Some (Some (errNoPermCommand ul (c_User cl) (d_fullName d)))
          else if Unrestricted u then Some None
          else do {
            ks \<leftarrow> ExtractKeys d args;
            if list_ex (\<lambda>k. \<not> CanAccessKey u k) ks then Some (Some (errNoPermKey (c_User cl)))
            else if list_ex (\<lambda>ch. \<not> CanAccessChannel u ch) (channelArgs d args) then Some (Some (errNoPermChannel (c_User cl)))
            else Some None
          })"

definition overMemoryLimit :: "'e engine \<Rightarrow> 'e host \<Rightarrow> int \<Rightarrow> bool" where
  "overMemoryLimit eg h maxMemory = (if maxMemory \<le> 0 then False else eg_Memory eg (h_engine h) \<ge> maxMemory)"

text \<open>The lookup part of \<open>resolve\<close>: name, subcommand, arity.\<close>

definition find_command :: "unicode \<Rightarrow> handler Table \<Rightarrow> bytes list \<Rightarrow> resp_value + handler Descriptor" where
  "find_command ul t args =
     (case Lookup t (arg_at args 0) of
        None \<Rightarrow> if Disabled t (arg_at args 0) then Inl (errDisabledCommand (arg_at args 0))
                else Inl (errUnknownCommand (arg_at args 0) (drop 1 args))
      | Some d0 \<Rightarrow>
          (let r = (if length (d_Subcommands d0) > 0 then
                      (if length args \<ge> 2 then
                         (case LookupSub d0 (arg_at args 1) of
                            None \<Rightarrow> Inl (errUnknownSubcommand (d_Name d0) (arg_at args 1)) | Some sub \<Rightarrow> Inr sub)
                       else if d_Handler d0 = None then Inl (errWrongArgs ul (d_Name d0)) else Inr d0)
                    else Inr d0)
           in case r of Inl err \<Rightarrow> Inl err
              | Inr d \<Rightarrow>
                  if \<not> arityOK d (int (length args)) then
                    (case d_parent d of Some p \<Rightarrow> Inl (errUnknownSubcommand p (arg_at args 1)) | None \<Rightarrow> Inl (errWrongArgs ul (d_Name d)))
                  else Inr d))"

text \<open>The checks of a write, with eviction, which is the only one that changes the host.\<close>

definition write_checks :: "'e engine \<Rightarrow> nat \<Rightarrow> handler Descriptor \<Rightarrow> 'e host \<Rightarrow> ('e host \<times> resp_value option) go" where
  "write_checks eg c d h =
     (let cl = f_clients h c; cfg = h_cfg h
      in if h_replica h \<and> ReplicaReadOnly cfg \<and> \<not> c_Replica cl then Some (h, Some errReadOnly)
         else case h_perr h of Some err \<Rightarrow> Some (h, Some (errMisconf err))
         | None \<Rightarrow>
             if MinReplicasToWrite cfg > 0 \<and> h_insync h < MinReplicasToWrite cfg
             then Some (h, Some (errNotEnoughReplicas (h_insync h) (MinReplicasToWrite cfg)))
             else if d_Is d FDenyOOM \<and> overMemoryLimit eg h (MaxMemory cfg) then
               (case eg_Evict eg (c_inExec cl) (h_engine h) of
                  None \<Rightarrow> None
                | Some (e, em, mo) \<Rightarrow>
                    (let h1 = signal_all mo (h\<lparr>h_engine := e, h_log := h_log h @ em\<rparr>)
                     in if overMemoryLimit eg h1 (MaxMemory cfg) then Some (h1, Some errOOM) else Some (h1, None)))
             else Some (h, None))"

definition resolve :: "unicode \<Rightarrow> 'e engine \<Rightarrow> nat \<Rightarrow> bytes list \<Rightarrow> 'e host \<Rightarrow> ('e host \<times> (resp_value + handler Descriptor)) go" where
  "resolve ul eg c args h =
     (case find_command ul (h_table h) args of
        Inl err \<Rightarrow> Some (h, Inl err)
      | Inr d \<Rightarrow>
          (let cl = f_clients h c; cfg = h_cfg h
           in if RequirePass cfg \<noteq> [] \<and> \<not> c_Authenticated cl \<and> \<not> d_Is d FNoAuth then Some (h, Inl errNoAuth)
              else case (if d_Is d FNoAuth then Some None else checkPermissions ul cl d args) of
                None \<Rightarrow> None
              | Some (Some err) \<Rightarrow> Some (h, Inl err)
              | Some None \<Rightarrow>
                  if h_loading h \<and> \<not> d_Is d FLoading then Some (h, Inl errLoading)
                  else if Subscribed cl \<and> c_Proto cl = 2 \<and> \<not> d_Is d FSubscriberOK then Some (h, Inl (errSubscriberMode ul (d_fullName d)))
                  else if d_Is d FWrite then
                    (case write_checks eg c d h of
                       None \<Rightarrow> None
                     | Some (h1, Some err) \<Rightarrow> Some (h1, Inl err)
                     | Some (h1, None) \<Rightarrow> Some (h1, Inr d))
                  else Some (h, Inr d)))"

subsection \<open>Handlers\<close>

definition beginMulti :: "client \<Rightarrow> client" where
  "beginMulti cl = cl\<lparr>c_inMulti := True, c_multiAborted := False, c_queue := []\<rparr>"

definition endMulti :: "client \<Rightarrow> client" where
  "endMulti cl = cl\<lparr>c_inMulti := False, c_multiAborted := False, c_queue := []\<rparr>"

definition cmdMulti :: "nat \<Rightarrow> 'a front_scheme \<Rightarrow> 'a front_scheme \<times> resp_value" where
  "cmdMulti c s =
     (if c_inMulti (f_clients s c) then (s, v_Err (lit ''ERR MULTI calls can not be nested''))
      else (on_client c beginMulti s, v_OK))"

definition cmdDiscard :: "nat \<Rightarrow> 'a front_scheme \<Rightarrow> 'a front_scheme \<times> resp_value" where
  "cmdDiscard c s =
     (if \<not> c_inMulti (f_clients s c) then (s, v_Err (lit ''ERR DISCARD without MULTI''))
      else (w_Unwatch c (on_client c endMulti s), v_OK))"

definition cmdWatch :: "nat \<Rightarrow> bytes list \<Rightarrow> 'a front_scheme \<Rightarrow> 'a front_scheme \<times> resp_value" where
  "cmdWatch c args s =
     (if c_inMulti (f_clients s c) then (s, v_Err (lit ''ERR WATCH inside MULTI is not allowed''))
      else (fold (w_Watch c (c_DBIndex (f_clients s c))) (drop 1 args) s, v_OK))"

definition cmdUnwatch :: "nat \<Rightarrow> 'a front_scheme \<Rightarrow> 'a front_scheme \<times> resp_value" where
  "cmdUnwatch c s = (w_Unwatch c s, v_OK)"

definition authenticate :: "(bytes \<Rightarrow> bytes) \<Rightarrow> nat \<Rightarrow> bytes \<Rightarrow> bytes \<Rightarrow> 'e host \<Rightarrow> 'e host \<times> resp_value" where
  "authenticate sha c user pass h =
     (case acl_User (h_acl h) user of
        Some u \<Rightarrow>
          if user = lit ''default'' \<and> nopass u \<and> RequirePass (h_cfg h) = [] then
            (h, v_Err (lit ''ERR Client sent AUTH, but no password is set. Did you mean AUTH <username> <password>?''))
          else if \<not> CheckPassword sha u pass then
            (h, v_Err (lit ''WRONGPASS invalid username-password pair or user is disabled.''))
          else (on_client c (\<lambda>cl. cl\<lparr>c_Authenticated := True, c_User := user, c_Perms := Some u\<rparr>) h, v_OK)
      | None \<Rightarrow> (h, v_Err (lit ''WRONGPASS invalid username-password pair or user is disabled.'')))"

definition cmdAuth :: "unicode \<Rightarrow> (bytes \<Rightarrow> bytes) \<Rightarrow> nat \<Rightarrow> bytes list \<Rightarrow> 'e host \<Rightarrow> 'e host \<times> resp_value" where
  "cmdAuth ul sha c args h =
     (if length args = 2 then authenticate sha c (lit ''default'') (arg_at args 1) h
      else if length args = 3 then authenticate sha c (arg_at args 1) (arg_at args 2) h
      else (h, errWrongArgs ul (lit ''auth'')))"

definition cmdPing :: "unicode \<Rightarrow> bytes list \<Rightarrow> resp_value" where
  "cmdPing ul args =
     (if length args = 1 then v_Simple (lit ''PONG'')
      else if length args = 2 then v_Bulk (arg_at args 1) else errWrongArgs ul (lit ''ping''))"

definition cl_Select :: "'e engine \<Rightarrow> nat \<Rightarrow> int \<Rightarrow> 'e host \<Rightarrow> 'e host \<times> bool" where
  "cl_Select eg c n h =
     (if n < 0 \<or> n \<ge> eg_Databases eg (h_engine h) then (h, False)
      else (on_client c (\<lambda>cl. cl\<lparr>c_DBIndex := n\<rparr>) h, True))"

definition cmdSelect :: "'e engine \<Rightarrow> nat \<Rightarrow> bytes list \<Rightarrow> 'e host \<Rightarrow> 'e host \<times> resp_value" where
  "cmdSelect eg c args h =
     (case resp_parseInt (arg_at args 1) of
        Inl e \<Rightarrow> (h, v_Err (lit ''ERR value is not an integer or out of range''))
      | Inr n \<Rightarrow> (case cl_Select eg c n h of (h1, ok) \<Rightarrow>
          if ok then (h1, v_OK) else (h1, v_Err (lit ''ERR DB index is out of range''))))"

definition cmdReset :: "'e engine \<Rightarrow> nat \<Rightarrow> 'e host \<Rightarrow> 'e host \<times> resp_value" where
  "cmdReset eg c h =
     (let h = fst (cl_Select eg c 0 h);
          h = on_client c (\<lambda>cl. cl\<lparr>c_ClientName := [], c_Proto := 2\<rparr>) h;
          h = (if RequirePass (h_cfg h) \<noteq> [] then on_client c (\<lambda>cl. cl\<lparr>c_Authenticated := False\<rparr>) h else h)
      in (h, v_Simple (lit ''RESET'')))"

text \<open>A command of the engine: its state, what it emitted on the way, the hook calls, and its own effect.\<close>

definition run_engine :: "'e engine \<Rightarrow> bytes \<Rightarrow> nat \<Rightarrow> bytes list \<Rightarrow> 'e host \<Rightarrow> 'e host \<times> resp_value \<times> ctx" where
  "run_engine eg name c args h =
     (let cl = f_clients h c; oc = eg_run eg name (c_DBIndex cl) (c_inExec cl) args (h_engine h)
      in (signal_all (oc_modified oc) (h\<lparr>h_engine := oc_engine oc, h_log := h_log h @ oc_emitted oc\<rparr>), oc_reply oc,
          \<lparr>x_dirty = oc_dirty oc, x_effects = oc_effects oc, x_suppress = oc_suppress oc\<rparr>))"

definition propagate :: "nat \<Rightarrow> ctx \<Rightarrow> handler Descriptor \<Rightarrow> bytes list \<Rightarrow> 'e host \<Rightarrow> 'e host go" where
  "propagate c x d args h =
     (if \<not> d_Is d FWrite \<or> x_suppress x then Some h
      else if length (x_effects x) > 0 then Some (fold (Propagate (c_DBIndex (f_clients h c))) (x_effects x) h)
      else if x_dirty x = 0 then Some h
      else if d_Effect d = EffectCanonical then None
      else Some (Propagate (c_DBIndex (f_clients h c)) args h))"

text \<open>The handlers other than \<open>EXEC\<close>; \<open>None\<close> where one panics.\<close>

fun plain_handler :: "unicode \<Rightarrow> (bytes \<Rightarrow> bytes) \<Rightarrow> 'e engine \<Rightarrow> handler \<Rightarrow> nat \<Rightarrow> bytes list \<Rightarrow> 'e host \<Rightarrow> ('e host \<times> resp_value \<times> ctx) go" where
  "plain_handler ul sha eg HMulti c args h = (case cmdMulti c h of (h, v) \<Rightarrow> Some (h, v, no_ctx))"
| "plain_handler ul sha eg HDiscard c args h = (case cmdDiscard c h of (h, v) \<Rightarrow> Some (h, v, no_ctx))"
| "plain_handler ul sha eg HWatch c args h = (case cmdWatch c args h of (h, v) \<Rightarrow> Some (h, v, no_ctx))"
| "plain_handler ul sha eg HUnwatch c args h = (case cmdUnwatch c h of (h, v) \<Rightarrow> Some (h, v, no_ctx))"
| "plain_handler ul sha eg (HSubscribe p) c args h = (case cmd_subscribe c p args h of (h, v) \<Rightarrow> Some (h, v, no_ctx))"
| "plain_handler ul sha eg (HUnsubscribe p) c args h = (case cmd_unsubscribe c p args h of (h, v) \<Rightarrow> Some (h, v, no_ctx))"
| "plain_handler ul sha eg HPublish c args h = (case cmdPublish args h of (h, v) \<Rightarrow> Some (h, v, no_ctx))"
| "plain_handler ul sha eg HMonitor c args h = Some (mon_Add c h, v_OK, no_ctx)"
| "plain_handler ul sha eg HAuth c args h = (case cmdAuth ul sha c args h of (h, v) \<Rightarrow> Some (h, v, no_ctx))"
| "plain_handler ul sha eg HPing c args h = Some (h, cmdPing ul args, no_ctx)"
| "plain_handler ul sha eg HEcho c args h = Some (h, v_Bulk (arg_at args 1), no_ctx)"
| "plain_handler ul sha eg HSelect c args h = (case cmdSelect eg c args h of (h, v) \<Rightarrow> Some (h, v, no_ctx))"
| "plain_handler ul sha eg HQuit c args h = Some (on_client c (\<lambda>cl. cl\<lparr>c_CloseAfterReply := True\<rparr>) h, v_OK, no_ctx)"
| "plain_handler ul sha eg HReset c args h = (case cmdReset eg c h of (h, v) \<Rightarrow> Some (h, v, no_ctx))"
| "plain_handler ul sha eg HACLSetUser c args h =
     (case cmdACLSetUser sha ul args (h_acl h) of None \<Rightarrow> None | Some (a, v) \<Rightarrow> Some (h\<lparr>h_acl := a\<rparr>, v, no_ctx))"
| "plain_handler ul sha eg HACLDelUser c args h =
     (case cmdACLDelUser args (h_acl h) of (a, v) \<Rightarrow> Some (h\<lparr>h_acl := a\<rparr>, v, no_ctx))"
| "plain_handler ul sha eg (HEngine name) c args h = Some (run_engine eg name c args h)"
| "plain_handler ul sha eg HExec c args h = None"

text \<open>
  \<open>EXEC\<close>, over the function \<open>rq\<close> that runs one queued command. The ordering locks it takes have no
  state here; \<open>inExec\<close> is set while they are held and commands run.
\<close>

fun run_queue :: "(bytes list \<Rightarrow> 'e host \<Rightarrow> 'e host go) \<Rightarrow> bytes list list \<Rightarrow> 'e host \<Rightarrow> 'e host go" where
  "run_queue rq [] h = Some h"
| "run_queue rq (args # q) h = (case rq args h of None \<Rightarrow> None | Some h1 \<Rightarrow> run_queue rq q h1)"

definition cmdExec :: "(bytes list \<Rightarrow> 'e host \<Rightarrow> 'e host go) \<Rightarrow> nat \<Rightarrow> 'e host \<Rightarrow> ('e host \<times> resp_value) go" where
  "cmdExec rq c h =
     (let cl = f_clients h c
      in if \<not> c_inMulti cl then Some (h, v_Err (lit ''ERR EXEC without MULTI''))
         else let queued = c_queue cl; aborted = c_multiAborted cl; h = on_client c endMulti h
         in if aborted then
              Some (w_Unwatch c h, v_Err (lit ''EXECABORT Transaction discarded because of previous errors.''))
            else if c_watchBroken (f_clients h c) then Some (w_Unwatch c h, v_NullArray)
            else let h = on_client c (\<lambda>cl. cl\<lparr>c_Out := c_Out cl @ [OutArrayHeader (length queued)], c_inExec := True\<rparr>) h
            in case run_queue rq queued h of
                 None \<Rightarrow> None
               | Some h \<Rightarrow> Some (w_Unwatch c (on_client c (\<lambda>cl. cl\<lparr>c_inExec := False\<rparr>) h), v_None))"

text \<open>
  Handlers with \<open>EXEC\<close>. A queued command could be \<open>EXEC\<close> again only if its descriptor allowed it;
  \<open>n\<close> bounds that nesting, and one level is enough for a table in which \<open>EXEC\<close> is \<open>NoMulti\<close>.
\<close>

definition queued_step :: "unicode \<Rightarrow> 'e engine \<Rightarrow> (handler Descriptor \<Rightarrow> bytes list \<Rightarrow> 'e host \<Rightarrow> ('e host \<times> resp_value \<times> ctx) go) \<Rightarrow>
    nat \<Rightarrow> bytes list \<Rightarrow> 'e host \<Rightarrow> 'e host go" where
  "queued_step ul eg run c args h =
     (case resolve ul eg c args h of
        None \<Rightarrow> None
      | Some (h1, Inl reply) \<Rightarrow> Some (out_WriteValue c reply h1)
      | Some (h1, Inr d) \<Rightarrow> do {
          (h2, v, x) \<leftarrow> run d args h1;
          h3 \<leftarrow> propagate c x d args h2;
          Some (out_WriteValue c v h3)
        })"

fun run_handler :: "nat \<Rightarrow> unicode \<Rightarrow> (bytes \<Rightarrow> bytes) \<Rightarrow> 'e engine \<Rightarrow> nat \<Rightarrow> handler Descriptor \<Rightarrow> bytes list \<Rightarrow> 'e host \<Rightarrow> ('e host \<times> resp_value \<times> ctx) go" where
  "run_handler 0 ul sha eg c d args h =
     (case d_Handler d of None \<Rightarrow> None | Some hn \<Rightarrow> plain_handler ul sha eg hn c args h)"
| "run_handler (Suc n) ul sha eg c d args h =
     (case d_Handler d of
        None \<Rightarrow> None
      | Some HExec \<Rightarrow> map_option (\<lambda>(h, v). (h, v, no_ctx)) (cmdExec (queued_step ul eg (run_handler n ul sha eg c) c) c h)
      | Some hn \<Rightarrow> plain_handler ul sha eg hn c args h)"

definition runQueued :: "unicode \<Rightarrow> (bytes \<Rightarrow> bytes) \<Rightarrow> 'e engine \<Rightarrow> nat \<Rightarrow> bytes list \<Rightarrow> 'e host \<Rightarrow> 'e host go" where
  "runQueued ul sha eg c = queued_step ul eg (run_handler 0 ul sha eg c) c"

definition runAndPropagate :: "unicode \<Rightarrow> (bytes \<Rightarrow> bytes) \<Rightarrow> 'e engine \<Rightarrow> nat \<Rightarrow> handler Descriptor \<Rightarrow> bytes list \<Rightarrow> 'e host \<Rightarrow> ('e host \<times> resp_value) go" where
  "runAndPropagate ul sha eg c d args h = do {
     (h1, v, x) \<leftarrow> run_handler 1 ul sha eg c d args h;
     h2 \<leftarrow> propagate c x d args h1;
     Some (h2, v)
   }"

definition queueCommand :: "unicode \<Rightarrow> 'e engine \<Rightarrow> nat \<Rightarrow> bytes list \<Rightarrow> 'e host \<Rightarrow> ('e host \<times> resp_value) go" where
  "queueCommand ul eg c args h =
     (case resolve ul eg c args h of
        None \<Rightarrow> None
      | Some (h1, Inl reply) \<Rightarrow> Some (on_client c (\<lambda>cl. cl\<lparr>c_multiAborted := True\<rparr>) h1, reply)
      | Some (h1, Inr d) \<Rightarrow>
          if d_Is d FNoMulti then
            Some (on_client c (\<lambda>cl. cl\<lparr>c_multiAborted := True\<rparr>) h1, v_Err (lit ''ERR '' @ d_fullName d @ lit '' is not allowed in MULTI''))
          else Some (on_client c (\<lambda>cl. cl\<lparr>c_queue := c_queue cl @ [args]\<rparr>) h1, v_Simple (lit ''QUEUED'')))"

text \<open>\<open>lib\<close> holds what the model takes from the standard library: Unicode tables, SHA-256, \<open>strconv.Quote\<close>.\<close>

record lib =
  l_unicode :: unicode
  l_sha :: "bytes \<Rightarrow> bytes"
  l_quote :: "bytes \<Rightarrow> bytes"

definition Execute :: "lib \<Rightarrow> 'e engine \<Rightarrow> int \<times> nat \<Rightarrow> nat \<Rightarrow> bytes list \<Rightarrow> 'e host \<Rightarrow> 'e host go" where
  "Execute l eg now c args h0 =
     (if length args = 0 then Some h0
      else let ul = l_unicode l; h = mon_Feed ul (l_quote l) now c args h0
      in if c_inMulti (f_clients h c) \<and> (case Lookup (h_table h) (arg_at args 0) of None \<Rightarrow> True | Some d \<Rightarrow> \<not> d_Is d FNoMulti)
         then map_option (\<lambda>(h1, v). out_WriteValue c v h1) (queueCommand ul eg c args h)
         else case resolve ul eg c args h of
           None \<Rightarrow> None
         | Some (h1, Inl reply) \<Rightarrow> Some (out_WriteValue c reply h1)
         | Some (h1, Inr d) \<Rightarrow> map_option (\<lambda>(h2, v). out_WriteValue c v h2) (runAndPropagate ul (l_sha l) eg c d args h1))"

subsection \<open>Connections\<close>

definition accept :: "nat \<Rightarrow> bytes \<Rightarrow> 'e host \<Rightarrow> 'e host" where
  "accept c addr h =
     on_client c (\<lambda>_. (NewClient addr (RequirePass (h_cfg h) = []))\<lparr>c_Perms := acl_User (h_acl h) (lit ''default'')\<rparr>) h"

definition disconnect :: "nat \<Rightarrow> 'a front_scheme \<Rightarrow> 'a front_scheme" where
  "disconnect c s = w_Unwatch c (mon_Remove c (ps_Remove c s))"

end
