(* ===== verification/Transactions.thy ===== *)
theory Transactions
  imports Dispatch
begin

text \<open>
  What the dispatcher guarantees of transactions: the watch registry, what each step of a connection
  does to the transactions of all others, and from that the two promises of \<open>MULTI\<close>: the queue is
  run whole or not at all, and \<open>EXEC\<close> after \<open>WATCH\<close> is a compare and set.
\<close>

subsection \<open>The watch registry\<close>

definition watch_ok :: "'a front_scheme \<Rightarrow> bool" where
  "watch_ok s \<longleftrightarrow> reg_ok (f_watchers s) \<and>
     (\<forall>c k. c \<in> set (reg_get (f_watchers s) k) \<longleftrightarrow> k \<in> set (c_watching (f_clients s c)))"

definition holds_watch :: "'a front_scheme \<Rightarrow> nat \<Rightarrow> watchKey set" where
  "holds_watch s c = set (c_watching (f_clients s c))"

lemma Watch_ok:
  assumes "watch_ok s"
  shows "watch_ok (w_Watch c db key s)"
    "holds_watch (w_Watch c db key s) d = (if d = c then insert (db, key) (holds_watch s c) else holds_watch s d)"
  using assms by (auto simp: watch_ok_def w_Watch_def Let_def reg_ok_add reg_get_add holds_watch_def)

lemma Unwatch_ok:
  assumes "watch_ok s"
  shows "watch_ok (w_Unwatch c s)"
    "holds_watch (w_Unwatch c s) d = (if d = c then {} else holds_watch s d)"
  using assms by (auto simp: watch_ok_def w_Unwatch_def Let_def reg_ok_del_all reg_del_all_get holds_watch_def)

lemma watch_agree: "watch_ok s \<Longrightarrow> c \<in> set (reg_get (f_watchers s) k) \<longleftrightarrow> k \<in> set (c_watching (f_clients s c))"
  unfolding watch_ok_def by blast

interpretation watch: subscription watch_ok "\<lambda>s k. set (reg_get (f_watchers s) k)" holds_watch
  "\<lambda>s. fst ` set (f_watchers s)" "\<lambda>c k s. w_Watch c (fst k) (snd k) s" w_Unwatch
proof unfold_locales
  fix s :: "'a front_scheme" and c k assume "watch_ok s"
  then show "c \<in> set (reg_get (f_watchers s) k) \<longleftrightarrow> k \<in> holds_watch s c" by (simp add: watch_agree holds_watch_def)
next
  fix s :: "'a front_scheme" and k assume "watch_ok s"
  then show "k \<in> fst ` set (f_watchers s) \<longleftrightarrow> set (reg_get (f_watchers s) k) \<noteq> {}" by (simp add: watch_ok_def reg_dom)
qed (simp_all add: Watch_ok Unwatch_ok)

subsection \<open>Signals\<close>

lemma break_all:
  "f_clients (fold (\<lambda>c. on_client c (\<lambda>cl. cl\<lparr>c_watchBroken := True\<rparr>)) cs s) d =
     (if d \<in> set cs then (f_clients s d)\<lparr>c_watchBroken := True\<rparr> else f_clients s d)"
  "f_watchers (fold (\<lambda>c. on_client c (\<lambda>cl. cl\<lparr>c_watchBroken := True\<rparr>)) cs s) = f_watchers s"
  "front.more (fold (\<lambda>c. on_client c (\<lambda>cl. cl\<lparr>c_watchBroken := True\<rparr>)) cs s) = front.more s"
  by (induction cs arbitrary: s) (auto simp: on_client_def)

lemma KeyModified_frame:
  "f_clients (w_KeyModified k s) d =
     (if d \<in> set (reg_get (f_watchers s) k) then (f_clients s d)\<lparr>c_watchBroken := True\<rparr> else f_clients s d)"
  "f_watchers (w_KeyModified k s) = f_watchers s" "front.more (w_KeyModified k s) = front.more s"
  by (simp_all add: w_KeyModified_def break_all)

lemma signals_frame:
  "f_clients (fold w_KeyModified ks s) d =
     (if \<exists>k \<in> set ks. d \<in> set (reg_get (f_watchers s) k) then (f_clients s d)\<lparr>c_watchBroken := True\<rparr> else f_clients s d)"
  "f_watchers (fold w_KeyModified ks s) = f_watchers s" "front.more (fold w_KeyModified ks s) = front.more s"
  by (induction ks arbitrary: s) (auto simp: KeyModified_frame)

lemma host_more_eq:
  assumes "front.more (h :: 'e host) = front.more h'"
  shows "h_engine h = h_engine h'" "h_table h = h_table h'" "h_acl h = h_acl h'" "h_cfg h = h_cfg h'" "h_log h = h_log h'"
    "h_modified h = h_modified h'" "h_loading h = h_loading h'" "h_replica h = h_replica h'" "h_perr h = h_perr h'"
    "h_insync h = h_insync h'"
  using assms by (cases h; cases h'; simp)+


subsection \<open>Steps that leave transactions alone\<close>

definition tx_view :: "client \<Rightarrow> watchKey list \<times> bool \<times> bool \<times> bool \<times> bytes list list" where
  "tx_view cl = (c_watching cl, c_watchBroken cl, c_inMulti cl, c_multiAborted cl, c_queue cl)"

definition still :: "'a front_scheme \<Rightarrow> 'a front_scheme \<Rightarrow> bool" where
  "still s t \<longleftrightarrow> f_watchers t = f_watchers s \<and> front.more t = front.more s \<and>
     (\<forall>d. tx_view (f_clients t d) = tx_view (f_clients s d))"

lemma still_refl [simp]: "still s s"
  by (simp add: still_def)

lemma still_trans: "still s t \<Longrightarrow> still t u \<Longrightarrow> still s u"
  by (simp add: still_def)

lemma still_on_client: "(\<And>cl. tx_view (f cl) = tx_view cl) \<Longrightarrow> still s (on_client c f s)"
  by (simp add: still_def) (simp add: on_client_def)

lemma still_registry: "still s (t\<lparr>f_channels := m\<rparr>) \<longleftrightarrow> still s t" "still s (t\<lparr>f_patterns := m\<rparr>) \<longleftrightarrow> still s t"
  "still s (t\<lparr>f_monitors := ms\<rparr>) \<longleftrightarrow> still s t"
  by (simp_all add: still_def)

lemma still_fold: "(\<And>x s. still s (g x s)) \<Longrightarrow> still s (fold g xs s)"
  by (induction xs arbitrary: s) (auto intro: still_trans)

lemma still_WriteValue: "still s (out_WriteValue c v s)"
  unfolding out_WriteValue_def by (rule still_on_client) (simp add: tx_view_def)

lemma still_deliver: "still s (fst (deliver c v s))"
  by (auto simp: deliver_def tx_view_def intro!: still_on_client)

lemma still_deliveries: "still s (fst (deliveries ds s))"
proof (induction ds arbitrary: s)
  case (Cons d ds)
  show ?case using still_trans[OF still_deliver Cons] by (cases d) (simp add: case_prod_unfold)
qed simp

lemma still_Publish: "still s (fst (ps_Publish channel payload s))"
  by (simp add: Publish_deliveries still_deliveries)

lemma still_sub: "still s (fst (ps_Subscribe c k s))" "still s (fst (ps_PSubscribe c k s))"
  "still s (removeChannelLocked c k s)" "still s (removePatternLocked c k s)"
  "still s (fst (ps_Unsubscribe c k s))" "still s (fst (ps_PUnsubscribe c k s))"
  by (auto simp: ps_Subscribe_def ps_PSubscribe_def removeChannelLocked_def removePatternLocked_def ps_Unsubscribe_def
      ps_PUnsubscribe_def Let_def still_registry tx_view_def intro!: still_on_client)

lemma still_subscribe_loop: "still s (subscribe_loop c p ns s)"
proof (induction ns arbitrary: s)
  case (Cons n ns)
  show ?case using still_trans[OF still_trans[OF still_sub(1) still_WriteValue] Cons] still_trans[OF still_trans[OF still_sub(2) still_WriteValue] Cons]
    by (cases p) (simp_all add: case_prod_unfold)
qed simp

lemma still_unsubscribe_loop: "still s (unsubscribe_loop c p ns s)"
proof (induction ns arbitrary: s)
  case (Cons n ns)
  show ?case using still_trans[OF still_trans[OF still_sub(5) still_WriteValue] Cons] still_trans[OF still_trans[OF still_sub(6) still_WriteValue] Cons]
    by (cases p) (simp_all add: case_prod_unfold)
qed simp

lemma still_commands: "still s (fst (cmd_subscribe c p args s))" "still s (fst (cmd_unsubscribe c p args s))"
  "still s (fst (cmdPublish args s))"
  by (simp_all add: cmd_subscribe_def cmd_unsubscribe_def cmdPublish_def Let_def still_subscribe_loop still_unsubscribe_loop
      still_WriteValue case_prod_unfold still_Publish)

lemma still_feed: "still s (feed_loop c line ms s)"
proof (induction ms arbitrary: s)
  case (Cons m ms)
  show ?case using Cons still_trans[OF still_deliver Cons] by simp
qed simp

lemma still_Feed: "still s (mon_Feed ul q now c args s)"
  by (simp add: mon_Feed_def still_feed)

lemma still_monitor: "still s (mon_Add c s)" "still s (mon_Remove c s)"
  by (auto simp: mon_Add_def mon_Remove_def still_registry tx_view_def intro!: still_on_client)

subsection \<open>Steps that carry signals\<close>

text \<open>
  \<open>carries h h'\<close>: the step only broke watches, those of the keys the hook was called for; the
  registry, the table and the queues are as before.
\<close>

definition signalled :: "'e host \<Rightarrow> 'e host \<Rightarrow> watchKey list \<Rightarrow> bool" where
  "signalled h h' new \<longleftrightarrow> h_modified h' = h_modified h @ new \<and> f_watchers h' = f_watchers h \<and> h_table h' = h_table h \<and>
     (\<forall>d. c_watching (f_clients h' d) = c_watching (f_clients h d) \<and> c_inMulti (f_clients h' d) = c_inMulti (f_clients h d) \<and>
        c_multiAborted (f_clients h' d) = c_multiAborted (f_clients h d) \<and> c_queue (f_clients h' d) = c_queue (f_clients h d) \<and>
        (c_watchBroken (f_clients h' d) \<longleftrightarrow> c_watchBroken (f_clients h d) \<or> (\<exists>k \<in> set new. d \<in> set (reg_get (f_watchers h) k))))"

definition carries :: "'e host \<Rightarrow> 'e host \<Rightarrow> bool" where
  "carries h h' \<longleftrightarrow> (\<exists>new. signalled h h' new)"

lemma carriesI: "signalled h h' new \<Longrightarrow> carries h h'"
  unfolding carries_def by (rule exI)

lemma signalled_trans: "signalled h h1 new \<Longrightarrow> signalled h1 h2 new' \<Longrightarrow> signalled h h2 (new @ new')"
  by (auto simp: signalled_def)

lemma carries_trans: "carries h h1 \<Longrightarrow> carries h1 h2 \<Longrightarrow> carries h h2"
  unfolding carries_def using signalled_trans by blast

lemma still_signalled: "still h h' \<Longrightarrow> signalled h h' []"
  using host_more_eq[of h' h] by (auto simp: still_def signalled_def tx_view_def)

lemma still_carries: "still h h' \<Longrightarrow> carries h h'"
  by (rule carriesI[OF still_signalled])

lemma carries_refl [simp]: "carries h h"
  by (simp add: still_carries)

lemma carries_acl: "carries h (h\<lparr>h_acl := a\<rparr>)"
  unfolding carries_def by (rule exI[of _ "[]"]) (simp add: signalled_def)

lemma signal_all_signalled: "signalled h (signal_all ks (h\<lparr>h_engine := e, h_log := lg\<rparr>)) ks"
proof -
  let ?h = "h\<lparr>h_engine := e, h_log := lg\<rparr>"
  have m: "h_table (fold w_KeyModified ks ?h) = h_table ?h"
    using host_more_eq(2)[OF signals_frame(3)[of ks ?h]] by simp
  show ?thesis by (simp add: signalled_def signal_all_def signals_frame m)
qed

lemma signal_all_carries: "carries h (signal_all ks (h\<lparr>h_engine := e, h_log := lg\<rparr>))"
  by (rule carriesI[OF signal_all_signalled])

lemma write_checks_cases:
  assumes w: "write_checks eg c d h = Some (h', r)"
  obtains "h' = h" | e em mo where "h' = signal_all mo (h\<lparr>h_engine := e, h_log := h_log h @ em\<rparr>)"
proof (cases "d_Is d FDenyOOM \<and> overMemoryLimit eg h (MaxMemory (h_cfg h)) \<and> h_perr h = None")
  case False
  then have "h' = h" using w by (auto simp: write_checks_def Let_def split: if_split_asm option.split_asm)
  then show thesis by (rule that(1))
next
  case True
  show thesis
  proof (cases "eg_Evict eg (c_inExec (f_clients h c)) (h_engine h)")
    case None
    then have "h' = h" using w True by (simp add: write_checks_def Let_def split: if_split_asm)
    then show thesis by (rule that(1))
  next
    case (Some p)
    obtain e em mo where p: "p = (e, em, mo)" by (cases p)
    have "h' = h \<or> h' = signal_all mo (h\<lparr>h_engine := e, h_log := h_log h @ em\<rparr>)"
      using w True Some p unfolding write_checks_def Let_def by (simp split: if_split_asm)
    then show thesis using that by blast
  qed
qed

lemma write_checks_carries: "write_checks eg c d h = Some (h', r) \<Longrightarrow> carries h h'"
  by (erule write_checks_cases) (auto intro: signal_all_carries)

lemma resolve_cases:
  assumes "resolve ul eg c args h = Some (h', r)"
  obtains "h' = h" | d r' where "write_checks eg c d h = Some (h', r')"
  using assms by (auto simp: resolve_def Let_def split: if_splits option.splits sum.splits)

lemma resolve_carries: "resolve ul eg c args h = Some (h', r) \<Longrightarrow> carries h h'"
  by (erule resolve_cases) (auto intro: write_checks_carries)

lemma run_engine_carries: "carries h (fst (run_engine eg name c args h))"
  by (simp add: run_engine_def Let_def signal_all_carries)

lemma Propagate_signalled: "signalled h (Propagate db args h) []"
  by (simp add: signalled_def Propagate_def)

lemma propagate_carries: "propagate c x d args h = Some h' \<Longrightarrow> carries h h'"
proof -
  have f: "carries h (fold (Propagate db) es h)" for db es and h :: "'a host"
  proof (induction es arbitrary: h)
    case (Cons e es)
    have "carries h (Propagate db e h)" by (rule carriesI[OF Propagate_signalled])
    then show ?case using carries_trans[OF _ Cons] by simp
  qed simp
  show "propagate c x d args h = Some h' \<Longrightarrow> carries h h'"
    using f[of h _ "[args]"] f[of h] by (auto simp: propagate_def split: if_splits)
qed

text \<open>The handlers that change a transaction, and the others.\<close>

definition tx_handlers :: "handler set" where
  "tx_handlers = {HMulti, HExec, HDiscard, HWatch, HUnwatch}"

lemma still_auth: "still h (fst (authenticate sha c user pass h))"
  by (auto simp: authenticate_def tx_view_def intro!: still_on_client split: option.splits)

lemma still_connection:
  "still h (fst (cmdAuth ul sha c args h))" "still h (fst (cmdSelect eg c args h))" "still h (fst (cmdReset eg c h))"
proof -
  have s: "still h (fst (cl_Select eg c n h))" for n and h :: "'a host"
    by (auto simp: cl_Select_def tx_view_def intro!: still_on_client)
  show "still h (fst (cmdAuth ul sha c args h))" by (simp add: cmdAuth_def still_auth)
  show "still h (fst (cmdSelect eg c args h))" using s by (auto simp: cmdSelect_def case_prod_unfold split: sum.splits)
  have n: "still g (on_client c (\<lambda>cl. cl\<lparr>c_ClientName := [], c_Proto := 2\<rparr>) g)"
    "still g (on_client c (\<lambda>cl. cl\<lparr>c_Authenticated := False\<rparr>) g)" for g :: "'a host"
    by (rule still_on_client, simp add: tx_view_def)+
  show "still h (fst (cmdReset eg c h))"
    using still_trans[OF s n(1)] still_trans[OF still_trans[OF s n(1)] n(2)] by (simp add: cmdReset_def Let_def)
qed

lemma plain_carries:
  assumes "hn \<notin> tx_handlers" "plain_handler ul sha eg hn c args h = Some (h', v, x)"
  shows "carries h h'"
proof (cases hn)
  case (HEngine name)
  then show ?thesis using assms(2) run_engine_carries[of h eg name c args] by simp
next
  case HACLSetUser
  then show ?thesis using assms(2) carries_acl by (auto split: option.splits)
next
  case HACLDelUser
  then show ?thesis using assms(2) carries_acl by (auto split: prod.splits)
next
  case HQuit
  then show ?thesis using assms(2) by (auto simp: tx_view_def intro!: still_carries still_on_client)
qed (use assms still_commands still_connection still_monitor in \<open>auto simp: tx_handlers_def case_prod_unfold intro!: still_carries\<close>)

text \<open>What registration fixes: the commands that control a transaction cannot be queued.\<close>

definition tx_table :: "unicode \<Rightarrow> handler Table \<Rightarrow> bool" where
  "tx_table ul t \<longleftrightarrow> (\<forall>args d. find_command ul t args = Inr d \<longrightarrow> d_Handler d \<in> Some ` tx_handlers \<longrightarrow> d_Is d FNoMulti)"

definition queues_ok :: "unicode \<Rightarrow> 'e host \<Rightarrow> bool" where
  "queues_ok ul h \<longleftrightarrow> (\<forall>c. \<forall>args \<in> set (c_queue (f_clients h c)). \<forall>d. find_command ul (h_table h) args = Inr d \<longrightarrow> \<not> d_Is d FNoMulti)"

definition host_ok :: "unicode \<Rightarrow> 'e host \<Rightarrow> bool" where
  "host_ok ul h \<longleftrightarrow> watch_ok h \<and> tx_table ul (h_table h) \<and> queues_ok ul h"

lemma carries_ok: "carries h h' \<Longrightarrow> host_ok ul h \<Longrightarrow> host_ok ul h'"
  by (auto simp: carries_def signalled_def host_ok_def watch_ok_def queues_ok_def)

lemma resolve_find: "resolve ul eg c args h = Some (h', Inr d) \<Longrightarrow> find_command ul (h_table h) args = Inr d"
  by (auto simp: resolve_def Let_def split: if_split_asm option.split_asm sum.split_asm)

lemma queued_step_carries:
  assumes "tx_table ul (h_table h)" "\<And>d. find_command ul (h_table h) args = Inr d \<Longrightarrow> \<not> d_Is d FNoMulti"
    "runQueued ul sha eg c args h = Some h'"
  shows "carries h h'"
proof -
  obtain h1 r where 1: "resolve ul eg c args h = Some (h1, r)"
    using assms(3) by (auto simp: runQueued_def queued_step_def split: option.splits)
  have c1: "carries h h1" by (rule resolve_carries[OF 1])
  show ?thesis
  proof (cases r)
    case (Inl reply)
    then have "h' = out_WriteValue c reply h1" using assms(3) 1 by (simp add: runQueued_def queued_step_def)
    then show ?thesis using carries_trans[OF c1 still_carries[OF still_WriteValue]] by simp
  next
    case (Inr d)
    then have f: "find_command ul (h_table h) args = Inr d" using resolve_find 1 by blast
    obtain h2 v x h3 where 2: "run_handler 0 ul sha eg c d args h1 = Some (h2, v, x)" "propagate c x d args h2 = Some h3"
      "h' = out_WriteValue c v h3"
      using assms(3) 1 Inr by (auto simp: runQueued_def queued_step_def bind_eq_Some_conv)
    obtain hn where hn: "d_Handler d = Some hn" "plain_handler ul sha eg hn c args h1 = Some (h2, v, x)"
      using 2(1) by (auto split: option.splits)
    have "hn \<notin> tx_handlers" using assms(1,2) f hn(1) by (auto simp: tx_table_def)
    then have "carries h1 h2" using plain_carries hn(2) by blast
    then show ?thesis
      using carries_trans[OF c1] carries_trans[OF _ carries_trans[OF propagate_carries[OF 2(2)] still_carries[OF still_WriteValue]]] 2(3) by blast
  qed
qed

lemma run_queue_carries:
  assumes "tx_table ul (h_table h)" "\<And>args d. args \<in> set q \<Longrightarrow> find_command ul (h_table h) args = Inr d \<Longrightarrow> \<not> d_Is d FNoMulti"
    "run_queue (runQueued ul sha eg c) q h = Some h'"
  shows "carries h h'"
  using assms
proof (induction q arbitrary: h)
  case (Cons args q)
  then obtain h1 where 1: "runQueued ul sha eg c args h = Some h1" "run_queue (runQueued ul sha eg c) q h1 = Some h'"
    by (auto split: option.splits)
  have c1: "carries h h1" by (rule queued_step_carries[OF Cons.prems(1) _ 1(1)]) (use Cons.prems(2) in auto)
  then have t: "h_table h1 = h_table h" by (auto simp: carries_def signalled_def)
  have "carries h1 h'" by (rule Cons.IH[OF _ _ 1(2)]) (use Cons.prems(1,2) t in auto)
  then show ?case using carries_trans c1 by blast
qed simp


subsection \<open>A command of one connection\<close>

text \<open>The watch part and the queue part of a step, apart.\<close>

definition wsig :: "'e host \<Rightarrow> 'e host \<Rightarrow> bool" where
  "wsig h h' \<longleftrightarrow> (\<exists>new. h_modified h' = h_modified h @ new \<and> f_watchers h' = f_watchers h \<and> h_table h' = h_table h \<and>
     (\<forall>d. c_watching (f_clients h' d) = c_watching (f_clients h d) \<and>
        (c_watchBroken (f_clients h' d) \<longleftrightarrow> c_watchBroken (f_clients h d) \<or> (\<exists>k \<in> set new. d \<in> set (reg_get (f_watchers h) k)))))"

definition qview :: "client \<Rightarrow> bool \<times> bool \<times> bytes list list" where
  "qview cl = (c_inMulti cl, c_multiAborted cl, c_queue cl)"

definition queues_same :: "'e host \<Rightarrow> 'e host \<Rightarrow> bool" where
  "queues_same h h' \<longleftrightarrow> h_table h' = h_table h \<and> (\<forall>d. qview (f_clients h' d) = qview (f_clients h d))"

lemma carries_wsig: "carries h h' \<Longrightarrow> wsig h h'"
  unfolding carries_def signalled_def wsig_def by blast

lemma carries_queues: "carries h h' \<Longrightarrow> queues_same h h'"
  by (auto simp: carries_def signalled_def queues_same_def qview_def)

lemma wsig_trans: "wsig h h1 \<Longrightarrow> wsig h1 h2 \<Longrightarrow> wsig h h2"
proof -
  assume "wsig h h1" "wsig h1 h2"
  then obtain n1 n2 where
    1: "h_modified h1 = h_modified h @ n1" "f_watchers h1 = f_watchers h" "h_table h1 = h_table h"
      "\<forall>d. c_watching (f_clients h1 d) = c_watching (f_clients h d) \<and>
        (c_watchBroken (f_clients h1 d) \<longleftrightarrow> c_watchBroken (f_clients h d) \<or> (\<exists>k \<in> set n1. d \<in> set (reg_get (f_watchers h) k)))"
    and 2: "h_modified h2 = h_modified h1 @ n2" "f_watchers h2 = f_watchers h1" "h_table h2 = h_table h1"
      "\<forall>d. c_watching (f_clients h2 d) = c_watching (f_clients h1 d) \<and>
        (c_watchBroken (f_clients h2 d) \<longleftrightarrow> c_watchBroken (f_clients h1 d) \<or> (\<exists>k \<in> set n2. d \<in> set (reg_get (f_watchers h1) k)))"
    by (auto simp: wsig_def)
  then show ?thesis unfolding wsig_def by (intro exI[of _ "n1 @ n2"]) (simp, blast)
qed

lemma on_client_host [simp]:
  "h_modified (on_client c f h) = h_modified h" "h_table (on_client c f h) = h_table h" "h_engine (on_client c f h) = h_engine h"
  "h_log (on_client c f h) = h_log h" "h_cfg (on_client c f h) = h_cfg h" "h_acl (on_client c f h) = h_acl h"
  by (simp_all add: on_client_def)

lemma wsig_on_client:
  "(\<And>cl. c_watching (f cl) = c_watching cl) \<Longrightarrow> (\<And>cl. c_watchBroken (f cl) = c_watchBroken cl) \<Longrightarrow> wsig h (on_client c f h)"
  unfolding wsig_def by (rule exI[of _ "[]"]) simp

lemma wsig_ok: "wsig h h' \<Longrightarrow> watch_ok h \<Longrightarrow> watch_ok h'"
  by (auto simp: wsig_def watch_ok_def)

text \<open>
  What a command of the connection \<open>c\<close> does to watches: it may drop those of \<open>c\<close>; otherwise keys
  stay watched and a watch breaks exactly when the hook was called for one of its keys.
\<close>

definition watch_step :: "nat \<Rightarrow> 'e host \<Rightarrow> 'e host \<Rightarrow> bool" where
  "watch_step c h h' \<longleftrightarrow> (\<exists>new. h_modified h' = h_modified h @ new \<and> h_table h' = h_table h \<and>
     (\<forall>d. (d = c \<and> c_watching (f_clients h' d) = [] \<and> \<not> c_watchBroken (f_clients h' d)) \<or>
        (set (c_watching (f_clients h d)) \<subseteq> set (c_watching (f_clients h' d)) \<and>
         (c_watchBroken (f_clients h' d) \<longleftrightarrow> c_watchBroken (f_clients h d) \<or> (\<exists>k \<in> set new. k \<in> set (c_watching (f_clients h d)))))))"

lemma wsig_watch_step:
  assumes "watch_ok h" "wsig h h1" "watch_step c h1 h2"
  shows "watch_step c h h2"
proof -
  obtain n1 where 1: "h_modified h1 = h_modified h @ n1" "h_table h1 = h_table h"
    "\<forall>d. c_watching (f_clients h1 d) = c_watching (f_clients h d) \<and>
      (c_watchBroken (f_clients h1 d) \<longleftrightarrow> c_watchBroken (f_clients h d) \<or> (\<exists>k \<in> set n1. k \<in> set (c_watching (f_clients h d))))"
    using assms(1,2) by (auto simp: wsig_def watch_agree)
  obtain n2 where 2: "h_modified h2 = h_modified h1 @ n2" "h_table h2 = h_table h1"
    "\<And>d. (d = c \<and> c_watching (f_clients h2 d) = [] \<and> \<not> c_watchBroken (f_clients h2 d)) \<or>
        (set (c_watching (f_clients h1 d)) \<subseteq> set (c_watching (f_clients h2 d)) \<and>
         (c_watchBroken (f_clients h2 d) \<longleftrightarrow> c_watchBroken (f_clients h1 d) \<or> (\<exists>k \<in> set n2. k \<in> set (c_watching (f_clients h1 d)))))"
    using assms(3) unfolding watch_step_def by blast
  have "h_modified h2 = h_modified h @ (n1 @ n2)" "h_table h2 = h_table h" using 1 2 by simp_all
  moreover have "(d = c \<and> c_watching (f_clients h2 d) = [] \<and> \<not> c_watchBroken (f_clients h2 d)) \<or>
        (set (c_watching (f_clients h d)) \<subseteq> set (c_watching (f_clients h2 d)) \<and>
         (c_watchBroken (f_clients h2 d) \<longleftrightarrow> c_watchBroken (f_clients h d) \<or> (\<exists>k \<in> set (n1 @ n2). k \<in> set (c_watching (f_clients h d)))))" for d
    using 2(3)[of d] 1(3) by auto
  ultimately show ?thesis unfolding watch_step_def by blast
qed

lemma watch_step_refl: "watch_step c h h"
  unfolding watch_step_def by (rule exI[of _ "[]"]) simp

lemma wsig_step: "watch_ok h \<Longrightarrow> wsig h h' \<Longrightarrow> watch_step c h h'"
  by (rule wsig_watch_step[OF _ _ watch_step_refl])

lemma watch_step_still: "watch_step c h h1 \<Longrightarrow> still h1 h2 \<Longrightarrow> watch_step c h h2"
  using host_more_eq[of h2 h1] by (auto simp: watch_step_def still_def tx_view_def)

lemma Unwatch_step: "watch_step c h (w_Unwatch c h)"
  unfolding watch_step_def by (rule exI[of _ "[]"]) (auto simp: w_Unwatch_def Let_def)

lemma Watch_frame: "c_watchBroken (f_clients (w_Watch c db k s) d) = c_watchBroken (f_clients s d)"
  "front.more (w_Watch c db k s) = front.more s" "set (c_watching (f_clients s d)) \<subseteq> set (c_watching (f_clients (w_Watch c db k s) d))"
  "qview (f_clients (w_Watch c db k s) d) = qview (f_clients s d)"
  by (auto simp: w_Watch_def Let_def qview_def) (simp_all add: on_client_def)

lemma Watch_all_frame: "c_watchBroken (f_clients (fold (w_Watch c db) ks s) d) = c_watchBroken (f_clients s d)"
  "front.more (fold (w_Watch c db) ks s) = front.more s"
  "qview (f_clients (fold (w_Watch c db) ks s) d) = qview (f_clients s d)"
  "watch_ok s \<Longrightarrow> watch_ok (fold (w_Watch c db) ks s)"
  by (induction ks arbitrary: s) (auto simp: Watch_frame Watch_ok)

lemma Watch_all_mono: "set (c_watching (f_clients s d)) \<subseteq> set (c_watching (f_clients (fold (w_Watch c db) ks s) d))"
proof (induction ks arbitrary: s)
  case (Cons k ks)
  show ?case using order_trans[OF Watch_frame(3) Cons] by simp
qed simp

lemma Unwatch_frame: "qview (f_clients (w_Unwatch c s) d) = qview (f_clients s d)" "front.more (w_Unwatch c s) = front.more s"
  by (simp_all add: w_Unwatch_def Let_def qview_def) (simp add: on_client_def)


lemma Unwatch_queue [simp]: "c_queue (f_clients (w_Unwatch c s) d) = c_queue (f_clients s d)"
  "c_inMulti (f_clients (w_Unwatch c s) d) = c_inMulti (f_clients s d)"
  "c_multiAborted (f_clients (w_Unwatch c s) d) = c_multiAborted (f_clients s d)"
  by (simp_all add: w_Unwatch_def Let_def)

lemma more_watch_step:
  assumes "front.more h' = front.more h" "\<And>d. set (c_watching (f_clients h d)) \<subseteq> set (c_watching (f_clients h' d))"
    "\<And>d. c_watchBroken (f_clients h' d) = c_watchBroken (f_clients h d)"
  shows "watch_step c h h'"
  unfolding watch_step_def using host_more_eq[OF assms(1)] assms(2,3) by (intro exI[of _ "[]"]) auto

text \<open>The handlers that control transactions.\<close>

lemma tx_plain_step:
  assumes "watch_ok h" "hn \<in> tx_handlers" "plain_handler ul sha eg hn c args h = Some (h', v, x)"
  shows "watch_step c h h' \<and> watch_ok h' \<and> h_table h' = h_table h \<and> x = no_ctx \<and>
    (\<forall>d. qview (f_clients h' d) = qview (f_clients h d) \<or> (d = c \<and> c_queue (f_clients h' d) = []))"
proof -
  have multi: "watch_step c h (on_client c beginMulti h) \<and> watch_ok (on_client c beginMulti h)"
    using wsig_step wsig_ok assms(1) wsig_on_client[of beginMulti h c] by (auto simp: beginMulti_def)
  have e: "wsig h (on_client c endMulti h)" by (rule wsig_on_client) (simp_all add: endMulti_def)
  have discard: "watch_step c h (w_Unwatch c (on_client c endMulti h)) \<and> watch_ok (w_Unwatch c (on_client c endMulti h))"
    using wsig_watch_step[OF assms(1) e Unwatch_step] Unwatch_ok(1) wsig_ok[OF e assms(1)] by blast
  have unwatch: "watch_step c h (w_Unwatch c h) \<and> watch_ok (w_Unwatch c h)" using Unwatch_step Unwatch_ok(1) assms(1) by blast
  have watch: "watch_step c h (fold (w_Watch c db) ks h) \<and> watch_ok (fold (w_Watch c db) ks h)" for db ks
    using more_watch_step[OF Watch_all_frame(2) Watch_all_mono Watch_all_frame(1)] Watch_all_frame(4) assms(1) by blast
  have t: "h_table (w_Unwatch c g) = h_table g" "h_table (fold (w_Watch c db) ks g) = h_table g" for g :: "'a host" and db ks
    using host_more_eq(2)[OF Unwatch_frame(2)[of c g]] host_more_eq(2)[OF Watch_all_frame(2)[of c db ks g]] by simp_all
  from assms(2) show ?thesis
    using assms(3) multi discard unwatch watch assms(1)
    by (auto simp: tx_handlers_def cmdMulti_def cmdDiscard_def cmdUnwatch_def cmdWatch_def t Unwatch_frame Watch_all_frame
        watch_step_refl beginMulti_def endMulti_def split: if_splits)
qed


lemma Unwatch_host [simp]: "h_table (w_Unwatch c (h :: 'e host)) = h_table h" "h_engine (w_Unwatch c h) = h_engine h"
  "h_log (w_Unwatch c h) = h_log h" "h_modified (w_Unwatch c h) = h_modified h"
  using host_more_eq[OF Unwatch_frame(2)[of c h]] by simp_all

text \<open>The host in which \<open>EXEC\<close> starts to run its queue.\<close>

definition exec_start :: "nat \<Rightarrow> 'e host \<Rightarrow> 'e host" where
  "exec_start c h = on_client c (\<lambda>cl. cl\<lparr>c_Out := c_Out cl @ [OutArrayHeader (length (c_queue (f_clients h c)))], c_inExec := True\<rparr>)
     (on_client c endMulti h)"

lemma cmdExec_cases:
  assumes "cmdExec rq c h = Some (h', v)"
  obtains (outside) "\<not> c_inMulti (f_clients h c)" "h' = h"
    | (aborted) "c_inMulti (f_clients h c)" "c_multiAborted (f_clients h c)" "h' = w_Unwatch c (on_client c endMulti h)"
    | (broken) "c_inMulti (f_clients h c)" "\<not> c_multiAborted (f_clients h c)" "c_watchBroken (f_clients h c)" "v = v_NullArray"
        "h' = w_Unwatch c (on_client c endMulti h)"
    | (ran) h1 where "c_inMulti (f_clients h c)" "\<not> c_multiAborted (f_clients h c)" "\<not> c_watchBroken (f_clients h c)" "v = v_None"
        "run_queue rq (c_queue (f_clients h c)) (exec_start c h) = Some h1"
        "h' = w_Unwatch c (on_client c (\<lambda>cl. cl\<lparr>c_inExec := False\<rparr>) h1)"
proof -
  have b: "c_watchBroken (endMulti cl) = c_watchBroken cl" for cl by (simp add: endMulti_def)
  consider "\<not> c_inMulti (f_clients h c)" | "c_inMulti (f_clients h c)" "c_multiAborted (f_clients h c)"
    | "c_inMulti (f_clients h c)" "\<not> c_multiAborted (f_clients h c)" "c_watchBroken (f_clients h c)"
    | "c_inMulti (f_clients h c)" "\<not> c_multiAborted (f_clients h c)" "\<not> c_watchBroken (f_clients h c)" by blast
  then show thesis
  proof cases
    case 1
    then have "h' = h" using assms by (simp add: cmdExec_def Let_def)
    then show thesis by (rule outside[OF 1])
  next
    case 2
    then have "h' = w_Unwatch c (on_client c endMulti h)" using assms by (simp add: cmdExec_def Let_def)
    then show thesis by (rule aborted[OF 2])
  next
    case 3
    then have "v = v_NullArray" "h' = w_Unwatch c (on_client c endMulti h)" using assms by (simp_all add: cmdExec_def Let_def b)
    then show thesis by (rule broken[OF 3])
  next
    case 4
    then obtain h1 where "run_queue rq (c_queue (f_clients h c)) (exec_start c h) = Some h1" "v = v_None"
      "h' = w_Unwatch c (on_client c (\<lambda>cl. cl\<lparr>c_inExec := False\<rparr>) h1)"
      using assms by (auto simp: cmdExec_def Let_def b exec_start_def[symmetric] split: option.split_asm)
    then show thesis using ran[OF 4] by blast
  qed
qed

lemma exec_step:
  assumes ok: "host_ok ul h" and ex: "cmdExec (runQueued ul sha eg c) c h = Some (h', v)"
  shows "watch_step c h h' \<and> watch_ok h' \<and> h_table h' = h_table h \<and>
    (\<forall>d. qview (f_clients h' d) = qview (f_clients h d) \<or> (d = c \<and> c_queue (f_clients h' d) = []))"
proof -
  have w: "watch_ok h" and tt: "tx_table ul (h_table h)" and q: "queues_ok ul h" using ok by (auto simp: host_ok_def)
  have e: "wsig h (on_client c endMulti h)" by (rule wsig_on_client) (simp_all add: endMulti_def)
  have done_early: "watch_step c h (w_Unwatch c (on_client c endMulti h)) \<and> watch_ok (w_Unwatch c (on_client c endMulti h))"
    using wsig_watch_step[OF w e Unwatch_step] Unwatch_ok(1) wsig_ok[OF e w] by blast
  from ex show ?thesis
  proof (cases rule: cmdExec_cases)
    case (ran h1)
    have s: "wsig h (exec_start c h)"
      unfolding exec_start_def by (rule wsig_trans[OF e wsig_on_client]) simp_all
    have t: "h_table (exec_start c h) = h_table h" by (simp add: exec_start_def)
    have "carries (exec_start c h) h1"
      by (rule run_queue_carries[OF _ _ ran(5)]) (use tt q t in \<open>auto simp: queues_ok_def\<close>)
    then have h1: "wsig (exec_start c h) h1" "queues_same (exec_start c h) h1" by (auto intro: carries_wsig carries_queues)
    let ?h2 = "on_client c (\<lambda>cl. cl\<lparr>c_inExec := False\<rparr>) h1"
    have "wsig h1 ?h2" by (rule wsig_on_client) simp_all
    then have h2: "wsig h ?h2" using wsig_trans[OF s wsig_trans[OF h1(1)]] by blast
    have "watch_step c h h'" "watch_ok h'"
      using wsig_watch_step[OF w h2 Unwatch_step] Unwatch_ok(1) wsig_ok[OF h2 w] ran(6) by auto
    moreover have "qview (f_clients h' d) = qview (f_clients h d) \<or> (d = c \<and> c_queue (f_clients h' d) = [])" for d
    proof -
      have "qview (f_clients h' d) = qview (f_clients ?h2 d)" by (simp only: ran(6) Unwatch_frame)
      also have "\<dots> = qview (f_clients h1 d)" by (simp add: qview_def)
      also have "\<dots> = qview (f_clients (exec_start c h) d)" using h1(2) by (simp add: queues_same_def)
      finally show ?thesis by (cases "d = c") (simp_all add: exec_start_def qview_def endMulti_def)
    qed
    moreover have "h_table h' = h_table h" using h1(2) t by (simp add: ran(6) queues_same_def)
    ultimately show ?thesis by blast
  qed (use done_early w in \<open>auto simp: watch_step_refl Unwatch_frame qview_def endMulti_def\<close>)
qed


text \<open>Whether a client inside \<open>MULTI\<close> has a command queued rather than run.\<close>

definition is_queued :: "handler Table \<Rightarrow> bytes list \<Rightarrow> bool" where
  "is_queued t args = (case Lookup t (arg_at args 0) of None \<Rightarrow> True | Some d \<Rightarrow> \<not> d_Is d FNoMulti)"

text \<open>What a command of \<open>c\<close> does to the queues.\<close>

definition queue_step :: "nat \<Rightarrow> bytes list \<Rightarrow> 'e host \<Rightarrow> 'e host \<Rightarrow> bool" where
  "queue_step c args h h' \<longleftrightarrow> (\<forall>d. d \<noteq> c \<longrightarrow> qview (f_clients h' d) = qview (f_clients h d)) \<and>
     (if args \<noteq> [] \<and> c_inMulti (f_clients h c) \<and> is_queued (h_table h) args
      then c_inMulti (f_clients h' c) \<and>
        ((c_multiAborted (f_clients h' c) \<and> c_queue (f_clients h' c) = c_queue (f_clients h c)) \<or>
         (c_multiAborted (f_clients h' c) = c_multiAborted (f_clients h c) \<and> c_queue (f_clients h' c) = c_queue (f_clients h c) @ [args]))
      else qview (f_clients h' c) = qview (f_clients h c) \<or> c_queue (f_clients h' c) = [])"

lemma queues_same_ok: "queues_same h h' \<Longrightarrow> queues_ok ul h \<Longrightarrow> queues_ok ul h'"
  by (auto simp: queues_same_def queues_ok_def qview_def)

lemma queueCommand_step:
  assumes ok: "host_ok ul h" and c: "c_inMulti (f_clients h c)" "args \<noteq> []" "is_queued (h_table h) args"
    and qc: "queueCommand ul eg c args h = Some (h', v)"
  shows "host_ok ul h' \<and> watch_step c h h' \<and> queue_step c args h h'"
proof -
  obtain h1 r where 1: "resolve ul eg c args h = Some (h1, r)" using qc by (auto simp: queueCommand_def split: option.splits)
  have c1: "carries h h1" by (rule resolve_carries[OF 1])
  have ok1: "host_ok ul h1" by (rule carries_ok[OF c1 ok])
  have q1: "queues_same h h1" by (rule carries_queues[OF c1])
  consider (abort) "h' = on_client c (\<lambda>cl. cl\<lparr>c_multiAborted := True\<rparr>) h1"
    | (queue) d where "r = Inr d" "\<not> d_Is d FNoMulti" "h' = on_client c (\<lambda>cl. cl\<lparr>c_queue := c_queue cl @ [args]\<rparr>) h1"
    using qc 1 by (auto simp: queueCommand_def split: sum.split_asm if_split_asm)
  then show ?thesis
  proof cases
    case abort
    have w: "wsig h1 h'" unfolding abort by (rule wsig_on_client) simp_all
    have "watch_step c h h'" using wsig_step wsig_trans[OF carries_wsig[OF c1] w] ok by (auto simp: host_ok_def)
    moreover have "host_ok ul h'" using ok1 wsig_ok[OF w] by (auto simp: host_ok_def abort queues_ok_def)
    moreover have "queue_step c args h h'" using q1 c by (auto simp: queue_step_def abort queues_same_def qview_def)
    ultimately show ?thesis by blast
  next
    case (queue d)
    have w: "wsig h1 h'" unfolding queue(3) by (rule wsig_on_client) simp_all
    have f: "find_command ul (h_table h1) args = Inr d" using resolve_find 1 queue(1) q1 by (auto simp: queues_same_def)
    have "watch_step c h h'" using wsig_step wsig_trans[OF carries_wsig[OF c1] w] ok by (auto simp: host_ok_def)
    moreover have "host_ok ul h'" using ok1 wsig_ok[OF w] f queue(2) by (auto simp: host_ok_def queue(3) queues_ok_def)
    moreover have "queue_step c args h h'" using q1 c by (auto simp: queue_step_def queue(3) queues_same_def qview_def)
    ultimately show ?thesis by blast
  qed
qed

lemma propagate_none: "propagate c no_ctx d args h = Some h"
  by (simp add: propagate_def no_ctx_def)

lemma run_step:
  assumes ok: "host_ok ul h" and f: "find_command ul (h_table h) args = Inr d"
    and r: "runAndPropagate ul sha eg c d args h = Some (h', v)"
  shows "host_ok ul h' \<and> watch_step c h h' \<and> (\<forall>e. qview (f_clients h' e) = qview (f_clients h e) \<or> (e = c \<and> c_queue (f_clients h' e) = []))"
proof -
  have w: "watch_ok h" and tt: "tx_table ul (h_table h)" and q: "queues_ok ul h" using ok by (auto simp: host_ok_def)
  obtain h1 x where 1: "run_handler 1 ul sha eg c d args h = Some (h1, v, x)" "propagate c x d args h1 = Some h'"
    using r by (auto simp: runAndPropagate_def bind_eq_Some_conv)
  obtain hn where hn: "d_Handler d = Some hn" using 1(1) by (auto split: option.splits)
  have tx: ?thesis if t: "watch_step c h h1 \<and> watch_ok h1 \<and> h_table h1 = h_table h \<and> x = no_ctx \<and>
      (\<forall>e. qview (f_clients h1 e) = qview (f_clients h e) \<or> (e = c \<and> c_queue (f_clients h1 e) = []))"
  proof -
    have "h' = h1" using 1(2) t by (simp add: propagate_none)
    moreover have "queues_ok ul h1" unfolding queues_ok_def
    proof (intro allI ballI impI)
      fix e args d assume "args \<in> set (c_queue (f_clients h1 e))" "find_command ul (h_table h1) args = Inr d"
      moreover have "qview (f_clients h1 e) = qview (f_clients h e) \<or> c_queue (f_clients h1 e) = []" using t by blast
      ultimately show "\<not> d_Is d FNoMulti" using q t by (auto simp: queues_ok_def qview_def)
    qed
    ultimately show ?thesis using t tt by (simp add: host_ok_def)
  qed
  show ?thesis
  proof (cases "hn \<in> tx_handlers")
    case True
    show ?thesis
    proof (cases "hn = HExec")
      case True
      then obtain v' where "cmdExec (runQueued ul sha eg c) c h = Some (h1, v')" "x = no_ctx"
        using 1(1) hn by (auto simp: runQueued_def)
      then show ?thesis using exec_step[OF ok] by (intro tx) blast
    next
      case False
      then have "plain_handler ul sha eg hn c args h = Some (h1, v, x)" using 1(1) hn by (cases hn) auto
      then show ?thesis using tx_plain_step[OF w \<open>hn \<in> tx_handlers\<close>] by (intro tx) blast
    qed
  next
    case False
    then have "plain_handler ul sha eg hn c args h = Some (h1, v, x)" using 1(1) hn by (cases hn) (auto simp: tx_handlers_def)
    then have c1: "carries h h'" using plain_carries[OF False] propagate_carries[OF 1(2)] carries_trans by blast
    then show ?thesis using carries_ok[OF c1 ok] wsig_step[OF w carries_wsig[OF c1]] carries_queues[OF c1] by (simp add: queues_same_def)
  qed
qed


lemma queue_step_left:
  assumes "queues_same h h1" "queue_step c args h1 h2"
  shows "queue_step c args h h2"
proof -
  have v: "qview (f_clients h1 d) = qview (f_clients h d)" for d using assms(1) by (simp add: queues_same_def)
  then have "c_inMulti (f_clients h1 c) = c_inMulti (f_clients h c)" "c_multiAborted (f_clients h1 c) = c_multiAborted (f_clients h c)"
    "c_queue (f_clients h1 c) = c_queue (f_clients h c)" by (auto simp: qview_def)
  then show ?thesis using assms v by (simp add: queue_step_def queues_same_def cong: if_cong)
qed

lemma queue_step_right:
  assumes "queue_step c args h h1" "queues_same h1 h2"
  shows "queue_step c args h h2"
proof -
  have v: "qview (f_clients h2 d) = qview (f_clients h1 d)" for d using assms(2) by (simp add: queues_same_def)
  then have "c_inMulti (f_clients h2 c) = c_inMulti (f_clients h1 c)" "c_multiAborted (f_clients h2 c) = c_multiAborted (f_clients h1 c)"
    "c_queue (f_clients h2 c) = c_queue (f_clients h1 c)" by (auto simp: qview_def)
  then show ?thesis using assms v by (simp add: queue_step_def cong: if_cong)
qed

lemma Execute_step:
  assumes ok: "host_ok (l_unicode l) h" and ex: "Execute l eg now c args h = Some h'"
  shows "host_ok (l_unicode l) h' \<and> watch_step c h h' \<and> queue_step c args h h'"
proof (cases "args = []")
  case True
  then have "h' = h" using ex by (simp add: Execute_def)
  then show ?thesis using ok True watch_step_refl by (simp add: queue_step_def)
next
  case False
  let ?ul = "l_unicode l"
  define h0 where "h0 = mon_Feed ?ul (l_quote l) now c args h"
  have c0: "carries h h0" unfolding h0_def by (rule still_carries[OF still_Feed])
  have ok0: "host_ok ?ul h0" by (rule carries_ok[OF c0 ok])
  have w: "watch_ok h" using ok by (simp add: host_ok_def)
  have "\<exists>h1 v. h' = out_WriteValue c v h1 \<and> host_ok ?ul h1 \<and> watch_step c h0 h1 \<and> queue_step c args h0 h1"
  proof (cases "c_inMulti (f_clients h0 c) \<and> is_queued (h_table h0) args")
    case True
    then obtain h1 v where "queueCommand ?ul eg c args h0 = Some (h1, v)" "h' = out_WriteValue c v h1"
      using ex False by (auto simp: Execute_def Let_def h0_def[symmetric] is_queued_def)
    then show ?thesis using queueCommand_step[OF ok0 _ False] True by blast
  next
    case nq: False
    obtain h1 r where 1: "resolve ?ul eg c args h0 = Some (h1, r)"
      using ex False nq by (auto simp: Execute_def Let_def h0_def[symmetric] is_queued_def split: option.splits if_splits)
    have c1: "carries h0 h1" by (rule resolve_carries[OF 1])
    have ok1: "host_ok ?ul h1" by (rule carries_ok[OF c1 ok0])
    have s1: "watch_step c h0 h1" using wsig_step carries_wsig[OF c1] ok0 by (auto simp: host_ok_def)
    have q1: "queues_same h0 h1" by (rule carries_queues[OF c1])
    have qs: "queue_step c args h0 h2" if "\<forall>e. qview (f_clients h2 e) = qview (f_clients h1 e) \<or> (e = c \<and> c_queue (f_clients h2 e) = [])" for h2
      using that q1 nq by (auto simp: queue_step_def queues_same_def)
    have *: "Execute l eg now c args h = (case r of Inl reply \<Rightarrow> Some (out_WriteValue c reply h1)
        | Inr d \<Rightarrow> map_option (\<lambda>(h2, v). out_WriteValue c v h2) (runAndPropagate ?ul (l_sha l) eg c d args h1))"
      using False nq 1 by (auto simp: Execute_def Let_def h0_def[symmetric] is_queued_def split: sum.splits)
    show ?thesis
    proof (cases r)
      case (Inl reply)
      then have "h' = out_WriteValue c reply h1" using ex * by simp
      then show ?thesis using ok1 s1 qs[of h1] by blast
    next
      case (Inr d)
      then obtain h2 v where 2: "runAndPropagate ?ul (l_sha l) eg c d args h1 = Some (h2, v)" "h' = out_WriteValue c v h2"
        using ex * by auto
      have "find_command ?ul (h_table h1) args = Inr d" using resolve_find 1 Inr q1 by (auto simp: queues_same_def)
      from run_step[OF ok1 this 2(1)] have "host_ok ?ul h2" "watch_step c h1 h2" "queue_step c args h0 h2" using qs by blast+
      moreover have "watch_step c h0 h2" using wsig_watch_step carries_wsig[OF c1] calculation(2) ok0 by (auto simp: host_ok_def)
      ultimately show ?thesis using 2(2) by blast
    qed
  qed
  then obtain h1 v where h1: "h' = out_WriteValue c v h1" "host_ok ?ul h1" "watch_step c h0 h1" "queue_step c args h0 h1" by blast
  have s: "still h1 h'" unfolding h1(1) by (rule still_WriteValue)
  have "host_ok ?ul h'" by (rule carries_ok[OF still_carries[OF s] h1(2)])
  moreover have "watch_step c h h'" using watch_step_still[OF wsig_watch_step[OF w carries_wsig[OF c0] h1(3)] s] .
  moreover have "queue_step c args h h'"
    using queue_step_right[OF queue_step_left[OF carries_queues[OF c0] h1(4)] carries_queues[OF still_carries[OF s]]] .
  ultimately show ?thesis by blast
qed

subsection \<open>Transactions as a whole\<close>

text \<open>Commands of any number of connections, one after the other: the time, the client and the arguments.\<close>

type_synonym tx_event = "(int \<times> nat) \<times> nat \<times> bytes list"

fun tx_run :: "lib \<Rightarrow> 'e engine \<Rightarrow> tx_event list \<Rightarrow> 'e host \<Rightarrow> 'e host go" where
  "tx_run l eg [] h = Some h"
| "tx_run l eg ((now, c, args) # evs) h = (case Execute l eg now c args h of None \<Rightarrow> None | Some h1 \<Rightarrow> tx_run l eg evs h1)"

text \<open>Throughout the run the client watches exactly the keys \<open>W\<close>.\<close>

fun watches :: "lib \<Rightarrow> 'e engine \<Rightarrow> nat \<Rightarrow> watchKey set \<Rightarrow> tx_event list \<Rightarrow> 'e host \<Rightarrow> bool" where
  "watches l eg c W [] h \<longleftrightarrow> set (c_watching (f_clients h c)) = W"
| "watches l eg c W ((now, d, args) # evs) h \<longleftrightarrow> set (c_watching (f_clients h c)) = W \<and>
     (case Execute l eg now d args h of None \<Rightarrow> True | Some h1 \<Rightarrow> watches l eg c W evs h1)"

lemma watches_broken:
  assumes "host_ok (l_unicode l) h" "watches l eg c W evs h" "tx_run l eg evs h = Some h'" "W = {} \<longrightarrow> \<not> c_watchBroken (f_clients h c)"
  shows "host_ok (l_unicode l) h' \<and> set (c_watching (f_clients h' c)) = W \<and> (\<exists>new. h_modified h' = h_modified h @ new \<and>
    (c_watchBroken (f_clients h' c) \<longleftrightarrow> c_watchBroken (f_clients h c) \<or> set new \<inter> W \<noteq> {}))"
  using assms
proof (induction evs arbitrary: h)
  case (Cons ev evs)
  obtain now d args where ev: "ev = (now, d, args)" by (cases ev)
  obtain h1 where 1: "Execute l eg now d args h = Some h1" "tx_run l eg evs h1 = Some h'" "watches l eg c W evs h1"
    using Cons.prems(2,3) by (auto simp: ev split: option.splits)
  have st: "host_ok (l_unicode l) h1" "watch_step d h h1" using Execute_step[OF Cons.prems(1) 1(1)] by auto
  have W: "set (c_watching (f_clients h c)) = W" using Cons.prems(2) ev by simp
  have W1: "set (c_watching (f_clients h1 c)) = W" using 1(3) by (cases evs) auto
  obtain n1 where n1: "h_modified h1 = h_modified h @ n1"
    and dis: "(c = d \<and> c_watching (f_clients h1 c) = [] \<and> \<not> c_watchBroken (f_clients h1 c)) \<or>
      (c_watchBroken (f_clients h1 c) \<longleftrightarrow> c_watchBroken (f_clients h c) \<or> (\<exists>k \<in> set n1. k \<in> set (c_watching (f_clients h c))))"
    using st(2) unfolding watch_step_def by blast
  have b1: "c_watchBroken (f_clients h1 c) \<longleftrightarrow> c_watchBroken (f_clients h c) \<or> set n1 \<inter> W \<noteq> {}"
  proof (cases "W = {}")
    case True
    then have "\<not> c_watchBroken (f_clients h c)" using Cons.prems(4) by simp
    then show ?thesis using dis W True by auto
  next
    case False
    then show ?thesis using dis W W1 by auto
  qed
  have "W = {} \<longrightarrow> \<not> c_watchBroken (f_clients h1 c)" using b1 Cons.prems(4) by auto
  from Cons.IH[OF st(1) 1(3,2) this] obtain n2 where
    "host_ok (l_unicode l) h'" "set (c_watching (f_clients h' c)) = W" "h_modified h' = h_modified h1 @ n2"
    "c_watchBroken (f_clients h' c) \<longleftrightarrow> c_watchBroken (f_clients h1 c) \<or> set n2 \<inter> W \<noteq> {}" by blast
  then show ?case using n1 b1 by (intro conjI exI[of _ "n1 @ n2"]) auto
qed auto

text \<open>C4: \<open>EXEC\<close> after \<open>WATCH\<close> is a compare and set. Let a client watch a set of keys with nothing changed
  yet, and let any commands of any connections follow while it keeps watching them and opens a
  transaction. If the engine reported a change of a watched key in between, \<open>EXEC\<close> answers nil and
  leaves data and log alone; if it did not, \<open>EXEC\<close> runs the whole queue from the current state. Either
  way nothing is watched afterwards.\<close>

theorem exec_compare_and_set:
  assumes "host_ok (l_unicode l) h" "tx_run l eg evs h = Some h'" "watches l eg c W evs h"
    and "\<not> c_watchBroken (f_clients h c)" "c_inMulti (f_clients h' c)" "\<not> c_multiAborted (f_clients h' c)"
    and "h_modified h' = h_modified h @ new"
  shows "if set new \<inter> W \<noteq> {}
    then \<exists>h''. cmdExec (runQueued ul sha eg c) c h' = Some (h'', v_NullArray) \<and> h_engine h'' = h_engine h' \<and>
      h_log h'' = h_log h' \<and> c_watching (f_clients h'' c) = [] \<and> \<not> c_inMulti (f_clients h'' c)
    else cmdExec (runQueued ul sha eg c) c h' =
      map_option (\<lambda>h1. (w_Unwatch c (on_client c (\<lambda>cl. cl\<lparr>c_inExec := False\<rparr>) h1), v_None))
        (run_queue (runQueued ul sha eg c) (c_queue (f_clients h' c)) (exec_start c h'))"
proof -
  have b: "c_watchBroken (f_clients h' c) \<longleftrightarrow> set new \<inter> W \<noteq> {}"
    using watches_broken[OF assms(1,3,2)] assms(4,7) by auto
  have e: "c_watchBroken (endMulti cl) = c_watchBroken cl" for cl by (simp add: endMulti_def)
  show ?thesis
  proof (cases "set new \<inter> W \<noteq> {}")
    case True
    let ?h = "w_Unwatch c (on_client c endMulti h')"
    have "cmdExec (runQueued ul sha eg c) c h' = Some (?h, v_NullArray)"
      using True b assms(5,6) by (simp add: cmdExec_def Let_def e)
    moreover have "c_watching (f_clients ?h c) = []" "\<not> c_inMulti (f_clients ?h c)"
      by (simp_all add: w_Unwatch_def Let_def endMulti_def)
    ultimately show ?thesis using True by auto
  next
    case False
    then have "cmdExec (runQueued ul sha eg c) c h' =
      map_option (\<lambda>h1. (w_Unwatch c (on_client c (\<lambda>cl. cl\<lparr>c_inExec := False\<rparr>) h1), v_None))
        (run_queue (runQueued ul sha eg c) (c_queue (f_clients h' c)) (exec_start c h'))"
      using b assms(5,6) by (simp add: cmdExec_def Let_def e exec_start_def[symmetric] split: option.splits)
    then show ?thesis using False by argo
  qed
qed

text \<open>The commands of one client in a run, in order.\<close>

definition sent :: "nat \<Rightarrow> tx_event list \<Rightarrow> bytes list list" where
  "sent c evs = map (\<lambda>(now, d, args). args) (filter (\<lambda>(now, d, args). d = c) evs)"

lemma sent_Cons: "sent c ((now, d, args) # evs) = (if d = c then [args] else []) @ sent c evs"
  by (simp add: sent_def)

text \<open>C5: A transaction is all or nothing. While a client queues commands, whatever other connections do, its
  queue holds exactly the commands it sent, in order, unless one was refused; and once one was refused
  the transaction stays poisoned and \<open>EXEC\<close> runs none of it.\<close>

theorem transaction_all_or_nothing:
  assumes "host_ok (l_unicode l) h" "tx_run l eg evs h = Some h'" "c_inMulti (f_clients h c)"
    and "\<forall>args \<in> set (sent c evs). args \<noteq> [] \<and> is_queued (h_table h) args"
  shows "c_inMulti (f_clients h' c) \<and>
    (\<not> c_multiAborted (f_clients h' c) \<longrightarrow> \<not> c_multiAborted (f_clients h c) \<and> c_queue (f_clients h' c) = c_queue (f_clients h c) @ sent c evs) \<and>
    (c_multiAborted (f_clients h' c) \<longrightarrow> (\<exists>h''. cmdExec rq c h' =
       Some (h'', v_Err (lit ''EXECABORT Transaction discarded because of previous errors.'')) \<and>
       h_engine h'' = h_engine h' \<and> h_log h'' = h_log h' \<and> h_modified h'' = h_modified h'))"
proof -
  have run: "c_inMulti (f_clients h' c) \<and> (\<not> c_multiAborted (f_clients h' c) \<longrightarrow>
      \<not> c_multiAborted (f_clients h c) \<and> c_queue (f_clients h' c) = c_queue (f_clients h c) @ sent c evs)"
    using assms
  proof (induction evs arbitrary: h)
    case (Cons ev evs)
    obtain now d args where ev: "ev = (now, d, args)" by (cases ev)
    obtain h1 where 1: "Execute l eg now d args h = Some h1" "tx_run l eg evs h1 = Some h'"
      using Cons.prems(2) by (auto simp: ev split: option.splits)
    have st: "host_ok (l_unicode l) h1" "watch_step d h h1" "queue_step d args h h1" using Execute_step[OF Cons.prems(1) 1(1)] by auto
    have t: "h_table h1 = h_table h" using st(2) by (auto simp: watch_step_def)
    have own: "c_inMulti (f_clients h1 c) \<and> (\<not> c_multiAborted (f_clients h1 c) \<longrightarrow> \<not> c_multiAborted (f_clients h c) \<and>
        c_queue (f_clients h1 c) = c_queue (f_clients h c) @ (if d = c then [args] else []))"
      using st(3) Cons.prems(3,4) by (cases "d = c") (auto simp: queue_step_def ev sent_Cons qview_def)
    have "\<forall>args \<in> set (sent c evs). args \<noteq> [] \<and> is_queued (h_table h1) args" using Cons.prems(4) t by (simp add: ev sent_Cons)
    from Cons.IH[OF st(1) 1(2) _ this] own show ?case by (simp add: ev sent_Cons)
  qed (simp add: sent_def)
  moreover have "\<exists>h''. cmdExec rq c h' = Some (h'', v_Err (lit ''EXECABORT Transaction discarded because of previous errors.'')) \<and>
       h_engine h'' = h_engine h' \<and> h_log h'' = h_log h' \<and> h_modified h'' = h_modified h'"
    if "c_multiAborted (f_clients h' c)"
    using that run by (simp add: cmdExec_def Let_def)
  ultimately show ?thesis by blast
qed


subsection \<open>An example\<close>

definition set_descriptor :: "handler Descriptor" where
  "set_descriptor =
     Descriptor (lit ''SET'') (- 3) FWrite 1 1 1 [lit ''write''] (Some (HEngine (lit ''SET''))) EffectVerbatim
       LocalityShardLocal [] None (lit ''SET'') (lit ''set'')"

text \<open>An engine whose state counts the writes, each of which reports the change of its first argument.\<close>

definition count_engine :: "nat engine" where
  "count_engine = \<lparr>eg_run = (\<lambda>name db inExec args e. \<lparr>oc_engine = e + 1, oc_reply = v_OK, oc_dirty = 1, oc_effects = [],
     oc_suppress = False, oc_emitted = [], oc_modified = [(db, arg_at args 1)]\<rparr>), eg_Memory = (\<lambda>e. 0),
     eg_Evict = (\<lambda>held e. Some (e, [], [])), eg_Databases = (\<lambda>e. 16)\<rparr>"

definition tx_host :: "nat host" where
  "tx_host =
     \<lparr>f_clients = (\<lambda>c. if c = 1 then (NewClient [] True)\<lparr>c_inMulti := True, c_watching := [(0, lit ''k'')]\<rparr> else NewClient [] True),
      f_channels = [], f_patterns = [], f_watchers = [((0, lit ''k''), [1])], f_monitors = [], h_engine = 0,
      h_table = \<lparr>byName = [lit ''SET'' \<mapsto> set_descriptor], t_all = [set_descriptor], disabled = {}\<rparr>,
      h_acl = \<lparr>users = Map.empty, acl_commands = []\<rparr>,
      h_cfg = \<lparr>RequirePass = [], ReplicaReadOnly = True, MinReplicasToWrite = 0, MaxMemory = 0\<rparr>, h_loading = False,
      h_replica = False, h_perr = None, h_insync = 0, h_log = [], h_modified = []\<rparr>"

definition plain_lib :: lib where
  "plain_lib = \<lparr>l_unicode = plain_unicode, l_sha = (\<lambda>p. replicate 32 0), l_quote = (\<lambda>s. s)\<rparr>"

lemma tx_host_ok: "host_ok (l_unicode plain_lib) tx_host"
proof -
  have "find_command ul (h_table tx_host) args = Inr d \<Longrightarrow> d = set_descriptor" for ul args d
    by (auto simp: find_command_def tx_host_def Lookup_def set_descriptor_def Let_def split: option.splits if_splits)
  then have "tx_table ul (h_table tx_host)" for ul by (force simp: tx_table_def set_descriptor_def tx_handlers_def)
  then show ?thesis
    by (auto simp: host_ok_def queues_ok_def watch_ok_def reg_ok_def reg_get_def tx_host_def NewClient_def)
qed

definition set_k :: "bytes list" where "set_k = [lit ''SET'', lit ''k'', lit ''v'']"

lemma set_k_runs: "\<exists>h'. Execute plain_lib count_engine (0, 0) 2 set_k tx_host = Some h' \<and> h_modified h' = [(0, lit ''k'')] \<and>
    c_inMulti (f_clients h' 1) \<and> \<not> c_multiAborted (f_clients h' 1) \<and> c_watching (f_clients h' 1) = [(0, lit ''k'')] \<and> h_engine h' = 1"
  by (simp add: Execute_def Let_def mon_Feed_def resolve_def find_command_def Lookup_def tx_host_def set_k_def arg_at_def
      set_descriptor_def arityOK_def d_Is_def flag_defs checkPermissions_def NewClient_def Subscribed_def write_checks_def
      overMemoryLimit_def runAndPropagate_def run_engine_def count_engine_def signal_all_def w_KeyModified_def reg_get_def
      on_client_def propagate_def Propagate_def out_WriteValue_def plain_lib_def lit_def)

theorem exec_compare_and_set_witness:
  "\<exists>h' h''. tx_run plain_lib count_engine [((0, 0), 2, set_k)] tx_host = Some h' \<and> h_engine h' = 1 \<and>
     cmdExec (runQueued plain_unicode id count_engine 1) 1 h' = Some (h'', v_NullArray) \<and> h_engine h'' = 1"
proof -
  obtain h' where h': "Execute plain_lib count_engine (0, 0) 2 set_k tx_host = Some h'" "h_modified h' = [(0, lit ''k'')]"
    "c_inMulti (f_clients h' 1)" "\<not> c_multiAborted (f_clients h' 1)" "c_watching (f_clients h' 1) = [(0, lit ''k'')]" "h_engine h' = 1"
    using set_k_runs by blast
  have r: "tx_run plain_lib count_engine [((0, 0), 2, set_k)] tx_host = Some h'" using h'(1) by simp
  have w: "watches plain_lib count_engine 1 {(0, lit ''k'')} [((0, 0), 2, set_k)] tx_host"
    using h'(1,5) by (simp add: tx_host_def)
  have m: "h_modified h' = h_modified tx_host @ [(0, lit ''k'')]" using h'(2) by (simp add: tx_host_def)
  have nb: "\<not> c_watchBroken (f_clients tx_host 1)" by (simp add: tx_host_def NewClient_def)
  from exec_compare_and_set[OF tx_host_ok r w nb h'(3,4) m, of plain_unicode id] r h'(6) show ?thesis by auto
qed

lemma set_k_queued: "\<exists>h'. Execute plain_lib count_engine (0, 0) 1 set_k tx_host = Some h' \<and> \<not> c_multiAborted (f_clients h' 1) \<and> h_engine h' = 0"
  by (simp add: Execute_def Let_def mon_Feed_def queueCommand_def resolve_def find_command_def Lookup_def tx_host_def set_k_def arg_at_def
      set_descriptor_def arityOK_def d_Is_def flag_defs checkPermissions_def NewClient_def Subscribed_def write_checks_def
      overMemoryLimit_def on_client_def out_WriteValue_def plain_lib_def lit_def)

theorem transaction_all_or_nothing_witness:
  "\<exists>h'. tx_run plain_lib count_engine [((0, 0), 1, set_k)] tx_host = Some h' \<and> c_inMulti (f_clients h' 1) \<and>
     c_queue (f_clients h' 1) = [set_k] \<and> h_engine h' = 0"
proof -
  obtain h' where h': "Execute plain_lib count_engine (0, 0) 1 set_k tx_host = Some h'" "\<not> c_multiAborted (f_clients h' 1)" "h_engine h' = 0"
    using set_k_queued by blast
  have r: "tx_run plain_lib count_engine [((0, 0), 1, set_k)] tx_host = Some h'" using h'(1) by simp
  have m: "c_inMulti (f_clients tx_host 1)" by (simp add: tx_host_def)
  have s: "\<forall>args \<in> set (sent 1 [((0, 0), 1, set_k)]). args \<noteq> [] \<and> is_queued (h_table tx_host) args"
    by (simp add: sent_def set_k_def is_queued_def arg_at_def Lookup_def tx_host_def set_descriptor_def d_Is_def flag_defs)
  from transaction_all_or_nothing[OF tx_host_ok r m s] r h'(2,3) show ?thesis
    by (auto simp: sent_def tx_host_def NewClient_def)
qed

end
