(* ===== verification/Access.thy ===== *)
theory Access
  imports Transactions ACL_Rules
begin

text \<open>
  What stands between a client and a command: exactly which guards \<open>resolve\<close> lets a command
  through, that a command it refuses has no effect but the reply, and one hole, the channel check of
  \<open>PSUBSCRIBE\<close>.
\<close>

subsection \<open>The guards of a command\<close>

text \<open>Authentication and permissions, as \<open>resolve\<close> and \<open>checkPermissions\<close> require them.\<close>

definition may_run :: "User \<Rightarrow> handler Descriptor \<Rightarrow> bytes list \<Rightarrow> bool" where
  "may_run u d args \<longleftrightarrow> CanRun u d \<and>
     (Unrestricted u \<or> (\<exists>ks. ExtractKeys d args = Some ks \<and> list_all (CanAccessKey u) ks \<and>
        list_all (CanAccessChannel u) (channelArgs d args)))"

definition authorised :: "'e host \<Rightarrow> nat \<Rightarrow> handler Descriptor \<Rightarrow> bytes list \<Rightarrow> bool" where
  "authorised h c d args \<longleftrightarrow> d_Is d FNoAuth \<or>
     ((RequirePass (h_cfg h) = [] \<or> c_Authenticated (f_clients h c)) \<and>
      (case c_Perms (f_clients h c) of None \<Rightarrow> True | Some u \<Rightarrow> may_run u d args))"

text \<open>What the state of the server and of the connection allows, memory aside.\<close>

definition state_allows :: "'e host \<Rightarrow> nat \<Rightarrow> handler Descriptor \<Rightarrow> bool" where
  "state_allows h c d \<longleftrightarrow>
     (h_loading h \<longrightarrow> d_Is d FLoading) \<and>
     (Subscribed (f_clients h c) \<and> c_Proto (f_clients h c) = 2 \<longrightarrow> d_Is d FSubscriberOK) \<and>
     (d_Is d FWrite \<longrightarrow> \<not> (h_replica h \<and> ReplicaReadOnly (h_cfg h) \<and> \<not> c_Replica (f_clients h c)) \<and>
        h_perr h = None \<and> \<not> (MinReplicasToWrite (h_cfg h) > 0 \<and> h_insync h < MinReplicasToWrite (h_cfg h)))"

definition needs_room :: "'e engine \<Rightarrow> 'e host \<Rightarrow> handler Descriptor \<Rightarrow> bool" where
  "needs_room eg h d \<longleftrightarrow> d_Is d FWrite \<and> d_Is d FDenyOOM \<and> overMemoryLimit eg h (MaxMemory (h_cfg h))"

lemma signal_all_cfg: "h_cfg (signal_all mo (h\<lparr>h_engine := e, h_log := lg\<rparr>)) = h_cfg h"
  using host_more_eq(4)[OF signals_frame(3)[of mo "h\<lparr>h_engine := e, h_log := lg\<rparr>"]] by (simp add: signal_all_def)

lemma checkPermissions_pass:
  "checkPermissions ul cl d args = Some None \<longleftrightarrow> (case c_Perms cl of None \<Rightarrow> True | Some u \<Rightarrow> may_run u d args)"
  by (auto simp: checkPermissions_def may_run_def list_ex_iff list_all_iff bind_eq_Some_conv split: option.splits)

lemma write_checks_pass:
  assumes "d_Is d FWrite"
  shows "write_checks eg c d h = Some (h', None) \<longleftrightarrow>
    (h_replica h \<and> ReplicaReadOnly (h_cfg h) \<longrightarrow> c_Replica (f_clients h c)) \<and> h_perr h = None \<and>
    \<not> (MinReplicasToWrite (h_cfg h) > 0 \<and> h_insync h < MinReplicasToWrite (h_cfg h)) \<and>
    (if needs_room eg h d
     then \<exists>e em mo. eg_Evict eg (c_inExec (f_clients h c)) (h_engine h) = Some (e, em, mo) \<and>
       h' = signal_all mo (h\<lparr>h_engine := e, h_log := h_log h @ em\<rparr>) \<and> \<not> overMemoryLimit eg h' (MaxMemory (h_cfg h))
     else h' = h)"
proof -
  have n: "needs_room eg h d \<longleftrightarrow> d_Is d FDenyOOM \<and> overMemoryLimit eg h (MaxMemory (h_cfg h))"
    using assms by (simp add: needs_room_def)
  show ?thesis
    unfolding write_checks_def Let_def n by (auto split: option.splits if_splits)
qed


subsection \<open>A refused command\<close>

definition no_perm_replies :: "unicode \<Rightarrow> client \<Rightarrow> handler Descriptor \<Rightarrow> resp_value set" where
  "no_perm_replies ul cl d = {errNoAuth, errNoPermCommand ul (c_User cl) (d_fullName d), errNoPermKey (c_User cl), errNoPermChannel (c_User cl)}"

lemma resolve_unauthorised:
  assumes "find_command ul (h_table h) args = Inr d" "\<not> authorised h c d args" "ExtractKeys d args \<noteq> None"
  shows "\<exists>err \<in> no_perm_replies ul (f_clients h c) d. resolve ul eg c args h = Some (h, Inl err)"
  using assms
  by (auto simp: resolve_def authorised_def may_run_def no_perm_replies_def checkPermissions_def Let_def list_ex_iff list_all_iff
      split: option.splits)

definition quiet :: "client \<Rightarrow> client" where
  "quiet cl = cl\<lparr>c_outbox := [], c_overflowed := False\<rparr>"

lemma deliver_quiet:
  "quiet (f_clients (fst (deliver c v s)) d) = quiet (f_clients s d)" "f_channels (fst (deliver c v s)) = f_channels s"
  "f_patterns (fst (deliver c v s)) = f_patterns s" "f_monitors (fst (deliver c v s)) = f_monitors s"
  by (auto simp: deliver_def quiet_def)

lemma feed_quiet:
  "quiet (f_clients (feed_loop c line ms s) d) = quiet (f_clients s d)" "f_channels (feed_loop c line ms s) = f_channels s"
  "f_patterns (feed_loop c line ms s) = f_patterns s" "f_monitors (feed_loop c line ms s) = f_monitors s"
  by (induction ms arbitrary: s) (simp_all add: deliver_quiet)

lemma quietD:
  assumes "quiet cl = quiet cl'"
  shows "c_Perms cl = c_Perms cl'" "c_Authenticated cl = c_Authenticated cl'" "c_Out cl = c_Out cl'" "c_User cl = c_User cl'"
    "c_inMulti cl = c_inMulti cl'" "c_queue cl = c_queue cl'" "c_watching cl = c_watching cl'"
    "c_channels cl = c_channels cl'" "c_patterns cl = c_patterns cl'"
  using assms by (cases cl; cases cl'; simp add: quiet_def)+

lemma Feed_quiet:
  "quiet (f_clients (mon_Feed ul q now c args s) d) = quiet (f_clients s d)" "f_channels (mon_Feed ul q now c args s) = f_channels s"
  "f_patterns (mon_Feed ul q now c args s) = f_patterns s" "f_monitors (mon_Feed ul q now c args s) = f_monitors s"
  by (simp_all add: mon_Feed_def feed_quiet)

text \<open>C12: A refused command changes nothing. When a client without a right to a command sends it, alone or inside
  \<open>MULTI\<close>, the keyspace, the log, the hook calls, the accounts and the registries of channels, patterns,
  watches and monitors stay as they are, no command is queued, and the client reads one error.\<close>

theorem unauthorised_changes_nothing:
  assumes "find_command (l_unicode l) (h_table h) args = Inr d" "\<not> authorised h c d args" "ExtractKeys d args \<noteq> None" "args \<noteq> []"
  shows "\<exists>h' err. Execute l eg now c args h = Some h' \<and> err \<in> no_perm_replies (l_unicode l) (f_clients h c) d \<and>
    c_Out (f_clients h' c) = c_Out (f_clients h c) @ [OutValue err] \<and> c_queue (f_clients h' c) = c_queue (f_clients h c) \<and>
    front.more h' = front.more h \<and> f_channels h' = f_channels h \<and> f_patterns h' = f_patterns h \<and>
    f_watchers h' = f_watchers h \<and> f_monitors h' = f_monitors h"
proof -
  let ?h = "mon_Feed (l_unicode l) (l_quote l) now c args h"
  have s: "still h ?h" by (rule still_Feed)
  then have m: "front.more ?h = front.more h" "f_watchers ?h = f_watchers h" by (simp_all add: still_def)
  note e = host_more_eq[OF m(1)]
  note q = quietD[OF Feed_quiet(1)[of "l_unicode l" "l_quote l" now c args h c]]
  have u: "\<not> authorised ?h c d args" using assms(2) by (simp add: authorised_def e q)
  have "no_perm_replies (l_unicode l) (f_clients ?h c) d = no_perm_replies (l_unicode l) (f_clients h c) d"
    by (simp add: no_perm_replies_def q)
  then obtain err where err: "err \<in> no_perm_replies (l_unicode l) (f_clients h c) d"
    "resolve (l_unicode l) eg c args ?h = Some (?h, Inl err)"
    using resolve_unauthorised[OF _ u assms(3), of "l_unicode l" eg] assms(1) by (auto simp: e)
  have "Execute l eg now c args h = Some (out_WriteValue c err ?h) \<or>
      Execute l eg now c args h = Some (out_WriteValue c err (on_client c (\<lambda>cl. cl\<lparr>c_multiAborted := True\<rparr>) ?h))"
    using assms(4) err(2) by (simp add: Execute_def Let_def queueCommand_def)
  then obtain h' where h': "Execute l eg now c args h = Some h'"
    "h' = out_WriteValue c err ?h \<or> h' = out_WriteValue c err (on_client c (\<lambda>cl. cl\<lparr>c_multiAborted := True\<rparr>) ?h)" by blast
  have "front.more h' = front.more h"
    using h'(2) m(1) by (auto simp: out_WriteValue_def on_client_def)
  then show ?thesis
    using h' err(1) by (intro exI[of _ h'] exI[of _ err]) (auto simp: out_WriteValue_def q m Feed_quiet)
qed

subsection \<open>Subscribing by pattern\<close>

definition psubscribe_descriptor :: "handler Descriptor" where
  "psubscribe_descriptor =
     Descriptor (lit ''PSUBSCRIBE'') (- 2) (FReadonly OR FFast OR FLoading OR FStale OR FSubscriberOK OR FNoMulti) 0 0 0
       [lit ''pubsub'', lit ''fast''] (Some (HSubscribe True)) EffectVerbatim LocalityUnset [] None (lit ''PSUBSCRIBE'')
       (lit ''psubscribe'')"

text \<open>A user who may use \<open>PSUBSCRIBE\<close> and the channels that match \<open>n?ws\<close>, and one client of that user.\<close>

definition news_reader :: User where
  "news_reader = \<lparr>u_Name = lit ''reader'', enabled = True, nopass = True, passwords = [],
     allowed = [lit ''psubscribe'' \<mapsto> True, lit ''set'' \<mapsto> False], rules = [lit ''+psubscribe''], allKeys = False, keyPatterns = [],
     allChannels = False, channelPatterns = [lit ''n?ws'']\<rparr>"

definition acl_host :: "nat host" where
  "acl_host = tx_host\<lparr>
     f_clients := (\<lambda>c. (NewClient [] True)\<lparr>c_User := lit ''reader'', c_Perms := Some news_reader\<rparr>), f_watchers := [],
     h_table := \<lparr>byName = [lit ''SET'' \<mapsto> set_descriptor, lit ''PSUBSCRIBE'' \<mapsto> psubscribe_descriptor],
       t_all = [psubscribe_descriptor, set_descriptor], disabled = {}\<rparr>\<rparr>"

theorem unauthorised_changes_nothing_witness:
  "\<exists>h' err. Execute plain_lib count_engine (0, 0) 1 set_k acl_host = Some h' \<and>
     err \<in> no_perm_replies plain_unicode (f_clients acl_host 1) set_descriptor \<and> h_engine h' = 0"
proof -
  have f: "find_command (l_unicode plain_lib) (h_table acl_host) set_k = Inr set_descriptor"
    by (simp add: find_command_def Lookup_def acl_host_def tx_host_def set_k_def arg_at_def set_descriptor_def arityOK_def Let_def lit_def)
  have a: "\<not> authorised acl_host 1 set_descriptor set_k"
    by (simp add: authorised_def may_run_def CanRun_def acl_host_def tx_host_def set_descriptor_def news_reader_def d_Is_def flag_defs lit_def)
  have k: "ExtractKeys set_descriptor set_k \<noteq> None" by (simp add: ExtractKeys_def set_descriptor_def set_k_def Let_def keys_loop.simps lst_nth_def)
  have "set_k \<noteq> []" by (simp add: set_k_def)
  from unauthorised_changes_nothing[OF f a k this, of count_engine "(0, 0)"]
  obtain h' err where "Execute plain_lib count_engine (0, 0) 1 set_k acl_host = Some h'" "front.more h' = front.more acl_host"
    "err \<in> no_perm_replies plain_unicode (f_clients acl_host 1) set_descriptor"
    by (auto simp: plain_lib_def)
  then show ?thesis using host_more_eq(1)[of h' acl_host] by (auto simp: acl_host_def tx_host_def)
qed


end
