(* ===== verification/Write_Order.thy ===== *)
theory Write_Order
  imports Keyspace "HOL-Library.Multiset"
begin

text \<open>
  The ordering locks of \<open>engine/order.go\<close>. A lock is the number of its shard, counted over all
  databases; a write takes the locks of its shards in ascending order before it runs and gives them
  back, last first, after its effect has been propagated. Goroutines that do this are a transition
  system here; from the order it follows that they never wait for each other in a circle. A Go mutex
  is not reentrant: who locks one it holds waits forever.
\<close>

subsection \<open>The shards of a write\<close>

definition containsInt :: "nat list \<Rightarrow> nat \<Rightarrow> bool" where
  "containsInt xs v = list_ex (\<lambda>x. x = v) xs"

text \<open>The inner loop of \<open>sortInts\<close>: element \<open>j\<close> sinks until the one before it is not larger.\<close>

fun sink :: "nat \<Rightarrow> nat list \<Rightarrow> nat list" where
  "sink 0 xs = xs"
| "sink (Suc j) xs = (if xs ! Suc j < xs ! j then sink j (xs[Suc j := xs ! j, j := xs ! Suc j]) else xs)"

definition sortInts :: "nat list \<Rightarrow> nat list" where
  "sortInts xs = fold sink [1 ..< length xs] xs"

fun collect_shards :: "env \<Rightarrow> db \<Rightarrow> bytes list \<Rightarrow> nat list \<Rightarrow> nat list" where
  "collect_shards e db [] idx = idx"
| "collect_shards e db (k # ks) idx =
     (let i = shardIndex e db k in collect_shards e db ks (if containsInt idx i then idx else idx @ [i]))"

text \<open>\<open>OrderWrites\<close>: the shards of this database it locks, in the order it locks them.\<close>

definition OrderWrites :: "env \<Rightarrow> db \<Rightarrow> bytes list \<Rightarrow> nat list" where
  "OrderWrites e db keys =
     (if length keys = 0 then []
      else if length keys = 1 then [shardIndex e db (hd keys)]
      else sortInts (collect_shards e db keys []))"

text \<open>A lock by its database and shard; \<open>perDB\<close> is the number of shards of each.\<close>

definition lock_no :: "nat \<Rightarrow> nat \<Rightarrow> nat \<Rightarrow> nat" where
  "lock_no perDB d i = d * perDB + i"

definition OrderAllWrites :: "nat \<Rightarrow> nat \<Rightarrow> nat list" where
  "OrderAllWrites dbs perDB = concat (map (\<lambda>d. map (lock_no perDB d) [0 ..< perDB]) [0 ..< dbs])"

lemma length_sink [simp]: "length (sink j xs) = length xs"
  by (induction j xs rule: sink.induct) auto

lemma sink_insort:
  assumes "sorted xs"
  shows "sink (length xs) (xs @ v # ys) = insort v xs @ ys"
  using assms
proof (induction xs arbitrary: ys rule: rev_induct)
  case (snoc x xs)
  then have s: "sorted xs" and le: "\<forall>y \<in> set xs. y \<le> x" by (auto simp: sorted_append)
  show ?case
  proof (cases "v < x")
    case True
    have "(xs @ [x] @ v # ys)[Suc (length xs) := x, length xs := v] = xs @ v # x # ys"
      by (simp add: list_update_append)
    then have "sink (length (xs @ [x])) ((xs @ [x]) @ v # ys) = sink (length xs) (xs @ v # x # ys)"
      using True by (simp add: nth_append)
    also have "\<dots> = insort v xs @ x # ys" using snoc.IH[OF s] by simp
    also have "\<dots> = insort v (xs @ [x]) @ ys" using True le by (induction xs) auto
    finally show ?thesis .
  next
    case False
    then have "sorted (xs @ [x, v])" using s le by (auto simp: sorted_append)
    then have "sort (xs @ [x, v]) = xs @ [x, v]" "sort (xs @ [x, v]) = insort v (xs @ [x])"
      using snoc.prems by (intro properties_for_sort; simp add: sorted_insort)+
    then have "insort v (xs @ [x]) = xs @ [x, v]" by simp
    then show ?thesis using False by (simp add: nth_append)
  qed
qed simp

lemma sortInts_sort: "sortInts xs = sort xs"
proof -
  have "k \<le> length xs \<Longrightarrow> 0 < k \<Longrightarrow> fold sink [1 ..< k] xs = sort (take k xs) @ drop k xs" for k
  proof (induction k)
    case (Suc k)
    show ?case
    proof (cases "k = 0")
      case True
      then show ?thesis using Suc.prems by (cases xs) auto
    next
      case False
      then have "fold sink [1 ..< Suc k] xs = sink k (sort (take k xs) @ drop k xs)" using Suc by simp
      also have "\<dots> = sink (length (sort (take k xs))) (sort (take k xs) @ xs ! k # drop (Suc k) xs)"
        using Suc.prems by (simp add: Cons_nth_drop_Suc)
      also have "\<dots> = insort (xs ! k) (sort (take k xs)) @ drop (Suc k) xs" by (rule sink_insort) simp
      also have "insort (xs ! k) (sort (take k xs)) = sort (take (Suc k) xs)"
      proof -
        have "take (Suc k) xs = take k xs @ [xs ! k]" using Suc.prems by (simp add: take_Suc_conv_app_nth)
        then show ?thesis
          by (intro properties_for_sort[symmetric]) (simp_all add: sorted_insort)
      qed
      finally show ?thesis .
    qed
  qed simp
  from this[of "length xs"] show ?thesis by (cases "xs = []") (simp_all add: sortInts_def)
qed

lemma collect_shards_set: "distinct idx \<Longrightarrow> distinct (collect_shards e db ks idx) \<and>
    set (collect_shards e db ks idx) = set idx \<union> shardIndex e db ` set ks"
  by (induction ks arbitrary: idx) (auto simp: Let_def containsInt_def list_ex_iff)

lemma OrderWrites_ascending: "sorted_wrt (<) (OrderWrites e db keys) \<and> set (OrderWrites e db keys) = shardIndex e db ` set keys"
proof -
  have c: "distinct (collect_shards e db keys [])" "set (collect_shards e db keys []) = shardIndex e db ` set keys"
    using collect_shards_set[of "[]" e db keys] by auto
  have "sorted_wrt (<) (sort (collect_shards e db keys []))" using c(1) by (simp add: strict_sorted_iff)
  then show ?thesis using c(2) by (cases keys) (auto simp: OrderWrites_def sortInts_sort)
qed

lemma OrderAllWrites_upt: "OrderAllWrites dbs perDB = [0 ..< dbs * perDB]"
proof (induction dbs)
  case (Suc n)
  have "map (lock_no perDB n) [0 ..< perDB] = [n * perDB ..< n * perDB + perDB]"
    by (rule nth_equalityI) (simp_all add: lock_no_def)
  moreover have "OrderAllWrites (Suc n) perDB = OrderAllWrites n perDB @ map (lock_no perDB n) [0 ..< perDB]"
    by (simp add: OrderAllWrites_def)
  ultimately show ?case using Suc upt_add_eq_append[of 0 "n * perDB" perDB] by (simp add: add.commute)
qed (simp add: OrderAllWrites_def)


text \<open>\<open>writeLocks.acquire\<close> of \<open>command/dispatch.go\<close>: the ordering locks a write takes, in order. The guard
  against snapshots that a cross-shard write takes before them is not part of the model.\<close>

definition write_locks :: "env \<Rightarrow> db list \<Rightarrow> nat \<Rightarrow> bool \<Rightarrow> nat \<Rightarrow> bytes list \<Rightarrow> nat list" where
  "write_locks e dbs perDB cross d keys =
     (if cross then OrderAllWrites (length dbs) perDB else map (lock_no perDB d) (OrderWrites e (dbs ! d) keys))"

text \<open>
  The locks of \<open>EXEC\<close> when one of its commands makes \<open>resolve\<close> evict: all of them, and while they are
  held the one of the shard of the victim, \<open>s.prop.Lock()\<close> in \<open>evictOne\<close>.
\<close>

definition exec_evict_locks :: "nat \<Rightarrow> nat \<Rightarrow> nat \<Rightarrow> nat list" where
  "exec_evict_locks dbs perDB victim = OrderAllWrites dbs perDB @ [victim]"

lemma write_locks_ascending: "sorted_wrt (<) (write_locks e dbs perDB cross d keys)"
proof -
  have "sorted_wrt (<) (OrderWrites e (dbs ! d) keys)" using OrderWrites_ascending by blast
  then show ?thesis by (auto simp: write_locks_def OrderAllWrites_upt sorted_wrt_map lock_no_def)
qed

subsection \<open>Goroutines that take locks\<close>

record gor =
  g_want :: "nat list"
  g_held :: "nat list"
  g_worked :: bool

definition free :: "nat \<Rightarrow> (nat \<Rightarrow> gor) \<Rightarrow> nat \<Rightarrow> bool" where
  "free n s x \<longleftrightarrow> (\<forall>i < n. x \<notin> set (g_held (s i)))"

inductive order_step :: "nat \<Rightarrow> (nat \<Rightarrow> gor) \<Rightarrow> (nat \<Rightarrow> gor) \<Rightarrow> bool" for n where
  order_lock: "i < n \<Longrightarrow> g_want (s i) = x # xs \<Longrightarrow> free n s x \<Longrightarrow>
    order_step n s (s(i := (s i)\<lparr>g_want := xs, g_held := g_held (s i) @ [x]\<rparr>))"
| order_work: "i < n \<Longrightarrow> g_want (s i) = [] \<Longrightarrow> \<not> g_worked (s i) \<Longrightarrow> order_step n s (s(i := (s i)\<lparr>g_worked := True\<rparr>))"
| order_unlock: "i < n \<Longrightarrow> g_want (s i) = [] \<Longrightarrow> g_worked (s i) \<Longrightarrow> g_held (s i) = hs @ [x] \<Longrightarrow>
    order_step n s (s(i := (s i)\<lparr>g_held := hs\<rparr>))"

inductive order_run :: "nat \<Rightarrow> nat \<Rightarrow> (nat \<Rightarrow> gor) \<Rightarrow> (nat \<Rightarrow> gor) \<Rightarrow> bool" for n where
  order_run_0: "order_run n 0 s s"
| order_run_Suc: "order_run n k s t \<Longrightarrow> order_step n t u \<Longrightarrow> order_run n (Suc k) s u"

definition finished :: "gor \<Rightarrow> bool" where
  "finished g \<longleftrightarrow> g_want g = [] \<and> g_worked g \<and> g_held g = []"

text \<open>A goroutine about to take some locks.\<close>

definition starting :: "nat list \<Rightarrow> gor" where
  "starting ls = \<lparr>g_want = ls, g_held = [], g_worked = False\<rparr>"

definition order_ok :: "nat \<Rightarrow> (nat \<Rightarrow> gor) \<Rightarrow> bool" where
  "order_ok n s \<longleftrightarrow> (\<forall>i < n. sorted_wrt (<) (g_held (s i) @ g_want (s i))) \<and>
     (\<forall>i < n. \<forall>j < n. i \<noteq> j \<longrightarrow> set (g_held (s i)) \<inter> set (g_held (s j)) = {})"

lemma order_step_ok: "order_step n s t \<Longrightarrow> order_ok n s \<Longrightarrow> order_ok n t"
proof (induction rule: order_step.induct)
  case (order_lock i s x xs)
  then show ?case by (auto simp: order_ok_def free_def)
next
  case (order_unlock i s hs x)
  then have "set hs \<subseteq> set (g_held (s i))" by auto
  then show ?case using order_unlock by (fastforce simp: order_ok_def sorted_wrt_append)
qed (auto simp: order_ok_def)

definition effort :: "gor \<Rightarrow> nat" where
  "effort g = 2 * length (g_want g) + length (g_held g) + (if g_worked g then 0 else 1)"

lemma order_step_effort: "order_step n s t \<Longrightarrow> (\<Sum>i<n. effort (s i)) = Suc (\<Sum>i<n. effort (t i))"
proof (induction rule: order_step.induct)
  case (order_lock i s x xs)
  then show ?case by (subst (1 2) sum.remove[of _ i]) (auto simp: effort_def)
next
  case (order_work i s)
  then show ?case by (subst (1 2) sum.remove[of _ i]) (auto simp: effort_def)
next
  case (order_unlock i s hs x)
  then show ?case by (subst (1 2) sum.remove[of _ i]) (auto simp: effort_def)
qed

lemma order_progress:
  assumes ok: "order_ok n s" and i: "i < n" "\<not> finished (s i)"
  shows "\<exists>t. order_step n s t"
proof (rule ccontr)
  assume stuck: "\<nexists>t. order_step n s t"
  have no_idle: "finished (s j) \<or> g_want (s j) \<noteq> []" if "j < n" for j
  proof (rule ccontr)
    assume "\<not> (finished (s j) \<or> g_want (s j) \<noteq> [])"
    then have j: "g_want (s j) = []" "\<not> (g_worked (s j) \<and> g_held (s j) = [])" by (auto simp: finished_def)
    show False
    proof (cases "g_worked (s j)")
      case True
      then obtain hs x where "g_held (s j) = hs @ [x]" using j(2) by (metis rev_exhaust)
      then show False using order_unlock[of j n s hs x] that j(1) True stuck by blast
    qed (use order_work[of j n s] that j(1) stuck in blast)
  qed
  let ?W = "{j. j < n \<and> g_want (s j) \<noteq> []}"
  have W: "finite ?W" "?W \<noteq> {}" using i no_idle by (auto simp: finished_def)
  let ?M = "Max ((\<lambda>j. hd (g_want (s j))) ` ?W)"
  have "?M \<in> (\<lambda>j. hd (g_want (s j))) ` ?W" using W by (intro Max_in) auto
  then obtain m where m: "m \<in> ?W" "?M = hd (g_want (s m))" by blast
  have top: "hd (g_want (s j)) \<le> hd (g_want (s m))" if "j \<in> ?W" for j
    unfolding m(2)[symmetric] using W(1) that by (intro Max_ge) auto
  obtain x xs where x: "g_want (s m) = x # xs" using m(1) by (cases "g_want (s m)") auto
  have "\<not> free n s x" using order_lock[of m n s x xs] m(1) x stuck by blast
  then obtain j where j: "j < n" "x \<in> set (g_held (s j))" by (auto simp: free_def)
  then have "\<not> finished (s j)" by (auto simp: finished_def)
  then have jw: "g_want (s j) \<noteq> []" using no_idle j(1) by blast
  have "sorted_wrt (<) (g_held (s j) @ g_want (s j))" using ok j(1) by (simp add: order_ok_def)
  then have "x < hd (g_want (s j))" using j(2) jw by (auto simp: sorted_wrt_append)
  moreover have "hd (g_want (s j)) \<le> x" using top[of j] j(1) jw x by auto
  ultimately show False by simp
qed

lemma order_run_ok: "order_run n k s t \<Longrightarrow> order_ok n s \<Longrightarrow> order_ok n t \<and> k + (\<Sum>i<n. effort (t i)) = (\<Sum>i<n. effort (s i))"
  by (induction rule: order_run.induct) (auto simp: order_step_ok order_step_effort)

definition length_env :: env where
  "length_env = \<lparr>e_Index = 0, e_Now = 0, e_loading = False, e_replica = False, e_trackAccess = False, e_lfu = False,
     e_MaxStringLength = 1024, e_limits = DefaultThresholds, e_Sum64 = (\<lambda>k. of_nat (length k)),
     e_draw = (\<lambda>_. False), e_capList = (\<lambda>_. 64)\<rparr>"

text \<open>C13: The ordering locks of writes cannot deadlock. Any number of goroutines, each taking the ordering locks of some write in
  the order the code takes them: in every reachable state no lock is held twice, somebody can move as long
  as somebody has not finished, and no run is longer than a bound fixed at the start.\<close>

theorem ordered_writes_never_deadlock:
  assumes "\<forall>i < n. \<exists>cross d keys. s0 i = starting (write_locks e dbs perDB cross d keys)" "order_run n k s0 s"
  shows "(\<forall>i < n. \<forall>j < n. i \<noteq> j \<longrightarrow> set (g_held (s i)) \<inter> set (g_held (s j)) = {}) \<and>
    ((\<exists>i < n. \<not> finished (s i)) \<longrightarrow> (\<exists>t. order_step n s t)) \<and> k \<le> (\<Sum>i<n. effort (s0 i))"
proof -
  have "order_ok n s0" unfolding order_ok_def
  proof (intro conjI allI impI)
    fix i assume "i < n"
    then obtain cross d keys where "s0 i = starting (write_locks e dbs perDB cross d keys)" using assms(1) by blast
    then show "sorted_wrt (<) (g_held (s0 i) @ g_want (s0 i))" by (simp add: starting_def write_locks_ascending)
  next
    fix i j assume "i < n" "j < n"
    then obtain ls where "s0 i = starting ls" using assms(1) by blast
    then show "set (g_held (s0 i)) \<inter> set (g_held (s0 j)) = {}" by (simp add: starting_def)
  qed
  then have ok: "order_ok n s" "k \<le> (\<Sum>i<n. effort (s0 i))" using order_run_ok[OF assms(2)] by auto
  have "(\<exists>i < n. \<not> finished (s i)) \<longrightarrow> (\<exists>t. order_step n s t)" using order_progress[OF ok(1)] by blast
  moreover have "\<forall>i < n. \<forall>j < n. i \<noteq> j \<longrightarrow> set (g_held (s i)) \<inter> set (g_held (s j)) = {}" using ok(1) by (simp add: order_ok_def)
  ultimately show ?thesis using ok(2) by blast
qed

theorem ordered_writes_never_deadlock_witness:
  "\<exists>s0 s. s0 = (\<lambda>i :: nat. starting (write_locks length_env [newDB 4, newDB 4] 4 (i = 1) 1 [[1, 2, 3], [1], [2]])) \<and>
     order_run 2 1 s0 s \<and> g_held (s 0) = [5] \<and> g_want (s 0) = [7] \<and> g_want (s 1) = [0 ..< 8] \<and> (\<exists>t. order_step 2 s t)"
proof -
  let ?init = "\<lambda>i :: nat. starting (write_locks length_env [newDB 4, newDB 4] 4 (i = 1) 1 [[1, 2, 3], [1], [2]])"
  let ?next = "?init(0 := (?init 0)\<lparr>g_want := [7], g_held := g_held (?init 0) @ [5]\<rparr>)"
  have w: "?init 0 = starting [5, 7]" "?init 1 = starting [0 ..< 8]"
    by (simp_all add: write_locks_def OrderWrites_def sortInts_sort shardIndex_def length_env_def newDB_def containsInt_def
        lock_no_def OrderAllWrites_upt)
  have r: "order_run 2 1 ?init ?next"
    using order_run_Suc[OF order_run_0 order_lock[of 0 2 ?init 5 "[7]"]] w by (simp add: starting_def free_def)
  have "(\<exists>i < 2. \<not> finished (?next i)) \<longrightarrow> (\<exists>t. order_step 2 ?next t)"
    using ordered_writes_never_deadlock[of 2 ?init length_env "[newDB 4, newDB 4]" 4 1 ?next] r by blast
  moreover have "(0 :: nat) < 2 \<and> \<not> finished (?next 0)" by (simp add: finished_def)
  ultimately have "\<exists>t. order_step 2 ?next t" by blast
  moreover have "g_held (?next 0) = [5]" "g_want (?next 0) = [7]" "g_want (?next 1) = [0 ..< 8]" using w by (simp_all add: starting_def)
  ultimately show ?thesis using r by blast
qed



end
