(* ===== verification/Spec2Isabelle.thy ===== *)
theory Spec2Isabelle
  imports Kestrel_Prelude Simulation Listpack Glob Decimal Log_Record Log_Stream Dict Dict_Table
    Dict_Map Dict_Scan Quicklist List_Type Object Shard String_Ops List_Ops Expire_Ops
    Keyspace Keyspace_Spec Replay Resp_Reader Resp_Stream Resp_Writer
    Group_Commit
    Recovery Skiplist Sorted_Set Hash_Type Set_Type
    Command_Table ACL ACL_Rules Registry Client Pubsub Dispatch Transactions Access Write_Order
begin

text \<open>
  Kestrel, an in-memory key-value server that speaks the Redis protocol, written in Go. This
  library models the parts of it that carry its own logic and proves what makes them correct.
  All file names are relative to \<open>src/kestrel\<close>.

  \<^bold>\<open>The program.\<close> A connection decodes commands from its socket (\<open>resp/reader.go\<close>), a
  command runs against a database of the keyspace (\<open>engine/\<close>), its reply is serialised
  (\<open>resp/writer.go\<close>), and what it changed is appended to a log (\<open>persist/\<close>) before the
  reply goes out. A database is an array of shards, each a hash table from keys to objects and an
  index of the keys with a deadline; a value is a string, a list, a hash, a set or a sorted set, each
  collection with a compact encoding in one byte slice (the listpack) and a large one. At a restart
  the log is replayed into an empty keyspace.

  \<^bold>\<open>Conventions.\<close> A Go function that can panic (an index or slice out of range, a nil
  dereference) returns \<open>'a go\<close>, that is \<open>option\<close>, with \<open>None\<close> the panic; a Go
  error is \<open>Inl\<close> of a sum. A byte is an \<open>8 word\<close>, hashes and cursors are words of
  their width, and where an \<open>int64\<close> can overflow the wrap-around is written out
  (\<open>wrap64\<close>). A slice is a list; slices are at most \<open>2 ^ 63 - 1\<close> long
  (\<open>len_ok\<close>). Pointers that matter (the overflow arena of the dict, the nodes of the skip
  list) are indices into an explicit store. A loop is recursion: structural, with a measure, or with
  fuel. Fuel is always a quantity the code bounds (the number of slots of an arena, of nodes of a
  skip list, of buckets of a table, of bytes left), running out of it is \<open>None\<close>, and the
  theorems show the result is \<open>Some\<close>, so it never runs out.

  \<^bold>\<open>Interfaces.\<close> \<open>Simulation\<close> states once what a data structure promises the code
  above it: a step function that never panics, answers as an abstract step function does and keeps
  the relation between the states (locales \<open>guarded_simulation\<close>, for a structure that relies
  on its caller, and \<open>simulation\<close>, a sublocale of it). The facts about whole runs are proved
  there; the dict, the list, the skip list, the sorted set and the keyspace interpret them.
  \<open>Registry\<close> states what a two-sided subscription promises (locale \<open>subscription\<close>: the
  registry and what each client holds agree, adding and dropping keep it so); the channels and patterns of
  publish/subscribe and the watched keys of transactions interpret it.

  \<^bold>\<open>The theories.\<close>
  \<^item> \<open>Kestrel_Prelude\<close>: bytes, panics, slices, \<open>copy\<close>, 64-bit wrap-around and list lemmas.
  \<^item> \<open>Listpack\<close> (\<open>engine/listpack.go\<close>): every operation on the byte buffer, related to
    the list of its entries. \<open>Quicklist\<close> and \<open>List_Type\<close> (\<open>engine/list.go\<close>): a
    list value in both encodings behaves as a sequence of byte strings.
  \<^item> \<open>Dict\<close>, \<open>Dict_Table\<close>, \<open>Dict_Map\<close>, \<open>Dict_Scan\<close> (\<open>engine/dict.go\<close>):
    the two tables with inline heads, overflow arena and free chains; buckets as lists; the dict
    refines a finite map through growth, shrinking and incremental rehash, which ends; the
    reverse-binary cursor returns every key that stays, across resizes.
  \<^item> \<open>Skiplist\<close> (\<open>engine/skiplist.go\<close>): nodes in a store with spans and back pointers
    refine a sorted list, and pass the code's own check. \<open>Sorted_Set\<close> (\<open>engine/zset.go\<close>):
    the value type over listpack, skip list and dict refines the sorted list of its members.
  \<^item> \<open>Glob\<close> (\<open>engine/glob.go\<close>): the matcher decides the language of the parsed pattern.
  \<^item> \<open>Object\<close> (\<open>engine/object.go\<close>, \<open>memory.go\<close>, parts of \<open>evict.go\<close>),
    \<open>Shard\<close> (\<open>engine/keyspace.go\<close>: lookup, peek, store, remove, TTL index),
    \<open>String_Ops\<close> (\<open>engine/string.go\<close>), \<open>List_Ops\<close> (\<open>engine/list.go\<close>,
    \<open>collection.go\<close>), \<open>Expire_Ops\<close> (\<open>engine/expire.go\<close>), \<open>Keyspace\<close>
    (\<open>engine/keyspace.go\<close>, \<open>generic.go\<close>: the shards of a database and the commands
    over several keys). Each single-key command implements a function on the entry of its key
    (\<open>implements\<close>). \<open>Keyspace_Spec\<close>: whole runs refine one map from keys to values
    with deadlines, the number of shards cannot be observed, the TTL index is exact.
  \<^item> \<open>Replay\<close>: replaying what a leader logged reproduces the shard, and what goes wrong on a
    replica, in \<open>SETRANGE\<close> and in the memory estimate.
  \<^item> \<open>Decimal\<close> (\<open>resp/math.go\<close>), \<open>Resp_Reader\<close> and \<open>Resp_Stream\<close>
    (\<open>resp/reader.go\<close>, \<open>inline.go\<close>), \<open>Resp_Writer\<close> (\<open>resp/value.go\<close>,
    \<open>writer.go\<close>, \<open>replyreader.go\<close>): a pipeline of commands is read back however the
    network cuts it, no input panics the parser, replies are read back in both protocol versions.
  \<^item> \<open>Log_Record\<close>, \<open>Log_Stream\<close> (\<open>persist/record.go\<close>, \<open>reader.go\<close>):
    the record format, a torn tail and a damaged byte are detected. \<open>Group_Commit\<close>
    (\<open>persist/log.go\<close>): any number of goroutines staging, writing and waiting as a step
    relation; an acknowledged record is in the file, under the always policy forced to disk, and a
    waiter is always woken. \<open>Recovery\<close> (\<open>persist/segments.go\<close>, \<open>recover.go\<close>):
    rolling, pruning and replaying segments; a crash loses only a tail of the records.

  \<^item> \<open>Hash_Type\<close> (\<open>engine/hash.go\<close>) and \<open>Set_Type\<close> (\<open>engine/set.go\<close>): the value types
    in all their encodings refine a finite map and a finite set.
  \<^item> \<open>Command_Table\<close> (\<open>command/table.go\<close>, \<open>ExtractKeys\<close>): descriptors, registration,
    renames and lookup. \<open>ACL\<close> and \<open>ACL_Rules\<close> (\<open>command/acl.go\<close>, \<open>aclcmd.go\<close>): the
    rule language; the last rule that covers a command decides, what is listed can be fed back.
  \<^item> \<open>Client\<close> (\<open>command/client.go\<close>), \<open>Registry\<close>, \<open>Pubsub\<close> (\<open>command/pubsub.go\<close>,
    \<open>monitor.go\<close>): the registries agree with the clients, and a message reaches exactly its
    subscribers.
  \<^item> \<open>Dispatch\<close> (\<open>command/dispatch.go\<close>, \<open>transaction.go\<close>, \<open>connection.go\<close>,
    \<open>errors.go\<close>) over any engine that runs the keyspace commands; \<open>Access\<close>: what a command
    has to pass, and that a refused one changes nothing; \<open>Transactions\<close>: a transaction runs whole
    or not at all, and \<open>EXEC\<close> after \<open>WATCH\<close> is a compare and set under every interleaving
    of commands. \<open>Write_Order\<close> (\<open>engine/order.go\<close>): the ordering locks never deadlock, except
    when an \<open>EXEC\<close> evicts.

  \<^bold>\<open>Assumptions of the model.\<close> The table of a shard is a finite map, which
  \<open>Dict_Map\<close> justifies; the readings of the clock within one accessor are taken equal; arena
  and index widths of \<open>int32\<close> are not modelled; returned slices are copies. Hash functions
  are parameters and arbitrary. Formatting and parsing of floats belong to the standard library and
  are parameters, with the hypothesis that a rendered score parses back to itself; scores form a
  linear order, so there is no NaN and the two zeros are equal. A directory is the list of its
  files. The level generator of the skip list is modelled, its seed is arbitrary.
  SHA-256, the Unicode case tables beyond ASCII and \<open>strconv.Quote\<close> are arguments.

  \<^bold>\<open>Not modelled.\<close> Locks and goroutines other than those of the group commit and of the
  ordering of writes; the background expiry and eviction loops beyond one sample; random members; the byte
  sizes that depend on capacities the runtime chose; snapshots, log following and snapshot files; argument
  parsing and the handlers of the keyspace commands, which the dispatcher takes as the argument \<open>eg\<close>;
  blocking commands; the configuration, the introspection commands, replication and the sockets of
  \<open>server/\<close>.
\<close>

end
